(* ===== verification/Prelude.thy ===== *)
theory Prelude
  imports Main "HOL-Library.Multiset"
begin

text \<open>
  Shared material of the development: the fact collections the component theories add to,
  generic lemmas on lists and options, and the names of the C types that several
  components use.  Nothing here models code of its own.
\<close>

section \<open>Fact collections\<close>

named_theorems pool_inv \<open>preservation facts of the thread pool\<close>

section \<open>Options as C results\<close>

text \<open>A computation that dereferences an invalid pointer has no result: \<open>None\<close>.\<close>

lemma bind_Some_iff: "Option.bind x f = Some y \<longleftrightarrow> (\<exists>a. x = Some a \<and> f a = Some y)"
  by (cases x) auto

section \<open>Sums as C results\<close>

text \<open>An operation that may fail gives \<open>Inl\<close> the error or \<open>Inr\<close> the result; the first error ends a sequence.\<close>

definition bind_result :: "'e + 'a \<Rightarrow> ('a \<Rightarrow> 'e + 'b) \<Rightarrow> 'e + 'b" where
  "bind_result r f = (case r of Inl e \<Rightarrow> Inl e | Inr a \<Rightarrow> f a)"

lemma bind_result_simps [simp]: "bind_result (Inl e) f = Inl e" "bind_result (Inr a) f = f a"
  by (simp_all add: bind_result_def)

lemma bind_result_Inr: "bind_result r f = Inr y \<longleftrightarrow> (\<exists>a. r = Inr a \<and> f a = Inr y)"
  by (cases r) auto

lemma bind_result_assoc: "bind_result (bind_result r f) g = bind_result r (\<lambda>x. bind_result (f x) g)"
  by (cases r) auto

section \<open>Lists\<close>

lemma distinct_append_take_drop:
  "distinct (xs @ ys) \<Longrightarrow> distinct ((xs @ take n ys) @ drop n ys)"
  by simp

section \<open>Counting and sums\<close>

lemma count_list_distinct: "distinct xs \<Longrightarrow> count_list xs i = of_bool (i \<in> set xs)"
  by (induction xs) auto

lemma sum_list_zero: "(\<And>x. x \<in> set xs \<Longrightarrow> f x = 0) \<Longrightarrow> sum_list (map f xs) = (0 :: 'b::comm_monoid_add)"
  by (induction xs) auto

lemma sum_list_add: "sum_list (map f xs) + sum_list (map g xs) = sum_list (map (\<lambda>x. f x + g x :: nat) xs)"
  by (induction xs) simp_all

lemma sum_list_nested:
  "sum_list (map (\<lambda>c. sum_list (map f (g c))) xs) = sum_list (map f (concat (map g xs)))" for f :: "'a \<Rightarrow> 'b multiset"
  by (induction xs) simp_all

lemma sum_list_mset: "sum_list (map f xs) = sum_mset (image_mset f (mset xs))" for f :: "'a \<Rightarrow> 'b multiset"
  by (induction xs) simp_all

lemma sum_mset_sum_lists: "sum_mset (image_mset f (sum_list Ms)) = sum_list (map (\<lambda>M. sum_mset (image_mset f M)) Ms)"
  for f :: "'a \<Rightarrow> 'r multiset"
  by (induction Ms) simp_all

lemma sum_mset_nested:
  "sum_mset (image_mset f (sum_mset (image_mset g M))) = sum_mset (image_mset (\<lambda>x. sum_mset (image_mset f (g x))) M)"
  for f :: "'a \<Rightarrow> 'r multiset"
  by (induction M) simp_all

end
