(* ===== verification/Sll.thy ===== *)
theory Sll
  imports Prelude
begin

text \<open>
  The singly linked list of \<open>src/src/SinglyLinkedList.c\<close>, at the level of its pointers.
  Nodes live in a heap from addresses to cells, the list itself is the struct of
  \<open>src/include/SinglyLinkedList.h\<close> with \<open>head\<close>, \<open>tail\<close> and \<open>size\<close>.  An operation that
  would read through a pointer that is not a live node has the result \<open>None\<close>.
  \<open>calloc\<close> hands out the address of the heap's \<open>limit\<close> and is taken to succeed, as
  the code takes it; \<open>free\<close> removes the cell.  A null data pointer is \<open>None\<close>-free here:
  data values are of any type \<open>'a\<close>, and what \<open>sll_pop_front\<close> returns as \<open>NULL\<close> on an
  empty list is \<open>None\<close>.
\<close>

section \<open>Cells, heaps and the list struct\<close>

type_synonym ref = nat

record 'a sll_node =
  node_data :: 'a
  node_next :: "ref option"

record 'a sll_heap =
  cells :: "ref \<Rightarrow> 'a sll_node option"
  limit :: ref

record sll =
  sll_head :: "ref option"
  sll_tail :: "ref option"
  sll_size :: nat

definition sll_empty_heap :: "'a sll_heap" where
  "sll_empty_heap = \<lparr>cells = Map.empty, limit = 0\<rparr>"

definition sll_calloc :: "'a sll_heap \<Rightarrow> 'a \<Rightarrow> ref \<times> 'a sll_heap" where
  "sll_calloc h d =
     (limit h, h\<lparr>cells := (cells h)(limit h \<mapsto> \<lparr>node_data = d, node_next = None\<rparr>),
                 limit := Suc (limit h)\<rparr>)"

definition sll_free :: "'a sll_heap \<Rightarrow> ref \<Rightarrow> 'a sll_heap" where
  "sll_free h r = h\<lparr>cells := (cells h)(r := None)\<rparr>"

text \<open>\<open>node->next = n\<close>, which needs \<open>node\<close> to be live.\<close>

definition set_next :: "'a sll_heap \<Rightarrow> ref \<Rightarrow> ref option \<Rightarrow> 'a sll_heap option" where
  "set_next h r n =
     (case cells h r of None \<Rightarrow> None
      | Some c \<Rightarrow> Some (h\<lparr>cells := (cells h)(r \<mapsto> c\<lparr>node_next := n\<rparr>)\<rparr>))"

section \<open>The operations\<close>

definition sll_clear :: "sll \<Rightarrow> sll" where
  "sll_clear s = \<lparr>sll_head = None, sll_tail = None, sll_size = 0\<rparr>"

definition sll_init :: "sll \<Rightarrow> sll" where
  "sll_init s = sll_clear s"

definition sll_push_front :: "'a sll_heap \<Rightarrow> sll \<Rightarrow> 'a \<Rightarrow> ('a sll_heap \<times> sll) option" where
  "sll_push_front h s d =
     (let (n, h1) = sll_calloc h d in
      case sll_head s of
        None \<Rightarrow> Some (h1, s\<lparr>sll_head := Some n, sll_tail := Some n, sll_size := sll_size s + 1\<rparr>)
      | Some _ \<Rightarrow>
          (case set_next h1 n (sll_head s) of
             None \<Rightarrow> None
           | Some h2 \<Rightarrow> Some (h2, s\<lparr>sll_head := Some n, sll_size := sll_size s + 1\<rparr>)))"

definition sll_push_back :: "'a sll_heap \<Rightarrow> sll \<Rightarrow> 'a \<Rightarrow> ('a sll_heap \<times> sll) option" where
  "sll_push_back h s d =
     (let (n, h1) = sll_calloc h d;
          s1 = (case sll_head s of None \<Rightarrow> s\<lparr>sll_head := Some n\<rparr> | Some _ \<Rightarrow> s) in
      case (case sll_tail s1 of None \<Rightarrow> Some h1 | Some t \<Rightarrow> set_next h1 t (Some n)) of
        None \<Rightarrow> None
      | Some h2 \<Rightarrow> Some (h2, s1\<lparr>sll_tail := Some n, sll_size := sll_size s1 + 1\<rparr>))"

definition sll_pop_front :: "'a sll_heap \<Rightarrow> sll \<Rightarrow> ('a option \<times> 'a sll_heap \<times> sll) option" where
  "sll_pop_front h s =
     (if sll_size s = 0 then Some (None, h, s)
      else case sll_head s of
        None \<Rightarrow> None
      | Some first \<Rightarrow>
          (case cells h first of
             None \<Rightarrow> None
           | Some c \<Rightarrow>
               Some (Some (node_data c), sll_free h first,
                     s\<lparr>sll_head := node_next c,
                       sll_tail := (if sll_tail s = Some first then None else sll_tail s),
                       sll_size := sll_size s - 1\<rparr>)))"

text \<open>
  The loop of \<open>sll_move_append_first\<close>: walk from \<open>node\<close>, stop at the end of the list or
  when \<open>i\<close> has reached \<open>n\<close>; the results are the last node visited and the count.
\<close>

function move_loop :: "'a sll_heap \<Rightarrow> ref option \<Rightarrow> ref \<Rightarrow> nat \<Rightarrow> nat \<Rightarrow> (ref \<times> nat) option" where
  "move_loop h node final i n =
     (case node of
        None \<Rightarrow> Some (final, i)
      | Some r \<Rightarrow>
          if n \<le> i then Some (final, i)
          else (case cells h r of
                  None \<Rightarrow> None
                | Some c \<Rightarrow> move_loop h (node_next c) r (i + 1) n))"
  by pat_completeness auto
termination
  by (relation "measure (\<lambda>(h, node, final, i, n). n - i)") auto

declare move_loop.simps [simp del]

definition sll_move_append_first ::
    "'a sll_heap \<Rightarrow> sll \<Rightarrow> sll \<Rightarrow> nat \<Rightarrow> ('a sll_heap \<times> sll \<times> sll) option" where
  "sll_move_append_first h dst src n =
     (if sll_size src = 0 then Some (h, dst, src)
      else
        case (case sll_head dst of
                Some _ \<Rightarrow>
                  (case sll_tail dst of
                     None \<Rightarrow> None
                   | Some t \<Rightarrow>
                       (case set_next h t (sll_head src) of
                          None \<Rightarrow> None
                        | Some h1 \<Rightarrow> Some (h1, dst)))
              | None \<Rightarrow> Some (h, dst\<lparr>sll_head := sll_head src\<rparr>)) of
          None \<Rightarrow> None
        | Some (h1, dst1) \<Rightarrow>
            if sll_size src \<le> n
            then Some (h1, dst1\<lparr>sll_size := sll_size dst1 + sll_size src,
                                sll_tail := sll_tail src\<rparr>, sll_clear src)
            else
              case sll_head src of
                None \<Rightarrow> None
              | Some first \<Rightarrow>
                  (case move_loop h1 (Some first) first 0 n of
                     None \<Rightarrow> None
                   | Some (final, i) \<Rightarrow>
                       (case cells h1 final of
                          None \<Rightarrow> None
                        | Some c \<Rightarrow>
                            (case set_next h1 final None of
                               None \<Rightarrow> None
                             | Some h2 \<Rightarrow>
                                 Some (h2, dst1\<lparr>sll_tail := Some final,
                                                 sll_size := sll_size dst1 + i\<rparr>,
                                       src\<lparr>sll_head := node_next c,
                                           sll_size := sll_size src - i\<rparr>)))))"

definition sll_move_append :: "'a sll_heap \<Rightarrow> sll \<Rightarrow> sll \<Rightarrow> ('a sll_heap \<times> sll \<times> sll) option" where
  "sll_move_append h dst src = sll_move_append_first h dst src (sll_size src)"

definition sll_get_size :: "sll option \<Rightarrow> nat" where
  "sll_get_size s = (case s of None \<Rightarrow> 0 | Some l \<Rightarrow> sll_size l)"

definition sll_head_node :: "sll option \<Rightarrow> ref option" where
  "sll_head_node s = (case s of None \<Rightarrow> None | Some l \<Rightarrow> sll_head l)"

definition sll_next_node :: "'a sll_heap \<Rightarrow> ref option \<Rightarrow> ref option option" where
  "sll_next_node h node =
     (case node of None \<Rightarrow> Some None
      | Some r \<Rightarrow> (case cells h r of None \<Rightarrow> None | Some c \<Rightarrow> Some (node_next c)))"

definition sll_tail_node :: "sll option \<Rightarrow> ref option" where
  "sll_tail_node s = (case s of None \<Rightarrow> None | Some l \<Rightarrow> sll_tail l)"

definition sll_node_data :: "'a sll_heap \<Rightarrow> ref option \<Rightarrow> 'a option option" where
  "sll_node_data h node =
     (case node of None \<Rightarrow> Some None
      | Some r \<Rightarrow> (case cells h r of None \<Rightarrow> None | Some c \<Rightarrow> Some (Some (node_data c))))"

text \<open>
  \<open>sll_destroy\<close> walks to the end of the chain, hands each datum to \<open>destroy\<close> (when there is
  one) before the node is freed, and clears the struct.  The walk stops at a null next
  pointer only, so it is given fuel; the number of nodes is enough
  (\<open>sll_destroy_ok\<close>).  The list of the result is what \<open>destroy\<close> was called on, in order.
\<close>

fun destroy_loop :: "nat \<Rightarrow> 'a sll_heap \<Rightarrow> ref option \<Rightarrow> ('a list \<times> 'a sll_heap) option" where
  "destroy_loop fuel h None = Some ([], h)"
| "destroy_loop 0 h (Some r) = None"
| "destroy_loop (Suc fuel) h (Some r) =
     (case cells h r of
        None \<Rightarrow> None
      | Some c \<Rightarrow>
          (case destroy_loop fuel (sll_free h r) (node_next c) of
             None \<Rightarrow> None
           | Some (ds, h') \<Rightarrow> Some (node_data c # ds, h')))"

definition sll_destroy ::
    "nat \<Rightarrow> 'a sll_heap \<Rightarrow> sll \<Rightarrow> bool \<Rightarrow> ('a list \<times> 'a sll_heap \<times> sll) option" where
  "sll_destroy fuel h s destroy =
     (case destroy_loop fuel h (sll_head_node (Some s)) of
        None \<Rightarrow> None
      | Some (ds, h') \<Rightarrow> Some (if destroy then ds else [], h', sll_clear s))"


section \<open>What a well-formed list is\<close>

text \<open>\<open>path m p rs q\<close>: following next pointers from \<open>p\<close> visits exactly \<open>rs\<close> and ends in \<open>q\<close>.\<close>

fun path :: "(ref \<Rightarrow> 'a sll_node option) \<Rightarrow> ref option \<Rightarrow> ref list \<Rightarrow> ref option \<Rightarrow> bool" where
  "path m p [] q = (p = q)"
| "path m p (r # rs) q =
     (p = Some r \<and> (case m r of None \<Rightarrow> False | Some c \<Rightarrow> path m (node_next c) rs q))"

definition data_of :: "(ref \<Rightarrow> 'a sll_node option) \<Rightarrow> ref \<Rightarrow> 'a option" where
  "data_of m r = map_option node_data (m r)"

text \<open>\<open>sll_ok h s rs ds\<close>: the struct \<open>s\<close> holds the data \<open>ds\<close> in the nodes \<open>rs\<close> of \<open>h\<close>.\<close>

definition sll_ok :: "'a sll_heap \<Rightarrow> sll \<Rightarrow> ref list \<Rightarrow> 'a list \<Rightarrow> bool" where
  "sll_ok h s rs ds \<longleftrightarrow>
     path (cells h) (sll_head s) rs None \<and> distinct rs \<and>
     sll_tail s = (if rs = [] then None else Some (last rs)) \<and>
     sll_size s = length rs \<and>
     map (data_of (cells h)) rs = map Some ds \<and>
     (\<forall>r \<in> set rs. r < limit h)"

lemma path_cong:
  "(\<And>r. r \<in> set rs \<Longrightarrow> m r = m' r) \<Longrightarrow> path m p rs q = path m' p rs q"
  by (induction rs arbitrary: p) (auto split: option.splits)

lemma path_upd [simp]: "r \<notin> set rs \<Longrightarrow> path (m(r := c)) p rs q = path m p rs q"
  by (rule path_cong) auto

lemma path_append: "path m p (rs @ rs') q \<longleftrightarrow> (\<exists>x. path m p rs x \<and> path m x rs' q)"
  by (induction rs arbitrary: p) (auto split: option.splits)

lemma path_snoc:
  "path m p (rs @ [r]) q \<longleftrightarrow>
     path m p rs (Some r) \<and> (\<exists>c. m r = Some c \<and> node_next c = q)"
  by (auto simp: path_append split: option.splits)

lemma path_head: "path m p rs None \<Longrightarrow> p = (if rs = [] then None else Some (hd rs))"
  by (cases rs) auto

lemma path_live: "path m p rs q \<Longrightarrow> r \<in> set rs \<Longrightarrow> \<exists>c. m r = Some c"
  by (induction rs arbitrary: p) (auto split: option.splits)

lemma data_of_upd [simp]: "r \<noteq> r' \<Longrightarrow> data_of (m(r' := c)) r = data_of m r"
  by (simp add: data_of_def)

lemma data_of_set [simp]: "data_of (m(r \<mapsto> c)) r = Some (node_data c)"
  by (simp add: data_of_def)

lemma map_data_cong:
  "(\<And>r. r \<in> set rs \<Longrightarrow> data_of m r = data_of m' r) \<Longrightarrow>
   map (data_of m) rs = map (data_of m') rs"
  by simp

lemma sll_ok_length: "sll_ok h s rs ds \<Longrightarrow> length ds = length rs"
  unfolding sll_ok_def by (metis length_map)

text \<open>A list does not change when the heap changes outside its nodes.\<close>

lemma sll_ok_frame:
  assumes "sll_ok h s rs ds"
    and "\<And>r. r \<in> set rs \<Longrightarrow> cells h' r = cells h r"
    and "limit h \<le> limit h'"
  shows "sll_ok h' s rs ds"
proof -
  have "path (cells h') (sll_head s) rs None = path (cells h) (sll_head s) rs None"
    by (rule path_cong) (simp add: assms(2))
  moreover have "map (data_of (cells h')) rs = map (data_of (cells h)) rs"
    by (rule map_data_cong) (simp add: assms(2) data_of_def)
  moreover have "\<forall>r \<in> set rs. r < limit h'"
    using assms(1,3) by (auto simp: sll_ok_def)
  ultimately show ?thesis
    using assms(1) unfolding sll_ok_def by argo
qed

text \<open>Redirecting the last node of a well-formed list.\<close>

lemma set_next_last:
  assumes "path (cells h) p (rs @ [r]) q" and "distinct (rs @ [r])"
  shows "\<exists>h'. set_next h r n = Some h' \<and> path (cells h') p (rs @ [r]) n
    \<and> limit h' = limit h \<and> (\<forall>r'. r' \<noteq> r \<longrightarrow> cells h' r' = cells h r')
    \<and> (\<forall>r'. data_of (cells h') r' = data_of (cells h) r')"
proof -
  obtain c where c: "cells h r = Some c" and p: "path (cells h) p rs (Some r)"
    using assms(1) by (auto simp: path_snoc)
  let ?h' = "h\<lparr>cells := (cells h)(r \<mapsto> c\<lparr>node_next := n\<rparr>)\<rparr>"
  have "set_next h r n = Some ?h'"
    by (simp add: set_next_def c)
  moreover have "path (cells ?h') p (rs @ [r]) n"
    using p assms(2) by (simp add: path_snoc)
  moreover have "data_of (cells ?h') r' = data_of (cells h) r'" for r'
    by (cases "r' = r") (simp_all add: data_of_def c)
  ultimately show ?thesis by auto
qed


section \<open>The operations implement list operations\<close>

lemma sll_ok_init: "sll_ok h (sll_init s) [] []"
  by (simp add: sll_ok_def sll_init_def sll_clear_def)

lemma sll_ok_Nil: "sll_ok h s [] ds \<longleftrightarrow> s = sll_clear s \<and> ds = []"
  by (cases s) (auto simp: sll_ok_def sll_clear_def)

lemma sll_push_front_ok:
  assumes "sll_ok h s rs ds"
  shows "\<exists>h' s'. sll_push_front h s d = Some (h', s') \<and> sll_ok h' s' (limit h # rs) (d # ds)
    \<and> limit h' = Suc (limit h)
    \<and> (\<forall>r. r \<noteq> limit h \<longrightarrow> cells h' r = cells h r)"
proof -
  have fresh: "limit h \<notin> set rs"
    using assms by (auto simp: sll_ok_def)
  have dat: "map (data_of ((cells h)(limit h \<mapsto> c))) rs = map Some ds" for c
    using assms fresh unfolding sll_ok_def
    by (metis data_of_upd map_data_cong)
  have hd: "sll_head s = (if rs = [] then None else Some (hd rs))"
    using assms path_head unfolding sll_ok_def by blast
  show ?thesis
  proof (cases rs)
    case Nil
    then show ?thesis
      using assms hd
      by (auto simp: sll_push_front_def sll_calloc_def sll_ok_def)
  next
    case (Cons r rs')
    then have ne: "rs \<noteq> []" by simp
    have pth: "path ((cells h)(limit h \<mapsto> c)) (sll_head s) rs None" for c
      using assms fresh by (simp add: sll_ok_def)
    show ?thesis
      using assms hd dat fresh ne pth
      by (simp add: sll_push_front_def sll_calloc_def sll_ok_def set_next_def less_SucI
          del: map_eq_conv)
  qed
qed

lemma sll_push_back_ok:
  assumes "sll_ok h s rs ds"
  shows "\<exists>h' s'. sll_push_back h s d = Some (h', s') \<and> sll_ok h' s' (rs @ [limit h]) (ds @ [d])
    \<and> limit h' = Suc (limit h)
    \<and> (\<forall>r. r \<noteq> limit h \<and> r \<notin> set rs \<longrightarrow> cells h' r = cells h r)"
proof (cases rs rule: rev_cases)
  case Nil
  then show ?thesis
    using assms by (auto simp: sll_push_back_def sll_calloc_def sll_ok_def)
next
  case (snoc rs' l)
  let ?n = "limit h"
  let ?h1 = "snd (sll_calloc h d)"
  have fresh: "?n \<notin> set rs" and dist: "distinct rs" and ne: "rs \<noteq> []"
    using assms snoc by (auto simp: sll_ok_def)
  have tail: "sll_tail s = Some l"
    using assms snoc by (auto simp: sll_ok_def)
  have head: "sll_head s = Some (hd rs)"
    using assms path_head [of "cells h" "sll_head s" rs] ne by (simp add: sll_ok_def)
  have p1: "path (cells ?h1) (sll_head s) (rs' @ [l]) None"
    using assms fresh snoc by (simp add: sll_calloc_def sll_ok_def)
  have d1: "map (data_of (cells ?h1)) rs = map Some ds"
    using assms fresh unfolding sll_ok_def sll_calloc_def
    by (simp del: map_eq_conv) (metis data_of_upd map_data_cong)
  obtain h2 where h2: "set_next ?h1 l (Some ?n) = Some h2"
      "path (cells h2) (sll_head s) (rs' @ [l]) (Some ?n)" "limit h2 = limit ?h1"
      "\<And>r. r \<noteq> l \<Longrightarrow> cells h2 r = cells ?h1 r"
      "\<And>r. data_of (cells h2) r = data_of (cells ?h1) r"
    using set_next_last [OF p1, of "Some ?n"] dist snoc by auto
  let ?s' = "s\<lparr>sll_tail := Some ?n, sll_size := sll_size s + 1\<rparr>"
  have res: "sll_push_back h s d = Some (h2, ?s')"
    using tail head h2(1) by (simp add: sll_push_back_def sll_calloc_def)
  have new: "cells h2 ?n = Some \<lparr>node_data = d, node_next = None\<rparr>"
    using h2(4) [of ?n] fresh snoc by (simp add: sll_calloc_def)
  have "path (cells h2) (sll_head s) rs (Some ?n)"
    using h2(2) snoc by simp
  then have "path (cells h2) (sll_head s) (rs @ [?n]) None"
    by (simp add: path_snoc new)
  moreover have "map (data_of (cells h2)) (rs @ [?n]) = map Some (ds @ [d])"
    using d1 new h2(5) by (simp del: map_eq_conv add: data_of_def) (metis map_data_cong data_of_def)
  ultimately have "sll_ok h2 ?s' (rs @ [?n]) (ds @ [d])"
    using assms fresh h2(3) unfolding sll_ok_def sll_calloc_def
    by (auto simp: less_Suc_eq simp del: map_eq_conv)
  moreover have "limit h2 = Suc (limit h)"
    using h2(3) by (simp add: sll_calloc_def)
  moreover have "\<forall>r. r \<noteq> ?n \<and> r \<notin> set rs \<longrightarrow> cells h2 r = cells h r"
    using h2(4) snoc by (simp add: sll_calloc_def)
  ultimately show ?thesis using res by blast
qed

lemma sll_pop_front_Nil: "sll_ok h s rs [] \<Longrightarrow> sll_pop_front h s = Some (None, h, s)"
  using sll_ok_length by (fastforce simp: sll_pop_front_def sll_ok_def)

lemma sll_pop_front_Cons:
  assumes "sll_ok h s rs (d # ds)"
  shows "\<exists>r rs' h' s'. rs = r # rs' \<and> sll_pop_front h s = Some (Some d, h', s')
    \<and> sll_ok h' s' rs' ds \<and> limit h' = limit h \<and> cells h' = (cells h)(r := None)"
proof -
  obtain r rs' where rs: "rs = r # rs'"
    using sll_ok_length [OF assms] by (cases rs) auto
  obtain c where c: "cells h r = Some c" "path (cells h) (node_next c) rs' None"
    using assms rs by (auto simp: sll_ok_def split: option.splits)
  have d: "node_data c = d" and dat: "map (data_of (cells h)) rs' = map Some ds"
    using assms rs c by (auto simp: sll_ok_def data_of_def)
  have nin: "r \<notin> set rs'" and dist: "distinct rs'"
    using assms rs by (auto simp: sll_ok_def)
  have tl: "(if sll_tail s = Some r then None else sll_tail s) =
      (if rs' = [] then None else Some (last rs'))"
    using assms rs nin by (auto simp: sll_ok_def split: if_splits)
  have "map (data_of ((cells h)(r := None))) rs' = map Some ds"
    using dat nin by (metis data_of_upd map_data_cong)
  moreover have "path ((cells h)(r := None)) (node_next c) rs' None"
    using c(2) nin by simp
  moreover have "sll_size s = Suc (length rs')" "\<forall>x \<in> set rs'. x < limit h"
      "sll_head s = Some r"
    using assms rs by (auto simp: sll_ok_def)
  ultimately show ?thesis
    using rs c(1) d dist tl
    by (simp add: sll_pop_front_def sll_free_def sll_ok_def del: map_eq_conv)
qed


lemma move_loop_path:
  "path (cells h) p rs None \<Longrightarrow>
   move_loop h p l i (i + n) = Some (last (l # take n rs), i + min n (length rs))"
proof (induction rs arbitrary: p l i n)
  case Nil
  then show ?case by (simp add: move_loop.simps)
next
  case (Cons r rs)
  then obtain c where p: "p = Some r" and c: "cells h r = Some c"
      and rest: "path (cells h) (node_next c) rs None"
    by (auto split: option.splits)
  show ?case
  proof (cases n)
    case 0
    then show ?thesis using p by (simp add: move_loop.simps)
  next
    case (Suc m)
    then show ?thesis
      using p c Cons.IH [OF rest, of r "Suc i" m] by (simp add: move_loop.simps)
  qed
qed

text \<open>Attaching the source's first node to the destination, the first step of a move.\<close>

definition move_attach :: "'a sll_heap \<Rightarrow> sll \<Rightarrow> sll \<Rightarrow> ('a sll_heap \<times> sll) option" where
  "move_attach h dst src =
     (case sll_head dst of
        Some _ \<Rightarrow>
          (case sll_tail dst of
             None \<Rightarrow> None
           | Some t \<Rightarrow>
               (case set_next h t (sll_head src) of
                  None \<Rightarrow> None
                | Some h1 \<Rightarrow> Some (h1, dst)))
      | None \<Rightarrow> Some (h, dst\<lparr>sll_head := sll_head src\<rparr>))"

lemma move_attach_ok:
  assumes d: "sll_ok h dst rs ds" and s: "sll_ok h src rs' ss"
    and disj: "set rs \<inter> set rs' = {}" and ne: "rs' \<noteq> []"
  shows "\<exists>h1 dst1. move_attach h dst src = Some (h1, dst1) \<and> limit h1 = limit h
    \<and> path (cells h1) (sll_head dst1) rs (sll_head src)
    \<and> path (cells h1) (sll_head src) rs' None
    \<and> sll_size dst1 = length rs
    \<and> (\<forall>r. data_of (cells h1) r = data_of (cells h) r)
    \<and> (\<forall>r. r \<notin> set rs \<longrightarrow> cells h1 r = cells h r)"
proof (cases rs rule: rev_cases)
  case Nil
  then have "sll_head dst = None" "sll_size dst = 0"
    using d by (auto simp: sll_ok_def)
  then show ?thesis
    using s Nil by (auto simp: move_attach_def sll_ok_def)
next
  case (snoc rs0 t)
  have pd: "path (cells h) (sll_head dst) (rs0 @ [t]) None" "distinct (rs0 @ [t])"
      and sz: "sll_size dst = length rs" and tail: "sll_tail dst = Some t"
    using d snoc by (auto simp: sll_ok_def)
  have head: "\<exists>r. sll_head dst = Some r"
    using path_head [OF pd(1)] by simp
  obtain h1 where h1: "set_next h t (sll_head src) = Some h1"
      "path (cells h1) (sll_head dst) (rs0 @ [t]) (sll_head src)" "limit h1 = limit h"
      "\<And>r. r \<noteq> t \<Longrightarrow> cells h1 r = cells h r"
      "\<And>r. data_of (cells h1) r = data_of (cells h) r"
    using set_next_last [OF pd, of "sll_head src"] by auto
  have "path (cells h1) (sll_head src) rs' None = path (cells h) (sll_head src) rs' None"
    using disj snoc by (intro path_cong h1(4)) auto
  then have "path (cells h1) (sll_head src) rs' None"
    using s by (simp add: sll_ok_def)
  moreover have "move_attach h dst src = Some (h1, dst)"
    using head tail h1(1) by (auto simp: move_attach_def)
  moreover have "path (cells h1) (sll_head dst) rs (sll_head src)"
    using h1(2) snoc by simp
  moreover have "\<forall>r. r \<notin> set rs \<longrightarrow> cells h1 r = cells h r"
    using h1(4) snoc by auto
  ultimately show ?thesis
    using sz h1(3,5) by auto
qed

lemma sll_move_append_first_eq:
  "sll_size src \<noteq> 0 \<Longrightarrow> sll_move_append_first h dst src n =
     (case move_attach h dst src of
        None \<Rightarrow> None
      | Some (h1, dst1) \<Rightarrow>
          if sll_size src \<le> n
          then Some (h1, dst1\<lparr>sll_size := sll_size dst1 + sll_size src,
                              sll_tail := sll_tail src\<rparr>, sll_clear src)
          else
            case sll_head src of
              None \<Rightarrow> None
            | Some first \<Rightarrow>
                (case move_loop h1 (Some first) first 0 n of
                   None \<Rightarrow> None
                 | Some (final, i) \<Rightarrow>
                     (case cells h1 final of
                        None \<Rightarrow> None
                      | Some c \<Rightarrow>
                          (case set_next h1 final None of
                             None \<Rightarrow> None
                           | Some h2 \<Rightarrow>
                               Some (h2, dst1\<lparr>sll_tail := Some final,
                                               sll_size := sll_size dst1 + i\<rparr>,
                                     src\<lparr>sll_head := node_next c,
                                         sll_size := sll_size src - i\<rparr>)))))"
  by (simp add: sll_move_append_first_def move_attach_def)


lemma map_take_drop_eq:
  "map f xs = map g ys \<Longrightarrow> map f (take n xs) = map g (take n ys) \<and> map f (drop n xs) = map g (drop n ys)"
  by (metis take_map drop_map)

text \<open>Moving fewer nodes than there are: the walk, the cut and the two new structs.\<close>

lemma move_cut:
  assumes p: "path (cells h1) q (rs @ take n rs') x" and px: "path (cells h1) x (drop n rs') None"
    and hd: "path (cells h1) (Some r0) rs' None"
    and dist: "distinct (rs @ rs')" and n: "0 < n" "n < length rs'"
  shows "\<exists>c h2. move_loop h1 (Some r0) r0 0 n = Some (last (take n rs'), n)
    \<and> cells h1 (last (take n rs')) = Some c \<and> node_next c = x
    \<and> set_next h1 (last (take n rs')) None = Some h2
    \<and> path (cells h2) q (rs @ take n rs') None
    \<and> path (cells h2) x (drop n rs') None
    \<and> limit h2 = limit h1
    \<and> (\<forall>r. data_of (cells h2) r = data_of (cells h1) r)
    \<and> (\<forall>r. r \<notin> set rs' \<longrightarrow> cells h2 r = cells h1 r)"
proof -
  let ?f = "last (take n rs')"
  have ne: "take n rs' \<noteq> []" using n by auto
  define ys where "ys = rs @ butlast (take n rs')"
  have ys: "rs @ take n rs' = ys @ [?f]"
    using ne by (simp add: ys_def)
  have loop: "move_loop h1 (Some r0) r0 0 n = Some (?f, n)"
    using move_loop_path [OF hd, of r0 0 n] ne n by simp
  have split_dist: "distinct ((rs @ take n rs') @ drop n rs')"
    using dist by (rule distinct_append_take_drop)
  then have dys: "distinct (ys @ [?f])" and f_drop: "?f \<notin> set (drop n rs')"
    unfolding ys by auto
  have f_in: "?f \<in> set rs'"
    using ne by (meson in_set_takeD last_in_set)
  have pys: "path (cells h1) q (ys @ [?f]) x"
    using p unfolding ys .
  obtain h2 where h2: "set_next h1 ?f None = Some h2" "path (cells h2) q (ys @ [?f]) None"
      "limit h2 = limit h1" "\<And>r. r \<noteq> ?f \<Longrightarrow> cells h2 r = cells h1 r"
      "\<And>r. data_of (cells h2) r = data_of (cells h1) r"
    using set_next_last [OF pys dys, of None] by auto
  obtain c where c: "cells h1 ?f = Some c" "node_next c = x"
    using pys by (auto simp: path_snoc)
  have "path (cells h2) x (drop n rs') None = path (cells h1) x (drop n rs') None"
    using f_drop by (intro path_cong h2(4)) auto
  moreover have "\<forall>r. r \<notin> set rs' \<longrightarrow> cells h2 r = cells h1 r"
    using f_in h2(4) by metis
  ultimately show ?thesis
    using loop c h2 px unfolding ys by auto
qed

lemma sll_move_append_first_ok:
  assumes d: "sll_ok h dst rs ds" and s: "sll_ok h src rs' ss"
    and disj: "set rs \<inter> set rs' = {}" and n: "0 < n \<or> ss = []"
  shows "\<exists>h' dst' src'. sll_move_append_first h dst src n = Some (h', dst', src')
    \<and> sll_ok h' dst' (rs @ take n rs') (ds @ take n ss)
    \<and> sll_ok h' src' (drop n rs') (drop n ss)
    \<and> limit h' = limit h
    \<and> (\<forall>r. r \<notin> set rs \<union> set rs' \<longrightarrow> cells h' r = cells h r)"
proof (cases "rs' = []")
  case True
  then have "sll_size src = 0" "ss = []"
    using s sll_ok_length [OF s] by (auto simp: sll_ok_def)
  then show ?thesis
    using d s True by (simp add: sll_move_append_first_def)
next
  case ne: False
  have len: "length ss = length rs'" and sz: "sll_size src = length rs'"
    using s sll_ok_length [OF s] by (auto simp: sll_ok_def)
  have dist: "distinct (rs @ rs')"
    using d s disj by (simp add: sll_ok_def)
  obtain h1 dst1 where att: "move_attach h dst src = Some (h1, dst1)" "limit h1 = limit h"
      "path (cells h1) (sll_head dst1) rs (sll_head src)"
      "path (cells h1) (sll_head src) rs' None" "sll_size dst1 = length rs"
      "\<And>r. data_of (cells h1) r = data_of (cells h) r"
      "\<And>r. r \<notin> set rs \<Longrightarrow> cells h1 r = cells h r"
    using move_attach_ok [OF d s disj ne] by blast
  have dat: "map (data_of (cells h1)) rs = map Some ds" "map (data_of (cells h1)) rs' = map Some ss"
    using d s att(6) by (simp_all add: sll_ok_def cong: map_cong)
  have lim: "\<forall>r \<in> set (rs @ rs'). r < limit h"
    using d s by (auto simp: sll_ok_def)
  show ?thesis
  proof (cases "length rs' \<le> n")
    case True
    have "sll_move_append_first h dst src n =
        Some (h1, dst1\<lparr>sll_size := sll_size dst1 + sll_size src, sll_tail := sll_tail src\<rparr>,
              sll_clear src)"
      using ne sz att(1) True by (simp add: sll_move_append_first_eq)
    moreover have "path (cells h1) (sll_head dst1) (rs @ rs') None"
      using att(3,4) by (auto simp: path_append)
    moreover have "sll_tail src = Some (last rs')"
      using s ne by (simp add: sll_ok_def)
    ultimately show ?thesis
      using True ne len sz att dist dat lim
      by (simp add: sll_ok_def sll_clear_def)
  next
    case False
    then have n': "0 < n" "n < length rs'" using n ne len by auto
    obtain x where x: "path (cells h1) (sll_head src) (take n rs') x"
        "path (cells h1) x (drop n rs') None"
      using att(4) path_append [of "cells h1" "sll_head src" "take n rs'" "drop n rs'" None] by auto
    have p1: "path (cells h1) (sll_head dst1) (rs @ take n rs') x"
      using att(3) x(1) by (auto simp: path_append)
    obtain r0 where r0: "sll_head src = Some r0"
      using path_head [OF att(4)] ne by auto
    from move_cut [OF p1 x(2) att(4) [unfolded r0] dist n']
    obtain c h2 where cut: "move_loop h1 (Some r0) r0 0 n = Some (last (take n rs'), n)"
      "cells h1 (last (take n rs')) = Some c" "node_next c = x"
      "set_next h1 (last (take n rs')) None = Some h2"
      "path (cells h2) (sll_head dst1) (rs @ take n rs') None"
      "path (cells h2) x (drop n rs') None" "limit h2 = limit h1"
      "\<And>r. data_of (cells h2) r = data_of (cells h1) r"
      "\<And>r. r \<notin> set rs' \<Longrightarrow> cells h2 r = cells h1 r"
      by blast
    let ?dst = "dst1\<lparr>sll_tail := Some (last (take n rs')), sll_size := sll_size dst1 + n\<rparr>"
    let ?src = "src\<lparr>sll_head := x, sll_size := sll_size src - n\<rparr>"
    have res: "sll_move_append_first h dst src n = Some (h2, ?dst, ?src)"
      using ne sz att(1) False r0 cut(1,2,3,4) by (simp add: sll_move_append_first_eq)
    have dat2: "map (data_of (cells h2)) rs = map Some ds"
        "map (data_of (cells h2)) (take n rs') = map Some (take n ss)"
        "map (data_of (cells h2)) (drop n rs') = map Some (drop n ss)"
      using dat map_take_drop_eq [OF dat(2), of n] cut(8) by (simp_all cong: map_cong)
    have lst: "last (rs @ take n rs') = last (take n rs')"
      using n' by (intro last_appendR) auto
    have "sll_ok h2 ?dst (rs @ take n rs') (ds @ take n ss)"
      using cut(5,7) dat2 n' dist lim att(2,5) lst
      by (auto simp: sll_ok_def distinct_append dest: in_set_takeD simp del: map_eq_conv)
    moreover have "sll_ok h2 ?src (drop n rs') (drop n ss)"
      using cut(6,7) dat2(3) n' dist lim att(2) s sz
      by (auto simp: sll_ok_def dest: in_set_dropD simp del: map_eq_conv)
    ultimately show ?thesis
      using res cut(7,9) att(2,7) by auto
  qed
qed

lemma sll_move_append_ok:
  assumes "sll_ok h dst rs ds" "sll_ok h src rs' ss" "set rs \<inter> set rs' = {}"
  shows "\<exists>h' dst'. sll_move_append h dst src = Some (h', dst', sll_clear src)
    \<and> sll_ok h' dst' (rs @ rs') (ds @ ss)"
proof -
  have len: "length ss = length rs'" "sll_size src = length rs'"
    using assms(2) sll_ok_length by (auto simp: sll_ok_def)
  then have "0 < sll_size src \<or> ss = []" by auto
  from sll_move_append_first_ok [OF assms this] len show ?thesis
    by (auto simp: sll_move_append_def sll_ok_Nil sll_clear_def)
qed


section \<open>Destroying a list\<close>

lemma destroy_loop_path:
  assumes "path (cells h) p rs None" and "distinct rs" and "length rs \<le> fuel"
    and "map (data_of (cells h)) rs = map Some ds"
  shows "\<exists>h'. destroy_loop fuel h p = Some (ds, h') \<and> limit h' = limit h
    \<and> (\<forall>r. cells h' r = (if r \<in> set rs then None else cells h r))"
  using assms
proof (induction rs arbitrary: fuel h p ds)
  case Nil
  then show ?case by simp
next
  case (Cons r rs)
  obtain c where c: "p = Some r" "cells h r = Some c" "path (cells h) (node_next c) rs None"
    using Cons.prems(1) by (auto split: option.splits)
  obtain f where f: "fuel = Suc f" "length rs \<le> f"
    using Cons.prems(3) by (cases fuel) auto
  have "data_of (cells h) r = Some (node_data c)"
    using c(2) by (simp add: data_of_def)
  then obtain ds' where ds: "ds = node_data c # ds'" "map (data_of (cells h)) rs = map Some ds'"
    using Cons.prems(4) by (cases ds) auto
  have nin: "r \<notin> set rs" "distinct rs"
    using Cons.prems(2) by auto
  have "path (cells (sll_free h r)) (node_next c) rs None"
    using c(3) nin by (simp add: sll_free_def)
  moreover have "map (data_of (cells (sll_free h r))) rs = map Some ds'"
    using ds(2) nin unfolding sll_free_def by (simp del: map_eq_conv) (metis data_of_upd map_data_cong)
  ultimately obtain h' where h': "destroy_loop f (sll_free h r) (node_next c) = Some (ds', h')"
      "limit h' = limit (sll_free h r)"
      "\<forall>x. cells h' x = (if x \<in> set rs then None else cells (sll_free h r) x)"
    using Cons.IH [OF _ nin(2) f(2)] by blast
  have "destroy_loop fuel h p = Some (ds, h')"
    using c(1,2) f(1) ds(1) h'(1) by simp
  moreover have "\<forall>x. cells h' x = (if x \<in> set (r # rs) then None else cells h x)"
    using h'(3) by (simp add: sll_free_def)
  ultimately show ?case
    using h'(2) by (auto simp: sll_free_def)
qed

lemma sll_destroy_ok:
  assumes "sll_ok h s rs ds" and "length rs \<le> fuel"
  shows "\<exists>h'. sll_destroy fuel h s True = Some (ds, h', sll_clear s)
    \<and> (\<forall>r. cells h' r = (if r \<in> set rs then None else cells h r))"
proof -
  have "path (cells h) (sll_head s) rs None" "distinct rs"
      "map (data_of (cells h)) rs = map Some ds"
    using assms(1) by (simp_all add: sll_ok_def)
  from destroy_loop_path [OF this(1,2) assms(2) this(3)] show ?thesis
    by (auto simp: sll_destroy_def sll_head_node_def)
qed

section \<open>The queue interface\<close>

text \<open>
  What the clients of the list rely on: a first-in first-out queue, given by an abstraction
  relation to lists and two operations that may fail only outside the relation.
\<close>

fun push_all :: "('q \<Rightarrow> 'a \<Rightarrow> 'q option) \<Rightarrow> 'q \<Rightarrow> 'a list \<Rightarrow> 'q option" where
  "push_all push q [] = Some q"
| "push_all push q (x # xs) = (case push q x of None \<Rightarrow> None | Some q' \<Rightarrow> push_all push q' xs)"

fun drain :: "('q \<Rightarrow> ('a option \<times> 'q) option) \<Rightarrow> nat \<Rightarrow> 'q \<Rightarrow> ('a option list \<times> 'q) option" where
  "drain pop 0 q = Some ([], q)"
| "drain pop (Suc n) q =
     (case pop q of
        None \<Rightarrow> None
      | Some (x, q') \<Rightarrow> map_option (\<lambda>(xs, q''). (x # xs, q'')) (drain pop n q'))"

locale fifo_queue =
  fixes rep :: "'q \<Rightarrow> 'a list \<Rightarrow> bool"
    and new :: "'q"
    and push :: "'q \<Rightarrow> 'a \<Rightarrow> 'q option"
    and pop :: "'q \<Rightarrow> ('a option \<times> 'q) option"
  assumes rep_new: "rep new []"
    and rep_push: "rep q xs \<Longrightarrow> \<exists>q'. push q x = Some q' \<and> rep q' (xs @ [x])"
    and rep_pop_Nil: "rep q [] \<Longrightarrow> pop q = Some (None, q)"
    and rep_pop_Cons: "rep q (x # xs) \<Longrightarrow> \<exists>q'. pop q = Some (Some x, q') \<and> rep q' xs"
begin

lemma push_all_rep: "rep q xs \<Longrightarrow> \<exists>q'. push_all push q ys = Some q' \<and> rep q' (xs @ ys)"
proof (induction ys arbitrary: q xs)
  case (Cons y ys)
  then obtain q1 where "push q y = Some q1" "rep q1 (xs @ [y])"
    using rep_push by blast
  then show ?case using Cons.IH [of q1 "xs @ [y]"] by simp
qed simp

lemma drain_rep:
  "rep q xs \<Longrightarrow> \<exists>q'. drain pop (length xs + n) q = Some (map Some xs @ replicate n None, q')
     \<and> rep q' []"
proof (induction xs arbitrary: q)
  case Nil
  have "drain pop n q = Some (replicate n None, q)"
    using rep_pop_Nil [OF Nil] by (induction n) auto
  then show ?case using Nil by simp
next
  case (Cons x xs)
  then obtain q1 where "pop q = Some (Some x, q1)" "rep q1 xs"
    using rep_pop_Cons by blast
  then show ?case using Cons.IH [of q1] by auto
qed

theorem push_drain:
  "\<exists>q q'. push_all push new xs = Some q
     \<and> drain pop (length xs + n) q = Some (map Some xs @ replicate n None, q')"
  using push_all_rep [OF rep_new, of xs] drain_rep by fastforce

end

text \<open>The pointer list is such a queue.\<close>

definition sll_rep :: "'a sll_heap \<times> sll \<Rightarrow> 'a list \<Rightarrow> bool" where
  "sll_rep q ds \<longleftrightarrow> (\<exists>rs. sll_ok (fst q) (snd q) rs ds)"

definition sll_new :: "'a sll_heap \<times> sll" where
  "sll_new = (sll_empty_heap, sll_init \<lparr>sll_head = None, sll_tail = None, sll_size = 0\<rparr>)"

interpretation sllq: fifo_queue sll_rep sll_new
    "\<lambda>(h, s) d. sll_push_back h s d"
    "\<lambda>(h, s). map_option (\<lambda>(d, h', s'). (d, (h', s'))) (sll_pop_front h s)"
proof (unfold_locales, goal_cases)
  case 1
  show ?case by (auto simp: sll_rep_def sll_new_def intro: sll_ok_init)
next
  case (2 q xs x)
  then obtain rs where rs: "sll_ok (fst q) (snd q) rs xs"
    by (auto simp: sll_rep_def)
  show ?case
    using sll_push_back_ok [OF rs, of x] by (cases q) (auto simp: sll_rep_def)
next
  case (3 q)
  then show ?case
    by (cases q) (auto simp: sll_rep_def dest: sll_pop_front_Nil)
next
  case (4 q x xs)
  then obtain rs where rs: "sll_ok (fst q) (snd q) rs (x # xs)"
    by (auto simp: sll_rep_def)
  show ?case
    using sll_pop_front_Cons [OF rs] by (cases q) (auto simp: sll_rep_def)
qed


section \<open>Properties\<close>

text \<open>
  Whatever is pushed at the back of a new list comes out of the front in the same order,
  each datum once, with no invalid pointer followed, and every further pop returns
  \<open>NULL\<close>.
\<close>

theorem sll_fifo:
  "\<exists>q q'. push_all (\<lambda>(h, s) d. sll_push_back h s d) sll_new ds = Some q
     \<and> drain (\<lambda>(h, s). map_option (\<lambda>(d, h', s'). (d, (h', s'))) (sll_pop_front h s))
          (length ds + n) q = Some (map Some ds @ replicate n None, q')"
  by (rule sllq.push_drain)

text \<open>
  C32: Moving \<open>n > 0\<close> items between two lists of one heap that share no node appends exactly
  the first \<open>n\<close> items of the source (all of them if there are fewer) to the destination and
  leaves the rest, both structs stay well formed (head, tail, size, chain), and no other node
  of the heap is touched.
\<close>

theorem sll_move_append_first_moves_prefix:
  assumes "sll_ok h dst rs ds" and "sll_ok h src rs' ss"
    and "set rs \<inter> set rs' = {}" and "0 < n"
  shows "\<exists>h' dst' src'. sll_move_append_first h dst src n = Some (h', dst', src')
    \<and> sll_ok h' dst' (rs @ take n rs') (ds @ take n ss)
    \<and> sll_ok h' src' (drop n rs') (drop n ss)
    \<and> (\<forall>r. r \<notin> set rs \<union> set rs' \<longrightarrow> cells h' r = cells h r)"
  using sll_move_append_first_ok [OF assms(1,2,3), of n] assms(4) by blast

text \<open>Two lists in one heap: \<open>[10]\<close> at node 0 and \<open>[20, 30]\<close> at nodes 1 and 2.\<close>

definition two_lists :: "nat sll_heap" where
  "two_lists = \<lparr>cells = [0 \<mapsto> \<lparr>node_data = 10, node_next = None\<rparr>,
                         1 \<mapsto> \<lparr>node_data = 20, node_next = Some 2\<rparr>,
                         2 \<mapsto> \<lparr>node_data = 30, node_next = None\<rparr>], limit = 3\<rparr>"

definition first_list :: sll where
  "first_list = \<lparr>sll_head = Some 0, sll_tail = Some 0, sll_size = 1\<rparr>"

definition second_list :: sll where
  "second_list = \<lparr>sll_head = Some 1, sll_tail = Some 2, sll_size = 2\<rparr>"

lemma two_lists_ok:
  "sll_ok two_lists first_list [0] [10]" "sll_ok two_lists second_list [1, 2] [20, 30]"
  by (simp_all add: sll_ok_def two_lists_def first_list_def second_list_def data_of_def)

theorem sll_move_append_first_moves_prefix_witness:
  "\<exists>h' dst' src'. sll_move_append_first two_lists first_list second_list 1 = Some (h', dst', src')
    \<and> sll_ok h' dst' [0, 1] [10, 20] \<and> sll_ok h' src' [2] [30]"
  using sll_move_append_first_moves_prefix [OF two_lists_ok, of 1] by fastforce

text \<open>
  With \<open>n = 0\<close> the move is not a no-op: the first node of a non-empty source still
  changes lists, and neither size counts it, so the destination's size is one too small and
  the source's one too large.
\<close>

theorem sll_move_append_first_zero_miscounts:
  "\<exists>h' dst' src'. sll_move_append_first two_lists first_list second_list 0 = Some (h', dst', src')
    \<and> path (cells h') (sll_head dst') [0, 1] None \<and> sll_size dst' = 1
    \<and> path (cells h') (sll_head src') [2] None \<and> sll_size src' = 2"
  by (simp add: sll_move_append_first_def two_lists_def first_list_def second_list_def
      set_next_def move_loop.simps)

end
