(* ===== verification/Trie.thy ===== *)
theory Trie
  imports Prelude
begin

text \<open>
  The trie of \<open>src/src/trie.c\<close>.  A node has a leaf flag, 256 child pointers indexed by the
  byte (\<open>uint8_t c = str[i]\<close>; a HOL \<open>char\<close> is one of 256 values), a user pointer and an
  optional free function.  The C loops walk one path of the tree in place, the model rebuilds
  that path.  A null child is \<open>None\<close>.  Calls of \<open>free_user\<close> are collected, in order, as the
  list of (function, pointer) pairs they are made with.  The C functions take a pointer and a
  length; a model string is the list of the \<open>len\<close> bytes they read.  \<open>calloc\<close> is taken to
  succeed, as the code takes it.
\<close>

section \<open>Nodes and operations\<close>

datatype ('u, 'f) trie =
  Trie (isLeaf: bool) (character: "char \<Rightarrow> ('u, 'f) trie option")
    (user_data: "'u option") (free_user: "'f option")

definition trie_alloc :: "('u, 'f) trie" where
  "trie_alloc = Trie False (\<lambda>_. None) None None"

definition call_free :: "'f option \<Rightarrow> 'u option \<Rightarrow> ('f \<times> 'u option) list" where
  "call_free f u = (case f of None \<Rightarrow> [] | Some g \<Rightarrow> [(g, u)])"

fun trie_insert_node ::
    "('u, 'f) trie \<Rightarrow> string \<Rightarrow> 'u option \<Rightarrow> 'f option
     \<Rightarrow> ('u, 'f) trie \<times> ('f \<times> 'u option) list" where
  "trie_insert_node (Trie l ch u f) [] u' f' = (Trie True ch u' f', call_free f u)"
| "trie_insert_node (Trie l ch u f) (c # cs) u' f' =
     (let (t, fr) = trie_insert_node (case ch c of None \<Rightarrow> trie_alloc | Some t \<Rightarrow> t) cs u' f'
      in (Trie l (ch(c \<mapsto> t)) u f, fr))"

definition trie_insert ::
    "('u, 'f) trie option \<Rightarrow> string option \<Rightarrow> 'u option \<Rightarrow> 'f option
     \<Rightarrow> ('u, 'f) trie option \<times> ('f \<times> 'u option) list" where
  "trie_insert head str u f =
     (case (head, str) of
        (Some t, Some s) \<Rightarrow> (let (t', fr) = trie_insert_node t s u f in (Some t', fr))
      | _ \<Rightarrow> (head, []))"

text \<open>
  The search returns 0 (\<open>None\<close>), or 1 with the node's user pointer (\<open>Some u\<close>).
\<close>

fun trie_search_node :: "('u, 'f) trie \<Rightarrow> string \<Rightarrow> 'u option option" where
  "trie_search_node t [] = (if isLeaf t then Some (user_data t) else None)"
| "trie_search_node t (c # cs) =
     (case character t c of None \<Rightarrow> None | Some t' \<Rightarrow> trie_search_node t' cs)"

definition trie_search :: "('u, 'f) trie option \<Rightarrow> string option \<Rightarrow> 'u option option" where
  "trie_search head str =
     (case (head, str) of (Some t, Some s) \<Rightarrow> trie_search_node t s | _ \<Rightarrow> None)"

definition trie_have_children :: "('u, 'f) trie \<Rightarrow> bool" where
  "trie_have_children t = list_ex (\<lambda>i. character t (char_of (i :: nat)) \<noteq> None) [0..<256]"

text \<open>
  \<open>trie_delete_recursive(&curr, str, i, len)\<close>: the new value of \<open>curr\<close> and the return
  value; the recursion reads \<open>*curr\<close> without a null check, so it has no result on \<open>None\<close>.
\<close>

fun trie_delete_recursive ::
    "('u, 'f) trie option \<Rightarrow> string
     \<Rightarrow> (bool \<times> ('u, 'f) trie option \<times> ('f \<times> 'u option) list) option" where
  "trie_delete_recursive None s = None"
| "trie_delete_recursive (Some (Trie l ch u f)) (c # cs) =
     (case trie_delete_recursive (ch c) cs of
        None \<Rightarrow> None
      | Some (rc, t', fr) \<Rightarrow>
          if rc \<and> \<not> l then Some (True, None, fr)
          else Some (False, Some (Trie l (ch(c := t')) u f), fr))"
| "trie_delete_recursive (Some (Trie l ch u f)) [] =
     (if l then
        if trie_have_children (Trie l ch u f)
        then Some (False,
                   Some (if f \<noteq> None then Trie False ch None None else Trie False ch u f),
                   call_free f u)
        else Some (True, None, call_free f u)
      else Some (False, Some (Trie l ch u f), []))"

definition trie_delete ::
    "('u, 'f) trie option \<Rightarrow> string option
     \<Rightarrow> (bool \<times> ('u, 'f) trie option \<times> ('f \<times> 'u option) list) option" where
  "trie_delete head str =
     (case (head, str) of
        (Some t, Some []) \<Rightarrow> Some (isLeaf t, head, [])
      | (Some (Trie l ch u f), Some (c # cs)) \<Rightarrow>
          (case trie_delete_recursive (ch c) cs of
             None \<Rightarrow> None
           | Some (rc, t', fr) \<Rightarrow> Some (rc, Some (Trie l (ch(c := t')) u f), fr))
      | _ \<Rightarrow> Some (False, head, []))"

text \<open>\<open>trie_free\<close> frees the children in index order and calls the free functions.\<close>

primrec trie_free_node :: "('u, 'f) trie \<Rightarrow> ('f \<times> 'u option) list" where
  "trie_free_node (Trie l ch u f) =
     concat (map (\<lambda>i. case map_option trie_free_node (ch (char_of (i :: nat))) of
                        None \<Rightarrow> [] | Some fr \<Rightarrow> fr) [0..<256])
     @ call_free f u"

definition trie_free :: "('u, 'f) trie option \<Rightarrow> ('f \<times> 'u option) list" where
  "trie_free head = (case head of None \<Rightarrow> [] | Some t \<Rightarrow> trie_free_node t)"

section \<open>Insertion and search\<close>

lemma trie_search_alloc [simp]: "trie_search_node trie_alloc s = None"
  by (cases s) (simp_all add: trie_alloc_def)

lemma trie_search_insert:
  "trie_search_node (fst (trie_insert_node t s u f)) k =
     (if k = s then Some u else trie_search_node t k)"
proof (induction t s u f arbitrary: k rule: trie_insert_node.induct)
  case (1 l ch u f u' f')
  then show ?case by (cases k) simp_all
next
  case (2 l ch u f c cs u' f')
  let ?t = "case ch c of None \<Rightarrow> trie_alloc | Some t \<Rightarrow> t"
  have child: "(case ch c of None \<Rightarrow> None | Some t \<Rightarrow> trie_search_node t k') = trie_search_node ?t k'" for k'
    by (cases "ch c") simp_all
  show ?case
    using 2 by (cases k) (auto simp: split_beta child)
qed

text \<open>Overwriting a stored string frees the old user pointer, a new string frees nothing.\<close>

fun trie_node :: "('u, 'f) trie \<Rightarrow> string \<Rightarrow> ('u, 'f) trie option" where
  "trie_node t [] = Some t"
| "trie_node t (c # cs) = (case character t c of None \<Rightarrow> None | Some t' \<Rightarrow> trie_node t' cs)"

lemma trie_node_alloc [simp]: "trie_node trie_alloc (c # cs) = None"
  by (simp add: trie_alloc_def)

lemma trie_insert_frees:
  "snd (trie_insert_node t s u f) =
     (case trie_node t s of None \<Rightarrow> [] | Some n \<Rightarrow> call_free (free_user n) (user_data n))"
proof (induction t s u f rule: trie_insert_node.induct)
  case (2 l ch u f c cs u' f')
  then show ?case
    by (cases "ch c"; cases cs) (auto simp: split_beta trie_alloc_def call_free_def)
qed simp

lemma trie_search_node_eq:
  "trie_search_node t s =
     (case trie_node t s of None \<Rightarrow> None | Some n \<Rightarrow> if isLeaf n then Some (user_data n) else None)"
  by (induction t s rule: trie_node.induct) (auto split: option.splits)

section \<open>The string map interface\<close>

text \<open>What the users of the trie rely on: a map from strings that insertion updates.\<close>

locale string_map =
  fixes empty :: 'm
    and lookup :: "'m \<Rightarrow> string \<Rightarrow> 'v option"
    and insert_str :: "'m \<Rightarrow> string \<Rightarrow> 'v \<Rightarrow> 'm"
  assumes lookup_empty: "lookup empty s = None"
    and lookup_insert: "lookup (insert_str m s v) k = (if k = s then Some v else lookup m k)"
begin

lemma lookup_fold:
  "lookup (foldl (\<lambda>m (s, v). insert_str m s v) m kvs) k =
     (case map_of (rev kvs) k of None \<Rightarrow> lookup m k | Some v \<Rightarrow> Some v)"
  by (induction kvs arbitrary: m rule: rev_induct) (auto simp: lookup_insert)

theorem lookup_inserted:
  "lookup (foldl (\<lambda>m (s, v). insert_str m s v) empty kvs) k = map_of (rev kvs) k"
  by (simp add: lookup_fold lookup_empty split: option.splits)

end

interpretation trie_map: string_map trie_alloc trie_search_node
    "\<lambda>t s u. fst (trie_insert_node t s u f)" for f :: "'f option"
  by unfold_locales (simp_all add: trie_search_insert)


section \<open>Deletion\<close>

lemma char_of_upt_256: "(\<exists>i \<in> set [0..<256]. P (char_of (i :: nat))) \<longleftrightarrow> (\<exists>c. P c)"
proof
  assume "\<exists>c. P c"
  then obtain c where "P c" ..
  then have "P (char_of (of_char c :: nat))" by simp
  moreover have "(of_char c :: nat) \<in> set [0..<256]" by simp
  ultimately show "\<exists>i \<in> set [0..<256]. P (char_of (i :: nat))" by blast
qed auto

lemma trie_have_children_iff: "trie_have_children t \<longleftrightarrow> (\<exists>c. character t c \<noteq> None)"
  unfolding trie_have_children_def list_ex_iff
  by (rule char_of_upt_256)

text \<open>
  The recursion returns 1, and the caller's child pointer is cleared, exactly on the nodes
  from which the string leads to a childless leaf through non-leaf nodes only.
\<close>

fun doomed :: "('u, 'f) trie \<Rightarrow> string \<Rightarrow> bool" where
  "doomed t [] = (isLeaf t \<and> \<not> trie_have_children t)"
| "doomed t (c # cs) =
     (\<not> isLeaf t \<and> (case character t c of None \<Rightarrow> False | Some t' \<Rightarrow> doomed t' cs))"

text \<open>The strings that are no longer found below \<open>t\<close> when \<open>s\<close> is deleted.\<close>

fun lost :: "('u, 'f) trie \<Rightarrow> string \<Rightarrow> string \<Rightarrow> bool" where
  "lost t [] k = (k = [])"
| "lost t (c # cs) [] = False"
| "lost t (c # cs) (d # k) =
     (c = d \<and> (case character t c of None \<Rightarrow> False | Some t' \<Rightarrow> doomed t' cs \<or> lost t' cs k))"

lemma trie_delete_recursive_spec:
  assumes "trie_node t s \<noteq> None"
  shows "\<exists>t' fr. trie_delete_recursive (Some t) s = Some (doomed t s, t', fr)
    \<and> (if doomed t s then t' = None
       else \<exists>t2. t' = Some t2 \<and>
              (\<forall>k. trie_search_node t2 k = (if lost t s k then None else trie_search_node t k)))"
  using assms
proof (induction t s rule: trie_node.induct)
  case (1 t)
  obtain l ch u f where t: "t = Trie l ch u f" by (cases t)
  have search: "trie_search_node (Trie False ch u' f') k =
      (if k = [] then None else trie_search_node t k)" for u' f' k
    by (cases k) (simp_all add: t)
  show ?case
    using search by (auto simp: t)
next
  case (2 t c cs)
  obtain l ch u f where t: "t = Trie l ch u f" by (cases t)
  obtain n where n: "ch c = Some n" "trie_node n cs \<noteq> None"
    using "2.prems" by (cases "ch c") (auto simp: t)
  obtain n' fr where rec: "trie_delete_recursive (Some n) cs = Some (doomed n cs, n', fr)"
      and res: "if doomed n cs then n' = None
        else \<exists>n2. n' = Some n2 \<and>
          (\<forall>k. trie_search_node n2 k = (if lost n cs k then None else trie_search_node n k))"
    using "2.IH" [of n] n by (auto simp: t)
  have search: "trie_search_node (Trie l (ch(c := n')) u f) k =
      (if lost t (c # cs) k then None else trie_search_node t k)" for k
    using res n(1) by (cases k) (auto simp: t split: if_splits)
  show ?case
    using rec res n search by (auto simp: t)
qed

lemma trie_delete_null:
  "s \<noteq> [] \<Longrightarrow> trie_node t s = None \<Longrightarrow> trie_delete (Some t) (Some s) = None"
proof -
  have rec: "trie_node t s = None \<Longrightarrow> trie_delete_recursive (Some t) s = None" for t :: "('u, 'f) trie" and s
  proof (induction t s rule: trie_node.induct)
    case (2 t c cs)
    then show ?case by (cases t; cases "character t c") auto
  qed simp
  assume "s \<noteq> []" "trie_node t s = None"
  then show ?thesis
    by (cases s; cases t; cases "character t (hd s)") (auto simp: trie_delete_def rec)
qed

lemma trie_delete_spec:
  assumes "s \<noteq> []" and "trie_node t s \<noteq> None"
  shows "\<exists>rc t' fr. trie_delete (Some t) (Some s) = Some (rc, Some t', fr)
    \<and> (\<forall>k. trie_search_node t' k = (if lost t s k then None else trie_search_node t k))"
proof -
  obtain c cs where s: "s = c # cs" using assms(1) by (cases s) auto
  obtain l ch u f where t: "t = Trie l ch u f" by (cases t)
  obtain n where n: "ch c = Some n" "trie_node n cs \<noteq> None"
    using assms(2) by (cases "ch c") (auto simp: t s)
  obtain n' fr where rec: "trie_delete_recursive (Some n) cs = Some (doomed n cs, n', fr)"
      and res: "if doomed n cs then n' = None
        else \<exists>n2. n' = Some n2 \<and>
          (\<forall>k. trie_search_node n2 k = (if lost n cs k then None else trie_search_node n k))"
    using trie_delete_recursive_spec [OF n(2)] by blast
  have search: "trie_search_node (Trie l (ch(c := n')) u f) k =
      (if lost t s k then None else trie_search_node t k)" for k
    using res n(1) by (cases k) (auto simp: t s split: if_splits)
  show ?thesis
    using rec n(1) search by (simp add: trie_delete_def s t)
qed

text \<open>The deleted string itself is gone, and strings that do not extend its parent stay.\<close>

lemma lost_self: "trie_node t s \<noteq> None \<Longrightarrow> lost t s s"
  by (induction t s rule: trie_node.induct) (auto split: option.splits)

lemma not_doomed_below:
  "trie_node t s = Some n \<Longrightarrow> trie_have_children n \<Longrightarrow> \<not> doomed t s"
  by (induction t s rule: trie_node.induct) (auto split: option.splits)

lemma lost_only_self:
  "trie_node t s = Some n \<Longrightarrow> trie_have_children n \<Longrightarrow> lost t s k \<Longrightarrow> k = s"
proof (induction t s arbitrary: k rule: trie_node.induct)
  case (2 t c cs)
  then show ?case
    by (cases k) (auto split: option.splits dest: not_doomed_below)
qed simp


lemma lost_subtree:
  "p \<noteq> [] \<Longrightarrow> trie_node t p = Some n \<Longrightarrow> doomed n q \<Longrightarrow> lost t (p @ q) (p @ k)"
proof (induction t p rule: trie_node.induct)
  case (2 t c cs)
  then obtain m where m: "character t c = Some m" "trie_node m cs = Some n"
    by (cases "character t c") auto
  show ?case
  proof (cases cs)
    case Nil
    then show ?thesis using 2 m by simp
  next
    case Cons
    then show ?thesis using "2.IH" [OF m(1)] "2.prems" m by simp
  qed
qed simp

section \<open>Properties\<close>

text \<open>
  C33: After any sequence of insertions into a new trie, a search finds exactly the strings
  inserted, each with the user pointer of its last insertion.
\<close>

theorem trie_last_insert_wins:
  "trie_search_node
     (foldl (\<lambda>t (s, u). fst (trie_insert_node t s u (f :: 'f option))) trie_alloc kvs) k =
   map_of (rev kvs) (k :: string)"
  by (rule trie_map.lookup_inserted)

text \<open>
  Deleting a string whose path exists follows no null pointer, the string is not found
  any more, no string becomes findable, and the strings that stop being found are exactly
  those \<open>lost\<close> describes: all strings below the highest node that is freed.  When the
  string is a proper prefix of another one only the string itself goes.
\<close>

theorem trie_delete_effect:
  assumes "s \<noteq> []" and "trie_node t s = Some n"
  shows "\<exists>rc t' fr. trie_delete (Some t) (Some s) = Some (rc, Some t', fr)
    \<and> trie_search_node t' s = None
    \<and> (\<forall>k. trie_search_node t' k = (if lost t s k then None else trie_search_node t k))
    \<and> (trie_have_children n \<longrightarrow>
         (\<forall>k. k \<noteq> s \<longrightarrow> trie_search_node t' k = trie_search_node t k))"
proof -
  obtain rc t' fr where del: "trie_delete (Some t) (Some s) = Some (rc, Some t', fr)"
      and eff: "\<forall>k. trie_search_node t' k = (if lost t s k then None else trie_search_node t k)"
    using trie_delete_spec [OF assms(1)] assms(2) by blast
  have "trie_search_node t' s = None"
    using eff lost_self [of t s] assms(2) by simp
  moreover have "\<forall>k. k \<noteq> s \<longrightarrow> trie_search_node t' k = trie_search_node t k"
    if "trie_have_children n"
    using eff lost_only_self [OF assms(2) that] by auto
  ultimately show ?thesis using del eff by blast
qed

text \<open>A trie that holds \<open>a\<close> and \<open>ab\<close>, and one that holds \<open>ab\<close> and \<open>ac\<close>.\<close>

definition trie_a_ab :: "(nat, nat) trie" where
  "trie_a_ab = foldl (\<lambda>t (s, u). fst (trie_insert_node t s u None)) trie_alloc
     [(''a'', Some 1), (''ab'', Some 2)]"

definition trie_ab_ac :: "(nat, nat) trie" where
  "trie_ab_ac = foldl (\<lambda>t (s, u). fst (trie_insert_node t s u None)) trie_alloc
     [(''ab'', Some 1), (''ac'', Some 2)]"

theorem trie_delete_effect_witness:
  "\<exists>rc t' fr. trie_delete (Some trie_a_ab) (Some ''a'') = Some (rc, Some t', fr)
    \<and> trie_search_node t' ''a'' = None"
proof -
  have "trie_node trie_a_ab ''a'' = Some (the (trie_node trie_a_ab ''a''))"
    by (simp add: trie_a_ab_def trie_alloc_def)
  from trie_delete_effect [OF _ this] show ?thesis by blast
qed

text \<open>
  A deletion can take other strings with it.  If the deleted string ends in a childless
  leaf and its parent is a node that is neither the root nor a stored string, the whole
  parent node is freed and every string that extends the parent's is lost, also the
  strings below the parent's other children.
\<close>

theorem trie_delete_drops_siblings:
  assumes "p \<noteq> []" and "trie_node t p = Some n" and "\<not> isLeaf n"
    and "character n c = Some m" and "isLeaf m" and "\<not> trie_have_children m"
  shows "\<exists>rc t' fr. trie_delete (Some t) (Some (p @ [c])) = Some (rc, Some t', fr)
    \<and> (\<forall>k. trie_search_node t' (p @ k) = None)"
proof -
  have app: "trie_node t (p @ q) = trie_node n q" for q
    using assms(2) by (induction t p rule: trie_node.induct) (auto split: option.splits)
  have "trie_node t (p @ [c]) \<noteq> None"
    using assms(4) by (simp add: app)
  from trie_delete_spec [OF _ this] obtain rc t' fr where
    del: "trie_delete (Some t) (Some (p @ [c])) = Some (rc, Some t', fr)"
      "\<forall>k. trie_search_node t' k = (if lost t (p @ [c]) k then None else trie_search_node t k)"
    by auto
  have "lost t (p @ [c]) (p @ k)" for k
    using lost_subtree [OF assms(1,2)] assms(3-6) by simp
  then show ?thesis using del by auto
qed

theorem trie_delete_drops_siblings_witness:
  "trie_search_node trie_ab_ac ''ac'' = Some (Some 2)
   \<and> (\<exists>rc t' fr. trie_delete (Some trie_ab_ac) (Some ''ab'') = Some (rc, Some t', fr)
        \<and> trie_search_node t' ''ac'' = None)"
proof -
  obtain n m where n: "trie_node trie_ab_ac ''a'' = Some n" "\<not> isLeaf n"
      "character n CHR ''b'' = Some m" "isLeaf m" "\<not> trie_have_children m"
    by (simp add: trie_ab_ac_def trie_alloc_def trie_have_children_iff)
  have "trie_search_node trie_ab_ac ''ac'' = Some (Some 2)"
    by (simp add: trie_ab_ac_def trie_alloc_def)
  moreover obtain rc t' fr where "trie_delete (Some trie_ab_ac) (Some (''a'' @ [CHR ''b''])) =
      Some (rc, Some t', fr)" "\<forall>k. trie_search_node t' (''a'' @ k) = None"
    using trie_delete_drops_siblings [OF _ n] by blast
  ultimately show ?thesis
    by (metis append_Cons append_Nil)
qed

text \<open>
  Deleting a string whose path is not in the trie reads through a null pointer, so the
  caller must know that the string is there.
\<close>

theorem trie_delete_absent_derefs_null:
  assumes "s \<noteq> []" and "trie_node t s = None"
  shows "trie_delete (Some t) (Some s) = None"
  using assms by (rule trie_delete_null)

theorem trie_delete_absent_derefs_null_witness:
  "trie_delete (Some trie_ab_ac) (Some ''b'') = None"
  by (rule trie_delete_absent_derefs_null)
    (simp_all add: trie_ab_ac_def trie_alloc_def)

end
