(* ===== verification/Bytes.thy ===== *)
theory Bytes
  imports Prelude
begin

text \<open>
  The parts of the C library that the trace code prints and scans numbers with, as far as the
  source uses them: \<open>printf\<close> conversions \<open>%04zx\<close>, \<open>%lu\<close>, \<open>%u\<close>, \<open>%ld\<close>, \<open>%d\<close>, the
  \<open>sscanf\<close> conversions with the same letters, and \<open>atol\<close>.  Bytes are HOL characters,
  a C string is the list of its bytes before the terminating NUL.
\<close>

section \<open>Characters\<close>

abbreviation NUL :: char where "NUL \<equiv> CHR 0x00"

abbreviation LF :: char where "LF \<equiv> CHR 0x0A"

abbreviation SLASH :: char where "SLASH \<equiv> CHR ''/''"

text \<open>What a function that takes a \<open>char *\<close> sees of a buffer: the bytes before the first NUL.\<close>

definition cstr :: "string \<Rightarrow> string" where
  "cstr s = takeWhile (\<lambda>c. c \<noteq> NUL) s"

lemma cstr_id: "NUL \<notin> set s \<Longrightarrow> cstr s = s"
  unfolding cstr_def by (rule takeWhile_eq_all_conv [THEN iffD2]) auto

definition isspace :: "char \<Rightarrow> bool" where
  "isspace c = (let n = (of_char c :: nat) in n = 32 \<or> (9 \<le> n \<and> n \<le> 13))"

definition digit_val :: "char \<Rightarrow> nat option" where
  "digit_val c =
     (let n = (of_char c :: nat) in
      if 48 \<le> n \<and> n \<le> 57 then Some (n - 48)
      else if 97 \<le> n \<and> n \<le> 102 then Some (n - 87)
      else if 65 \<le> n \<and> n \<le> 70 then Some (n - 55)
      else None)"

definition is_digit :: "nat \<Rightarrow> char \<Rightarrow> bool" where
  "is_digit b c = (case digit_val c of None \<Rightarrow> False | Some v \<Rightarrow> v < b)"

definition digit_char :: "nat \<Rightarrow> char" where
  "digit_char d = char_of (if d < 10 then 48 + d else 87 + d)"

lemma digit_val_char: "d < 16 \<Longrightarrow> digit_val (digit_char d) = Some d"
  by (auto simp: digit_val_def digit_char_def Let_def)

lemma is_digit_char: "d < b \<Longrightarrow> b \<le> 16 \<Longrightarrow> is_digit b (digit_char d)"
  by (simp add: is_digit_def digit_val_char)

section \<open>Printing numbers\<close>

fun digits :: "nat \<Rightarrow> nat \<Rightarrow> string" where
  "digits b n =
     (if n < b \<or> b < 2 then [digit_char n] else digits b (n div b) @ [digit_char (n mod b)])"

declare digits.simps [simp del]

text \<open>\<open>%04zx\<close>: lower case hexadecimal, at least four digits.\<close>

definition fmt_04zx :: "nat \<Rightarrow> string" where
  "fmt_04zx n = (let s = digits 16 n in replicate (4 - length s) (CHR ''0'') @ s)"

text \<open>\<open>%03o\<close>.\<close>

definition fmt_03o :: "nat \<Rightarrow> string" where
  "fmt_03o n = (let s = digits 8 n in replicate (3 - length s) (CHR ''0'') @ s)"

text \<open>\<open>%lu\<close>, \<open>%u\<close> on the unsigned value and \<open>%ld\<close>, \<open>%d\<close>, \<open>%lld\<close> on the signed value.\<close>

definition fmt_dec :: "int \<Rightarrow> string" where
  "fmt_dec v = (if v < 0 then CHR ''-'' # digits 10 (nat (- v)) else digits 10 (nat v))"

section \<open>Scanning numbers\<close>

definition num_value :: "nat \<Rightarrow> string \<Rightarrow> nat" where
  "num_value b ds = foldl (\<lambda>a c. a * b + (case digit_val c of None \<Rightarrow> 0 | Some v \<Rightarrow> v)) 0 ds"

text \<open>
  The input item of an integer conversion: an optional sign, for base 16 an optional \<open>0x\<close>,
  then digits.  The result is the value and the number of characters, \<open>None\<close> is a matching
  failure.
\<close>

definition scan_num :: "nat \<Rightarrow> string \<Rightarrow> (int \<times> nat) option" where
  "scan_num b s =
     (let (neg, k1, r1) =
            (case s of [] \<Rightarrow> (False, 0, s)
             | c # t \<Rightarrow> if c = CHR ''-'' then (True, 1, t)
                        else if c = CHR ''+'' then (False, 1, t) else (False, 0, s));
          (k2, r2) =
            (if b = 16 \<and> take 1 r1 = ''0'' \<and> (take 1 (drop 1 r1) = ''x'' \<or> take 1 (drop 1 r1) = ''X'')
             then (2, drop 2 r1) else (0 :: nat, r1));
          ds = takeWhile (is_digit b) r2;
          v = int (num_value b ds)
      in if ds = [] then None else Some (if neg then - v else v, k1 + k2 + length ds))"

text \<open>\<open>sscanf(s, "%04zx%n", &v, &chars)\<close>: leading white space is skipped and counted in \<open>chars\<close>.\<close>

definition sscanf_04zx :: "string \<Rightarrow> (nat \<times> nat) option" where
  "sscanf_04zx s =
     (let ws = takeWhile isspace s in
      case scan_num 16 (take 4 (drop (length ws) s)) of
        None \<Rightarrow> None
      | Some (v, k) \<Rightarrow> Some (nat (v mod 2 ^ 64), length ws + k))"

definition sscanf_dec :: "string \<Rightarrow> int option" where
  "sscanf_dec s = map_option fst (scan_num 10 (dropWhile isspace s))"

definition atol :: "string \<Rightarrow> int" where
  "atol s = (case sscanf_dec s of None \<Rightarrow> 0 | Some v \<Rightarrow> v)"

text \<open>A value that does not fit in 64 bits becomes the largest or smallest one.\<close>

definition clamp_u :: "int \<Rightarrow> int" where "clamp_u v = (if 2 ^ 64 \<le> \<bar>v\<bar> then 2 ^ 64 - 1 else v)"
definition clamp_s :: "int \<Rightarrow> int" where "clamp_s v = max (- (2 ^ 63)) (min (2 ^ 63 - 1) v)"

section \<open>Printing and scanning are inverse\<close>

lemma digits_ne [simp]: "digits b n \<noteq> []"
  by (subst digits.simps) simp

lemma digits_all: "2 \<le> b \<Longrightarrow> b \<le> 16 \<Longrightarrow> c \<in> set (digits b n) \<Longrightarrow> is_digit b c"
proof (induction b n rule: digits.induct)
  case (1 b n)
  then show ?case
    by (subst (asm) (2) digits.simps) (auto split: if_splits intro: is_digit_char)
qed

lemma num_value_snoc:
  "num_value b (ds @ [c]) = num_value b ds * b + (case digit_val c of None \<Rightarrow> 0 | Some v \<Rightarrow> v)"
  by (simp add: num_value_def)

lemma num_value_digits: "2 \<le> b \<Longrightarrow> b \<le> 16 \<Longrightarrow> num_value b (digits b n) = n"
proof (induction b n rule: digits.induct)
  case (1 b n)
  show ?case
  proof (cases "n < b")
    case True
    then show ?thesis using 1
      by (subst digits.simps) (simp add: num_value_def digit_val_char)
  next
    case False
    have "digit_val (digit_char (n mod b)) = Some (n mod b)"
      by (rule digit_val_char) (use 1 in \<open>simp add: order_less_le_trans [OF mod_less_divisor]\<close>)
    then show ?thesis using 1 False
      by (subst digits.simps) (simp add: num_value_snoc)
  qed
qed

lemma num_value_zeros: "num_value b (replicate k (CHR ''0'') @ ds) = num_value b ds"
  by (induction k) (simp_all add: num_value_def digit_val_def)

lemma length_digits: "2 \<le> b \<Longrightarrow> 0 < k \<Longrightarrow> n < b ^ k \<Longrightarrow> length (digits b n) \<le> k"
proof (induction k arbitrary: n)
  case (Suc k)
  show ?case
  proof (cases "n < b \<or> k = 0")
    case True
    then show ?thesis using Suc.prems by (subst digits.simps) auto
  next
    case False
    then have "n div b < b ^ k"
      using Suc.prems by (simp add: less_mult_imp_div_less mult.commute)
    then show ?thesis using Suc False by (subst digits.simps) simp
  qed
qed simp

lemma length_fmt_04zx: "n < 65536 \<Longrightarrow> length (fmt_04zx n) = 4"
  using length_digits [of 16 4 n] by (simp add: fmt_04zx_def Let_def)

lemma digit_not_sign: "is_digit b c \<Longrightarrow> c \<noteq> CHR ''-'' \<and> c \<noteq> CHR ''+'' \<and> \<not> isspace c \<and> c \<noteq> NUL"
  by (auto simp: is_digit_def digit_val_def isspace_def Let_def split: option.splits if_splits)

lemma digit_not_x: "is_digit 16 c \<Longrightarrow> c \<noteq> CHR ''x'' \<and> c \<noteq> CHR ''X''"
  by (auto simp: is_digit_def digit_val_def Let_def split: option.splits if_splits)

text \<open>A run of digits, followed by something that is not a digit, scans to its value.\<close>

lemma scan_num_digits:
  assumes "ds \<noteq> []" and "\<And>c. c \<in> set ds \<Longrightarrow> is_digit b c"
    and "b = 16 \<Longrightarrow> 1 < length ds" and "r = [] \<or> \<not> is_digit b (hd r)"
  shows "scan_num b (ds @ r) = Some (int (num_value b ds), length ds)"
proof -
  obtain c t where ds: "ds = c # t" using assms(1) by (cases ds) auto
  have c: "c \<noteq> CHR ''-''" "c \<noteq> CHR ''+''"
    using assms(2) [of c] digit_not_sign ds by auto
  have tw: "takeWhile (is_digit b) (ds @ r) = ds"
    using assms(2,4) by (cases r) (auto simp: takeWhile_append2)
  have x: "\<not> (take 1 (drop 1 (ds @ r)) = ''x'' \<or> take 1 (drop 1 (ds @ r)) = ''X'')" if "b = 16"
    using assms(2,3) that digit_not_x ds by (cases t) auto
  have "(if b = 16 \<and> take 1 (ds @ r) = ''0'' \<and>
          (take 1 (drop 1 (ds @ r)) = ''x'' \<or> take 1 (drop 1 (ds @ r)) = ''X'')
        then (2, drop 2 (ds @ r)) else (0 :: nat, ds @ r)) = (0, ds @ r)"
    using x by auto
  moreover have "(case ds @ r of [] \<Rightarrow> (False, 0 :: nat, ds @ r)
      | c # t \<Rightarrow> if c = CHR ''-'' then (True, 1, t)
                 else if c = CHR ''+'' then (False, 1, t) else (False, 0, ds @ r)) = (False, 0, ds @ r)"
    using c ds by simp
  ultimately show ?thesis
    using tw assms(1) unfolding scan_num_def by (simp only: Let_def split_conv if_False simp_thms) simp
qed

lemma is_digit_zero: "is_digit 16 (CHR ''0'')"
  by (simp add: is_digit_def digit_val_def)

lemma fmt_04zx_digits: "c \<in> set (fmt_04zx n) \<Longrightarrow> is_digit 16 c"
  using digits_all [of 16 c n] is_digit_zero by (auto simp: fmt_04zx_def Let_def)

lemma sscanf_fmt_04zx:
  assumes "n < 65536"
  shows "sscanf_04zx (fmt_04zx n @ r) = Some (n, 4)"
proof -
  let ?s = "fmt_04zx n"
  have len: "length ?s = 4" using assms by (rule length_fmt_04zx)
  have ws: "takeWhile isspace (?s @ r) = []"
    using len fmt_04zx_digits [of "hd ?s" n] digit_not_sign by (cases ?s) auto
  have "scan_num 16 (?s @ []) = Some (int (num_value 16 ?s), length ?s)"
    by (rule scan_num_digits) (use len fmt_04zx_digits in auto)
  moreover have "num_value 16 ?s = n"
    by (simp add: fmt_04zx_def Let_def num_value_zeros num_value_digits)
  ultimately show ?thesis
    using ws len assms by (simp add: sscanf_04zx_def)
qed

lemma fmt_dec_chars: "c \<in> set (fmt_dec v) \<Longrightarrow> is_digit 10 c \<or> c = CHR ''-''"
  by (auto simp: fmt_dec_def split: if_splits dest: digits_all [rotated 2])

lemma fmt_dec_ne [simp]: "fmt_dec v \<noteq> []"
  by (simp add: fmt_dec_def)

lemma sscanf_fmt_dec: "sscanf_dec (fmt_dec v) = Some v"
proof -
  have d: "scan_num 10 (digits 10 n @ []) = Some (int n, length (digits 10 n))" for n
    using scan_num_digits [of "digits 10 n" 10 "[]"] digits_all [of 10 _ n]
    by (simp add: num_value_digits)
  have ws: "dropWhile isspace (fmt_dec v) = fmt_dec v"
    using fmt_dec_chars [of "hd (fmt_dec v)" v] digit_not_sign
    by (cases "fmt_dec v") (auto simp: isspace_def)
  show ?thesis
  proof (cases "v < 0")
    case True
    have c: "c \<noteq> CHR ''-''" if "c \<in> set (digits 10 n)" for c n
      using digits_all [of 10 c n] digit_not_sign that by auto
    have "scan_num 10 (CHR ''-'' # digits 10 (nat (- v))) =
        map_option (\<lambda>(x, k). (- x, Suc k)) (scan_num 10 (digits 10 (nat (- v))))"
      using c [of "hd (digits 10 (nat (- v)))"] digit_not_sign
        digits_all [of 10 "hd (digits 10 (nat (- v)))" "nat (- v)"]
      by (cases "digits 10 (nat (- v))") (auto simp: scan_num_def Let_def)
    then show ?thesis
      using True ws d [of "nat (- v)"] by (simp add: sscanf_dec_def fmt_dec_def)
  next
    case False
    then show ?thesis
      using ws d [of "nat v"] by (simp add: sscanf_dec_def fmt_dec_def)
  qed
qed

lemma atol_fmt_dec [simp]: "atol (fmt_dec v) = v"
  by (simp add: atol_def sscanf_fmt_dec)

end
