(* ===== verification/Utils.thy ===== *)
theory Utils
  imports Bytes "HOL-Library.Word"
begin

unbundle bit_operations_syntax

text \<open>
  The byte and path helpers of \<open>src/src/utils.c\<close> and \<open>src/src/str.c\<close>.  A buffer is a list of
  bytes and an index into it; a pointer that may be null is an option.  A parameter \<open>len\<close>
  with its buffer keeps its meaning: the function reads the first \<open>len\<close> bytes.
\<close>

section \<open>Searching backwards\<close>

definition loop_matches :: "char \<Rightarrow> string \<Rightarrow> bool" where
  "loop_matches c match = list_ex (\<lambda>m. m = c) match"

fun trailing_match :: "string \<Rightarrow> nat \<Rightarrow> string \<Rightarrow> nat" where
  "trailing_match str 0 match = 0"
| "trailing_match str (Suc n) match =
     (if loop_matches (str ! n) match then Suc n else trailing_match str n match)"

definition trailing_match_index :: "string option \<Rightarrow> nat \<Rightarrow> string \<Rightarrow> nat" where
  "trailing_match_index str len match =
     (case str of None \<Rightarrow> 0 | Some s \<Rightarrow> trailing_match s len match)"

fun trailing_non_match :: "string \<Rightarrow> nat \<Rightarrow> string \<Rightarrow> nat" where
  "trailing_non_match str 0 match = 0"
| "trailing_non_match str (Suc n) match =
     (if \<not> loop_matches (str ! n) match then Suc n else trailing_non_match str n match)"

definition trailing_non_match_index :: "string option \<Rightarrow> nat \<Rightarrow> string \<Rightarrow> nat" where
  "trailing_non_match_index str len match =
     (case str of None \<Rightarrow> 0 | Some s \<Rightarrow> trailing_non_match s len match)"

definition dirname_len :: "string option \<Rightarrow> nat \<Rightarrow> nat" where
  "dirname_len path len =
     (let without_trailing = trailing_non_match_index path len ''/''
      in trailing_match_index path without_trailing ''/'')"

lemma loop_matches_iff [simp]: "loop_matches c match \<longleftrightarrow> c \<in> set match"
  by (auto simp: loop_matches_def list_ex_iff)

text \<open>The index after the last matching byte; everything behind it does not match.\<close>

lemma trailing_match_split:
  assumes "\<And>c. c \<in> set b \<Longrightarrow> c \<notin> set m" and "a = [] \<or> last a \<in> set m"
  shows "trailing_match (a @ b @ r) (length a + length b) m = length a"
  using assms(1)
proof (induction b arbitrary: r rule: rev_induct)
  case Nil
  show ?case
    using assms(2) by (cases a rule: rev_cases) (auto simp: nth_append)
next
  case (snoc x b)
  then have "trailing_match (a @ b @ (x # r)) (length a + length b) m = length a" by simp
  then show ?case using snoc.prems [of x] by (simp add: nth_append)
qed

lemma trailing_non_match_split:
  assumes "\<And>c. c \<in> set b \<Longrightarrow> c \<in> set m" and "a = [] \<or> last a \<notin> set m"
  shows "trailing_non_match (a @ b @ r) (length a + length b) m = length a"
  using assms(1)
proof (induction b arbitrary: r rule: rev_induct)
  case Nil
  show ?case
    using assms(2) by (cases a rule: rev_cases) (auto simp: nth_append)
next
  case (snoc x b)
  then have "trailing_non_match (a @ b @ (x # r)) (length a + length b) m = length a" by simp
  then show ?case using snoc.prems [of x] by (simp add: nth_append)
qed

lemma trailing_match_le: "trailing_match s n m \<le> n"
  by (induction s n m rule: trailing_match.induct) auto

lemma trailing_non_match_le: "trailing_non_match s n m \<le> n"
  by (induction s n m rule: trailing_non_match.induct) auto

lemma dirname_len_split:
  assumes "SLASH \<notin> set base" and "base \<noteq> []" and "set slashes \<subseteq> {SLASH}"
    and "dir = [] \<or> last dir = SLASH"
  shows "dirname_len (Some (dir @ base @ slashes)) (length (dir @ base @ slashes)) = length dir"
proof -
  have base: "last base \<noteq> SLASH"
    using assms(1,2) last_in_set by metis
  have "trailing_non_match ((dir @ base) @ slashes @ []) (length (dir @ base) + length slashes) ''/''
      = length (dir @ base)"
    by (rule trailing_non_match_split) (use assms base in auto)
  moreover have "trailing_match (dir @ base @ slashes) (length dir + length base) ''/'' = length dir"
    by (rule trailing_match_split) (use assms in auto)
  ultimately show ?thesis
    by (simp add: dirname_len_def trailing_match_index_def trailing_non_match_index_def add.assoc)
qed

section \<open>Splitting at a delimiter\<close>

text \<open>
  \<open>split(src, delim, delim_len, end)\<close> writes a NUL over the first byte of \<open>[src, end)\<close> that is a
  delimiter and returns the address behind it.  The model has the bytes of \<open>[src, end)\<close> as its
  argument, and gives what is left before the NUL and what the returned pointer points to; a
  null result leaves the bytes as they were.
\<close>

fun split_at :: "string \<Rightarrow> string \<Rightarrow> (string \<times> string) option" where
  "split_at [] delim = None"
| "split_at (c # cs) delim =
     (if list_ex (\<lambda>d. c = d) delim then Some ([], cs)
      else map_option (\<lambda>(a, b). (c # a, b)) (split_at cs delim))"

definition split :: "string option \<Rightarrow> string option \<Rightarrow> (string \<times> string) option" where
  "split src delim =
     (case (src, delim) of
        (Some s, Some d) \<Rightarrow> if d = [] then None else split_at s d
      | _ \<Rightarrow> None)"

lemma split_at_None: "split_at s d = None \<longleftrightarrow> (\<forall>c \<in> set s. c \<notin> set d)"
  by (induction s) (auto simp: list_ex_iff)

lemma split_at_Some:
  "split_at s d = Some (a, b) \<longleftrightarrow> (\<exists>c. s = a @ c # b \<and> c \<in> set d \<and> (\<forall>x \<in> set a. x \<notin> set d))"
proof (induction s arbitrary: a)
  case (Cons x s)
  then show ?case
    by (cases a) (auto simp: list_ex_iff)
qed simp

lemma split_at_append:
  "(\<And>x. x \<in> set a \<Longrightarrow> x \<notin> set d) \<Longrightarrow> c \<in> set d \<Longrightarrow> split_at (a @ c # b) d = Some (a, b)"
  by (subst split_at_Some) auto

section \<open>Bounded concatenation\<close>

text \<open>
  \<open>SNFORMAT_S(dst, dst_len, count, (src, len)...)\<close>: each \<open>len\<close> is read from the argument list as
  an \<open>unsigned int\<close>, so only its low 32 bits count.  The result is what \<open>dst\<close> holds before the
  NUL that is written at its end; with \<open>dst_len = 0\<close> the limit wraps to the largest \<open>size_t\<close>
  and the copy runs past the buffer, which is \<open>None\<close>.  \<open>src\<close> is the buffer the argument
  points to, which has to hold what is copied.
\<close>

fun snformat_loop :: "nat \<Rightarrow> (string \<times> nat) list \<Rightarrow> string option" where
  "snformat_loop max_len [] = Some []"
| "snformat_loop max_len ((src, len) # args) =
     (let copy_len = min (len mod 2 ^ 32) max_len in
      if length src < copy_len then None
      else map_option (\<lambda>r. take copy_len src @ r) (snformat_loop (max_len - copy_len) args))"

definition SNFORMAT_S :: "nat \<Rightarrow> (string \<times> nat) list \<Rightarrow> string option" where
  "SNFORMAT_S dst_len args = (if dst_len = 0 then None else snformat_loop (dst_len - 1) args)"

lemma snformat_loop_take:
  "(\<And>s n. (s, n) \<in> set args \<Longrightarrow> n = length s \<and> n < 2 ^ 32) \<Longrightarrow>
   snformat_loop m args = Some (take m (concat (map fst args)))"
proof (induction m args rule: snformat_loop.induct)
  case (2 m src len args)
  then have len: "len = length src" and lt: "length src < 2 ^ 32" by auto
  have cp: "min (len mod 2 ^ 32) m = min (length src) m"
    using len lt by simp
  have "snformat_loop (m - min (length src) m) args =
      Some (take (m - min (length src) m) (concat (map fst args)))"
    using "2.IH" [OF refl] "2.prems" cp by (metis list.set_intros(2) not_less min.cobounded1)
  then show ?case
    unfolding snformat_loop.simps cp Let_def by (simp add: min_def)
qed simp

lemma SNFORMAT_S_take:
  "0 < n \<Longrightarrow> (\<And>s l. (s, l) \<in> set args \<Longrightarrow> l = length s \<and> l < 2 ^ 32) \<Longrightarrow>
   SNFORMAT_S n args = Some (take (n - 1) (concat (map fst args)))"
  by (simp add: SNFORMAT_S_def snformat_loop_take)

text \<open>Replacing the root of a walked path by the root the user typed.\<close>

definition present_user_path :: "string \<Rightarrow> string \<Rightarrow> nat \<Rightarrow> string \<Rightarrow> string option" where
  "present_user_path cur root_parent root_basename_len orig_root =
     (let prefix = length root_parent + root_basename_len;
          buf_len = length orig_root + length cur - prefix
      in if length orig_root + length cur < prefix \<or> length cur < prefix then None
         else SNFORMAT_S (buf_len + 1)
                [(orig_root, length orig_root), (drop prefix cur, length cur - prefix)])"

lemma present_user_path_ok:
  assumes "length rest < 2 ^ 32" and "length orig_root < 2 ^ 32"
  shows "present_user_path (parent @ base @ rest) parent (length base) orig_root = Some (orig_root @ rest)"
proof -
  have "SNFORMAT_S (length orig_root + length rest + 1)
      [(orig_root, length orig_root), (rest, length rest)] = Some (orig_root @ rest)"
    by (subst SNFORMAT_S_take) (use assms in auto)
  then show ?thesis
    by (simp add: present_user_path_def Let_def)
qed


section \<open>Path and mode strings\<close>

text \<open>
  \<open>shortpath\<close> cuts a name at its last slash, looking at the indices from \<open>strlen\<close> down to 1:
  a slash at index 0 is not looked at.  Results are (\<open>nameout\<close>, \<open>endname\<close>); names are shorter
  than \<open>MAXPATH\<close>, longer ones are truncated by \<open>SNPRINTF\<close>.
\<close>

definition MAXPATH :: nat where "MAXPATH = 4096"

fun shortpath_loop :: "string \<Rightarrow> nat \<Rightarrow> nat option" where
  "shortpath_loop prefix 0 = None"
| "shortpath_loop prefix (Suc i) =
     (if Suc i < length prefix \<and> prefix ! Suc i = SLASH then Some (Suc i)
      else shortpath_loop prefix i)"

definition shortpath :: "string \<Rightarrow> string \<times> string" where
  "shortpath name =
     (let prefix = take (MAXPATH - 1) name in
      case shortpath_loop prefix (length prefix) of
        None \<Rightarrow> ([], take (MAXPATH - 1) name)
      | Some i \<Rightarrow> (take i prefix, drop (Suc i) prefix))"

lemma shortpath_loop_split:
  "SLASH \<notin> set b \<Longrightarrow> a \<noteq> [] \<Longrightarrow>
   shortpath_loop (a @ SLASH # b) (length a + k) = Some (length a)" if "k \<le> length (SLASH # b)" for k
  using that
proof (induction k)
  case 0
  then show ?case by (cases a) (auto simp: nth_append)
next
  case (Suc k)
  have "(a @ SLASH # b) ! (length a + Suc k) \<noteq> SLASH" if "length a + Suc k < length (a @ SLASH # b)"
    using that Suc.prems by (auto simp: nth_append in_set_conv_nth)
  then show ?case using Suc by (cases "k = length b") simp_all
qed

lemma shortpath_split:
  assumes "SLASH \<notin> set b" and "a \<noteq> []" and "length (a @ SLASH # b) < MAXPATH"
  shows "shortpath (a @ SLASH # b) = (a, b)"
proof -
  have t: "take (MAXPATH - 1) (a @ SLASH # b) = a @ SLASH # b"
    using assms(3) by (intro take_all) simp
  have "shortpath_loop (a @ SLASH # b) (length a + length (SLASH # b)) = Some (length a)"
    by (rule shortpath_loop_split [OF order_refl assms(1,2)])
  then show ?thesis
    unfolding shortpath_def t by (simp add: Let_def)
qed

text \<open>The permission string of \<open>modetostr\<close>; the mode is the 32 bit \<open>mode_t\<close>.\<close>

definition S_ISDIR :: "32 word \<Rightarrow> bool" where
  "S_ISDIR m \<longleftrightarrow> m AND 0xF000 = 0x4000"

definition S_ISLNK :: "32 word \<Rightarrow> bool" where
  "S_ISLNK m \<longleftrightarrow> m AND 0xF000 = 0xA000"

definition setid_char :: "string \<Rightarrow> 32 word \<Rightarrow> nat \<Rightarrow> nat \<Rightarrow> char" where
  "setid_char tab m hi lo = tab ! (2 * of_bool (bit m hi) + of_bool (bit m lo))"

definition modetostr :: "nat \<Rightarrow> 32 word \<Rightarrow> string option" where
  "modetostr sz mode =
     (if sz < 11 then None
      else
        let perm = (\<lambda>k c. if bit mode k then c else CHR ''-'');
            t0 = (if S_ISDIR mode then CHR ''d'' else CHR ''-'');
            t = (if S_ISLNK mode then CHR ''l'' else t0)
        in Some [t,
             perm 8 (CHR ''r''), perm 7 (CHR ''w''), setid_char ''-xSs'' mode 11 6,
             perm 5 (CHR ''r''), perm 4 (CHR ''w''), setid_char ''-xSs'' mode 10 3,
             perm 2 (CHR ''r''), perm 1 (CHR ''w''), setid_char ''-xTt'' mode 9 0])"

text \<open>\<open>get_queue_limit\<close>; \<open>work_size\<close> is \<open>sizeof(struct work)\<close>. Dividing by no threads traps.\<close>

definition get_queue_limit :: "nat \<Rightarrow> nat \<Rightarrow> nat \<Rightarrow> nat option" where
  "get_queue_limit work_size target nthreads =
     (if target = 0 then Some 0
      else if work_size = 0 \<or> nthreads = 0 then None
      else Some (max (target div work_size div nthreads) 1))"

section \<open>str.c\<close>

record str_t =
  str_data :: "string option"
  str_len :: nat
  str_owned :: bool

definition str_alloc_existing :: "string \<Rightarrow> nat \<Rightarrow> str_t" where
  "str_alloc_existing junk len =
     \<lparr>str_data = Some (take len junk @ [NUL]), str_len = len, str_owned = True\<rparr>"

definition str_free_existing :: "str_t \<Rightarrow> str_t" where
  "str_free_existing s = s\<lparr>str_data := None, str_len := 0, str_owned := False\<rparr>"

definition str_exists :: "str_t \<Rightarrow> bool" where
  "str_exists s \<longleftrightarrow> str_data s \<noteq> None \<and> str_len s \<noteq> 0"

text \<open>\<open>strncmp\<close>: the difference of the first bytes that differ, up to \<open>n\<close> bytes or a NUL.\<close>

fun strncmp :: "string \<Rightarrow> string \<Rightarrow> nat \<Rightarrow> int" where
  "strncmp a b 0 = 0"
| "strncmp a b (Suc n) =
     (let x = (case a of [] \<Rightarrow> NUL | c # _ \<Rightarrow> c); y = (case b of [] \<Rightarrow> NUL | c # _ \<Rightarrow> c) in
      if x \<noteq> y then of_char x - of_char y
      else if x = NUL then 0 else strncmp (tl a) (tl b) n)"

definition str_cmp :: "str_t \<Rightarrow> str_t \<Rightarrow> int option" where
  "str_cmp lhs rhs =
     (case (str_data lhs, str_data rhs) of
        (Some a, Some b) \<Rightarrow>
          (let len = (if str_len lhs > str_len rhs then str_len lhs else str_len rhs)
           in Some (strncmp a b (len + 1)))
      | _ \<Rightarrow> None)"

lemma of_char_eq_0: "(of_char a :: int) = 0 \<longleftrightarrow> a = NUL"
  using of_char_eq_iff [of a NUL, where 'a = int] by simp

lemma strncmp_eq_0:
  "NUL \<notin> set a \<Longrightarrow> NUL \<notin> set b \<Longrightarrow> length a < n \<Longrightarrow> length b < n \<Longrightarrow>
   strncmp a b n = 0 \<longleftrightarrow> a = b"
proof (induction a b n rule: strncmp.induct)
  case (2 a b n)
  then show ?case
    by (cases a; cases b) (auto simp: Let_def of_char_eq_0)
qed simp

end
