(* ===== verification/FdIO.thy ===== *)
theory FdIO
  imports Utils
begin

text \<open>
  The input and output loops of \<open>src/src/utils.c\<close>: \<open>getline_fd\<close> and its two users, \<open>write_size\<close>,
  \<open>read_size\<close>, both variants of \<open>copyfd\<close>, and \<open>write_with_resize\<close>.  A file is the list of its
  bytes.  The system calls may transfer less than asked for, or fail: how much the \<open>i\<close>-th call
  of a loop transfers is a parameter, an \<open>io\<close> outcome, clipped to what \<open>read(2)\<close> and
  \<open>write(2)\<close> document (never more than asked for, and a read gets at least one byte when there
  is one).  \<open>realloc\<close> is taken to succeed.
\<close>

datatype io = IoErr nat \<comment> \<open>-1 with this \<open>errno\<close>\<close> | IoMax nat \<comment> \<open>transfers at most so many bytes\<close>

section \<open>getline\<close>

definition EINVAL :: nat where "EINVAL = 22"
definition EIO :: nat where "EIO = 5"

text \<open>
  The loop of \<open>getline_fd\<close>.  \<open>buf\<close> holds the \<open>r\<close> bytes read so far, \<open>n\<close> is the size of the
  allocation.  With an offset the code reads \<open>n - r\<close> bytes at \<open>offset + r\<close>, without one a
  single byte at the fl position, which then is \<open>pos + r\<close> as well.  The results are the last
  \<open>rc\<close>, whether a newline was found, the bytes before it, and the size.
\<close>

function getline_loop ::
    "string \<Rightarrow> nat \<Rightarrow> bool \<Rightarrow> (nat \<Rightarrow> io) \<Rightarrow> nat \<Rightarrow> nat \<Rightarrow> string \<Rightarrow> int \<times> bool \<times> string \<times> nat" where
  "getline_loop fl pos seekable io i n buf =
     (let n' = (if n \<le> length buf then n * 2 else n);
          req = (if seekable then n' - length buf else 1)
      in case io i of
           IoErr e \<Rightarrow> (- int e, False, buf, n')
         | IoMax k \<Rightarrow>
             (let got = take (max 1 (min k req)) (drop (pos + length buf) fl) in
              if got = [] then (0, False, buf, n')
              else case split_at got [LF] of
                     Some (a, _) \<Rightarrow> (int (length got), True, buf @ a, n')
                   | None \<Rightarrow> getline_loop fl pos seekable io (Suc i) n' (buf @ got)))"
  by pat_completeness auto
termination
proof (relation "measure (\<lambda>(fl, pos, seekable, io, i, n, buf). length fl - (pos + length buf))",
    goal_cases)
  case (2 fl pos seekable io i n buf n' req k got)
  then have "0 < length got" "pos + length buf < length fl"
    by (auto simp only: take_eq_Nil drop_eq_Nil length_greater_0_conv not_le)
  then show ?case by (simp add: diff_less_mono2 del: length_greater_0_conv)
qed simp

declare getline_loop.simps [simp del]

datatype getline_result =
    GetlineErr int
  | GetlineOk string nat \<comment> \<open>the line and the new offset, or fl position\<close>

text \<open>\<open>line_size\<close> is the caller's \<open>*n\<close>; 0 stands for the default.\<close>

definition getline_fd :: "string \<Rightarrow> nat \<Rightarrow> bool \<Rightarrow> (nat \<Rightarrow> io) \<Rightarrow> nat \<Rightarrow> nat \<Rightarrow> getline_result" where
  "getline_fd fl pos seekable io line_size default_size =
     (if default_size < 1 then GetlineErr (- int EINVAL)
      else
        let n = (if line_size = 0 then default_size else line_size);
            (rc, found, buf, n') = getline_loop fl pos seekable io 0 n []
        in if rc < 0 then GetlineErr rc
           else if rc = 0 \<and> buf = [] \<and> \<not> found then GetlineErr (- int EIO)
           else GetlineOk buf (pos + length buf + (if found then 1 else 0)))"

definition getline_fd_seekable :: "string \<Rightarrow> nat option \<Rightarrow> (nat \<Rightarrow> io) \<Rightarrow> nat \<Rightarrow> nat \<Rightarrow> getline_result" where
  "getline_fd_seekable file offset io line_size default_size =
     (case offset of
        None \<Rightarrow> GetlineErr (- int EINVAL)
      | Some off \<Rightarrow> getline_fd file off True io line_size default_size)"

definition getline_fd_stream :: "string \<Rightarrow> nat \<Rightarrow> (nat \<Rightarrow> io) \<Rightarrow> nat \<Rightarrow> nat \<Rightarrow> getline_result" where
  "getline_fd_stream fl pos io line_size default_size =
     getline_fd fl pos False io line_size default_size"

text \<open>What a line is: the bytes before the first newline, or all of them.\<close>

definition line_at :: "string \<Rightarrow> nat \<Rightarrow> string" where
  "line_at fl pos = takeWhile (\<lambda>c. c \<noteq> LF) (drop pos fl)"

definition line_end :: "string \<Rightarrow> nat \<Rightarrow> nat" where
  "line_end fl pos =
     pos + length (line_at fl pos) + (if LF \<in> set (drop pos fl) then 1 else 0)"


lemma take_max_step:
  fixes rest :: "'a list"
  assumes "0 < m" and "got = take m rest"
  shows "got = [] \<longleftrightarrow> rest = []" and "rest = got @ drop (length got) rest" and "length got \<le> m"
  using assms by (auto simp: min_def)

lemma line_at_split: "drop p fl = a @ LF # b \<Longrightarrow> LF \<notin> set a \<Longrightarrow> line_at fl p = a"
  unfolding line_at_def by (auto simp: takeWhile_append)

lemma line_at_skip:
  assumes "drop p fl = got @ rest" and "LF \<notin> set got"
  shows "line_at fl p = got @ line_at fl (p + length got)"
    and "LF \<in> set (drop p fl) \<longleftrightarrow> LF \<in> set (drop (p + length got) fl)"
proof -
  have "drop (p + length got) fl = rest"
    using assms(1) by (metis add.commute append_eq_conv_conj drop_drop)
  then show "line_at fl p = got @ line_at fl (p + length got)"
    and "LF \<in> set (drop p fl) \<longleftrightarrow> LF \<in> set (drop (p + length got) fl)"
    using assms unfolding line_at_def by (auto simp: takeWhile_append)
qed

text \<open>
  Whatever the reads transfer, the loop collects the bytes up to the newline or the end of
  the file, and the terminating NUL fits into the allocation.
\<close>

lemma getline_loop_spec:
  assumes "0 < n" and "length buf \<le> n" and "LF \<notin> set buf"
    and "\<forall>j. \<exists>k. ior j = IoMax k"
  shows "\<exists>rc n'. getline_loop fl pos sk ior i n buf =
      (rc, LF \<in> set (drop (pos + length buf) fl), buf @ line_at fl (pos + length buf), n')
    \<and> 0 \<le> rc \<and> (rc = 0 \<longleftrightarrow> LF \<notin> set (drop (pos + length buf) fl))
    \<and> length (buf @ line_at fl (pos + length buf)) < n'"
  using assms
proof (induction fl pos sk ior i n buf rule: getline_loop.induct)
  case (1 fl pos sk ior i n buf)
  define n' where "n' = (if n \<le> length buf then n * 2 else n)"
  define req where "req = (if sk then n' - length buf else 1)"
  define rest where "rest = drop (pos + length buf) fl"
  obtain k where k: "ior i = IoMax k" using "1.prems"(4) by blast
  define got where "got = take (max 1 (min k req)) rest"
  have n': "length buf < n'" using "1.prems"(1,2) by (auto simp: n'_def)
  then have req: "1 \<le> req" "req \<le> n' - length buf" by (auto simp: req_def)
  have got: "got = [] \<longleftrightarrow> rest = []" "rest = got @ drop (length got) rest"
      "length got \<le> max 1 (min k req)"
    using take_max_step [of "max 1 (min k req)" got rest] by (simp_all add: got_def)
  have fit: "length buf + length got \<le> n'" using got(3) req n' by auto
  have unf: "getline_loop fl pos sk ior i n buf =
      (if got = [] then (0, False, buf, n')
       else case split_at got [LF] of
              Some (a, _) \<Rightarrow> (int (length got), True, buf @ a, n')
            | None \<Rightarrow> getline_loop fl pos sk ior (Suc i) n' (buf @ got))"
    by (simp only: getline_loop.simps [of fl pos sk ior i n buf] Let_def k io.case
        got_def rest_def req_def n'_def)
  consider (eof) "got = []" | (hit) a b where "got \<noteq> []" "split_at got [LF] = Some (a, b)"
    | (more) "got \<noteq> []" "split_at got [LF] = None"
    by (cases "got = []"; cases "split_at got [LF]") auto
  then show ?case
  proof cases
    case eof
    then show ?thesis
      using got(1) n' unf by (simp add: rest_def line_at_def)
  next
    case (hit a b)
    then have ab: "got = a @ LF # b" "LF \<notin> set a" by (auto simp: split_at_Some)
    then have rest: "rest = a @ LF # (b @ drop (length got) rest)" using got(2) by simp
    have la: "line_at fl (pos + length buf) = a"
      by (rule line_at_split [OF rest [unfolded rest_def] ab(2)])
    have in_rest: "LF \<in> set (drop (pos + length buf) fl)"
      using arg_cong [OF rest, of set] unfolding rest_def by simp
    show ?thesis
      using unf hit(2) ab(1) fit in_rest by (simp add: la)
  next
    case more
    then have nLF: "LF \<notin> set got" by (auto simp: split_at_None)
    have step: "line_at fl (pos + length buf) = got @ line_at fl (pos + length (buf @ got))"
        "LF \<in> set (drop (pos + length buf) fl) \<longleftrightarrow> LF \<in> set (drop (pos + length (buf @ got)) fl)"
      using line_at_skip [OF got(2) [unfolded rest_def] nLF] by (simp_all add: add.assoc)
    have IH: "\<exists>rc m. getline_loop fl pos sk ior (Suc i) n' (buf @ got) =
        (rc, LF \<in> set (drop (pos + length (buf @ got)) fl),
         (buf @ got) @ line_at fl (pos + length (buf @ got)), m)
      \<and> 0 \<le> rc \<and> (rc = 0 \<longleftrightarrow> LF \<notin> set (drop (pos + length (buf @ got)) fl))
      \<and> length ((buf @ got) @ line_at fl (pos + length (buf @ got))) < m"
      using "1.IH" [OF n'_def req_def k got_def [unfolded rest_def] more] n' fit nLF "1.prems"(3,4)
      by simp
    then show ?thesis
      unfolding unf step using more by simp
  qed
qed

theorem getline_fd_line:
  assumes "0 < default_size" and "\<forall>j. \<exists>k. ior j = IoMax k"
  shows "getline_fd fl pos sk ior line_size default_size =
    (if length fl \<le> pos then GetlineErr (- int EIO)
     else GetlineOk (line_at fl pos) (line_end fl pos))"
proof -
  let ?n = "if line_size = 0 then default_size else line_size"
  obtain rc n' where loop: "getline_loop fl pos sk ior 0 ?n [] =
      (rc, LF \<in> set (drop pos fl), line_at fl pos, n')"
      "0 \<le> rc" "rc = 0 \<longleftrightarrow> LF \<notin> set (drop pos fl)"
    using getline_loop_spec [of ?n "[]" ior fl pos sk 0] assms
    by (cases "line_size = 0") auto
  have empty: "line_at fl pos = [] \<and> LF \<notin> set (drop pos fl) \<longleftrightarrow> length fl \<le> pos"
    by (cases "drop pos fl") (auto simp: line_at_def)
  show ?thesis
    using assms(1) loop empty by (auto simp: getline_fd_def line_end_def)
qed


section \<open>Whole reads and writes\<close>

text \<open>
  \<open>write_size\<close> and \<open>read_size\<close>: \<open>xfer i n\<close> is what the \<open>i\<close>-th call returns when \<open>n\<close> bytes are
  asked for, negative on failure.  The documented contract, at most \<open>n\<close>, is applied by clipping.
\<close>

function xfer_loop :: "(nat \<Rightarrow> nat \<Rightarrow> int) \<Rightarrow> nat \<Rightarrow> nat \<Rightarrow> nat \<Rightarrow> int" where
  "xfer_loop xfer i got sz =
     (if got < sz then
        (let w = xfer i (sz - got) in
         if w < 0 then -1
         else if w = 0 then int got
         else xfer_loop xfer (Suc i) (got + min (nat w) (sz - got)) sz)
      else int got)"
  by pat_completeness auto
termination
  by (relation "measure (\<lambda>(xfer, i, got, sz). sz - got)") auto

declare xfer_loop.simps [simp del]

definition write_size :: "(nat \<Rightarrow> nat \<Rightarrow> int) \<Rightarrow> nat \<Rightarrow> int" where
  "write_size xfer sz = xfer_loop xfer 0 0 sz"

definition read_size :: "(nat \<Rightarrow> nat \<Rightarrow> int) \<Rightarrow> nat \<Rightarrow> int" where
  "read_size xfer sz = xfer_loop xfer 0 0 sz"

text \<open>Every call transfers something.\<close>

definition progress :: "(nat \<Rightarrow> nat \<Rightarrow> int) \<Rightarrow> bool" where
  "progress xfer \<longleftrightarrow> (\<forall>j n. 0 < n \<longrightarrow> 0 < xfer j n)"

lemma progressD: "progress xfer \<Longrightarrow> 0 < n \<Longrightarrow> 0 < xfer j n"
  by (simp add: progress_def)

lemma xfer_loop_all:
  "progress xfer \<Longrightarrow> got \<le> sz \<Longrightarrow> xfer_loop xfer i got sz = int sz"
proof (induction xfer i got sz rule: xfer_loop.induct)
  case (1 xfer i got sz)
  show ?case
  proof (cases "got < sz")
    case True
    then have w: "0 < xfer i (sz - got)" using progressD [OF "1.prems"(1)] by simp
    let ?got = "got + min (nat (xfer i (sz - got))) (sz - got)"
    have "xfer_loop xfer i got sz = xfer_loop xfer (Suc i) ?got sz"
      using True w by (subst xfer_loop.simps) (simp add: Let_def)
    also have "\<dots> = int sz"
      using True w "1.prems"(1) by (intro "1.IH") auto
    finally show ?thesis .
  next
    case False
    then show ?thesis using "1.prems"(2) by (subst xfer_loop.simps) simp
  qed
qed

lemma xfer_loop_range:
  "got \<le> sz \<Longrightarrow> xfer_loop xfer i got sz \<in> insert (-1) {int got..int sz}"
proof (induction xfer i got sz rule: xfer_loop.induct)
  case (1 xfer i got sz)
  show ?case
  proof (cases "got < sz \<and> 0 < xfer i (sz - got)")
    case True
    let ?got = "got + min (nat (xfer i (sz - got))) (sz - got)"
    have "xfer_loop xfer (Suc i) ?got sz \<in> insert (-1) {int ?got..int sz}"
      using True by (intro "1.IH") auto
    moreover have "xfer_loop xfer i got sz = xfer_loop xfer (Suc i) ?got sz"
      using True by (subst xfer_loop.simps) (simp add: Let_def)
    ultimately show ?thesis by auto
  next
    case False
    then show ?thesis using "1.prems" by (subst xfer_loop.simps) (auto simp: Let_def)
  qed
qed

section \<open>copyfd\<close>

text \<open>Writing \<open>bs\<close> at offset \<open>off\<close> of a file, with a hole of NULs when it is shorter.\<close>

definition overwrite :: "string \<Rightarrow> nat \<Rightarrow> string \<Rightarrow> string" where
  "overwrite dst off bs =
     take off dst @ replicate (off - length dst) NUL @ bs @ drop (off + length bs) dst"

text \<open>
  The loop around \<open>sendfile\<close>, which moves up to \<open>xfer i n\<close> bytes from \<open>src_off\<close> to the
  destination's position, fewer at the end of the source.
\<close>

function sendfile_loop ::
    "(nat \<Rightarrow> nat \<Rightarrow> int) \<Rightarrow> nat \<Rightarrow> string \<Rightarrow> nat \<Rightarrow> string \<Rightarrow> nat \<Rightarrow> nat \<Rightarrow> nat \<Rightarrow> int \<times> string" where
  "sendfile_loop xfer i src src_off dst dst_off copied sz =
     (if 0 < sz then
        (let w = xfer i sz; bs = take (min (nat w) sz) (drop src_off src) in
         if w < 0 then (w, dst)
         else if bs = [] then (int copied - int sz, dst)
         else sendfile_loop xfer (Suc i) src (src_off + length bs) (overwrite dst dst_off bs)
                (dst_off + length bs) copied (sz - length bs))
      else (int copied, dst))"
  by pat_completeness auto
termination
  by (relation "measure (\<lambda>(xfer, i, src, src_off, dst, dst_off, copied, sz). sz)") auto

declare sendfile_loop.simps [simp del]

definition copyfd ::
    "bool \<Rightarrow> (nat \<Rightarrow> nat \<Rightarrow> int) \<Rightarrow> string \<Rightarrow> nat \<Rightarrow> string \<Rightarrow> nat \<Rightarrow> nat \<Rightarrow> int \<times> string" where
  "copyfd lseek_ok xfer src src_off dst dst_off sz =
     (if \<not> lseek_ok then (-1, dst) else sendfile_loop xfer 0 src src_off dst dst_off sz sz)"

lemma overwrite_overwrite:
  "overwrite (overwrite dst off a) (off + length a) b = overwrite dst off (a @ b)"
proof -
  have "length (take off dst @ replicate (off - length dst) NUL @ a) = off + length a"
    by simp
  then have "take (off + length a) (overwrite dst off a) =
      take off dst @ replicate (off - length dst) NUL @ a"
    unfolding overwrite_def by (metis append.assoc append_eq_conv_conj)
  moreover have "off + length a \<le> length (overwrite dst off a)"
    by (simp add: overwrite_def)
  moreover have "drop (off + length a + length b) (overwrite dst off a) =
      drop (off + length a + length b) dst"
    by (cases "length dst \<le> off") (simp_all add: overwrite_def min_def add_ac)
  ultimately show ?thesis
    unfolding overwrite_def [of "overwrite dst off a"] overwrite_def [of dst off "a @ b"]
    by (simp add: add.assoc)
qed

lemma overwrite_Nil: "dst_off \<le> length dst \<Longrightarrow> overwrite dst dst_off [] = dst"
  by (simp add: overwrite_def)

lemma take_drop_step:
  "n \<le> sz \<Longrightarrow> take n (drop k xs) @ take (sz - n) (drop (k + n) xs) = take sz (drop k xs)"
  by (metis add.commute drop_drop le_add_diff_inverse take_add)

lemma sendfile_loop_step:
  assumes "0 < sz" and "0 < xfer i sz" and "bs = take (min (nat (xfer i sz)) sz) (drop src_off src)"
    and "bs \<noteq> []"
  shows "sendfile_loop xfer i src src_off dst dst_off copied sz =
    sendfile_loop xfer (Suc i) src (src_off + length bs) (overwrite dst dst_off bs)
      (dst_off + length bs) copied (sz - length bs)"
proof -
  have "\<not> xfer i sz < 0" using assms(2) by simp
  then show ?thesis
    unfolding sendfile_loop.simps [of xfer i src src_off dst dst_off copied sz] Let_def
      assms(3) [symmetric]
    using assms(1,4) by (simp only: if_True if_False simp_thms)
qed

lemma sendfile_loop_stop:
  assumes "sz = 0 \<or> (0 < xfer i sz \<and> length src \<le> src_off)"
  shows "sendfile_loop xfer i src src_off dst dst_off copied sz = (int copied - int sz, dst)"
  using assms by (auto simp: sendfile_loop.simps [of xfer i src src_off dst dst_off copied sz] Let_def)

lemma min_shift:
  fixes k :: nat
  shows "k \<le> sz \<Longrightarrow> k \<le> l - o1 \<Longrightarrow> (sz - k) - min (sz - k) (l - (o1 + k)) = sz - min sz (l - o1)"
  by linarith

lemma sendfile_loop_spec:
  "progress xfer \<Longrightarrow> dst_off \<le> length dst \<Longrightarrow>
    sendfile_loop xfer i src src_off dst dst_off copied sz =
      (int copied - int (sz - min sz (length src - src_off)),
       overwrite dst dst_off (take sz (drop src_off src)))"
proof (induction sz arbitrary: i src_off dst dst_off rule: less_induct)
  case (less sz)
  show ?case
  proof (cases "0 < sz \<and> src_off < length src")
    case True
    define bs where "bs = take (min (nat (xfer i sz)) sz) (drop src_off src)"
    have w: "0 < xfer i sz" using progressD [OF less.prems(1)] True by simp
    have n: "bs \<noteq> []" "0 < length bs" "length bs \<le> sz" "length bs \<le> length src - src_off"
      using True w by (auto simp: bs_def)
    have bs: "bs = take (length bs) (drop src_off src)"
      unfolding bs_def by (metis append_eq_conv_conj append_take_drop_id)
    have "sendfile_loop xfer i src src_off dst dst_off copied sz =
        sendfile_loop xfer (Suc i) src (src_off + length bs) (overwrite dst dst_off bs)
          (dst_off + length bs) copied (sz - length bs)"
      using True w n(1) by (intro sendfile_loop_step) (simp_all add: bs_def)
    also have "\<dots> = (int copied - int ((sz - length bs) - min (sz - length bs) (length src - (src_off + length bs))),
        overwrite (overwrite dst dst_off bs) (dst_off + length bs)
          (take (sz - length bs) (drop (src_off + length bs) src)))"
    proof (rule less.IH)
      show "sz - length bs < sz" using n(2,3) by linarith
      show "dst_off + length bs \<le> length (overwrite dst dst_off bs)"
        using less.prems(2) by (simp add: overwrite_def)
    qed (rule less.prems(1))
    also have "\<dots> = (int copied - int (sz - min sz (length src - src_off)),
        overwrite dst dst_off (take (length bs) (drop src_off src) @
          take (sz - length bs) (drop (src_off + length bs) src)))"
      unfolding min_shift [OF n(3,4)] overwrite_overwrite bs [symmetric] ..
    finally show ?thesis
      unfolding take_drop_step [OF n(3)] .
  next
    case False
    then have "sz = 0 \<or> (0 < xfer i sz \<and> length src \<le> src_off)"
      using progressD [OF less.prems(1)] by auto
    then have "sendfile_loop xfer i src src_off dst dst_off copied sz = (int copied - int sz, dst)"
      by (rule sendfile_loop_stop)
    then show ?thesis
      using False overwrite_Nil [OF less.prems(2)] by auto
  qed
qed


section \<open>write_with_resize\<close>

text \<open>
  A growing output buffer: \<open>wb_data\<close> is what the first \<open>offset\<close> bytes hold, \<open>wb_alloc\<close> whether
  \<open>*buf\<close> is not null.  \<open>vsnprintf\<close> stores as much of the formatted string as fits before the
  NUL and returns its whole length.
\<close>

record wbuf =
  wb_alloc :: bool
  wb_data :: string
  wb_size :: nat
  wb_offset :: nat

definition write_with_resize :: "wbuf \<Rightarrow> string \<Rightarrow> wbuf" where
  "write_with_resize b s =
     (let written = length s in
      if wb_size b - wb_offset b \<le> written
      then
        let new_size = max (wb_size b * 2) (wb_size b + written) + 1
        in b\<lparr>wb_alloc := True, wb_size := new_size,
             wb_data := wb_data b @ take (new_size - wb_offset b - 1) s,
             wb_offset := wb_offset b + length s\<rparr>
      else b\<lparr>wb_data := wb_data b @ take (wb_size b - wb_offset b - 1) s,
             wb_offset := wb_offset b + written\<rparr>)"

definition wbuf_ok :: "wbuf \<Rightarrow> bool" where
  "wbuf_ok b \<longleftrightarrow> wb_offset b = length (wb_data b) \<and>
     (if wb_alloc b then wb_offset b < wb_size b else wb_size b = 0 \<and> wb_offset b = 0)"

lemma write_with_resize_appends:
  assumes "wbuf_ok b"
  shows "wb_data (write_with_resize b s) = wb_data b @ s" "wbuf_ok (write_with_resize b s)"
  using assms by (auto simp: write_with_resize_def wbuf_ok_def Let_def split: if_splits)

lemma foldl_write_with_resize:
  "wbuf_ok b \<Longrightarrow> wbuf_ok (foldl write_with_resize b ss) \<and>
     wb_data (foldl write_with_resize b ss) = wb_data b @ concat ss"
  by (induction ss arbitrary: b) (simp_all add: write_with_resize_appends)

section \<open>Properties\<close>

text \<open>
  Reading a line gives the bytes up to the next newline, or to the end of the file when
  there is none, and moves the offset behind the newline; at the end of the file it is \<open>-EIO\<close>.
  This does not depend on the buffer size, on whether the descriptor is seekable, or on how
  many bytes each read transfers.
\<close>

theorem getline_fd_reads_line:
  assumes "0 < default_size" and "\<forall>j. \<exists>k. ior j = IoMax k"
  shows "getline_fd fl pos sk ior line_size default_size =
    (if length fl \<le> pos then GetlineErr (- int EIO)
     else GetlineOk (line_at fl pos) (line_end fl pos))"
  using assms by (rule getline_fd_line)

theorem getline_fd_reads_line_witness:
  "getline_fd (''ab'' @ [LF] @ ''c'') 0 True (\<lambda>_. IoMax 2) 0 1 = GetlineOk ''ab'' 3"
  using getline_fd_reads_line [of 1 "\<lambda>_. IoMax 2" "''ab'' @ [LF] @ ''c''" 0 True 0]
  by (simp add: line_at_def line_end_def)

text \<open>
  \<open>copyfd\<close> copies exactly the requested bytes of the source, or what there is of them, to
  the destination's offset whatever each \<open>sendfile\<close> transfers, and returns how many.
\<close>

theorem copyfd_copies:
  assumes "progress xfer" and "dst_off \<le> length dst"
  shows "copyfd True xfer src src_off dst dst_off sz =
    (int (min sz (length src - src_off)), overwrite dst dst_off (take sz (drop src_off src)))"
  unfolding copyfd_def using sendfile_loop_spec [OF assms, of 0 src src_off sz sz]
  by (simp add: min_def of_nat_diff)

theorem copyfd_copies_witness:
  "copyfd True (\<lambda>_ _. 2) ''hello'' 1 ''xyz'' 1 4 = (4, ''xello'')"
proof -
  have "progress (\<lambda>_ _. 2)" by (simp add: progress_def)
  from copyfd_copies [OF this, of 1 "''xyz''" "''hello''" 1 4] show ?thesis
    by (simp add: overwrite_def)
qed

end
