(* ===== verification/Xattrs.thy ===== *)
theory Xattrs
  imports FdIO
begin

unbundle bit_operations_syntax

text \<open>
  Extended attributes, \<open>src/src/xattrs.c\<close>: the permission rules for storing an entry's xattrs in
  the directory's own database, the in-memory list, and its form in a trace line.  The arrays
  \<open>name\<close> and \<open>value\<close> of a pair are lists of bytes beside their lengths, as in the struct.
\<close>

section \<open>Data\<close>

record xattr =
  x_name :: string
  x_name_len :: nat
  x_value :: string
  x_value_len :: nat

record xattrs =
  x_pairs :: "xattr list"
  xs_name_len :: nat
  xs_len :: nat
  xs_count :: nat

definition XATTRDELIM :: char where "XATTRDELIM = CHR 0x1F"
definition MAXXATTR :: nat where "MAXXATTR = 65536"

definition xattrs_setup :: xattrs where
  "xattrs_setup = \<lparr>x_pairs = [], xs_name_len = 0, xs_len = 0, xs_count = 0\<rparr>"

text \<open>The lengths of a pair and the counters of a list agree with what they count.\<close>

definition xattr_ok :: "xattr \<Rightarrow> bool" where
  "xattr_ok x \<longleftrightarrow> x_name_len x = length (x_name x) \<and> x_value_len x = length (x_value x)"

definition pair_len :: "xattr \<Rightarrow> nat" where
  "pair_len x = x_name_len x + x_value_len x"

definition xattrs_ok :: "xattrs \<Rightarrow> bool" where
  "xattrs_ok xs \<longleftrightarrow> xs_count xs = length (x_pairs xs)
     \<and> xs_name_len xs = sum_list (map x_name_len (x_pairs xs))
     \<and> xs_len xs = sum_list (map pair_len (x_pairs xs))
     \<and> (\<forall>x \<in> set (x_pairs xs). xattr_ok x)"

section \<open>Whether an entry's xattrs can go into db.db\<close>

record owner_mode =
  om_mode :: "32 word"
  om_uid :: "32 word"
  om_gid :: "32 word"

text \<open>The octal constants of the source: 0004, 0440, 0400, 0666, 0660, 0600.\<close>

definition UGO_MASK :: "32 word" where "UGO_MASK = 0x004"
definition UG_MASK :: "32 word" where "UG_MASK = 0x120"
definition U_MASK :: "32 word" where "U_MASK = 0x100"

definition xattr_can_rollin :: "owner_mode \<Rightarrow> owner_mode \<Rightarrow> nat" where
  "xattr_can_rollin parent entry =
     (if om_mode entry AND UGO_MASK = UGO_MASK then 1
      else if om_mode entry AND UG_MASK = UG_MASK
              \<and> om_uid parent = om_uid entry \<and> om_gid parent = om_gid entry
              \<and> om_mode parent AND UGO_MASK = UG_MASK then 2
      else if om_mode entry AND U_MASK = U_MASK
              \<and> om_uid parent = om_uid entry \<and> om_gid parent = om_gid entry
              \<and> om_mode parent AND UGO_MASK = U_MASK then 3
      else if om_mode parent AND 0x1B6 = 0x1B6
              \<or> (om_mode parent AND 0x1B0 = 0x1B0
                 \<and> (om_uid parent = om_uid entry \<or> om_gid parent = om_gid entry))
              \<or> (om_mode parent AND 0x180 = 0x180 \<and> om_uid parent = om_uid entry) then 4
      else 0)"

lemma ugo_masked: "m AND UGO_MASK \<noteq> UG_MASK" "m AND UGO_MASK \<noteq> U_MASK"
proof -
  have "(m AND UGO_MASK) AND UG_MASK = 0" "(m AND UGO_MASK) AND U_MASK = 0"
    by (simp_all add: UGO_MASK_def UG_MASK_def U_MASK_def and.assoc)
  then show "m AND UGO_MASK \<noteq> UG_MASK" "m AND UGO_MASK \<noteq> U_MASK"
    by (auto simp: UG_MASK_def U_MASK_def)
qed

section \<open>The in-memory list\<close>

text \<open>
  \<open>xattr_remove\<close> overwrites a match with the last pair and looks at the same index again.  The
  array's first \<open>count\<close> elements are the list; a size that would drop below 0 stays 0 here,
  which \<open>xattrs_ok\<close> excludes.
\<close>

definition remove_at :: "xattrs \<Rightarrow> nat \<Rightarrow> xattrs" where
  "remove_at xs i =
     (let x = x_pairs xs ! i; n = length (x_pairs xs) - 1
      in xs\<lparr>x_pairs := butlast (if i \<noteq> n then (x_pairs xs)[i := last (x_pairs xs)] else x_pairs xs),
            xs_name_len := xs_name_len xs - x_name_len x,
            xs_len := xs_len xs - (x_name_len x + x_value_len x),
            xs_count := xs_count xs - 1\<rparr>)"

lemma length_remove_at [simp]: "length (x_pairs (remove_at xs i)) = length (x_pairs xs) - 1"
  by (simp add: remove_at_def Let_def)

function xattr_remove_loop ::
    "xattrs \<Rightarrow> string \<Rightarrow> nat \<Rightarrow> nat \<Rightarrow> nat \<Rightarrow> nat \<times> xattrs" where
  "xattr_remove_loop xs name name_len i removed =
     (if i < length (x_pairs xs) then
        if x_name_len (x_pairs xs ! i) = name_len
           \<and> strncmp (x_name (x_pairs xs ! i)) name name_len = 0
        then xattr_remove_loop (remove_at xs i) name name_len i (removed + 1)
        else xattr_remove_loop xs name name_len (i + 1) removed
      else (removed, xs))"
  by pat_completeness auto
termination
  by (relation "measure (\<lambda>(xs, name, name_len, i, removed). length (x_pairs xs) - i)") auto

declare xattr_remove_loop.simps [simp del]

definition xattr_remove :: "xattrs \<Rightarrow> string \<Rightarrow> nat \<Rightarrow> nat \<times> xattrs" where
  "xattr_remove xs name name_len = xattr_remove_loop xs name name_len 0 0"

text \<open>
  \<open>xattrs_get\<close> over the names the file system lists and its \<open>getxattr\<close>: \<open>None\<close> is a failed
  listing or lookup.  The first pass counts the user names, the second stops when it has
  filled \<open>count\<close> pairs, a name without a non-empty value lowers \<open>count\<close>.
\<close>

definition is_user_name :: "string \<Rightarrow> bool" where
  "is_user_name name \<longleftrightarrow> length name > 5 \<and> take 5 name = ''user.''"

fun xattrs_get_loop :: "(string \<Rightarrow> string option) \<Rightarrow> string list \<Rightarrow> nat \<Rightarrow> xattrs \<Rightarrow> xattrs" where
  "xattrs_get_loop getxattr [] i xs = xs"
| "xattrs_get_loop getxattr (name # names) i xs =
     (if xs_count xs \<le> i then xs
      else if \<not> is_user_name name then xattrs_get_loop getxattr names i xs
      else case getxattr name of
             Some (c # v) \<Rightarrow>
               (let x = \<lparr>x_name = name, x_name_len = length name,
                         x_value = c # v, x_value_len = length (c # v)\<rparr>
                in xattrs_get_loop getxattr names (i + 1)
                     (xs\<lparr>x_pairs := x_pairs xs @ [x],
                         xs_name_len := xs_name_len xs + x_name_len x,
                         xs_len := xs_len xs + (x_name_len x + x_value_len x)\<rparr>))
           | _ \<Rightarrow> xattrs_get_loop getxattr names i (xs\<lparr>xs_count := xs_count xs - 1\<rparr>))"

definition xattrs_get ::
    "string list option \<Rightarrow> (string \<Rightarrow> string option) \<Rightarrow> xattrs \<Rightarrow> int \<times> xattrs" where
  "xattrs_get names getxattr xs =
     (case names of
        None \<Rightarrow> (-1, xs)
      | Some ns \<Rightarrow>
          (let xs1 = xs\<lparr>xs_count := xs_count xs + length (filter is_user_name ns)\<rparr>;
               xs2 = xattrs_get_loop getxattr ns 0 xs1
           in (int (xs_count xs2), xs2)))"

text \<open>
  \<open>xattr_get_names\<close> joins the names, each with the delimiter behind it, into a buffer of
  \<open>buf_len\<close> bytes: \<open>Inl\<close> is the -1 for a buffer that is too short, \<open>None\<close> an overrun.
\<close>

fun get_names_loop :: "xattr list \<Rightarrow> nat \<Rightarrow> char \<Rightarrow> string \<Rightarrow> string option" where
  "get_names_loop [] buf_len delim buf = Some buf"
| "get_names_loop (x # xs) buf_len delim buf =
     (case SNFORMAT_S (buf_len - length buf) [(x_name x, x_name_len x), ([delim], 1)] of
        None \<Rightarrow> None
      | Some s \<Rightarrow> get_names_loop xs buf_len delim (buf @ s))"

definition xattr_get_names :: "xattrs \<Rightarrow> nat \<Rightarrow> char \<Rightarrow> (int + string) option" where
  "xattr_get_names xs buf_len delim =
     (if buf_len < xs_name_len xs + xs_count xs then Some (Inl (-1))
      else map_option Inr (get_names_loop (x_pairs xs) buf_len delim []))"

section \<open>Trace form\<close>

definition XATTR_PREFIX_LEN :: nat where "XATTR_PREFIX_LEN = 4"

definition xattrs_to_file :: "xattrs \<Rightarrow> char \<Rightarrow> string" where
  "xattrs_to_file xs delim =
     fmt_04zx (xs_len xs + 2 * xs_count xs + XATTR_PREFIX_LEN) @ fmt_04zx (xs_count xs)
     @ concat (map (\<lambda>x. take (x_name_len x) (x_name x) @ [delim]
                        @ take (x_value_len x) (x_value x) @ [delim]) (x_pairs xs))"

definition xattrs_to_buffer :: "wbuf \<Rightarrow> xattrs \<Rightarrow> char \<Rightarrow> wbuf" where
  "xattrs_to_buffer b xs delim =
     (let b1 = write_with_resize b (fmt_04zx (xs_len xs + 2 * xs_count xs + XATTR_PREFIX_LEN));
          b2 = write_with_resize b1 (fmt_04zx (xs_count xs))
      in foldl (\<lambda>b x. write_with_resize (write_with_resize b (cstr (x_name x) @ [delim]))
                         (cstr (x_value x) @ [delim])) b2 (x_pairs xs))"

text \<open>
  The loop of \<open>xattrs_from_line\<close> over at most \<open>count\<close> pairs: \<open>w\<close> is \<open>[start, end)\<close>, \<open>None\<close> once
  \<open>start\<close> is null, \<open>tail\<close> are the bytes from \<open>end\<close> on.  Each \<open>split\<close> leaves a NUL behind the piece
  it found, and \<open>SNPRINTF\<close> stores what fits but returns the whole length.
\<close>

definition add_pair :: "xattrs \<Rightarrow> string \<Rightarrow> string \<Rightarrow> xattrs" where
  "add_pair xs name v =
     xs\<lparr>x_pairs := x_pairs xs @ [\<lparr>x_name = take (MAXXATTR - 1) name, x_name_len = length name,
                                   x_value = take (MAXXATTR - 1) v, x_value_len = length v\<rparr>],
        xs_name_len := xs_name_len xs + length name,
        xs_len := xs_len xs + (length name + length v),
        xs_count := xs_count xs + 1\<rparr>"

fun pairs_loop :: "char \<Rightarrow> string \<Rightarrow> nat \<Rightarrow> string option \<Rightarrow> xattrs \<Rightarrow> xattrs" where
  "pairs_loop delim tail 0 w xs = xs"
| "pairs_loop delim tail (Suc n) w xs =
     (case split w (Some [delim]) of
        None \<Rightarrow> xs
      | Some (a, next1) \<Rightarrow>
          if next1 = [] then xs
          else case split_at next1 [delim] of
                 None \<Rightarrow> pairs_loop delim tail n None (add_pair xs (cstr a) (cstr (next1 @ tail)))
               | Some (v, next2) \<Rightarrow> pairs_loop delim tail n (Some next2) (add_pair xs (cstr a) (cstr v)))"

text \<open>
  \<open>xattrs_from_line(start, end, ...)\<close>: \<open>s\<close> are the bytes of \<open>[start, end)\<close> and \<open>beyond\<close> those from
  \<open>end\<close> on.  The result has the returned pointer as its distance from \<open>start\<close>.
\<close>

definition xattrs_from_line :: "string \<Rightarrow> string \<Rightarrow> char \<Rightarrow> bool \<Rightarrow> (nat \<times> xattrs) option" where
  "xattrs_from_line s beyond delim old_format =
     (if old_format then
        let xs = pairs_loop delim beyond (length (filter (\<lambda>c. c = delim) s) div 2) (Some s) xattrs_setup
        in Some (xs_len xs + 2 * xs_count xs, xs)
      else
        case sscanf_04zx (cstr (s @ beyond)) of
          None \<Rightarrow> None
        | Some (len, chars) \<Rightarrow>
            if chars \<noteq> XATTR_PREFIX_LEN then None
            else if length s < len then None
            else
              (case sscanf_04zx (cstr (drop XATTR_PREFIX_LEN (s @ beyond))) of
                 None \<Rightarrow> None
               | Some (npairs, chars2) \<Rightarrow>
                   if chars2 \<noteq> XATTR_PREFIX_LEN then None
                   else
                     let rest = drop (2 * XATTR_PREFIX_LEN) (s @ beyond);
                         w = take (len - XATTR_PREFIX_LEN) rest;
                         xs = pairs_loop delim (drop (len - XATTR_PREFIX_LEN) rest) npairs (Some w)
                                xattrs_setup
                     in Some (2 * XATTR_PREFIX_LEN + xs_len xs + 2 * xs_count xs, xs)))"


section \<open>Facts\<close>

lemma get_names_loop_fits:
  assumes "\<forall>x \<in> set xs. xattr_ok x \<and> x_name_len x < 2 ^ 32"
    and "length buf + sum_list (map (\<lambda>x. x_name_len x + 1) xs) < buf_len"
  shows "get_names_loop xs buf_len delim buf = Some (buf @ concat (map (\<lambda>x. x_name x @ [delim]) xs))"
  using assms
proof (induction xs arbitrary: buf)
  case (Cons x xs)
  have xl: "x_name_len x = length (x_name x)"
    using Cons.prems by (simp add: xattr_ok_def)
  have "SNFORMAT_S (buf_len - length buf) [(x_name x, x_name_len x), ([delim], 1)] =
      Some (take (buf_len - length buf - 1) (x_name x @ [delim]))"
    using Cons.prems by (subst SNFORMAT_S_take) (auto simp: xattr_ok_def)
  also have "take (buf_len - length buf - 1) (x_name x @ [delim]) = x_name x @ [delim]"
    using Cons.prems by (intro take_all) (auto simp: xattr_ok_def)
  finally show ?case
    using Cons.IH [of "buf @ x_name x @ [delim]"] Cons.prems xl by simp
qed simp

text \<open>What the removal keeps and counts.\<close>

definition keep_pair :: "string \<Rightarrow> xattr \<Rightarrow> bool" where
  "keep_pair name x \<longleftrightarrow> \<not> (x_name_len x = length name \<and> strncmp (x_name x) name (length name) = 0)"

lemma mset_swap_last:
  assumes "i < length ps"
  shows "mset (butlast (if i \<noteq> length ps - 1 then ps[i := last ps] else ps)) = mset ps - {#ps ! i#}"
proof (cases ps rule: rev_cases)
  case (snoc qs q)
  then show ?thesis
    using assms by (auto simp: nth_append list_update_append mset_update)
qed (use assms in simp)

lemma xattrs_ok_mset:
  "xattrs_ok xs \<longleftrightarrow> xs_count xs = size (mset (x_pairs xs))
     \<and> xs_name_len xs = sum_mset (image_mset x_name_len (mset (x_pairs xs)))
     \<and> xs_len xs = sum_mset (image_mset pair_len (mset (x_pairs xs)))
     \<and> (\<forall>x \<in># mset (x_pairs xs). xattr_ok x)"
  by (simp add: xattrs_ok_def sum_mset_sum_list flip: mset_map)

lemma sum_mset_remove1:
  fixes f :: "'a \<Rightarrow> nat"
  assumes "x \<in># M"
  shows "sum_mset (image_mset f (M - {#x#})) = sum_mset (image_mset f M) - f x"
proof -
  obtain N where "M = add_mset x N" using assms by (metis insert_DiffM)
  then show ?thesis by simp
qed

lemma remove_at_mset:
  "i < length (x_pairs xs) \<Longrightarrow> mset (x_pairs (remove_at xs i)) = mset (x_pairs xs) - {#x_pairs xs ! i#}"
  using mset_swap_last [of i "x_pairs xs"] by (simp add: remove_at_def Let_def)

lemma remove_at_take:
  "i < length (x_pairs xs) \<Longrightarrow> take i (x_pairs (remove_at xs i)) = take i (x_pairs xs)"
  by (simp add: remove_at_def Let_def take_butlast)

lemma remove_at_ok:
  assumes "xattrs_ok xs" and "i < length (x_pairs xs)"
  shows "xattrs_ok (remove_at xs i)"
proof -
  obtain M where M: "mset (x_pairs xs) = add_mset (x_pairs xs ! i) M"
    using assms(2) by (metis insert_DiffM nth_mem_mset)
  have ms: "mset (x_pairs (remove_at xs i)) = M"
    using remove_at_mset [OF assms(2)] M by simp
  show ?thesis
    using assms(1) unfolding xattrs_ok_mset ms M
    by (simp add: pair_len_def) (simp add: remove_at_def Let_def)
qed

lemma xattr_remove_loop_spec:
  "xattrs_ok xs \<Longrightarrow> i \<le> length (x_pairs xs) \<Longrightarrow>
   (\<forall>x \<in> set (take i (x_pairs xs)). keep_pair name x) \<Longrightarrow>
   xattr_remove_loop xs name (length name) i removed = (r, xs') \<Longrightarrow>
   xattrs_ok xs' \<and> mset (x_pairs xs') = filter_mset (keep_pair name) (mset (x_pairs xs))
   \<and> r = removed + size (filter_mset (\<lambda>x. \<not> keep_pair name x) (mset (x_pairs xs)))"
proof (induction xs name "length name" i removed rule: xattr_remove_loop.induct)
  case (1 xs name i removed)
  let ?ps = "x_pairs xs"
  note eq = xattr_remove_loop.simps [of xs name "length name" i removed]
  consider "i \<ge> length ?ps" | "i < length ?ps" "keep_pair name (?ps ! i)"
    | "i < length ?ps" "\<not> keep_pair name (?ps ! i)" by linarith
  then show ?case
  proof cases
    case 1
    then have "\<forall>x \<in># mset ?ps. keep_pair name x" using "1.prems" by simp
    then have "filter_mset (keep_pair name) (mset ?ps) = mset ?ps"
        "filter_mset (\<lambda>x. \<not> keep_pair name x) (mset ?ps) = {#}"
      by (simp_all add: filter_mset_eq_conv filter_mset_eq_mempty_iff)
    then show ?thesis using 1 "1.prems" eq by simp
  next
    case 2
    have "\<forall>x \<in> set (take (i + 1) ?ps). keep_pair name x"
      using "1.prems"(3) 2 by (simp add: take_Suc_conv_app_nth)
    then show ?thesis
      using "1.hyps"(2) [OF 2(1) _ "1.prems"(1)] 2 "1.prems"(4) unfolding eq
      by (auto simp: keep_pair_def)
  next
    case 3
    obtain M where M: "mset ?ps = add_mset (?ps ! i) M" using 3(1) by (metis insert_DiffM nth_mem_mset)
    have ms: "mset (x_pairs (remove_at xs i)) = M"
      using remove_at_mset [OF 3(1)] M by simp
    have "xattr_remove_loop (remove_at xs i) name (length name) i (removed + 1) = (r, xs')"
      using 3 "1.prems"(4) unfolding eq keep_pair_def by simp
    then show ?thesis
      using "1.hyps"(1) [OF 3(1) _ remove_at_ok [OF "1.prems"(1) 3(1)]] 3 "1.prems"(3)
      unfolding ms M keep_pair_def by (simp add: remove_at_take)
  qed
qed

section \<open>The trace form can be read back\<close>

text \<open>What a trace line can carry: no NUL and no delimiter, and names and values that fit.\<close>

definition text_ok :: "char \<Rightarrow> string \<Rightarrow> bool" where
  "text_ok delim s \<longleftrightarrow> NUL \<notin> set s \<and> delim \<notin> set s \<and> length s < MAXXATTR"

definition printable :: "char \<Rightarrow> xattrs \<Rightarrow> bool" where
  "printable delim xs \<longleftrightarrow> (\<forall>x \<in> set (x_pairs xs). text_ok delim (x_name x) \<and> text_ok delim (x_value x))"

definition pair_bytes :: "char \<Rightarrow> xattr \<Rightarrow> string" where
  "pair_bytes delim x = x_name x @ [delim] @ x_value x @ [delim]"

lemma split_text: "text_ok delim s \<Longrightarrow> split_at (s @ delim # r) [delim] = Some (s, r)"
  by (rule split_at_append) (auto simp: text_ok_def)

lemma text_ok_stored:
  "text_ok delim s \<Longrightarrow> take (MAXXATTR - Suc 0) s = s"
  "text_ok delim s \<Longrightarrow> cstr s = s"
  by (auto simp: text_ok_def cstr_id)

lemma add_pair_same:
  "xattr_ok x \<Longrightarrow> text_ok delim (x_name x) \<Longrightarrow> text_ok delim (x_value x) \<Longrightarrow>
   add_pair xs (x_name x) (x_value x) =
     xs\<lparr>x_pairs := x_pairs xs @ [x], xs_name_len := xs_name_len xs + x_name_len x,
        xs_len := xs_len xs + pair_len x, xs_count := xs_count xs + 1\<rparr>"
  by (cases x) (simp add: add_pair_def text_ok_stored xattr_ok_def pair_len_def)

lemma pairs_loop_reads:
  assumes "\<forall>x \<in> set ps. xattr_ok x \<and> text_ok delim (x_name x) \<and> text_ok delim (x_value x)"
  shows "pairs_loop delim tail (length ps) (Some (concat (map (pair_bytes delim) ps) @ r)) xs =
      xs\<lparr>x_pairs := x_pairs xs @ ps,
         xs_name_len := xs_name_len xs + sum_list (map x_name_len ps),
         xs_len := xs_len xs + sum_list (map pair_len ps),
         xs_count := xs_count xs + length ps\<rparr>"
  using assms
proof (induction ps arbitrary: xs)
  case (Cons x ps)
  have x: "xattr_ok x" "text_ok delim (x_name x)" "text_ok delim (x_value x)"
    using Cons.prems by auto
  have "pairs_loop delim tail (length (x # ps)) (Some (concat (map (pair_bytes delim) (x # ps)) @ r)) xs =
      pairs_loop delim tail (length ps) (Some (concat (map (pair_bytes delim) ps) @ r))
        (add_pair xs (x_name x) (x_value x))"
    using x by (simp add: pair_bytes_def split_def [where src = "Some s" for s] split_text text_ok_stored)
  then show ?case
    using Cons.IH Cons.prems unfolding add_pair_same [OF x] by simp
qed simp

lemma cstr_append: "NUL \<notin> set a \<Longrightarrow> cstr (a @ b) = a @ cstr b"
  unfolding cstr_def by (rule takeWhile_append2) auto

lemma NUL_fmt_04zx: "NUL \<notin> set (fmt_04zx n)"
  using fmt_04zx_digits digit_not_sign by metis

lemma xattrs_to_file_bytes:
  assumes "xattrs_ok xs"
  shows "xattrs_to_file xs delim =
    fmt_04zx (xs_len xs + 2 * xs_count xs + XATTR_PREFIX_LEN) @ fmt_04zx (xs_count xs)
    @ concat (map (pair_bytes delim) (x_pairs xs))"
proof -
  have "concat (map (\<lambda>x. take (x_name_len x) (x_name x) @ [delim]
            @ take (x_value_len x) (x_value x) @ [delim]) (x_pairs xs)) =
        concat (map (pair_bytes delim) (x_pairs xs))"
    using assms by (intro arg_cong [where f = concat] map_cong)
      (auto simp: xattrs_ok_def xattr_ok_def pair_bytes_def)
  then show ?thesis by (simp add: xattrs_to_file_def)
qed

lemma length_pair_bytes:
  "\<forall>x \<in> set ps. xattr_ok x \<Longrightarrow>
   length (concat (map (pair_bytes delim) ps)) = sum_list (map pair_len ps) + 2 * length ps"
  by (induction ps) (auto simp: pair_bytes_def pair_len_def xattr_ok_def)

lemma foldl_pairs:
  "wbuf_ok b \<Longrightarrow> \<forall>x \<in> set ps. text_ok delim (x_name x) \<and> text_ok delim (x_value x) \<Longrightarrow>
   (let b' = foldl (\<lambda>b x. write_with_resize (write_with_resize b (cstr (x_name x) @ [delim]))
                        (cstr (x_value x) @ [delim])) b ps
    in wbuf_ok b' \<and> wb_data b' = wb_data b @ concat (map (pair_bytes delim) ps))"
  by (induction ps arbitrary: b)
    (simp_all add: write_with_resize_appends text_ok_def cstr_id pair_bytes_def Let_def)

lemma xattrs_to_buffer_bytes:
  assumes "xattrs_ok xs" and "printable delim xs" and "wbuf_ok b"
  shows "wb_data (xattrs_to_buffer b xs delim) = wb_data b @ xattrs_to_file xs delim"
    and "wbuf_ok (xattrs_to_buffer b xs delim)"
  using foldl_pairs [of _ "x_pairs xs" delim] assms
  by (simp_all add: xattrs_to_buffer_def xattrs_to_file_bytes write_with_resize_appends printable_def
      Let_def)

definition file_len :: "xattrs \<Rightarrow> nat" where
  "file_len xs = xs_len xs + 2 * xs_count xs + XATTR_PREFIX_LEN"

lemma xattrs_from_line_reads:
  assumes "xattrs_ok xs" and "printable delim xs" and "file_len xs < 65536"
  shows "xattrs_from_line (xattrs_to_file xs delim @ r) beyond delim False =
      Some (length (xattrs_to_file xs delim), xs)"
    and "length (xattrs_to_file xs delim) = file_len xs + 4"
proof -
  let ?ps = "x_pairs xs"
  let ?body = "concat (map (pair_bytes delim) ?ps)"
  have xs: "xs_count xs = length ?ps" "xs_name_len xs = sum_list (map x_name_len ?ps)"
      "xs_len xs = sum_list (map pair_len ?ps)" and ok: "\<forall>x \<in> set ?ps. xattr_ok x"
    using assms(1) by (auto simp: xattrs_ok_def)
  have body: "length ?body = file_len xs - XATTR_PREFIX_LEN"
    using length_pair_bytes [OF ok] xs by (simp add: file_len_def)
  have c: "xs_count xs < 65536" using assms(3) by (simp add: file_len_def)
  have bytes: "xattrs_to_file xs delim = fmt_04zx (file_len xs) @ fmt_04zx (xs_count xs) @ ?body"
    using xattrs_to_file_bytes [OF assms(1)] by (simp add: file_len_def)
  note l4 = length_fmt_04zx [OF assms(3)] length_fmt_04zx [OF c]
  show len: "length (xattrs_to_file xs delim) = file_len xs + 4"
    unfolding bytes using body l4 by (simp add: file_len_def XATTR_PREFIX_LEN_def)
  have pl: "pairs_loop delim tail (length ?ps) (Some ?body) xattrs_setup = xs" for tail
    using pairs_loop_reads [of ?ps delim tail "[]" xattrs_setup] assms(2) ok
    using xs by (cases xs) (simp add: printable_def xattrs_setup_def)
  have s1: "sscanf_04zx (cstr ((xattrs_to_file xs delim @ r) @ beyond)) = Some (file_len xs, XATTR_PREFIX_LEN)"
    unfolding bytes by (simp add: cstr_append NUL_fmt_04zx sscanf_fmt_04zx assms(3) XATTR_PREFIX_LEN_def)
  have s2: "sscanf_04zx (cstr (drop XATTR_PREFIX_LEN ((xattrs_to_file xs delim @ r) @ beyond))) =
      Some (xs_count xs, XATTR_PREFIX_LEN)"
    unfolding bytes using l4
    by (simp add: cstr_append NUL_fmt_04zx sscanf_fmt_04zx c XATTR_PREFIX_LEN_def)
  have d: "drop (2 * XATTR_PREFIX_LEN) ((xattrs_to_file xs delim @ r) @ beyond) = ?body @ r @ beyond"
    unfolding bytes using l4 by (simp add: XATTR_PREFIX_LEN_def)
  have t: "take (file_len xs - XATTR_PREFIX_LEN) (?body @ r @ beyond) = ?body"
    using body by simp
  have le: "\<not> length (xattrs_to_file xs delim @ r) < file_len xs" using len by simp
  have fl: "2 * XATTR_PREFIX_LEN + xs_len xs + 2 * xs_count xs = length (xattrs_to_file xs delim)"
    unfolding len by (simp add: file_len_def XATTR_PREFIX_LEN_def)
  show "xattrs_from_line (xattrs_to_file xs delim @ r) beyond delim False =
      Some (length (xattrs_to_file xs delim), xs)"
    unfolding xattrs_from_line_def s1
    by (simp only: option.case prod.case s2 d t if_False le simp_thms Let_def pl xs(1) fl [unfolded xs(1)])
qed

section \<open>Properties\<close>

text \<open>
  The xattrs of an entry, written into a trace line after any other bytes (whatever the
  state of the growing buffer) and read back from there, are the same list with the same
  lengths and counters, and reading stops exactly behind them.
\<close>
theorem xattrs_roundtrip:
  assumes "xattrs_ok xs" and "printable delim xs"
    and "xs_len xs + 2 * xs_count xs + XATTR_PREFIX_LEN < 65536" and "wbuf_ok b"
  shows "\<exists>bytes. wb_data (xattrs_to_buffer b xs delim) = wb_data b @ bytes
    \<and> xattrs_from_line (bytes @ r) beyond delim False = Some (length bytes, xs)"
  using xattrs_to_buffer_bytes(1) [OF assms(1,2,4)] xattrs_from_line_reads(1) [OF assms(1,2)] assms(3)
  unfolding file_len_def by blast

lemma xattrs_roundtrip_witness:
  "let xs = \<lparr>x_pairs = [\<lparr>x_name = ''user.a'', x_name_len = 6, x_value = ''1'', x_value_len = 1\<rparr>],
             xs_name_len = 6, xs_len = 7, xs_count = 1\<rparr>
   in \<exists>bytes. wb_data (xattrs_to_buffer \<lparr>wb_alloc = False, wb_data = [], wb_size = 0, wb_offset = 0\<rparr>
                    xs XATTRDELIM) = bytes
     \<and> xattrs_from_line (bytes @ ''tail'') [] XATTRDELIM False = Some (length bytes, xs)"
  unfolding Let_def
  using xattrs_roundtrip [of "\<lparr>x_pairs = [\<lparr>x_name = ''user.a'', x_name_len = 6, x_value = ''1'',
      x_value_len = 1\<rparr>], xs_name_len = 6, xs_len = 7, xs_count = 1\<rparr>" XATTRDELIM
      "\<lparr>wb_alloc = False, wb_data = [], wb_size = 0, wb_offset = 0\<rparr>" "''tail''" "[]"]
  by (simp add: xattrs_ok_def xattr_ok_def printable_def text_ok_def pair_len_def wbuf_ok_def
      XATTRDELIM_def XATTR_PREFIX_LEN_def MAXXATTR_def)

text \<open>
  Removing a name leaves exactly the pairs with other names (their order may change), the
  counters still count them, and the result is how many pairs had the name.
\<close>
theorem xattr_remove_removes:
  assumes "xattrs_ok xs" and "xattr_remove xs name (length name) = (removed, xs')"
  shows "xattrs_ok xs'
    \<and> mset (x_pairs xs') = filter_mset (keep_pair name) (mset (x_pairs xs))
    \<and> removed + length (x_pairs xs') = length (x_pairs xs)"
proof -
  have *: "xattrs_ok xs' \<and> mset (x_pairs xs') = filter_mset (keep_pair name) (mset (x_pairs xs))
      \<and> removed = 0 + size (filter_mset (\<lambda>x. \<not> keep_pair name x) (mset (x_pairs xs)))"
    by (rule xattr_remove_loop_spec [OF assms(1) _ _ assms(2) [unfolded xattr_remove_def]]) simp_all
  then have "length (x_pairs xs') = size (filter_mset (keep_pair name) (mset (x_pairs xs)))"
    by (metis size_mset)
  moreover have "size (filter_mset (keep_pair name) (mset (x_pairs xs)))
      + size (filter_mset (\<lambda>x. \<not> keep_pair name x) (mset (x_pairs xs))) = length (x_pairs xs)"
    by (metis multiset_partition size_mset size_union)
  ultimately show ?thesis using * by simp
qed

lemma xattr_remove_removes_witness:
  "let x = (\<lambda>n. \<lparr>x_name = n, x_name_len = 6, x_value = ''1'', x_value_len = 1\<rparr>);
       r = xattr_remove \<lparr>x_pairs = [x ''user.a'', x ''user.b''], xs_name_len = 12, xs_len = 14,
                          xs_count = 2\<rparr> ''user.a'' 6
   in fst r + length (x_pairs (snd r)) = 2 \<and> xattrs_ok (snd r)"
proof -
  let ?x = "\<lambda>n. \<lparr>x_name = n, x_name_len = 6, x_value = ''1'', x_value_len = 1\<rparr>"
  let ?xs = "\<lparr>x_pairs = [?x ''user.a'', ?x ''user.b''], xs_name_len = 12, xs_len = 14, xs_count = 2\<rparr>"
  have "xattrs_ok ?xs" by (simp add: xattrs_ok_def xattr_ok_def pair_len_def)
  moreover have "length ''user.a'' = 6" by simp
  ultimately show ?thesis
    using xattr_remove_removes [of ?xs "''user.a''" "fst (xattr_remove ?xs ''user.a'' 6)"
        "snd (xattr_remove ?xs ''user.a'' 6)"]
    unfolding Let_def by (simp only: prod.collapse) simp
qed

text \<open>
  Rules 2 and 3 of \<open>xattr_can_rollin\<close> never apply: both compare the parent's mode, masked
  to the one bit \<open>0004\<close>, with \<open>0440\<close> and \<open>0400\<close>.  An entry its owner alone can read, in a
  directory that its owner alone can read and not write, has its xattrs kept out.
\<close>
theorem xattr_can_rollin_rules:
  "xattr_can_rollin parent entry \<in> {0, 1, 4}
   \<and> xattr_can_rollin \<lparr>om_mode = 0x140, om_uid = u, om_gid = g\<rparr>
                       \<lparr>om_mode = 0x100, om_uid = u, om_gid = g\<rparr> = 0"
proof
  show "xattr_can_rollin parent entry \<in> {0, 1, 4}"
    by (simp add: xattr_can_rollin_def ugo_masked)
  show "xattr_can_rollin \<lparr>om_mode = 0x140, om_uid = u, om_gid = g\<rparr>
                       \<lparr>om_mode = 0x100, om_uid = u, om_gid = g\<rparr> = 0"
    by (simp add: xattr_can_rollin_def UGO_MASK_def UG_MASK_def U_MASK_def)
qed

end
