(* ===== verification/Trace.thy ===== *)
theory Trace
  imports Xattrs
begin

unbundle bit_operations_syntax

text \<open>
  Trace lines, the first half of \<open>src/src/trace.c\<close>: writing an entry as one line, to a file or
  to a growing buffer, and reading it back.  Fields of \<open>struct stat\<close> have their widths on
  64 bit Linux.
\<close>

section \<open>Data\<close>

record stat =
  st_ino :: "64 word"
  st_mode :: "32 word"
  st_nlink :: "64 word"
  st_uid :: "32 word"
  st_gid :: "32 word"
  st_size :: "64 word" \<comment> \<open>signed, as are the following\<close>
  st_blksize :: "64 word"
  st_blocks :: "64 word"
  st_atime :: "64 word"
  st_mtime :: "64 word"
  st_ctime :: "64 word"

definition stat0 :: stat where
  "stat0 = \<lparr>st_ino = 0, st_mode = 0, st_nlink = 0, st_uid = 0, st_gid = 0, st_size = 0,
     st_blksize = 0, st_blocks = 0, st_atime = 0, st_mtime = 0, st_ctime = 0\<rparr>"

text \<open>The fields of \<open>struct work\<close> and \<open>struct entry_data\<close> that a trace line is about.\<close>

record work =
  w_name :: string
  w_name_len :: nat
  w_basename_len :: nat
  w_statuso :: stat
  w_crtime :: "64 word"
  w_pinode :: "64 word"

record entry_data =
  ed_type :: char
  ed_linkname :: string
  ed_xattrs :: xattrs
  ed_ossint1 :: "32 word"
  ed_ossint2 :: "32 word"
  ed_ossint3 :: "32 word"
  ed_ossint4 :: "32 word"
  ed_osstext1 :: string
  ed_osstext2 :: string

definition new_work_with_name :: "string \<Rightarrow> nat \<Rightarrow> string \<Rightarrow> nat \<Rightarrow> work option" where
  "new_work_with_name prefix prefix_len basename basename_len =
     (let name_total = prefix_len + 1 + basename_len in
      map_option (\<lambda>name. \<lparr>w_name = name, w_name_len = length name, w_basename_len = basename_len,
                         w_statuso = stat0, w_crtime = 0, w_pinode = 0\<rparr>)
        (if prefix_len = 0 then SNFORMAT_S (name_total + 1) [(basename, basename_len)]
         else SNFORMAT_S (name_total + 1) [(prefix, prefix_len), ([SLASH], 1), (basename, basename_len)]))"

section \<open>Printing\<close>

definition fmt_u :: "'a::len word \<Rightarrow> string" where "fmt_u w = fmt_dec (uint w)"
definition fmt_d :: "'a::len word \<Rightarrow> string" where "fmt_d w = fmt_dec (sint w)"

definition externaltofile :: "char \<Rightarrow> string \<Rightarrow> string" where
  "externaltofile delim path = fmt_04zx (length path) @ path @ [delim] @ ''e'' @ [delim] @ [LF]"

text \<open>
  \<open>worktofile\<close>: the bytes it writes, and its result.  A null argument gives -1; \<open>None\<close> is a
  prefix longer than the name, where the code would read outside of it.
\<close>

definition worktofile ::
    "char \<Rightarrow> nat \<Rightarrow> work option \<Rightarrow> entry_data option \<Rightarrow> (int \<times> string) option" where
  "worktofile delim prefix_len wo edo =
     (case (wo, edo) of
        (Some w, Some ed) \<Rightarrow>
          if w_name_len w < prefix_len then None
          else
            (let st = w_statuso w; linkname = cstr (ed_linkname ed);
                 osstext1 = cstr (ed_osstext1 ed); osstext2 = cstr (ed_osstext2 ed);
                 out = fmt_04zx (w_name_len w - prefix_len)
                   @ take (w_name_len w - prefix_len) (drop prefix_len (w_name w)) @ [delim]
                   @ [ed_type ed] @ [delim]
                   @ fmt_u (st_ino st) @ [delim]
                   @ fmt_u (st_mode st) @ [delim]
                   @ fmt_u (st_nlink st) @ [delim]
                   @ fmt_u (st_uid st) @ [delim]
                   @ fmt_u (st_gid st) @ [delim]
                   @ fmt_d (st_size st) @ [delim]
                   @ fmt_d (st_blksize st) @ [delim]
                   @ fmt_d (st_blocks st) @ [delim]
                   @ fmt_d (st_atime st) @ [delim]
                   @ fmt_d (st_mtime st) @ [delim]
                   @ fmt_d (st_ctime st) @ [delim]
                   @ fmt_04zx (length linkname) @ linkname @ [delim]
                   @ xattrs_to_file (ed_xattrs ed) XATTRDELIM @ [delim]
                   @ fmt_d (w_crtime w) @ [delim]
                   @ fmt_d (ed_ossint1 ed) @ [delim]
                   @ fmt_d (ed_ossint2 ed) @ [delim]
                   @ fmt_d (ed_ossint3 ed) @ [delim]
                   @ fmt_d (ed_ossint4 ed) @ [delim]
                   @ fmt_04zx (length osstext1) @ osstext1 @ [delim]
                   @ fmt_04zx (length osstext2) @ osstext2 @ [delim]
                   @ fmt_d (w_pinode w) @ [delim]
                   @ [LF]
             in Some (int (length out), out))
      | _ \<Rightarrow> Some (-1, []))"

text \<open>\<open>worktobuffer\<close> formats with \<open>%s\<close>, so a name is written up to its NUL.\<close>

definition worktobuffer ::
    "wbuf \<Rightarrow> char \<Rightarrow> nat \<Rightarrow> work option \<Rightarrow> entry_data option \<Rightarrow> (int \<times> wbuf) option" where
  "worktobuffer b delim prefix_len wo edo =
     (case (wo, edo) of
        (Some w, Some ed) \<Rightarrow>
          if w_name_len w < prefix_len then None
          else
            (let st = w_statuso w; orig_offset = wb_offset b;
                 b1 = foldl write_with_resize b
                   [fmt_04zx (w_name_len w - prefix_len),
                    cstr (drop prefix_len (w_name w)) @ [delim],
                    [ed_type ed, delim],
                    fmt_u (st_ino st) @ [delim],
                    fmt_u (st_mode st) @ [delim],
                    fmt_u (st_nlink st) @ [delim],
                    fmt_u (st_uid st) @ [delim],
                    fmt_u (st_gid st) @ [delim],
                    fmt_d (st_size st) @ [delim],
                    fmt_d (st_blksize st) @ [delim],
                    fmt_d (st_blocks st) @ [delim],
                    fmt_d (st_atime st) @ [delim],
                    fmt_d (st_mtime st) @ [delim],
                    fmt_d (st_ctime st) @ [delim],
                    fmt_04zx (length (cstr (ed_linkname ed))),
                    cstr (ed_linkname ed) @ [delim]];
                 b2 = xattrs_to_buffer b1 (ed_xattrs ed) XATTRDELIM;
                 b3 = foldl write_with_resize b2
                   [[delim],
                    fmt_d (w_crtime w) @ [delim],
                    fmt_d (ed_ossint1 ed) @ [delim],
                    fmt_d (ed_ossint2 ed) @ [delim],
                    fmt_d (ed_ossint3 ed) @ [delim],
                    fmt_d (ed_ossint4 ed) @ [delim],
                    fmt_04zx (length (cstr (ed_osstext1 ed))),
                    cstr (ed_osstext1 ed) @ [delim],
                    fmt_04zx (length (cstr (ed_osstext2 ed))),
                    cstr (ed_osstext2 ed) @ [delim],
                    fmt_d (w_pinode w) @ [delim],
                    [LF]]
             in Some (int (wb_offset b3) - int orig_offset, b3))
      | _ \<Rightarrow> Some (-1, b))"

section \<open>Reading\<close>

text \<open>
  Integer conversions clamp what does not fit in 64 bits, as \<open>strtoul\<close> and \<open>strtol\<close> do, and
  keep the low bits for narrower fields; a matching failure leaves the field as it was.
\<close>

definition scan_u :: "string \<Rightarrow> 'a::len word \<Rightarrow> 'a word" where
  "scan_u s old = (case sscanf_dec s of None \<Rightarrow> old | Some v \<Rightarrow> word_of_int (clamp_u v))"
definition scan_d :: "string \<Rightarrow> 'a::len word \<Rightarrow> 'a word" where
  "scan_d s old = (case sscanf_dec s of None \<Rightarrow> old | Some v \<Rightarrow> word_of_int (clamp_s v))"
definition atol_w :: "string \<Rightarrow> 'a::len word" where
  "atol_w s = word_of_int (clamp_s (atol s))"

text \<open>
  A pointer into the line is \<open>Some s\<close>, \<open>s\<close> the bytes from it to \<open>end\<close>, or \<open>None\<close>: null or
  behind \<open>end\<close>.  \<open>tail\<close> are the bytes of the buffer from \<open>end\<close> on.  The first column group reads
  as one step \<open>p = q; q = split(p, ...); use p\<close> per column: the string at \<open>p\<close>, which ends at the
  NUL \<open>split\<close> wrote, or where the buffer has one, and the next pointer.  Reading through \<open>None\<close>
  has no result.
\<close>

definition column :: "char \<Rightarrow> string \<Rightarrow> string option \<Rightarrow> (string \<times> string option) option" where
  "column delim tail p =
     (case p of
        None \<Rightarrow> None
      | Some s \<Rightarrow>
          (case split (Some s) (Some [delim]) of
             None \<Rightarrow> Some (s @ tail, None)
           | Some (a, rest) \<Rightarrow> Some (a, Some rest)))"

fun columns :: "char \<Rightarrow> string \<Rightarrow> nat \<Rightarrow> string option \<Rightarrow> (string list \<times> string option) option" where
  "columns delim tail 0 p = Some ([], p)"
| "columns delim tail (Suc n) p =
     (case column delim tail p of
        None \<Rightarrow> None
      | Some (a, q) \<Rightarrow> map_option (\<lambda>(as, r). (cstr a # as, r)) (columns delim tail n q))"

text \<open>\<open>read_prefixed\<close>: a length of four hex characters, so many bytes, a delimiter.\<close>

datatype 'a parsed = Bad | Good 'a

definition read_prefixed ::
    "char \<Rightarrow> string \<Rightarrow> nat \<Rightarrow> string option \<Rightarrow> (string \<times> string option) parsed option" where
  "read_prefixed delim tail buf_size p =
     (case p of
        None \<Rightarrow> None
      | Some s \<Rightarrow>
          (case sscanf_04zx (cstr (s @ tail)) of
             None \<Rightarrow> Some Bad
           | Some (len, chars) \<Rightarrow>
               if chars \<noteq> 4 then Some Bad
               else if length s < 4 then None
               else if length s - 4 < len then Some Bad
               else
                 (let q = drop 4 s; rest = drop len q in
                  case SNFORMAT_S buf_size [(q @ tail, len)] of
                    None \<Rightarrow> None
                  | Some buf \<Rightarrow>
                      (case rest @ tail of
                         [] \<Rightarrow> None
                       | c # _ \<Rightarrow>
                           if c \<noteq> delim then Some Bad
                           else Some (Good (buf, if rest = [] then None else Some (tl rest)))))))"

text \<open>The old format's text column is copied up to its delimiter.\<close>

definition read_old ::
    "char \<Rightarrow> nat \<Rightarrow> string option \<Rightarrow> (string \<times> string option) parsed option" where
  "read_old delim buf_size p =
     (case split p (Some [delim]) of
        None \<Rightarrow> None
      | Some (a, rest) \<Rightarrow>
          map_option (\<lambda>buf. Good (buf, Some rest)) (SNFORMAT_S buf_size [(a, length a)]))"

text \<open>
  The xattr column.  \<open>xattrs_from_line\<close> returns where the delimiter should be, and the code steps
  over it without a look.  NULs that a malformed column leaves behind that point are not kept.
\<close>

definition read_xattrs ::
    "char \<Rightarrow> string \<Rightarrow> bool \<Rightarrow> string option \<Rightarrow> (xattrs \<times> string option) parsed option" where
  "read_xattrs delim tail old_format p =
     (if old_format then
        case split p (Some [delim]) of
          None \<Rightarrow> None
        | Some (a, rest) \<Rightarrow>
            (case xattrs_from_line a (NUL # rest @ tail) XATTRDELIM True of
               None \<Rightarrow> Some Bad
             | Some (n, xs) \<Rightarrow>
                 let s = a @ NUL # rest
                 in Some (Good (xs, if length s < n + 1 then None else Some (drop (n + 1) s))))
      else
        case p of
          None \<Rightarrow> None
        | Some s \<Rightarrow>
            (case xattrs_from_line s tail XATTRDELIM False of
               None \<Rightarrow> Some Bad
             | Some (n, xs) \<Rightarrow>
                 Some (Good (xs, if length s < n + 1 then None else Some (drop (n + 1) s)))))"

text \<open>The first column: the name.\<close>

definition read_name :: "char \<Rightarrow> string \<Rightarrow> bool \<Rightarrow> string \<Rightarrow> (work \<times> string option) parsed option" where
  "read_name delim tail old_format line =
     (if old_format then
        case split (Some line) (Some [delim]) of
          None \<Rightarrow> None
        | Some (a, rest) \<Rightarrow>
            map_option (\<lambda>w. Good (w, Some rest)) (new_work_with_name [] 0 a (length a))
      else
        case sscanf_04zx (cstr (line @ tail)) of
          None \<Rightarrow> Some Bad
        | Some (name_len, chars) \<Rightarrow>
            if chars \<noteq> 4 then Some Bad
            else if length line < name_len then Some Bad
            else
              (let q = drop 4 (line @ tail) in
               case new_work_with_name [] 0 q name_len of
                 None \<Rightarrow> None
               | Some w \<Rightarrow>
                   (case drop name_len q of
                      [] \<Rightarrow> None
                    | c # _ \<Rightarrow>
                        if c \<noteq> delim then Some Bad
                        else Some (Good (w, if length line < 4 + name_len + 1 then None
                                            else Some (drop (4 + name_len + 1) line))))))"

definition set_stat :: "string list \<Rightarrow> stat \<Rightarrow> stat" where
  "set_stat c st = st\<lparr>
     st_ino := scan_u (c ! 0) (st_ino st), st_mode := scan_u (c ! 1) (st_mode st),
     st_nlink := scan_u (c ! 2) (st_nlink st), st_uid := scan_u (c ! 3) (st_uid st),
     st_gid := scan_u (c ! 4) (st_gid st), st_size := scan_d (c ! 5) (st_size st),
     st_blksize := scan_d (c ! 6) (st_blksize st), st_blocks := scan_d (c ! 7) (st_blocks st),
     st_atime := scan_d (c ! 8) (st_atime st), st_mtime := scan_d (c ! 9) (st_mtime st),
     st_ctime := scan_d (c ! 10) (st_ctime st)\<rparr>"

text \<open>The columns behind the type, for all types but \<open>e\<close>.\<close>

definition linetowork_fields ::
    "work \<Rightarrow> entry_data \<Rightarrow> char \<Rightarrow> string \<Rightarrow> bool \<Rightarrow> string option
     \<Rightarrow> (work \<times> entry_data) parsed option" where
  "linetowork_fields w ed delim tail old_format p0 =
     (case columns delim tail 11 p0 of
        None \<Rightarrow> None
      | Some (st, p1) \<Rightarrow>
     (case (if old_format then read_old delim MAXPATH p1 else read_prefixed delim tail MAXPATH p1) of
        None \<Rightarrow> None
      | Some Bad \<Rightarrow> Some Bad
      | Some (Good (linkname, p2)) \<Rightarrow>
     (case read_xattrs delim tail old_format p2 of
        None \<Rightarrow> None
      | Some Bad \<Rightarrow> Some Bad
      | Some (Good (xs, p3)) \<Rightarrow>
     (case columns delim tail 5 p3 of
        None \<Rightarrow> None
      | Some (c, p4) \<Rightarrow>
     (case (if old_format then read_old delim MAXXATTR p4 else read_prefixed delim tail MAXXATTR p4) of
        None \<Rightarrow> None
      | Some Bad \<Rightarrow> Some Bad
      | Some (Good (osstext1, p5)) \<Rightarrow>
     (case (if old_format then read_old delim MAXXATTR p5 else read_prefixed delim tail MAXXATTR p5) of
        None \<Rightarrow> None
      | Some Bad \<Rightarrow> Some Bad
      | Some (Good (osstext2, p6)) \<Rightarrow>
     (case columns delim tail 1 p6 of
        None \<Rightarrow> None
      | Some (d, _) \<Rightarrow>
          Some (Good
            (w\<lparr>w_statuso := set_stat st (w_statuso w),
               w_crtime := scan_d (c ! 0) (w_crtime w),
               w_pinode := atol_w (d ! 0),
               w_basename_len := w_name_len w - trailing_match_index (Some (w_name w)) (w_name_len w) [SLASH]\<rparr>,
             ed\<lparr>ed_linkname := linkname, ed_xattrs := xs,
                ed_ossint1 := atol_w (c ! 1), ed_ossint2 := atol_w (c ! 2),
                ed_ossint3 := atol_w (c ! 3), ed_ossint4 := atol_w (c ! 4),
                ed_osstext1 := osstext1, ed_osstext2 := osstext2\<rparr>)))))))))"

text \<open>
  \<open>linetowork\<close>: \<open>None\<close> is a null pointer or a place outside the line that the code reads
  through, \<open>Bad\<close> the result -1 with \<open>*work\<close> null; what it leaves in \<open>*ed\<close> then is not modelled.
\<close>

definition linetowork ::
    "string \<Rightarrow> string \<Rightarrow> char \<Rightarrow> entry_data \<Rightarrow> bool \<Rightarrow> (work \<times> entry_data) parsed option" where
  "linetowork line tail delim ed old_format =
     (case read_name delim tail old_format line of
        None \<Rightarrow> None
      | Some Bad \<Rightarrow> Some Bad
      | Some (Good (w, p)) \<Rightarrow>
     (case column delim tail p of
        None \<Rightarrow> None
      | Some ([], q) \<Rightarrow>
          \<comment> \<open>an empty column: \<open>*p\<close> is the NUL of \<open>split\<close>, or there is nothing to read\<close>
          if q = None then None else linetowork_fields w (ed\<lparr>ed_type := NUL\<rparr>) delim tail old_format q
      | Some (t # _, q) \<Rightarrow>
          if t = CHR ''e'' then Some (Good (w, ed\<lparr>ed_type := t\<rparr>))
          else linetowork_fields w (ed\<lparr>ed_type := t\<rparr>) delim tail old_format q))"

section \<open>The line an entry is written as\<close>

definition col :: "char \<Rightarrow> string \<Rightarrow> string" where "col delim s = s @ [delim]"

definition stat_columns :: "stat \<Rightarrow> string list" where
  "stat_columns st = [fmt_u (st_ino st), fmt_u (st_mode st), fmt_u (st_nlink st), fmt_u (st_uid st),
     fmt_u (st_gid st), fmt_d (st_size st), fmt_d (st_blksize st), fmt_d (st_blocks st),
     fmt_d (st_atime st), fmt_d (st_mtime st), fmt_d (st_ctime st)]"

definition os_columns :: "work \<Rightarrow> entry_data \<Rightarrow> string list" where
  "os_columns w ed = [fmt_d (w_crtime w), fmt_d (ed_ossint1 ed), fmt_d (ed_ossint2 ed),
     fmt_d (ed_ossint3 ed), fmt_d (ed_ossint4 ed)]"

definition prefixed :: "string \<Rightarrow> string" where "prefixed s = fmt_04zx (length s) @ s"

definition line_of :: "char \<Rightarrow> string \<Rightarrow> work \<Rightarrow> entry_data \<Rightarrow> string" where
  "line_of delim name w ed =
     col delim (prefixed name) @ col delim [ed_type ed]
     @ concat (map (col delim) (stat_columns (w_statuso w)))
     @ col delim (prefixed (ed_linkname ed))
     @ col delim (xattrs_to_file (ed_xattrs ed) XATTRDELIM)
     @ concat (map (col delim) (os_columns w ed))
     @ col delim (prefixed (ed_osstext1 ed)) @ col delim (prefixed (ed_osstext2 ed))
     @ col delim (fmt_d (w_pinode w))"

text \<open>What can be written and read back.\<close>

definition delim_ok :: "char \<Rightarrow> bool" where
  "delim_ok delim \<longleftrightarrow> \<not> is_digit 10 delim \<and> delim \<noteq> CHR ''-''"

definition entry_ok :: "char \<Rightarrow> nat \<Rightarrow> work \<Rightarrow> entry_data \<Rightarrow> bool" where
  "entry_ok delim prefix_len w ed \<longleftrightarrow>
     w_name_len w = length (w_name w) \<and> prefix_len \<le> w_name_len w
     \<and> w_name_len w - prefix_len < 65536 \<and> NUL \<notin> set (w_name w)
     \<and> ed_type ed \<noteq> CHR ''e'' \<and> ed_type ed \<noteq> delim
     \<and> NUL \<notin> set (ed_linkname ed) \<and> length (ed_linkname ed) < MAXPATH
     \<and> xattrs_ok (ed_xattrs ed) \<and> printable XATTRDELIM (ed_xattrs ed)
     \<and> file_len (ed_xattrs ed) < 65536
     \<and> NUL \<notin> set (ed_osstext1 ed) \<and> length (ed_osstext1 ed) < MAXXATTR
     \<and> NUL \<notin> set (ed_osstext2 ed) \<and> length (ed_osstext2 ed) < MAXXATTR"

lemma worktofile_line:
  assumes "entry_ok delim prefix_len w ed"
  shows "worktofile delim prefix_len (Some w) (Some ed) =
    Some (int (length (line_of delim (drop prefix_len (w_name w)) w ed)) + 1,
          line_of delim (drop prefix_len (w_name w)) w ed @ [LF])"
  using assms
  by (simp add: worktofile_def entry_ok_def line_of_def col_def prefixed_def stat_columns_def
      os_columns_def Let_def cstr_id)

lemma cstr_drop: "NUL \<notin> set s \<Longrightarrow> cstr (drop n s) = drop n s"
  by (rule cstr_id) (meson in_set_dropD)

lemma worktobuffer_line:
  assumes "entry_ok delim prefix_len w ed" and "wbuf_ok b"
  shows "\<exists>b'. worktobuffer b delim prefix_len (Some w) (Some ed) =
      Some (int (length (line_of delim (drop prefix_len (w_name w)) w ed)) + 1, b')
    \<and> wbuf_ok b' \<and> wb_data b' = wb_data b @ line_of delim (drop prefix_len (w_name w)) w ed @ [LF]"
proof -
  let ?name = "drop prefix_len (w_name w)"
  define pre where "pre = [fmt_04zx (w_name_len w - prefix_len), cstr ?name @ [delim], [ed_type ed, delim],
    fmt_u (st_ino (w_statuso w)) @ [delim], fmt_u (st_mode (w_statuso w)) @ [delim],
    fmt_u (st_nlink (w_statuso w)) @ [delim], fmt_u (st_uid (w_statuso w)) @ [delim],
    fmt_u (st_gid (w_statuso w)) @ [delim], fmt_d (st_size (w_statuso w)) @ [delim],
    fmt_d (st_blksize (w_statuso w)) @ [delim], fmt_d (st_blocks (w_statuso w)) @ [delim],
    fmt_d (st_atime (w_statuso w)) @ [delim], fmt_d (st_mtime (w_statuso w)) @ [delim],
    fmt_d (st_ctime (w_statuso w)) @ [delim],
    fmt_04zx (length (cstr (ed_linkname ed))), cstr (ed_linkname ed) @ [delim]]"
  define post where "post = [[delim], fmt_d (w_crtime w) @ [delim], fmt_d (ed_ossint1 ed) @ [delim],
    fmt_d (ed_ossint2 ed) @ [delim], fmt_d (ed_ossint3 ed) @ [delim], fmt_d (ed_ossint4 ed) @ [delim],
    fmt_04zx (length (cstr (ed_osstext1 ed))), cstr (ed_osstext1 ed) @ [delim],
    fmt_04zx (length (cstr (ed_osstext2 ed))), cstr (ed_osstext2 ed) @ [delim],
    fmt_d (w_pinode w) @ [delim], [LF]]"
  define b1 where "b1 = foldl write_with_resize b pre"
  define b2 where "b2 = xattrs_to_buffer b1 (ed_xattrs ed) XATTRDELIM"
  define b3 where "b3 = foldl write_with_resize b2 post"
  note e = assms(1) [unfolded entry_ok_def]
  have b1: "wbuf_ok b1" "wb_data b1 = wb_data b @ concat pre"
    unfolding b1_def using foldl_write_with_resize [OF assms(2)] by blast+
  have b2: "wbuf_ok b2" "wb_data b2 = wb_data b1 @ xattrs_to_file (ed_xattrs ed) XATTRDELIM"
    unfolding b2_def using xattrs_to_buffer_bytes [OF _ _ b1(1)] e by auto
  have b3: "wbuf_ok b3" "wb_data b3 = wb_data b2 @ concat post"
    unfolding b3_def using foldl_write_with_resize [OF b2(1)] by blast+
  have "concat pre @ xattrs_to_file (ed_xattrs ed) XATTRDELIM @ concat post =
      line_of delim ?name w ed @ [LF]"
    using e unfolding pre_def post_def
    by (simp add: line_of_def col_def prefixed_def stat_columns_def os_columns_def cstr_id cstr_drop)
  then have data: "wb_data b3 = wb_data b @ line_of delim ?name w ed @ [LF]"
    by (simp add: b3 b2 b1)
  have off: "int (wb_offset b3) - int (wb_offset b) = int (length (line_of delim ?name w ed)) + 1"
    using b3(1) assms(2) data unfolding wbuf_ok_def by simp
  have "worktobuffer b delim prefix_len (Some w) (Some ed) =
      Some (int (wb_offset b3) - int (wb_offset b), b3)"
    using e unfolding worktobuffer_def b3_def b2_def b1_def pre_def post_def by (simp add: Let_def)
  then show ?thesis using b3(1) data off by metis
qed

section \<open>Reading it back\<close>

lemma scan_u_fmt: "LENGTH('a::len) \<le> 64 \<Longrightarrow> scan_u (fmt_u (v :: 'a word)) old = v"
proof -
  assume "LENGTH('a) \<le> 64"
  then have "(2::int) ^ LENGTH('a) \<le> 2 ^ 64" by (rule power_increasing) simp
  then have "uint v < 2 ^ 64" using uint_lt2p [of v] by linarith
  then have "\<bar>uint v\<bar> < 2 ^ 64" by simp
  then have "clamp_u (uint v) = uint v" unfolding clamp_u_def by (simp only: not_le [symmetric] if_False)
  then show ?thesis by (simp add: scan_u_def fmt_u_def sscanf_fmt_dec)
qed

lemma clamp_s_sint: "LENGTH('a::len) \<le> 64 \<Longrightarrow> clamp_s (sint (v :: 'a word)) = sint v"
proof -
  assume "LENGTH('a) \<le> 64"
  then have "(2::int) ^ (LENGTH('a) - 1) \<le> 2 ^ 63" by (intro power_increasing) auto
  then have "- (2 ^ 63) \<le> sint v" "sint v \<le> 2 ^ 63 - 1"
    using sint_ge [of v] sint_lt [of v] by linarith+
  then show ?thesis unfolding clamp_s_def by linarith
qed

lemma scan_d_fmt: "LENGTH('a::len) \<le> 64 \<Longrightarrow> scan_d (fmt_d (v :: 'a word)) old = v"
  by (simp add: scan_d_def fmt_d_def sscanf_fmt_dec clamp_s_sint)

lemma atol_w_fmt: "LENGTH('a::len) \<le> 64 \<Longrightarrow> atol_w (fmt_d (v :: 'a word)) = v"
  by (simp add: atol_w_def fmt_d_def clamp_s_sint)

lemma fmt_plain:
  assumes "delim_ok delim"
  shows "delim \<notin> set (fmt_dec v) \<and> NUL \<notin> set (fmt_dec v)"
  using assms fmt_dec_chars [of _ v] digit_not_sign [of 10 NUL] by (auto simp: delim_ok_def)

lemma column_col: "delim \<notin> set x \<Longrightarrow> column delim tail (Some (col delim x @ r)) = Some (x, Some r)"
proof -
  assume "delim \<notin> set x"
  then have "split_at (x @ delim # r) [delim] = Some (x, r)" by (intro split_at_append) auto
  then show ?thesis by (simp add: column_def split_def col_def)
qed

lemma columns_read:
  "\<forall>x \<in> set xs. delim \<notin> set x \<and> NUL \<notin> set x \<Longrightarrow>
   columns delim tail (length xs) (Some (concat (map (col delim) xs) @ r)) = Some (xs, Some r)"
proof (induction xs)
  case (Cons x xs)
  have "column delim tail (Some (col delim x @ concat (map (col delim) xs) @ r)) =
      Some (x, Some (concat (map (col delim) xs) @ r))"
    using Cons.prems by (intro column_col) auto
  then show ?case using Cons by (simp add: cstr_id)
qed simp

lemma columns_read_n:
  "length xs = n \<Longrightarrow> \<forall>x \<in> set xs. delim \<notin> set x \<and> NUL \<notin> set x \<Longrightarrow>
   columns delim tail n (Some (concat (map (col delim) xs) @ r)) = Some (xs, Some r)"
  using columns_read by blast

lemma cstr_prefixed: "n < 65536 \<Longrightarrow> sscanf_04zx (cstr (fmt_04zx n @ r)) = Some (n, 4)"
  by (simp add: cstr_append NUL_fmt_04zx sscanf_fmt_04zx)

lemma read_prefixed_read:
  assumes "length s < buf_size" and "length s < 65536"
  shows "read_prefixed delim tail buf_size (Some (col delim (prefixed s) @ r)) = Some (Good (s, Some r))"
proof -
  have l: "length (fmt_04zx (length s)) = 4" using assms(2) by (rule length_fmt_04zx)
  have sn: "SNFORMAT_S buf_size [(s @ delim # r @ tail, length s)] = Some s"
    using assms by (simp add: SNFORMAT_S_def Let_def)
  show ?thesis
    using l sn cstr_prefixed [OF assms(2)]
    by (simp add: read_prefixed_def col_def prefixed_def Let_def)
qed

lemma read_name_read:
  assumes "length s < 65536"
  shows "read_name delim tail False (col delim (prefixed s) @ r) =
    Some (Good (\<lparr>w_name = s, w_name_len = length s, w_basename_len = length s, w_statuso = stat0,
                 w_crtime = 0, w_pinode = 0\<rparr>, Some r))"
proof -
  have l: "length (fmt_04zx (length s)) = 4" using assms by (rule length_fmt_04zx)
  have sn: "SNFORMAT_S (0 + 1 + length s + 1) [(s @ delim # r @ tail, length s)] = Some s"
    using assms by (simp add: SNFORMAT_S_def Let_def)
  show ?thesis
    using l sn cstr_prefixed [OF assms]
    by (simp add: read_name_def new_work_with_name_def col_def prefixed_def Let_def)
qed

lemma read_xattrs_read:
  assumes "xattrs_ok xs" and "printable XATTRDELIM xs" and "file_len xs < 65536"
  shows "read_xattrs delim tail False (Some (col delim (xattrs_to_file xs XATTRDELIM) @ r)) =
    Some (Good (xs, Some r))"
  using xattrs_from_line_reads(1) [OF assms, of "delim # r" tail]
  by (simp add: read_xattrs_def col_def)

lemma set_stat_read: "set_stat (stat_columns st) old = st"
  by (simp add: set_stat_def stat_columns_def scan_u_fmt scan_d_fmt)

text \<open>Whatever is between the line and \<open>end\<close>.\<close>

lemma linetowork_reads_more:
  assumes "entry_ok delim prefix_len w ed" and "delim_ok delim"
  defines "name \<equiv> drop prefix_len (w_name w)"
  shows "linetowork (line_of delim name w ed @ rest) tail delim ed0 False =
    Some (Good (w\<lparr>w_name := name, w_name_len := length name,
        w_basename_len := length name - trailing_match_index (Some name) (length name) [SLASH]\<rparr>, ed))"
proof -
  note e = assms(1) [unfolded entry_ok_def]
  have n: "length name < 65536" using e unfolding name_def by auto
  define r5 where "r5 = col delim (fmt_d (w_pinode w)) @ rest"
  define r4 where "r4 = col delim (prefixed (ed_osstext2 ed)) @ r5"
  define r3 where "r3 = col delim (prefixed (ed_osstext1 ed)) @ r4"
  define r2 where "r2 = concat (map (col delim) (os_columns w ed)) @ r3"
  define r1 where "r1 = col delim (xattrs_to_file (ed_xattrs ed) XATTRDELIM) @ r2"
  define r0 where "r0 = col delim (prefixed (ed_linkname ed)) @ r1"
  define rs where "rs = concat (map (col delim) (stat_columns (w_statuso w))) @ r0"
  have line: "line_of delim name w ed @ rest = col delim (prefixed name) @ col delim [ed_type ed] @ rs"
    by (simp add: line_of_def rs_def r0_def r1_def r2_def r3_def r4_def r5_def)
  have ty: "column delim tail (Some (col delim [ed_type ed] @ rs)) = Some ([ed_type ed], Some rs)"
    using e by (simp add: column_def split_def col_def)
  have c1: "columns delim tail 11 (Some rs) = Some (stat_columns (w_statuso w), Some r0)"
    unfolding rs_def by (rule columns_read_n)
      (use fmt_plain [OF assms(2)] in \<open>simp_all add: stat_columns_def fmt_u_def fmt_d_def\<close>)
  have c2: "columns delim tail 5 (Some r2) = Some (os_columns w ed, Some r3)"
    unfolding r2_def by (rule columns_read_n)
      (use fmt_plain [OF assms(2)] in \<open>simp_all add: os_columns_def fmt_d_def\<close>)
  have c3: "columns delim tail 1 (Some r5) = Some ([fmt_d (w_pinode w)], Some rest)"
    using columns_read_n [of "[fmt_d (w_pinode w)]" 1 delim tail rest] fmt_plain [OF assms(2)]
    unfolding r5_def by (simp add: fmt_d_def del: columns.simps)
  have p1: "read_prefixed delim tail MAXPATH (Some r0) = Some (Good (ed_linkname ed, Some r1))"
    unfolding r0_def using e by (intro read_prefixed_read) (auto simp: MAXPATH_def)
  have p2: "read_prefixed delim tail MAXXATTR (Some r3) = Some (Good (ed_osstext1 ed, Some r4))"
    unfolding r3_def using e by (intro read_prefixed_read) (auto simp: MAXXATTR_def)
  have p3: "read_prefixed delim tail MAXXATTR (Some r4) = Some (Good (ed_osstext2 ed, Some r5))"
    unfolding r4_def using e by (intro read_prefixed_read) (auto simp: MAXXATTR_def)
  have x: "read_xattrs delim tail False (Some r1) = Some (Good (ed_xattrs ed, Some r2))"
    unfolding r1_def using e by (intro read_xattrs_read) auto
  have nm: "read_name delim tail False (line_of delim name w ed @ rest) =
      Some (Good (\<lparr>w_name = name, w_name_len = length name, w_basename_len = length name,
        w_statuso = stat0, w_crtime = 0, w_pinode = 0\<rparr>, Some (col delim [ed_type ed] @ rs)))"
    unfolding line by (rule read_name_read [OF n])
  have t: "ed_type ed \<noteq> CHR ''e''" using e by blast
  show ?thesis
    unfolding linetowork_def nm
    by (simp add: ty t linetowork_fields_def c1 p1 x c2 p2 p3 c3 [unfolded One_nat_def] set_stat_read
        os_columns_def scan_d_fmt atol_w_fmt del: columns.simps)
qed

lemma linetowork_reads:
  assumes "entry_ok delim prefix_len w ed" and "delim_ok delim"
  defines "name \<equiv> drop prefix_len (w_name w)"
  shows "linetowork (line_of delim name w ed) tail delim ed0 False =
    Some (Good (w\<lparr>w_name := name, w_name_len := length name,
        w_basename_len := length name - trailing_match_index (Some name) (length name) [SLASH]\<rparr>, ed))"
  using linetowork_reads_more [OF assms(1,2), of "[]" tail ed0] by (simp add: name_def)

section \<open>Short lines\<close>

lemma columns_short:
  "length (filter (\<lambda>c. c = delim) s) < n \<Longrightarrow>
   columns delim tail n (Some s) = None \<or> (\<exists>as. columns delim tail n (Some s) = Some (as, None))"
proof (induction n arbitrary: s)
  case (Suc n)
  show ?case
  proof (cases "split_at s [delim]")
    case None
    then have "column delim tail (Some s) = Some (s @ tail, None)"
      by (simp add: column_def split_def)
    then show ?thesis by (cases n) (auto simp: column_def)
  next
    case (Some ab)
    obtain a b where ab: "ab = (a, b)" by fastforce
    then have s: "s = a @ delim # b" "delim \<notin> set a"
      using Some split_at_Some [of s "[delim]" a b] by auto
    have "length (filter (\<lambda>c. c = delim) b) < n"
      using Suc.prems unfolding s by simp
    then show ?thesis using Suc.IH [of b] Some ab by (auto simp: column_def split_def)
  qed
qed simp

lemma linetowork_fields_null: "linetowork_fields w ed delim tail old_format None = None"
proof -
  have "columns delim tail 11 None = None"
    using columns.simps(2) [of delim tail 10 None] by (simp add: column_def)
  then show ?thesis by (simp add: linetowork_fields_def)
qed

lemma linetowork_fields_short:
  assumes "length (filter (\<lambda>c. c = delim) s) < 11"
  shows "linetowork_fields w ed delim tail old_format (Some s) = None"
  using columns_short [OF assms, of tail]
  by (auto simp: linetowork_fields_def read_old_def read_prefixed_def split_def simp del: columns.simps)

section \<open>Properties\<close>

text \<open>
  C24: An entry written by \<open>worktobuffer\<close> behind whatever the buffer holds is read back by
  \<open>linetowork\<close> with every field unchanged: names (less the prefix), link targets, OS texts and
  xattrs that may contain the delimiter, all stat fields at their full width and sign.  The
  line behind which the NUL for the newline was put is all it reads.
\<close>
theorem trace_line_roundtrip:
  assumes "entry_ok delim prefix_len w ed" and "delim_ok delim" and "wbuf_ok b"
  shows "\<exists>n b' line. worktobuffer b delim prefix_len (Some w) (Some ed) = Some (n, b')
    \<and> wb_data b' = wb_data b @ line @ [LF] \<and> n = int (length line) + 1
    \<and> (let name = drop prefix_len (w_name w) in
       linetowork line tail delim ed0 False =
         Some (Good (w\<lparr>w_name := name, w_name_len := length name,
            w_basename_len := length name - trailing_match_index (Some name) (length name) [SLASH]\<rparr>, ed)))"
proof -
  obtain b' where "worktobuffer b delim prefix_len (Some w) (Some ed) =
      Some (int (length (line_of delim (drop prefix_len (w_name w)) w ed)) + 1, b')"
    and "wb_data b' = wb_data b @ line_of delim (drop prefix_len (w_name w)) w ed @ [LF]"
    using worktobuffer_line [OF assms(1,3)] by blast
  then show ?thesis
    using linetowork_reads [OF assms(1,2), of tail ed0] unfolding Let_def by blast
qed

definition sample_work :: work where
  "sample_work = \<lparr>w_name = ''p/a'', w_name_len = 3, w_basename_len = 1,
     w_statuso = stat0\<lparr>st_ino := 7, st_mode := 0x81A4, st_size := -1\<rparr>, w_crtime = 5, w_pinode = 6\<rparr>"

definition sample_entry :: entry_data where
  "sample_entry = \<lparr>ed_type = CHR ''l'', ed_linkname = ''x|y'', ed_xattrs = xattrs_setup,
     ed_ossint1 = 1, ed_ossint2 = -2, ed_ossint3 = 0, ed_ossint4 = 0, ed_osstext1 = ''t'',
     ed_osstext2 = []\<rparr>"

lemma sample_ok: "entry_ok (CHR ''|'') 2 sample_work sample_entry" "delim_ok (CHR ''|'')"
    "wbuf_ok \<lparr>wb_alloc = False, wb_data = [], wb_size = 0, wb_offset = 0\<rparr>"
  by (simp_all add: entry_ok_def sample_work_def sample_entry_def xattrs_setup_def xattrs_ok_def
      printable_def file_len_def XATTR_PREFIX_LEN_def MAXPATH_def MAXXATTR_def delim_ok_def
      is_digit_def digit_val_def wbuf_ok_def)

lemma trace_line_roundtrip_witness:
  "\<exists>n b' line. worktobuffer \<lparr>wb_alloc = False, wb_data = [], wb_size = 0, wb_offset = 0\<rparr> (CHR ''|'') 2
      (Some sample_work) (Some sample_entry) = Some (n, b')
    \<and> wb_data b' = line @ [LF]
    \<and> (\<exists>w'. linetowork line [NUL] (CHR ''|'') sample_entry False = Some (Good (w', sample_entry))
         \<and> w_name w' = ''a'')"
  using trace_line_roundtrip [OF sample_ok, of "[NUL]" sample_entry]
  by (auto simp: Let_def sample_work_def)

text \<open>
  \<open>worktofile\<close> and \<open>worktobuffer\<close> write the same bytes and return the same number, for every
  entry whose strings fit their columns.
\<close>
theorem worktofile_eq_worktobuffer:
  assumes "entry_ok delim prefix_len w ed" and "wbuf_ok b"
  shows "\<exists>n out b'. worktofile delim prefix_len (Some w) (Some ed) = Some (n, out)
    \<and> worktobuffer b delim prefix_len (Some w) (Some ed) = Some (n, b') \<and> wb_data b' = wb_data b @ out"
  using worktofile_line [OF assms(1)] worktobuffer_line [OF assms] by blast

lemma worktofile_eq_worktobuffer_witness:
  "\<exists>n out b'. worktofile (CHR ''|'') 2 (Some sample_work) (Some sample_entry) = Some (n, out)
    \<and> worktobuffer \<lparr>wb_alloc = False, wb_data = [], wb_size = 0, wb_offset = 0\<rparr> (CHR ''|'') 2
        (Some sample_work) (Some sample_entry) = Some (n, b') \<and> wb_data b' = out"
  using worktofile_eq_worktobuffer [OF sample_ok(1) sample_ok(3)] by simp

text \<open>
  A line whose name column is good, whose type is not \<open>e\<close>, and that has fewer than twelve
  delimiters behind the name makes \<open>linetowork\<close> read through a null pointer: it never looks at
  what \<open>split\<close> returns.
\<close>
theorem linetowork_short_line:
  assumes "read_name delim tail old_format line = Some (Good (w, Some rest))"
    and "length (filter (\<lambda>c. c = delim) rest) < 12" and "take 1 (rest @ tail) \<noteq> ''e''"
  shows "linetowork line tail delim ed old_format = None"
proof (cases "split_at rest [delim]")
  case None
  then have "column delim tail (Some rest) = Some (rest @ tail, None)"
    by (simp add: column_def split_def)
  then show ?thesis
    using assms(1,3) by (cases "rest @ tail") (auto simp: linetowork_def linetowork_fields_null)
next
  case (Some ab)
  obtain a b where ab: "ab = (a, b)" by fastforce
  then have s: "rest = a @ delim # b" "delim \<notin> set a"
    using Some split_at_Some [of rest "[delim]" a b] by auto
  then have "length (filter (\<lambda>c. c = delim) b) < 11" using assms(2) by simp
  moreover have "column delim tail (Some rest) = Some (a, Some b)"
    using Some ab by (simp add: column_def split_def)
  ultimately show ?thesis
    using assms(1,3) s
    by (cases a) (auto simp: linetowork_def linetowork_fields_short)
qed

lemma linetowork_short_line_witness:
  "linetowork ''0001a|f|12|33'' [NUL] (CHR ''|'') sample_entry False = None"
proof -
  have f: "fmt_04zx 1 = ''0001''" by code_simp
  have "read_name (CHR ''|'') [NUL] False (col (CHR ''|'') (prefixed ''a'') @ ''f|12|33'') =
      Some (Good (\<lparr>w_name = ''a'', w_name_len = length ''a'', w_basename_len = length ''a'',
        w_statuso = stat0, w_crtime = 0, w_pinode = 0\<rparr>, Some ''f|12|33''))"
    by (rule read_name_read) simp
  from linetowork_short_line [OF this] show ?thesis
    using f by (simp add: col_def prefixed_def)
qed

end
