(* ===== verification/TraceScan.thy ===== *)
theory TraceScan
  imports Trace
begin

text \<open>
  Scouting trace files, the second half of \<open>src/src/trace.c\<close>: cutting a file into chunks at
  directory lines, and grouping the lines of a chunk, or of a stream, into one work item per
  directory.  Files are read with the line reader of \<open>FdIO\<close>; what each read transfers, and
  whether it fails, is the parameter \<open>ior\<close>, by the offset that is read.
\<close>

section \<open>Reading lines\<close>

definition GETLINE_DEFAULT_SIZE :: nat where "GETLINE_DEFAULT_SIZE = 750"

definition rd :: "string \<Rightarrow> (nat \<Rightarrow> nat \<Rightarrow> io) \<Rightarrow> nat \<Rightarrow> getline_result" where
  "rd fl ior off = getline_fd_seekable fl (Some off) (ior off) 0 GETLINE_DEFAULT_SIZE"

lemma getline_loop_found:
  "getline_loop fl pos sk ior i n buf = (rc, found, b, n') \<Longrightarrow> 0 < rc \<Longrightarrow> found"
proof (induction fl pos sk ior i n buf rule: getline_loop.induct)
  case (1 fl pos sk ior i n buf)
  show ?case
  proof (cases "ior i")
    case (IoErr e)
    then show ?thesis
      using "1.prems" by (simp add: getline_loop.simps [of fl pos sk ior i n buf] Let_def)
  next
    case (IoMax k)
    define n1 where "n1 = (if n \<le> length buf then n * 2 else n)"
    define req where "req = (if sk then n1 - length buf else 1)"
    define got where "got = take (max 1 (min k req)) (drop (pos + length buf) fl)"
    have eq: "getline_loop fl pos sk ior i n buf =
        (if got = [] then (0, False, buf, n1)
         else case split_at got [LF] of
                Some (a, _) \<Rightarrow> (int (length got), True, buf @ a, n1)
              | None \<Rightarrow> getline_loop fl pos sk ior (Suc i) n1 (buf @ got))"
      unfolding getline_loop.simps [of fl pos sk ior i n buf] IoMax io.case got_def req_def n1_def Let_def
      by (rule refl)
    show ?thesis
    proof (cases "got = [] \<or> split_at got [LF] \<noteq> None")
      case True
      then show ?thesis using "1.prems" unfolding eq by (auto split: if_splits)
    next
      case False
      then have g: "got \<noteq> []" "split_at got [LF] = None" by blast+
      show ?thesis
        using "1.IH" [OF n1_def req_def IoMax got_def g] "1.prems" g unfolding eq by simp
    qed
  qed
qed

lemma getline_forward: "getline_fd fl pos sk ior n d = GetlineOk line off \<Longrightarrow> pos < off"
  using getline_loop_found [of fl pos sk ior 0 "if n = 0 then d else n" "[]"]
  by (fastforce simp: getline_fd_def Let_def split: prod.splits if_splits)

lemma rd_forward: "rd fl ior off = GetlineOk line off' \<Longrightarrow> off < off'"
  by (simp add: rd_def getline_fd_seekable_def getline_forward)

section \<open>The first delimiter\<close>

text \<open>
  The line is followed by the NUL that the line reader wrote.  \<open>None\<close> is a null
  \<open>*first_delim\<close>, otherwise its distance from the start, and \<open>*delim_mismatch\<close>; the old
  format tests the address of its result, which is never null.
\<close>

definition find_first_delim :: "string \<Rightarrow> char \<Rightarrow> bool \<Rightarrow> (nat \<times> bool) option" where
  "find_first_delim line delim old_format =
     (if old_format then
        (let k = length (takeWhile (\<lambda>c. c \<noteq> delim) line)
         in if k < length line then Some (k, False) else None)
      else
        case sscanf_04zx (cstr line) of
          None \<Rightarrow> None
        | Some (first_len, chars) \<Rightarrow>
            if chars \<noteq> 4 then None
            else if length line - 4 < first_len then None
            else Some (4 + first_len, (line @ [NUL]) ! (4 + first_len) \<noteq> delim))"

text \<open>\<open>first_delim[1]\<close>.\<close>

definition type_char :: "string \<Rightarrow> nat \<Rightarrow> char" where
  "type_char line k = (case drop (k + 1) (line @ [NUL]) of [] \<Rightarrow> NUL | c # _ \<Rightarrow> c)"

section \<open>Rows\<close>

record row =
  row_trace :: nat
  row_first_delim :: nat
  row_line :: string
  row_len :: nat
  row_offset :: nat
  row_entries :: nat
  row_entry_lines :: "string list"

definition row_init :: "nat \<Rightarrow> nat \<Rightarrow> string \<Rightarrow> nat \<Rightarrow> nat \<Rightarrow> row" where
  "row_init trace first_delim line len offset =
     \<lparr>row_trace = trace, row_first_delim = first_delim, row_line = line, row_len = len,
      row_offset = offset, row_entries = 0, row_entry_lines = []\<rparr>"

section \<open>Scouting\<close>

record scout =
  sc_work :: row
  sc_queue :: "row list" \<comment> \<open>what was enqueued, in order\<close>
  sc_files :: nat
  sc_dirs :: nat
  sc_empty :: nat
  sc_external :: nat

text \<open>Handing the current directory on: the same statements in the loops and behind them.\<close>

definition push_work :: "scout \<Rightarrow> scout" where
  "push_work s =
     (let w = sc_work s in
      s\<lparr>sc_dirs := sc_dirs s + 1,
        sc_empty := sc_empty s + (if row_entries w = 0 then 1 else 0),
        sc_queue := sc_queue s @ [w\<lparr>row_entries := row_entries w + sc_external s\<rparr>]\<rparr>)"

text \<open>
  The loop body for one good line.  \<open>stream\<close> is the variant of \<open>scout_stream\<close>, which keeps the
  lines of the entries and has no offsets.
\<close>

definition scout_line :: "bool \<Rightarrow> nat \<Rightarrow> nat \<Rightarrow> string \<Rightarrow> nat \<Rightarrow> scout \<Rightarrow> scout" where
  "scout_line stream trace k line off s =
     (if type_char line k = CHR ''d'' then
        (push_work s)\<lparr>sc_external := 0,
                      sc_work := row_init trace k line (length line) (if stream then 0 else off)\<rparr>
      else
        let s1 = (if type_char line k = CHR ''e'' then s\<lparr>sc_external := sc_external s + 1\<rparr>
                  else s\<lparr>sc_work := (sc_work s)\<lparr>row_entries := row_entries (sc_work s) + 1\<rparr>,
                         sc_files := sc_files s + 1\<rparr>)
        in if stream
           then s1\<lparr>sc_work := (sc_work s1)\<lparr>row_entry_lines := row_entry_lines (sc_work s1) @ [line]\<rparr>\<rparr>
           else s1)"

text \<open>\<open>scout_trace\<close>: the result, what was enqueued, and the counters it adds to the statistics.\<close>

record scouted =
  sd_rc :: nat
  sd_queue :: "row list"
  sd_files :: nat
  sd_dirs :: nat
  sd_empty :: nat

definition scout_done :: "nat \<Rightarrow> scout \<Rightarrow> scouted" where
  "scout_done rc s = \<lparr>sd_rc = rc, sd_queue = sc_queue s, sd_files = sc_files s, sd_dirs = sc_dirs s,
     sd_empty = sc_empty s\<rparr>"

definition scout_none :: "nat \<Rightarrow> scouted" where
  "scout_none rc = \<lparr>sd_rc = rc, sd_queue = [], sd_files = 0, sd_dirs = 0, sd_empty = 0\<rparr>"

definition scout_start :: "row \<Rightarrow> scout" where
  "scout_start w = \<lparr>sc_work = w, sc_queue = [], sc_files = 0, sc_dirs = 0, sc_empty = 0, sc_external = 0\<rparr>"

function scout_trace_loop ::
    "string \<Rightarrow> (nat \<Rightarrow> nat \<Rightarrow> io) \<Rightarrow> char \<Rightarrow> bool \<Rightarrow> nat \<Rightarrow> nat \<Rightarrow> nat \<Rightarrow> scout \<Rightarrow> scouted" where
  "scout_trace_loop fl ior delim old_format trace tr_end off s =
     (if off < tr_end then
        (case rd fl ior off of
           GetlineErr _ \<Rightarrow> scout_done 0 (push_work s)
         | GetlineOk line off' \<Rightarrow>
             if line = [] then scout_trace_loop fl ior delim old_format trace tr_end off' s
             else
               (case find_first_delim line delim old_format of
                  None \<Rightarrow> scout_done 1 s
                | Some (k, mismatch) \<Rightarrow>
                    if mismatch then scout_done 1 s
                    else scout_trace_loop fl ior delim old_format trace tr_end off'
                           (scout_line False trace k line off' s)))
      else scout_done 0 (push_work s))"
  by pat_completeness auto
termination
  by (relation "measure (\<lambda>(fl, ior, delim, old_format, trace, tr_end, off, s). tr_end - off)")
    (auto dest: rd_forward)

declare scout_trace_loop.simps [simp del]

text \<open>
  With nothing to read (\<open>tr.start = tr.end\<close>) \<open>line\<close> stays null: \<open>sscanf\<close> reads through it, which
  is \<open>None\<close>, and the old format's \<open>memchr\<close> finds nothing in its 0 bytes.
\<close>

definition scout_trace ::
    "string \<Rightarrow> (nat \<Rightarrow> nat \<Rightarrow> io) \<Rightarrow> char \<Rightarrow> bool \<Rightarrow> nat \<Rightarrow> nat \<Rightarrow> nat \<Rightarrow> scouted option" where
  "scout_trace fl ior delim old_format trace tr_start tr_end =
     (if tr_end < tr_start then Some (scout_none 1)
      else if tr_start = tr_end then (if old_format then Some (scout_none 1) else None)
      else
        case rd fl ior tr_start of
          GetlineErr _ \<Rightarrow> Some (scout_none (if tr_start \<noteq> 0 then 1 else 0))
        | GetlineOk line off \<Rightarrow>
            if line = [] then Some (scout_none 1)
            else
              (case find_first_delim line delim old_format of
                 None \<Rightarrow> Some (scout_none 1)
               | Some (k, mismatch) \<Rightarrow>
                   if mismatch \<or> type_char line k \<noteq> CHR ''d'' then Some (scout_none 1)
                   else Some (scout_trace_loop fl ior delim old_format trace tr_end off
                                (scout_start (row_init trace k line (length line) off)))))"

text \<open>\<open>scout_stream\<close> reads until the reader fails, which the end of the stream is.\<close>

definition rd_stream :: "string \<Rightarrow> (nat \<Rightarrow> nat \<Rightarrow> io) \<Rightarrow> nat \<Rightarrow> getline_result" where
  "rd_stream fl ior pos = getline_fd_stream fl pos (ior pos) 0 GETLINE_DEFAULT_SIZE"

lemma rd_stream_forward: "rd_stream fl ior off = GetlineOk line off' \<Longrightarrow> off < off'"
  by (simp add: rd_stream_def getline_fd_stream_def getline_forward)

lemma rd_stream_bound:
  assumes "rd_stream fl ior off = GetlineOk line off'"
  shows "off < length fl"
proof (rule ccontr)
  assume "\<not> off < length fl"
  then show False
    using assms
    by (cases "ior off 0")
      (simp_all add: rd_stream_def getline_fd_stream_def getline_fd_def getline_loop.simps [of fl off]
        GETLINE_DEFAULT_SIZE_def Let_def split: if_splits)
qed

function scout_stream_loop ::
    "string \<Rightarrow> (nat \<Rightarrow> nat \<Rightarrow> io) \<Rightarrow> char \<Rightarrow> bool \<Rightarrow> nat \<Rightarrow> nat \<Rightarrow> scout \<Rightarrow> scouted" where
  "scout_stream_loop fl ior delim old_format trace pos s =
     (case rd_stream fl ior pos of
        GetlineErr _ \<Rightarrow> scout_done 0 (push_work s)
      | GetlineOk line pos' \<Rightarrow>
          if line = [] then scout_stream_loop fl ior delim old_format trace pos' s
          else
            (case find_first_delim line delim old_format of
               None \<Rightarrow> scout_done 1 s
             | Some (k, mismatch) \<Rightarrow>
                 if mismatch then scout_done 1 s
                 else scout_stream_loop fl ior delim old_format trace pos'
                        (scout_line True trace k line pos' s)))"
  by pat_completeness auto
termination
  by (relation "measure (\<lambda>(fl, ior, delim, old_format, trace, pos, s). length fl - pos)")
    (auto dest: rd_stream_bound rd_stream_forward intro!: diff_less_mono2)

declare scout_stream_loop.simps [simp del]

definition scout_stream :: "string \<Rightarrow> (nat \<Rightarrow> nat \<Rightarrow> io) \<Rightarrow> char \<Rightarrow> bool \<Rightarrow> nat \<Rightarrow> scouted" where
  "scout_stream fl ior delim old_format trace =
     (case rd_stream fl ior 0 of
        GetlineErr _ \<Rightarrow> scout_none 1
      | GetlineOk line pos \<Rightarrow>
          if line = [] then scout_none 1
          else
            (case find_first_delim line delim old_format of
               None \<Rightarrow> scout_none 1
             | Some (k, mismatch) \<Rightarrow>
                 if mismatch \<or> type_char line k \<noteq> CHR ''d'' then scout_none 1
                 else scout_stream_loop fl ior delim old_format trace pos
                        (scout_start (row_init trace k line (length line) 0))))"

section \<open>Cutting a file into chunks\<close>

text \<open>
  \<open>find_stanza_end\<close>: the result and the new \<open>*end\<close>.  An empty line ends the search with 0, as
  \<open>-!!len\<close> is 0 for it.
\<close>

function find_end_loop ::
    "string \<Rightarrow> (nat \<Rightarrow> nat \<Rightarrow> io) \<Rightarrow> char \<Rightarrow> bool \<Rightarrow> nat \<Rightarrow> int \<times> nat" where
  "find_end_loop fl ior delim old_format before_read =
     (case rd fl ior before_read of
        GetlineErr _ \<Rightarrow> (-1, before_read)
      | GetlineOk line off \<Rightarrow>
          if line = [] then (0, off)
          else
            (case find_first_delim line delim old_format of
               None \<Rightarrow> (-1, off)
             | Some (k, mismatch) \<Rightarrow>
                 if mismatch then (-1, off)
                 else if type_char line k = CHR ''d'' then (0, before_read)
                 else find_end_loop fl ior delim old_format off))"
  by pat_completeness auto

lemma rd_bound:
  assumes "rd fl ior off = GetlineOk line off'"
  shows "off < length fl"
proof (rule ccontr)
  assume "\<not> off < length fl"
  then show False
    using assms
    by (cases "ior off 0")
      (simp_all add: rd_def getline_fd_seekable_def getline_fd_def getline_loop.simps [of fl off]
        GETLINE_DEFAULT_SIZE_def Let_def split: if_splits)
qed

termination find_end_loop
  by (relation "measure (\<lambda>(fl, ior, delim, old_format, off). length fl - off)")
    (auto dest: rd_bound rd_forward intro!: diff_less_mono2)

declare find_end_loop.simps [simp del]

definition find_stanza_end :: "string \<Rightarrow> (nat \<Rightarrow> nat \<Rightarrow> io) \<Rightarrow> char \<Rightarrow> bool \<Rightarrow> nat \<Rightarrow> int \<times> nat" where
  "find_stanza_end fl ior delim old_format end0 =
     find_end_loop fl ior delim old_format
       (case rd fl ior end0 of GetlineErr _ \<Rightarrow> end0 | GetlineOk _ off \<Rightarrow> off)"

lemma find_end_loop_ge: "find_end_loop fl ior delim old_format off = (rc, e) \<Longrightarrow> off \<le> e"
proof (induction fl ior delim old_format off rule: find_end_loop.induct)
  case (1 fl ior delim old_format off)
  show ?case
  proof (cases "rd fl ior off")
    case (GetlineErr x)
    then show ?thesis using "1.prems" by (simp add: find_end_loop.simps [of fl ior _ _ off])
  next
    case (GetlineOk line off')
    then show ?thesis
      using "1.prems" "1.IH" [OF GetlineOk] rd_forward [OF GetlineOk]
      by (fastforce simp: find_end_loop.simps [of fl ior _ _ off] split: if_splits option.splits)
  qed
qed

lemma find_stanza_end_ge: "find_stanza_end fl ior delim old_format off = (rc, e) \<Longrightarrow> off \<le> e"
  using find_end_loop_ge rd_forward
  by (fastforce simp: find_stanza_end_def split: getline_result.splits)

text \<open>
  \<open>split_file\<close> with \<open>find_stanza_end\<close>.  The descriptor is at \<open>starting_offset\<close>; the size of the
  file is lowered by it while the ranges stay absolute.  \<open>end\<close> is \<open>start + jump\<close> whenever the
  loop tests.  \<open>chunks\<close> is the caller's list, and the result the size of all of it.
\<close>

definition jump_of :: "nat \<Rightarrow> nat \<Rightarrow> nat" where
  "jump_of sz max_parts = sz div max_parts + (if sz mod max_parts \<noteq> 0 then 1 else 0)"

lemma jump_of_pos: "0 < sz \<Longrightarrow> 0 < jump_of sz max_parts"
  by (auto simp: jump_of_def div_eq_0_iff)

function split_loop ::
    "string \<Rightarrow> (nat \<Rightarrow> nat \<Rightarrow> io) \<Rightarrow> char \<Rightarrow> bool \<Rightarrow> nat \<Rightarrow> nat \<Rightarrow> nat \<Rightarrow> (nat \<times> nat) list" where
  "split_loop fl ior delim old_format sz max_parts start =
     (if start < sz then
        case find_stanza_end fl ior delim old_format (start + jump_of sz max_parts) of
          (rc, e) \<Rightarrow>
            if rc = 0 then (start, e) # split_loop fl ior delim old_format sz max_parts e
            else [(start, sz)]
      else [])"
  by pat_completeness auto
termination
proof (relation "measure (\<lambda>(fl, ior, delim, old_format, sz, max_parts, start). sz - start)", goal_cases)
  case (2 fl ior delim old_format sz max_parts start rc e)
  then have "start + jump_of sz max_parts \<le> e" by (metis find_stanza_end_ge)
  moreover have "0 < jump_of sz max_parts" using 2 by (intro jump_of_pos) simp
  ultimately show ?case using 2 by simp
qed simp

declare split_loop.simps [simp del]

definition split_file ::
    "nat \<Rightarrow> string option \<Rightarrow> (nat \<Rightarrow> nat \<Rightarrow> io) \<Rightarrow> char \<Rightarrow> bool \<Rightarrow> nat \<Rightarrow> nat \<Rightarrow> (nat \<times> nat \<times> nat) list
     \<Rightarrow> (int \<times> (nat \<times> nat \<times> nat) list) option" where
  "split_file fd fstat_fl ior delim old_format starting_offset max_parts chunks =
     (case fstat_fl of
        None \<Rightarrow> Some (-1, chunks)
      | Some fl \<Rightarrow>
          if max_parts = 0 then None
          else
            (let chunks' = chunks @ map (\<lambda>(a, b). (fd, a, b))
                   (split_loop fl ior delim old_format (length fl - starting_offset) max_parts
                      starting_offset)
             in Some (int (length chunks'), chunks')))"

text \<open>
  \<open>enqueue_traces\<close> over files opened at offset 0: \<open>stats->remaining\<close>, which is also the
  returned chunk count, and the chunks it enqueues, in order: descriptor, start and end.
\<close>

fun enqueue_traces_loop ::
    "(nat \<times> string option \<times> (nat \<Rightarrow> nat \<Rightarrow> io)) list \<Rightarrow> char \<Rightarrow> bool \<Rightarrow> nat \<Rightarrow> int
     \<Rightarrow> (nat \<times> nat \<times> nat) list \<Rightarrow> (int \<times> (nat \<times> nat \<times> nat) list) option" where
  "enqueue_traces_loop [] delim old_format max_parts remaining chunks = Some (remaining, chunks)"
| "enqueue_traces_loop ((fd, fl, ior) # traces) delim old_format max_parts remaining chunks =
     (case split_file fd fl ior delim old_format 0 max_parts chunks of
        None \<Rightarrow> None
      | Some (rc, chunks') \<Rightarrow>
          enqueue_traces_loop traces delim old_format max_parts
            (if 0 < rc then remaining + rc else remaining) chunks')"

definition enqueue_traces ::
    "(nat \<times> string option \<times> (nat \<Rightarrow> nat \<Rightarrow> io)) list \<Rightarrow> char \<Rightarrow> bool \<Rightarrow> nat
     \<Rightarrow> (int \<times> (nat \<times> nat \<times> nat) list) option" where
  "enqueue_traces traces delim old_format max_parts =
     enqueue_traces_loop traces delim old_format max_parts 0 []"

section \<open>Lines and stanzas\<close>

text \<open>A reader whose reads transfer something.\<close>

definition reads :: "(nat \<Rightarrow> nat \<Rightarrow> io) \<Rightarrow> bool" where
  "reads ior \<longleftrightarrow> (\<forall>i j. \<exists>k. ior i j = IoMax k)"

lemma rd_reads:
  assumes "reads ior"
  shows "rd fl ior off =
    (if length fl \<le> off then GetlineErr (- int EIO) else GetlineOk (line_at fl off) (line_end fl off))"
  unfolding rd_def getline_fd_seekable_def option.case
  by (rule getline_fd_line) (use assms in \<open>auto simp: GETLINE_DEFAULT_SIZE_def reads_def\<close>)

text \<open>The lines that start in \<open>[off, e)\<close> when reading starts at \<open>off\<close>, each with the offset behind it.\<close>

lemma line_end_gt: "off < length fl \<Longrightarrow> off < line_end fl off"
  by (cases "drop off fl") (auto simp: line_end_def line_at_def)

function lines_to :: "string \<Rightarrow> nat \<Rightarrow> nat \<Rightarrow> (string \<times> nat) list" where
  "lines_to fl e off =
     (if off < e \<and> off < length fl
      then (line_at fl off, line_end fl off) # lines_to fl e (line_end fl off) else [])"
  by pat_completeness auto
termination
  by (relation "measure (\<lambda>(fl, e, off). e - off)") (auto dest: line_end_gt intro!: diff_less_mono2)

declare lines_to.simps [simp del]

definition kind :: "char \<Rightarrow> bool \<Rightarrow> string \<Rightarrow> char option" where
  "kind delim old_format line =
     (case find_first_delim line delim old_format of
        None \<Rightarrow> None | Some (k, mismatch) \<Rightarrow> if mismatch then None else Some (type_char line k))"

definition is_dir :: "char \<Rightarrow> bool \<Rightarrow> string \<times> nat \<Rightarrow> bool" where
  "is_dir delim old_format l \<longleftrightarrow> kind delim old_format (fst l) = Some (CHR ''d'')"

definition is_ext :: "char \<Rightarrow> bool \<Rightarrow> string \<times> nat \<Rightarrow> bool" where
  "is_ext delim old_format l \<longleftrightarrow> kind delim old_format (fst l) = Some (CHR ''e'')"

text \<open>A stanza is a directory line with the lines up to the next one.\<close>

function stanzas :: "('a \<Rightarrow> bool) \<Rightarrow> 'a list \<Rightarrow> ('a \<times> 'a list) list" where
  "stanzas d [] = []"
| "stanzas d (x # xs) = (x, takeWhile (\<lambda>y. \<not> d y) xs) # stanzas d (dropWhile (\<lambda>y. \<not> d y) xs)"
  by pat_completeness auto
termination
  by (relation "measure (\<lambda>(d, xs). length xs)") (auto simp: le_imp_less_Suc length_dropWhile_le)

definition stanza_row ::
    "nat \<Rightarrow> char \<Rightarrow> bool \<Rightarrow> (string \<times> nat) \<times> (string \<times> nat) list \<Rightarrow> row" where
  "stanza_row trace delim old_format st =
     (case st of ((line, off), es) \<Rightarrow>
        (row_init trace (case find_first_delim line delim old_format of Some (k, _) \<Rightarrow> k | None \<Rightarrow> 0)
           line (length line) off)\<lparr>row_entries := length es\<rparr>)"

definition step :: "nat \<Rightarrow> char \<Rightarrow> bool \<Rightarrow> scout \<Rightarrow> string \<times> nat \<Rightarrow> scout" where
  "step trace delim old_format s l =
     scout_line False trace (case find_first_delim (fst l) delim old_format of Some (k, _) \<Rightarrow> k | None \<Rightarrow> 0)
       (fst l) (snd l) s"

lemma kind_Some:
  "kind delim old_format line = Some t \<longleftrightarrow>
     (\<exists>k. find_first_delim line delim old_format = Some (k, False) \<and> t = type_char line k)"
  by (auto simp: kind_def split: option.splits if_splits)

lemma kind_Nil [simp]: "kind delim old_format [] = None"
  by (simp add: kind_def find_first_delim_def cstr_def sscanf_04zx_def scan_num_def Let_def)

lemma scout_trace_loop_lines:
  assumes "reads ior" and "\<forall>l \<in> set (lines_to fl e off). kind delim old_format (fst l) \<noteq> None"
  shows "scout_trace_loop fl ior delim old_format trace e off s =
    scout_done 0 (push_work (foldl (step trace delim old_format) s (lines_to fl e off)))"
  using assms(2)
proof (induction fl e off arbitrary: s rule: lines_to.induct)
  case (1 fl e off)
  note eq = scout_trace_loop.simps [of fl ior delim old_format trace e off s] rd_reads [OF assms(1)]
  show ?case
  proof (cases "off < e \<and> off < length fl")
    case True
    let ?l = "line_at fl off"
    have ls: "lines_to fl e off = (?l, line_end fl off) # lines_to fl e (line_end fl off)"
      using True by (subst lines_to.simps) simp
    obtain t where t: "kind delim old_format ?l = Some t" using "1.prems" unfolding ls by auto
    obtain k where k: "find_first_delim ?l delim old_format = Some (k, False)"
      using t unfolding kind_Some by blast
    have "?l \<noteq> []" using t by auto
    then have "scout_trace_loop fl ior delim old_format trace e off s =
        scout_trace_loop fl ior delim old_format trace e (line_end fl off)
          (scout_line False trace k ?l (line_end fl off) s)"
      using True k unfolding eq by simp
    moreover have "\<forall>l \<in> set (lines_to fl e (line_end fl off)). kind delim old_format (fst l) \<noteq> None"
      using "1.prems" unfolding ls by simp
    ultimately show ?thesis
      using "1.IH" [OF True] k unfolding ls by (simp add: step_def)
  next
    case False
    then have "lines_to fl e off = []" by (subst lines_to.simps) auto
    then show ?thesis using False unfolding eq by auto
  qed
qed

lemma foldl_step_queue:
  "\<forall>l \<in> set ls. kind delim old_format (fst l) \<noteq> None \<Longrightarrow>
   sc_queue (push_work (foldl (step trace delim old_format) s ls)) =
     sc_queue s
     @ [(sc_work s)\<lparr>row_entries := row_entries (sc_work s) + sc_external s
          + length (takeWhile (\<lambda>l. \<not> is_dir delim old_format l) ls)\<rparr>]
     @ map (stanza_row trace delim old_format)
         (stanzas (is_dir delim old_format) (dropWhile (\<lambda>l. \<not> is_dir delim old_format l) ls))"
proof (induction ls arbitrary: s)
  case Nil
  then show ?case by (simp add: push_work_def Let_def)
next
  case (Cons l ls)
  obtain line off where l: "l = (line, off)" by fastforce
  then obtain k where k: "find_first_delim line delim old_format = Some (k, False)"
    using Cons.prems by (auto simp: kind_def split: option.splits if_splits)
  then have kd: "kind delim old_format line = Some (type_char line k)"
    by (simp add: kind_def)
  show ?case
    using Cons by (simp add: l step_def scout_line_def push_work_def k kd is_dir_def stanza_row_def
        row_init_def Let_def)
qed

lemma foldl_step_counts:
  "\<forall>l \<in> set ls. kind delim old_format (fst l) \<noteq> None \<Longrightarrow>
   let s' = push_work (foldl (step trace delim old_format) s ls) in
   sc_dirs s' = sc_dirs s + 1 + length (filter (is_dir delim old_format) ls)
   \<and> sc_files s' = sc_files s
       + length (filter (\<lambda>l. \<not> is_dir delim old_format l \<and> \<not> is_ext delim old_format l) ls)"
proof (induction ls arbitrary: s)
  case Nil
  then show ?case by (simp add: push_work_def Let_def)
next
  case (Cons l ls)
  obtain line off where l: "l = (line, off)" by fastforce
  then obtain k where k: "find_first_delim line delim old_format = Some (k, False)"
    using Cons.prems by (auto simp: kind_def split: option.splits if_splits)
  then have kd: "kind delim old_format line = Some (type_char line k)"
    by (simp add: kind_def)
  show ?case
    using Cons by (simp add: l step_def scout_line_def push_work_def k kd is_dir_def is_ext_def Let_def)
qed

definition has_files :: "char \<Rightarrow> bool \<Rightarrow> (string \<times> nat) list \<Rightarrow> bool" where
  "has_files delim old_format es \<longleftrightarrow> list_ex (\<lambda>l. \<not> is_ext delim old_format l) es"

lemma foldl_step_empty:
  "\<forall>l \<in> set ls. kind delim old_format (fst l) \<noteq> None \<Longrightarrow>
   sc_empty (push_work (foldl (step trace delim old_format) s ls)) =
     sc_empty s
     + (if row_entries (sc_work s) = 0
           \<and> \<not> has_files delim old_format (takeWhile (\<lambda>l. \<not> is_dir delim old_format l) ls) then 1 else 0)
     + length (filter (\<lambda>st. \<not> has_files delim old_format (snd st))
         (stanzas (is_dir delim old_format) (dropWhile (\<lambda>l. \<not> is_dir delim old_format l) ls)))"
proof (induction ls arbitrary: s)
  case Nil
  then show ?case by (simp add: push_work_def has_files_def Let_def)
next
  case (Cons l ls)
  obtain line off where l: "l = (line, off)" by fastforce
  then obtain k where k: "find_first_delim line delim old_format = Some (k, False)"
    using Cons.prems by (auto simp: kind_def split: option.splits if_splits)
  then have kd: "kind delim old_format line = Some (type_char line k)"
    by (simp add: kind_def)
  show ?case
    using Cons by (simp add: l step_def scout_line_def push_work_def k kd is_dir_def is_ext_def
        has_files_def row_init_def Let_def)
qed

lemma lines_to_head:
  "off < e \<Longrightarrow> off < length fl \<Longrightarrow>
   lines_to fl e off = (line_at fl off, line_end fl off) # lines_to fl e (line_end fl off)"
  by (subst lines_to.simps) simp

lemma scout_trace_lines:
  assumes "reads ior" and "off < e" and "off < length fl"
    and "\<forall>l \<in> set (lines_to fl e off). kind delim old_format (fst l) \<noteq> None"
    and "is_dir delim old_format (hd (lines_to fl e off))"
  defines "sts \<equiv> stanzas (is_dir delim old_format) (lines_to fl e off)"
  shows "scout_trace fl ior delim old_format trace off e =
    Some \<lparr>sd_rc = 0, sd_queue = map (stanza_row trace delim old_format) sts,
          sd_files = length (filter (\<lambda>l. \<not> is_dir delim old_format l \<and> \<not> is_ext delim old_format l)
                               (lines_to fl e off)),
          sd_dirs = length (filter (is_dir delim old_format) (lines_to fl e off)),
          sd_empty = length (filter (\<lambda>st. \<not> has_files delim old_format (snd st)) sts)\<rparr>"
proof -
  let ?l = "line_at fl off" and ?o = "line_end fl off"
  let ?ls = "lines_to fl e ?o"
  have ls: "lines_to fl e off = (?l, ?o) # ?ls" using assms(2,3) by (rule lines_to_head)
  have d: "kind delim old_format ?l = Some (CHR ''d'')"
    using assms(5) unfolding ls by (simp add: is_dir_def)
  then have ne: "?l \<noteq> []" by auto
  obtain k where k: "find_first_delim ?l delim old_format = Some (k, False)" "type_char ?l k = CHR ''d''"
    using d unfolding kind_Some by auto
  have good: "\<forall>l \<in> set ?ls. kind delim old_format (fst l) \<noteq> None" using assms(4) unfolding ls by simp
  let ?w = "row_init trace k ?l (length ?l) ?o"
  have eq: "scout_trace fl ior delim old_format trace off e =
      Some (scout_done 0 (push_work (foldl (step trace delim old_format) (scout_start ?w) ?ls)))"
    using assms(1-3) ne k scout_trace_loop_lines [OF assms(1) good]
    by (simp add: scout_trace_def rd_reads)
  have sts: "sts = ((?l, ?o), takeWhile (\<lambda>y. \<not> is_dir delim old_format y) ?ls)
      # stanzas (is_dir delim old_format) (dropWhile (\<lambda>y. \<not> is_dir delim old_format y) ?ls)"
    unfolding sts_def ls by simp
  show ?thesis
    unfolding eq sts ls scout_done_def
    using foldl_step_queue [OF good, of trace "scout_start ?w"]
      foldl_step_counts [OF good, of trace "scout_start ?w"]
      foldl_step_empty [OF good, of trace "scout_start ?w"] d k
    by (simp add: Let_def scout_start_def stanza_row_def row_init_def is_dir_def is_ext_def)
qed

section \<open>Chunks\<close>

text \<open>The offsets at which lines start, and the end.\<close>

definition boundary :: "string \<Rightarrow> nat \<Rightarrow> bool" where
  "boundary fl p \<longleftrightarrow> p = 0 \<or> p = length fl \<or> (p < length fl \<and> fl ! (p - 1) = LF)"

lemma line_at_length: "off < length fl \<Longrightarrow> off + length (line_at fl off) \<le> length fl"
  using length_takeWhile_le [of "\<lambda>c. c \<noteq> LF" "drop off fl"] by (simp add: line_at_def)

lemma LF_line_at: "i < length (line_at fl off) \<Longrightarrow> fl ! (off + i) \<noteq> LF"
proof -
  assume i: "i < length (line_at fl off)"
  have "line_at fl off ! i = drop off fl ! i"
    using i unfolding line_at_def by (rule takeWhile_nth)
  moreover have "line_at fl off ! i \<noteq> LF"
    using nth_mem [OF i] unfolding line_at_def by (auto dest: set_takeWhileD)
  moreover have "off + i < length fl"
    using i length_takeWhile_le [of "\<lambda>c. c \<noteq> LF" "drop off fl"] by (simp add: line_at_def)
  ultimately show ?thesis by simp
qed

lemma line_end_cases:
  "LF \<in> set (drop off fl) \<Longrightarrow> off + length (line_at fl off) < length fl
     \<and> fl ! (off + length (line_at fl off)) = LF \<and> line_end fl off = off + length (line_at fl off) + 1"
  "LF \<notin> set (drop off fl) \<Longrightarrow> off < length fl \<Longrightarrow> line_end fl off = length fl"
proof -
  let ?n = "length (line_at fl off)"
  assume lf: "LF \<in> set (drop off fl)"
  then obtain a b where ab: "drop off fl = a @ LF # b" "LF \<notin> set a"
    by (meson split_list_first)
  then have n: "?n = length a" by (simp add: line_at_split)
  have "off + ?n < length fl"
    using arg_cong [OF ab(1), of length] n by simp
  moreover have "fl ! (off + ?n) = LF"
    using ab(1) calculation n by (metis add_leD1 less_imp_le nth_append_length nth_drop)
  ultimately show "off + ?n < length fl \<and> fl ! (off + ?n) = LF \<and> line_end fl off = off + ?n + 1"
    using \<open>LF \<in> set (drop off fl)\<close> by (simp add: line_end_def)
next
  assume lf: "LF \<notin> set (drop off fl)" and "off < length fl"
  moreover have "line_at fl off = drop off fl"
    unfolding line_at_def by (rule takeWhile_eq_all_conv [THEN iffD2]) (use lf in auto)
  ultimately show "line_end fl off = length fl" by (simp add: line_end_def)
qed

lemma line_end_boundary: "off < length fl \<Longrightarrow> boundary fl (line_end fl off) \<and> line_end fl off \<le> length fl"
  using line_end_cases [of off fl] by (cases "LF \<in> set (drop off fl)") (auto simp: boundary_def)

lemma line_end_le:
  assumes "off < b" and "boundary fl b" and "off < length fl"
  shows "line_end fl off \<le> b"
proof (cases "b = length fl")
  case False
  then have b: "b < length fl" "fl ! (b - 1) = LF" using assms by (auto simp: boundary_def)
  have i: "off + (b - 1 - off) = b - 1" using assms(1) by simp
  have "\<not> b - 1 - off < length (line_at fl off)"
    using LF_line_at [of "b - 1 - off" fl off] b(2) unfolding i by blast
  moreover have "LF \<in> set (drop off fl)"
  proof -
    have "drop off fl ! (b - 1 - off) = LF" using b assms(1) by simp
    moreover have "b - 1 - off < length (drop off fl)" using b assms(1) by simp
    ultimately show ?thesis by (metis nth_mem)
  qed
  ultimately show ?thesis using line_end_cases(1) [of off fl] assms(1) by linarith
qed (use line_end_boundary assms(3) in blast)

lemma lines_to_split:
  "off \<le> b \<Longrightarrow> boundary fl b \<Longrightarrow> b \<le> e \<Longrightarrow> b \<le> length fl \<Longrightarrow>
   lines_to fl e off = lines_to fl b off @ lines_to fl e b"
proof (induction fl b off rule: lines_to.induct)
  case (1 fl b off)
  show ?case
  proof (cases "off = b")
    case True
    then show ?thesis by (subst (2) lines_to.simps) simp
  next
    case False
    then have lt: "off < b" "off < length fl" using "1.prems" by auto
    have "line_end fl off \<le> b" using lt "1.prems"(2) by (intro line_end_le)
    then show ?thesis
      using "1.IH" lt "1.prems" lines_to_head [of off b fl] lines_to_head [of off e fl] by simp
  qed
qed

lemma boundary_good:
  assumes "\<forall>l \<in> set (lines_to fl (length fl) 0). P (fst l)" and "boundary fl p" and "p < length fl"
  shows "P (line_at fl p)"
  using assms lines_to_split [of 0 p fl "length fl"] lines_to_head [of p "length fl" fl] by simp

lemma find_end_loop_dir:
  "reads ior \<Longrightarrow> \<forall>l \<in> set (lines_to fl (length fl) 0). kind delim old_format (fst l) \<noteq> None \<Longrightarrow>
   boundary fl off \<Longrightarrow> find_end_loop fl ior delim old_format off = (0, e) \<Longrightarrow>
   boundary fl e \<and> e < length fl \<and> kind delim old_format (line_at fl e) = Some (CHR ''d'')"
proof (induction fl ior delim old_format off rule: find_end_loop.induct)
  case (1 fl ior delim old_format off)
  note eq = find_end_loop.simps [of fl ior delim old_format off]
  note rdo = rd_reads [OF "1.prems"(1), of fl off]
  have lt: "off < length fl" using "1.prems"(4) unfolding eq rdo by (auto split: if_splits)
  let ?l = "line_at fl off" and ?o = "line_end fl off"
  have rdl: "rd fl ior off = GetlineOk ?l ?o" using lt unfolding rdo by simp
  have kd: "kind delim old_format ?l \<noteq> None"
    by (rule boundary_good [OF "1.prems"(2,3) lt])
  then obtain k where k: "find_first_delim ?l delim old_format = Some (k, False)"
    by (auto simp: kind_def split: option.splits if_splits)
  have ne: "?l \<noteq> []" using kd by auto
  show ?case
  proof (cases "type_char ?l k = CHR ''d''")
    case True
    then have "e = off" using "1.prems"(4) ne k unfolding eq rdl by simp
    then show ?thesis using True "1.prems"(3) lt k by (simp add: kind_def)
  next
    case False
    then have "find_end_loop fl ior delim old_format ?o = (0, e)"
      using "1.prems"(4) ne k unfolding eq rdl by simp
    then show ?thesis
      using "1.IH" [OF rdl ne k refl _ False] "1.prems"(1,2) line_end_boundary [OF lt] by simp
  qed
qed

definition good_trace :: "char \<Rightarrow> bool \<Rightarrow> string \<Rightarrow> bool" where
  "good_trace delim old_format fl \<longleftrightarrow>
     (\<forall>l \<in> set (lines_to fl (length fl) 0). kind delim old_format (fst l) \<noteq> None)"

lemma find_stanza_end_dir:
  assumes "reads ior" and "good_trace delim old_format fl"
    and "find_stanza_end fl ior delim old_format end0 = (0, e)"
  shows "boundary fl e \<and> e < length fl \<and> kind delim old_format (line_at fl e) = Some (CHR ''d'')"
proof (cases "end0 < length fl")
  case True
  then have "find_end_loop fl ior delim old_format (line_end fl end0) = (0, e)"
    using assms(3) by (simp add: find_stanza_end_def rd_reads [OF assms(1)])
  then show ?thesis
    using find_end_loop_dir [OF assms(1)] assms(2) line_end_boundary [OF True]
    unfolding good_trace_def by blast
next
  case False
  then have "find_stanza_end fl ior delim old_format end0 = (-1, end0)"
    by (simp add: find_stanza_end_def find_end_loop.simps [of fl ior _ _ end0] rd_reads [OF assms(1)])
  then show ?thesis using assms(3) by simp
qed

lemma lines_to_good:
  assumes "good_trace delim old_format fl" and "boundary fl a" and "boundary fl b" and "a \<le> b"
  shows "\<forall>l \<in> set (lines_to fl b a). kind delim old_format (fst l) \<noteq> None"
proof -
  have b: "a \<le> length fl" "b \<le> length fl" using assms by (auto simp: boundary_def)
  have "lines_to fl (length fl) 0 = lines_to fl a 0 @ lines_to fl (length fl) a"
    by (rule lines_to_split) (use assms b in auto)
  moreover have "lines_to fl (length fl) a = lines_to fl b a @ lines_to fl (length fl) b"
    by (rule lines_to_split) (use assms b in auto)
  ultimately show ?thesis using assms(1) by (simp add: good_trace_def)
qed

lemma stanzas_append:
  "ys = [] \<or> d (hd ys) \<Longrightarrow> stanzas d (xs @ ys) = stanzas d xs @ stanzas d ys" if "xs \<noteq> [] \<longrightarrow> d (hd xs)"
  using that
proof (induction d xs rule: stanzas.induct)
  case (2 d x xs)
  let ?n = "\<lambda>y. \<not> d y"
  have tw: "takeWhile ?n (xs @ ys) = takeWhile ?n xs" "dropWhile ?n (xs @ ys) = dropWhile ?n xs @ ys"
    using "2.prems"(1) by (induction xs; cases ys; simp)+
  have "dropWhile ?n xs \<noteq> [] \<longrightarrow> d (hd (dropWhile ?n xs))" by (metis hd_dropWhile)
  then show ?case using 2 by (simp add: tw)
qed simp

lemma split_loop_rows:
  "reads ior \<Longrightarrow> good_trace delim old_format fl \<Longrightarrow> boundary fl start \<Longrightarrow> start < length fl \<Longrightarrow>
    kind delim old_format (line_at fl start) = Some (CHR ''d'') \<Longrightarrow>
    \<exists>scs. map (\<lambda>(a, b). scout_trace fl ior delim old_format fd a b)
           (split_loop fl ior delim old_format (length fl) max_parts start) = map Some scs
      \<and> (\<forall>s \<in> set scs. sd_rc s = 0)
      \<and> concat (map sd_queue scs) =
          map (stanza_row fd delim old_format)
            (stanzas (is_dir delim old_format) (lines_to fl (length fl) start))"
proof (induction fl ior delim old_format "length fl" max_parts start rule: split_loop.induct)
  case (1 fl ior delim old_format max_parts start)
  obtain rc e where fe: "find_stanza_end fl ior delim old_format
      (start + jump_of (length fl) max_parts) = (rc, e)" by fastforce
  have eq: "split_loop fl ior delim old_format (length fl) max_parts start =
      (if rc = 0 then (start, e) # split_loop fl ior delim old_format (length fl) max_parts e
       else [(start, length fl)])"
    using "1.prems"(4) fe by (subst split_loop.simps) simp
  have scan: "\<exists>sd. scout_trace fl ior delim old_format fd start b = Some sd \<and> sd_rc sd = 0
      \<and> sd_queue sd = map (stanza_row fd delim old_format)
            (stanzas (is_dir delim old_format) (lines_to fl b start))"
    if b: "boundary fl b" "start < b" for b
    using scout_trace_lines [OF "1.prems"(1) b(2) "1.prems"(4)
        lines_to_good [OF "1.prems"(2,3) b(1)], of fd] b(2) "1.prems"(4,5)
    by (simp add: lines_to_head is_dir_def)
  show ?case
  proof (cases "rc = 0")
    case False
    obtain sd where "scout_trace fl ior delim old_format fd start (length fl) = Some sd" "sd_rc sd = 0"
      "sd_queue sd = map (stanza_row fd delim old_format)
            (stanzas (is_dir delim old_format) (lines_to fl (length fl) start))"
      using scan [of "length fl"] "1.prems"(4) by (auto simp: boundary_def)
    then show ?thesis using False unfolding eq by (intro exI [of _ "[sd]"]) simp
  next
    case True
    note fe0 = fe [unfolded True]
    have e: "boundary fl e" "e < length fl" "kind delim old_format (line_at fl e) = Some (CHR ''d'')"
      using find_stanza_end_dir [OF "1.prems"(1,2) fe0] by auto
    have "0 < jump_of (length fl) max_parts" using "1.prems"(4) by (intro jump_of_pos) auto
    then have lt: "start < e" using find_stanza_end_ge [OF fe0] by simp
    obtain sd where sd: "scout_trace fl ior delim old_format fd start e = Some sd" "sd_rc sd = 0"
      "sd_queue sd = map (stanza_row fd delim old_format)
            (stanzas (is_dir delim old_format) (lines_to fl e start))"
      using scan [OF e(1) lt] by auto
    obtain scs where scs: "map (\<lambda>(a, b). scout_trace fl ior delim old_format fd a b)
           (split_loop fl ior delim old_format (length fl) max_parts e) = map Some scs"
      "\<forall>s \<in> set scs. sd_rc s = 0"
      "concat (map sd_queue scs) = map (stanza_row fd delim old_format)
            (stanzas (is_dir delim old_format) (lines_to fl (length fl) e))"
      using "1.hyps" [OF "1.prems"(4) fe0 [symmetric] refl "1.prems"(1,2) e] by auto
    have "lines_to fl (length fl) start = lines_to fl e start @ lines_to fl (length fl) e"
      using lt e by (intro lines_to_split) auto
    moreover have "is_dir delim old_format (hd (lines_to fl e start))"
      "is_dir delim old_format (hd (lines_to fl (length fl) e))"
      using lt e "1.prems"(4,5) by (simp_all add: lines_to_head is_dir_def)
    ultimately have "stanzas (is_dir delim old_format) (lines_to fl (length fl) start) =
        stanzas (is_dir delim old_format) (lines_to fl e start)
        @ stanzas (is_dir delim old_format) (lines_to fl (length fl) e)"
      by (simp add: stanzas_append)
    then show ?thesis
      using True sd scs unfolding eq by (intro exI [of _ "sd # scs"]) simp
  qed
qed

section \<open>Properties\<close>

text \<open>
  C23: Scouting a range of good lines that starts with a directory enqueues, in order, one work
  item per directory line: the line, the offset behind it, and as its entry count the number
  of lines up to the next directory, external databases included.  The statistics count the
  directories, the entries that are not external databases, and the directories without any.
\<close>
theorem scout_trace_stanzas:
  assumes "reads ior" and "off < e" and "off < length fl"
    and "\<forall>l \<in> set (lines_to fl e off). kind delim old_format (fst l) \<noteq> None"
    and "is_dir delim old_format (hd (lines_to fl e off))"
  defines "sts \<equiv> stanzas (is_dir delim old_format) (lines_to fl e off)"
  shows "scout_trace fl ior delim old_format trace off e =
    Some \<lparr>sd_rc = 0, sd_queue = map (stanza_row trace delim old_format) sts,
          sd_files = length (filter (\<lambda>l. \<not> is_dir delim old_format l \<and> \<not> is_ext delim old_format l)
                               (lines_to fl e off)),
          sd_dirs = length (filter (is_dir delim old_format) (lines_to fl e off)),
          sd_empty = length (filter (\<lambda>st. \<not> has_files delim old_format (snd st)) sts)\<rparr>"
  unfolding sts_def by (rule scout_trace_lines [OF assms(1-5)])

text \<open>Two directories, the first with a file and an external database.\<close>

definition sample_trace :: string where
  "sample_trace = ''0001a|d'' @ [LF] @ ''0001f|f'' @ [LF] @ ''0001x|e'' @ [LF] @ ''0001b|d'' @ [LF]"

lemma line_end_split: "drop p fl = a @ LF # b \<Longrightarrow> LF \<notin> set a \<Longrightarrow> line_end fl p = p + length a + 1"
  by (simp add: line_end_def line_at_split)

lemma sample_lines:
  "lines_to sample_trace 32 0 =
     [(''0001a|d'', 8), (''0001f|f'', 16), (''0001x|e'', 24), (''0001b|d'', 32)]"
proof -
  have d: "drop 0 sample_trace = ''0001a|d'' @ LF # drop 8 sample_trace"
    "drop 8 sample_trace = ''0001f|f'' @ LF # drop 16 sample_trace"
    "drop 16 sample_trace = ''0001x|e'' @ LF # drop 24 sample_trace"
    "drop 24 sample_trace = ''0001b|d'' @ LF # []"
    by (simp_all add: sample_trace_def)
  have l: "length sample_trace = 32" by (simp add: sample_trace_def)
  have "line_at sample_trace 0 = ''0001a|d''" "line_end sample_trace 0 = 8"
    "line_at sample_trace 8 = ''0001f|f''" "line_end sample_trace 8 = 16"
    "line_at sample_trace 16 = ''0001x|e''" "line_end sample_trace 16 = 24"
    "line_at sample_trace 24 = ''0001b|d''" "line_end sample_trace 24 = 32"
    using line_at_split [OF d(1)] line_end_split [OF d(1)] line_at_split [OF d(2)]
      line_end_split [OF d(2)] line_at_split [OF d(3)] line_end_split [OF d(3)]
      line_at_split [OF d(4)] line_end_split [OF d(4)] by simp_all
  then show ?thesis
    by (simp add: lines_to_head l lines_to.simps [of sample_trace 32 32])
qed

lemma sample_kinds:
  "kind (CHR ''|'') False ''0001a|d'' = Some (CHR ''d'')"
  "kind (CHR ''|'') False ''0001b|d'' = Some (CHR ''d'')"
  "kind (CHR ''|'') False ''0001f|f'' = Some (CHR ''f'')"
  "kind (CHR ''|'') False ''0001x|e'' = Some (CHR ''e'')"
  by code_simp+

lemma scout_trace_stanzas_witness:
  "\<exists>sd. scout_trace sample_trace (\<lambda>_ _. IoMax 3) (CHR ''|'') False 7 0 32 = Some sd
    \<and> sd_rc sd = 0 \<and> map row_entries (sd_queue sd) = [2, 0] \<and> map row_offset (sd_queue sd) = [8, 32]
    \<and> sd_files sd = 1 \<and> sd_dirs sd = 2 \<and> sd_empty sd = 1"
proof -
  have "length sample_trace = 32" by (simp add: sample_trace_def)
  then show ?thesis
    using scout_trace_stanzas [of "\<lambda>_ _. IoMax 3" 0 32 sample_trace "CHR ''|''" False 7]
    by (simp add: reads_def sample_lines sample_kinds is_dir_def is_ext_def has_files_def
        stanza_row_def row_init_def)
qed

text \<open>
  C22: A file of good lines that starts with a directory can be cut into any number of chunks:
  every chunk is scouted without error, and what the chunks enqueue, in order, is what scouting
  the whole file enqueues.  No stanza is cut, lost or taken twice.
\<close>
theorem split_file_chunks_cover:
  assumes "reads ior" and "good_trace delim old_format fl" and "0 < max_parts"
    and "fl \<noteq> []" and "kind delim old_format (line_at fl 0) = Some (CHR ''d'')"
  shows "\<exists>chunks scs whole.
    split_file fd (Some fl) ior delim old_format 0 max_parts [] = Some (int (length chunks), chunks)
    \<and> map (\<lambda>(f, a, b). scout_trace fl ior delim old_format f a b) chunks = map Some scs
    \<and> (\<forall>s \<in> set scs. sd_rc s = 0)
    \<and> scout_trace fl ior delim old_format fd 0 (length fl) = Some whole
    \<and> concat (map sd_queue scs) = sd_queue whole"
proof -
  let ?ch = "split_loop fl ior delim old_format (length fl) max_parts 0"
  have b: "boundary fl 0" "boundary fl (length fl)" "0 < length fl"
    using assms(4) by (auto simp: boundary_def)
  obtain scs where scs: "map (\<lambda>(a, b). scout_trace fl ior delim old_format fd a b) ?ch = map Some scs"
    "\<forall>s \<in> set scs. sd_rc s = 0"
    "concat (map sd_queue scs) = map (stanza_row fd delim old_format)
      (stanzas (is_dir delim old_format) (lines_to fl (length fl) 0))"
    using split_loop_rows [OF assms(1,2) b(1,3) assms(5)] by blast
  have "map (\<lambda>(f, a, b). scout_trace fl ior delim old_format f a b) (map (\<lambda>(a, b). (fd, a, b)) ?ch)
      = map (\<lambda>(a, b). scout_trace fl ior delim old_format fd a b) ?ch"
    by (simp add: split_beta comp_def)
  moreover have "\<exists>whole. scout_trace fl ior delim old_format fd 0 (length fl) = Some whole
      \<and> concat (map sd_queue scs) = sd_queue whole"
    using scout_trace_lines [OF assms(1) b(3,3) lines_to_good [OF assms(2) b(1,2)], of fd] assms(5) b(3)
      scs(3) by (simp add: lines_to_head is_dir_def)
  ultimately show ?thesis
    using scs(1,2) assms(3) by (simp add: split_file_def)
qed

lemma split_file_chunks_cover_witness:
  "\<exists>chunks scs whole.
    split_file 7 (Some sample_trace) (\<lambda>_ _. IoMax 3) (CHR ''|'') False 0 4 [] = Some (int (length chunks), chunks)
    \<and> map (\<lambda>(f, a, b). scout_trace sample_trace (\<lambda>_ _. IoMax 3) (CHR ''|'') False f a b) chunks = map Some scs
    \<and> (\<forall>s \<in> set scs. sd_rc s = 0)
    \<and> scout_trace sample_trace (\<lambda>_ _. IoMax 3) (CHR ''|'') False 7 0 (length sample_trace) = Some whole
    \<and> concat (map sd_queue scs) = sd_queue whole"
proof -
  have l: "length sample_trace = 32" by (simp add: sample_trace_def)
  then have "good_trace (CHR ''|'') False sample_trace" "sample_trace \<noteq> []"
    by (auto simp: good_trace_def sample_lines sample_kinds)
  moreover have "line_at sample_trace 0 = ''0001a|d''"
    by (rule line_at_split [of 0 _ _ "drop 8 sample_trace"]) (simp_all add: sample_trace_def)
  ultimately show ?thesis
    using split_file_chunks_cover [of "\<lambda>_ _. IoMax 3" "CHR ''|''" False sample_trace 4 7] sample_kinds
    by (simp add: reads_def)
qed

text \<open>
  With two or more readable, non-empty trace files, \<open>enqueue_traces\<close> sets \<open>remaining\<close> above
  the number of chunks it enqueues: \<open>split_file\<close> returns the size of the list all files share,
  which \<open>enqueue_traces\<close> adds up per file.
\<close>
theorem enqueue_traces_overcounts:
  assumes "fl1 \<noteq> []" and "fl2 \<noteq> []" and "0 < max_parts"
    and "enqueue_traces [(fd1, Some fl1, ior1), (fd2, Some fl2, ior2)] delim old_format max_parts =
      Some (remaining, chunks)"
  shows "int (length chunks) < remaining"
proof -
  let ?c1 = "split_loop fl1 ior1 delim old_format (length fl1) max_parts 0"
  let ?c2 = "split_loop fl2 ior2 delim old_format (length fl2) max_parts 0"
  have "?c1 \<noteq> []" "?c2 \<noteq> []"
    using assms(1,2) by (subst split_loop.simps; simp split: prod.splits)+
  then obtain n1 n2 where n: "length ?c1 = Suc n1" "length ?c2 = Suc n2"
    by (metis length_0_conv not0_implies_Suc)
  show ?thesis
    using assms(3,4) n by (auto simp: enqueue_traces_def split_file_def Let_def)
qed

lemma enqueue_traces_overcounts_witness:
  "int (length (snd (the (enqueue_traces [(3, Some ''x'', \<lambda>_ _. IoMax 1), (4, Some ''y'', \<lambda>_ _. IoMax 1)]
      (CHR ''|'') False 1))))
   < fst (the (enqueue_traces [(3, Some ''x'', \<lambda>_ _. IoMax 1), (4, Some ''y'', \<lambda>_ _. IoMax 1)]
      (CHR ''|'') False 1))"
proof -
  have "enqueue_traces [(3, Some ''x'', \<lambda>_ _. IoMax 1), (4, Some ''y'', \<lambda>_ _. IoMax 1)]
      (CHR ''|'') False 1 \<noteq> None"
    by (simp add: enqueue_traces_def split_file_def Let_def)
  then show ?thesis
    using enqueue_traces_overcounts [of "''x''" "''y''" 1 3 "\<lambda>_ _. IoMax 1" 4 "\<lambda>_ _. IoMax 1"
        "CHR ''|''" False] by auto
qed

text \<open>
  An empty line behind the line that a search for a chunk's end starts in ends that search as
  if a directory had been found.  When the line after it is not a directory, the chunk that
  starts there is refused: nothing of it is enqueued.
\<close>
theorem find_stanza_end_empty_line:
  assumes "reads ior" and "off < length fl" and "line_at fl (line_end fl off) = []"
    and "q = line_end fl (line_end fl off)" and "line_end fl off < length fl" and "q < e"
    and "kind delim old_format (line_at fl q) \<noteq> Some (CHR ''d'')"
    and "q < length fl"
  shows "find_stanza_end fl ior delim old_format off = (0, q)
    \<and> scout_trace fl ior delim old_format trace q e = Some (scout_none 1)"
proof
  show "find_stanza_end fl ior delim old_format off = (0, q)"
    using assms(2-5)
    by (simp add: find_stanza_end_def find_end_loop.simps [of fl ior _ _ "line_end fl off"]
        rd_reads [OF assms(1)])
  show "scout_trace fl ior delim old_format trace q e = Some (scout_none 1)"
  proof (cases "find_first_delim (line_at fl q) delim old_format")
    case None
    then show ?thesis using assms(6,8) by (simp add: scout_trace_def rd_reads [OF assms(1)])
  next
    case (Some km)
    then show ?thesis
      using assms(6-8) by (cases km) (auto simp: scout_trace_def rd_reads [OF assms(1)] kind_def)
  qed
qed

definition gap_trace :: string where
  "gap_trace = ''0001a|d'' @ [LF] @ [LF] @ ''0001f|f'' @ [LF]"

lemma find_stanza_end_empty_line_witness:
  "find_stanza_end gap_trace (\<lambda>_ _. IoMax 3) (CHR ''|'') False 2 = (0, 9)
   \<and> scout_trace gap_trace (\<lambda>_ _. IoMax 3) (CHR ''|'') False 7 9 17 = Some (scout_none 1)"
proof -
  have d: "drop 2 gap_trace = ''01a|d'' @ LF # drop 8 gap_trace"
    "drop 8 gap_trace = [] @ LF # drop 9 gap_trace" "drop 9 gap_trace = ''0001f|f'' @ LF # []"
    by (simp_all add: gap_trace_def)
  have e: "line_end gap_trace 2 = 8" "line_end gap_trace 8 = 9" "line_at gap_trace 8 = []"
    "line_at gap_trace 9 = ''0001f|f''"
    using line_end_split [OF d(1)] line_end_split [OF d(2)] line_at_split [OF d(2)]
      line_at_split [OF d(3)] by simp_all
  have l: "length gap_trace = 17" by (simp add: gap_trace_def)
  show ?thesis
    using find_stanza_end_empty_line [of "\<lambda>_ _. IoMax 3" 2 gap_trace 9 17 "CHR ''|''" False 7]
    by (simp add: reads_def e l sample_kinds)
qed

end
