(* ===== verification/Summary.thy ===== *)
theory Summary
  imports Trace
begin

text \<open>
  Directory and tree summaries, \<open>zeroit\<close>, \<open>sumit\<close> and \<open>tsumit\<close> of \<open>src/src/utils.c\<close>.  The fields
  of \<open>struct sum\<close> are \<open>long long\<close>; they are integers here, as the sums that would overflow have
  no defined value in the code either.
\<close>

definition LLONG_MAX :: int where "LLONG_MAX = 2 ^ 63 - 1"
definition LLONG_MIN :: int where "LLONG_MIN = - (2 ^ 63)"

record sum =
  totfiles :: int
  totlinks :: int
  minuid :: int
  maxuid :: int
  mingid :: int
  maxgid :: int
  minsize :: int
  maxsize :: int
  totzero :: int
  totltk :: int
  totmtk :: int
  totltm :: int
  totmtm :: int
  totmtg :: int
  totmtt :: int
  totsize :: int
  minctime :: int
  maxctime :: int
  totctime :: int
  minmtime :: int
  maxmtime :: int
  totmtime :: int
  minatime :: int
  maxatime :: int
  totatime :: int
  minblocks :: int
  maxblocks :: int
  totblocks :: int
  totxattr :: int
  totsubdirs :: int
  maxsubdirfiles :: int
  maxsubdirlinks :: int
  maxsubdirsize :: int
  mincrtime :: int
  maxcrtime :: int
  totcrtime :: int
  minossint1 :: int
  maxossint1 :: int
  totossint1 :: int
  minossint2 :: int
  maxossint2 :: int
  totossint2 :: int
  minossint3 :: int
  maxossint3 :: int
  totossint3 :: int
  minossint4 :: int
  maxossint4 :: int
  totossint4 :: int
  totextdbs :: int

definition zeroit :: sum where
  "zeroit = \<lparr>totfiles = 0, totlinks = 0, minuid = LLONG_MAX, maxuid = LLONG_MIN,
     mingid = LLONG_MAX, maxgid = LLONG_MIN, minsize = LLONG_MAX, maxsize = LLONG_MIN,
     totzero = 0, totltk = 0, totmtk = 0, totltm = 0,
     totmtm = 0, totmtg = 0, totmtt = 0, totsize = 0,
     minctime = LLONG_MAX, maxctime = LLONG_MIN, totctime = 0, minmtime = LLONG_MAX,
     maxmtime = LLONG_MIN, totmtime = 0, minatime = LLONG_MAX, maxatime = LLONG_MIN,
     totatime = 0, minblocks = LLONG_MAX, maxblocks = LLONG_MIN, totblocks = 0,
     totxattr = 0, totsubdirs = 0, maxsubdirfiles = LLONG_MIN, maxsubdirlinks = LLONG_MIN,
     maxsubdirsize = LLONG_MIN, mincrtime = LLONG_MAX, maxcrtime = LLONG_MIN, totcrtime = 0,
     minossint1 = LLONG_MAX, maxossint1 = LLONG_MIN, totossint1 = 0, minossint2 = LLONG_MAX,
     maxossint2 = LLONG_MIN, totossint2 = 0, minossint3 = LLONG_MAX, maxossint3 = LLONG_MIN,
     totossint3 = 0, minossint4 = LLONG_MAX, maxossint4 = LLONG_MIN, totossint4 = 0,
     totextdbs = 0\<rparr>"

text \<open>\<open>MIN_ASSIGN_LHS\<close> and \<open>MAX_ASSIGN_LHS\<close>.\<close>

definition min_assign :: "int \<Rightarrow> int \<Rightarrow> int" where "min_assign lhs rhs = (if lhs > rhs then rhs else lhs)"
definition max_assign :: "int \<Rightarrow> int \<Rightarrow> int" where "max_assign lhs rhs = (if lhs < rhs then rhs else lhs)"

lemma assign_min_max [simp]: "min_assign a b = min a b" "max_assign a b = max a b"
  by (simp_all add: min_assign_def max_assign_def min_def max_def)

section \<open>One entry into its directory's summary\<close>

text \<open>What \<open>sumit\<close> reads of an entry, as the signed or unsigned values of the C types.\<close>

definition size_of :: "work \<Rightarrow> int" where "size_of w = sint (st_size (w_statuso w))"
definition blocks_of :: "work \<Rightarrow> int" where "blocks_of w = sint (st_blocks (w_statuso w))"
definition uid_of :: "work \<Rightarrow> int" where "uid_of w = uint (st_uid (w_statuso w))"
definition gid_of :: "work \<Rightarrow> int" where "gid_of w = uint (st_gid (w_statuso w))"
definition ctime_of :: "work \<Rightarrow> int" where "ctime_of w = sint (st_ctime (w_statuso w))"
definition mtime_of :: "work \<Rightarrow> int" where "mtime_of w = sint (st_mtime (w_statuso w))"
definition atime_of :: "work \<Rightarrow> int" where "atime_of w = sint (st_atime (w_statuso w))"
definition crtime_of :: "work \<Rightarrow> int" where "crtime_of w = sint (w_crtime w)"

definition sumit_file :: "sum \<Rightarrow> int \<Rightarrow> int \<Rightarrow> sum" where
  "sumit_file s sz blocks = s\<lparr>
     totfiles := totfiles s + 1,
     minsize := min_assign (minsize s) sz, maxsize := max_assign (maxsize s) sz,
     totzero := totzero s + (if sz = 0 then 1 else 0),
     totltk := totltk s + (if sz \<le> 1024 then 1 else 0),
     totmtk := totmtk s + (if 1024 < sz then 1 else 0),
     totltm := totltm s + (if sz \<le> 1048576 then 1 else 0),
     totmtm := totmtm s + (if 1048576 < sz then 1 else 0),
     totmtg := totmtg s + (if 1073741824 < sz then 1 else 0),
     totmtt := totmtt s + (if 1099511627776 < sz then 1 else 0),
     totsize := totsize s + sz,
     minblocks := min_assign (minblocks s) blocks, maxblocks := max_assign (maxblocks s) blocks,
     totblocks := totblocks s + blocks\<rparr>"

definition sumit_ids :: "sum \<Rightarrow> int \<Rightarrow> int \<Rightarrow> sum" where
  "sumit_ids s u g = s\<lparr>
     minuid := min_assign (minuid s) u, maxuid := max_assign (maxuid s) u,
     mingid := min_assign (mingid s) g, maxgid := max_assign (maxgid s) g\<rparr>"

definition sumit_times :: "bool \<Rightarrow> sum \<Rightarrow> int \<Rightarrow> int \<Rightarrow> int \<Rightarrow> int \<Rightarrow> sum" where
  "sumit_times have_statx s c m a cr = s\<lparr>
     minctime := min_assign (minctime s) c, maxctime := max_assign (maxctime s) c,
     totctime := totctime s + c,
     minmtime := min_assign (minmtime s) m, maxmtime := max_assign (maxmtime s) m,
     totmtime := totmtime s + m,
     minatime := min_assign (minatime s) a, maxatime := max_assign (maxatime s) a,
     totatime := totatime s + a,
     mincrtime := min_assign (mincrtime s) cr, maxcrtime := max_assign (maxcrtime s) cr,
     totcrtime := totcrtime s + (if have_statx then cr else 0)\<rparr>"

definition sumit_os :: "sum \<Rightarrow> int \<Rightarrow> int \<Rightarrow> int \<Rightarrow> int \<Rightarrow> int \<Rightarrow> sum" where
  "sumit_os s o1 o2 o3 o4 xattr_count = s\<lparr>
     minossint1 := min_assign (minossint1 s) o1, maxossint1 := max_assign (maxossint1 s) o1,
     totossint1 := totossint1 s + o1,
     minossint2 := min_assign (minossint2 s) o2, maxossint2 := max_assign (maxossint2 s) o2,
     totossint2 := totossint2 s + o2,
     minossint3 := min_assign (minossint3 s) o3, maxossint3 := max_assign (maxossint3 s) o3,
     totossint3 := totossint3 s + o3,
     minossint4 := min_assign (minossint4 s) o4, maxossint4 := max_assign (maxossint4 s) o4,
     totossint4 := totossint4 s + o4,
     totxattr := totxattr s + xattr_count\<rparr>"

definition sumit :: "bool \<Rightarrow> sum \<Rightarrow> work \<times> entry_data \<Rightarrow> sum" where
  "sumit have_statx s e =
     (case e of (w, ed) \<Rightarrow>
        let s1 = (if ed_type ed = CHR ''f'' then sumit_file s (size_of w) (blocks_of w) else s);
            s2 = (if ed_type ed = CHR ''l'' then s1\<lparr>totlinks := totlinks s1 + 1\<rparr> else s1);
            s3 = sumit_ids s2 (uid_of w) (gid_of w);
            s4 = sumit_times have_statx s3 (ctime_of w) (mtime_of w) (atime_of w) (crtime_of w)
        in sumit_os s4 (sint (ed_ossint1 ed)) (sint (ed_ossint2 ed)) (sint (ed_ossint3 ed))
             (sint (ed_ossint4 ed)) (int (xs_count (ed_xattrs ed))))"

section \<open>A summary into a tree summary\<close>

definition tsumit_subdirs :: "sum \<Rightarrow> sum \<Rightarrow> sum" where
  "tsumit_subdirs sumin smout =
     (let o1 = smout\<lparr>totsubdirs := totsubdirs smout + 1\<rparr> in
      if totsubdirs sumin > 0 then
        o1\<lparr>totsubdirs := totsubdirs o1 + totsubdirs sumin,
           maxsubdirfiles := max_assign (maxsubdirfiles o1) (maxsubdirfiles sumin),
           maxsubdirlinks := max_assign (maxsubdirlinks o1) (maxsubdirlinks sumin),
           maxsubdirsize := max_assign (maxsubdirsize o1) (maxsubdirsize sumin)\<rparr>
      else
        o1\<lparr>maxsubdirfiles := max_assign (maxsubdirfiles o1) (totfiles sumin),
           maxsubdirlinks := max_assign (maxsubdirlinks o1) (totlinks sumin),
           maxsubdirsize := max_assign (maxsubdirsize o1) (totsize sumin)\<rparr>)"

text \<open>The minima and maxima, and the times, which need a file in the directory.\<close>

definition tsumit_ranges :: "sum \<Rightarrow> sum \<Rightarrow> sum" where
  "tsumit_ranges sumin smout = smout\<lparr>
     minuid := min_assign (minuid smout) (minuid sumin), maxuid := max_assign (maxuid smout) (maxuid sumin),
     mingid := min_assign (mingid smout) (mingid sumin), maxgid := max_assign (maxgid smout) (maxgid sumin),
     minsize := min_assign (minsize smout) (minsize sumin), maxsize := max_assign (maxsize smout) (maxsize sumin),
     minblocks := min_assign (minblocks smout) (minblocks sumin), maxblocks := max_assign (maxblocks smout) (maxblocks sumin),
     minctime := min_assign (minctime smout) (minctime sumin), maxctime := max_assign (maxctime smout) (maxctime sumin),
     totctime := totctime smout + totctime sumin,
     minmtime := min_assign (minmtime smout) (minmtime sumin), maxmtime := max_assign (maxmtime smout) (maxmtime sumin),
     totmtime := totmtime smout + totmtime sumin,
     minatime := min_assign (minatime smout) (minatime sumin), maxatime := max_assign (maxatime smout) (maxatime sumin),
     totatime := totatime smout + totatime sumin,
     mincrtime := min_assign (mincrtime smout) (mincrtime sumin), maxcrtime := max_assign (maxcrtime smout) (maxcrtime sumin),
     totcrtime := totcrtime smout + totcrtime sumin,
     minossint1 := min_assign (minossint1 smout) (minossint1 sumin), maxossint1 := max_assign (maxossint1 smout) (maxossint1 sumin),
     minossint2 := min_assign (minossint2 smout) (minossint2 sumin), maxossint2 := max_assign (maxossint2 smout) (maxossint2 sumin),
     minossint3 := min_assign (minossint3 smout) (minossint3 sumin), maxossint3 := max_assign (maxossint3 smout) (maxossint3 sumin),
     minossint4 := min_assign (minossint4 smout) (minossint4 sumin), maxossint4 := max_assign (maxossint4 smout) (maxossint4 sumin)\<rparr>"

definition tsumit_totals :: "sum \<Rightarrow> sum \<Rightarrow> sum" where
  "tsumit_totals sumin smout = smout\<lparr>
     totblocks := totblocks smout + totblocks sumin,
     totzero := totzero smout + totzero sumin,
     totltk := totltk smout + totltk sumin,
     totmtk := totmtk smout + totmtk sumin,
     totltm := totltm smout + totltm sumin,
     totmtm := totmtm smout + totmtm sumin,
     totmtg := totmtg smout + totmtg sumin,
     totmtt := totmtt smout + totmtt sumin,
     totsize := totsize smout + totsize sumin,
     totxattr := totxattr smout + totxattr sumin,
     totossint1 := totossint1 smout + totossint1 sumin,
     totossint2 := totossint2 smout + totossint2 sumin,
     totossint3 := totossint3 smout + totossint3 sumin,
     totossint4 := totossint4 smout + totossint4 sumin,
     totextdbs := totextdbs smout + totextdbs sumin\<rparr>"

definition tsumit :: "sum \<Rightarrow> sum \<Rightarrow> sum" where
  "tsumit sumin smout =
     (let o1 = tsumit_subdirs sumin smout;
          o2 = o1\<lparr>totfiles := totfiles o1 + totfiles sumin, totlinks := totlinks o1 + totlinks sumin\<rparr>;
          o3 = (if totfiles sumin > 0 then tsumit_ranges sumin o2 else o2)
      in tsumit_totals sumin o3)"

section \<open>Facts\<close>

lemmas sumit_parts = sumit_def sumit_file_def sumit_ids_def sumit_times_def sumit_os_def

lemmas tsumit_parts = tsumit_def tsumit_subdirs_def tsumit_ranges_def tsumit_totals_def

text \<open>The summary of a directory, and the values its fields are made of.\<close>

definition dir_summary :: "bool \<Rightarrow> sum \<Rightarrow> (work \<times> entry_data) list \<Rightarrow> sum" where
  "dir_summary have_statx s es = foldl (sumit have_statx) s es"

definition files_of :: "(work \<times> entry_data) list \<Rightarrow> work list" where
  "files_of es = map fst (filter (\<lambda>e. ed_type (snd e) = CHR ''f'') es)"

definition count_if :: "('a \<Rightarrow> bool) \<Rightarrow> 'a list \<Rightarrow> int" where
  "count_if P xs = int (length (filter P xs))"

definition merge :: "sum \<Rightarrow> sum \<Rightarrow> sum" where
  "merge a b = \<lparr>totfiles = totfiles a + totfiles b, totlinks = totlinks a + totlinks b,
     minuid = min (minuid a) (minuid b), maxuid = max (maxuid a) (maxuid b),
     mingid = min (mingid a) (mingid b), maxgid = max (maxgid a) (maxgid b),
     minsize = min (minsize a) (minsize b), maxsize = max (maxsize a) (maxsize b),
     totzero = totzero a + totzero b, totltk = totltk a + totltk b,
     totmtk = totmtk a + totmtk b, totltm = totltm a + totltm b,
     totmtm = totmtm a + totmtm b, totmtg = totmtg a + totmtg b,
     totmtt = totmtt a + totmtt b, totsize = totsize a + totsize b,
     minctime = min (minctime a) (minctime b), maxctime = max (maxctime a) (maxctime b),
     totctime = totctime a + totctime b, minmtime = min (minmtime a) (minmtime b),
     maxmtime = max (maxmtime a) (maxmtime b), totmtime = totmtime a + totmtime b,
     minatime = min (minatime a) (minatime b), maxatime = max (maxatime a) (maxatime b),
     totatime = totatime a + totatime b, minblocks = min (minblocks a) (minblocks b),
     maxblocks = max (maxblocks a) (maxblocks b), totblocks = totblocks a + totblocks b,
     totxattr = totxattr a + totxattr b, totsubdirs = totsubdirs a + totsubdirs b,
     maxsubdirfiles = max (maxsubdirfiles a) (maxsubdirfiles b), maxsubdirlinks = max (maxsubdirlinks a) (maxsubdirlinks b),
     maxsubdirsize = max (maxsubdirsize a) (maxsubdirsize b), mincrtime = min (mincrtime a) (mincrtime b),
     maxcrtime = max (maxcrtime a) (maxcrtime b), totcrtime = totcrtime a + totcrtime b,
     minossint1 = min (minossint1 a) (minossint1 b), maxossint1 = max (maxossint1 a) (maxossint1 b),
     totossint1 = totossint1 a + totossint1 b, minossint2 = min (minossint2 a) (minossint2 b),
     maxossint2 = max (maxossint2 a) (maxossint2 b), totossint2 = totossint2 a + totossint2 b,
     minossint3 = min (minossint3 a) (minossint3 b), maxossint3 = max (maxossint3 a) (maxossint3 b),
     totossint3 = totossint3 a + totossint3 b, minossint4 = min (minossint4 a) (minossint4 b),
     maxossint4 = max (maxossint4 a) (maxossint4 b), totossint4 = totossint4 a + totossint4 b,
     totextdbs = totextdbs a + totextdbs b\<rparr>"

text \<open>The fields that start at a sentinel stay within it.\<close>

definition ranged :: "sum \<Rightarrow> bool" where
  "ranged s \<longleftrightarrow> minuid s \<le> LLONG_MAX \<and> mingid s \<le> LLONG_MAX \<and> minsize s \<le> LLONG_MAX \<and> minctime s \<le> LLONG_MAX \<and> minmtime s \<le> LLONG_MAX \<and> minatime s \<le> LLONG_MAX \<and> minblocks s \<le> LLONG_MAX \<and> mincrtime s \<le> LLONG_MAX \<and> minossint1 s \<le> LLONG_MAX \<and> minossint2 s \<le> LLONG_MAX \<and> minossint3 s \<le> LLONG_MAX \<and> minossint4 s \<le> LLONG_MAX
     \<and> LLONG_MIN \<le> maxuid s \<and> LLONG_MIN \<le> maxgid s \<and> LLONG_MIN \<le> maxsize s \<and> LLONG_MIN \<le> maxctime s \<and> LLONG_MIN \<le> maxmtime s \<and> LLONG_MIN \<le> maxatime s \<and> LLONG_MIN \<le> maxblocks s \<and> LLONG_MIN \<le> maxsubdirfiles s \<and> LLONG_MIN \<le> maxsubdirlinks s \<and> LLONG_MIN \<le> maxsubdirsize s \<and> LLONG_MIN \<le> maxcrtime s \<and> LLONG_MIN \<le> maxossint1 s \<and> LLONG_MIN \<le> maxossint2 s \<and> LLONG_MIN \<le> maxossint3 s \<and> LLONG_MIN \<le> maxossint4 s"

lemma ranged_zeroit: "ranged zeroit"
  by (simp add: ranged_def zeroit_def)

lemma merge_zeroit: "ranged s \<Longrightarrow> merge s zeroit = s"
  by (cases s) (simp add: merge_def zeroit_def ranged_def)

text \<open>Every part of \<open>sumit\<close> adds to the second summand.\<close>

lemma sumit_parts_merge:
  "sumit_file (merge s t) sz b = merge s (sumit_file t sz b)"
  "sumit_ids (merge s t) u g = merge s (sumit_ids t u g)"
  "sumit_times h (merge s t) c m a cr = merge s (sumit_times h t c m a cr)"
  "sumit_os (merge s t) o1 o2 o3 o4 x = merge s (sumit_os t o1 o2 o3 o4 x)"
  "(merge s t)\<lparr>totlinks := totlinks (merge s t) + 1\<rparr> = merge s (t\<lparr>totlinks := totlinks t + 1\<rparr>)"
  by (simp_all add: merge_def sumit_file_def sumit_ids_def sumit_times_def sumit_os_def
      min.assoc max.assoc add.assoc)

lemma sumit_merge: "sumit h (merge s t) e = merge s (sumit h t e)"
proof (cases e)
  case (Pair w ed)
  then show ?thesis
    by (cases "ed_type ed = CHR ''f''"; cases "ed_type ed = CHR ''l''")
      (simp_all only: sumit_def prod.case Let_def if_True if_False sumit_parts_merge simp_thms)
qed

lemma dir_summary_merge:
  "ranged s \<Longrightarrow> dir_summary have_statx s es = merge s (dir_summary have_statx zeroit es)"
  unfolding dir_summary_def
  by (induction es rule: rev_induct) (simp_all add: merge_zeroit sumit_merge)

definition clear_subdirs :: "sum \<Rightarrow> sum" where
  "clear_subdirs s = s\<lparr>totsubdirs := 0, maxsubdirfiles := LLONG_MIN, maxsubdirlinks := LLONG_MIN,
     maxsubdirsize := LLONG_MIN\<rparr>"

text \<open>What the parts of \<open>sumit\<close> do to the fields that the facts below are about.\<close>

lemma sumit_file_fields:
  "totsubdirs (sumit_file s sz b) = totsubdirs s"
  "maxsubdirfiles (sumit_file s sz b) = maxsubdirfiles s"
  "maxsubdirlinks (sumit_file s sz b) = maxsubdirlinks s"
  "maxsubdirsize (sumit_file s sz b) = maxsubdirsize s"
  "totextdbs (sumit_file s sz b) = totextdbs s"
  "totfiles (sumit_file s sz b) = totfiles s + 1"
  "totlinks (sumit_file s sz b) = totlinks s"
  "totsize (sumit_file s sz b) = totsize s + sz"
  "minsize (sumit_file s sz b) = min (minsize s) sz"
  "maxsize (sumit_file s sz b) = max (maxsize s) sz"
  "minuid (sumit_file s sz b) = minuid s"
  "maxuid (sumit_file s sz b) = maxuid s"
  by (simp_all add: sumit_file_def)

lemma sumit_ids_fields:
  "totsubdirs (sumit_ids s u g) = totsubdirs s"
  "maxsubdirfiles (sumit_ids s u g) = maxsubdirfiles s"
  "maxsubdirlinks (sumit_ids s u g) = maxsubdirlinks s"
  "maxsubdirsize (sumit_ids s u g) = maxsubdirsize s"
  "totextdbs (sumit_ids s u g) = totextdbs s"
  "totfiles (sumit_ids s u g) = totfiles s"
  "totlinks (sumit_ids s u g) = totlinks s"
  "totsize (sumit_ids s u g) = totsize s"
  "minsize (sumit_ids s u g) = minsize s"
  "maxsize (sumit_ids s u g) = maxsize s"
  "minuid (sumit_ids s u g) = min (minuid s) u"
  "maxuid (sumit_ids s u g) = max (maxuid s) u"
  by (simp_all add: sumit_ids_def)

lemma sumit_times_fields:
  "totsubdirs (sumit_times h s c m a cr) = totsubdirs s"
  "maxsubdirfiles (sumit_times h s c m a cr) = maxsubdirfiles s"
  "maxsubdirlinks (sumit_times h s c m a cr) = maxsubdirlinks s"
  "maxsubdirsize (sumit_times h s c m a cr) = maxsubdirsize s"
  "totextdbs (sumit_times h s c m a cr) = totextdbs s"
  "totfiles (sumit_times h s c m a cr) = totfiles s"
  "totlinks (sumit_times h s c m a cr) = totlinks s"
  "totsize (sumit_times h s c m a cr) = totsize s"
  "minsize (sumit_times h s c m a cr) = minsize s"
  "maxsize (sumit_times h s c m a cr) = maxsize s"
  "minuid (sumit_times h s c m a cr) = minuid s"
  "maxuid (sumit_times h s c m a cr) = maxuid s"
  by (simp_all add: sumit_times_def)

lemma sumit_os_fields:
  "totsubdirs (sumit_os s o1 o2 o3 o4 x) = totsubdirs s"
  "maxsubdirfiles (sumit_os s o1 o2 o3 o4 x) = maxsubdirfiles s"
  "maxsubdirlinks (sumit_os s o1 o2 o3 o4 x) = maxsubdirlinks s"
  "maxsubdirsize (sumit_os s o1 o2 o3 o4 x) = maxsubdirsize s"
  "totextdbs (sumit_os s o1 o2 o3 o4 x) = totextdbs s"
  "totfiles (sumit_os s o1 o2 o3 o4 x) = totfiles s"
  "totlinks (sumit_os s o1 o2 o3 o4 x) = totlinks s"
  "totsize (sumit_os s o1 o2 o3 o4 x) = totsize s"
  "minsize (sumit_os s o1 o2 o3 o4 x) = minsize s"
  "maxsize (sumit_os s o1 o2 o3 o4 x) = maxsize s"
  "minuid (sumit_os s o1 o2 o3 o4 x) = minuid s"
  "maxuid (sumit_os s o1 o2 o3 o4 x) = maxuid s"
  by (simp_all add: sumit_os_def)

lemmas sumit_part_fields = sumit_file_fields sumit_ids_fields sumit_times_fields sumit_os_fields

lemma sumit_subdirs:
  "totsubdirs (sumit h s e) = totsubdirs s" "maxsubdirfiles (sumit h s e) = maxsubdirfiles s"
  "maxsubdirlinks (sumit h s e) = maxsubdirlinks s" "maxsubdirsize (sumit h s e) = maxsubdirsize s"
  "totextdbs (sumit h s e) = totextdbs s"
  by (cases e; simp add: sumit_def sumit_part_fields Let_def)+

lemma dir_summary_subdirs:
  "totsubdirs (dir_summary h s es) = totsubdirs s"
  "maxsubdirfiles (dir_summary h s es) = maxsubdirfiles s"
  "maxsubdirlinks (dir_summary h s es) = maxsubdirlinks s"
  "maxsubdirsize (dir_summary h s es) = maxsubdirsize s"
  unfolding dir_summary_def by (induction es arbitrary: s) (simp_all add: sumit_subdirs)

lemma tsumit_clear:
  assumes "totsubdirs d = 0" and "0 < totfiles d"
    and "maxsubdirfiles d = LLONG_MIN" "maxsubdirlinks d = LLONG_MIN" "maxsubdirsize d = LLONG_MIN"
  shows "clear_subdirs (tsumit d out) = merge (clear_subdirs out) d"
proof -
  define o2 where "o2 = (tsumit_subdirs d out)\<lparr>totfiles := totfiles out + totfiles d,
    totlinks := totlinks out + totlinks d\<rparr>"
  have 1: "tsumit d out = tsumit_totals d (tsumit_ranges d o2)"
    using assms(1,2) by (simp add: tsumit_def o2_def Let_def tsumit_subdirs_def)
  have 2: "clear_subdirs (tsumit_totals d x) = tsumit_totals d (clear_subdirs x)"
    "clear_subdirs (tsumit_ranges d x) = tsumit_ranges d (clear_subdirs x)" for x
    by (simp_all add: clear_subdirs_def tsumit_totals_def tsumit_ranges_def)
  have 3: "clear_subdirs o2 = (clear_subdirs out)\<lparr>totfiles := totfiles out + totfiles d,
    totlinks := totlinks out + totlinks d\<rparr>"
    by (simp add: o2_def clear_subdirs_def tsumit_subdirs_def Let_def)
  show ?thesis
    unfolding 1 2 3
    by (rule sum.equality)
      (simp_all add: assms tsumit_totals_def tsumit_ranges_def merge_def clear_subdirs_def)
qed

lemma ranged_tsumit: "ranged out \<Longrightarrow> ranged (tsumit d out)"
proof -
  assume r: "ranged out"
  have 1: "ranged (tsumit_subdirs d out)"
    using r by (simp add: ranged_def tsumit_subdirs_def Let_def max.coboundedI1)
  have 2: "ranged (o1\<lparr>totfiles := a, totlinks := b\<rparr>)" if "ranged o1" for o1 a b
    using that by (simp add: ranged_def)
  have 3: "ranged (tsumit_ranges d o1)" if "ranged o1" for o1
    using that by (simp add: ranged_def tsumit_ranges_def min.coboundedI1 max.coboundedI1)
  have 4: "ranged (tsumit_totals d o1)" if "ranged o1" for o1
    using that by (simp add: ranged_def tsumit_totals_def)
  show ?thesis unfolding tsumit_def Let_def using 1 2 3 4 by simp
qed

lemma ranged_clear: "ranged out \<Longrightarrow> ranged (clear_subdirs out)"
  by (simp add: ranged_def clear_subdirs_def)

text \<open>Each field over the entries.\<close>

lemma sumit_fields:
  "totfiles (sumit h s e) = totfiles s + (if ed_type (snd e) = CHR ''f'' then 1 else 0)"
  "totlinks (sumit h s e) = totlinks s + (if ed_type (snd e) = CHR ''l'' then 1 else 0)"
  "totsize (sumit h s e) = totsize s + (if ed_type (snd e) = CHR ''f'' then size_of (fst e) else 0)"
  "minsize (sumit h s e) =
     (if ed_type (snd e) = CHR ''f'' then min (minsize s) (size_of (fst e)) else minsize s)"
  "maxsize (sumit h s e) =
     (if ed_type (snd e) = CHR ''f'' then max (maxsize s) (size_of (fst e)) else maxsize s)"
  "minuid (sumit h s e) = min (minuid s) (uid_of (fst e))"
  "maxuid (sumit h s e) = max (maxuid s) (uid_of (fst e))"
  by (cases e; simp add: sumit_def sumit_part_fields Let_def)+

lemma totfiles_dir:
  "totfiles (dir_summary h s es) = totfiles s + int (length (files_of es))"
  unfolding dir_summary_def files_of_def
  by (induction es arbitrary: s) (simp_all add: sumit_fields)

lemma totlinks_dir:
  "totlinks (dir_summary h s es) = totlinks s + count_if (\<lambda>e. ed_type (snd e) = CHR ''l'') es"
  unfolding dir_summary_def count_if_def
  by (induction es arbitrary: s) (simp_all add: sumit_fields)

lemma totsize_dir:
  "totsize (dir_summary h s es) = totsize s + sum_list (map size_of (files_of es))"
  unfolding dir_summary_def files_of_def
  by (induction es arbitrary: s) (simp_all add: sumit_fields)

lemma Min_insert_min: "finite A \<Longrightarrow> Min (insert (min a b) A) = Min (insert a (insert b A))"
  for a b :: int
  by (cases "A = {}") (simp_all add: min.assoc)

lemma Max_insert_max: "finite A \<Longrightarrow> Max (insert (max a b) A) = Max (insert a (insert b A))"
  for a b :: int
  by (cases "A = {}") (simp_all add: max.assoc)

lemma minsize_dir:
  "minsize (dir_summary h s es) = Min (insert (minsize s) (size_of ` set (files_of es)))"
  unfolding dir_summary_def files_of_def
  by (induction es arbitrary: s) (simp_all add: sumit_fields Min_insert_min del: Min_insert)

lemma maxsize_dir:
  "maxsize (dir_summary h s es) = Max (insert (maxsize s) (size_of ` set (files_of es)))"
  unfolding dir_summary_def files_of_def
  by (induction es arbitrary: s) (simp_all add: sumit_fields Max_insert_max del: Max_insert)

lemma minuid_dir: "minuid (dir_summary h s es) = Min (insert (minuid s) ((uid_of \<circ> fst) ` set es))"
  unfolding dir_summary_def
  by (induction es arbitrary: s) (simp_all add: sumit_fields Min_insert_min del: Min_insert)

lemma maxuid_dir: "maxuid (dir_summary h s es) = Max (insert (maxuid s) ((uid_of \<circ> fst) ` set es))"
  unfolding dir_summary_def
  by (induction es arbitrary: s) (simp_all add: sumit_fields Max_insert_max del: Max_insert)

lemma tsumit_dir:
  assumes "ranged out" and "files_of d \<noteq> []"
  shows "clear_subdirs (tsumit (dir_summary h zeroit d) out) = dir_summary h (clear_subdirs out) d"
proof -
  have "0 < totfiles (dir_summary h zeroit d)"
    using assms(2) by (simp add: totfiles_dir zeroit_def)
  then have "clear_subdirs (tsumit (dir_summary h zeroit d) out) =
      merge (clear_subdirs out) (dir_summary h zeroit d)"
    by (intro tsumit_clear) (simp_all add: dir_summary_subdirs zeroit_def)
  also have "\<dots> = dir_summary h (clear_subdirs out) d"
    using dir_summary_merge [OF ranged_clear [OF assms(1)]] by simp
  finally show ?thesis .
qed

lemma dir_summary_append: "dir_summary h s (xs @ ys) = dir_summary h (dir_summary h s xs) ys"
  by (simp add: dir_summary_def)

lemma foldl_tsumit_dirs:
  "\<forall>d \<in> set ds. files_of d \<noteq> [] \<Longrightarrow> ranged out \<Longrightarrow>
   clear_subdirs (foldl (\<lambda>out d. tsumit (dir_summary h zeroit d) out) out ds) =
     dir_summary h (clear_subdirs out) (concat ds)"
proof (induction ds arbitrary: out)
  case (Cons d ds)
  then show ?case
    using tsumit_dir [of out d h] ranged_tsumit [of out "dir_summary h zeroit d"]
    by (simp add: dir_summary_append)
qed (simp add: dir_summary_def)

lemma clear_zeroit: "clear_subdirs zeroit = zeroit"
  by (simp add: clear_subdirs_def zeroit_def)

lemma tsumit_subdir_fields:
  "totsubdirs d = 0 \<Longrightarrow> totsubdirs (tsumit d out) = totsubdirs out + 1"
  "totsubdirs d = 0 \<Longrightarrow> maxsubdirfiles (tsumit d out) = max (maxsubdirfiles out) (totfiles d)"
  by (simp_all add: tsumit_parts Let_def)

lemma foldl_tsumit_subdirs:
  "totsubdirs (foldl (\<lambda>out d. tsumit (dir_summary h zeroit d) out) out ds) = totsubdirs out + int (length ds)"
  "maxsubdirfiles (foldl (\<lambda>out d. tsumit (dir_summary h zeroit d) out) out ds) =
     Max (insert (maxsubdirfiles out) ((\<lambda>d. int (length (files_of d))) ` set ds))"
proof (induction ds arbitrary: out)
  case (Cons d ds)
  have z: "totsubdirs (dir_summary h zeroit d) = 0"
      "totfiles (dir_summary h zeroit d) = int (length (files_of d))"
    by (simp_all add: dir_summary_subdirs totfiles_dir zeroit_def)
  { case 1 show ?case by (simp add: Cons tsumit_subdir_fields z) }
  { case 2 show ?case by (simp add: Cons tsumit_subdir_fields z Max_insert_max del: Max_insert) }
qed simp_all

section \<open>Properties\<close>

text \<open>
  The summary \<open>sumit\<close> builds from any sequence of entries has the number of files and of
  links, the sum, the least and the greatest of the file sizes, and the least and the greatest
  owner of all entries; a range over nothing is the sentinel of \<open>zeroit\<close>.
\<close>
theorem dir_summary_counts:
  "let s = dir_summary h zeroit es in
   totfiles s = int (length (files_of es))
   \<and> totlinks s = count_if (\<lambda>e. ed_type (snd e) = CHR ''l'') es
   \<and> totsize s = sum_list (map size_of (files_of es))
   \<and> minsize s = Min (insert LLONG_MAX (size_of ` set (files_of es)))
   \<and> maxsize s = Max (insert LLONG_MIN (size_of ` set (files_of es)))
   \<and> minuid s = Min (insert LLONG_MAX ((uid_of \<circ> fst) ` set es))
   \<and> maxuid s = Max (insert LLONG_MIN ((uid_of \<circ> fst) ` set es))"
  unfolding Let_def totfiles_dir totlinks_dir totsize_dir minsize_dir maxsize_dir minuid_dir maxuid_dir
  by (simp add: zeroit_def)

text \<open>
  C17: The tree summary of directories that all have a file, added up with \<open>tsumit\<close>, is in every
  field but the four about subdirectories the summary of all their entries together; the
  subdirectory count is the number of directories, \<open>maxsubdirfiles\<close> the largest file count.
\<close>
theorem tree_summary_is_flat_summary:
  fixes h :: bool
  assumes "\<forall>d \<in> set ds. files_of d \<noteq> []"
  defines "t \<equiv> foldl (\<lambda>out d. tsumit (dir_summary h zeroit d) out) zeroit ds"
  shows "clear_subdirs t = dir_summary h zeroit (concat ds)
    \<and> totsubdirs t = int (length ds)
    \<and> maxsubdirfiles t = Max (insert LLONG_MIN ((\<lambda>d. int (length (files_of d))) ` set ds))"
  unfolding t_def foldl_tsumit_subdirs
  using foldl_tsumit_dirs [OF assms(1) ranged_zeroit] clear_zeroit by (simp add: zeroit_def)

definition sample_file :: "work \<times> entry_data" where
  "sample_file = (sample_work, sample_entry\<lparr>ed_type := CHR ''f''\<rparr>)"

lemma tree_summary_is_flat_summary_witness:
  "clear_subdirs (foldl (\<lambda>out d. tsumit (dir_summary True zeroit d) out) zeroit
      [[sample_file], [sample_file, (sample_work, sample_entry)]])
   = dir_summary True zeroit [sample_file, sample_file, (sample_work, sample_entry)]"
  using tree_summary_is_flat_summary [of "[[sample_file], [sample_file, (sample_work, sample_entry)]]" True]
  by (simp add: files_of_def sample_file_def)

text \<open>
  A directory without files leaves every range and the four time totals of the tree summary
  as they were, although its links are counted, and \<open>sumit\<close> had put their owners and times
  into the directory's summary: for links alone tree and flat summary differ.
\<close>
theorem tsumit_drops_link_directories:
  fixes h :: bool
  assumes "files_of d = []"
  defines "s \<equiv> dir_summary h zeroit d"
  shows "minuid (tsumit s out) = minuid out \<and> maxuid (tsumit s out) = maxuid out
    \<and> totctime (tsumit s out) = totctime out \<and> totmtime (tsumit s out) = totmtime out
    \<and> totatime (tsumit s out) = totatime out \<and> totcrtime (tsumit s out) = totcrtime out
    \<and> totlinks (tsumit s out) = totlinks out + count_if (\<lambda>e. ed_type (snd e) = CHR ''l'') d"
proof -
  have "totfiles s = 0" "totlinks s = count_if (\<lambda>e. ed_type (snd e) = CHR ''l'') d"
    using assms(1) by (simp_all add: s_def totfiles_dir totlinks_dir zeroit_def)
  then show ?thesis by (simp add: tsumit_parts Let_def)
qed

lemma tsumit_drops_link_directories_witness:
  "minuid (tsumit (dir_summary True zeroit [(sample_work, sample_entry)]) zeroit) = LLONG_MAX
   \<and> minuid (dir_summary True zeroit [(sample_work, sample_entry)]) = 0"
  using tsumit_drops_link_directories [of "[(sample_work, sample_entry)]" True zeroit]
  by (simp add: files_of_def minuid_dir zeroit_def LLONG_MAX_def uid_of_def sample_work_def
      sample_entry_def stat0_def)

end
