(* ===== verification/Swap.thy ===== *)
theory Swap
  imports Prelude
begin

text \<open>
  The swap files of a pool thread, \<open>src/src/swap.c\<close>, and the routines of
  \<open>src/src/QueuePerThreadPool.c\<close> that write and read one work item.  Swap files are removed from
  the file system when they are opened, so a descriptor is modelled by what it refers to: the
  items written to the file, and where in them the descriptor is.  Whether \<open>open\<close> and \<open>lseek\<close>
  succeed is a parameter, and so are the functions the user gives for items: \<open>ser w\<close> is the size
  that serializing \<open>w\<close> wrote, or \<open>None\<close> for an error.
\<close>

section \<open>Data\<close>

type_synonym 'w swapfd = "('w list \<times> nat) option"

record 'w SwapFile =
  sf_fd :: "'w swapfd"
  sf_count :: nat
  sf_size :: nat

record 'w Swap =
  sw_prefix :: "string option"
  sw_id :: nat
  sw_write :: "'w SwapFile"
  sw_read :: "'w SwapFile"
  sw_total_count :: nat
  sw_total_size :: nat

definition no_file :: "'w SwapFile" where
  "no_file = \<lparr>sf_fd = None, sf_count = 0, sf_size = 0\<rparr>"

section \<open>Operations of swap.c\<close>

definition swap_open :: "bool \<Rightarrow> 'w swapfd" where
  "swap_open can_open = (if can_open then Some ([], 0) else None)"

definition swap_init :: "'w Swap" where
  "swap_init = \<lparr>sw_prefix = None, sw_id = 0, sw_write = no_file, sw_read = no_file,
     sw_total_count = 0, sw_total_size = 0\<rparr>"

definition swap_destroy :: "'w Swap \<Rightarrow> 'w Swap" where
  "swap_destroy s = swap_init"

definition swap_start :: "bool \<Rightarrow> 'w Swap \<Rightarrow> string option \<Rightarrow> nat \<Rightarrow> int \<times> 'w Swap" where
  "swap_start can_open s prefix i =
     (if prefix = None then (1, s)
      else
        let s1 = s\<lparr>sw_prefix := prefix, sw_id := i,
                   sw_write := \<lparr>sf_fd = swap_open can_open, sf_count = 0, sf_size = 0\<rparr>\<rparr>
        in if sf_fd (sw_write s1) = None then (1, swap_destroy s1) else (0, s1))"

text \<open>
  The write descriptor is closed and keeps its number, which \<open>swap_start\<close> replaces unless there
  is no prefix; a closed descriptor, as no descriptor, refers to nothing.
\<close>

definition swap_restart :: "bool \<Rightarrow> 'w Swap \<Rightarrow> string option \<Rightarrow> nat \<Rightarrow> int \<times> 'w Swap" where
  "swap_restart can_open s prefix i =
     swap_start can_open (s\<lparr>sw_write := (sw_write s)\<lparr>sf_fd := None\<rparr>\<rparr>) prefix i"

definition swap_read_prep :: "bool \<Rightarrow> bool \<Rightarrow> 'w Swap \<Rightarrow> int \<times> 'w Swap" where
  "swap_read_prep can_open can_seek s =
     (let s1 = s\<lparr>sw_read := no_file\<rparr> in
      if sf_count (sw_write s1) = 0 then (1, s1)
      else
        let s2 = s1\<lparr>sw_read := sw_write s1\<rparr>;
            s3 = s2\<lparr>sw_write := \<lparr>sf_fd = swap_open can_open, sf_count = 0, sf_size = 0\<rparr>\<rparr>
        in case sf_fd (sw_read s3) of
             None \<Rightarrow> (1, s3)
           | Some (items, pos) \<Rightarrow>
               if \<not> can_seek then (1, s3)
               else
                 let s4 = s3\<lparr>sw_read := (sw_read s3)\<lparr>sf_fd := Some (items, 0)\<rparr>\<rparr>
                 in (if sf_fd (sw_write s4) = None then 1 else 0, s4))"

definition swap_read_done :: "'w Swap \<Rightarrow> 'w Swap" where
  "swap_read_done s = s\<lparr>sw_read := no_file\<rparr>"

definition swap_stop :: "'w Swap \<Rightarrow> 'w Swap" where
  "swap_stop s =
     (let s1 = (if sf_fd (sw_read s) \<noteq> None then s\<lparr>sw_read := (sw_read s)\<lparr>sf_fd := None\<rparr>\<rparr> else s)
      in if sf_fd (sw_write s1) \<noteq> None then s1\<lparr>sw_write := (sw_write s1)\<lparr>sf_fd := None\<rparr>\<rparr> else s1)"

section \<open>One work item\<close>

text \<open>
  \<open>write_swap\<close> puts two function pointers of 8 bytes and what the user's function writes behind
  the descriptor's position; an error puts the position back, so that what was written is
  overwritten by the next item; left behind the last item it is taken not to be readable.
\<close>

definition write_swap :: "('w \<Rightarrow> nat option) \<Rightarrow> 'w Swap \<Rightarrow> 'w \<Rightarrow> int \<times> 'w Swap" where
  "write_swap ser s w =
     (case sf_fd (sw_write s) of
        None \<Rightarrow> (1, s)
      | Some (items, pos) \<Rightarrow>
          (case ser w of
             None \<Rightarrow> (1, s\<lparr>sw_write := (sw_write s)\<lparr>sf_fd := Some (take pos items, pos)\<rparr>\<rparr>)
           | Some user_size \<Rightarrow>
               let written = 8 + 8 + user_size
               in (0, s\<lparr>sw_write := \<lparr>sf_fd = Some (take pos items @ [w], pos + 1),
                                     sf_count = sf_count (sw_write s) + 1,
                                     sf_size = sf_size (sw_write s) + written\<rparr>,
                        sw_total_count := sw_total_count s + 1,
                        sw_total_size := sw_total_size s + written\<rparr>)))"

text \<open>\<open>deser w\<close> tells whether the user's function can read the item back.\<close>

definition read_swap :: "('w \<Rightarrow> bool) \<Rightarrow> 'w Swap \<Rightarrow> 'w option \<times> 'w Swap" where
  "read_swap deser s =
     (case sf_fd (sw_read s) of
        None \<Rightarrow> (None, s)
      | Some (items, pos) \<Rightarrow>
          if pos < length items \<and> deser (items ! pos)
          then (Some (items ! pos), s\<lparr>sw_read := (sw_read s)\<lparr>sf_fd := Some (items, pos + 1)\<rparr>\<rparr>)
          else (None, s))"

section \<open>Facts\<close>

text \<open>A write file in use: its descriptor is behind the items it counts.\<close>

definition write_ok :: "'w SwapFile \<Rightarrow> 'w list \<Rightarrow> bool" where
  "write_ok f items \<longleftrightarrow> sf_fd f = Some (items, length items) \<and> sf_count f = length items"

fun write_all :: "('w \<Rightarrow> nat option) \<Rightarrow> 'w Swap \<Rightarrow> 'w list \<Rightarrow> 'w Swap" where
  "write_all ser s [] = s"
| "write_all ser s (w # ws) = write_all ser (snd (write_swap ser s w)) ws"

fun read_n :: "('w \<Rightarrow> bool) \<Rightarrow> 'w Swap \<Rightarrow> nat \<Rightarrow> 'w list \<times> 'w Swap" where
  "read_n deser s 0 = ([], s)"
| "read_n deser s (Suc n) =
     (case read_swap deser s of
        (None, s') \<Rightarrow> ([], s')
      | (Some w, s') \<Rightarrow> (let (ws, s'') = read_n deser s' n in (w # ws, s'')))"

lemma write_all_ok:
  "write_ok (sw_write s) items \<Longrightarrow> \<forall>w \<in> set ws. ser w \<noteq> None \<Longrightarrow>
   write_ok (sw_write (write_all ser s ws)) (items @ ws)
   \<and> sw_read (write_all ser s ws) = sw_read s
   \<and> sw_total_count (write_all ser s ws) = sw_total_count s + length ws"
proof (induction ws arbitrary: s items)
  case (Cons w ws)
  obtain n where n: "ser w = Some n" using Cons.prems(2) by auto
  have "write_ok (sw_write (snd (write_swap ser s w))) (items @ [w])"
    using Cons.prems(1) n by (simp add: write_ok_def write_swap_def Let_def)
  moreover have "sw_read (snd (write_swap ser s w)) = sw_read s"
    "sw_total_count (snd (write_swap ser s w)) = sw_total_count s + 1"
    using Cons.prems(1) n by (simp_all add: write_ok_def write_swap_def Let_def)
  ultimately show ?case
    using Cons.IH [of "snd (write_swap ser s w)" "items @ [w]"] Cons.prems(2) by simp
qed simp

lemma read_n_items:
  "sf_fd (sw_read s) = Some (items, pos) \<Longrightarrow> \<forall>w \<in> set items. deser w \<Longrightarrow>
   fst (read_n deser s n) = take n (drop pos items)
   \<and> sw_write (snd (read_n deser s n)) = sw_write s"
proof (induction n arbitrary: s pos)
  case (Suc n)
  show ?case
  proof (cases "pos < length items")
    case True
    then have d: "deser (items ! pos)" using Suc.prems(2) by simp
    have "drop pos items = items ! pos # drop (Suc pos) items"
      using True by (simp add: Cons_nth_drop_Suc)
    then show ?thesis
      using True d Suc.prems
        Suc.IH [of "s\<lparr>sw_read := (sw_read s)\<lparr>sf_fd := Some (items, pos + 1)\<rparr>\<rparr>" "pos + 1"]
      by (simp add: read_swap_def split_beta)
  qed (use Suc.prems in \<open>simp add: read_swap_def\<close>)
qed simp

section \<open>Properties\<close>

text \<open>
  C30: Items written to a thread's swap file come back from it in the same order, each once, however
  many are asked for, after the file was made the read file; items written in the meantime go
  to a new file and are not among them.
\<close>
theorem swap_reads_what_was_written:
  assumes "write_ok (sw_write s) []" and "ws \<noteq> []" and "\<forall>w \<in> set ws. ser w \<noteq> None"
    and "\<forall>w \<in> set ws. deser w" and "\<forall>w \<in> set later. ser w \<noteq> None"
  shows "\<exists>s'. swap_read_prep True True (write_all ser s ws) = (0, s')
    \<and> fst (read_n deser (write_all ser s' later) n) = take n ws
    \<and> write_ok (sw_write (snd (read_n deser (write_all ser s' later) n))) later"
proof -
  have w: "write_ok (sw_write (write_all ser s ws)) ws"
    using write_all_ok [OF assms(1,3)] by simp
  obtain s' where s': "swap_read_prep True True (write_all ser s ws) = (0, s')"
    "sf_fd (sw_read s') = Some (ws, 0)" "write_ok (sw_write s') []"
    using w assms(2) by (simp add: write_ok_def swap_read_prep_def swap_open_def Let_def)
  have m: "write_ok (sw_write (write_all ser s' later)) later"
    "sw_read (write_all ser s' later) = sw_read s'"
    using write_all_ok [OF s'(3) assms(5)] by simp_all
  have "fst (read_n deser (write_all ser s' later) n) = take n (drop 0 ws)
      \<and> sw_write (snd (read_n deser (write_all ser s' later) n)) = sw_write (write_all ser s' later)"
    by (rule read_n_items) (use m(2) s'(2) assms(4) in auto)
  then show ?thesis using s'(1) m(1) by auto
qed

lemma swap_reads_what_was_written_witness:
  "\<exists>s'. swap_read_prep True True
      (write_all (\<lambda>_. Some 1) (snd (swap_start True swap_init (Some ''p'') 0)) [1, 2, 3::nat]) = (0, s')
    \<and> fst (read_n (\<lambda>_. True) (write_all (\<lambda>_. Some 1) s' [4]) 9) = [1, 2, 3]"
  using swap_reads_what_was_written [of "snd (swap_start True swap_init (Some ''p'') 0)" "[1, 2, 3::nat]"
      "\<lambda>_. Some 1" "\<lambda>_. True" "[4]" 9]
  by (auto simp: swap_start_def swap_init_def swap_open_def write_ok_def Let_def)

end
