(* ===== verification/Pool.thy ===== *)
theory Pool
  imports Swap Sll
begin

text \<open>
  The thread pool, \<open>src/src/QueuePerThreadPool.c\<close>, as built with swapping.  The queues are the
  sequences that \<open>Sll\<close> shows its lists to hold (\<open>sll_push_back\<close> appends, \<open>sll_pop_front\<close> takes the
  head, \<open>sll_move_append_first\<close> moves a prefix, \<open>sll_move_append\<close> everything).  A work item is a
  \<open>job\<close>: a function of the user's with its argument, or the pool's own reader of swap files.
  What a critical section of the code does is one function here; \<open>PoolSteps\<close> interleaves them.
\<close>

section \<open>State\<close>

datatype 'w job = User 'w | SwapReader \<comment> \<open>\<open>QPTPool_wait_swapped_once\<close>\<close>

datatype pool_state = INITIALIZED | RUNNING | STOPPING

datatype enqueue_dst = ENQUEUE_ERROR | ENQUEUE_WAIT | ENQUEUE_SWAP

record 'w thread =
  th_claimed :: "'w job list"
  th_waiting :: "'w job list"
  th_swap :: "'w job Swap"
  th_next_queue :: nat
  th_steal_from :: nat
  th_started :: nat
  th_successful :: nat

record 'w pool =
  p_nthreads :: nat
  p_queue_limit :: nat
  p_swap_prefix :: "string option"
  p_steal_num :: nat
  p_steal_denom :: nat
  p_stop_on_error :: bool
  p_errored :: bool
  p_state :: pool_state
  p_incomplete :: nat
  p_swapped :: nat
  p_data :: "'w thread list"

text \<open>
  \<open>next.func(id, prev, threads, work)\<close> is a parameter, \<open>QPTPool_round_robin\<close> the default.  A result
  that is no thread's index makes the code leave the array.
\<close>

type_synonym 'w next_func = "nat \<Rightarrow> nat \<Rightarrow> nat \<Rightarrow> 'w job \<Rightarrow> nat"

definition QPTPool_round_robin :: "'w next_func" where
  "QPTPool_round_robin i prev threads work = (let n = prev + 1 in if n = threads then 0 else n)"

definition upd :: "'w pool \<Rightarrow> nat \<Rightarrow> ('w thread \<Rightarrow> 'w thread) \<Rightarrow> 'w pool" where
  "upd p i f = p\<lparr>p_data := (p_data p)[i := f (p_data p ! i)]\<rparr>"

section \<open>Setting up\<close>

definition new_thread :: "nat \<Rightarrow> 'w thread" where
  "new_thread i = \<lparr>th_claimed = [], th_waiting = [], th_swap = swap_init, th_next_queue = i,
     th_steal_from = i, th_started = 0, th_successful = 0\<rparr>"

text \<open>
  \<open>QPTPool_init_with_props\<close>, its allocations succeeding; \<open>can_open i\<close> tells whether thread \<open>i\<close>'s
  swap file can be opened.  \<open>None\<close> is the null result.
\<close>

definition QPTPool_init_with_props ::
    "(nat \<Rightarrow> bool) \<Rightarrow> nat \<Rightarrow> nat \<Rightarrow> string option \<Rightarrow> nat \<Rightarrow> nat \<Rightarrow> bool \<Rightarrow> 'w pool option" where
  "QPTPool_init_with_props can_open nthreads queue_limit swap_prefix steal_num steal_denom stop_on_error =
     (if nthreads = 0 then None
      else
        let starts = map (\<lambda>i. if queue_limit \<noteq> 0 then swap_start (can_open i) swap_init swap_prefix i
                              else (0, swap_init)) [0..<nthreads]
        in if \<exists>r \<in> set starts. fst r \<noteq> 0 then None
           else Some \<lparr>p_nthreads = nthreads, p_queue_limit = queue_limit, p_swap_prefix = swap_prefix,
                  p_steal_num = steal_num, p_steal_denom = steal_denom,
                  p_stop_on_error = stop_on_error, p_errored = False, p_state = INITIALIZED,
                  p_incomplete = 0, p_swapped = 0,
                  p_data = map (\<lambda>i. (new_thread i)\<lparr>th_swap := snd (starts ! i)\<rparr>) [0..<nthreads]\<rparr>)"

definition QPTPool_init :: "nat \<Rightarrow> 'w pool option" where
  "QPTPool_init nthreads = QPTPool_init_with_props (\<lambda>_. True) nthreads 0 (Some []) 0 0 False"

text \<open>The setters refuse a null context and a pool that was started.\<close>

definition when_initialized ::
    "'w pool option \<Rightarrow> ('w pool \<Rightarrow> int \<times> 'w pool) \<Rightarrow> int \<times> 'w pool option" where
  "when_initialized ctx f =
     (case ctx of
        None \<Rightarrow> (1, None)
      | Some p \<Rightarrow> if p_state p \<noteq> INITIALIZED then (1, Some p) else map_prod id Some (f p))"

definition restart_swaps :: "(nat \<Rightarrow> bool) \<Rightarrow> 'w pool \<Rightarrow> int \<times> 'w pool" where
  "restart_swaps can_open p =
     (if p_queue_limit p \<noteq> 0 then
        let rs = map (\<lambda>i. swap_restart (can_open i) (th_swap (p_data p ! i)) (p_swap_prefix p) i)
                   [0..<p_nthreads p]
        in (if \<exists>r \<in> set rs. fst r \<noteq> 0 then 1 else 0,
            p\<lparr>p_data := map (\<lambda>i. (p_data p ! i)\<lparr>th_swap := snd (rs ! i)\<rparr>) [0..<p_nthreads p]\<rparr>)
      else (0, p))"

definition QPTPool_set_queue_limit ::
    "(nat \<Rightarrow> bool) \<Rightarrow> 'w pool option \<Rightarrow> nat \<Rightarrow> int \<times> 'w pool option" where
  "QPTPool_set_queue_limit can_open ctx queue_limit =
     when_initialized ctx (\<lambda>p.
       restart_swaps can_open
         (p\<lparr>p_data := map (\<lambda>t. t\<lparr>th_swap := swap_stop (th_swap t)\<rparr>) (p_data p),
            p_swapped := 0, p_queue_limit := queue_limit\<rparr>))"

definition QPTPool_set_swap_prefix ::
    "(nat \<Rightarrow> bool) \<Rightarrow> 'w pool option \<Rightarrow> string option \<Rightarrow> int \<times> 'w pool option" where
  "QPTPool_set_swap_prefix can_open ctx prefix =
     when_initialized ctx (\<lambda>p. restart_swaps can_open (p\<lparr>p_swapped := 0, p_swap_prefix := prefix\<rparr>))"

definition QPTPool_set_steal :: "'w pool option \<Rightarrow> nat \<Rightarrow> nat \<Rightarrow> int \<times> 'w pool option" where
  "QPTPool_set_steal ctx num denom =
     when_initialized ctx (\<lambda>p. (0, p\<lparr>p_steal_num := num, p_steal_denom := denom\<rparr>))"

definition QPTPool_set_stop_on_error :: "'w pool option \<Rightarrow> int \<times> 'w pool option" where
  "QPTPool_set_stop_on_error ctx = when_initialized ctx (\<lambda>p. (0, p\<lparr>p_stop_on_error := True\<rparr>))"

section \<open>Enqueueing\<close>

text \<open>
  The first critical section: the thread to push to, and the caller's next one.  \<open>None\<close> is a
  thread outside of the array; the inner \<open>None\<close> is the refusal after an error.
\<close>

definition pick_queue :: "'w next_func \<Rightarrow> 'w pool \<Rightarrow> nat \<Rightarrow> 'w job \<Rightarrow> (nat \<times> 'w pool) option option" where
  "pick_queue nxt p i w =
     (if p_stop_on_error p \<and> p_errored p then Some None
      else
        let t = th_next_queue (p_data p ! i)
        in if p_nthreads p \<le> t then None
           else Some (Some (t, upd p i (\<lambda>d. d\<lparr>th_next_queue := nxt i t (p_nthreads p) w\<rparr>))))"

text \<open>The second one.\<close>

definition push_wait :: "'w pool \<Rightarrow> nat \<Rightarrow> 'w job \<Rightarrow> 'w pool" where
  "push_wait p t w =
     (upd p t (\<lambda>d. d\<lparr>th_waiting := th_waiting d @ [w]\<rparr>))\<lparr>p_incomplete := p_incomplete p + 1\<rparr>"

definition push_swap :: "('w job \<Rightarrow> nat option) \<Rightarrow> 'w pool \<Rightarrow> nat \<Rightarrow> 'w job \<Rightarrow> enqueue_dst \<times> 'w pool" where
  "push_swap ser p t w =
     (case write_swap ser (th_swap (p_data p ! t)) w of
        (rc, s) \<Rightarrow>
          if rc = 0
          then (ENQUEUE_SWAP, (upd p t (\<lambda>d. d\<lparr>th_swap := s\<rparr>))\<lparr>p_swapped := p_swapped p + 1\<rparr>)
          else (ENQUEUE_ERROR, upd p t (\<lambda>d. d\<lparr>th_swap := s\<rparr>)))"

definition push_swappable :: "('w job \<Rightarrow> nat option) \<Rightarrow> 'w pool \<Rightarrow> nat \<Rightarrow> 'w job \<Rightarrow> enqueue_dst \<times> 'w pool" where
  "push_swappable ser p t w =
     (if p_queue_limit p = 0 \<or> length (th_waiting (p_data p ! t)) < p_queue_limit p
      then (ENQUEUE_WAIT, push_wait p t w)
      else push_swap ser p t w)"

definition QPTPool_enqueue ::
    "'w next_func \<Rightarrow> 'w pool \<Rightarrow> nat \<Rightarrow> 'w job \<Rightarrow> (enqueue_dst \<times> 'w pool) option" where
  "QPTPool_enqueue nxt p i w =
     (case pick_queue nxt p i w of
        None \<Rightarrow> None
      | Some None \<Rightarrow> Some (ENQUEUE_ERROR, p)
      | Some (Some (t, p')) \<Rightarrow> Some (ENQUEUE_WAIT, push_wait p' t w))"

definition QPTPool_enqueue_swappable ::
    "'w next_func \<Rightarrow> ('w job \<Rightarrow> nat option) \<Rightarrow> 'w pool \<Rightarrow> nat \<Rightarrow> 'w job \<Rightarrow> (enqueue_dst \<times> 'w pool) option" where
  "QPTPool_enqueue_swappable nxt ser p i w =
     (case pick_queue nxt p i w of
        None \<Rightarrow> None
      | Some None \<Rightarrow> Some (ENQUEUE_ERROR, p)
      | Some (Some (t, p')) \<Rightarrow> Some (push_swappable ser p' t w))"

definition QPTPool_enqueue_here ::
    "('w job \<Rightarrow> nat option) \<Rightarrow> 'w pool \<Rightarrow> nat \<Rightarrow> enqueue_dst \<Rightarrow> 'w job \<Rightarrow> enqueue_dst \<times> 'w pool" where
  "QPTPool_enqueue_here ser p i queue w =
     (if queue = ENQUEUE_ERROR then (ENQUEUE_ERROR, p)
      else if p_stop_on_error p \<and> p_errored p then (ENQUEUE_ERROR, p)
      else if queue = ENQUEUE_WAIT then (queue, push_wait p i w)
      else push_swap ser p i w)"

section \<open>Stealing\<close>

text \<open>The products and quotients are of 64 bit integers.\<close>

definition take_count :: "nat \<Rightarrow> nat \<Rightarrow> nat \<Rightarrow> nat" where
  "take_count sz num denom = max (sz * num mod 2 ^ 64 div denom) 1"

text \<open>
  \<open>steal\<close> over the neighbours in the order the loop visits them.  \<open>queue\<close> and \<open>set_queue\<close> are
  the array of queues it looks at, \<open>locked\<close> tells whose mutex \<open>trylock\<close> finds taken.  \<open>None\<close> is
  a division by zero.
\<close>

fun steal_loop ::
    "('w thread \<Rightarrow> 'w job list) \<Rightarrow> ('w job list \<Rightarrow> 'w thread \<Rightarrow> 'w thread) \<Rightarrow> (nat \<Rightarrow> bool)
     \<Rightarrow> nat \<Rightarrow> nat list \<Rightarrow> 'w pool \<Rightarrow> (nat \<times> 'w pool) option" where
  "steal_loop queue set_queue locked i [] p = Some (0, p)"
| "steal_loop queue set_queue locked i (c # cs) p =
     (if c = i \<or> locked c \<or> queue (p_data p ! c) = []
      then steal_loop queue set_queue locked i cs p
      else if p_steal_denom p = 0 then None
      else
        let neighbor_work = queue (p_data p ! c);
            n = take_count (length neighbor_work) (p_steal_num p) (p_steal_denom p);
            p1 = upd p c (set_queue (drop n neighbor_work));
            p2 = upd p1 i (\<lambda>d. d\<lparr>th_waiting := th_waiting d @ take n neighbor_work\<rparr>)
        in Some (length (th_waiting (p_data p2 ! i)), p2))"

definition visit :: "'w pool \<Rightarrow> nat \<Rightarrow> nat list" where
  "visit p start = map (\<lambda>k. (start + k) mod p_nthreads p) [0..<p_nthreads p]"

definition steal_waiting :: "(nat \<Rightarrow> bool) \<Rightarrow> 'w pool \<Rightarrow> nat \<Rightarrow> nat \<Rightarrow> (nat \<times> 'w pool) option" where
  "steal_waiting locked p i start =
     steal_loop th_waiting (\<lambda>q d. d\<lparr>th_waiting := q\<rparr>) locked i (visit p start) p"

definition steal_claimed :: "(nat \<Rightarrow> bool) \<Rightarrow> 'w pool \<Rightarrow> nat \<Rightarrow> nat \<Rightarrow> (nat \<times> 'w pool) option" where
  "steal_claimed locked p i start =
     steal_loop th_claimed (\<lambda>q d. d\<lparr>th_claimed := q\<rparr>) locked i (visit p start) p"

definition maybe_steal_work ::
    "(nat \<Rightarrow> bool) \<Rightarrow> (nat \<Rightarrow> bool) \<Rightarrow> 'w pool \<Rightarrow> nat \<Rightarrow> 'w pool option" where
  "maybe_steal_work locked claimed_locked p i =
     (let tw = p_data p ! i in
      if p_steal_num p = 0 \<or> p_nthreads p < 2 \<or> th_waiting tw \<noteq> [] \<or> p_incomplete p = 0 then Some p
      else
        case steal_waiting locked p i (th_steal_from tw) of
          None \<Rightarrow> None
        | Some (n, p1) \<Rightarrow>
            (case (if n = 0 then steal_claimed claimed_locked p1 i (th_steal_from tw) else Some (n, p1)) of
               None \<Rightarrow> None
             | Some (_, p2) \<Rightarrow>
                 Some (upd p2 i (\<lambda>d. d\<lparr>th_steal_from := (th_steal_from d + 1) mod p_nthreads p2\<rparr>))))"

section \<open>A worker's critical sections\<close>

text \<open>The condition of the loop of \<open>wait_for_work\<close>, and the condition to leave \<open>worker_function\<close>.\<close>

definition must_wait :: "'w pool \<Rightarrow> nat \<Rightarrow> bool" where
  "must_wait p i =
     (let tw = p_data p ! i;
          pending = (p_incomplete p \<noteq> 0 \<or> p_swapped p \<noteq> 0);
          mine = (th_claimed tw \<noteq> [] \<or> th_waiting tw \<noteq> [])
      in (\<not> p_stop_on_error p \<or> \<not> p_errored p)
         \<and> ((p_state p = RUNNING \<and> \<not> (pending \<and> mine)) \<or> (p_state p = STOPPING \<and> pending \<and> \<not> mine)))"

definition may_exit :: "'w pool \<Rightarrow> bool" where
  "may_exit p \<longleftrightarrow> (p_stop_on_error p \<and> p_errored p)
     \<or> (p_state p = STOPPING \<and> p_incomplete p = 0 \<and> p_swapped p = 0)"

definition claim_work :: "'w pool \<Rightarrow> nat \<Rightarrow> 'w pool" where
  "claim_work p i = upd p i (\<lambda>d. d\<lparr>th_claimed := th_claimed d @ th_waiting d, th_waiting := []\<rparr>)"

definition pop_claimed :: "'w pool \<Rightarrow> nat \<Rightarrow> 'w job option \<times> 'w pool" where
  "pop_claimed p i =
     (case th_claimed (p_data p ! i) of
        [] \<Rightarrow> (None, p)
      | w # ws \<Rightarrow> (Some w, upd p i (\<lambda>d. d\<lparr>th_claimed := ws\<rparr>)))"

text \<open>What follows a call of the item's function, and what follows \<open>process_work\<close>.\<close>

definition item_done :: "'w pool \<Rightarrow> nat \<Rightarrow> int \<Rightarrow> 'w pool" where
  "item_done p i rc =
     (if rc = 0 then upd p i (\<lambda>d. d\<lparr>th_successful := th_successful d + 1\<rparr>)
      else if p_stop_on_error p then p\<lparr>p_errored := True\<rparr> else p)"

definition count_work :: "'w pool \<Rightarrow> nat \<Rightarrow> nat \<Rightarrow> 'w pool" where
  "count_work p i work_count =
     (upd p i (\<lambda>d. d\<lparr>th_started := th_started d + work_count\<rparr>))
       \<lparr>p_incomplete := p_incomplete p - work_count\<rparr>"

section \<open>Swap files back into memory\<close>

text \<open>
  \<open>QPTPool_wait_swapped_once\<close>: making the write file the read file, moving one item, and the end.
\<close>

definition reader_prep :: "bool \<Rightarrow> bool \<Rightarrow> 'w pool \<Rightarrow> nat \<Rightarrow> bool \<times> 'w pool" where
  "reader_prep can_open can_seek p i =
     (case swap_read_prep can_open can_seek (th_swap (p_data p ! i)) of
        (rc, s) \<Rightarrow> (rc = 0, upd p i (\<lambda>d. d\<lparr>th_swap := s\<rparr>)))"

definition reader_next :: "('w job \<Rightarrow> bool) \<Rightarrow> 'w pool \<Rightarrow> nat \<Rightarrow> 'w job option \<times> 'w pool" where
  "reader_next deser p i =
     (case read_swap deser (th_swap (p_data p ! i)) of
        (w, s) \<Rightarrow> (w, upd p i (\<lambda>d. d\<lparr>th_swap := s\<rparr>)))"

definition reader_end :: "'w pool \<Rightarrow> nat \<Rightarrow> nat \<Rightarrow> 'w pool" where
  "reader_end p i k =
     (upd p i (\<lambda>d. d\<lparr>th_swap := swap_read_done (th_swap d)\<rparr>))\<lparr>p_swapped := p_swapped p - k\<rparr>"

section \<open>Waiting, stopping, counters\<close>

text \<open>Whether \<open>QPTPool_wait_mem_lte\<close> keeps waiting.\<close>

definition wait_mem_blocks :: "'w pool \<Rightarrow> nat \<Rightarrow> bool" where
  "wait_mem_blocks p n \<longleftrightarrow>
     (\<not> p_stop_on_error p \<or> \<not> p_errored p) \<and> p_state p = RUNNING \<and> n < p_incomplete p"

text \<open>
  \<open>QPTPool_wait\<close>, by the caller's thread.  \<open>mem p\<close> is the pool when a call of \<open>QPTPool_wait_mem\<close> on
  \<open>p\<close> returns, which the other threads decide.  \<open>fuel\<close> bounds the rounds of the loop: \<open>None\<close> is a
  loop that has not ended by then.
\<close>

fun enqueue_readers :: "('w job \<Rightarrow> nat option) \<Rightarrow> 'w pool \<Rightarrow> nat list \<Rightarrow> 'w pool" where
  "enqueue_readers ser p [] = p"
| "enqueue_readers ser p (i # is) =
     enqueue_readers ser (snd (QPTPool_enqueue_here ser p i ENQUEUE_WAIT SwapReader)) is"

fun wait_swapped :: "('w job \<Rightarrow> nat option) \<Rightarrow> ('w pool \<Rightarrow> 'w pool) \<Rightarrow> nat \<Rightarrow> 'w pool \<Rightarrow> 'w pool option" where
  "wait_swapped ser mem 0 p = (if p_swapped p = 0 then Some p else None)"
| "wait_swapped ser mem (Suc fuel) p =
     (if p_swapped p = 0 then Some p
      else wait_swapped ser mem fuel (mem (enqueue_readers ser p [0..<p_nthreads p])))"

definition QPTPool_wait :: "('w job \<Rightarrow> nat option) \<Rightarrow> ('w pool \<Rightarrow> 'w pool) \<Rightarrow> nat \<Rightarrow> 'w pool \<Rightarrow> 'w pool option" where
  "QPTPool_wait ser mem fuel p =
     (if p_state p \<noteq> RUNNING then Some p else wait_swapped ser mem fuel (mem p))"

text \<open>
  \<open>QPTPool_start\<close>: \<open>started\<close> of the threads can be created.  When not all can, the pool has been
  stopped by \<open>QPTPool_stop_threads\<close>, which waits for what was enqueued, if the call returns.
\<close>

definition QPTPool_start :: "nat \<Rightarrow> 'w pool option \<Rightarrow> int \<times> 'w pool option" where
  "QPTPool_start started ctx =
     (case ctx of
        None \<Rightarrow> (1, None)
      | Some p \<Rightarrow>
          if p_state p = RUNNING then (1, Some p)
          else if started < p_nthreads p then (1, Some (p\<lparr>p_state := STOPPING\<rparr>))
          else (0, Some (p\<lparr>p_state := RUNNING\<rparr>)))"

definition QPTPool_threads_started :: "'w pool option \<Rightarrow> nat" where
  "QPTPool_threads_started ctx = (case ctx of None \<Rightarrow> 0 | Some p \<Rightarrow> sum_list (map th_started (p_data p)))"

definition QPTPool_threads_completed :: "'w pool option \<Rightarrow> nat" where
  "QPTPool_threads_completed ctx =
     (case ctx of None \<Rightarrow> 0 | Some p \<Rightarrow> sum_list (map th_successful (p_data p)))"

definition QPTPool_work_swapped_count :: "'w pool option \<Rightarrow> nat" where
  "QPTPool_work_swapped_count ctx =
     (case ctx of None \<Rightarrow> 0 | Some p \<Rightarrow> sum_list (map (\<lambda>t. sw_total_count (th_swap t)) (p_data p)))"

definition QPTPool_work_swapped_size :: "'w pool option \<Rightarrow> nat" where
  "QPTPool_work_swapped_size ctx =
     (case ctx of None \<Rightarrow> 0 | Some p \<Rightarrow> sum_list (map (\<lambda>t. sw_total_size (th_swap t)) (p_data p)))"

definition QPTPool_stopped_on_error :: "'w pool option \<Rightarrow> bool" where
  "QPTPool_stopped_on_error ctx =
     (case ctx of None \<Rightarrow> False | Some p \<Rightarrow> p_stop_on_error p \<and> p_errored p)"

section \<open>Jobs in the queues and in the swap files\<close>

definition thread_jobs :: "'w thread \<Rightarrow> 'w job multiset" where
  "thread_jobs t = mset (th_claimed t) + mset (th_waiting t)"

definition fd_jobs :: "'w job swapfd \<Rightarrow> 'w job list" where
  "fd_jobs fd = (case fd of None \<Rightarrow> [] | Some (items, pos) \<Rightarrow> items)"

definition fd_rest :: "'w job swapfd \<Rightarrow> 'w job list" where
  "fd_rest fd = (case fd of None \<Rightarrow> [] | Some (items, pos) \<Rightarrow> drop pos items)"

definition thread_disk :: "'w thread \<Rightarrow> 'w job multiset" where
  "thread_disk t = mset (fd_jobs (sf_fd (sw_write (th_swap t)))) + mset (fd_rest (sf_fd (sw_read (th_swap t))))"

definition queue_jobs :: "'w pool \<Rightarrow> 'w job multiset" where
  "queue_jobs p = sum_list (map thread_jobs (p_data p))"

definition disk_jobs :: "'w pool \<Rightarrow> 'w job multiset" where
  "disk_jobs p = sum_list (map thread_disk (p_data p))"

lemma sum_upd:
  fixes f :: "'a \<Rightarrow> 'b::comm_monoid_add"
  assumes "i < length xs"
  shows "sum_list (map f (xs[i := y])) + f (xs ! i) = sum_list (map f xs) + f y"
  using assms
proof (induction xs arbitrary: i)
  case (Cons x xs)
  then show ?case by (cases i) (auto simp: ac_simps)
qed simp

lemma length_upd [simp]: "length (p_data (upd p i f)) = length (p_data p)"
  by (simp add: upd_def)

lemma upd_nth: "i < length (p_data p) \<Longrightarrow> p_data (upd p i f) ! j = (if j = i then f (p_data p ! i) else p_data p ! j)"
  by (simp add: upd_def)

lemma upd_fields [simp]:
  "p_nthreads (upd p i f) = p_nthreads p" "p_queue_limit (upd p i f) = p_queue_limit p"
  "p_steal_num (upd p i f) = p_steal_num p" "p_steal_denom (upd p i f) = p_steal_denom p"
  "p_stop_on_error (upd p i f) = p_stop_on_error p" "p_errored (upd p i f) = p_errored p"
  "p_state (upd p i f) = p_state p" "p_incomplete (upd p i f) = p_incomplete p"
  "p_swapped (upd p i f) = p_swapped p"
  by (simp_all add: upd_def)

lemma queue_jobs_upd:
  "i < length (p_data p) \<Longrightarrow>
   queue_jobs (upd p i f) + thread_jobs (p_data p ! i) = queue_jobs p + thread_jobs (f (p_data p ! i))"
  by (simp add: queue_jobs_def upd_def sum_upd)

lemma disk_jobs_upd:
  "i < length (p_data p) \<Longrightarrow>
   disk_jobs (upd p i f) + thread_disk (p_data p ! i) = disk_jobs p + thread_disk (f (p_data p ! i))"
  by (simp add: disk_jobs_def upd_def sum_upd)

lemma upd_same:
  "i < length (p_data p) \<Longrightarrow> thread_jobs (f (p_data p ! i)) = thread_jobs (p_data p ! i) \<Longrightarrow>
   queue_jobs (upd p i f) = queue_jobs p"
  "i < length (p_data p) \<Longrightarrow> thread_disk (f (p_data p ! i)) = thread_disk (p_data p ! i) \<Longrightarrow>
   disk_jobs (upd p i f) = disk_jobs p"
  using queue_jobs_upd [of i p f] disk_jobs_upd [of i p f] by simp_all

lemma jobs_fields [simp]:
  "queue_jobs (p\<lparr>p_incomplete := a\<rparr>) = queue_jobs p" "disk_jobs (p\<lparr>p_incomplete := a\<rparr>) = disk_jobs p"
  "queue_jobs (p\<lparr>p_swapped := a\<rparr>) = queue_jobs p" "disk_jobs (p\<lparr>p_swapped := a\<rparr>) = disk_jobs p"
  "queue_jobs (p\<lparr>p_errored := b\<rparr>) = queue_jobs p" "disk_jobs (p\<lparr>p_errored := b\<rparr>) = disk_jobs p"
  "queue_jobs (p\<lparr>p_state := c\<rparr>) = queue_jobs p" "disk_jobs (p\<lparr>p_state := c\<rparr>) = disk_jobs p"
  by (simp_all add: queue_jobs_def disk_jobs_def)

text \<open>What each operation does to them.\<close>

lemma push_wait_jobs:
  "t < length (p_data p) \<Longrightarrow> queue_jobs (push_wait p t w) = queue_jobs p + {#w#}"
  "t < length (p_data p) \<Longrightarrow> disk_jobs (push_wait p t w) = disk_jobs p"
  using queue_jobs_upd [of t p "\<lambda>d. d\<lparr>th_waiting := th_waiting d @ [w]\<rparr>"]
  by (simp_all add: push_wait_def thread_jobs_def upd_same thread_disk_def)

lemma pop_claimed_jobs:
  "i < length (p_data p) \<Longrightarrow> pop_claimed p i = (Some w, p') \<Longrightarrow> queue_jobs p = queue_jobs p' + {#w#}"
  "i < length (p_data p) \<Longrightarrow> pop_claimed p i = (r, p') \<Longrightarrow> disk_jobs p' = disk_jobs p"
  "pop_claimed p i = (None, p') \<Longrightarrow> p' = p"
  using queue_jobs_upd [of i p "\<lambda>d. d\<lparr>th_claimed := tl (th_claimed (p_data p ! i))\<rparr>"]
  by (auto simp: pop_claimed_def thread_jobs_def thread_disk_def upd_same split: list.splits)

lemma claim_work_jobs:
  "i < length (p_data p) \<Longrightarrow> queue_jobs (claim_work p i) = queue_jobs p"
  "i < length (p_data p) \<Longrightarrow> disk_jobs (claim_work p i) = disk_jobs p"
  by (simp_all add: claim_work_def upd_same thread_jobs_def thread_disk_def)

lemma steal_loop_cases:
  assumes "steal_loop queue set_queue locked i cs p = Some (n, p')"
  obtains "n = 0" "p' = p" "\<forall>c \<in> set cs. c = i \<or> locked c \<or> queue (p_data p ! c) = []"
  | c k where "c \<in> set cs" "c \<noteq> i" "\<not> locked c" "queue (p_data p ! c) \<noteq> []" "0 < k"
      "k = take_count (length (queue (p_data p ! c))) (p_steal_num p) (p_steal_denom p)"
      "p' = upd (upd p c (set_queue (drop k (queue (p_data p ! c))))) i
         (\<lambda>d. d\<lparr>th_waiting := th_waiting d @ take k (queue (p_data p ! c))\<rparr>)"
      "n = length (th_waiting (p_data p' ! i))"
  using assms
proof (induction cs)
  case (Cons c cs)
  show ?case
  proof (cases "c = i \<or> locked c \<or> queue (p_data p ! c) = []")
    case True
    then have eq: "steal_loop queue set_queue locked i cs p = Some (n, p')" using Cons.prems(3) by simp
    show ?thesis
      by (rule Cons.IH [OF _ _ eq]) (use True Cons.prems(1,2) in auto)
  next
    case False
    let ?k = "take_count (length (queue (p_data p ! c))) (p_steal_num p) (p_steal_denom p)"
    show ?thesis
      by (rule Cons.prems(2) [of c ?k])
        (use False Cons.prems(3) in \<open>auto simp: Let_def take_count_def split: if_splits\<close>)
  qed
qed simp

lemma steal_step_jobs:
  fixes k :: nat
  assumes "i < length (p_data p)" and "c < length (p_data p)" and "c \<noteq> i"
    and law: "\<And>d q. thread_jobs (set_queue q d) + mset (queue d) = thread_jobs d + mset q"
    and disk: "\<And>d q. thread_disk (set_queue q d) = thread_disk d"
  defines "p1 \<equiv> upd p c (set_queue (drop k (queue (p_data p ! c))))"
  defines "p2 \<equiv> upd p1 i (\<lambda>d. d\<lparr>th_waiting := th_waiting d @ take k (queue (p_data p ! c))\<rparr>)"
  shows "queue_jobs p2 = queue_jobs p" and "disk_jobs p2 = disk_jobs p"
proof -
  let ?q = "queue (p_data p ! c)"
  have "queue_jobs p1 + thread_jobs (p_data p ! c) = queue_jobs p + thread_jobs (set_queue (drop k ?q) (p_data p ! c))"
    unfolding p1_def by (rule queue_jobs_upd [OF assms(2)])
  then have "queue_jobs p1 + thread_jobs (p_data p ! c) + mset ?q =
      queue_jobs p + (thread_jobs (p_data p ! c) + mset (drop k ?q))"
    using law [of "drop k ?q" "p_data p ! c"] by (simp add: ac_simps)
  then have 1: "queue_jobs p1 + mset ?q = queue_jobs p + mset (drop k ?q)"
    by (simp add: ac_simps)
  have l: "i < length (p_data p1)" using assms(1) by (simp add: p1_def)
  have "queue_jobs p2 + thread_jobs (p_data p1 ! i) =
      queue_jobs p1 + thread_jobs ((p_data p1 ! i)\<lparr>th_waiting := th_waiting (p_data p1 ! i) @ take k ?q\<rparr>)"
    unfolding p2_def by (rule queue_jobs_upd [OF l])
  then have 2: "queue_jobs p2 = queue_jobs p1 + mset (take k ?q)"
    by (simp add: thread_jobs_def ac_simps)
  have "mset ?q = mset (take k ?q) + mset (drop k ?q)"
    by (metis append_take_drop_id mset_append)
  then have "queue_jobs p2 + mset (drop k ?q) = queue_jobs p + mset (drop k ?q)"
    using 1 2 by (simp add: ac_simps)
  then show "queue_jobs p2 = queue_jobs p" by simp
  have "disk_jobs p1 = disk_jobs p" unfolding p1_def by (rule upd_same) (use assms(2) disk in auto)
  moreover have "disk_jobs p2 = disk_jobs p1"
    unfolding p2_def by (rule upd_same) (use l in \<open>auto simp: thread_disk_def\<close>)
  ultimately show "disk_jobs p2 = disk_jobs p" by simp
qed

text \<open>The fields no worker's section touches while it steals.\<close>

definition same_frame :: "'w pool \<Rightarrow> 'w pool \<Rightarrow> bool" where
  "same_frame p q \<longleftrightarrow> length (p_data q) = length (p_data p) \<and> p_nthreads q = p_nthreads p
     \<and> p_state q = p_state p \<and> p_incomplete q = p_incomplete p \<and> p_swapped q = p_swapped p
     \<and> p_stop_on_error q = p_stop_on_error p \<and> p_errored q = p_errored p
     \<and> map th_swap (p_data q) = map th_swap (p_data p)
     \<and> map th_next_queue (p_data q) = map th_next_queue (p_data p)"

lemma same_frame_refl [simp]: "same_frame p p"
  by (simp add: same_frame_def)

lemma same_frame_trans: "same_frame p q \<Longrightarrow> same_frame q r \<Longrightarrow> same_frame p r"
  by (simp add: same_frame_def)

lemma map_upd: "(\<And>d. f (g d) = f d) \<Longrightarrow> map f (p_data (upd p i g)) = map f (p_data p)"
  by (simp add: upd_def map_update) (metis list_update_beyond list_update_id length_map not_le nth_map)

lemma same_frame_upd:
  "(\<And>d. th_swap (f d) = th_swap d) \<Longrightarrow> (\<And>d. th_next_queue (f d) = th_next_queue d) \<Longrightarrow> same_frame p (upd p i f)"
  by (simp add: same_frame_def map_upd)

lemma visit_bound: "0 < p_nthreads p \<Longrightarrow> c \<in> set (visit p start) \<Longrightarrow> c < p_nthreads p"
  by (auto simp: visit_def)

lemma steal_loop_jobs:
  assumes "steal_loop queue set_queue locked i cs p = Some (n, p')" and "i < length (p_data p)"
    and "\<forall>c \<in> set cs. c < length (p_data p)"
    and "\<And>d q. thread_jobs (set_queue q d) + mset (queue d) = thread_jobs d + mset q"
    and "\<And>d q. th_swap (set_queue q d) = th_swap d" and "\<And>d q. th_next_queue (set_queue q d) = th_next_queue d"
  shows "queue_jobs p' = queue_jobs p \<and> disk_jobs p' = disk_jobs p \<and> same_frame p p'"
  using assms(1)
proof (cases rule: steal_loop_cases)
  case (2 c k)
  have d: "thread_disk (set_queue q d) = thread_disk d" for q d
    by (simp add: thread_disk_def assms(5))
  have "same_frame p p'"
    unfolding 2(7) by (rule same_frame_trans; rule same_frame_upd) (simp_all add: assms(5,6))
  then show ?thesis
    using steal_step_jobs [of i p c set_queue queue k] 2 assms(2-4) d by auto
qed simp

lemma maybe_steal_work_jobs:
  assumes "maybe_steal_work locked claimed_locked p i = Some p'" and "i < length (p_data p)"
    and "p_nthreads p = length (p_data p)"
  shows "queue_jobs p' = queue_jobs p \<and> disk_jobs p' = disk_jobs p \<and> same_frame p p'"
proof (cases "p_steal_num p = 0 \<or> p_nthreads p < 2 \<or> th_waiting (p_data p ! i) \<noteq> [] \<or> p_incomplete p = 0")
  case True
  then show ?thesis using assms(1) by (simp add: maybe_steal_work_def Let_def)
next
  case False
  have "0 < p_nthreads p" using assms(2,3) by auto
  then have vb: "\<forall>c \<in> set (visit p start). c < length (p_data p)" for start
    using visit_bound assms(3) by metis
  obtain n p1 where p1: "steal_waiting locked p i (th_steal_from (p_data p ! i)) = Some (n, p1)"
    using assms(1) False by (auto simp: maybe_steal_work_def Let_def split: option.splits)
  have s1: "queue_jobs p1 = queue_jobs p \<and> disk_jobs p1 = disk_jobs p \<and> same_frame p p1"
    by (rule steal_loop_jobs [OF p1 [unfolded steal_waiting_def] assms(2) vb])
      (simp_all add: thread_jobs_def ac_simps)
  obtain m p2 where p2: "(if n = 0 then steal_claimed claimed_locked p1 i (th_steal_from (p_data p ! i))
      else Some (n, p1)) = Some (m, p2)"
    and p': "p' = upd p2 i (\<lambda>d. d\<lparr>th_steal_from := (th_steal_from d + 1) mod p_nthreads p2\<rparr>)"
    using assms(1) False p1 by (auto simp: maybe_steal_work_def Let_def split: option.splits)
  have l1: "length (p_data p1) = length (p_data p)" "p_nthreads p1 = p_nthreads p"
    using s1 by (simp_all add: same_frame_def)
  have vb1: "\<forall>c \<in> set (visit p1 start). c < length (p_data p1)" for start
    using vb [of start] l1 by (simp add: visit_def)
  have s2: "queue_jobs p2 = queue_jobs p1 \<and> disk_jobs p2 = disk_jobs p1 \<and> same_frame p1 p2"
  proof (cases "n = 0")
    case True
    then have "steal_claimed claimed_locked p1 i (th_steal_from (p_data p ! i)) = Some (m, p2)"
      using p2 by simp
    note c = this [unfolded steal_claimed_def]
    have "i < length (p_data p1)" using assms(2) l1 by simp
    from steal_loop_jobs [OF c this vb1] show ?thesis by (simp add: thread_jobs_def ac_simps)
  qed (use p2 in simp)
  have l2: "i < length (p_data p2)" using s2 l1 assms(2) by (simp add: same_frame_def)
  have "queue_jobs p' = queue_jobs p2" "disk_jobs p' = disk_jobs p2"
    unfolding p' using l2 by (auto intro!: upd_same simp: thread_jobs_def thread_disk_def)
  moreover have "same_frame p2 p'" unfolding p' by (rule same_frame_upd) simp_all
  ultimately show ?thesis using s1 s2 same_frame_trans by metis
qed

text \<open>Swap files whose write descriptor is behind what was written.\<close>

definition swap_ok :: "'w Swap \<Rightarrow> bool" where
  "swap_ok s \<longleftrightarrow> (sf_fd (sw_write s) = None \<and> sf_count (sw_write s) = 0)
     \<or> (\<exists>items. write_ok (sw_write s) items)"

lemma write_swap_disk:
  assumes "swap_ok s" and "write_swap ser s w = (rc, s')"
  shows "swap_ok s' \<and> sw_read s' = sw_read s
    \<and> mset (fd_jobs (sf_fd (sw_write s'))) = mset (fd_jobs (sf_fd (sw_write s))) + (if rc = 0 then {#w#} else {#})"
  using assms
  by (auto simp: write_swap_def swap_ok_def write_ok_def fd_jobs_def Let_def split: option.splits prod.splits)

lemma swap_read_prep_disk:
  assumes "swap_ok s" and "sf_fd (sw_read s) = None" and "swap_read_prep True True s = (rc, s')"
  shows "swap_ok s'" and "rc = 0 \<Longrightarrow> sf_fd (sw_read s') \<noteq> None" and "rc \<noteq> 0 \<Longrightarrow> sf_fd (sw_read s') = None"
    and "mset (fd_jobs (sf_fd (sw_write s'))) + mset (fd_rest (sf_fd (sw_read s'))) =
      mset (fd_jobs (sf_fd (sw_write s))) + mset (fd_rest (sf_fd (sw_read s)))"
  using assms
  by (auto simp: swap_read_prep_def swap_ok_def write_ok_def fd_jobs_def fd_rest_def no_file_def
      swap_open_def Let_def split: option.splits prod.splits if_splits)

lemma read_swap_disk:
  assumes "read_swap (\<lambda>_. True) s = (r, s')"
  shows "sw_write s' = sw_write s" and "sf_fd (sw_read s') = None \<longleftrightarrow> sf_fd (sw_read s) = None"
    and "r = Some w \<Longrightarrow> mset (fd_rest (sf_fd (sw_read s))) = mset (fd_rest (sf_fd (sw_read s'))) + {#w#}"
    and "r = None \<Longrightarrow> s' = s \<and> fd_rest (sf_fd (sw_read s)) = []"
  using assms
  by (auto simp: read_swap_def fd_rest_def split: option.splits prod.splits if_splits
      simp flip: Cons_nth_drop_Suc)

end
