(* ===== verification/PoolSteps.thy ===== *)
theory PoolSteps
  imports Pool
begin

text \<open>
  The pool at work: \<open>worker_function\<close>, \<open>process_work\<close> and \<open>QPTPool_wait_swapped_once\<close> of all threads
  and the client's calls, interleaved.  A step is one critical section, or what lies between two
  of them and touches nothing shared.  A user's function is not known: while it runs it may
  enqueue anything, anywhere, and return anything.  \<open>trylock\<close> may fail whenever.  The swap files
  can be opened and read; writing to them may fail, as \<open>ser\<close> says.
\<close>

section \<open>States\<close>

text \<open>
  Where a worker is.  \<open>n\<close> counts the items of the current \<open>process_work\<close>, \<open>k\<close> those of the current
  swap reader.
\<close>

datatype 'w pc =
    Off \<comment> \<open>not created yet\<close>
  | Top \<comment> \<open>at the top of the loop\<close>
  | Blocked bool \<comment> \<open>in \<open>pthread_cond_wait\<close>; whether it was woken\<close>
  | Claiming
  | Process nat \<comment> \<open>about to pop an item\<close>
  | Running 'w nat
  | Pushing 'w nat nat "'w job" bool \<comment> \<open>between the two sections of an enqueue; swappable?\<close>
  | ReadPrep nat
  | Reading nat nat
  | ReadPush nat nat nat "'w job"
  | Counting nat \<comment> \<open>behind \<open>process_work\<close>\<close>
  | Signal nat \<comment> \<open>waking the others before it returns\<close>
  | Exited

text \<open>
  \<open>sy_client\<close> is the client's enqueue between its two sections.  The last three are history: the
  jobs accepted by an enqueue, the jobs that were done, and the jobs a swap reader read and
  could not enqueue again.  The client's wake-ups when it stops the pool are one step with the
  change of state.
\<close>

record 'w sys =
  sy_pool :: "'w pool"
  sy_pcs :: "'w pc list"
  sy_client :: "(nat \<times> 'w job \<times> bool) option"
  sy_in :: "'w job multiset"
  sy_out :: "'w job multiset"
  sy_lost :: "'w job multiset"

fun woken :: "'w pc \<Rightarrow> 'w pc" where
  "woken (Blocked b) = Blocked True"
| "woken c = c"

definition wake :: "'w pc list \<Rightarrow> nat \<Rightarrow> 'w pc list" where
  "wake pcs t = pcs[t := woken (pcs ! t)]"

definition push :: "('w job \<Rightarrow> nat option) \<Rightarrow> bool \<Rightarrow> 'w pool \<Rightarrow> nat \<Rightarrow> 'w job \<Rightarrow> enqueue_dst \<times> 'w pool" where
  "push ser swappable p t w =
     (if swappable then push_swappable ser p t w else (ENQUEUE_WAIT, push_wait p t w))"

definition at :: "'w sys \<Rightarrow> nat \<Rightarrow> 'w pc \<Rightarrow> 'w sys" where
  "at s i c = s\<lparr>sy_pcs := (sy_pcs s)[i := c]\<rparr>"

definition accepted :: "enqueue_dst \<Rightarrow> 'w job \<Rightarrow> 'w job multiset" where
  "accepted dst w = (if dst = ENQUEUE_ERROR then {#} else {#w#})"

section \<open>Steps\<close>

inductive pool_step ::
    "'w next_func \<Rightarrow> ('w job \<Rightarrow> nat option) \<Rightarrow> 'w sys \<Rightarrow> 'w sys \<Rightarrow> bool"
  for nxt :: "'w next_func" and ser :: "'w job \<Rightarrow> nat option" where
  top: "i < length (sy_pcs s) \<Longrightarrow> sy_pcs s ! i = Top \<Longrightarrow>
    maybe_steal_work locked claimed_locked (sy_pool s) i = Some p \<Longrightarrow>
    c = (if must_wait p i then Blocked False else if may_exit p then Signal 0 else Claiming) \<Longrightarrow>
    pool_step nxt ser s (at (s\<lparr>sy_pool := p\<rparr>) i c)"
| awake: "i < length (sy_pcs s) \<Longrightarrow> sy_pcs s ! i = Blocked True \<Longrightarrow> p = sy_pool s \<Longrightarrow>
    c = (if must_wait p i then Blocked False else if may_exit p then Signal 0 else Claiming) \<Longrightarrow>
    pool_step nxt ser s (at s i c)"
| spurious: "i < length (sy_pcs s) \<Longrightarrow> sy_pcs s ! i = Blocked False \<Longrightarrow>
    pool_step nxt ser s (at s i (Blocked True))"
| claim: "i < length (sy_pcs s) \<Longrightarrow> sy_pcs s ! i = Claiming \<Longrightarrow>
    pool_step nxt ser s (at (s\<lparr>sy_pool := claim_work (sy_pool s) i\<rparr>) i (Process 0))"
| pop_none: "i < length (sy_pcs s) \<Longrightarrow> sy_pcs s ! i = Process n \<Longrightarrow>
    pop_claimed (sy_pool s) i = (None, p) \<Longrightarrow>
    pool_step nxt ser s (at s i (Counting n))"
| pop_user: "i < length (sy_pcs s) \<Longrightarrow> sy_pcs s ! i = Process n \<Longrightarrow>
    pop_claimed (sy_pool s) i = (Some (User w), p) \<Longrightarrow>
    pool_step nxt ser s (at (s\<lparr>sy_pool := p\<rparr>) i (Running w n))"
| pop_reader: "i < length (sy_pcs s) \<Longrightarrow> sy_pcs s ! i = Process n \<Longrightarrow>
    pop_claimed (sy_pool s) i = (Some SwapReader, p) \<Longrightarrow>
    pool_step nxt ser s (at (s\<lparr>sy_pool := p\<rparr>) i (ReadPrep n))"
| run_pick: "i < length (sy_pcs s) \<Longrightarrow> sy_pcs s ! i = Running w n \<Longrightarrow>
    pick_queue nxt (sy_pool s) i (User v) = Some (Some (t, p)) \<Longrightarrow>
    pool_step nxt ser s (at (s\<lparr>sy_pool := p\<rparr>) i (Pushing w n t (User v) swappable))"
| run_push: "i < length (sy_pcs s) \<Longrightarrow> sy_pcs s ! i = Pushing w n t v swappable \<Longrightarrow>
    push ser swappable (sy_pool s) t v = (dst, p) \<Longrightarrow>
    pool_step nxt ser s
      (at (s\<lparr>sy_pool := p, sy_pcs := wake (sy_pcs s) t, sy_in := sy_in s + accepted dst v\<rparr>) i (Running w n))"
| run_here: "i < length (sy_pcs s) \<Longrightarrow> sy_pcs s ! i = Running w n \<Longrightarrow> t < length (sy_pcs s) \<Longrightarrow>
    QPTPool_enqueue_here ser (sy_pool s) t queue (User v) = (dst, p) \<Longrightarrow>
    pool_step nxt ser s
      (s\<lparr>sy_pool := p, sy_pcs := wake (sy_pcs s) t, sy_in := sy_in s + accepted dst (User v)\<rparr>)"
| run_end: "i < length (sy_pcs s) \<Longrightarrow> sy_pcs s ! i = Running w n \<Longrightarrow>
    c = (if rc \<noteq> 0 \<and> p_stop_on_error (sy_pool s) then Counting (n + 1) else Process (n + 1)) \<Longrightarrow>
    pool_step nxt ser s
      (at (s\<lparr>sy_pool := item_done (sy_pool s) i rc, sy_out := sy_out s + {#User w#}\<rparr>) i c)"
| read_prep: "i < length (sy_pcs s) \<Longrightarrow> sy_pcs s ! i = ReadPrep n \<Longrightarrow>
    reader_prep True True (sy_pool s) i = (ok, p) \<Longrightarrow>
    pool_step nxt ser s
      (if ok then at (s\<lparr>sy_pool := p\<rparr>) i (Reading n 0)
       else at (s\<lparr>sy_pool := item_done p i 0, sy_out := sy_out s + {#SwapReader#}\<rparr>) i (Process (n + 1)))"
| read_pick: "i < length (sy_pcs s) \<Longrightarrow> sy_pcs s ! i = Reading n k \<Longrightarrow>
    reader_next (\<lambda>_. True) (sy_pool s) i = (Some w, p1) \<Longrightarrow>
    pick_queue nxt p1 i w = Some (Some (t, p2)) \<Longrightarrow>
    pool_step nxt ser s (at (s\<lparr>sy_pool := p2\<rparr>) i (ReadPush n k t w))"
| read_refused: "i < length (sy_pcs s) \<Longrightarrow> sy_pcs s ! i = Reading n k \<Longrightarrow>
    reader_next (\<lambda>_. True) (sy_pool s) i = (Some w, p1) \<Longrightarrow>
    pick_queue nxt p1 i w = Some None \<Longrightarrow>
    pool_step nxt ser s (at (s\<lparr>sy_pool := p1, sy_lost := sy_lost s + {#w#}\<rparr>) i (Reading n (k + 1)))"
| read_push: "i < length (sy_pcs s) \<Longrightarrow> sy_pcs s ! i = ReadPush n k t w \<Longrightarrow>
    push_swappable ser (sy_pool s) t w = (dst, p) \<Longrightarrow>
    pool_step nxt ser s
      (at (s\<lparr>sy_pool := p, sy_pcs := wake (sy_pcs s) t,
             sy_lost := sy_lost s + ({#w#} - accepted dst w)\<rparr>) i (Reading n (k + 1)))"
| read_end: "i < length (sy_pcs s) \<Longrightarrow> sy_pcs s ! i = Reading n k \<Longrightarrow>
    reader_next (\<lambda>_. True) (sy_pool s) i = (None, p) \<Longrightarrow>
    pool_step nxt ser s 
      (at (s\<lparr>sy_pool := item_done (reader_end p i k) i 0, sy_out := sy_out s + {#SwapReader#}\<rparr>) i
         (Process (n + 1)))"
| counted: "i < length (sy_pcs s) \<Longrightarrow> sy_pcs s ! i = Counting n \<Longrightarrow>
    pool_step nxt ser s (at (s\<lparr>sy_pool := count_work (sy_pool s) i n\<rparr>) i Top)"
| signal: "i < length (sy_pcs s) \<Longrightarrow> sy_pcs s ! i = Signal k \<Longrightarrow> k < length (sy_pcs s) \<Longrightarrow>
    pool_step nxt ser s (at (s\<lparr>sy_pcs := wake (sy_pcs s) k\<rparr>) i (Signal (k + 1)))"
| exit: "i < length (sy_pcs s) \<Longrightarrow> sy_pcs s ! i = Signal k \<Longrightarrow> length (sy_pcs s) \<le> k \<Longrightarrow>
    pool_step nxt ser s (at s i Exited)"
| client_pick: "sy_client s = None \<Longrightarrow> p_state (sy_pool s) \<noteq> STOPPING \<Longrightarrow>
    0 < length (sy_pcs s) \<Longrightarrow> pick_queue nxt (sy_pool s) 0 (User v) = Some (Some (t, p)) \<Longrightarrow>
    pool_step nxt ser s (s\<lparr>sy_pool := p, sy_client := Some (t, User v, swappable)\<rparr>)"
| client_push: "sy_client s = Some (t, v, swappable) \<Longrightarrow>
    push ser swappable (sy_pool s) t v = (dst, p) \<Longrightarrow>
    pool_step nxt ser s
      (s\<lparr>sy_pool := p, sy_pcs := wake (sy_pcs s) t, sy_client := None, sy_in := sy_in s + accepted dst v\<rparr>)"
| client_here: "sy_client s = None \<Longrightarrow> p_state (sy_pool s) \<noteq> STOPPING \<Longrightarrow> t < length (sy_pcs s) \<Longrightarrow>
    QPTPool_enqueue_here ser (sy_pool s) t queue v = (dst, p) \<Longrightarrow> v = SwapReader \<longrightarrow> queue = ENQUEUE_WAIT \<Longrightarrow>
    pool_step nxt ser s
      (s\<lparr>sy_pool := p, sy_pcs := wake (sy_pcs s) t, sy_in := sy_in s + accepted dst v\<rparr>)"
| client_start: "sy_client s = None \<Longrightarrow> p_state (sy_pool s) = INITIALIZED \<Longrightarrow>
    QPTPool_start (length (sy_pcs s)) (Some (sy_pool s)) = (0, Some p) \<Longrightarrow>
    pool_step nxt ser s (s\<lparr>sy_pool := p, sy_pcs := map (\<lambda>_. Top) (sy_pcs s)\<rparr>)"
| client_stop: "sy_client s = None \<Longrightarrow> p_state (sy_pool s) = RUNNING \<Longrightarrow>
    \<not> wait_mem_blocks (sy_pool s) 0 \<Longrightarrow> p_swapped (sy_pool s) = 0 \<Longrightarrow>
    pool_step nxt ser s
      (s\<lparr>sy_pool := (sy_pool s)\<lparr>p_state := STOPPING\<rparr>, sy_pcs := map woken (sy_pcs s)\<rparr>)"

inductive_cases pool_stepE: "pool_step nxt ser s s'"

section \<open>What the steps move\<close>

text \<open>
  From \<open>p\<close> to \<open>p'\<close>, \<open>qm\<close> leaves the queues and \<open>qp\<close> enters them, \<open>dm\<close> and \<open>dp\<close> the swap files; the
  counters move by \<open>i0\<close>, \<open>i1\<close> and \<open>s0\<close>, \<open>s1\<close>.
\<close>

definition moves ::
    "'w pool \<Rightarrow> 'w pool \<Rightarrow> 'w job multiset \<Rightarrow> 'w job multiset \<Rightarrow> 'w job multiset \<Rightarrow> 'w job multiset
     \<Rightarrow> nat \<Rightarrow> nat \<Rightarrow> nat \<Rightarrow> nat \<Rightarrow> bool" where
  "moves p p' qm qp dm dp i0 i1 s0 s1 \<longleftrightarrow>
     queue_jobs p' + qm = queue_jobs p + qp \<and> disk_jobs p' + dm = disk_jobs p + dp
     \<and> p_incomplete p' + i0 = p_incomplete p + i1 \<and> p_swapped p' + s0 = p_swapped p + s1
     \<and> length (p_data p') = length (p_data p) \<and> p_nthreads p' = p_nthreads p
     \<and> p_stop_on_error p' = p_stop_on_error p \<and> p_state p' = p_state p"

abbreviation still :: "'w pool \<Rightarrow> 'w pool \<Rightarrow> bool" where
  "still p p' \<equiv> moves p p' {#} {#} {#} {#} 0 0 0 0"

lemma moves_push_wait: "t < length (p_data p) \<Longrightarrow> moves p (push_wait p t w) {#} {#w#} {#} {#} 0 1 0 0"
  by (simp add: moves_def push_wait_jobs) (simp add: push_wait_def)

lemma push_swap_moves:
  assumes "t < length (p_data p)" and "swap_ok (th_swap (p_data p ! t))"
    and "push_swap ser p t w = (dst, p')"
  shows "(dst = ENQUEUE_SWAP \<and> moves p p' {#} {#} {#} {#w#} 0 0 0 1) \<or> (dst = ENQUEUE_ERROR \<and> still p p')"
proof -
  obtain rc s where ws: "write_swap ser (th_swap (p_data p ! t)) w = (rc, s)" by fastforce
  note d = write_swap_disk [OF assms(2) ws]
  have q: "queue_jobs (upd p t (\<lambda>d. d\<lparr>th_swap := s\<rparr>)) = queue_jobs p"
    by (rule upd_same) (simp_all add: assms(1) thread_jobs_def)
  have "disk_jobs (upd p t (\<lambda>d. d\<lparr>th_swap := s\<rparr>)) + thread_disk (p_data p ! t) =
      disk_jobs p + thread_disk ((p_data p ! t)\<lparr>th_swap := s\<rparr>)"
    by (rule disk_jobs_upd [OF assms(1)])
  also have "thread_disk ((p_data p ! t)\<lparr>th_swap := s\<rparr>) =
      thread_disk (p_data p ! t) + (if rc = 0 then {#w#} else {#})"
    using d by (simp add: thread_disk_def ac_simps)
  finally have "disk_jobs (upd p t (\<lambda>d. d\<lparr>th_swap := s\<rparr>)) = disk_jobs p + (if rc = 0 then {#w#} else {#})"
    by (simp add: ac_simps)
  then show ?thesis
    using assms(3) ws q by (auto simp: push_swap_def moves_def split: if_splits)
qed

definition pushed :: "'w pool \<Rightarrow> 'w pool \<Rightarrow> 'w job \<Rightarrow> enqueue_dst \<Rightarrow> bool" where
  "pushed p p' w dst \<longleftrightarrow> (dst = ENQUEUE_WAIT \<and> moves p p' {#} {#w#} {#} {#} 0 1 0 0)
     \<or> (dst = ENQUEUE_SWAP \<and> moves p p' {#} {#} {#} {#w#} 0 0 0 1) \<or> (dst = ENQUEUE_ERROR \<and> still p p')"

lemma pushedE:
  assumes "pushed p p' w dst"
  obtains qp dp where "moves p p' {#} qp {#} dp 0 (size qp) 0 (size dp)" "qp + dp = accepted dst w"
    "accepted dst w = {#w#} \<or> accepted dst w = {#}"
  using assms that [of "{#w#}" "{#}"] that [of "{#}" "{#w#}"] that [of "{#}" "{#}"]
  by (auto simp: pushed_def accepted_def)

lemma push_moves:
  assumes "t < length (p_data p)" and "swap_ok (th_swap (p_data p ! t))" and "push ser sw p t w = (dst, p')"
  shows "pushed p p' w dst"
  using assms moves_push_wait [OF assms(1)] push_swap_moves [OF assms(1,2)]
  by (auto simp: pushed_def push_def push_swappable_def split: if_splits)

lemma enqueue_here_moves:
  assumes "t < length (p_data p)" and "swap_ok (th_swap (p_data p ! t))"
    and "QPTPool_enqueue_here ser p t queue w = (dst, p')"
  shows "pushed p p' w dst"
proof -
  have s: "still p p" by (simp add: moves_def)
  then show ?thesis
    using assms(3) moves_push_wait [OF assms(1), of w] push_swap_moves [OF assms(1,2), of ser w dst p']
    by (cases queue) (auto simp: pushed_def QPTPool_enqueue_here_def split: if_splits)
qed

lemma pick_queue_still:
  assumes "i < length (p_data p)" and "pick_queue nxt p i w = Some (Some (t, p'))"
  shows "still p p' \<and> t < p_nthreads p \<and> map th_swap (p_data p') = map th_swap (p_data p)
    \<and> map th_claimed (p_data p') = map th_claimed (p_data p) \<and> map th_waiting (p_data p') = map th_waiting (p_data p)"
proof -
  obtain n where p': "p' = upd p i (\<lambda>d. d\<lparr>th_next_queue := n\<rparr>)" and t: "t < p_nthreads p"
    using assms(2) by (auto simp: pick_queue_def Let_def split: if_splits)
  have "queue_jobs p' = queue_jobs p" "disk_jobs p' = disk_jobs p"
    unfolding p' by (rule upd_same; simp add: assms(1) thread_jobs_def thread_disk_def)+
  moreover have "map th_swap (p_data p') = map th_swap (p_data p)"
    "map th_claimed (p_data p') = map th_claimed (p_data p)"
    "map th_waiting (p_data p') = map th_waiting (p_data p)"
    unfolding p' by (simp_all add: map_upd)
  ultimately show ?thesis
    using t unfolding moves_def by (simp add: p')
qed

lemma item_done_still:
  assumes "i < length (p_data p)"
  shows "still p (item_done p i rc)"
proof -
  have "queue_jobs (upd p i (\<lambda>d. d\<lparr>th_successful := th_successful d + 1\<rparr>)) = queue_jobs p"
    "disk_jobs (upd p i (\<lambda>d. d\<lparr>th_successful := th_successful d + 1\<rparr>)) = disk_jobs p"
    by (rule upd_same; simp add: assms thread_jobs_def thread_disk_def)+
  then show ?thesis by (simp add: item_done_def moves_def)
qed

lemma claim_still: "i < length (p_data p) \<Longrightarrow> still p (claim_work p i)"
  by (simp add: moves_def claim_work_jobs) (simp add: claim_work_def)

lemma pop_moves:
  assumes "i < length (p_data p)" and "pop_claimed p i = (Some w, p')"
  shows "moves p p' {#w#} {#} {#} {#} 0 0 0 0"
  using pop_claimed_jobs(1,2) [OF assms] assms
  by (auto simp: moves_def pop_claimed_def split: list.splits)

lemma steal_still:
  assumes "maybe_steal_work locked cl p i = Some p'" and "i < length (p_data p)"
    and "p_nthreads p = length (p_data p)"
  shows "still p p' \<and> map th_swap (p_data p') = map th_swap (p_data p)"
  using maybe_steal_work_jobs [OF assms] by (simp add: moves_def same_frame_def)

lemma count_moves:
  assumes "i < length (p_data p)" and "n \<le> p_incomplete p"
  shows "moves p (count_work p i n) {#} {#} {#} {#} n 0 0 0"
proof -
  have "queue_jobs (upd p i (\<lambda>d. d\<lparr>th_started := th_started d + n\<rparr>)) = queue_jobs p"
    "disk_jobs (upd p i (\<lambda>d. d\<lparr>th_started := th_started d + n\<rparr>)) = disk_jobs p"
    by (rule upd_same; simp add: assms thread_jobs_def thread_disk_def)+
  then show ?thesis using assms(2) by (simp add: count_work_def moves_def)
qed

lemma reader_prep_still:
  assumes "i < length (p_data p)" and "swap_ok (th_swap (p_data p ! i))"
    and "sf_fd (sw_read (th_swap (p_data p ! i))) = None" and "reader_prep True True p i = (ok, p')"
  shows "still p p'"
proof -
  obtain rc s where rp: "swap_read_prep True True (th_swap (p_data p ! i)) = (rc, s)" by fastforce
  have "queue_jobs (upd p i (\<lambda>d. d\<lparr>th_swap := s\<rparr>)) = queue_jobs p"
    "disk_jobs (upd p i (\<lambda>d. d\<lparr>th_swap := s\<rparr>)) = disk_jobs p"
    using swap_read_prep_disk(4) [OF assms(2,3) rp]
    by (intro upd_same; simp add: assms(1) thread_jobs_def thread_disk_def)+
  then show ?thesis using assms(4) rp by (auto simp: reader_prep_def moves_def)
qed

lemma reader_next_moves:
  assumes "i < length (p_data p)" and "reader_next (\<lambda>_. True) p i = (Some w, p')"
  shows "moves p p' {#} {#} {#w#} {#} 0 0 0 0"
proof -
  obtain s where rs: "read_swap (\<lambda>_. True) (th_swap (p_data p ! i)) = (Some w, s)"
    and p': "p' = upd p i (\<lambda>d. d\<lparr>th_swap := s\<rparr>)"
    using assms(2) by (auto simp: reader_next_def split: prod.splits)
  have q: "queue_jobs p' = queue_jobs p"
    unfolding p' by (rule upd_same) (simp_all add: assms(1) thread_jobs_def)
  have "disk_jobs p' + thread_disk (p_data p ! i) = disk_jobs p + thread_disk ((p_data p ! i)\<lparr>th_swap := s\<rparr>)"
    unfolding p' by (rule disk_jobs_upd [OF assms(1)])
  moreover have "thread_disk (p_data p ! i) = thread_disk ((p_data p ! i)\<lparr>th_swap := s\<rparr>) + {#w#}"
    using read_swap_disk(1) [OF rs] read_swap_disk(3) [OF rs refl] by (simp add: thread_disk_def)
  ultimately have "disk_jobs p' + {#w#} = disk_jobs p" by (simp add: ac_simps)
  then show ?thesis using q by (simp add: moves_def p')
qed

lemma reader_end_moves:
  assumes "i < length (p_data p)" and "reader_next (\<lambda>_. True) p i = (None, p1)" and "k \<le> p_swapped p"
  shows "moves p (reader_end p1 i k) {#} {#} {#} {#} 0 0 k 0"
proof -
  obtain s where rs: "read_swap (\<lambda>_. True) (th_swap (p_data p ! i)) = (None, s)"
    and p1: "p1 = upd p i (\<lambda>d. d\<lparr>th_swap := s\<rparr>)"
    using assms(2) by (auto simp: reader_next_def split: prod.splits)
  have s: "s = th_swap (p_data p ! i)" "fd_rest (sf_fd (sw_read s)) = []"
    using read_swap_disk(4) [OF rs] by auto
  have p1': "p1 = p" unfolding p1 s upd_def by (cases p) simp
  have r: "fd_rest (sf_fd (sw_read (th_swap (p_data p ! i)))) = []" using s by simp
  have "queue_jobs (upd p i (\<lambda>d. d\<lparr>th_swap := swap_read_done (th_swap d)\<rparr>)) = queue_jobs p"
    "disk_jobs (upd p i (\<lambda>d. d\<lparr>th_swap := swap_read_done (th_swap d)\<rparr>)) = disk_jobs p"
    by (rule upd_same; simp add: assms(1) thread_jobs_def thread_disk_def swap_read_done_def no_file_def
        fd_rest_def r [unfolded fd_rest_def])+
  then show ?thesis using assms(3) by (simp add: reader_end_def moves_def p1')
qed

section \<open>What the workers have in hand\<close>

text \<open>Items popped but not yet subtracted, items read but not yet subtracted, and the jobs themselves.\<close>

fun owed :: "'w pc \<Rightarrow> nat" where
  "owed (Process n) = n"
| "owed (Running w n) = n + 1"
| "owed (Pushing w n t v sw) = n + 1"
| "owed (ReadPrep n) = n + 1"
| "owed (Reading n k) = n + 1"
| "owed (ReadPush n k t w) = n + 1"
| "owed (Counting n) = n"
| "owed _ = 0"

fun held :: "'w pc \<Rightarrow> nat" where
  "held (Reading n k) = k"
| "held (ReadPush n k t w) = k + 1"
| "held _ = 0"

fun inflight :: "'w pc \<Rightarrow> 'w job multiset" where
  "inflight (Running w n) = {#User w#}"
| "inflight (Pushing w n t v sw) = {#User w#}"
| "inflight (ReadPrep n) = {#SwapReader#}"
| "inflight (Reading n k) = {#SwapReader#}"
| "inflight (ReadPush n k t w) = {#SwapReader, w#}"
| "inflight _ = {#}"

fun is_reading :: "'w pc \<Rightarrow> bool" where
  "is_reading (Reading n k) = True"
| "is_reading (ReadPush n k t w) = True"
| "is_reading _ = False"

fun target :: "'w pc \<Rightarrow> nat option" where
  "target (Pushing w n t v sw) = Some t"
| "target (ReadPush n k t w) = Some t"
| "target _ = None"

lemma length_wake [simp]: "length (wake pcs t) = length pcs"
  by (simp add: wake_def)

lemma woken_fun: "(\<And>b c. f (Blocked b) = f (Blocked c)) \<Longrightarrow> f (woken x) = f x"
  by (cases x) auto

lemma woken_comp: "owed \<circ> woken = owed" "held \<circ> woken = held" "inflight \<circ> woken = inflight"
  by (rule ext; simp; rule woken_fun; simp)+

lemma wake_nth: "wake pcs t ! i = (if i = t \<and> t < length pcs then woken (pcs ! t) else pcs ! i)"
  by (cases "t < length pcs") (auto simp: wake_def nth_list_update list_update_beyond)

lemma wake_fun: "(\<And>b c. f (Blocked b) = f (Blocked c)) \<Longrightarrow> f (wake pcs t ! i) = f (pcs ! i)"
  by (simp add: wake_nth woken_fun)

lemma sum_wake:
  fixes f :: "'w pc \<Rightarrow> 'b::cancel_comm_monoid_add"
  assumes "\<And>b c. f (Blocked b) = f (Blocked c)"
  shows "sum_list (map f (wake pcs t)) = sum_list (map f pcs)"
proof (cases "t < length pcs")
  case True
  have "f (woken (pcs ! t)) = f (pcs ! t)" using assms by (rule woken_fun)
  then show ?thesis
    using sum_upd [OF True, of f "woken (pcs ! t)"] by (simp add: wake_def)
qed (simp add: wake_def list_update_beyond)

definition counts :: "'w sys \<Rightarrow> bool" where
  "counts s \<longleftrightarrow>
     p_incomplete (sy_pool s) = size (queue_jobs (sy_pool s)) + sum_list (map owed (sy_pcs s))
     \<and> p_swapped (sy_pool s) = size (disk_jobs (sy_pool s)) + sum_list (map held (sy_pcs s))
     \<and> sy_in s = sy_out s + sum_list (map inflight (sy_pcs s)) + queue_jobs (sy_pool s)
         + disk_jobs (sy_pool s) + sy_lost s"

lemma counts_moves:
  assumes "counts s" and "moves (sy_pool s) (sy_pool s') qm qp dm dp i0 i1 s0 s1"
    and o: "sum_list (map owed (sy_pcs s')) + x0 = sum_list (map owed (sy_pcs s)) + x1"
    and h: "sum_list (map held (sy_pcs s')) + h0 = sum_list (map held (sy_pcs s)) + h1"
    and f: "sum_list (map inflight (sy_pcs s')) + f0 = sum_list (map inflight (sy_pcs s)) + f1"
    and hist: "sy_in s' = sy_in s + a" "sy_out s' = sy_out s + b" "sy_lost s' = sy_lost s + l"
    and "i1 + size qm + x0 = i0 + size qp + x1" and "s1 + size dm + h0 = s0 + size dp + h1"
    and A: "a + f0 + qm + dm = b + l + f1 + qp + dp"
  shows "counts s'"
proof -
  note c = assms(1) [unfolded counts_def] and m = assms(2) [unfolded moves_def]
  have q: "size (queue_jobs (sy_pool s')) + size qm = size (queue_jobs (sy_pool s)) + size qp"
    using m by (metis size_union)
  have d: "size (disk_jobs (sy_pool s')) + size dm = size (disk_jobs (sy_pool s)) + size dp"
    using m by (metis size_union)
  have 1: "p_incomplete (sy_pool s') = size (queue_jobs (sy_pool s')) + sum_list (map owed (sy_pcs s'))"
    using c m q o assms(9) by linarith
  have 2: "p_swapped (sy_pool s') = size (disk_jobs (sy_pool s')) + sum_list (map held (sy_pcs s'))"
    using c m d h assms(10) by linarith
  let ?F = "sum_list (map inflight (sy_pcs s))" and ?F' = "sum_list (map inflight (sy_pcs s'))"
  let ?Q = "queue_jobs (sy_pool s)" and ?Q' = "queue_jobs (sy_pool s')"
  let ?D = "disk_jobs (sy_pool s)" and ?D' = "disk_jobs (sy_pool s')"
  have "sy_out s' + ?F' + ?Q' + ?D' + sy_lost s' + (f0 + qm + dm) =
      sy_out s' + sy_lost s' + (?F' + f0) + (?Q' + qm) + (?D' + dm)" by (simp only: ac_simps)
  also have "\<dots> = (sy_out s + b) + (sy_lost s + l) + (?F + f1) + (?Q + qp) + (?D + dp)"
    using m f hist by simp
  also have "\<dots> = (sy_out s + ?F + ?Q + ?D + sy_lost s) + (b + l + f1 + qp + dp)"
    by (simp only: ac_simps)
  also have "\<dots> = sy_in s + (a + f0 + qm + dm)" using c A by simp
  also have "\<dots> = sy_in s' + (f0 + qm + dm)" using hist by (simp only: ac_simps)
  finally have "sy_in s' = sy_out s' + ?F' + ?Q' + ?D' + sy_lost s'" by simp
  then show ?thesis using 1 2 by (simp add: counts_def)
qed

text \<open>A step of worker \<open>i\<close> from \<open>c0\<close> to \<open>c\<close>, which may wake another.\<close>

lemma counts_at:
  assumes "counts s" and "moves (sy_pool s) p qm qp dm dp i0 i1 s0 s1"
    and "i < length (sy_pcs s)" and "pcs = sy_pcs s \<or> pcs = wake (sy_pcs s) t"
    and "s' = at (s\<lparr>sy_pool := p, sy_pcs := pcs, sy_in := sy_in s + a, sy_out := sy_out s + b,
                  sy_lost := sy_lost s + l\<rparr>) i c"
    and "c0 = sy_pcs s ! i"
    and "i1 + size qm + owed c0 = i0 + size qp + owed c" and "s1 + size dm + held c0 = s0 + size dp + held c"
    and "a + inflight c0 + qm + dm = b + l + inflight c + qp + dp"
  shows "counts s'"
proof (rule counts_moves [OF assms(1), where qm = qm and qp = qp and dm = dm and dp = dp and ?i0.0 = i0
      and ?i1.0 = i1 and ?s0.0 = s0 and ?s1.0 = s1 and ?x0.0 = "owed c0" and ?x1.0 = "owed c"
      and ?h0.0 = "held c0" and ?h1.0 = "held c" and ?f0.0 = "inflight c0" and ?f1.0 = "inflight c"])
  have l: "i < length pcs" using assms(3,4) by auto
  have w: "owed (pcs ! i) = owed c0" "held (pcs ! i) = held c0" "inflight (pcs ! i) = inflight c0"
    using assms(4,6) wake_fun [of owed] wake_fun [of held] wake_fun [of inflight] by auto
  have sw: "sum_list (map owed pcs) = sum_list (map owed (sy_pcs s))"
    "sum_list (map held pcs) = sum_list (map held (sy_pcs s))"
    "sum_list (map inflight pcs) = sum_list (map inflight (sy_pcs s))"
    using assms(4) sum_wake [of owed] sum_wake [of held] sum_wake [of inflight] by auto
  show "moves (sy_pool s) (sy_pool s') qm qp dm dp i0 i1 s0 s1" using assms(2,5) by (simp add: at_def)
  show "sum_list (map owed (sy_pcs s')) + owed c0 = sum_list (map owed (sy_pcs s)) + owed c"
    using sum_upd [OF l, of owed c] w sw assms(5) by (simp add: at_def)
  show "sum_list (map held (sy_pcs s')) + held c0 = sum_list (map held (sy_pcs s)) + held c"
    using sum_upd [OF l, of held c] w sw assms(5) by (simp add: at_def)
  show "sum_list (map inflight (sy_pcs s')) + inflight c0 = sum_list (map inflight (sy_pcs s)) + inflight c"
    using sum_upd [OF l, of inflight c] w sw assms(5) by (simp add: at_def)
  show "sy_in s' = sy_in s + a" "sy_out s' = sy_out s + b" "sy_lost s' = sy_lost s + l"
    using assms(5) by (simp_all add: at_def)
qed (use assms(7-9) in auto)

section \<open>Swap files and targets\<close>

text \<open>Steps that leave every swap file usable, and its read descriptor open or closed as it was.\<close>

definition reads_open :: "'w thread \<Rightarrow> bool" where
  "reads_open d \<longleftrightarrow> sf_fd (sw_read (th_swap d)) \<noteq> None"

definition keeps :: "'w thread \<Rightarrow> 'w thread \<Rightarrow> bool" where
  "keeps d d' \<longleftrightarrow> (swap_ok (th_swap d) \<longrightarrow> swap_ok (th_swap d') \<and> reads_open d' = reads_open d)"

definition keeps_all :: "'w pool \<Rightarrow> 'w pool \<Rightarrow> bool" where
  "keeps_all p p' \<longleftrightarrow> list_all2 keeps (p_data p) (p_data p')"

lemma keeps_same: "th_swap d' = th_swap d \<Longrightarrow> keeps d d'"
  by (simp add: keeps_def reads_open_def)

lemma keeps_all_same: "map th_swap (p_data p') = map th_swap (p_data p) \<Longrightarrow> keeps_all p p'"
  unfolding keeps_all_def list_all2_conv_all_nth
  by (metis keeps_same length_map nth_map)

lemma keeps_all_upd: "keeps (p_data p ! i) (f (p_data p ! i)) \<Longrightarrow> keeps_all p (upd p i f)"
  unfolding keeps_all_def list_all2_conv_all_nth upd_def
  by (cases "i < length (p_data p)") (auto simp: nth_list_update keeps_same list_update_beyond)

lemma keeps_all_fields [simp]:
  "keeps_all p (q\<lparr>p_incomplete := a\<rparr>) = keeps_all p q" "keeps_all p (q\<lparr>p_swapped := a\<rparr>) = keeps_all p q"
  "keeps_all p (q\<lparr>p_errored := b\<rparr>) = keeps_all p q" "keeps_all p (q\<lparr>p_state := c\<rparr>) = keeps_all p q"
  by (simp_all add: keeps_all_def)

lemma keeps_all_refl [simp]: "keeps_all p p"
  by (simp add: keeps_all_def list_all2_conv_all_nth keeps_same)

lemma keeps_write:
  assumes "write_swap ser (th_swap d) w = (rc, s)"
  shows "keeps d (d\<lparr>th_swap := s\<rparr>)"
  using write_swap_disk [OF _ assms] by (simp add: keeps_def reads_open_def)

lemma push_parts_keep:
  "keeps_all p (push_wait p t w)" "push_swap ser p t w = (dst, p') \<Longrightarrow> keeps_all p p'"
proof -
  show "keeps_all p (push_wait p t w)"
    by (simp add: push_wait_def keeps_all_upd keeps_same)
  show "push_swap ser p t w = (dst, p') \<Longrightarrow> keeps_all p p'"
    by (auto simp: push_swap_def intro!: keeps_all_upd keeps_write split: prod.splits if_splits)
qed

lemma push_keeps:
  "push ser sw p t w = (dst, p') \<Longrightarrow> keeps_all p p'"
  "QPTPool_enqueue_here ser p t queue w = (dst, p') \<Longrightarrow> keeps_all p p'"
  using push_parts_keep(1) [of p t w] push_parts_keep(2) [of ser p t w dst p']
  by (fastforce simp: push_def push_swappable_def QPTPool_enqueue_here_def split: if_splits)+

lemma worker_keeps:
  "keeps_all p (item_done p i rc)" "keeps_all p (claim_work p i)" "keeps_all p (count_work p i n)"
  "pop_claimed p i = (r, p') \<Longrightarrow> keeps_all p p'"
  "reader_next (\<lambda>_. True) p i = (r, p') \<Longrightarrow> keeps_all p p'"
proof -
  show "keeps_all p (item_done p i rc)" "keeps_all p (claim_work p i)" "keeps_all p (count_work p i n)"
    by (auto simp: item_done_def claim_work_def count_work_def intro!: keeps_all_upd keeps_same)
  show "pop_claimed p i = (r, p') \<Longrightarrow> keeps_all p p'"
    by (auto simp: pop_claimed_def intro!: keeps_all_upd keeps_same split: list.splits)
  show "reader_next (\<lambda>_. True) p i = (r, p') \<Longrightarrow> keeps_all p p'"
  proof -
    assume "reader_next (\<lambda>_. True) p i = (r, p')"
    then obtain s where rs: "read_swap (\<lambda>_. True) (th_swap (p_data p ! i)) = (r, s)"
      and p': "p' = upd p i (\<lambda>d. d\<lparr>th_swap := s\<rparr>)"
      by (auto simp: reader_next_def split: prod.splits)
    show "keeps_all p p'" unfolding p'
      using read_swap_disk(1,2) [OF rs]
      by (intro keeps_all_upd) (simp add: keeps_def reads_open_def swap_ok_def)
  qed
qed

definition place_ok :: "nat \<Rightarrow> 'w thread \<Rightarrow> 'w pc \<Rightarrow> bool" where
  "place_ok n d c \<longleftrightarrow> swap_ok (th_swap d) \<and> reads_open d = is_reading c
     \<and> (\<forall>t. target c = Some t \<longrightarrow> t < n)"

definition files :: "'w sys \<Rightarrow> bool" where
  "files s \<longleftrightarrow> p_nthreads (sy_pool s) = length (sy_pcs s) \<and> length (p_data (sy_pool s)) = length (sy_pcs s)
     \<and> (\<forall>i < length (sy_pcs s). place_ok (length (sy_pcs s)) (p_data (sy_pool s) ! i) (sy_pcs s ! i))
     \<and> (\<forall>t v sw. sy_client s = Some (t, v, sw) \<longrightarrow> t < length (sy_pcs s))"

lemma files_target:
  "files s \<Longrightarrow> i < length (sy_pcs s) \<Longrightarrow> target (sy_pcs s ! i) = Some t \<Longrightarrow> t < length (sy_pcs s)"
  by (simp add: files_def place_ok_def)

lemma files_client:
  "files s \<Longrightarrow> sy_client s = Some (t, v, sw) \<Longrightarrow> t < length (sy_pcs s)"
  by (simp add: files_def)

lemma wake_flags: "is_reading (wake pcs t ! i) = is_reading (pcs ! i)" "target (wake pcs t ! i) = target (pcs ! i)"
  by (rule wake_fun; simp)+

lemma files_keeps:
  assumes "files s" and "keeps_all (sy_pool s) p" and "p_nthreads p = p_nthreads (sy_pool s)"
    and "length pcs = length (sy_pcs s)"
    and "\<And>i. i < length pcs \<Longrightarrow> is_reading (pcs ! i) = is_reading (sy_pcs s ! i)"
    and "\<And>i t. i < length pcs \<Longrightarrow> target (pcs ! i) = Some t \<Longrightarrow> t < length pcs"
    and "\<And>t v sw. client = Some (t, v, sw) \<Longrightarrow> t < length pcs"
  shows "files (s\<lparr>sy_pool := p, sy_pcs := pcs, sy_client := client, sy_in := a, sy_out := b, sy_lost := l\<rparr>)"
proof -
  have k: "length (p_data p) = length pcs"
    "\<And>i. i < length pcs \<Longrightarrow> keeps (p_data (sy_pool s) ! i) (p_data p ! i)"
    using assms(1,2,4) by (auto simp: keeps_all_def list_all2_conv_all_nth files_def)
  have "place_ok (length pcs) (p_data p ! i) (pcs ! i)" if i: "i < length pcs" for i
  proof -
    have "place_ok (length pcs) (p_data (sy_pool s) ! i) (sy_pcs s ! i)"
      using assms(1,4) i by (simp add: files_def)
    then show ?thesis
      using k(2) [OF i] assms(5) [OF i] assms(6) [OF i] unfolding place_ok_def keeps_def by blast
  qed
  moreover have "p_nthreads p = length pcs" using assms(1,3,4) by (simp add: files_def)
  ultimately show ?thesis
    unfolding files_def using k(1) assms(7) by simp
qed

lemma files_at:
  assumes "files s" and "keeps_all (sy_pool s) p" and "p_nthreads p = p_nthreads (sy_pool s)"
    and "i < length (sy_pcs s)" and "pcs = sy_pcs s \<or> pcs = wake (sy_pcs s) t"
    and "is_reading c = is_reading (sy_pcs s ! i)" and "\<And>t. target c = Some t \<Longrightarrow> t < length (sy_pcs s)"
  shows "files (at (s\<lparr>sy_pool := p, sy_pcs := pcs, sy_in := a, sy_out := b, sy_lost := l\<rparr>) i c)"
proof -
  have w: "is_reading (pcs ! j) = is_reading (sy_pcs s ! j)" "target (pcs ! j) = target (sy_pcs s ! j)" for j
    using assms(5) wake_fun [of is_reading] wake_fun [of target] by auto
  have "files (s\<lparr>sy_pool := p, sy_pcs := pcs[i := c], sy_client := sy_client s, sy_in := a, sy_out := b, sy_lost := l\<rparr>)"
  proof (rule files_keeps [OF assms(1-3)])
    show "length (pcs[i := c]) = length (sy_pcs s)" using assms(5) by auto
    show "is_reading (pcs[i := c] ! j) = is_reading (sy_pcs s ! j)" if "j < length (pcs[i := c])" for j
      using assms(4-6) w that by (cases "j = i") auto
    show "t < length (pcs[i := c])" if "j < length (pcs[i := c])" "target (pcs[i := c] ! j) = Some t" for j t
    proof (cases "j = i")
      case True
      then show ?thesis using that assms(5,7) by auto
    next
      case False
      then have "target (sy_pcs s ! j) = Some t" using that w by simp
      then show ?thesis using that(1) assms(1,5) by (auto simp: files_def place_ok_def)
    qed
    show "t < length (pcs[i := c])" if "sy_client s = Some (t, v, sw)" for t v sw
      using assms(1,5) that by (auto simp: files_def)
  qed
  then show ?thesis by (simp add: at_def files_def)
qed

section \<open>The invariant\<close>

text \<open>
  Before the start there are no workers; stopping is the client's last call; once a worker leaves
  without an error, nothing is left to do.
\<close>

definition phases :: "'w sys \<Rightarrow> bool" where
  "phases s \<longleftrightarrow>
     (p_state (sy_pool s) = INITIALIZED \<longrightarrow> (\<forall>c \<in> set (sy_pcs s). c = Off))
     \<and> (p_state (sy_pool s) = STOPPING \<longrightarrow> sy_client s = None)"

definition pool_inv :: "'w sys \<Rightarrow> bool" where
  "pool_inv s \<longleftrightarrow> counts s \<and> files s \<and> phases s"

definition pool_start_state :: "'w sys \<Rightarrow> bool" where
  "pool_start_state s \<longleftrightarrow>
     p_nthreads (sy_pool s) = length (sy_pcs s) \<and> length (p_data (sy_pool s)) = length (sy_pcs s)
     \<and> p_state (sy_pool s) = INITIALIZED \<and> p_incomplete (sy_pool s) = 0 \<and> p_swapped (sy_pool s) = 0
     \<and> (\<forall>d \<in> set (p_data (sy_pool s)). th_claimed d = [] \<and> th_waiting d = []
          \<and> fd_jobs (sf_fd (sw_write (th_swap d))) = [] \<and> swap_ok (th_swap d) \<and> \<not> reads_open d)
     \<and> sy_pcs s = replicate (length (sy_pcs s)) Off
     \<and> sy_client s = None \<and> sy_in s = {#} \<and> sy_out s = {#} \<and> sy_lost s = {#}"

lemma idle_sums:
  assumes "\<forall>c \<in> set pcs. c = Off \<or> c = Top"
  shows "sum_list (map owed pcs) = 0" "sum_list (map held pcs) = 0" "sum_list (map inflight pcs) = {#}"
  using assms by (induction pcs) auto

lemma start_inv:
  assumes "pool_start_state s"
  shows "pool_inv s"
proof -
  note a = assms [unfolded pool_start_state_def]
  have pcs: "c = Off" if "c \<in> set (sy_pcs s)" for c
    using a that by (metis in_set_replicate)
  have "sum_list (map owed (sy_pcs s)) = 0" "sum_list (map held (sy_pcs s)) = 0"
    "sum_list (map inflight (sy_pcs s)) = {#}"
    using idle_sums [of "sy_pcs s"] pcs by auto
  moreover have "thread_jobs d = 0" "thread_disk d = 0" if "d \<in> set (p_data (sy_pool s))" for d
    using a that by (auto simp: thread_jobs_def thread_disk_def fd_rest_def reads_open_def split: option.splits)
  then have "queue_jobs (sy_pool s) = {#}" "disk_jobs (sy_pool s) = {#}"
    unfolding queue_jobs_def disk_jobs_def
    using sum_list_zero [of "p_data (sy_pool s)" thread_jobs] sum_list_zero [of "p_data (sy_pool s)" thread_disk]
    by simp_all
  ultimately have "counts s" using a by (simp add: counts_def)
  moreover have "files s"
    unfolding files_def place_ok_def using a pcs
    by (metis is_reading.simps(3) nth_mem option.distinct(1) target.simps(3))
  moreover have "phases s" using a pcs by (auto simp: phases_def)
  ultimately show ?thesis by (simp add: pool_inv_def)
qed

lemma owed_le: "counts s \<Longrightarrow> i < length (sy_pcs s) \<Longrightarrow> owed (sy_pcs s ! i) \<le> p_incomplete (sy_pool s)"
  using member_le_sum_list [of "owed (sy_pcs s ! i)" "map owed (sy_pcs s)"] by (force simp: counts_def)

lemma held_le: "counts s \<Longrightarrow> i < length (sy_pcs s) \<Longrightarrow> held (sy_pcs s ! i) \<le> p_swapped (sy_pool s)"
  using member_le_sum_list [of "held (sy_pcs s ! i)" "map held (sy_pcs s)"] by (force simp: counts_def)

lemma at_plain: "at (s\<lparr>sy_pool := p\<rparr>) i c =
    at (s\<lparr>sy_pool := p, sy_pcs := sy_pcs s, sy_in := sy_in s + {#}, sy_out := sy_out s + {#},
          sy_lost := sy_lost s + {#}\<rparr>) i c"
  by (simp add: at_def)

text \<open>A worker's step that only changes the pool and its own place, without moving any job.\<close>

lemma counts_still:
  assumes "counts s" and "i < length (sy_pcs s)" and "still (sy_pool s) p"
    and "owed c = owed (sy_pcs s ! i)" and "held c = held (sy_pcs s ! i)" and "inflight c = inflight (sy_pcs s ! i)"
  shows "counts (at (s\<lparr>sy_pool := p\<rparr>) i c)"
  by (rule counts_at [OF assms(1) assms(3) assms(2) disjI1 [OF refl] at_plain refl])
    (use assms(4-6) in simp_all)

lemma still_refl [simp]: "still p p"
  by (simp add: moves_def)

lemma counts_stay:
  assumes "counts s" and "i < length (sy_pcs s)"
    and "owed c = owed (sy_pcs s ! i)" and "held c = held (sy_pcs s ! i)" and "inflight c = inflight (sy_pcs s ! i)"
  shows "counts (at s i c)"
  using counts_still [OF assms(1,2) still_refl assms(3-5)] by (simp add: at_def)

lemma still_trans: "still p q \<Longrightarrow> moves q r qm qp dm dp i0 i1 s0 s1 \<Longrightarrow> moves p r qm qp dm dp i0 i1 s0 s1"
  by (simp add: moves_def)

lemma moves_still: "moves p q qm qp dm dp i0 i1 s0 s1 \<Longrightarrow> still q r \<Longrightarrow> moves p r qm qp dm dp i0 i1 s0 s1"
  by (simp add: moves_def)

text \<open>A push by worker \<open>i\<close> or by the client.\<close>

lemma counts_push:
  assumes "counts s" and p: "pushed (sy_pool s) p v dst"
  shows "counts (s\<lparr>sy_pool := p, sy_pcs := wake (sy_pcs s) t, sy_client := cl, sy_in := sy_in s + accepted dst v\<rparr>)"
proof -
  have sw: "sum_list (map owed (wake (sy_pcs s) t)) = sum_list (map owed (sy_pcs s))"
    "sum_list (map held (wake (sy_pcs s) t)) = sum_list (map held (sy_pcs s))"
    "sum_list (map inflight (wake (sy_pcs s) t)) = sum_list (map inflight (sy_pcs s))"
    by (rule sum_wake; simp)+
  obtain qp dp where m: "moves (sy_pool s) p {#} qp {#} dp 0 (size qp) 0 (size dp)" "qp + dp = accepted dst v"
    using p by (rule pushedE)
  show ?thesis
    by (rule counts_moves [OF assms(1), where a = "accepted dst v" and b = "{#}" and l = "{#}" and
          qm = "{#}" and qp = qp and dm = "{#}" and dp = dp and ?i0.0 = 0 and ?i1.0 = "size qp" and ?s0.0 = 0
          and ?s1.0 = "size dp" and ?x0.0 = 0 and ?x1.0 = 0 and ?h0.0 = 0 and ?h1.0 = 0 and ?f0.0 = "{#}" and ?f1.0 = "{#}"])
      (use m sw in simp_all)
qed

lemma counts_push_at:
  assumes "counts s" and p: "pushed (sy_pool s) p v dst"
    and "i < length (sy_pcs s)"
    and "owed c = owed (sy_pcs s ! i)" and "held c = held (sy_pcs s ! i)" and "inflight c = inflight (sy_pcs s ! i)"
  shows "counts (at (s\<lparr>sy_pool := p, sy_pcs := wake (sy_pcs s) t, sy_in := sy_in s + accepted dst v\<rparr>) i c)"
proof -
  let ?s1 = "s\<lparr>sy_pool := p, sy_pcs := wake (sy_pcs s) t, sy_client := sy_client s, sy_in := sy_in s + accepted dst v\<rparr>"
  have "counts ?s1" by (rule counts_push [OF assms(1) p])
  moreover have "owed (wake (sy_pcs s) t ! i) = owed (sy_pcs s ! i)" "held (wake (sy_pcs s) t ! i) = held (sy_pcs s ! i)"
    "inflight (wake (sy_pcs s) t ! i) = inflight (sy_pcs s ! i)"
    by (rule wake_fun; simp)+
  ultimately have "counts (at ?s1 i c)" using assms(3-6) by (intro counts_stay) simp_all
  then show ?thesis by simp
qed

lemma counts_read_push:
  assumes "counts s" and "i < length (sy_pcs s)" and "sy_pcs s ! i = ReadPush n k t w"
    and p: "pushed (sy_pool s) p w dst"
  shows "counts (at (s\<lparr>sy_pool := p, sy_pcs := wake (sy_pcs s) t, sy_lost := sy_lost s + ({#w#} - accepted dst w)\<rparr>)
    i (Reading n (k + 1)))"
proof -
  obtain qp dp where m: "moves (sy_pool s) p {#} qp {#} dp 0 (size qp) 0 (size dp)" "qp + dp = accepted dst w"
    "accepted dst w = {#w#} \<or> accepted dst w = {#}"
    using p by (rule pushedE)
  show ?thesis
    by (rule counts_at [OF assms(1) m(1) assms(2) disjI2 [OF refl], where a = "{#}" and b = "{#}" and
          l = "{#w#} - accepted dst w", OF _ refl])
      (use m assms(3) in \<open>auto simp: at_def\<close>)
qed

lemma files_here:
  assumes "files s" and "i < length (sy_pcs s)"
  shows "i < length (p_data (sy_pool s))" and "swap_ok (th_swap (p_data (sy_pool s) ! i))"
    and "p_nthreads (sy_pool s) = length (p_data (sy_pool s))"
    and "target (sy_pcs s ! i) = Some t \<Longrightarrow> t < length (p_data (sy_pool s)) \<and> swap_ok (th_swap (p_data (sy_pool s) ! t))"
    and "\<not> is_reading (sy_pcs s ! i) \<Longrightarrow> sf_fd (sw_read (th_swap (p_data (sy_pool s) ! i))) = None"
  using assms by (auto simp: files_def place_ok_def reads_open_def simp del: not_None_eq)

lemma counts_step:
  assumes "pool_step nxt ser s s'" and "counts s" and "files s" and ph: "phases s"
  shows "counts s'"
  using assms(1)
proof (cases rule: pool_step.cases)
  case (top i locked cl p c)
  then show ?thesis
    using steal_still [OF top(4) files_here(1,3) [OF assms(3) top(2)]] assms(2)
    by (auto intro!: counts_still)
next
  case (awake i p c)
  then show ?thesis using assms(2) by (auto intro!: counts_stay)
next
  case (spurious i)
  then show ?thesis using assms(2) by (auto intro!: counts_stay)
next
  case (claim i)
  then show ?thesis
    using claim_still [OF files_here(1) [OF assms(3) claim(2)]] assms(2) by (auto intro!: counts_still)
next
  case (pop_none i n p)
  then show ?thesis using assms(2) by (auto intro!: counts_stay)
next
  case (pop_user i n w p)
  show ?thesis unfolding pop_user(1)
    by (rule counts_at [OF assms(2) pop_moves [OF files_here(1) [OF assms(3) pop_user(2)] pop_user(4)]
          pop_user(2) disjI1 [OF refl] at_plain refl]) (simp_all add: pop_user(3))
next
  case (pop_reader i n p)
  show ?thesis unfolding pop_reader(1)
    by (rule counts_at [OF assms(2) pop_moves [OF files_here(1) [OF assms(3) pop_reader(2)] pop_reader(4)]
          pop_reader(2) disjI1 [OF refl] at_plain refl]) (simp_all add: pop_reader(3))
next
  case (run_pick i w n v t p sw)
  then show ?thesis
    using pick_queue_still [OF files_here(1) [OF assms(3) run_pick(2)] run_pick(4)] assms(2)
    by (auto intro!: counts_still)
next
  case (run_push i w n t v sw dst p)
  have "t < length (p_data (sy_pool s)) \<and> swap_ok (th_swap (p_data (sy_pool s) ! t))"
    by (rule files_here(4) [OF assms(3) run_push(2)]) (simp add: run_push(3))
  then have "pushed (sy_pool s) p v dst" using push_moves run_push(4) by blast
  then show ?thesis unfolding run_push(1)
    by (rule counts_push_at [OF assms(2)]) (simp_all add: run_push(2,3))
next
  case (run_here i w n t queue v dst p)
  have "pushed (sy_pool s) p (User v) dst"
    using enqueue_here_moves [OF files_here(1,2) [OF assms(3) run_here(4)] run_here(5)] .
  from counts_push [OF assms(2) this, where t = t and cl = "sy_client s"] show ?thesis unfolding run_here(1) by simp
next
  case (run_end i w n c rc)
  have "s' = at (s\<lparr>sy_pool := item_done (sy_pool s) i rc, sy_pcs := sy_pcs s, sy_in := sy_in s + {#},
      sy_out := sy_out s + {#User w#}, sy_lost := sy_lost s + {#}\<rparr>) i c" using run_end(1) by simp
  from counts_at [OF assms(2) item_done_still [OF files_here(1) [OF assms(3) run_end(2)]] run_end(2)
      disjI1 [OF refl] this refl]
  show ?thesis using run_end(3,4) by simp
next
  case (read_prep i n ok p)
  note h = files_here [OF assms(3) read_prep(2)]
  have "sf_fd (sw_read (th_swap (p_data (sy_pool s) ! i))) = None" using h(5) read_prep(3) by simp
  then have st: "still (sy_pool s) p" using reader_prep_still [OF h(1,2) _ read_prep(4)] by blast
  then have st': "still (sy_pool s) (item_done p i 0)"
    using still_trans [OF st item_done_still] h(1) by (simp add: moves_def)
  show ?thesis
  proof (cases ok)
    case True
    then show ?thesis unfolding read_prep(1) using st read_prep(2,3) assms(2) by (auto intro!: counts_still)
  next
    case False
    have "s' = at (s\<lparr>sy_pool := item_done p i 0, sy_pcs := sy_pcs s, sy_in := sy_in s + {#},
        sy_out := sy_out s + {#SwapReader#}, sy_lost := sy_lost s + {#}\<rparr>) i (Process (n + 1))"
      using read_prep(1) False by simp
    from counts_at [OF assms(2) st' read_prep(2) disjI1 [OF refl] this refl]
    show ?thesis using read_prep(3) by simp
  qed
next
  case (read_pick i n k w p1 t p2)
  note h = files_here [OF assms(3) read_pick(2)]
  have m: "moves (sy_pool s) p1 {#} {#} {#w#} {#} 0 0 0 0" by (rule reader_next_moves [OF h(1) read_pick(4)])
  have "i < length (p_data p1)" using m h(1) by (simp add: moves_def)
  then have m2: "moves (sy_pool s) p2 {#} {#} {#w#} {#} 0 0 0 0"
    using moves_still [OF m] pick_queue_still read_pick(5) by blast
  show ?thesis unfolding read_pick(1)
    by (rule counts_at [OF assms(2) m2 read_pick(2) disjI1 [OF refl] at_plain refl]) (simp_all add: read_pick(3))
next
  case (read_refused i n k w p1)
  note h = files_here [OF assms(3) read_refused(2)]
  have m: "moves (sy_pool s) p1 {#} {#} {#w#} {#} 0 0 0 0" by (rule reader_next_moves [OF h(1) read_refused(4)])
  have "s' = at (s\<lparr>sy_pool := p1, sy_pcs := sy_pcs s, sy_in := sy_in s + {#},
      sy_out := sy_out s + {#}, sy_lost := sy_lost s + {#w#}\<rparr>) i (Reading n (k + 1))"
    using read_refused(1) by simp
  from counts_at [OF assms(2) m read_refused(2) disjI1 [OF refl] this refl]
  show ?thesis using read_refused(3) by simp
next
  case (read_push i n k t w dst p)
  have "t < length (p_data (sy_pool s)) \<and> swap_ok (th_swap (p_data (sy_pool s) ! t))"
    by (rule files_here(4) [OF assms(3) read_push(2)]) (simp add: read_push(3))
  then have "pushed (sy_pool s) p w dst"
    using push_moves [of t "sy_pool s" ser True w dst p] read_push(4) by (simp add: push_def)
  from counts_read_push [OF assms(2) read_push(2,3) this] show ?thesis unfolding read_push(1) .
next
  case (read_end i n k p)
  note h = files_here [OF assms(3) read_end(2)]
  have k: "k \<le> p_swapped (sy_pool s)" using held_le [OF assms(2) read_end(2)] read_end(3) by simp
  have m: "moves (sy_pool s) (reader_end p i k) {#} {#} {#} {#} 0 0 k 0"
    by (rule reader_end_moves [OF h(1) read_end(4) k])
  have "i < length (p_data (reader_end p i k))" using m h(1) by (simp add: moves_def)
  then have m2: "moves (sy_pool s) (item_done (reader_end p i k) i 0) {#} {#} {#} {#} 0 0 k 0"
    using moves_still [OF m] item_done_still by blast
  have "s' = at (s\<lparr>sy_pool := item_done (reader_end p i k) i 0, sy_pcs := sy_pcs s, sy_in := sy_in s + {#},
      sy_out := sy_out s + {#SwapReader#}, sy_lost := sy_lost s + {#}\<rparr>) i (Process (n + 1))"
    using read_end(1) by simp
  from counts_at [OF assms(2) m2 read_end(2) disjI1 [OF refl] this refl]
  show ?thesis using read_end(3) by simp
next
  case (counted i n)
  have n: "n \<le> p_incomplete (sy_pool s)" using owed_le [OF assms(2) counted(2)] counted(3) by simp
  show ?thesis unfolding counted(1)
    by (rule counts_at [OF assms(2) count_moves [OF files_here(1) [OF assms(3) counted(2)] n] counted(2)
          disjI1 [OF refl] at_plain refl]) (simp_all add: counted(3))
next
  case (signal i k)
  have "counts (s\<lparr>sy_pool := sy_pool s, sy_pcs := wake (sy_pcs s) k, sy_client := sy_client s,
      sy_in := sy_in s + accepted ENQUEUE_ERROR SwapReader\<rparr>)"
    by (rule counts_push [OF assms(2)]) (simp add: pushed_def)
  then have "counts (s\<lparr>sy_pcs := wake (sy_pcs s) k\<rparr>)" by (simp add: accepted_def)
  moreover have "wake (sy_pcs s) k ! i = Signal k" using signal(3) by (auto simp: wake_nth)
  ultimately show ?thesis unfolding signal(1) using signal(2) by (intro counts_stay) simp_all
next
  case (exit i k)
  then show ?thesis using assms(2) by (auto intro!: counts_stay)
next
  case (client_pick v t p sw)
  have "0 < length (p_data (sy_pool s))" using client_pick(4) assms(3) by (simp add: files_def)
  from pick_queue_still [OF this client_pick(5)] show ?thesis
    using assms(2) unfolding client_pick(1) by (simp add: counts_def moves_def)
next
  case (client_push t v sw dst p)
  have "t < length (sy_pcs s)" using client_push(2) assms(3) by (simp add: files_def)
  then have "pushed (sy_pool s) p v dst"
    using push_moves [OF files_here(1,2) [OF assms(3)] client_push(3)] by blast
  from counts_push [OF assms(2) this] show ?thesis unfolding client_push(1) .
next
  case (client_here t queue v dst p)
  have "pushed (sy_pool s) p v dst"
    using enqueue_here_moves [OF files_here(1,2) [OF assms(3) client_here(4)] client_here(5)] .
  from counts_push [OF assms(2) this, where t = t and cl = "sy_client s"] show ?thesis unfolding client_here(1) by simp
next
  case (client_start p)
  have off: "c = Off" if "c \<in> set (sy_pcs s)" for c using ph client_start(3) that by (simp add: phases_def)
  note z = idle_sums [of "sy_pcs s"] idle_sums [of "map (\<lambda>_. Top) (sy_pcs s)"]
  have "p = (sy_pool s)\<lparr>p_state := RUNNING\<rparr>"
    using client_start(4) by (simp add: QPTPool_start_def split: if_splits)
  then show ?thesis
    using assms(2) z off unfolding client_start(1) by (simp add: counts_def del: map_map)
next
  case client_stop
  show ?thesis using assms(2) unfolding client_stop(1) by (simp add: counts_def woken_comp)
qed

lemma reader_prep_files:
  assumes "i < length (p_data p)" and "swap_ok (th_swap (p_data p ! i))"
    and "sf_fd (sw_read (th_swap (p_data p ! i))) = None" and "reader_prep True True p i = (ok, p')"
  shows "swap_ok (th_swap (p_data p' ! j)) = swap_ok (th_swap (p_data p ! j))"
    and "reads_open (p_data p' ! j) = (if j = i then ok else reads_open (p_data p ! j))"
    and "length (p_data p') = length (p_data p)" and "p_nthreads p' = p_nthreads p"
proof -
  obtain rc s where rs: "swap_read_prep True True (th_swap (p_data p ! i)) = (rc, s)" by fastforce
  have p': "p' = upd p i (\<lambda>d. d\<lparr>th_swap := s\<rparr>)" and ok: "ok \<longleftrightarrow> rc = 0"
    using assms(4) rs by (auto simp: reader_prep_def)
  note d = swap_read_prep_disk(1-3) [OF assms(2,3) rs]
  show "swap_ok (th_swap (p_data p' ! j)) = swap_ok (th_swap (p_data p ! j))"
    using d(1) assms(2) by (simp add: p' upd_nth [OF assms(1)])
  show "reads_open (p_data p' ! j) = (if j = i then ok else reads_open (p_data p ! j))"
    using d(2,3) ok by (auto simp: p' upd_nth [OF assms(1)] reads_open_def)
  show "length (p_data p') = length (p_data p)" "p_nthreads p' = p_nthreads p" by (simp_all add: p')
qed

lemma reader_end_files:
  fixes k :: nat
  assumes "i < length (p_data p)" and "swap_ok (th_swap (p_data p ! i))"
    and "reader_next (\<lambda>_. True) p i = (None, p1)"
  defines "p' \<equiv> reader_end p1 i k"
  shows "swap_ok (th_swap (p_data p' ! j)) = swap_ok (th_swap (p_data p ! j))"
    and "reads_open (p_data p' ! j) = (j \<noteq> i \<and> reads_open (p_data p ! j))"
    and "length (p_data p') = length (p_data p)" and "p_nthreads p' = p_nthreads p"
proof -
  obtain s where rs: "read_swap (\<lambda>_. True) (th_swap (p_data p ! i)) = (None, s)"
    and p1: "p1 = upd p i (\<lambda>d. d\<lparr>th_swap := s\<rparr>)"
    using assms(3) by (auto simp: reader_next_def split: prod.splits)
  have "s = th_swap (p_data p ! i)" using read_swap_disk(4) [OF rs] by simp
  then have p1': "p1 = p" unfolding p1 upd_def by (cases p) simp
  show "swap_ok (th_swap (p_data p' ! j)) = swap_ok (th_swap (p_data p ! j))"
    "reads_open (p_data p' ! j) = (j \<noteq> i \<and> reads_open (p_data p ! j))"
    "length (p_data p') = length (p_data p)" "p_nthreads p' = p_nthreads p"
    using assms(2)
    by (auto simp: p'_def p1' reader_end_def upd_nth [OF assms(1)] reads_open_def swap_read_done_def
        no_file_def swap_ok_def)
qed

text \<open>A reader's step that opens or closes the read descriptor of its own thread.\<close>

lemma files_reader:
  assumes "files s" and "i < length (sy_pcs s)" and "target c = None"
    and "\<And>j. swap_ok (th_swap (p_data p ! j)) = swap_ok (th_swap (p_data (sy_pool s) ! j))"
    and "\<And>j. j \<noteq> i \<Longrightarrow> reads_open (p_data p ! j) = reads_open (p_data (sy_pool s) ! j)"
    and "reads_open (p_data p ! i) = is_reading c"
    and "length (p_data p) = length (p_data (sy_pool s))" and "p_nthreads p = p_nthreads (sy_pool s)"
  shows "files (at (s\<lparr>sy_pool := p, sy_out := b\<rparr>) i c)"
proof -
  have "place_ok (length (sy_pcs s)) (p_data p ! j) ((sy_pcs s)[i := c] ! j)"
    if j: "j < length (sy_pcs s)" for j
  proof -
    have F: "place_ok (length (sy_pcs s)) (p_data (sy_pool s) ! j) (sy_pcs s ! j)"
      using assms(1) j by (simp add: files_def)
    show ?thesis
    proof (cases "j = i")
      case True
      then show ?thesis using F assms(2,3,6) assms(4) [of j] by (simp add: place_ok_def)
    next
      case False
      then have "(sy_pcs s)[i := c] ! j = sy_pcs s ! j" by simp
      then show ?thesis using F assms(4) [of j] assms(5) [OF False] unfolding place_ok_def by metis
    qed
  qed
  then show ?thesis using assms(1,7,8) by (simp add: files_def at_def)
qed

lemma files_item_done:
  assumes "files s"
  shows "files (s\<lparr>sy_pool := item_done (sy_pool s) j rc\<rparr>)"
proof -
  have "files (s\<lparr>sy_pool := item_done (sy_pool s) j rc, sy_pcs := sy_pcs s, sy_client := sy_client s,
      sy_in := sy_in s, sy_out := sy_out s, sy_lost := sy_lost s\<rparr>)"
    by (rule files_keeps [OF assms worker_keeps(1)]) (use assms files_target [OF assms] files_client [OF assms] in \<open>auto simp: item_done_def\<close>)
  then show ?thesis by simp
qed

lemma files_stay:
  assumes "files s" and "i < length (sy_pcs s)" and "is_reading c = is_reading (sy_pcs s ! i)"
    and "target c = None"
  shows "files (at s i c)"
proof -
  have "files (at (s\<lparr>sy_pool := sy_pool s, sy_pcs := sy_pcs s, sy_in := sy_in s, sy_out := sy_out s,
      sy_lost := sy_lost s\<rparr>) i c)"
    by (rule files_at [OF assms(1) keeps_all_refl refl assms(2) disjI1 [OF refl] assms(3)]) (simp add: assms(4))
  then show ?thesis by simp
qed

lemma files_step:
  assumes "pool_step nxt ser s s'" and f: "files s" and "phases s"
  shows "files s'"
  using assms(1)
proof (cases rule: pool_step.cases)
  case (top i locked cl p c)
  have k: "keeps_all (sy_pool s) p" "p_nthreads p = p_nthreads (sy_pool s)"
    using steal_still [OF top(4) files_here(1,3) [OF f top(2)]] by (auto intro: keeps_all_same simp: moves_def)
  show ?thesis unfolding top(1) at_plain
    by (rule files_at [OF f k top(2) disjI1 [OF refl]]) (auto simp: top(3,5) split: if_splits)
next
  case (awake i p c)
  show ?thesis unfolding awake(1) by (rule files_stay [OF f awake(2)]) (simp_all add: awake(3,5))
next
  case (spurious i)
  show ?thesis unfolding spurious(1) by (rule files_stay [OF f spurious(2)]) (simp_all add: spurious(3))
next
  case (claim i)
  show ?thesis unfolding claim(1) at_plain
    by (rule files_at [OF f worker_keeps(2) _ claim(2) disjI1 [OF refl]]) (simp_all add: claim(3) claim_work_def)
next
  case (pop_none i n p)
  show ?thesis unfolding pop_none(1) by (rule files_stay [OF f pop_none(2)]) (simp_all add: pop_none(3))
next
  case (pop_user i n w p)
  have "p_nthreads p = p_nthreads (sy_pool s)" using pop_user(4) by (auto simp: pop_claimed_def split: list.splits)
  then show ?thesis unfolding pop_user(1) at_plain
    by (rule files_at [OF f worker_keeps(4) [OF pop_user(4)] _ pop_user(2) disjI1 [OF refl]]) (simp_all add: pop_user(3))
next
  case (pop_reader i n p)
  have "p_nthreads p = p_nthreads (sy_pool s)" using pop_reader(4) by (auto simp: pop_claimed_def split: list.splits)
  then show ?thesis unfolding pop_reader(1) at_plain
    by (rule files_at [OF f worker_keeps(4) [OF pop_reader(4)] _ pop_reader(2) disjI1 [OF refl]])
      (simp_all add: pop_reader(3))
next
  case (run_pick i w n v t p sw)
  note k = pick_queue_still [OF files_here(1) [OF f run_pick(2)] run_pick(4)]
  have n: "p_nthreads p = p_nthreads (sy_pool s)" using k by (simp add: moves_def)
  show ?thesis unfolding run_pick(1) at_plain
    by (rule files_at [OF f keeps_all_same n run_pick(2) disjI1 [OF refl]])
      (use k f in \<open>auto simp: run_pick(3) files_def\<close>)
next
  case (run_push i w n t v sw dst p)
  have t: "t < length (p_data (sy_pool s)) \<and> swap_ok (th_swap (p_data (sy_pool s) ! t))"
    by (rule files_here(4) [OF f run_push(2)]) (simp add: run_push(3))
  then have "p_nthreads p = p_nthreads (sy_pool s)"
    using push_moves [OF _ _ run_push(4)] by (auto simp: pushed_def moves_def)
  from files_at [OF f push_keeps(1) [OF run_push(4)] this run_push(2) disjI2 [OF refl], where c = "Running w n" and t = t
      and a = "sy_in s + accepted dst v" and b = "sy_out s" and l = "sy_lost s"]
  show ?thesis unfolding run_push(1) by (simp add: run_push(3))
next
  case (run_here i w n t queue v dst p)
  have n: "p_nthreads p = p_nthreads (sy_pool s)"
    using enqueue_here_moves [OF files_here(1,2) [OF f run_here(4)] run_here(5)] by (auto simp: pushed_def moves_def)
  have "files (s\<lparr>sy_pool := p, sy_pcs := wake (sy_pcs s) t, sy_client := sy_client s,
      sy_in := sy_in s + accepted dst (User v), sy_out := sy_out s, sy_lost := sy_lost s\<rparr>)"
    by (rule files_keeps [OF f push_keeps(2) [OF run_here(5)] n])
      (use files_target [OF f] files_client [OF f] in \<open>auto simp: wake_flags\<close>)
  then show ?thesis unfolding run_here(1) by simp
next
  case (run_end i w n c rc)
  have c: "\<not> is_reading c" "target c = None" using run_end(4) by auto
  have "p_nthreads (item_done (sy_pool s) i rc) = p_nthreads (sy_pool s)" by (simp add: item_done_def)
  from files_at [OF f worker_keeps(1) this run_end(2) disjI1 [OF refl], where c = c
      and a = "sy_in s" and b = "sy_out s + {#User w#}" and l = "sy_lost s"] show ?thesis
    unfolding run_end(1) using run_end(3) c by (simp add: at_def)
next
  case (read_prep i n ok p)
  note h = files_here [OF f read_prep(2)]
  have none: "sf_fd (sw_read (th_swap (p_data (sy_pool s) ! i))) = None" using h(5) read_prep(3) by simp
  note r = reader_prep_files [OF h(1,2) none read_prep(4)]
  have 1: "files (at (s\<lparr>sy_pool := p, sy_out := b\<rparr>) i c)" if "target c = None" "is_reading c = ok" for c b
    by (rule files_reader [OF f read_prep(2)]) (use r that in auto)
  show ?thesis
  proof (cases ok)
    case True
    then show ?thesis unfolding read_prep(1) using 1 [of "Reading n 0" "sy_out s"] by simp
  next
    case False
    have "files (at (s\<lparr>sy_pool := p, sy_out := sy_out s + {#SwapReader#}\<rparr>) i (Process (n + 1)))"
      using 1 False by simp
    from files_item_done [OF this, of i 0] show ?thesis
      unfolding read_prep(1) using False by (simp add: at_def files_def)
  qed
next
  case (read_pick i n k w p1 t p2)
  note h = files_here [OF f read_pick(2)]
  have m: "moves (sy_pool s) p1 {#} {#} {#w#} {#} 0 0 0 0" by (rule reader_next_moves [OF h(1) read_pick(4)])
  have "i < length (p_data p1)" using m h(1) by (simp add: moves_def)
  note pk = pick_queue_still [OF this read_pick(5)]
  have "keeps_all (sy_pool s) p2"
    using worker_keeps(5) [OF read_pick(4)] keeps_all_same [of p2 p1] pk
    by (auto simp: keeps_all_def list_all2_conv_all_nth keeps_def moves_def)
  moreover have "p_nthreads p2 = p_nthreads (sy_pool s)" using m pk by (simp add: moves_def)
  moreover have "t < length (sy_pcs s)" using m pk f by (simp add: moves_def files_def)
  ultimately show ?thesis unfolding read_pick(1) at_plain
    by (intro files_at [OF f _ _ read_pick(2) disjI1 [OF refl]]) (auto simp: read_pick(3))
next
  case (read_refused i n k w p1)
  have "p_nthreads p1 = p_nthreads (sy_pool s)"
    using reader_next_moves [OF files_here(1) [OF f read_refused(2)] read_refused(4)] by (simp add: moves_def)
  from files_at [OF f worker_keeps(5) [OF read_refused(4)] this read_refused(2) disjI1 [OF refl], where c = "Reading n (k + 1)"
      and a = "sy_in s" and b = "sy_out s" and l = "sy_lost s + {#w#}"]
  show ?thesis unfolding read_refused(1) by (simp add: read_refused(3) at_def)
next
  case (read_push i n k t w dst p)
  have pu: "push ser True (sy_pool s) t w = (dst, p)" using read_push(4) by (simp add: push_def)
  have "t < length (p_data (sy_pool s)) \<and> swap_ok (th_swap (p_data (sy_pool s) ! t))"
    by (rule files_here(4) [OF f read_push(2)]) (simp add: read_push(3))
  then have "p_nthreads p = p_nthreads (sy_pool s)"
    using push_moves [OF _ _ pu] by (auto simp: pushed_def moves_def)
  from files_at [OF f push_keeps(1) [OF pu] this read_push(2) disjI2 [OF refl], where c = "Reading n (k + 1)"
      and t = t and a = "sy_in s" and b = "sy_out s" and l = "sy_lost s + ({#w#} - accepted dst w)"]
  show ?thesis unfolding read_push(1) by (simp add: read_push(3) at_def)
next
  case (read_end i n k p)
  note h = files_here [OF f read_end(2)]
  note r = reader_end_files [OF h(1,2) read_end(4), where k = k]
  have "files (at (s\<lparr>sy_pool := reader_end p i k, sy_out := sy_out s + {#SwapReader#}\<rparr>) i (Process (n + 1)))"
    by (rule files_reader [OF f read_end(2)]) (use r in auto)
  from files_item_done [OF this, of i 0] show ?thesis
    unfolding read_end(1) by (simp add: at_def files_def)
next
  case (counted i n)
  have "p_nthreads (count_work (sy_pool s) i n) = p_nthreads (sy_pool s)" by (simp add: count_work_def)
  then show ?thesis unfolding counted(1) at_plain
    by (rule files_at [OF f worker_keeps(3) _ counted(2) disjI1 [OF refl]]) (simp_all add: counted(3))
next
  case (signal i k)
  have "files (at (s\<lparr>sy_pool := sy_pool s, sy_pcs := wake (sy_pcs s) k, sy_in := sy_in s, sy_out := sy_out s,
      sy_lost := sy_lost s\<rparr>) i (Signal (k + 1)))"
    by (rule files_at [OF f keeps_all_refl refl signal(2) disjI2 [OF refl]]) (simp_all add: signal(3))
  then show ?thesis unfolding signal(1) by simp
next
  case (exit i k)
  show ?thesis unfolding exit(1) by (rule files_stay [OF f exit(2)]) (simp_all add: exit(3))
next
  case (client_pick v t p sw)
  have "0 < length (p_data (sy_pool s))" using client_pick(4) f by (simp add: files_def)
  note pk = pick_queue_still [OF this client_pick(5)]
  have "files (s\<lparr>sy_pool := p, sy_pcs := sy_pcs s, sy_client := Some (t, User v, sw), sy_in := sy_in s,
      sy_out := sy_out s, sy_lost := sy_lost s\<rparr>)"
    by (rule files_keeps [OF f keeps_all_same])
      (use pk files_target [OF f] f in \<open>auto simp: files_def moves_def\<close>)
  then show ?thesis unfolding client_pick(1) by simp
next
  case (client_push t v sw dst p)
  have t: "t < length (sy_pcs s)" using client_push(2) f by (simp add: files_def)
  have n: "p_nthreads p = p_nthreads (sy_pool s)"
    using push_moves [OF files_here(1,2) [OF f t] client_push(3)] by (auto simp: pushed_def moves_def)
  have "files (s\<lparr>sy_pool := p, sy_pcs := wake (sy_pcs s) t, sy_client := None,
      sy_in := sy_in s + accepted dst v, sy_out := sy_out s, sy_lost := sy_lost s\<rparr>)"
    by (rule files_keeps [OF f push_keeps(1) [OF client_push(3)] n])
      (use files_target [OF f] files_client [OF f] in \<open>auto simp: wake_flags\<close>)
  then show ?thesis unfolding client_push(1) by simp
next
  case (client_here t queue v dst p)
  have n: "p_nthreads p = p_nthreads (sy_pool s)"
    using enqueue_here_moves [OF files_here(1,2) [OF f client_here(4)] client_here(5)] by (auto simp: pushed_def moves_def)
  have "files (s\<lparr>sy_pool := p, sy_pcs := wake (sy_pcs s) t, sy_client := sy_client s,
      sy_in := sy_in s + accepted dst v, sy_out := sy_out s, sy_lost := sy_lost s\<rparr>)"
    by (rule files_keeps [OF f push_keeps(2) [OF client_here(5)] n])
      (use files_target [OF f] files_client [OF f] in \<open>auto simp: wake_flags\<close>)
  then show ?thesis unfolding client_here(1) by simp
next
  case (client_start p)
  have off: "\<forall>i < length (sy_pcs s). sy_pcs s ! i = Off" using assms(3) client_start(3) by (simp add: phases_def)
  then show ?thesis
    using f client_start(4) unfolding client_start(1)
    by (auto simp: files_def place_ok_def QPTPool_start_def split: if_splits)
next
  case client_stop
  have pl: "place_ok n d (woken c) = place_ok n d c" for n d c
    unfolding place_ok_def by (cases c) auto
  show ?thesis
    using f unfolding client_stop(1) by (simp add: files_def pl)
qed

section \<open>Phases, and the end\<close>

text \<open>What a step does to the counters and the state when nothing runs and the client is done.\<close>

definition quiet :: "'w sys \<Rightarrow> bool" where
  "quiet s \<longleftrightarrow> p_state (sy_pool s) = STOPPING \<and> p_incomplete (sy_pool s) = 0 \<and> p_swapped (sy_pool s) = 0"

lemma at_fields [simp]:
  "sy_pool (at s i c) = sy_pool s" "sy_client (at s i c) = sy_client s" "sy_pcs (at s i c) = (sy_pcs s)[i := c]"
  by (simp_all add: at_def)

lemma item_done_state [simp]:
  "p_state (item_done p i rc) = p_state p" "p_incomplete (item_done p i rc) = p_incomplete p"
  "p_swapped (item_done p i rc) = p_swapped p" "p_stop_on_error (item_done p i rc) = p_stop_on_error p"
  by (simp_all add: item_done_def)

lemma pop_claimed_state:
  "pop_claimed p i = (r, p') \<Longrightarrow> p_state p' = p_state p \<and> p_incomplete p' = p_incomplete p
     \<and> p_swapped p' = p_swapped p \<and> p_stop_on_error p' = p_stop_on_error p \<and> p_errored p' = p_errored p"
  by (auto simp: pop_claimed_def split: list.splits)

lemma reader_state:
  "reader_prep b1 b2 p i = (ok, p') \<Longrightarrow> p_state p' = p_state p \<and> p_incomplete p' = p_incomplete p
     \<and> p_swapped p' = p_swapped p \<and> p_stop_on_error p' = p_stop_on_error p \<and> p_errored p' = p_errored p"
  "reader_next de p i = (w, p') \<Longrightarrow> p_state p' = p_state p \<and> p_incomplete p' = p_incomplete p
     \<and> p_swapped p' = p_swapped p \<and> p_stop_on_error p' = p_stop_on_error p \<and> p_errored p' = p_errored p"
  by (auto simp: reader_prep_def reader_next_def split: prod.splits)

lemma steal_state:
  assumes "maybe_steal_work locked cl p i = Some p'" and "i < length (p_data p)"
    and "p_nthreads p = length (p_data p)"
  shows "p_state p' = p_state p \<and> p_incomplete p' = p_incomplete p \<and> p_swapped p' = p_swapped p
     \<and> p_stop_on_error p' = p_stop_on_error p \<and> p_errored p' = p_errored p"
  using maybe_steal_work_jobs [OF assms] by (simp add: same_frame_def)

lemma pick_state:
  "pick_queue nxt p i w = Some (Some (t, p')) \<Longrightarrow> p_state p' = p_state p \<and> p_incomplete p' = p_incomplete p
     \<and> p_swapped p' = p_swapped p \<and> p_stop_on_error p' = p_stop_on_error p \<and> p_errored p' = p_errored p"
  by (auto simp: pick_queue_def Let_def split: if_splits)

lemma push_state:
  "push ser sw p t w = (dst, p') \<Longrightarrow> p_state p' = p_state p \<and> p_stop_on_error p' = p_stop_on_error p
     \<and> p_errored p' = p_errored p"
  "QPTPool_enqueue_here ser p t queue w = (dst, p') \<Longrightarrow> p_state p' = p_state p
     \<and> p_stop_on_error p' = p_stop_on_error p \<and> p_errored p' = p_errored p"
  by (auto simp: push_def push_swappable_def push_swap_def push_wait_def QPTPool_enqueue_here_def
      split: prod.splits if_splits)

lemma quiet_step:
  assumes "pool_step nxt ser s s'" and "quiet s" and "counts s" and "files s" and "phases s"
  shows "quiet s'"
proof -
  note q = assms(2) [unfolded quiet_def]
  have o: "owed (sy_pcs s ! i) = 0" if "i < length (sy_pcs s)" for i
    using owed_le [OF assms(3) that] q by simp
  have cl: "sy_client s = None" using assms(5) q by (simp add: phases_def)
  show ?thesis using assms(1)
  proof (cases rule: pool_step.cases)
    case (top i locked c p pc)
    then show ?thesis using q steal_state [OF top(4) files_here(1,3) [OF assms(4) top(2)]] by (simp add: quiet_def)
  next
    case (run_push i w n t v sw dst p)
    then show ?thesis using o [OF run_push(2)] by simp
  next
    case (run_here i w n t queue v dst p)
    then show ?thesis using o [OF run_here(2)] by simp
  next
    case (read_push i n k t w dst p)
    then show ?thesis using o [OF read_push(2)] by simp
  next
    case (read_end i n k p)
    then show ?thesis using o [OF read_end(2)] by simp
  next
    case (read_prep i n ok p)
    then show ?thesis using o [OF read_prep(2)] by simp
  next
    case (read_pick i n k w p1 t p2)
    then show ?thesis using o [OF read_pick(2)] by simp
  next
    case (read_refused i n k w p1)
    then show ?thesis using o [OF read_refused(2)] by simp
  next
    case (run_pick i w n v t p sw)
    then show ?thesis using o [OF run_pick(2)] by simp
  next
    case (pop_user i n w p)
    then show ?thesis using q pop_claimed_state [OF pop_user(4)] by (simp add: quiet_def)
  next
    case (pop_reader i n p)
    then show ?thesis using q pop_claimed_state [OF pop_reader(4)] by (simp add: quiet_def)
  qed (use q cl in \<open>auto simp: quiet_def claim_work_def count_work_def\<close>)
qed

lemma phases_step:
  assumes "pool_step nxt ser s s'" and "phases s" and "files s"
  shows "phases s'"
proof -
  have off: "sy_pcs s ! i = Off" if "p_state (sy_pool s) = INITIALIZED" "i < length (sy_pcs s)" for i
    using assms(2) that by (simp add: phases_def)
  have st: "p_state (sy_pool s') = p_state (sy_pool s) \<Longrightarrow>
      (p_state (sy_pool s) = STOPPING \<Longrightarrow> sy_client s' = None) \<Longrightarrow>
      (p_state (sy_pool s) = INITIALIZED \<Longrightarrow> \<forall>c \<in> set (sy_pcs s'). c = Off) \<Longrightarrow> phases s'"
    by (simp add: phases_def)
  have wk: "\<forall>c \<in> set (wake (sy_pcs s) t). c = Off" if "p_state (sy_pool s) = INITIALIZED" for t
  proof -
    have "wake (sy_pcs s) t ! i = Off" if "i < length (sy_pcs s)" for i
      using off [OF \<open>p_state (sy_pool s) = INITIALIZED\<close>] that by (simp add: wake_nth)
    then show ?thesis by (metis in_set_conv_nth length_wake)
  qed
  have worker: "p_state (sy_pool s') = p_state (sy_pool s) \<Longrightarrow> sy_client s' = sy_client s \<Longrightarrow>
      i < length (sy_pcs s) \<Longrightarrow> sy_pcs s ! i \<noteq> Off \<Longrightarrow> phases s'" for i
    using st off [of i] assms(2) by (auto simp: phases_def)
  show ?thesis using assms(1)
  proof (cases rule: pool_step.cases)
    case (top i locked c p pc)
    then show ?thesis using steal_state [OF top(4) files_here(1,3) [OF assms(3) top(2)]] by (intro worker [of i]) auto
  next
    case (run_push i w n t v sw dst p)
    then show ?thesis using push_state(1) [OF run_push(4)] by (intro worker [of i]) auto
  next
    case (run_here i w n t queue v dst p)
    then show ?thesis using push_state(2) [OF run_here(5)] by (intro worker [of i]) auto
  next
    case (read_push i n k t w dst p)
    then show ?thesis using push_state(1) [of ser True "sy_pool s" t w dst p] by (intro worker [of i]) (auto simp: push_def)
  next
    case (read_end i n k p)
    then show ?thesis using reader_state(2) [OF read_end(4)] by (intro worker [of i]) (auto simp: reader_end_def)
  next
    case (read_prep i n ok p)
    then show ?thesis using reader_state(1) [OF read_prep(4)] by (intro worker [of i]) auto
  next
    case (read_pick i n k w p1 t p2)
    then show ?thesis using reader_state(2) [OF read_pick(4)] pick_state [OF read_pick(5)] by (intro worker [of i]) auto
  next
    case (read_refused i n k w p1)
    then show ?thesis using reader_state(2) [OF read_refused(4)] by (intro worker [of i]) auto
  next
    case (run_pick i w n v t p sw)
    then show ?thesis using pick_state [OF run_pick(4)] by (intro worker [of i]) auto
  next
    case (pop_user i n w p)
    then show ?thesis using pop_claimed_state [OF pop_user(4)] by (intro worker [of i]) auto
  next
    case (pop_reader i n p)
    then show ?thesis using pop_claimed_state [OF pop_reader(4)] by (intro worker [of i]) auto
  next
    case (client_pick v t p sw)
    then show ?thesis using pick_state [OF client_pick(5)] assms(2) by (auto simp: phases_def)
  next
    case (client_push t v sw dst p)
    then show ?thesis using push_state(1) [OF client_push(3)] wk [of t] by (auto simp: phases_def)
  next
    case (client_here t queue v dst p)
    then show ?thesis using push_state(2) [OF client_here(5)] wk [of t] by (auto simp: phases_def)
  next
    case (client_start p)
    then show ?thesis by (auto simp: phases_def QPTPool_start_def split: if_splits)
  next
    case client_stop
    then show ?thesis by (auto simp: phases_def)
  next
    case (awake i p c)
    then show ?thesis by (intro worker [of i]) auto
  next
    case (spurious i)
    then show ?thesis by (intro worker [of i]) auto
  next
    case (claim i)
    then show ?thesis by (intro worker [of i]) (auto simp: claim_work_def)
  next
    case (pop_none i n p)
    then show ?thesis by (intro worker [of i]) auto
  next
    case (run_end i w n c rc)
    then show ?thesis by (intro worker [of i]) auto
  next
    case (counted i n)
    then show ?thesis by (intro worker [of i]) (auto simp: count_work_def)
  next
    case (signal i k)
    then show ?thesis by (intro worker [of i]) auto
  next
    case (exit i k)
    then show ?thesis by (intro worker [of i]) auto
  qed
qed

lemma inv_step: "pool_step nxt ser s s' \<Longrightarrow> pool_inv s \<Longrightarrow> pool_inv s'"
  using counts_step files_step phases_step unfolding pool_inv_def by blast

end
