(* ===== verification/PoolRun.thy ===== *)
theory PoolRun
  imports PoolSteps
begin

text \<open>
  Runs of the pool from its start: what holds in every state that the steps of \<open>PoolSteps\<close> reach.
\<close>

section \<open>Who can run\<close>

fun leaving :: "'w pc \<Rightarrow> bool" where
  "leaving (Signal k) = True"
| "leaving Exited = True"
| "leaving _ = False"

text \<open>Whether a worker has something to do that waits for nobody.\<close>

fun runnable :: "'w pc \<Rightarrow> bool" where
  "runnable Off = False"
| "runnable (Blocked b) = b"
| "runnable Exited = False"
| "runnable _ = True"

definition idle :: "'w thread \<Rightarrow> bool" where
  "idle d \<longleftrightarrow> th_claimed d = [] \<and> th_waiting d = []"

lemma not_runnable: "\<not> runnable c \<longleftrightarrow> c = Off \<or> c = Blocked False \<or> c = Exited"
  by (cases c) auto

lemma woken_not_blocked [simp]: "woken c \<noteq> Blocked False" "woken c = Off \<longleftrightarrow> c = Off" "leaving (woken c) = leaving c"
  by (cases c; simp)+

text \<open>The threads outside of \<open>T\<close> keep empty queues empty.\<close>

definition touches :: "nat set \<Rightarrow> 'w pool \<Rightarrow> 'w pool \<Rightarrow> bool" where
  "touches T p p' \<longleftrightarrow> length (p_data p') = length (p_data p)
     \<and> (\<forall>j < length (p_data p). j \<notin> T \<longrightarrow> idle (p_data p ! j) \<longrightarrow> idle (p_data p' ! j))"

lemma touches_refl [simp]: "touches T p p"
  by (simp add: touches_def)

lemma touches_mono: "touches T p p' \<Longrightarrow> T \<subseteq> T' \<Longrightarrow> touches T' p p'"
  by (auto simp: touches_def)

lemma touches_trans: "touches T p q \<Longrightarrow> touches T q r \<Longrightarrow> touches T p r"
  by (simp add: touches_def)

lemma touches_upd: "i \<in> T \<or> (\<forall>d. idle (f d) = idle d) \<Longrightarrow> touches T p (upd p i f)"
proof -
  assume a: "i \<in> T \<or> (\<forall>d. idle (f d) = idle d)"
  have "idle ((p_data p)[i := f (p_data p ! i)] ! j)"
    if "j < length (p_data p)" "j \<notin> T" "idle (p_data p ! j)" for j
    using a that by (cases "j = i") auto
  then show ?thesis by (simp add: touches_def upd_def)
qed

lemma touches_fields [simp]:
  "touches T p (q\<lparr>p_incomplete := a\<rparr>) = touches T p q" "touches T p (q\<lparr>p_swapped := a\<rparr>) = touches T p q"
  "touches T p (q\<lparr>p_errored := b\<rparr>) = touches T p q" "touches T p (q\<lparr>p_state := c\<rparr>) = touches T p q"
  by (simp_all add: touches_def)

lemma push_touches:
  "push ser sw p t w = (dst, p') \<Longrightarrow> touches {t} p p'"
  "QPTPool_enqueue_here ser p t queue w = (dst, p') \<Longrightarrow> touches {t} p p'"
  by (auto simp: push_def push_swappable_def push_swap_def push_wait_def QPTPool_enqueue_here_def
      intro!: touches_upd split: prod.splits if_splits)

lemma pick_touches:
  assumes "pick_queue nxt p i w = Some (Some (t, p'))"
  shows "touches T p p'"
proof -
  obtain n where "p' = upd p i (\<lambda>d. d\<lparr>th_next_queue := n\<rparr>)"
    using assms by (auto simp: pick_queue_def Let_def split: if_splits)
  then show ?thesis by (simp add: touches_upd idle_def)
qed

lemma worker_touches:
  "touches {i} p (claim_work p i)" "touches {i} p (item_done p i rc)" "touches {i} p (count_work p i n)"
  "pop_claimed p i = (r, p') \<Longrightarrow> touches {i} p p'" "reader_prep b1 b2 p i = (ok, p') \<Longrightarrow> touches {i} p p'"
  "reader_next de p i = (x, p') \<Longrightarrow> touches {i} p p'" "touches {i} p (reader_end p i k)"
  by (auto simp: claim_work_def item_done_def count_work_def pop_claimed_def reader_prep_def reader_next_def
      reader_end_def intro!: touches_upd split: list.splits prod.splits)

lemma steal_loop_touches:
  assumes "steal_loop queue set_queue locked i cs p = Some (n, p')"
    and "\<And>d. idle d \<Longrightarrow> queue d = []"
    and "\<forall>c \<in> set cs. c < length (p_data p)" and "i < length (p_data p)"
  shows "touches {i} p p'"
  using assms(1)
proof (cases rule: steal_loop_cases)
  case (2 c k)
  have c: "c < length (p_data p)" using 2(1) assms(3) by blast
  have "\<not> idle (p_data p ! c)" using assms(2) 2(4) by blast
  then show ?thesis
    unfolding 2(7) touches_def using c assms(4) by (auto simp: upd_nth)
qed simp

lemma steal_touches:
  assumes "maybe_steal_work locked cl p i = Some p'" and "i < length (p_data p)"
    and "p_nthreads p = length (p_data p)"
  shows "touches {i} p p'"
proof (cases "p_steal_num p = 0 \<or> p_nthreads p < 2 \<or> th_waiting (p_data p ! i) \<noteq> [] \<or> p_incomplete p = 0")
  case True
  then show ?thesis using assms(1) by (simp add: maybe_steal_work_def Let_def)
next
  case False
  have pos: "0 < p_nthreads p" using assms(2,3) by auto
  obtain n p1 where p1: "steal_waiting locked p i (th_steal_from (p_data p ! i)) = Some (n, p1)"
    using assms(1) False by (auto simp: maybe_steal_work_def Let_def split: option.splits)
  note w = p1 [unfolded steal_waiting_def]
  have vb: "\<forall>c \<in> set (visit p start). c < length (p_data p)" for start
    using visit_bound [OF pos] assms(3) by metis
  have t1: "touches {i} p p1"
    by (rule steal_loop_touches [OF w]) (use vb assms(2) in \<open>auto simp: idle_def\<close>)
  have sf: "same_frame p p1"
  proof -
    have "queue_jobs p1 = queue_jobs p \<and> disk_jobs p1 = disk_jobs p \<and> same_frame p p1"
      by (rule steal_loop_jobs [OF w assms(2) vb]) (simp_all add: thread_jobs_def ac_simps)
    then show ?thesis by simp
  qed
  obtain m p2 where p2: "(if n = 0 then steal_claimed cl p1 i (th_steal_from (p_data p ! i))
      else Some (n, p1)) = Some (m, p2)"
    and p': "p' = upd p2 i (\<lambda>d. d\<lparr>th_steal_from := (th_steal_from d + 1) mod p_nthreads p2\<rparr>)"
    using assms(1) False p1 by (auto simp: maybe_steal_work_def Let_def split: option.splits)
  have t2: "touches {i} p1 p2"
  proof (cases "n = 0")
    case True
    have vb1: "\<forall>c \<in> set (visit p1 start). c < length (p_data p1)" for start
      using vb [of start] sf by (simp add: visit_def same_frame_def)
    have "steal_claimed cl p1 i (th_steal_from (p_data p ! i)) = Some (m, p2)" using p2 True by simp
    from steal_loop_touches [OF this [unfolded steal_claimed_def]] show ?thesis
      using vb1 assms(2) sf by (simp add: idle_def same_frame_def)
  qed (use p2 in simp)
  show ?thesis
    unfolding p' using touches_trans [OF t1 t2] touches_trans touches_upd by blast
qed

section \<open>The shape of a step\<close>

text \<open>
  Worker \<open>i\<close> goes to \<open>c\<close> and wakes \<open>t\<close> (or nobody, \<open>t\<close> being out of range).
\<close>

definition worker_shape :: "'w sys \<Rightarrow> 'w sys \<Rightarrow> nat \<Rightarrow> nat \<Rightarrow> 'w pc \<Rightarrow> bool" where
  "worker_shape s s' i t c \<longleftrightarrow> i < length (sy_pcs s) \<and> sy_pcs s ! i \<noteq> Off
     \<and> sy_pcs s' = (wake (sy_pcs s) t)[i := c] \<and> touches {i, t} (sy_pool s) (sy_pool s')
     \<and> p_state (sy_pool s') = p_state (sy_pool s) \<and> c \<noteq> Off
     \<and> (leaving c \<longrightarrow> leaving (sy_pcs s ! i) \<or> may_exit (sy_pool s'))
     \<and> (c = Blocked False \<longrightarrow> must_wait (sy_pool s') i)"

definition client_shape :: "'w sys \<Rightarrow> 'w sys \<Rightarrow> nat \<Rightarrow> bool" where
  "client_shape s s' t \<longleftrightarrow> sy_pcs s' = wake (sy_pcs s) t \<and> touches {t} (sy_pool s) (sy_pool s')
     \<and> p_state (sy_pool s') = p_state (sy_pool s)"

lemma wake_none [simp]: "wake pcs (length pcs) = pcs"
  by (simp add: wake_def list_update_beyond)

lemma touches_two: "touches {i} p p' \<Longrightarrow> touches {i, t} p p'" "touches {t} p p' \<Longrightarrow> touches {i, t} p p'"
  by (auto intro: touches_mono)

lemma worker_at:
  assumes "i < length (sy_pcs s)" and "sy_pcs s ! i \<noteq> Off" and "touches {i} (sy_pool s) p"
    and "p_state p = p_state (sy_pool s)" and "c \<noteq> Off"
    and "leaving c \<Longrightarrow> leaving (sy_pcs s ! i) \<or> may_exit p" and "c = Blocked False \<Longrightarrow> must_wait p i"
  shows "worker_shape s (at (s\<lparr>sy_pool := p, sy_in := a, sy_out := b, sy_lost := l\<rparr>) i c) i (length (sy_pcs s)) c"
  using assms unfolding worker_shape_def by (simp add: touches_two(1))

lemma worker_at_plain:
  assumes "i < length (sy_pcs s)" and "sy_pcs s ! i \<noteq> Off" and "touches {i} (sy_pool s) p"
    and "p_state p = p_state (sy_pool s)" and "c \<noteq> Off"
    and "leaving c \<Longrightarrow> leaving (sy_pcs s ! i) \<or> may_exit p" and "c = Blocked False \<Longrightarrow> must_wait p i"
  shows "worker_shape s (at (s\<lparr>sy_pool := p\<rparr>) i c) i (length (sy_pcs s)) c"
    and "p = sy_pool s \<Longrightarrow> worker_shape s (at s i c) i (length (sy_pcs s)) c"
  using assms unfolding worker_shape_def by (simp_all add: touches_two(1))

lemma worker_push:
  assumes "i < length (sy_pcs s)" and "sy_pcs s ! i \<noteq> Off" and "touches {t} (sy_pool s) p"
    and "p_state p = p_state (sy_pool s)" and "c \<noteq> Off" and "\<not> leaving c" and "c \<noteq> Blocked False"
  shows "worker_shape s (at (s\<lparr>sy_pool := p, sy_pcs := wake (sy_pcs s) t, sy_in := a, sy_lost := l\<rparr>) i c) i t c"
  using assms unfolding worker_shape_def by (simp add: touches_two(2))

lemma chosen:
  assumes "c = (if must_wait p i then Blocked False else if may_exit p then Signal 0 else Claiming)"
  shows "c \<noteq> Off" and "leaving c \<Longrightarrow> may_exit p" and "c = Blocked False \<Longrightarrow> must_wait p i"
  using assms by (auto split: if_splits)

lemma step_shape:
  assumes "pool_step nxt ser s s'" and f: "files s"
  shows "(\<exists>i t c. worker_shape s s' i t c) \<or> (\<exists>t. client_shape s s' t)
    \<or> (p_state (sy_pool s) = INITIALIZED \<and> p_state (sy_pool s') = RUNNING
        \<and> sy_pcs s' = map (\<lambda>_. Top) (sy_pcs s) \<and> p_data (sy_pool s') = p_data (sy_pool s))
    \<or> (p_state (sy_pool s) = RUNNING \<and> p_state (sy_pool s') = STOPPING \<and> may_exit (sy_pool s') \<and> sy_pcs s' = map woken (sy_pcs s)
        \<and> p_data (sy_pool s') = p_data (sy_pool s))"
    (is "?W \<or> ?C \<or> ?R \<or> ?S")
  using assms(1)
proof (cases rule: pool_step.cases)
  case (top i locked cl p c)
  note h = files_here(1,3) [OF f top(2)]
  have "worker_shape s s' i (length (sy_pcs s)) c" unfolding top(1)
    by (rule worker_at_plain(1) [OF top(2) _ steal_touches [OF top(4) h]])
      (use steal_state [OF top(4) h] top(3) chosen [OF top(5)] in simp_all)
  then show ?thesis by blast
next
  case (awake i p c)
  have "worker_shape s s' i (length (sy_pcs s)) c" unfolding awake(1)
    by (rule worker_at_plain(2) [OF awake(2) _ touches_refl]) (use awake(3,4) chosen [OF awake(5)] in simp_all)
  then show ?thesis by blast
next
  case (spurious i)
  have "worker_shape s s' i (length (sy_pcs s)) (Blocked True)" unfolding spurious(1)
    by (rule worker_at_plain(2) [OF spurious(2) _ touches_refl]) (use spurious(3) in auto)
  then show ?thesis by blast
next
  case (claim i)
  have "worker_shape s s' i (length (sy_pcs s)) (Process 0)" unfolding claim(1)
    by (rule worker_at_plain(1) [OF claim(2) _ worker_touches(1)]) (use claim(3) in \<open>auto simp: claim_work_def\<close>)
  then show ?thesis by blast
next
  case (pop_none i n p)
  have "worker_shape s s' i (length (sy_pcs s)) (Counting n)" unfolding pop_none(1)
    by (rule worker_at_plain(2) [OF pop_none(2) _ touches_refl]) (use pop_none(3) in auto)
  then show ?thesis by blast
next
  case (pop_user i n w p)
  have "worker_shape s s' i (length (sy_pcs s)) (Running w n)" unfolding pop_user(1)
    by (rule worker_at_plain(1) [OF pop_user(2) _ worker_touches(4) [OF pop_user(4)]])
      (use pop_user(3) pop_claimed_state [OF pop_user(4)] in auto)
  then show ?thesis by blast
next
  case (pop_reader i n p)
  have "worker_shape s s' i (length (sy_pcs s)) (ReadPrep n)" unfolding pop_reader(1)
    by (rule worker_at_plain(1) [OF pop_reader(2) _ worker_touches(4) [OF pop_reader(4)]])
      (use pop_reader(3) pop_claimed_state [OF pop_reader(4)] in auto)
  then show ?thesis by blast
next
  case (run_pick i w n v t p sw)
  have "worker_shape s s' i (length (sy_pcs s)) (Pushing w n t (User v) sw)" unfolding run_pick(1)
    by (rule worker_at_plain(1) [OF run_pick(2) _ pick_touches [OF run_pick(4)]])
      (use run_pick(3) pick_state [OF run_pick(4)] in auto)
  then show ?thesis by blast
next
  case (run_push i w n t v sw dst p)
  have "worker_shape s s' i t (Running w n)"
    using worker_push [OF run_push(2) _ push_touches(1) [OF run_push(4)], where c = "Running w n" and
        a = "sy_in s + accepted dst v" and l = "sy_lost s"]
      run_push(1,3) push_state(1) [OF run_push(4)] by simp
  then show ?thesis by blast
next
  case (run_here i w n t queue v dst p)
  have "client_shape s s' t"
    using run_here(1) push_touches(2) [OF run_here(5)] push_state(2) [OF run_here(5)] by (simp add: client_shape_def)
  then show ?thesis by blast
next
  case (run_end i w n c rc)
  have c: "c \<noteq> Off" "\<not> leaving c" "c \<noteq> Blocked False" using run_end(4) by auto
  have "worker_shape s s' i (length (sy_pcs s)) c"
    using worker_at [OF run_end(2) _ worker_touches(2) [where rc = rc], where c = c and a = "sy_in s" and
        b = "sy_out s + {#User w#}" and l = "sy_lost s"] run_end(1,3) c by simp
  then show ?thesis by blast
next
  case (read_prep i n ok p)
  show ?thesis
  proof (cases ok)
    case True
    have "worker_shape s s' i (length (sy_pcs s)) (Reading n 0)"
      using worker_at_plain(1) [OF read_prep(2) _ worker_touches(5) [OF read_prep(4)], where c = "Reading n 0"]
        read_prep(1,3) reader_state(1) [OF read_prep(4)] True by simp
    then show ?thesis by blast
  next
    case False
    have "touches {i} (sy_pool s) (item_done p i 0)"
      using touches_trans [OF worker_touches(5) [OF read_prep(4)] worker_touches(2)] .
    then have "worker_shape s s' i (length (sy_pcs s)) (Process (n + 1))"
      using worker_at [OF read_prep(2), where p = "item_done p i 0" and c = "Process (n + 1)" and a = "sy_in s" and
          b = "sy_out s + {#SwapReader#}" and l = "sy_lost s"]
        read_prep(1,3) reader_state(1) [OF read_prep(4)] False by simp
    then show ?thesis by blast
  qed
next
  case (read_pick i n k w p1 t p2)
  have "touches {i} (sy_pool s) p2"
    using touches_trans [OF worker_touches(6) [OF read_pick(4)] pick_touches [OF read_pick(5)]] .
  from worker_at_plain(1) [OF read_pick(2) _ this, where c = "ReadPush n k t w"]
  have "worker_shape s s' i (length (sy_pcs s)) (ReadPush n k t w)"
    using read_pick(1,3) reader_state(2) [OF read_pick(4)] pick_state [OF read_pick(5)] by simp
  then show ?thesis by blast
next
  case (read_refused i n k w p1)
  have "worker_shape s s' i (length (sy_pcs s)) (Reading n (k + 1))"
    using worker_at [OF read_refused(2) _ worker_touches(6) [OF read_refused(4)], where c = "Reading n (k + 1)" and
        a = "sy_in s" and b = "sy_out s" and l = "sy_lost s + {#w#}"]
      read_refused(1,3) reader_state(2) [OF read_refused(4)] by simp
  then show ?thesis by blast
next
  case (read_push i n k t w dst p)
  have sp: "push ser True (sy_pool s) t w = (dst, p)" using read_push(4) by (simp add: push_def)
  have "worker_shape s s' i t (Reading n (k + 1))"
    using worker_push [OF read_push(2) _ push_touches(1) [OF sp], where c = "Reading n (k + 1)" and
        a = "sy_in s" and l = "sy_lost s + ({#w#} - accepted dst w)"]
      read_push(1,3) push_state(1) [OF sp] by simp
  then show ?thesis by blast
next
  case (read_end i n k p)
  have "touches {i} (sy_pool s) (item_done (reader_end p i k) i 0)"
    using touches_trans [OF worker_touches(6) [OF read_end(4)] touches_trans [OF worker_touches(7) worker_touches(2)]] .
  then have "worker_shape s s' i (length (sy_pcs s)) (Process (n + 1))"
    using worker_at [OF read_end(2), where p = "item_done (reader_end p i k) i 0" and c = "Process (n + 1)" and
        a = "sy_in s" and b = "sy_out s + {#SwapReader#}" and l = "sy_lost s"]
      read_end(1,3) reader_state(2) [OF read_end(4)] by (simp add: reader_end_def)
  then show ?thesis by blast
next
  case (counted i n)
  have "worker_shape s s' i (length (sy_pcs s)) Top" unfolding counted(1)
    by (rule worker_at_plain(1) [OF counted(2) _ worker_touches(3)]) (use counted(3) in \<open>auto simp: count_work_def\<close>)
  then show ?thesis by blast
next
  case (signal i k)
  have "worker_shape s s' i k (Signal (k + 1))"
    using signal by (simp add: worker_shape_def)
  then show ?thesis by blast
next
  case (exit i k)
  have "worker_shape s s' i (length (sy_pcs s)) Exited" unfolding exit(1)
    by (rule worker_at_plain(2) [OF exit(2) _ touches_refl]) (use exit(3) in auto)
  then show ?thesis by blast
next
  case (client_pick v t p sw)
  have "client_shape s s' (length (sy_pcs s))"
    using client_pick(1) pick_touches [OF client_pick(5)] pick_state [OF client_pick(5)] by (simp add: client_shape_def)
  then show ?thesis by blast
next
  case (client_push t v sw dst p)
  have "client_shape s s' t"
    using client_push(1) push_touches(1) [OF client_push(3)] push_state(1) [OF client_push(3)]
    by (simp add: client_shape_def)
  then show ?thesis by blast
next
  case (client_here t queue v dst p)
  have "client_shape s s' t"
    using client_here(1) push_touches(2) [OF client_here(5)] push_state(2) [OF client_here(5)]
    by (simp add: client_shape_def)
  then show ?thesis by blast
next
  case (client_start p)
  have ?R using client_start(1,3,4) by (auto simp: QPTPool_start_def split: if_splits)
  then show ?thesis by blast
next
  case client_stop
  have ?S using client_stop by (auto simp: may_exit_def wait_mem_blocks_def)
  then show ?thesis by blast
qed

section \<open>Leaving and sleeping\<close>

lemma may_exit_step:
  assumes "pool_step nxt ser s s'" and "may_exit (sy_pool s)" and "counts s" and f: "files s" and "phases s"
  shows "may_exit (sy_pool s')"
proof (cases "p_stop_on_error (sy_pool s) \<and> p_errored (sy_pool s)")
  case False
  then have "quiet s" using assms(2) by (auto simp: may_exit_def quiet_def)
  then have "quiet s'" using quiet_step [OF assms(1) _ assms(3-5)] by blast
  then show ?thesis by (simp add: quiet_def may_exit_def)
next
  case True
  have "p_stop_on_error (sy_pool s') \<and> p_errored (sy_pool s')"
    using assms(1)
  proof (cases rule: pool_step.cases)
    case (top i locked c p pc)
    then show ?thesis using True steal_state [OF top(4) files_here(1,3) [OF f top(2)]] by simp
  next
    case (run_push i w n t v sw dst p)
    then show ?thesis using True push_state(1) [OF run_push(4)] by simp
  next
    case (run_here i w n t queue v dst p)
    then show ?thesis using True push_state(2) [OF run_here(5)] by simp
  next
    case (read_push i n k t w dst p)
    then show ?thesis using True push_state(1) [of ser True "sy_pool s" t w dst p] by (simp add: push_def)
  next
    case (client_push t v sw dst p)
    then show ?thesis using True push_state(1) [OF client_push(3)] by simp
  next
    case (client_here t queue v dst p)
    then show ?thesis using True push_state(2) [OF client_here(5)] by simp
  next
    case (read_end i n k p)
    then show ?thesis using True reader_state(2) [OF read_end(4)] by (simp add: reader_end_def item_done_def)
  next
    case (read_prep i n ok p)
    then show ?thesis using True reader_state(1) [OF read_prep(4)] by (simp add: item_done_def)
  next
    case (read_pick i n k w p1 t p2)
    then show ?thesis using True by (auto simp: pick_queue_def dest!: reader_state)
  next
    case (read_refused i n k w p1)
    then show ?thesis using True reader_state(2) [OF read_refused(4)] by simp
  next
    case (pop_user i n w p)
    then show ?thesis using True pop_claimed_state [OF pop_user(4)] by simp
  next
    case (pop_reader i n p)
    then show ?thesis using True pop_claimed_state [OF pop_reader(4)] by simp
  qed (use True in \<open>auto simp: item_done_def claim_work_def count_work_def QPTPool_start_def pick_queue_def
       split: if_splits\<close>)
  then show ?thesis by (simp add: may_exit_def)
qed

text \<open>
  A worker on its way out has a reason that lasts; a worker that sleeps has nothing in its queues;
  there is nobody to create once the pool runs, and nobody sleeps once it stops.
\<close>

definition life :: "'w sys \<Rightarrow> bool" where
  "life s \<longleftrightarrow> (\<forall>i < length (sy_pcs s).
     (leaving (sy_pcs s ! i) \<longrightarrow> may_exit (sy_pool s))
     \<and> (sy_pcs s ! i = Blocked False \<longrightarrow> idle (p_data (sy_pool s) ! i) \<and> p_state (sy_pool s) \<noteq> STOPPING)
     \<and> (sy_pcs s ! i = Off \<longrightarrow> p_state (sy_pool s) = INITIALIZED))
   \<and> (p_state (sy_pool s) = STOPPING \<longrightarrow> may_exit (sy_pool s))"

lemma must_wait_idle:
  assumes "must_wait p i" and "i < length (p_data p)" and "size (queue_jobs p) \<le> p_incomplete p"
  shows "idle (p_data p ! i)" and "\<not> may_exit p"
proof -
  show "\<not> may_exit p" using assms(1) by (auto simp: must_wait_def may_exit_def Let_def)
  have "thread_jobs (p_data p ! i) \<subseteq># queue_jobs p"
    unfolding queue_jobs_def using assms(2)
    by (metis in_set_conv_nth mset_subset_eq_add_left sum_list_map_remove1)
  then have "size (thread_jobs (p_data p ! i)) \<le> p_incomplete p"
    using assms(3) size_mset_mono order_trans by blast
  then show "idle (p_data p ! i)"
    using assms(1) by (auto simp: must_wait_def Let_def idle_def thread_jobs_def)
qed

lemma life_step:
  assumes st: "pool_step nxt ser s s'" and inv: "pool_inv s" and l: "life s"
  shows "life s'"
proof -
  note cs = inv [unfolded pool_inv_def]
  have inv': "counts s'" "files s'" using inv_step [OF st inv] by (simp_all add: pool_inv_def)
  have me: "may_exit (sy_pool s) \<Longrightarrow> may_exit (sy_pool s')" using may_exit_step [OF st] cs by blast
  have len: "length (p_data (sy_pool s)) = length (sy_pcs s)" "length (p_data (sy_pool s')) = length (sy_pcs s')"
    using cs inv'(2) by (simp_all add: files_def)
  have q: "size (queue_jobs (sy_pool s')) \<le> p_incomplete (sy_pool s')" using inv'(1) by (simp add: counts_def)
  note L = l [unfolded life_def]
  have lw: "length (wake (sy_pcs s) t) = length (sy_pcs s)" for t by simp
  have moved: "\<not> leaving (sy_pcs s' ! j) \<or> may_exit (sy_pool s')"
    "sy_pcs s' ! j \<noteq> Blocked False \<or> idle (p_data (sy_pool s') ! j) \<and> p_state (sy_pool s') \<noteq> STOPPING"
    "sy_pcs s' ! j \<noteq> Off \<or> p_state (sy_pool s') = INITIALIZED"
    if "j < length (sy_pcs s)" "sy_pcs s' ! j = wake (sy_pcs s) t ! j" "j \<notin> T - {t}"
      "touches (insert t T) (sy_pool s) (sy_pool s')" "p_state (sy_pool s') = p_state (sy_pool s)" for j t T
  proof -
    have Lj: "leaving (sy_pcs s ! j) \<Longrightarrow> may_exit (sy_pool s)"
      "sy_pcs s ! j = Blocked False \<Longrightarrow> idle (p_data (sy_pool s) ! j) \<and> p_state (sy_pool s) \<noteq> STOPPING"
      "sy_pcs s ! j = Off \<Longrightarrow> p_state (sy_pool s) = INITIALIZED"
      using L that(1) by blast+
    show "\<not> leaving (sy_pcs s' ! j) \<or> may_exit (sy_pool s')"
      using that(2) Lj(1) me by (auto simp: wake_nth split: if_splits)
    show "sy_pcs s' ! j \<noteq> Off \<or> p_state (sy_pool s') = INITIALIZED"
      using that(2,5) Lj(3) by (auto simp: wake_nth split: if_splits)
    show "sy_pcs s' ! j \<noteq> Blocked False \<or> idle (p_data (sy_pool s') ! j) \<and> p_state (sy_pool s') \<noteq> STOPPING"
    proof (cases "j = t")
      case True
      then show ?thesis using that(1,2) by (auto simp: wake_nth)
    next
      case False
      then have "sy_pcs s' ! j = sy_pcs s ! j" "j \<notin> insert t T" using that(2,3) by (auto simp: wake_nth)
      then show ?thesis using that(1,4,5) Lj(2) len by (auto simp: touches_def)
    qed
  qed
  consider (w) i t c where "worker_shape s s' i t c" | (c) t where "client_shape s s' t"
    | (r) "p_state (sy_pool s) = INITIALIZED" "p_state (sy_pool s') = RUNNING" "sy_pcs s' = map (\<lambda>_. Top) (sy_pcs s)"
    | (stop) "p_state (sy_pool s') = STOPPING" "may_exit (sy_pool s')" "sy_pcs s' = map woken (sy_pcs s)"
      "p_data (sy_pool s') = p_data (sy_pool s)" "p_state (sy_pool s) \<noteq> INITIALIZED"
    using step_shape [OF st cs [THEN conjunct2, THEN conjunct1]] by auto
  then show ?thesis
  proof cases
    case (w i t pc)
    note W = w [unfolded worker_shape_def]
    have le: "length (sy_pcs s') = length (sy_pcs s)" using W by simp
    have sm: "p_state (sy_pool s') = STOPPING \<Longrightarrow> may_exit (sy_pool s')" using W L me by simp
    have i: "i < length (p_data (sy_pool s'))" using W len(2) le by simp
    have ths: "sy_pcs s' ! i = pc" using W by simp
    have "(\<not> leaving (sy_pcs s' ! j) \<or> may_exit (sy_pool s'))
        \<and> (sy_pcs s' ! j \<noteq> Blocked False \<or> idle (p_data (sy_pool s') ! j) \<and> p_state (sy_pool s') \<noteq> STOPPING)
        \<and> (sy_pcs s' ! j \<noteq> Off \<or> p_state (sy_pool s') = INITIALIZED)" if j: "j < length (sy_pcs s')" for j
    proof (cases "j = i")
      case True
      have "leaving pc \<Longrightarrow> may_exit (sy_pool s')" using W L me by blast
      moreover have "pc = Blocked False \<Longrightarrow> idle (p_data (sy_pool s') ! i) \<and> p_state (sy_pool s') \<noteq> STOPPING"
        using W must_wait_idle [OF _ i q] sm by blast
      moreover have "pc \<noteq> Off" using W by blast
      ultimately show ?thesis using True ths by blast
    next
      case False
      have js: "j < length (sy_pcs s)" using j le by simp
      have "sy_pcs s' ! j = wake (sy_pcs s) t ! j" "touches (insert t {i}) (sy_pool s) (sy_pool s')"
        "j \<notin> {i} - {t}" "p_state (sy_pool s') = p_state (sy_pool s)"
        using W False by (simp_all add: insert_commute)
      from moved [OF js this(1) this(3) this(2) this(4)] show ?thesis by (intro conjI)
    qed
    then show ?thesis unfolding life_def using sm by blast
  next
    case (c t)
    note C = c [unfolded client_shape_def]
    have le: "length (sy_pcs s') = length (sy_pcs s)" using C by simp
    have sm: "p_state (sy_pool s') = STOPPING \<Longrightarrow> may_exit (sy_pool s')" using C L me by simp
    have "sy_pcs s' ! j = wake (sy_pcs s) t ! j" for j using C by simp
    then show ?thesis unfolding life_def using moved [of _ t "{}"] C le sm by fastforce
  next
    case r
    then show ?thesis by (simp add: life_def)
  next
    case stop
    then show ?thesis using L by (auto simp: life_def)
  qed
qed

section \<open>What a thread needs to push\<close>

text \<open>Its next queue is one of the threads', and the swap file it writes to is open.\<close>

definition ready :: "nat \<Rightarrow> 'w thread \<Rightarrow> bool" where
  "ready n d \<longleftrightarrow> th_next_queue d < n \<and> sf_fd (sw_write (th_swap d)) \<noteq> None"

definition all_ready :: "nat \<Rightarrow> 'w pool \<Rightarrow> bool" where
  "all_ready n p \<longleftrightarrow> (\<forall>d \<in> set (p_data p). ready n d)"

lemma all_ready_upd: "all_ready n p \<Longrightarrow> (\<And>d. ready n d \<Longrightarrow> ready n (f d)) \<Longrightarrow> all_ready n (upd p i f)"
  unfolding all_ready_def upd_def
  by (cases "i < length (p_data p)") (auto simp: list_update_beyond dest!: set_update_subset_insert [THEN subsetD])

lemma all_ready_upd_at:
  "all_ready n p \<Longrightarrow> i < length (p_data p) \<Longrightarrow> (ready n (p_data p ! i) \<Longrightarrow> ready n (f (p_data p ! i))) \<Longrightarrow>
   all_ready n (upd p i f)"
  unfolding all_ready_def upd_def by (auto dest!: set_update_subset_insert [THEN subsetD])

lemma all_ready_fields [simp]:
  "all_ready n (q\<lparr>p_incomplete := a\<rparr>) = all_ready n q" "all_ready n (q\<lparr>p_swapped := a\<rparr>) = all_ready n q"
  "all_ready n (q\<lparr>p_errored := b\<rparr>) = all_ready n q" "all_ready n (q\<lparr>p_state := c\<rparr>) = all_ready n q"
  by (simp_all add: all_ready_def)

lemma ready_fields [simp]:
  "ready n (d\<lparr>th_claimed := a\<rparr>) = ready n d" "ready n (d\<lparr>th_waiting := b\<rparr>) = ready n d"
  "ready n (d\<lparr>th_started := x\<rparr>) = ready n d" "ready n (d\<lparr>th_successful := x\<rparr>) = ready n d"
  "ready n (d\<lparr>th_swap := f\<rparr>) \<longleftrightarrow> th_next_queue d < n \<and> sf_fd (sw_write f) \<noteq> None"
  "ready n (d\<lparr>th_next_queue := m\<rparr>) \<longleftrightarrow> m < n \<and> sf_fd (sw_write (th_swap d)) \<noteq> None"
  by (simp_all add: ready_def)

lemma write_swap_open:
  "write_swap ser s w = (rc, s') \<Longrightarrow> sf_fd (sw_write s) \<noteq> None \<Longrightarrow>
   sf_fd (sw_write s') \<noteq> None \<and> (ser w \<noteq> None \<longrightarrow> rc = 0)"
  by (auto simp: write_swap_def Let_def split: option.splits prod.splits)

lemma swap_read_prep_open:
  "swap_read_prep True b s = (rc, s') \<Longrightarrow> sf_fd (sw_write s) \<noteq> None \<Longrightarrow> sf_fd (sw_write s') \<noteq> None"
  by (auto simp: swap_read_prep_def swap_open_def Let_def split: option.splits prod.splits if_splits)

lemma push_swap_ready:
  assumes "push_swap ser p t w = (dst, p')" and "all_ready n p" and "t < length (p_data p)"
  shows "all_ready n p'" and "ser w \<noteq> None \<Longrightarrow> dst \<noteq> ENQUEUE_ERROR"
proof -
  obtain rc s where ws: "write_swap ser (th_swap (p_data p ! t)) w = (rc, s)" by fastforce
  have r: "ready n (p_data p ! t)" using assms(2,3) by (simp add: all_ready_def)
  note o = write_swap_open [OF ws] 
  have a: "all_ready n (upd p t (\<lambda>d. d\<lparr>th_swap := s\<rparr>))"
    by (rule all_ready_upd_at [OF assms(2,3)]) (use o r in \<open>simp add: ready_def\<close>)
  show "all_ready n p'" using assms(1) ws a by (auto simp: push_swap_def split: if_splits)
  show "ser w \<noteq> None \<Longrightarrow> dst \<noteq> ENQUEUE_ERROR"
    using assms(1) ws o r by (auto simp: push_swap_def ready_def split: if_splits)
qed

lemma push_wait_ready: "all_ready n p \<Longrightarrow> all_ready n (push_wait p t w)"
  by (simp add: push_wait_def all_ready_upd)

lemma push_ready:
  "push ser sw p t w = (dst, p') \<Longrightarrow> all_ready n p \<Longrightarrow> t < length (p_data p) \<Longrightarrow> all_ready n p'"
  "QPTPool_enqueue_here ser p t queue w = (dst, p') \<Longrightarrow> all_ready n p \<Longrightarrow> t < length (p_data p) \<Longrightarrow> all_ready n p'"
  "push ser sw p t w = (dst, p') \<Longrightarrow> all_ready n p \<Longrightarrow> t < length (p_data p) \<Longrightarrow> ser w \<noteq> None \<Longrightarrow> dst \<noteq> ENQUEUE_ERROR"
  using push_wait_ready [of n p t w] push_swap_ready [of ser p t w dst p' n]
  by (auto simp: push_def push_swappable_def QPTPool_enqueue_here_def split: if_splits)

lemma pick_ready:
  assumes "pick_queue nxt p i w = Some (Some (t, p'))" and "all_ready n p" and "p_nthreads p = n"
    and "\<And>t. t < n \<Longrightarrow> nxt i t n w < n"
  shows "all_ready n p'"
proof -
  let ?t = "th_next_queue (p_data p ! i)"
  have t: "?t < n" and p': "p' = upd p i (\<lambda>d. d\<lparr>th_next_queue := nxt i ?t n w\<rparr>)"
    using assms(1,3) by (auto simp: pick_queue_def Let_def split: if_splits)
  have "nxt i ?t n w < n" using assms(4) t by blast
  then show ?thesis unfolding p' by (intro all_ready_upd [OF assms(2)]) (simp add: ready_def)
qed

lemma worker_ready:
  assumes "all_ready n p"
  shows "all_ready n (claim_work p i)" and "all_ready n (item_done p i rc)" and "all_ready n (count_work p i k)"
    and "pop_claimed p i = (r, p') \<Longrightarrow> all_ready n p'"
proof -
  have u: "all_ready n (upd p i f)" if "\<And>d. ready n d \<Longrightarrow> ready n (f d)" for f
    using all_ready_upd [OF assms that] .
  show "all_ready n (claim_work p i)" "all_ready n (count_work p i k)"
    by (simp_all add: claim_work_def count_work_def u)
  show "all_ready n (item_done p i rc)" using assms by (simp add: item_done_def u)
  show "all_ready n p'" if a: "pop_claimed p i = (r, p')"
  proof (cases "th_claimed (p_data p ! i)")
    case Nil
    then show ?thesis using a assms by (simp add: pop_claimed_def)
  next
    case (Cons w ws)
    have "p' = upd p i (\<lambda>d. d\<lparr>th_claimed := ws\<rparr>)" using a Cons by (simp add: pop_claimed_def)
    moreover have "all_ready n (upd p i (\<lambda>d. d\<lparr>th_claimed := ws\<rparr>))" by (rule u) simp
    ultimately show ?thesis by simp
  qed
qed

lemma reader_ready:
  assumes "all_ready n p" and "i < length (p_data p)"
  shows "reader_prep True b p i = (ok, p') \<Longrightarrow> all_ready n p'"
    and "reader_next (\<lambda>_. True) p i = (x, p') \<Longrightarrow> all_ready n p'" and "all_ready n (reader_end p i k)"
proof -
  have r: "ready n (p_data p ! i)" using assms by (simp add: all_ready_def)
  show "all_ready n p'" if "reader_prep True b p i = (ok, p')"
  proof -
    obtain rc s where rs: "swap_read_prep True b (th_swap (p_data p ! i)) = (rc, s)" by fastforce
    have p': "p' = upd p i (\<lambda>d. d\<lparr>th_swap := s\<rparr>)" using that rs by (simp add: reader_prep_def)
    show ?thesis unfolding p'
      using swap_read_prep_open [OF rs] r by (intro all_ready_upd_at [OF assms]) (simp add: ready_def)
  qed
  show "all_ready n p'" if a: "reader_next (\<lambda>_. True) p i = (x, p')"
  proof -
    obtain s where rs: "read_swap (\<lambda>_. True) (th_swap (p_data p ! i)) = (x, s)"
      and p': "p' = upd p i (\<lambda>d. d\<lparr>th_swap := s\<rparr>)"
      using a by (auto simp: reader_next_def split: prod.splits)
    show ?thesis unfolding p'
      using read_swap_disk(1) [OF rs] r by (intro all_ready_upd_at [OF assms]) (simp add: ready_def)
  qed
  show "all_ready n (reader_end p i k)"
    using r unfolding reader_end_def
    by (simp, intro all_ready_upd_at [OF assms]) (simp add: ready_def swap_read_done_def)
qed

lemma steal_ready:
  assumes "maybe_steal_work locked cl p i = Some p'" and "i < length (p_data p)"
    and "p_nthreads p = length (p_data p)" and "all_ready n p"
  shows "all_ready n p'"
proof -
  have sf: "same_frame p p'" using maybe_steal_work_jobs [OF assms(1-3)] by blast
  have "ready n (p_data p' ! j)" if j: "j < length (p_data p')" for j
  proof -
    have l: "length (p_data p') = length (p_data p)" using sf by (simp add: same_frame_def)
    have "th_swap (p_data p' ! j) = th_swap (p_data p ! j)" "th_next_queue (p_data p' ! j) = th_next_queue (p_data p ! j)"
      using sf j l unfolding same_frame_def by (metis nth_map)+
    moreover have "ready n (p_data p ! j)" using assms(4) j l by (simp add: all_ready_def)
    ultimately show ?thesis by (simp add: ready_def)
  qed
  then show ?thesis by (auto simp: all_ready_def in_set_conv_nth)
qed

definition next_valid :: "'w next_func \<Rightarrow> bool" where
  "next_valid nxt \<longleftrightarrow> (\<forall>i t n w. t < n \<longrightarrow> nxt i t n w < n)"

lemma ready_step:
  assumes "pool_step nxt ser s s'" and f: "files s" and nv: "next_valid nxt"
    and r: "all_ready (length (sy_pcs s)) (sy_pool s)"
  shows "all_ready (length (sy_pcs s')) (sy_pool s')"
proof -
  have n: "p_nthreads (sy_pool s) = length (sy_pcs s)" "length (p_data (sy_pool s)) = length (sy_pcs s)"
    using f by (simp_all add: files_def)
  have nv': "t < k \<Longrightarrow> nxt i t k w < k" for i t k w using nv by (simp add: next_valid_def)
  show ?thesis using assms(1)
  proof (cases rule: pool_step.cases)
    case (top i locked c p pc)
    then show ?thesis using steal_ready [OF top(4) files_here(1,3) [OF f top(2)] r] by simp
  next
    case (claim i)
    then show ?thesis using worker_ready(1) [OF r] by simp
  next
    case (pop_user i m w p)
    then show ?thesis using worker_ready(4) [OF r pop_user(4)] by simp
  next
    case (pop_reader i m p)
    then show ?thesis using worker_ready(4) [OF r pop_reader(4)] by simp
  next
    case (run_pick i w m v t p sw)
    then show ?thesis using pick_ready [OF run_pick(4) r n(1) nv'] by simp
  next
    case (client_pick v t p sw)
    then show ?thesis using pick_ready [OF client_pick(5) r n(1) nv'] by simp
  next
    case (run_push i w m t v sw dst p)
    have "t < length (sy_pcs s)" using files_target [OF f run_push(2)] run_push(3) by simp
    then show ?thesis using run_push(1) push_ready(1) [OF run_push(4) r] n by simp
  next
    case (client_push t v sw dst p)
    then show ?thesis using push_ready(1) [OF client_push(3) r] files_client [OF f client_push(2)] n by simp
  next
    case (read_push i m k t w dst p)
    have sp: "push ser True (sy_pool s) t w = (dst, p)" using read_push(4) by (simp add: push_def)
    have "t < length (sy_pcs s)" using files_target [OF f read_push(2)] read_push(3) by simp
    then show ?thesis using read_push(1) push_ready(1) [OF sp r] n by simp
  next
    case (run_here i w m t queue v dst p)
    then show ?thesis using push_ready(2) [OF run_here(5) r] n by simp
  next
    case (client_here t queue v dst p)
    then show ?thesis using push_ready(2) [OF client_here(5) r] n by simp
  next
    case (run_end i w m c rc)
    then show ?thesis using worker_ready(2) [OF r] by simp
  next
    case (read_prep i m ok p)
    note r1 = reader_ready(1) [OF r files_here(1) [OF f read_prep(2)] read_prep(4)]
    show ?thesis using read_prep(1) r1 worker_ready(2) [OF r1] by simp
  next
    case (read_pick i m k w p1 t p2)
    note r1 = reader_ready(2) [OF r files_here(1) [OF f read_pick(2)] read_pick(4)]
    have n1: "p_nthreads p1 = length (sy_pcs s)"
      using reader_next_moves [OF files_here(1) [OF f read_pick(2)] read_pick(4)] n by (simp add: moves_def)
    show ?thesis using read_pick(1) pick_ready [OF read_pick(5) r1 n1 nv'] by simp
  next
    case (read_refused i m k w p1)
    then show ?thesis using reader_ready(2) [OF r files_here(1) [OF f read_refused(2)] read_refused(4)] by simp
  next
    case (read_end i m k p)
    note r1 = reader_ready(2) [OF r files_here(1) [OF f read_end(2)] read_end(4)]
    have "i < length (p_data p)"
      using worker_touches(6) [OF read_end(4)] files_here(1) [OF f read_end(2)] by (simp add: touches_def)
    then show ?thesis using read_end(1) worker_ready(2) [OF reader_ready(3) [OF r1]] by simp
  next
    case (counted i m)
    then show ?thesis using worker_ready(3) [OF r] by simp
  next
    case (client_start p)
    then have "p_data p = p_data (sy_pool s)" by (auto simp: QPTPool_start_def split: if_splits)
    then show ?thesis using client_start(1) r by (simp add: all_ready_def)
  next
    case client_stop
    then show ?thesis using r by (simp add: all_ready_def)
  qed (use r in simp_all)
qed

lemma stop_on_error_step:
  assumes "pool_step nxt ser s s'" and f: "files s"
  shows "p_stop_on_error (sy_pool s') = p_stop_on_error (sy_pool s)"
  using assms(1)
proof (cases rule: pool_step.cases)
  case (top i locked c p pc)
  then show ?thesis using steal_state [OF top(4) files_here(1,3) [OF f top(2)]] by simp
next
  case (run_push i w n t v sw dst p)
  then show ?thesis using push_state(1) [OF run_push(4)] by simp
next
  case (run_here i w n t queue v dst p)
  then show ?thesis using push_state(2) [OF run_here(5)] by simp
next
  case (read_push i n k t w dst p)
  then show ?thesis using push_state(1) [of ser True "sy_pool s" t w dst p] by (simp add: push_def)
next
  case (client_push t v sw dst p)
  then show ?thesis using push_state(1) [OF client_push(3)] by simp
next
  case (client_here t queue v dst p)
  then show ?thesis using push_state(2) [OF client_here(5)] by simp
next
  case (read_end i n k p)
  then show ?thesis using reader_state(2) [OF read_end(4)] by (simp add: reader_end_def)
next
  case (read_prep i n ok p)
  then show ?thesis using reader_state(1) [OF read_prep(4)] by simp
next
  case (read_pick i n k w p1 t p2)
  then show ?thesis using reader_state(2) [OF read_pick(4)] pick_state [OF read_pick(5)] by simp
next
  case (read_refused i n k w p1)
  then show ?thesis using reader_state(2) [OF read_refused(4)] by simp
next
  case (pop_user i n w p)
  then show ?thesis using pop_claimed_state [OF pop_user(4)] by simp
next
  case (pop_reader i n p)
  then show ?thesis using pop_claimed_state [OF pop_reader(4)] by simp
next
  case (run_pick i w n v t p sw)
  then show ?thesis using pick_state [OF run_pick(4)] by simp
next
  case (client_pick v t p sw)
  then show ?thesis using pick_state [OF client_pick(5)] by simp
next
  case (client_start p)
  then show ?thesis by (auto simp: QPTPool_start_def split: if_splits)
qed (auto simp: claim_work_def count_work_def)

lemma lost_step:
  assumes "pool_step nxt ser s s'" and f: "files s" and "all_ready (length (sy_pcs s)) (sy_pool s)"
    and "\<not> p_stop_on_error (sy_pool s)" and "\<forall>w. ser w \<noteq> None"
  shows "sy_lost s' = sy_lost s"
  using assms(1)
proof (cases rule: pool_step.cases)
  case (read_refused i n k w p1)
  then show ?thesis
    using assms(4) reader_state(2) [OF read_refused(4)] by (auto simp: pick_queue_def Let_def split: if_splits)
next
  case (read_push i n k t w dst p)
  have sp: "push ser True (sy_pool s) t w = (dst, p)" using read_push(4) by (simp add: push_def)
  have "t < length (p_data (sy_pool s))" using files_here(4) [OF f read_push(2)] read_push(3) by simp
  then have "dst \<noteq> ENQUEUE_ERROR" using push_ready(3) [OF sp assms(3)] assms(5) by blast
  then show ?thesis using read_push(1) by (simp add: accepted_def at_def)
qed (auto simp: at_def)

section \<open>Runs\<close>

lemma run_inv:
  assumes "pool_start_state s0" and "(pool_step nxt ser)\<^sup>*\<^sup>* s0 s"
  shows "pool_inv s \<and> life s"
  using assms(2)
proof (induction rule: rtranclp_induct)
  case base
  have "sy_pcs s0 ! i = Off" if "i < length (sy_pcs s0)" for i
    using assms(1) that unfolding pool_start_state_def by (metis nth_replicate)
  moreover have "p_state (sy_pool s0) = INITIALIZED" using assms(1) by (simp add: pool_start_state_def)
  ultimately show ?case using start_inv [OF assms(1)] by (simp add: life_def)
next
  case (step s s')
  then show ?case using inv_step [OF step.hyps(2)] life_step [OF step.hyps(2)] by blast
qed

lemma step_length: "pool_step nxt ser s s' \<Longrightarrow> files s \<Longrightarrow> files s' \<Longrightarrow> length (sy_pcs s') = length (sy_pcs s)"
  using step_shape [of nxt ser s s'] by (auto simp: worker_shape_def client_shape_def)

lemma run_ready:
  assumes "pool_start_state s0" and "(pool_step nxt ser)\<^sup>*\<^sup>* s0 s" and "next_valid nxt"
    and "all_ready (length (sy_pcs s0)) (sy_pool s0)"
  shows "all_ready (length (sy_pcs s)) (sy_pool s)"
  using assms(2)
proof (induction rule: rtranclp_induct)
  case base
  show ?case using assms(4) .
next
  case (step s s')
  then show ?case
    using ready_step [OF step.hyps(2) _ assms(3)] run_inv [OF assms(1) step.hyps(1)] by (simp add: pool_inv_def)
qed

lemma run_lost:
  assumes "pool_start_state s0" and "(pool_step nxt ser)\<^sup>*\<^sup>* s0 s" and "next_valid nxt"
    and "all_ready (length (sy_pcs s0)) (sy_pool s0)"
    and "\<not> p_stop_on_error (sy_pool s0)" and "\<forall>w. ser w \<noteq> None"
  shows "sy_lost s = {#} \<and> \<not> p_stop_on_error (sy_pool s)"
  using assms(2)
proof (induction rule: rtranclp_induct)
  case base
  show ?case using assms(1,5) by (simp add: pool_start_state_def)
next
  case (step s s')
  have "files s" using run_inv [OF assms(1) step.hyps(1)] by (simp add: pool_inv_def)
  then show ?case
    using lost_step [OF step.hyps(2) _ run_ready [OF assms(1) step.hyps(1) assms(3,4)]]
      stop_on_error_step [OF step.hyps(2)] step.IH assms(6) by simp
qed

section \<open>Nothing left\<close>

lemma sum_zero_all: "sum_list (map f xs) = (0::nat) \<Longrightarrow> x \<in> set xs \<Longrightarrow> f x = 0"
  by (induction xs) auto

lemma owed_inflight: "owed c = 0 \<Longrightarrow> inflight c = {#}"
  by (cases c) auto

lemma nothing_left:
  assumes "counts s" and "p_incomplete (sy_pool s) = 0" and "p_swapped (sy_pool s) = 0"
  shows "queue_jobs (sy_pool s) = {#}" and "disk_jobs (sy_pool s) = {#}"
    and "sy_in s = sy_out s + sy_lost s" and "c \<in> set (sy_pcs s) \<Longrightarrow> owed c = 0"
proof -
  note c = assms(1) [unfolded counts_def]
  show q: "queue_jobs (sy_pool s) = {#}" "disk_jobs (sy_pool s) = {#}" using c assms(2,3) by auto
  have o: "owed c = 0" if "c \<in> set (sy_pcs s)" for c
    using c assms(2) sum_zero_all [OF _ that] by simp
  then show "c \<in> set (sy_pcs s) \<Longrightarrow> owed c = 0" .
  have "sum_list (map inflight (sy_pcs s)) = {#}" using o owed_inflight by (intro sum_list_zero) blast
  then show "sy_in s = sy_out s + sy_lost s" using c q by simp
qed

lemma idle_jobs: "(\<And>j. j < length (p_data p) \<Longrightarrow> idle (p_data p ! j)) \<Longrightarrow> queue_jobs p = {#}"
  unfolding queue_jobs_def
  by (intro sum_list_zero) (auto simp: in_set_conv_nth idle_def thread_jobs_def)

section \<open>A worker that can run has a step\<close>

lemma steal_loop_ends: "p_steal_denom p \<noteq> 0 \<Longrightarrow> \<exists>r. steal_loop queue set_queue locked i cs p = Some r"
  by (induction cs) (auto simp: Let_def)

lemma steal_ends:
  assumes "p_steal_num p = 0 \<or> p_steal_denom p \<noteq> 0"
  shows "\<exists>p'. maybe_steal_work locked cl p i = Some p'"
proof (cases "p_steal_num p = 0 \<or> p_nthreads p < 2 \<or> th_waiting (p_data p ! i) \<noteq> [] \<or> p_incomplete p = 0")
  case True
  then show ?thesis by (simp add: maybe_steal_work_def Let_def)
next
  case False
  then have d: "p_steal_denom p \<noteq> 0" using assms by blast
  obtain n p1 where w: "steal_waiting locked p i (th_steal_from (p_data p ! i)) = Some (n, p1)"
    using steal_loop_ends [OF d] unfolding steal_waiting_def by (metis surj_pair)
  have "p_steal_denom p1 \<noteq> 0"
    by (rule steal_loop_cases [OF w [unfolded steal_waiting_def]]) (use d in auto)
  then obtain m p2 where "steal_claimed cl p1 i (th_steal_from (p_data p ! i)) = Some (m, p2)"
    using steal_loop_ends unfolding steal_claimed_def by (metis surj_pair)
  then show ?thesis using False w by (cases "n = 0") (simp_all add: maybe_steal_work_def Let_def)
qed

definition can_step :: "'w next_func \<Rightarrow> ('w job \<Rightarrow> nat option) \<Rightarrow> 'w sys \<Rightarrow> nat \<Rightarrow> bool" where
  "can_step nxt ser s i \<longleftrightarrow> (\<exists>s'. pool_step nxt ser s s' \<and> sy_pcs s' ! i \<noteq> sy_pcs s ! i)"

lemma can_stepI:
  assumes "pool_step nxt ser s (at s1 i c)" and "i < length (sy_pcs s1)" and "sy_pcs s ! i \<noteq> c"
  shows "can_step nxt ser s i"
  using assms unfolding can_step_def by (intro exI [of _ "at s1 i c"]) auto

lemma runnable_step:
  assumes i: "i < length (sy_pcs s)" and "runnable (sy_pcs s ! i)" and "p_nthreads (sy_pool s) = length (sy_pcs s)"
    and len: "length (p_data (sy_pool s)) = length (sy_pcs s)"
    and "p_steal_num (sy_pool s) = 0 \<or> p_steal_denom (sy_pool s) \<noteq> 0"
    and r: "all_ready (length (sy_pcs s)) (sy_pool s)"
  shows "can_step nxt ser s i"
proof (cases "sy_pcs s ! i")
  case Top
  obtain p where "maybe_steal_work (\<lambda>_. False) (\<lambda>_. False) (sy_pool s) i = Some p" using steal_ends assms(5) by blast
  from can_stepI [OF pool_step.top [OF i Top this refl]] show ?thesis using i Top by auto
next
  case (Blocked b)
  then have b: "sy_pcs s ! i = Blocked True" using assms(2) by simp
  from can_stepI [OF pool_step.awake [OF i b refl refl]] show ?thesis using i b by auto
next
  case Claiming
  from can_stepI [OF pool_step.claim [OF i Claiming]] show ?thesis using i Claiming by simp
next
  case (Process n)
  obtain r p where rp: "pop_claimed (sy_pool s) i = (r, p)" by fastforce
  consider "r = None" | w where "r = Some (User w)" | "r = Some SwapReader" by (metis job.exhaust option.exhaust)
  then show ?thesis
  proof cases
    case 1
    from can_stepI [OF pool_step.pop_none [OF i Process rp [unfolded 1]]] show ?thesis using i Process by simp
  next
    case 2
    from can_stepI [OF pool_step.pop_user [OF i Process rp [unfolded 2]]] show ?thesis using i Process by simp
  next
    case 3
    from can_stepI [OF pool_step.pop_reader [OF i Process rp [unfolded 3]]] show ?thesis using i Process by simp
  qed
next
  case (Running w n)
  from can_stepI [OF pool_step.run_end [OF i Running refl, where rc = 0]] show ?thesis using i Running by simp
next
  case (Pushing w n t v sw)
  obtain dst p where "push ser sw (sy_pool s) t v = (dst, p)" by fastforce
  from can_stepI [OF pool_step.run_push [OF i Pushing this]] show ?thesis using i Pushing by simp
next
  case (ReadPrep n)
  obtain ok p where rp: "reader_prep True True (sy_pool s) i = (ok, p)" by fastforce
  note st = pool_step.read_prep [OF i ReadPrep rp, where nxt = nxt and ser = ser]
  show ?thesis using can_stepI [of nxt ser s] st i ReadPrep by (cases ok) fastforce+
next
  case (Reading n k)
  obtain x p where rn: "reader_next (\<lambda>_. True) (sy_pool s) i = (x, p)" by fastforce
  show ?thesis
  proof (cases x)
    case None
    from can_stepI [OF pool_step.read_end [OF i Reading rn [unfolded None]]] show ?thesis using i Reading by simp
  next
    case (Some w)
    note rn = rn [unfolded Some]
    have l: "i < length (p_data (sy_pool s))" using i len by simp
    have p: "p_nthreads p = length (sy_pcs s)" "length (p_data p) = length (sy_pcs s)"
      using reader_next_moves [OF l rn] assms(3) len by (simp_all add: moves_def)
    have "th_next_queue (p_data p ! i) < p_nthreads p"
      using reader_ready(2) [OF r l rn] p i by (simp add: all_ready_def ready_def)
    then consider "pick_queue nxt p i w = Some None" | t p2 where "pick_queue nxt p i w = Some (Some (t, p2))"
      by (fastforce simp: pick_queue_def Let_def)
    then show ?thesis
    proof cases
      case 1
      from can_stepI [OF pool_step.read_refused [OF i Reading rn 1]] show ?thesis using i Reading by simp
    next
      case 2
      from can_stepI [OF pool_step.read_pick [OF i Reading rn 2]] show ?thesis using i Reading by simp
    qed
  qed
next
  case (ReadPush n k t w)
  obtain dst p where "push_swappable ser (sy_pool s) t w = (dst, p)" by fastforce
  from can_stepI [OF pool_step.read_push [OF i ReadPush this]] show ?thesis using i ReadPush by simp
next
  case (Counting n)
  from can_stepI [OF pool_step.counted [OF i Counting]] show ?thesis using i Counting by simp
next
  case (Signal k)
  show ?thesis
  proof (cases "k < length (sy_pcs s)")
    case True
    from can_stepI [OF pool_step.signal [OF i Signal True]] show ?thesis using i Signal by simp
  next
    case False
    then have "length (sy_pcs s) \<le> k" by simp
    from can_stepI [OF pool_step.exit [OF i Signal this]] show ?thesis using i Signal by simp
  qed
qed (use assms(2) in simp_all)

section \<open>Stopping\<close>

text \<open>How many steps a worker has left once the pool stops with nothing to do.\<close>

fun steps_left :: "nat \<Rightarrow> 'w pc \<Rightarrow> nat" where
  "steps_left n (Claiming) = n + 5"
| "steps_left n (Process k) = n + 4"
| "steps_left n (Counting k) = n + 3"
| "steps_left n Top = n + 2"
| "steps_left n (Blocked b) = n + 2"
| "steps_left n (Signal k) = (n - k) + 1"
| "steps_left n _ = 0"

definition shutdown_left :: "'w sys \<Rightarrow> nat" where
  "shutdown_left s = sum_list (map (steps_left (length (sy_pcs s))) (sy_pcs s))"

lemma shutdown_at:
  assumes "i < length (sy_pcs s)" and "steps_left (length (sy_pcs s)) c < steps_left (length (sy_pcs s)) (sy_pcs s ! i)"
  shows "shutdown_left (at (s\<lparr>sy_pool := p\<rparr>) i c) < shutdown_left s"
    and "shutdown_left (at s i c) < shutdown_left s"
proof -
  have "sum_list (map (steps_left (length (sy_pcs s))) ((sy_pcs s)[i := c])) < sum_list (map (steps_left (length (sy_pcs s))) (sy_pcs s))"
    using sum_upd [OF assms(1), where f = "steps_left (length (sy_pcs s))" and y = c] assms(2) by linarith
  then show "shutdown_left (at (s\<lparr>sy_pool := p\<rparr>) i c) < shutdown_left s" "shutdown_left (at s i c) < shutdown_left s"
    by (simp_all add: shutdown_left_def)
qed

lemma shutdown_step:
  assumes "pool_step nxt ser s s'" and q: "quiet s" and c: "counts s" and f: "files s" and "phases s" and l: "life s"
  shows "shutdown_left s' < shutdown_left s"
proof -
  note q' = q [unfolded quiet_def]
  note z = nothing_left [OF c q' [THEN conjunct2, THEN conjunct1] q' [THEN conjunct2, THEN conjunct2]]
  have o: "owed (sy_pcs s ! i) = 0" if "i < length (sy_pcs s)" for i using z(4) that by simp
  have b: "sy_pcs s ! i \<noteq> Blocked False" if "i < length (sy_pcs s)" for i
    using l q' that by (auto simp: life_def)
  have cl: "sy_client s = None" using assms(5) q' by (simp add: phases_def)
  have mw: "\<not> must_wait p i" "may_exit p" if "p_state p = STOPPING" "p_incomplete p = 0" "p_swapped p = 0"
    for i and p :: "'a pool" using that by (auto simp: must_wait_def may_exit_def Let_def)
  have pop: "pop_claimed (sy_pool s) i \<noteq> (Some w, p)" if "i < length (sy_pcs s)" for i w p
    using pop_moves [OF files_here(1) [OF f that], where w = w and p' = p] z(1) by (auto simp: moves_def)
  show ?thesis using assms(1)
  proof (cases rule: pool_step.cases)
    case (top i locked cm p pc)
    have "pc = Signal 0"
      using mw(1) [of p i] mw(2) [of p] steal_state [OF top(4) files_here(1,3) [OF f top(2)]] q' top(5) by simp
    then show ?thesis unfolding top(1) by (intro shutdown_at(1)) (use top(2,3) in simp_all)
  next
    case (awake i p pc)
    have "pc = Signal 0" using mw(1) [of "sy_pool s" i] mw(2) [of "sy_pool s"] q' awake(4,5) by simp
    then show ?thesis unfolding awake(1) by (intro shutdown_at(2)) (use awake(2,3) in simp_all)
  next
    case (spurious i)
    then show ?thesis using b by blast
  next
    case (claim i)
    show ?thesis unfolding claim(1) by (intro shutdown_at(1)) (use claim(2,3) in simp_all)
  next
    case (pop_none i n p)
    show ?thesis unfolding pop_none(1) by (intro shutdown_at(2)) (use pop_none(2,3) in simp_all)
  next
    case (pop_user i n w p)
    then show ?thesis using pop by blast
  next
    case (pop_reader i n p)
    then show ?thesis using pop by blast
  next
    case (counted i n)
    show ?thesis unfolding counted(1) by (intro shutdown_at(1)) (use counted(2,3) in simp_all)
  next
    case (signal i k)
    let ?n = "length (sy_pcs s)"
    have e: "sum_list (map (steps_left ?n) (wake (sy_pcs s) k)) = sum_list (map (steps_left ?n) (sy_pcs s))"
      by (rule sum_wake) simp
    have w: "wake (sy_pcs s) k ! i = Signal k" using signal(2,3) by (auto simp: wake_nth)
    have "shutdown_left (at (s\<lparr>sy_pcs := wake (sy_pcs s) k\<rparr>) i (Signal (k + 1)))
        < shutdown_left (s\<lparr>sy_pcs := wake (sy_pcs s) k\<rparr>)"
      by (rule shutdown_at(2)) (use signal(2,4) w in simp_all)
    also have "\<dots> = shutdown_left s" using e by (simp add: shutdown_left_def)
    finally show ?thesis unfolding signal(1) .
  next
    case (exit i k)
    show ?thesis unfolding exit(1) by (intro shutdown_at(2)) (use exit(2,3) in simp_all)
  next
    case (run_pick i w n v t p sw)
    then show ?thesis using o [OF run_pick(2)] by simp
  next
    case (run_push i w n t v sw dst p)
    then show ?thesis using o [OF run_push(2)] by simp
  next
    case (run_here i w n t queue v dst p)
    then show ?thesis using o [OF run_here(2)] by simp
  next
    case (run_end i w n pc rc)
    then show ?thesis using o [OF run_end(2)] by simp
  next
    case (read_prep i n ok p)
    then show ?thesis using o [OF read_prep(2)] by simp
  next
    case (read_pick i n k w p1 t p2)
    then show ?thesis using o [OF read_pick(2)] by simp
  next
    case (read_refused i n k w p1)
    then show ?thesis using o [OF read_refused(2)] by simp
  next
    case (read_push i n k t w dst p)
    then show ?thesis using o [OF read_push(2)] by simp
  next
    case (read_end i n k p)
    then show ?thesis using o [OF read_end(2)] by simp
  qed (use q' cl in simp_all)
qed

end
