(* ===== verification/PoolProps.thy ===== *)
theory PoolProps
  imports PoolRun
begin

text \<open>
  What the runs of \<open>PoolSteps\<close> guarantee, with a run of one worker from start to end that shows
  that the hypotheses can hold.
\<close>

section \<open>A run\<close>

text \<open>One thread with its swap file open, one item enqueued before the start.\<close>

definition demo_pool :: "pool_state \<Rightarrow> nat \<Rightarrow> nat job list \<Rightarrow> nat job list \<Rightarrow> nat \<Rightarrow> nat \<Rightarrow> nat pool" where
  "demo_pool st inc claimed waiting sta suc =
     \<lparr>p_nthreads = 1, p_queue_limit = 4, p_swap_prefix = Some ''s'', p_steal_num = 0, p_steal_denom = 0,
      p_stop_on_error = False, p_errored = False, p_state = st, p_incomplete = inc, p_swapped = 0,
      p_data = [(new_thread 0)\<lparr>th_claimed := claimed, th_waiting := waiting, th_started := sta,
         th_successful := suc, th_swap := snd (swap_start True swap_init (Some ''s'') 0)\<rparr>]\<rparr>"

definition demo :: "nat pc \<Rightarrow> nat pool \<Rightarrow> nat job multiset \<Rightarrow> nat job multiset \<Rightarrow> nat sys" where
  "demo c p a b = \<lparr>sy_pool = p, sy_pcs = [c], sy_client = None, sy_in = a, sy_out = b, sy_lost = {#}\<rparr>"

abbreviation demo_step :: "nat sys \<Rightarrow> nat sys \<Rightarrow> bool" where
  "demo_step \<equiv> pool_step QPTPool_round_robin (\<lambda>_. Some 8)"

lemmas demo_defs = demo_def demo_pool_def at_def upd_def new_thread_def

abbreviation "demo0 \<equiv> demo Off (demo_pool INITIALIZED 0 [] [] 0 0) {#} {#}"
abbreviation "demo1 \<equiv> demo Off (demo_pool INITIALIZED 1 [] [User 7] 0 0) {#User 7#} {#}"
abbreviation "demo2 \<equiv> demo Top (demo_pool RUNNING 1 [] [User 7] 0 0) {#User 7#} {#}"
abbreviation "demo3 \<equiv> demo Claiming (demo_pool RUNNING 1 [] [User 7] 0 0) {#User 7#} {#}"
abbreviation "demo4 \<equiv> demo (Process 0) (demo_pool RUNNING 1 [User 7] [] 0 0) {#User 7#} {#}"
abbreviation "demo5 \<equiv> demo (Running 7 0) (demo_pool RUNNING 1 [] [] 0 0) {#User 7#} {#}"
abbreviation "demo6 \<equiv> demo (Process 1) (demo_pool RUNNING 1 [] [] 0 1) {#User 7#} {#User 7#}"
abbreviation "demo7 \<equiv> demo (Counting 1) (demo_pool RUNNING 1 [] [] 0 1) {#User 7#} {#User 7#}"
abbreviation "demo8 \<equiv> demo Top (demo_pool RUNNING 0 [] [] 1 1) {#User 7#} {#User 7#}"
abbreviation "demo9 \<equiv> demo Top (demo_pool STOPPING 0 [] [] 1 1) {#User 7#} {#User 7#}"
abbreviation "demo10 \<equiv> demo (Signal 0) (demo_pool STOPPING 0 [] [] 1 1) {#User 7#} {#User 7#}"
abbreviation "demo11 \<equiv> demo (Signal 1) (demo_pool STOPPING 0 [] [] 1 1) {#User 7#} {#User 7#}"
abbreviation "demo12 \<equiv> demo Exited (demo_pool STOPPING 0 [] [] 1 1) {#User 7#} {#User 7#}"

lemma demo_steps_begin:
  "demo_step demo0 demo1" "demo_step demo1 demo2" "demo_step demo2 demo3" "demo_step demo3 demo4"
  "demo_step demo4 demo5"
proof -
  show "demo_step demo0 demo1"
    using pool_step.client_here [of demo0 0 "\<lambda>_. Some 8" ENQUEUE_WAIT "User 7" ENQUEUE_WAIT
        "demo_pool INITIALIZED 1 [] [User 7] 0 0"]
    by (simp add: demo_defs QPTPool_enqueue_here_def push_wait_def accepted_def wake_def)
  show "demo_step demo1 demo2"
    using pool_step.client_start [of demo1 "demo_pool RUNNING 1 [] [User 7] 0 0"]
    by (simp add: demo_defs QPTPool_start_def)
  show "demo_step demo2 demo3"
    using pool_step.top [of 0 demo2 "\<lambda>_. False" "\<lambda>_. False" "demo_pool RUNNING 1 [] [User 7] 0 0" Claiming]
    by (simp add: demo_defs maybe_steal_work_def must_wait_def may_exit_def)
  show "demo_step demo3 demo4"
    using pool_step.claim [of 0 demo3] by (simp add: demo_defs claim_work_def)
  show "demo_step demo4 demo5"
    using pool_step.pop_user [of 0 demo4 0 7 "demo_pool RUNNING 1 [] [] 0 0"] by (simp add: demo_defs pop_claimed_def)
qed

lemma demo_steps_end:
  "demo_step demo5 demo6" "demo_step demo6 demo7" "demo_step demo7 demo8" "demo_step demo8 demo9"
  "demo_step demo9 demo10" "demo_step demo10 demo11" "demo_step demo11 demo12"
proof -
  show "demo_step demo5 demo6"
    using pool_step.run_end [of 0 demo5 7 0 "Process 1" 0] by (simp add: demo_defs item_done_def)
  show "demo_step demo6 demo7"
    using pool_step.pop_none [of 0 demo6 1 "demo_pool RUNNING 1 [] [] 0 1"] by (simp add: demo_defs pop_claimed_def)
  show "demo_step demo7 demo8"
    using pool_step.counted [of 0 demo7 1] by (simp add: demo_defs count_work_def)
  show "demo_step demo8 demo9"
    using pool_step.client_stop [of demo8] by (simp add: demo_defs wait_mem_blocks_def)
  show "demo_step demo9 demo10"
    using pool_step.top [of 0 demo9 "\<lambda>_. False" "\<lambda>_. False" "demo_pool STOPPING 0 [] [] 1 1" "Signal 0"]
    by (simp add: demo_defs maybe_steal_work_def must_wait_def may_exit_def)
  show "demo_step demo10 demo11"
    using pool_step.signal [of 0 demo10 0] by (simp add: demo_defs wake_def)
  show "demo_step demo11 demo12"
    using pool_step.exit [of 0 demo11 1] by (simp add: demo_defs)
qed

lemma demo_run: "demo_step\<^sup>*\<^sup>* demo0 demo5" "demo_step\<^sup>*\<^sup>* demo0 demo9" "demo_step\<^sup>*\<^sup>* demo0 demo12"
proof -
  show a: "demo_step\<^sup>*\<^sup>* demo0 demo5"
    using demo_steps_begin by (meson converse_rtranclp_into_rtranclp rtranclp.rtrancl_refl)
  show b: "demo_step\<^sup>*\<^sup>* demo0 demo9"
    using a demo_steps_end(1-4) by (meson rtranclp.rtrancl_into_rtrancl)
  show "demo_step\<^sup>*\<^sup>* demo0 demo12"
    using b demo_steps_end(5-7) by (meson rtranclp.rtrancl_into_rtrancl)
qed

lemma demo_start: "pool_start_state demo0"
  by (simp add: pool_start_state_def demo_defs swap_start_def swap_init_def swap_open_def fd_jobs_def
      swap_ok_def write_ok_def reads_open_def no_file_def Let_def)

lemma demo_ready: "all_ready (length (sy_pcs demo0)) (sy_pool demo0)"
  by (simp add: all_ready_def ready_def demo_defs swap_start_def swap_init_def swap_open_def Let_def)

lemma round_robin_valid: "next_valid QPTPool_round_robin"
  by (auto simp: next_valid_def QPTPool_round_robin_def Let_def)

section \<open>Properties\<close>

text \<open>
  C3: However the workers and the client interleave: the pool's counter of incomplete items is the number
  of items in the queues plus those popped and not yet subtracted by their worker; its counter of
  swapped items is the number in the swap files plus those read and not yet subtracted; and
  every item an enqueue accepted is in exactly one place: finished, in a worker's hands, in a
  queue, in a swap file, or among those a swap reader could not enqueue again.
\<close>
theorem pool_accounting:
  assumes "pool_start_state s0" and "(pool_step nxt ser)\<^sup>*\<^sup>* s0 s"
  shows "p_incomplete (sy_pool s) = size (queue_jobs (sy_pool s)) + sum_list (map owed (sy_pcs s))
    \<and> p_swapped (sy_pool s) = size (disk_jobs (sy_pool s)) + sum_list (map held (sy_pcs s))
    \<and> sy_in s = sy_out s + sum_list (map inflight (sy_pcs s)) + queue_jobs (sy_pool s)
        + disk_jobs (sy_pool s) + sy_lost s"
  using run_inv [OF assms] by (simp add: pool_inv_def counts_def)

lemma pool_accounting_witness:
  "p_incomplete (sy_pool demo5) = 1
    \<and> sy_in demo5 = sum_list (map inflight (sy_pcs demo5)) + queue_jobs (sy_pool demo5)
        + disk_jobs (sy_pool demo5)"
  using pool_accounting [OF demo_start demo_run(1)] by (simp add: demo_def demo_pool_def)

text \<open>
  C1: A worker of a pool that does not stop on errors leaves its loop only when nothing is left: then
  all queues and swap files are empty, and exactly the items that were accepted have been
  finished, each as often as it was accepted (the swap files being open and every item
  serializable, so that nothing is lost on the way).
\<close>
theorem pool_exit_leaves_nothing:
  assumes "pool_start_state s0" and "(pool_step nxt ser)\<^sup>*\<^sup>* s0 s" and "next_valid nxt"
    and "all_ready (length (sy_pcs s0)) (sy_pool s0)" and "\<not> p_stop_on_error (sy_pool s0)"
    and "\<forall>w. ser w \<noteq> None" and "i < length (sy_pcs s)" and "sy_pcs s ! i = Exited"
  shows "queue_jobs (sy_pool s) = {#} \<and> disk_jobs (sy_pool s) = {#} \<and> sy_out s = sy_in s"
proof -
  note inv = run_inv [OF assms(1,2)] and lost = run_lost [OF assms(1-6)]
  have "may_exit (sy_pool s)" using inv assms(7,8) by (simp add: life_def)
  then have "p_incomplete (sy_pool s) = 0" "p_swapped (sy_pool s) = 0" using lost by (auto simp: may_exit_def)
  from nothing_left(1-3) [OF _ this] show ?thesis using inv lost by (simp add: pool_inv_def)
qed

lemma pool_exit_leaves_nothing_witness:
  "queue_jobs (sy_pool demo12) = {#} \<and> disk_jobs (sy_pool demo12) = {#} \<and> sy_out demo12 = sy_in demo12"
  by (rule pool_exit_leaves_nothing [OF demo_start demo_run(3) round_robin_valid demo_ready, where i = 0])
    (simp_all add: demo_def demo_pool_def)

text \<open>
  C2: Work is never stranded: while the pool counts incomplete items and no error stops it, some worker
  is not asleep and can take a step that waits for nobody, however the queues were pushed to,
  stolen from and signalled before (no wake-up is lost).
\<close>
theorem pool_progress:
  assumes "pool_start_state s0" and "(pool_step nxt ser)\<^sup>*\<^sup>* s0 s" and "next_valid nxt"
    and "all_ready (length (sy_pcs s0)) (sy_pool s0)"
    and "p_steal_num (sy_pool s) = 0 \<or> p_steal_denom (sy_pool s) \<noteq> 0"
    and "p_state (sy_pool s) \<noteq> INITIALIZED" and "\<not> (p_stop_on_error (sy_pool s) \<and> p_errored (sy_pool s))"
    and "0 < p_incomplete (sy_pool s)"
  shows "\<exists>i < length (sy_pcs s). runnable (sy_pcs s ! i) \<and> can_step nxt ser s i"
proof (rule ccontr)
  note inv = run_inv [OF assms(1,2)]
  have f: "files s" and c: "counts s" and l: "life s" using inv by (simp_all add: pool_inv_def)
  assume "\<not> ?thesis"
  then have no: "\<not> runnable (sy_pcs s ! i)" if "i < length (sy_pcs s)" for i
    using runnable_step [OF that _ _ _ assms(5) run_ready [OF assms(1-4)]] f that by (auto simp: files_def)
  have b: "sy_pcs s ! i = Blocked False \<and> idle (p_data (sy_pool s) ! i)" if "i < length (sy_pcs s)" for i
    using no [OF that] l that assms(6-8) by (auto simp: not_runnable life_def may_exit_def)
  have "owed x = 0" if "x \<in> set (sy_pcs s)" for x using b that by (auto simp: in_set_conv_nth)
  then have o: "sum_list (map owed (sy_pcs s)) = 0" by (rule sum_list_zero)
  have "queue_jobs (sy_pool s) = {#}"
    using b f by (intro idle_jobs) (simp add: files_def)
  then show False using c assms(8) by (simp only: counts_def o size_empty)
qed

lemma pool_progress_witness:
  "\<exists>i < length (sy_pcs demo5). runnable (sy_pcs demo5 ! i) \<and> can_step QPTPool_round_robin (\<lambda>_. Some 8) demo5 i"
  by (rule pool_progress [OF demo_start demo_run(1) round_robin_valid demo_ready])
    (simp_all add: demo_def demo_pool_def)

text \<open>
  C4: \<open>QPTPool_stop\<close>, once it lets the workers go, ends: with no error, every step of anybody brings the
  pool closer to its end, so that there are only finitely many, and every worker that has not
  returned can take one, so that the threads \<open>pthread_join\<close> waits for all return.
\<close>
theorem pool_stop_ends:
  assumes "pool_start_state s0" and "(pool_step nxt ser)\<^sup>*\<^sup>* s0 s" and "next_valid nxt"
    and "all_ready (length (sy_pcs s0)) (sy_pool s0)"
    and "p_steal_num (sy_pool s) = 0 \<or> p_steal_denom (sy_pool s) \<noteq> 0"
    and "p_state (sy_pool s) = STOPPING" and "\<not> (p_stop_on_error (sy_pool s) \<and> p_errored (sy_pool s))"
  shows "(\<forall>s'. pool_step nxt ser s s' \<longrightarrow> shutdown_left s' < shutdown_left s)
    \<and> (\<forall>i < length (sy_pcs s). sy_pcs s ! i \<noteq> Exited \<longrightarrow> can_step nxt ser s i)"
proof -
  note inv = run_inv [OF assms(1,2)]
  have f: "files s" and c: "counts s" and l: "life s" and p: "phases s" using inv by (simp_all add: pool_inv_def)
  have q: "quiet s" using l assms(6,7) by (auto simp: life_def may_exit_def quiet_def)
  have "can_step nxt ser s i" if i: "i < length (sy_pcs s)" "sy_pcs s ! i \<noteq> Exited" for i
  proof -
    have "runnable (sy_pcs s ! i)" using l i assms(6) by (cases "sy_pcs s ! i") (auto simp: life_def)
    then show ?thesis using runnable_step [OF i(1) _ _ _ assms(5) run_ready [OF assms(1-4)]] f by (simp add: files_def)
  qed
  then show ?thesis using shutdown_step [OF _ q c f p l] by blast
qed

lemma pool_stop_ends_witness:
  "\<not> (\<exists>s'. demo_step demo9 s' \<and> shutdown_left demo9 \<le> shutdown_left s')
    \<and> can_step QPTPool_round_robin (\<lambda>_. Some 8) demo9 0"
proof -
  have "(\<forall>s'. demo_step demo9 s' \<longrightarrow> shutdown_left s' < shutdown_left demo9)
      \<and> (\<forall>i < length (sy_pcs demo9). sy_pcs demo9 ! i \<noteq> Exited \<longrightarrow> can_step QPTPool_round_robin (\<lambda>_. Some 8) demo9 i)"
    by (rule pool_stop_ends [OF demo_start demo_run(2) round_robin_valid demo_ready])
      (simp_all add: demo_def demo_pool_def)
  then show ?thesis by (force simp: demo_def)
qed

text \<open>
  C36: \<open>QPTPool_wait\<close> does not return from a running pool that stopped on an error while items are
  swapped and the workers, which the error makes leave, change nothing any more: the readers it
  enqueues to empty the swap files are refused, waiting for them returns at once, and the loop
  starts again, for ever (no number of rounds is enough).
\<close>
theorem wait_never_returns_after_error:
  assumes "p_state p = RUNNING" and "p_stop_on_error p" and "p_errored p" and "0 < p_swapped p"
    and "\<And>q. \<not> wait_mem_blocks q 0 \<Longrightarrow> mem q = q"
  shows "QPTPool_wait ser mem fuel p = None"
proof -
  have "enqueue_readers ser p is = p" for "is"
    by (induction "is") (simp_all add: QPTPool_enqueue_here_def assms(2,3))
  moreover have "mem p = p" using assms(2,3,5) by (simp add: wait_mem_blocks_def)
  ultimately have "wait_swapped ser mem fuel p = None"
    using assms(4) by (induction fuel) simp_all
  then show ?thesis using assms(1) \<open>mem p = p\<close> by (simp add: QPTPool_wait_def)
qed

lemma wait_never_returns_after_error_witness:
  "QPTPool_wait (\<lambda>_. Some 8) id 1000
     ((demo_pool RUNNING 0 [] [] 0 0)\<lparr>p_stop_on_error := True, p_errored := True, p_swapped := 3\<rparr>) = None"
  by (rule wait_never_returns_after_error) (simp_all add: demo_pool_def)

end
