(* ===== verification/Rollup.thy ===== *)
theory Rollup
  imports Prelude
begin

unbundle bit_operations_syntax

text \<open>
  Rolling up an index, \<open>src/src/rollup.c\<close> and \<open>src/src/gufi_rollup.c\<close>: the permission rules, the
  decisions, the SQL statements that copy a directory's rows into its parent's database, and the
  walk over a whole index from the bottom, as \<open>BottomUp\<close> orders it.  A database is modelled by the
  tables the statements touch: \<open>summary\<close>, \<open>entries\<close>, \<open>pentries_rollup\<close> and \<open>treesummary\<close>, the tables of
  attributes excepted.  Entries are opaque; a row of \<open>pentries\<close> is an entry with the inode of its directory, and of
  a row of \<open>treesummary\<close> only the inode is here, theory \<open>TreeSummary\<close> has its other columns.  Opening databases, attaching them and
  copying from them may fail, as part of the input says.
\<close>

section \<open>Permissions\<close>

record Permissions =
  pm_mode :: nat
  pm_uid :: nat
  pm_gid :: nat

text \<open>The octal masks 0005, 0555, 0550 and 0500 of the code.\<close>

definition check_pair_permissions :: "Permissions \<Rightarrow> Permissions \<Rightarrow> nat" where
  "check_pair_permissions parent child = of_bool (
     (pm_mode parent AND 5 = 5 \<and> pm_mode child AND 5 = 5
        \<and> pm_uid parent = pm_uid child \<and> pm_gid parent = pm_gid child)
     \<or> (pm_mode parent AND 365 = pm_mode child AND 365
        \<and> pm_uid parent = pm_uid child \<and> pm_gid parent = pm_gid child)
     \<or> (pm_mode parent AND 360 = pm_mode child AND 360
        \<and> pm_uid parent = pm_uid child \<and> pm_gid parent = pm_gid child)
     \<or> (pm_mode parent AND 320 = pm_mode child AND 320 \<and> pm_uid parent = pm_uid child))"

section \<open>Databases\<close>

record summary_row =
  rw_isroot :: bool
  rw_name :: string
  rw_inode :: nat
  rw_depth :: nat
  rw_perms :: Permissions
  rw_nondirs :: nat \<comment> \<open>\<open>totfiles + totlinks\<close>\<close>
  rw_canrollup :: bool
  rw_isrolledup :: bool

record 'e db =
  db_summary :: "summary_row list"
  db_entries :: "'e list"
  db_pentries_rollup :: "(nat \<times> 'e) list"
  db_treesummary :: "nat option list" \<comment> \<open>inodes, \<open>None\<close> for NULL\<close>

definition roots :: "'e db \<Rightarrow> summary_row list" where
  "roots db = filter rw_isroot (db_summary db)"

text \<open>The view \<open>pentries\<close>; \<open>UNION\<close> drops duplicates.\<close>

definition pentries :: "'e db \<Rightarrow> (nat \<times> 'e) list" where
  "pentries db =
     remdups (concat (map (\<lambda>r. map (Pair (rw_inode r)) (db_entries db)) (roots db)) @ db_pentries_rollup db)"

text \<open>
  The callbacks of the queries run once per row, so that the last row decides; \<open>mem\<close> is what the
  memory holds when no row comes.  \<open>get_permissions\<close> asks all rows, the others the root's.
\<close>

definition get_permissions :: "Permissions \<Rightarrow> 'e db \<Rightarrow> Permissions" where
  "get_permissions mem db = (case rev (db_summary db) of [] \<Rightarrow> mem | r # _ \<Rightarrow> rw_perms r)"

definition root_permissions :: "Permissions \<Rightarrow> 'e db \<Rightarrow> Permissions" where
  "root_permissions mem db = (case rev (roots db) of [] \<Rightarrow> mem | r # _ \<Rightarrow> rw_perms r)"

definition get_isrolledup :: "'e db \<Rightarrow> bool" where
  "get_isrolledup db = (case rev (roots db) of [] \<Rightarrow> False | r # _ \<Rightarrow> rw_canrollup r \<and> rw_isrolledup r)"

definition get_nondirs :: "'e db \<Rightarrow> nat" where
  "get_nondirs db = sum_list (map rw_nondirs (db_summary db))"

section \<open>The statements of a roll up\<close>

text \<open>\<open>ROLLUP_CLEANUP\<close> with the flags that \<open>rollup_init\<close> puts in, and as \<open>gufi_unrollup\<close> runs it.\<close>

definition rollup_cleanup :: "bool \<Rightarrow> 'e db \<Rightarrow> 'e db" where
  "rollup_cleanup isrolledup db = db\<lparr>
     db_pentries_rollup := [],
     db_summary := map (\<lambda>r. r\<lparr>rw_canrollup := True, rw_isrolledup := isrolledup\<rparr>) (roots db)\<rparr>"

definition rollup_init :: "'e db \<Rightarrow> 'e db" where
  "rollup_init db = rollup_cleanup True db"

text \<open>\<open>ROLLUP_ONE_SUBDIR\<close>, its three statements on the tables modelled here.\<close>

definition insert_pentries :: "'e db \<Rightarrow> 'e db \<Rightarrow> 'e db" where
  "insert_pentries sub db = db\<lparr>db_pentries_rollup := db_pentries_rollup db @ pentries sub\<rparr>"

definition insert_summary :: "'e db \<Rightarrow> 'e db \<Rightarrow> 'e db" where
  "insert_summary sub db = (case roots db of
       [] \<Rightarrow> db
     | root # _ \<Rightarrow>
         db\<lparr>db_summary := db_summary db @
              map (\<lambda>r. r\<lparr>rw_name := rw_name root @ ''/'' @ rw_name r, rw_depth := rw_depth r + 1,
                         rw_isroot := False, rw_canrollup := True, rw_isrolledup := True\<rparr>)
                (db_summary sub)\<rparr>)"

definition insert_treesummary :: "'e db \<Rightarrow> 'e db \<Rightarrow> 'e db" where
  "insert_treesummary sub db = db\<lparr>db_treesummary := db_treesummary db @ db_treesummary sub\<rparr>"

definition rollup_one_subdir :: "('e db \<Rightarrow> 'e db \<Rightarrow> 'e db) list" where
  "rollup_one_subdir = [insert_pentries, insert_summary, insert_treesummary]"

definition rollup_child_process :: "nat \<Rightarrow> 'e db \<Rightarrow> 'e db \<Rightarrow> 'e db" where
  "rollup_child_process n sub db = foldl (\<lambda>db stmt. stmt sub db) db (take n rollup_one_subdir)"

text \<open>\<open>DELETE_SUBDIR_ROLLUP\<close>.\<close>

definition delete_subdir_rollup :: "'e db \<Rightarrow> 'e db" where
  "delete_subdir_rollup db = db\<lparr>
     db_summary := map (\<lambda>r. r\<lparr>rw_isrolledup := False\<rparr>) (roots db),
     db_pentries_rollup := []\<rparr>"

text \<open>\<open>bottomup_collect_treesummary\<close> of a directory that is known to be rolled up: the rows of its own inode are replaced
  by one that is computed of \<open>summary\<close>, whose rows all have the same record type; without rows there is none.\<close>

definition own_inode :: "'e db \<Rightarrow> nat option" where
  "own_inode db = (case roots db of [] \<Rightarrow> None | r # _ \<Rightarrow> Some (rw_inode r))"

definition rolledup_treesummary :: "'e db \<Rightarrow> 'e db" where
  "rolledup_treesummary db = db\<lparr>db_treesummary :=
     filter (\<lambda>i. own_inode db = None \<or> i \<noteq> own_inode db) (db_treesummary db)
     @ (if db_summary db = [] then [] else [own_inode db])\<rparr>"

section \<open>Deciding\<close>

text \<open>What \<open>gufi_rollup\<close> was told; \<open>ri_delete_below\<close> is set together with the attach flag.\<close>

record rollup_in =
  ri_min_level :: nat
  ri_max_level :: nat
  ri_entries_limit :: nat
  ri_delete_below :: "nat option"
  ri_dry_run :: bool
  ri_dont_reprocess :: bool

text \<open>How copying a child ends: \<open>Exec_fails n\<close> stops behind \<open>n\<close> statements.\<close>

datatype copy = Copied | Attach_fails | Exec_fails nat

record 'e child =
  ch_rolledup :: bool
  ch_db :: "'e db option" \<comment> \<open>\<open>None\<close> when it cannot be opened\<close>
  ch_copy :: copy

record DirStats =
  ds_level :: nat
  ds_subdir_count :: nat
  ds_subnondir_count :: nat
  ds_too_many_before :: nat
  ds_too_many_after :: nat
  ds_score :: int
  ds_success :: bool

fun read_children :: "Permissions \<Rightarrow> 'e child list \<Rightarrow> Permissions list \<times> nat" where
  "read_children mem [] = ([], 0)"
| "read_children mem (c # cs) =
     (case ch_db c of
        None \<Rightarrow> ([], 0)
      | Some db \<Rightarrow>
          (case read_children mem cs of
             (ps, n) \<Rightarrow> (root_permissions mem db # ps, length (pentries db) + n)))"

definition no_permissions :: Permissions where
  "no_permissions = \<lparr>pm_mode = 0, pm_uid = 0, pm_gid = 0\<rparr>"

definition can_rollup :: "Permissions \<Rightarrow> 'e db \<Rightarrow> 'e child list \<Rightarrow> int \<times> nat" where
  "can_rollup mem dst subdirs =
     (if subdirs = [] then (1, 0)
      else if length (filter ch_rolledup subdirs) \<noteq> length subdirs then (0, 0)
      else
        case read_children mem subdirs of
          (ps, total_child_entries) \<Rightarrow>
            if length ps \<noteq> length subdirs then (-1, total_child_entries)
            else
              (of_bool (sum_list (map (check_pair_permissions (get_permissions no_permissions dst)) ps)
                 = length subdirs), total_child_entries))"

definition should_rollup ::
    "Permissions \<Rightarrow> rollup_in \<Rightarrow> 'e db \<Rightarrow> 'e child list \<Rightarrow> DirStats \<Rightarrow> int \<times> DirStats" where
  "should_rollup mem inp dst subdirs ds =
     (if ds_level ds < ri_min_level inp then (0, ds)
      else
        let ds1 = ds\<lparr>ds_subnondir_count := get_nondirs dst\<rparr>;
            limit = ri_entries_limit inp
        in if limit \<noteq> 0 \<and> limit < ds_subnondir_count ds1
           then (0, ds1\<lparr>ds_too_many_before := ds_subnondir_count ds1\<rparr>)
           else case can_rollup mem dst subdirs of
             (legal, total_child_entries) \<Rightarrow>
               let total_pentries = ds_subnondir_count ds1 + total_child_entries
               in if legal = 1 \<and> limit \<noteq> 0 \<and> limit < total_pentries
                  then (0, ds1\<lparr>ds_too_many_after := total_pentries\<rparr>)
                  else (legal, ds1))"

section \<open>Rolling up\<close>

fun rollup_children ::
    "rollup_in \<Rightarrow> nat \<Rightarrow> 'e child list \<Rightarrow> 'e db \<Rightarrow> int \<times> 'e db \<times> 'e db option list" where
  "rollup_children inp level [] db = (0, db, [])"
| "rollup_children inp level (c # cs) db =
     (case (ch_db c, ch_copy c) of
        (Some sub, Copied) \<Rightarrow>
          let sub' = (if \<exists>b. ri_delete_below inp = Some b \<and> b \<le> level then delete_subdir_rollup sub else sub)
          in case rollup_children inp level cs (rollup_child_process (length (rollup_one_subdir :: ('e db \<Rightarrow> 'e db \<Rightarrow> 'e db) list)) sub db) of
               (rc, db', subs) \<Rightarrow> (rc, db', Some sub' # subs)
      | (Some sub, Exec_fails n) \<Rightarrow> (-1, rollup_child_process n sub db, Some sub # map ch_db cs)
      | _ \<Rightarrow> (-1, db, map ch_db (c # cs)))"

text \<open>\<open>lstat_ok\<close>: whether the directory can be examined for its owner once its rows are copied.\<close>

definition do_rollup ::
    "rollup_in \<Rightarrow> nat \<Rightarrow> bool \<Rightarrow> 'e child list \<Rightarrow> 'e db \<Rightarrow> int \<times> 'e db \<times> 'e db option list" where
  "do_rollup inp level lstat_ok subdirs dst =
     (case rollup_children inp level subdirs (rollup_init dst) of
        (rc, db, subs) \<Rightarrow>
          if rc = 0 then (if lstat_ok then (0, rolledup_treesummary db, subs) else (1, db, subs)) else (rc, db, subs))"

datatype verdict = Not_processed | Not_rolled_up | Rolled_up | Nowhere

record 'e ascended =
  as_db :: "'e db option"
  as_subdirs :: "'e db option list"
  as_rolledup :: bool
  as_remaining :: nat
  as_verdict :: verdict
  as_stats :: DirStats

text \<open>\<open>rollup_ascend\<close>; \<open>is_top\<close> is set for a directory without a parent in the walk.\<close>

definition rollup_ascend ::
    "Permissions \<Rightarrow> rollup_in \<Rightarrow> nat \<Rightarrow> bool \<Rightarrow> bool \<Rightarrow> bool \<Rightarrow> 'e db option \<Rightarrow> 'e child list \<Rightarrow> 'e ascended" where
  "rollup_ascend mem inp level is_top lstat_ok rolledup db subdirs =
     (let ds = \<lparr>ds_level = level, ds_subdir_count = length subdirs, ds_subnondir_count = 0,
                ds_too_many_before = 0, ds_too_many_after = 0, ds_score = 0, ds_success = True\<rparr>;
          same = map ch_db subdirs
      in case db of
           None \<Rightarrow> \<lparr>as_db = None, as_subdirs = same, as_rolledup = rolledup, as_remaining = 1,
                    as_verdict = Not_processed, as_stats = ds\<rparr>
         | Some dst \<Rightarrow>
             if \<not> ri_dont_reprocess inp \<or> \<not> rolledup then
               (case should_rollup mem inp dst subdirs ds of
                  (score, ds1) \<Rightarrow>
                    if 0 < score then
                      (case (if ri_dry_run inp then (0, dst, same) else do_rollup inp level lstat_ok subdirs dst) of
                         (rc, dst', subs) \<Rightarrow>
                           \<lparr>as_db = Some dst', as_subdirs = subs, as_rolledup = (rc = 0),
                            as_remaining = of_bool is_top, as_verdict = Rolled_up,
                            as_stats = ds1\<lparr>ds_score := score, ds_success := (rc = 0)\<rparr>\<rparr>)
                    else if score = 0 then
                      \<lparr>as_db = Some dst, as_subdirs = same, as_rolledup = rolledup,
                       as_remaining = 1 + length (filter ch_rolledup subdirs), as_verdict = Not_rolled_up,
                       as_stats = ds1\<lparr>ds_score := score\<rparr>\<rparr>
                    else
                      \<lparr>as_db = Some dst, as_subdirs = same, as_rolledup = rolledup, as_remaining = 0,
                       as_verdict = Nowhere, as_stats = ds1\<lparr>ds_score := score\<rparr>\<rparr>)
             else
               \<lparr>as_db = Some dst, as_subdirs = same, as_rolledup = rolledup, as_remaining = 0,
                as_verdict = Rolled_up, as_stats = ds\<lparr>ds_score := 1, ds_success := True\<rparr>\<rparr>)"

section \<open>A whole index\<close>

text \<open>A directory of the index: its name, database, how its copying ends, and its subdirectories.\<close>

datatype 'e dir = Dir (dir_name: string) (dir_db: "'e db option") (dir_copy: copy) (dir_lstat: bool)
  (dir_subdirs: "'e dir list")

fun set_db :: "'e dir \<Rightarrow> 'e db option \<Rightarrow> 'e dir" where
  "set_db (Dir n _ c l ds) db = Dir n db c l ds"

text \<open>
  \<open>parallel_bottomup\<close> with \<open>rollup_ascend\<close>, everything being reprocessed: subdirectories first, none
  below the last level, no ascending outside of the levels.  The results are the new index, whether
  its top is rolled up, and the sum of \<open>remaining\<close>.
\<close>

fun rollup_walk :: "Permissions \<Rightarrow> rollup_in \<Rightarrow> nat \<Rightarrow> bool \<Rightarrow> 'e dir \<Rightarrow> 'e dir \<times> bool \<times> nat" where
  "rollup_walk mem inp level is_top (Dir n db cp ls ds) =
     (let rs = map (\<lambda>d. if level + 1 \<le> ri_max_level inp then rollup_walk mem inp (level + 1) False d
                        else (d, False, 0)) ds;
          below = sum_list (map (\<lambda>r. snd (snd r)) rs)
      in if ri_min_level inp \<le> level \<and> level \<le> ri_max_level inp then
           (let a = rollup_ascend mem inp level is_top ls False db
                  (map (\<lambda>r. \<lparr>ch_rolledup = fst (snd r), ch_db = dir_db (fst r), ch_copy = dir_copy (fst r)\<rparr>) rs)
            in (Dir n (as_db a) cp ls (map2 set_db (map fst rs) (as_subdirs a)),
                as_rolledup a, as_remaining a + below))
         else (Dir n db cp ls (map fst rs), False, below))"

section \<open>Queries\<close>

text \<open>
  What \<open>gufi_query\<close> finds: for every directory it opens, the entries of \<open>vrpentries\<close>, which joins the rows
  of \<open>summary\<close> with \<open>pentries\<close>, with the path \<open>rpath(sname, sroll)\<close> (the core of \<open>modify_prefix\<close>,
  before the user's prefix replaces the root's); it descends unless the directory is rolled up.
\<close>

definition row_path :: "string \<Rightarrow> nat \<Rightarrow> summary_row \<Rightarrow> string" where
  "row_path name basename_len r =
     (if rw_isrolledup r then take (length name - basename_len) name @ rw_name r else name)"

definition db_answers :: "string \<Rightarrow> nat \<Rightarrow> 'e db \<Rightarrow> (string \<times> 'e) set" where
  "db_answers name basename_len db =
     {(row_path name basename_len r, e) | r e. r \<in> set (db_summary db) \<and> (rw_inode r, e) \<in> set (pentries db)}"

fun answers :: "string \<Rightarrow> 'e dir \<Rightarrow> (string \<times> 'e) set" where
  "answers name (Dir n db cp ls ds) =
     (case db of None \<Rightarrow> {} | Some d \<Rightarrow> db_answers name (length n) d)
     \<union> (if (case db of None \<Rightarrow> False | Some d \<Rightarrow> get_isrolledup d) then {}
        else \<Union> (set (map (\<lambda>d. answers (name @ ''/'' @ dir_name d) d) ds)))"

text \<open>The number of directories it opens.\<close>

fun opened :: "'e dir \<Rightarrow> nat" where
  "opened (Dir n db cp ls ds) =
     1 + (if (case db of None \<Rightarrow> False | Some d \<Rightarrow> get_isrolledup d) then 0 else sum_list (map opened ds))"

text \<open>
  An index as \<open>gufi_dir2index\<close> leaves it: one row per database, the directory's, no directory rolled
  up, every copy going to succeed.
\<close>

definition fresh_db :: "string \<Rightarrow> 'e db \<Rightarrow> bool" where
  "fresh_db n d \<longleftrightarrow> (\<exists>r. db_summary d = [r] \<and> rw_isroot r \<and> rw_name r = n \<and> \<not> rw_isrolledup r)
     \<and> db_pentries_rollup d = []"

fun fresh :: "'e dir \<Rightarrow> bool" where
  "fresh (Dir n db cp ls ds) \<longleftrightarrow>
     (case db of None \<Rightarrow> False | Some d \<Rightarrow> fresh_db n d) \<and> cp = Copied \<and> ls \<and> list_all fresh ds"

fun inodes :: "'e dir \<Rightarrow> nat list" where
  "inodes (Dir n db cp ls ds) =
     (case db of None \<Rightarrow> [] | Some d \<Rightarrow> map rw_inode (db_summary d)) @ concat (map inodes ds)"

section \<open>Facts about the rules\<close>

lemma and_sub: "(a :: nat) AND k = b AND k \<Longrightarrow> k AND j = j \<Longrightarrow> a AND j = b AND j"
  by (metis and.assoc)

lemma check_pair_permissions_iff:
  "check_pair_permissions p c = of_bool (pm_uid p = pm_uid c
     \<and> (pm_mode p AND 320 = pm_mode c AND 320
        \<or> (pm_mode p AND 5 = 5 \<and> pm_mode c AND 5 = 5 \<and> pm_gid p = pm_gid c)))"
proof -
  have "pm_mode p AND 365 = pm_mode c AND 365 \<Longrightarrow> pm_mode p AND 320 = pm_mode c AND 320"
    "pm_mode p AND 360 = pm_mode c AND 360 \<Longrightarrow> pm_mode p AND 320 = pm_mode c AND 320"
    using and_sub [of "pm_mode p" 365 "pm_mode c" 320] and_sub [of "pm_mode p" 360 "pm_mode c" 320] by simp_all
  then show ?thesis unfolding check_pair_permissions_def by (intro arg_cong [where f = of_bool]) blast
qed

lemma check_pair_le: "check_pair_permissions p c \<le> 1"
  by (simp add: check_pair_permissions_def)

section \<open>What copying does\<close>

lemma roots_insert_summary: "roots (insert_summary sub db) = roots db"
  by (auto simp: insert_summary_def roots_def filter_empty_conv split: list.split)

lemma copied_db:
  assumes "roots db = r # rs"
  shows "rollup_child_process 3 sub db = db\<lparr>
      db_pentries_rollup := db_pentries_rollup db @ pentries sub,
      db_treesummary := db_treesummary db @ db_treesummary sub,
      db_summary := db_summary db @
        map (\<lambda>x. x\<lparr>rw_name := rw_name r @ ''/'' @ rw_name x, rw_depth := rw_depth x + 1,
                   rw_isroot := False, rw_canrollup := True, rw_isrolledup := True\<rparr>) (db_summary sub)\<rparr>"
proof -
  have "roots (insert_pentries sub db) = r # rs" using assms by (simp add: roots_def insert_pentries_def)
  then show ?thesis
    by (simp add: rollup_child_process_def rollup_one_subdir_def numeral_3_eq_3 insert_summary_def insert_treesummary_def)
      (simp add: insert_pentries_def)
qed

text \<open>A child's row as the parent's database has it.\<close>

definition renamed :: "string \<Rightarrow> summary_row \<Rightarrow> summary_row" where
  "renamed n x = x\<lparr>rw_name := n @ ''/'' @ rw_name x, rw_depth := rw_depth x + 1,
     rw_isroot := False, rw_canrollup := True, rw_isrolledup := True\<rparr>"

lemma renamed_simps [simp]:
  "rw_name (renamed n x) = n @ ''/'' @ rw_name x" "\<not> rw_isroot (renamed n x)" "rw_isrolledup (renamed n x)"
  "rw_inode (renamed n x) = rw_inode x"
  by (simp_all add: renamed_def)

lemma rollup_children_copied:
  assumes "list_all (\<lambda>c. ch_copy c = Copied \<and> ch_db c \<noteq> None) cs" and "roots db = r # rs"
  shows "\<exists>subs. length subs = length cs \<and> rollup_children inp level cs db = (0, db\<lparr>
      db_pentries_rollup := db_pentries_rollup db @ concat (map (\<lambda>c. pentries (the (ch_db c))) cs),
      db_treesummary := db_treesummary db @ concat (map (\<lambda>c. db_treesummary (the (ch_db c))) cs),
      db_summary := db_summary db @
        concat (map (\<lambda>c. map (renamed (rw_name r)) (db_summary (the (ch_db c)))) cs)\<rparr>, subs)"
  using assms
proof (induction cs arbitrary: db)
  case (Cons c cs)
  obtain sub where sub: "ch_db c = Some sub" "ch_copy c = Copied" using Cons.prems(1) by auto
  let ?db = "rollup_child_process 3 sub db"
  note eq = copied_db [OF Cons.prems(2), of sub, folded renamed_def]
  have "roots ?db = r # rs"
    using Cons.prems(2) by (simp add: eq roots_def filter_empty_conv)
  then obtain subs where "length subs = length cs" and r: "rollup_children inp level cs ?db = (0, ?db\<lparr>
      db_pentries_rollup := db_pentries_rollup ?db @ concat (map (\<lambda>c. pentries (the (ch_db c))) cs),
      db_treesummary := db_treesummary ?db @ concat (map (\<lambda>c. db_treesummary (the (ch_db c))) cs),
      db_summary := db_summary ?db @
        concat (map (\<lambda>c. map (renamed (rw_name r)) (db_summary (the (ch_db c)))) cs)\<rparr>, subs)"
    using Cons.IH Cons.prems(1) by auto
  have three: "length (rollup_one_subdir :: ('a db \<Rightarrow> 'a db \<Rightarrow> 'a db) list) = 3" by (simp add: rollup_one_subdir_def)
  show ?case
    using sub \<open>length subs = length cs\<close> r unfolding three eq
    by (intro exI [of _ "Some (if \<exists>b. ri_delete_below inp = Some b \<and> b \<le> level then delete_subdir_rollup sub else sub) # subs"])
      (simp add: three eq Let_def)
qed simp

section \<open>What ascending does\<close>

lemma can_rollup_pos: "fst (can_rollup mem dst subs) = 1 \<Longrightarrow> list_all ch_rolledup subs"
  by (auto simp: can_rollup_def list_all_iff split: if_splits prod.splits)
    (metis filter_id_conv length_filter_less less_irrefl)

lemma can_rollup_values: "fst (can_rollup mem dst subs) \<in> {-1, 0, 1}"
  by (auto simp: can_rollup_def split: prod.splits)

lemma should_rollup_pos: "0 < fst (should_rollup mem inp dst subs ds) \<Longrightarrow> fst (can_rollup mem dst subs) = 1"
  using can_rollup_values [of mem dst subs]
  by (auto simp: should_rollup_def Let_def split: if_splits prod.splits)

lemma ascend_cases:
  assumes "\<not> ri_dry_run inp" and a_def: "a = rollup_ascend mem inp level is_top ls False (Some dst) subs"
  obtains (stays) "as_db a = Some dst" "as_subdirs a = map ch_db subs" "\<not> as_rolledup a"
      "as_remaining a = 1 + length (filter ch_rolledup subs) \<or> as_verdict a = Nowhere"
      "as_verdict a \<noteq> Rolled_up"
    | (rolls) rc dst' subs' where "list_all ch_rolledup subs" "do_rollup inp level ls subs dst = (rc, dst', subs')"
      "as_db a = Some dst'" "as_subdirs a = subs'" "as_rolledup a = (rc = 0)" "as_remaining a = of_bool is_top"
      "as_verdict a = Rolled_up"
proof -
  let ?ds = "\<lparr>ds_level = level, ds_subdir_count = length subs, ds_subnondir_count = 0,
      ds_too_many_before = 0, ds_too_many_after = 0, ds_score = 0, ds_success = True\<rparr>"
  obtain score ds1 where sc: "should_rollup mem inp dst subs ?ds = (score, ds1)" by fastforce
  obtain rc dst' subs' where r: "do_rollup inp level ls subs dst = (rc, dst', subs')" by (metis prod_cases3)
  show thesis
  proof (cases "0 < score")
    case True
    then have "list_all ch_rolledup subs" using can_rollup_pos should_rollup_pos sc by (metis fst_conv)
    then show ?thesis
      by (rule rolls [OF _ r]) (simp_all add: a_def rollup_ascend_def sc True assms(1) r)
  next
    case False
    then show ?thesis
      by (intro stays) (simp_all add: a_def rollup_ascend_def sc Let_def)
  qed
qed

text \<open>A database after a roll up of children that can all be read and copied.\<close>

definition rolled_db :: "'e db \<Rightarrow> summary_row \<Rightarrow> 'e db list \<Rightarrow> 'e db" where
  "rolled_db d r subs = d\<lparr>
     db_pentries_rollup := concat (map pentries subs),
     db_treesummary := filter (\<lambda>i. i \<noteq> Some (rw_inode r)) (db_treesummary d @ concat (map db_treesummary subs)) @ [Some (rw_inode r)],
     db_summary := r\<lparr>rw_canrollup := True, rw_isrolledup := True\<rparr> #
       concat (map (\<lambda>sub. map (renamed (rw_name r)) (db_summary sub)) subs)\<rparr>"

text \<open>Only tree summaries know of \<open>treesummary\<close>.\<close>

lemma treesummary_irrelevant [simp]:
  "roots (db\<lparr>db_treesummary := ts\<rparr>) = roots db" "pentries (db\<lparr>db_treesummary := ts\<rparr>) = pentries db"
  "get_isrolledup (db\<lparr>db_treesummary := ts\<rparr>) = get_isrolledup db"
  by (simp_all add: roots_def pentries_def get_isrolledup_def)

lemma rolledup_rows:
  assumes "rw_isroot r"
    and "db_summary db = r\<lparr>rw_canrollup := True, rw_isrolledup := True\<rparr> # concat (map (map (renamed n)) rowss)"
  shows "rolledup_treesummary db = db\<lparr>db_treesummary :=
    filter (\<lambda>i. i \<noteq> Some (rw_inode r)) (db_treesummary db) @ [Some (rw_inode r)]\<rparr>"
proof -
  have "filter rw_isroot (concat (map (map (renamed n)) rowss)) = []" by (auto simp: filter_empty_conv)
  then have "own_inode db = Some (rw_inode r)" using assms by (simp add: own_inode_def roots_def)
  then show ?thesis using assms(2) by (simp add: rolledup_treesummary_def)
qed

lemma do_rollup_copied:
  assumes "list_all (\<lambda>c. ch_copy c = Copied \<and> ch_db c \<noteq> None) cs" and "db_summary d = [r]" and "rw_isroot r"
  shows "\<exists>subs. length subs = length cs \<and>
    do_rollup inp level True cs d = (0, rolled_db d r (map (\<lambda>c. the (ch_db c)) cs), subs)"
proof -
  have "roots (rollup_init d) = [r\<lparr>rw_canrollup := True, rw_isrolledup := True\<rparr>]"
    using assms(2,3) by (simp add: rollup_init_def rollup_cleanup_def roots_def)
  from rollup_children_copied [OF assms(1) this, of inp level] obtain subs db where s: "length subs = length cs"
    "rollup_children inp level cs (rollup_init d) = (0, db, subs)"
    "db = (rollup_init d)\<lparr>
      db_pentries_rollup := db_pentries_rollup (rollup_init d) @ concat (map (\<lambda>c. pentries (the (ch_db c))) cs),
      db_treesummary := db_treesummary (rollup_init d) @ concat (map (\<lambda>c. db_treesummary (the (ch_db c))) cs),
      db_summary := db_summary (rollup_init d) @ concat (map (\<lambda>c. map (renamed (rw_name r)) (db_summary (the (ch_db c)))) cs)\<rparr>"
    by auto
  have "db_summary db = r\<lparr>rw_canrollup := True, rw_isrolledup := True\<rparr> #
      concat (map (map (renamed (rw_name r))) (map (\<lambda>c. db_summary (the (ch_db c))) cs))"
    using assms(2,3) by (simp add: s(3) rollup_init_def rollup_cleanup_def roots_def comp_def)
  from rolledup_rows [OF assms(3) this] have "rolledup_treesummary db = rolled_db d r (map (\<lambda>c. the (ch_db c)) cs)"
    using assms(2,3) by (simp add: s(3) rolled_db_def rollup_init_def rollup_cleanup_def roots_def comp_def)
  then show ?thesis using s(1,2) by (simp add: do_rollup_def)
qed

lemma rolled_db_facts:
  assumes "db_summary d = [r]" and "rw_isroot r"
  shows "roots (rolled_db d r subs) = [r\<lparr>rw_canrollup := True, rw_isrolledup := True\<rparr>]"
    and "get_isrolledup (rolled_db d r subs)"
    and "set (pentries (rolled_db d r subs)) = Pair (rw_inode r) ` set (db_entries d) \<union> (\<Union>sub \<in> set subs. set (pentries sub))"
proof -
  have "filter rw_isroot (concat (map (\<lambda>sub. map (renamed (rw_name r)) (db_summary sub)) subs)) = []"
    by (auto simp: filter_empty_conv)
  then show r: "roots (rolled_db d r subs) = [r\<lparr>rw_canrollup := True, rw_isrolledup := True\<rparr>]"
    using assms(2) by (simp add: roots_def rolled_db_def)
  then show "get_isrolledup (rolled_db d r subs)" by (simp add: get_isrolledup_def)
  show "set (pentries (rolled_db d r subs)) = Pair (rw_inode r) ` set (db_entries d) \<union> (\<Union>sub \<in> set subs. set (pentries sub))"
    unfolding pentries_def [of "rolled_db d r subs"] r by (simp add: rolled_db_def)
qed

section \<open>A walk keeps the answers\<close>

lemma join_parts:
  assumes "\<And>s. s \<in> set subs \<Longrightarrow> rw_inode ` set (db_summary s) \<subseteq> I s" "\<And>s. s \<in> set subs \<Longrightarrow> fst ` set (pentries s) \<subseteq> I s"
    and "\<And>s t. s \<in> set subs \<Longrightarrow> t \<in> set subs \<Longrightarrow> s \<noteq> t \<Longrightarrow> I s \<inter> I t = {}"
    and "s \<in> set subs" "r \<in> set (db_summary s)" "t \<in> set subs" "(rw_inode r, e) \<in> set (pentries t)"
  shows "s = t"
proof (rule ccontr)
  assume "s \<noteq> t"
  then have "I s \<inter> I t = {}" using assms(3,4,6) by blast
  moreover have "rw_inode r \<in> I s" using assms(1,4,5) by blast
  moreover have "rw_inode r \<in> I t" using assms(2) [OF assms(6)] assms(7) by force
  ultimately show False by blast
qed

lemma rolled_db_answers:
  assumes "db_summary d = [r]" and "rw_isroot r" and "rw_name r = n"
    and sub: "\<And>s. s \<in> set subs \<Longrightarrow> rw_inode ` set (db_summary s) \<subseteq> I s" "\<And>s. s \<in> set subs \<Longrightarrow> fst ` set (pentries s) \<subseteq> I s"
    and disj: "\<And>s t. s \<in> set subs \<Longrightarrow> t \<in> set subs \<Longrightarrow> s \<noteq> t \<Longrightarrow> I s \<inter> I t = {}"
    and new: "\<And>s. s \<in> set subs \<Longrightarrow> rw_inode r \<notin> I s"
  shows "db_answers (pre @ n) (length n) (rolled_db d r subs) = Pair (pre @ n) ` set (db_entries d)
    \<union> (\<Union>s \<in> set subs. {(pre @ n @ ''/'' @ rw_name x, e) | x e. x \<in> set (db_summary s) \<and> (rw_inode x, e) \<in> set (pentries s)})"
    (is "?L = ?own \<union> ?below")
proof -
  note p = rolled_db_facts(3) [OF assms(1,2), of subs]
  have s: "set (db_summary (rolled_db d r subs)) = insert (r\<lparr>rw_canrollup := True, rw_isrolledup := True\<rparr>)
      (\<Union>s \<in> set subs. renamed n ` set (db_summary s))"
    by (auto simp: rolled_db_def assms(3))
  have in_sub: "rw_inode x \<in> I s" if "s \<in> set subs" "x \<in> set (db_summary s)" for s x using sub(1) that by blast
  have in_pe: "i \<in> I s" if "s \<in> set subs" "(i, e) \<in> set (pentries s)" for s i e using sub(2) that by force
  show ?thesis
  proof (intro equalityI subsetI)
    fix z assume "z \<in> ?L"
    then obtain x e where z: "z = (row_path (pre @ n) (length n) x, e)"
      and x: "x \<in> set (db_summary (rolled_db d r subs))" and e: "(rw_inode x, e) \<in> set (pentries (rolled_db d r subs))"
      by (auto simp: db_answers_def)
    consider "x = r\<lparr>rw_canrollup := True, rw_isrolledup := True\<rparr>"
      | s y where "s \<in> set subs" "y \<in> set (db_summary s)" "x = renamed n y" using x s by auto
    then show "z \<in> ?own \<union> ?below"
    proof cases
      case 1
      then have "(rw_inode r, e) \<in> Pair (rw_inode r) ` set (db_entries d)"
        using e new in_pe unfolding p by fastforce
      then show ?thesis using z 1 assms(3) by (auto simp: row_path_def)
    next
      case 2
      then have "(rw_inode y, e) \<in> (\<Union>t \<in> set subs. set (pentries t))"
        using e new in_sub unfolding p by fastforce
      then obtain t where t: "t \<in> set subs" "(rw_inode y, e) \<in> set (pentries t)" by blast
      have "s = t" by (rule join_parts [OF sub disj 2(1,2) t])
      then show ?thesis using z 2 t by (auto simp: row_path_def)
    qed
  next
    fix z assume "z \<in> ?own \<union> ?below"
    then consider e where "z = (pre @ n, e)" "e \<in> set (db_entries d)"
      | s y e where "s \<in> set subs" "y \<in> set (db_summary s)" "(rw_inode y, e) \<in> set (pentries s)"
        "z = (pre @ n @ ''/'' @ rw_name y, e)" by blast
    then show "z \<in> ?L"
    proof cases
      case 1
      then show ?thesis unfolding db_answers_def
        by (intro CollectI exI [of _ "r\<lparr>rw_canrollup := True, rw_isrolledup := True\<rparr>"] exI [of _ e])
          (simp add: s p row_path_def assms(3))
    next
      case 2
      then show ?thesis unfolding db_answers_def
        by (intro CollectI exI [of _ "renamed n y"] exI [of _ e]) (auto simp: s p row_path_def)
    qed
  qed
qed

text \<open>
  What holds of a directory after the walk, of which \<open>t\<close> was the state before.
\<close>

definition walked :: "'e dir \<Rightarrow> 'e dir \<Rightarrow> bool \<Rightarrow> bool" where
  "walked t t' rolled \<longleftrightarrow> dir_name t' = dir_name t \<and> dir_copy t' = Copied
     \<and> (\<exists>d r rest. dir_db t' = Some d \<and> db_summary d = r # rest \<and> rw_isroot r \<and> rw_name r = dir_name t
          \<and> list_all (\<lambda>x. \<not> rw_isroot x \<and> rw_isrolledup x) rest
          \<and> rw_isrolledup r = rolled \<and> (rolled \<longrightarrow> rw_canrollup r)
          \<and> rw_inode ` set (db_summary d) \<subseteq> set (inodes t) \<and> fst ` set (pentries d) \<subseteq> set (inodes t)
          \<and> (rolled \<longrightarrow> (\<forall>pre. db_answers (pre @ dir_name t) (length (dir_name t)) d = answers (pre @ dir_name t) t)))
     \<and> (\<forall>pre. answers (pre @ dir_name t) t' = answers (pre @ dir_name t) t)"

lemma fresh_db_pentries:
  assumes "db_summary d = [r]" and "rw_isroot r" and "db_pentries_rollup d = []"
  shows "set (pentries d) = Pair (rw_inode r) ` set (db_entries d)" and "roots d = [r]"
  using assms by (auto simp: pentries_def roots_def)

lemma walked_fresh:
  assumes "fresh t"
  shows "walked t t False"
proof (cases t)
  case (Dir n db cp ls ds)
  obtain d r where d: "db = Some d" "db_summary d = [r]" "rw_isroot r" "rw_name r = n" "\<not> rw_isrolledup r"
    "db_pentries_rollup d = []"
    using assms Dir by (auto simp: fresh_db_def split: option.splits)
  have "fst ` set (pentries d) \<subseteq> set (inodes t)"
    using fresh_db_pentries(1) [OF d(2,3,6)] Dir d by auto
  then show ?thesis
    using d Dir assms unfolding walked_def by (intro conjI exI [of _ d] exI [of _ r] exI [of _ "[]"]) auto
qed

lemma map2_set_db: "map2 set_db ds (map dir_db ds) = ds"
proof -
  have "set_db d (dir_db d) = d" for d :: "'a dir" by (cases d) simp
  then show ?thesis by (induction ds) auto
qed

lemma dir_name_set_db [simp]: "dir_name (set_db d db) = dir_name d" "dir_copy (set_db d db) = dir_copy d"
  by (cases d; simp)+

lemma fresh_root_answers:
  assumes "db_summary d = [r]" and "rw_isroot r" and "rw_name r = n" and "\<not> rw_isrolledup r" and "db_pentries_rollup d = []"
  shows "answers (pre @ n) (Dir n (Some d) cp ls ds) = Pair (pre @ n) ` set (db_entries d)
    \<union> \<Union> (set (map (\<lambda>x. answers (pre @ n @ ''/'' @ dir_name x) x) ds))"
proof -
  have "\<not> get_isrolledup d" using fresh_db_pentries(2) [OF assms(1,2,5)] assms(4) by (simp add: get_isrolledup_def)
  moreover have "db_answers (pre @ n) (length n) d = Pair (pre @ n) ` set (db_entries d)"
    using fresh_db_pentries(1) [OF assms(1,2,5)] assms(1,4) by (auto simp: db_answers_def row_path_def)
  ultimately show ?thesis by simp
qed

text \<open>A directory whose own database the walk leaves alone.\<close>

lemma walked_stays:
  assumes "fresh (Dir n (Some d) cp ls ds)" and "list_all2 (\<lambda>x y. walked x y (R x)) ds ds'"
  shows "walked (Dir n (Some d) cp ls ds) (Dir n (Some d) cp ls ds') False"
proof -
  obtain r where d: "db_summary d = [r]" "rw_isroot r" "rw_name r = n" "\<not> rw_isrolledup r" "db_pentries_rollup d = []"
    using assms by (auto simp: fresh_db_def)
  have below: "map (\<lambda>x. answers (p @ dir_name x) x) ds' = map (\<lambda>x. answers (p @ dir_name x) x) ds" for p
    using assms(2) by (induction rule: list_all2_induct) (auto simp: walked_def)
  have a: "answers (pre @ n) (Dir n (Some d) cp ls ds') = answers (pre @ n) (Dir n (Some d) cp ls ds)" for pre
    using below [of "pre @ n @ ''/''"] unfolding fresh_root_answers [OF d] by simp
  have "fst ` set (pentries d) \<subseteq> {rw_inode r}" using fresh_db_pentries(1) [OF d(1,2,5)] by auto
  then show ?thesis
    using d assms(1) a unfolding walked_def by (intro conjI exI [of _ d] exI [of _ r] exI [of _ "[]"]) auto
qed

lemma concat_disjoint:
  assumes "distinct (concat (map f xs))" and "i < length xs" and "j < length xs" and "i \<noteq> j"
  shows "set (f (xs ! i)) \<inter> set (f (xs ! j)) = {}"
  using assms
proof (induction xs arbitrary: i j)
  case (Cons x xs)
  have dj: "set (f x) \<inter> set (f (xs ! k)) = {}" if "k < length xs" for k
  proof -
    have "xs ! k \<in> set xs" using that by simp
    then have "set (f (xs ! k)) \<subseteq> set (concat (map f xs))" by auto
    then show ?thesis using Cons.prems(1) by auto
  qed
  show ?case
  proof (cases "i = 0 \<or> j = 0")
    case True
    then show ?thesis using Cons.prems(2-4) dj [of "i - 1"] dj [of "j - 1"] by (cases i; cases j) auto
  next
    case False
    then show ?thesis using Cons.prems Cons.IH [of "i - 1" "j - 1"] by (cases i; cases j) auto
  qed
qed simp

lemma walked_rolled:
  assumes "walked x y True"
  obtains d where "dir_db y = Some d" "rw_inode ` set (db_summary d) \<subseteq> set (inodes x)"
    "fst ` set (pentries d) \<subseteq> set (inodes x)" "dir_name y = dir_name x"
    "\<And>p. {(p @ rw_name z, e) | z e. z \<in> set (db_summary d) \<and> (rw_inode z, e) \<in> set (pentries d)}
       = answers (p @ dir_name x) x"
proof -
  obtain d r rest where d: "dir_db y = Some d" "db_summary d = r # rest" "rw_isrolledup r"
    "list_all (\<lambda>x. \<not> rw_isroot x \<and> rw_isrolledup x) rest"
    "rw_inode ` set (db_summary d) \<subseteq> set (inodes x)" "fst ` set (pentries d) \<subseteq> set (inodes x)"
    "dir_name y = dir_name x"
    "\<And>pre. db_answers (pre @ dir_name x) (length (dir_name x)) d = answers (pre @ dir_name x) x"
    using assms unfolding walked_def by auto
  have "rw_isrolledup z" if "z \<in> set (db_summary d)" for z using d(2-4) that by (auto simp: list_all_iff)
  then have "row_path (p @ dir_name x) (length (dir_name x)) z = p @ rw_name z" if "z \<in> set (db_summary d)" for z p
    using that by (simp add: row_path_def)
  then have "db_answers (p @ dir_name x) (length (dir_name x)) d =
      {(p @ rw_name z, e) | z e. z \<in> set (db_summary d) \<and> (rw_inode z, e) \<in> set (pentries d)}" for p
    unfolding db_answers_def by metis
  then show thesis using that [OF d(1,5,6,7)] d(8) by simp
qed

text \<open>A directory that is rolled up, every subdirectory being so.\<close>

lemma rolled_subtree_answers:
  assumes dis: "distinct (concat (map inodes ds))" and new: "rw_inode r \<notin> set (concat (map inodes ds))"
    and sub: "list_all2 (\<lambda>x y. walked x y True) ds ds'"
    and r: "db_summary d = [r]" "rw_isroot r" "rw_name r = n"
  defines "S \<equiv> map (\<lambda>x. the (dir_db x)) ds'"
  shows "db_answers (pre @ n) (length n) (rolled_db d r S) = Pair (pre @ n) ` set (db_entries d)
      \<union> \<Union> (set (map (\<lambda>x. answers (pre @ n @ ''/'' @ dir_name x) x) ds))"
    and "rw_inode ` set (db_summary (rolled_db d r S)) \<subseteq> insert (rw_inode r) (set (concat (map inodes ds)))"
    and "fst ` set (pentries (rolled_db d r S)) \<subseteq> insert (rw_inode r) (set (concat (map inodes ds)))"
proof -
  let ?I = "\<lambda>s. rw_inode ` set (db_summary s) \<union> fst ` set (pentries s)"
  have len: "length S = length ds" using sub by (simp add: S_def list_all2_lengthD)
  have W: "walked (ds ! i) (ds' ! i) True" "S ! i = the (dir_db (ds' ! i))" if "i < length ds" for i
    using sub that len by (auto simp: list_all2_conv_all_nth S_def)
  have I: "?I (S ! i) \<subseteq> set (inodes (ds ! i))" if "i < length ds" for i
    by (rule walked_rolled [OF W(1) [OF that]]) (use W(2) [OF that] in auto)
  have disj: "?I s \<inter> ?I t = {}" if st: "s \<in> set S" "t \<in> set S" "s \<noteq> t" for s t
  proof -
    obtain i j where "i < length ds" "j < length ds" "s = S ! i" "t = S ! j"
      using st(1,2) len unfolding in_set_conv_nth by auto
    moreover have "i \<noteq> j" using st(3) calculation by blast
    ultimately show ?thesis using I [of i] I [of j] concat_disjoint [OF dis, of i j] by blast
  qed
  have below: "?I s \<subseteq> set (concat (map inodes ds))" if s: "s \<in> set S" for s
  proof -
    obtain i where i: "i < length ds" "s = S ! i" using s len unfolding in_set_conv_nth by auto
    then have "?I s \<subseteq> set (inodes (ds ! i))" using I by blast
    then show ?thesis using i(1) by (force simp: in_set_conv_nth)
  qed
  have ans: "(\<Union>s \<in> set S. {(p @ rw_name x, e) | x e. x \<in> set (db_summary s) \<and> (rw_inode x, e) \<in> set (pentries s)})
      = \<Union> (set (map (\<lambda>x. answers (p @ dir_name x) x) ds))" (is "?A = ?B") for p
  proof -
    have "{(p @ rw_name x, e) | x e. x \<in> set (db_summary (S ! i)) \<and> (rw_inode x, e) \<in> set (pentries (S ! i))}
        = answers (p @ dir_name (ds ! i)) (ds ! i)" if "i < length ds" for i
      by (rule walked_rolled [OF W(1) [OF that]]) (use W(2) [OF that] in auto)
    then have "map (\<lambda>s. {(p @ rw_name x, e) | x e. x \<in> set (db_summary s) \<and> (rw_inode x, e) \<in> set (pentries s)}) S
        = map (\<lambda>x. answers (p @ dir_name x) x) ds"
      using len by (intro nth_equalityI) auto
    then show ?thesis by (metis (no_types, lifting) image_set)
  qed
  show "db_answers (pre @ n) (length n) (rolled_db d r S) = Pair (pre @ n) ` set (db_entries d)
      \<union> \<Union> (set (map (\<lambda>x. answers (pre @ n @ ''/'' @ dir_name x) x) ds))"
  proof -
    have new': "rw_inode r \<notin> ?I s" if "s \<in> set S" for s using below [OF that] new by blast
    have "db_answers (pre @ n) (length n) (rolled_db d r S) = Pair (pre @ n) ` set (db_entries d)
      \<union> (\<Union>s \<in> set S. {(pre @ n @ ''/'' @ rw_name x, e) | x e. x \<in> set (db_summary s) \<and> (rw_inode x, e) \<in> set (pentries s)})"
      by (rule rolled_db_answers [OF r _ _ disj new']) blast+
    then show ?thesis using ans [of "pre @ n @ ''/''"] by simp
  qed
  show "rw_inode ` set (db_summary (rolled_db d r S)) \<subseteq> insert (rw_inode r) (set (concat (map inodes ds)))"
    using below by (fastforce simp: rolled_db_def)
  show "fst ` set (pentries (rolled_db d r S)) \<subseteq> insert (rw_inode r) (set (concat (map inodes ds)))"
    using below unfolding rolled_db_facts(3) [OF r(1,2)] by fastforce
qed

lemma walked_rolls:
  assumes fr: "fresh (Dir n (Some d) cp ls ds)" and dis: "distinct (inodes (Dir n (Some d) cp ls ds))"
    and sub: "list_all2 (\<lambda>x y. walked x y True) ds ds'" and r: "db_summary d = [r]"
  shows "walked (Dir n (Some d) cp ls ds)
    (Dir n (Some (rolled_db d r (map (\<lambda>x. the (dir_db x)) ds'))) cp ls ds'') True"
proof -
  have d: "rw_isroot r" "rw_name r = n" "\<not> rw_isrolledup r" "db_pentries_rollup d = []" "cp = Copied"
    using fr r by (auto simp: fresh_db_def)
  have dis': "distinct (concat (map inodes ds))" "rw_inode r \<notin> set (concat (map inodes ds))"
    using dis r by auto
  note R = rolled_subtree_answers [OF dis' sub r d(1,2)]
  note old = fresh_root_answers [OF r d(1-4)]
  have g: "get_isrolledup (rolled_db d r (map (\<lambda>x. the (dir_db x)) ds'))"
    by (rule rolled_db_facts(2) [OF r d(1)])
  show ?thesis
    unfolding walked_def using R d r g old
    by (intro conjI exI [of _ "rolled_db d r (map (\<lambda>x. the (dir_db x)) ds')"]
        exI [of _ "r\<lparr>rw_canrollup := True, rw_isrolledup := True\<rparr>"]
        exI [of _ "concat (map (\<lambda>sub. map (renamed (rw_name r)) (db_summary sub)) (map (\<lambda>x. the (dir_db x)) ds'))"])
      (auto simp: list_all_iff, auto simp: rolled_db_def)
qed

text \<open>The children as the walk hands them to \<open>rollup_ascend\<close>.\<close>

definition as_child :: "'e dir \<times> bool \<times> nat \<Rightarrow> 'e child" where
  "as_child r = \<lparr>ch_rolledup = fst (snd r), ch_db = dir_db (fst r), ch_copy = dir_copy (fst r)\<rparr>"

lemma as_child_simps [simp]:
  "ch_rolledup (as_child r) = fst (snd r)" "ch_db (as_child r) = dir_db (fst r)" "ch_copy (as_child r) = dir_copy (fst r)"
  by (simp_all add: as_child_def)

definition walk_sub :: "Permissions \<Rightarrow> rollup_in \<Rightarrow> nat \<Rightarrow> 'e dir \<Rightarrow> 'e dir \<times> bool \<times> nat" where
  "walk_sub mem inp level d = (if level + 1 \<le> ri_max_level inp then rollup_walk mem inp (level + 1) False d else (d, False, 0))"

lemma rollup_walk_Dir:
  "rollup_walk mem inp level is_top (Dir n db cp ls ds) =
     (let rs = map (walk_sub mem inp level) ds; below = sum_list (map (\<lambda>r. snd (snd r)) rs)
      in if ri_min_level inp \<le> level \<and> level \<le> ri_max_level inp then
           (let a = rollup_ascend mem inp level is_top ls False db (map as_child rs)
            in (Dir n (as_db a) cp ls (map2 set_db (map fst rs) (as_subdirs a)), as_rolledup a, as_remaining a + below))
         else (Dir n db cp ls (map fst rs), False, below))"
  unfolding rollup_walk.simps walk_sub_def [abs_def] as_child_def [abs_def] Let_def by simp

declare rollup_walk.simps [simp del]

lemma walked_walk:
  assumes "fresh t" and "distinct (inodes t)" and dry: "\<not> ri_dry_run inp"
  shows "walked t (fst (rollup_walk mem inp level is_top t)) (fst (snd (rollup_walk mem inp level is_top t)))"
  using assms(1,2)
proof (induction t arbitrary: level is_top)
  case (Dir n db cp ls ds)
  obtain d r where d: "db = Some d" "db_summary d = [r]" "rw_isroot r" "ls" "list_all fresh ds"
    using Dir.prems(1) by (auto simp: fresh_db_def split: option.splits)
  let ?f = "walk_sub mem inp level" and ?R = "\<lambda>x. fst (snd (walk_sub mem inp level x))"
  let ?ds' = "map fst (map ?f ds)" and ?subs = "map as_child (map ?f ds)"
  have each: "walked x (fst (?f x)) (?R x)" if "x \<in> set ds" for x
  proof -
    have "fresh x" using d(5) that by (simp add: list_all_iff)
    moreover have "distinct (inodes x)" using Dir.prems(2) that by (auto simp: distinct_concat_iff)
    ultimately show ?thesis using Dir.IH [OF that] walked_fresh [OF \<open>fresh x\<close>] by (simp add: walk_sub_def)
  qed
  then have all: "list_all2 (\<lambda>x y. walked x y (?R x)) ds ?ds'" by (auto simp: list_all2_conv_all_nth)
  note fr = Dir.prems(1) [unfolded d(1)] and dis = Dir.prems(2) [unfolded d(1)]
  note stay = walked_stays [OF fr all]
  show ?case
  proof (cases "ri_min_level inp \<le> level \<and> level \<le> ri_max_level inp")
    case False
    then show ?thesis using stay d(1) by (auto simp: rollup_walk_Dir Let_def)
  next
    case True
    define a where "a = rollup_ascend mem inp level is_top ls False (Some d) ?subs"
    have w: "fst (rollup_walk mem inp level is_top (Dir n db cp ls ds)) = Dir n (as_db a) cp ls (map2 set_db ?ds' (as_subdirs a))"
      "fst (snd (rollup_walk mem inp level is_top (Dir n db cp ls ds))) = as_rolledup a"
      using True by (simp_all add: rollup_walk_Dir a_def d(1) Let_def)
    show ?thesis unfolding w using dry a_def
    proof (cases rule: ascend_cases)
      case stays
      have "map ch_db ?subs = map dir_db ?ds'" by simp
      then have "map2 set_db ?ds' (as_subdirs a) = ?ds'" using stays(2) map2_set_db by metis
      then show "walked (Dir n db cp ls ds) (Dir n (as_db a) cp ls (map2 set_db ?ds' (as_subdirs a))) (as_rolledup a)"
        using stay stays(1,3) d(1) by simp
    next
      case (rolls rc dst' subs')
      have R: "?R x" if "x \<in> set ds" for x using rolls(1) that by (simp add: list_all_iff)
      have "list_all (\<lambda>c. ch_copy c = Copied \<and> ch_db c \<noteq> None) ?subs"
        using each by (fastforce simp: list_all_iff walked_def)
      from do_rollup_copied [OF this d(2,3), of inp level] rolls(2) d(4)
      have e: "rc = 0" "length subs' = length ?subs" "dst' = rolled_db d r (map (\<lambda>c. the (ch_db c)) ?subs)" by auto
      have "list_all2 (\<lambda>x y. walked x y True) ds ?ds'" using each R by (fastforce simp: list_all2_conv_all_nth)
      from walked_rolls [OF fr dis this d(2)] show
        "walked (Dir n db cp ls ds) (Dir n (as_db a) cp ls (map2 set_db ?ds' (as_subdirs a))) (as_rolledup a)"
        using rolls(3-5) e d(1) by (simp add: comp_def)
    qed
  qed
qed

section \<open>Counting what remains\<close>

lemma sum_list_split:
  "(\<And>x. x \<in> set xs \<Longrightarrow> g x + of_bool (p x) = (h x :: nat)) \<Longrightarrow>
   sum_list (map h xs) = sum_list (map g xs) + length (filter p xs)"
proof (induction xs)
  case (Cons x xs)
  then have "sum_list (map h xs) = sum_list (map g xs) + length (filter p xs)" "g x + of_bool (p x) = h x" by simp_all
  then show ?case by (cases "p x") auto
qed simp

text \<open>The walk reaches every directory.\<close>

fun within :: "nat \<Rightarrow> nat \<Rightarrow> 'e dir \<Rightarrow> bool" where
  "within max_level level (Dir n db cp ls ds) \<longleftrightarrow> level \<le> max_level \<and> list_all (within max_level (level + 1)) ds"

lemma read_children_all: "list_all (\<lambda>c. ch_db c \<noteq> None) cs \<Longrightarrow> length (fst (read_children mem cs)) = length cs"
  by (induction cs) (auto split: option.splits prod.splits)

lemma not_nowhere:
  assumes "list_all (\<lambda>c. ch_db c \<noteq> None) subs"
  shows "as_verdict (rollup_ascend mem inp level is_top ls r (Some d) subs) \<noteq> Nowhere"
proof -
  have c: "fst (can_rollup mem d subs) \<noteq> -1"
    using read_children_all [OF assms, of mem] by (auto simp: can_rollup_def split: prod.splits)
  then have "0 \<le> fst (should_rollup mem inp d subs ds)" for ds
    using can_rollup_values [of mem d subs] by (auto simp: should_rollup_def Let_def split: prod.splits)
  then show ?thesis
    by (auto simp: rollup_ascend_def Let_def not_le split: prod.splits) (metis fst_conv not_le order.antisym)+
qed

lemma walked_flag:
  assumes "walked t t' rolled" and "t' = Dir n db cp ls ds"
  shows "(case db of None \<Rightarrow> False | Some d \<Rightarrow> get_isrolledup d) = rolled"
proof -
  obtain d r rest where d: "db = Some d" "db_summary d = r # rest" "rw_isroot r" "rw_isrolledup r = rolled"
    "rolled \<longrightarrow> rw_canrollup r" "list_all (\<lambda>x. \<not> rw_isroot x \<and> rw_isrolledup x) rest"
    using assms unfolding walked_def by auto
  have "filter rw_isroot rest = []" using d(6) by (auto simp: filter_empty_conv list_all_iff)
  then show ?thesis using d by (auto simp: get_isrolledup_def roots_def)
qed

lemma opened_walked:
  "walked t t' rolled \<Longrightarrow> opened t' = 1 + (if rolled then 0 else sum_list (map opened (dir_subdirs t')))"
  using walked_flag by (cases t') fastforce

lemma remaining_walk:
  assumes "fresh t" and "distinct (inodes t)" and dry: "\<not> ri_dry_run inp" and "within (ri_max_level inp) level t"
    and zero: "ri_min_level inp = 0"
  shows "snd (snd (rollup_walk mem inp level is_top t)) =
    (if fst (snd (rollup_walk mem inp level is_top t)) \<and> \<not> is_top then 0
     else opened (fst (rollup_walk mem inp level is_top t)))"
  using assms(1,2,4)
proof (induction t arbitrary: level is_top)
  case (Dir n db cp ls ds)
  obtain d where d: "db = Some d" using Dir.prems(1) by (auto split: option.splits)
  let ?f = "walk_sub mem inp level" and ?t = "Dir n db cp ls ds"
  let ?ds' = "map fst (map ?f ds)" and ?subs = "map as_child (map ?f ds)"
  let ?rem = "sum_list (map (\<lambda>x. snd (snd (?f x))) ds)"
  have each: "walked x (fst (?f x)) (fst (snd (?f x)))" "snd (snd (?f x)) + of_bool (fst (snd (?f x))) = opened (fst (?f x))"
    if x: "x \<in> set ds" for x
  proof -
    have fr: "fresh x" using Dir.prems(1) x by (simp add: list_all_iff)
    have di: "distinct (inodes x)" using Dir.prems(2) x by (auto simp: distinct_concat_iff)
    have wi: "within (ri_max_level inp) (level + 1) x" using Dir.prems(3) x by (simp add: list_all_iff)
    then have f: "?f x = rollup_walk mem inp (level + 1) False x" by (cases x) (simp add: walk_sub_def)
    show w: "walked x (fst (?f x)) (fst (snd (?f x)))" unfolding f by (rule walked_walk [OF fr di dry])
    show "snd (snd (?f x)) + of_bool (fst (snd (?f x))) = opened (fst (?f x))"
      using Dir.IH [OF x fr di wi, of False] opened_walked [OF w] unfolding f by simp
  qed
  define a where "a = rollup_ascend mem inp level is_top ls False (Some d) ?subs"
  have w: "fst (rollup_walk mem inp level is_top ?t) = Dir n (as_db a) cp ls (map2 set_db ?ds' (as_subdirs a))"
    "fst (snd (rollup_walk mem inp level is_top ?t)) = as_rolledup a"
    "snd (snd (rollup_walk mem inp level is_top ?t)) = as_remaining a + ?rem"
    using zero Dir.prems(3) by (simp_all add: rollup_walk_Dir a_def d Let_def comp_def)
  note op = opened_walked [OF walked_walk [OF Dir.prems(1,2) dry, of mem level is_top]]
  have op': "opened (Dir n (as_db a) cp ls (map2 set_db ?ds' (as_subdirs a))) =
      1 + (if as_rolledup a then 0 else sum_list (map opened (map2 set_db ?ds' (as_subdirs a))))"
    using op unfolding w by simp
  show ?case unfolding w using dry a_def
  proof (cases rule: ascend_cases)
    case stays
    have "list_all (\<lambda>c. ch_db c \<noteq> None) ?subs" using each(1) by (fastforce simp: list_all_iff walked_def)
    then have r: "as_remaining a = 1 + length (filter ch_rolledup ?subs)" using stays(4) not_nowhere a_def by blast
    have "map ch_db ?subs = map dir_db ?ds'" by simp
    then have "map2 set_db ?ds' (as_subdirs a) = ?ds'" using stays(2) map2_set_db by metis
    moreover have "sum_list (map opened ?ds') = ?rem + length (filter ch_rolledup ?subs)"
      using sum_list_split [of ds "\<lambda>x. snd (snd (?f x))" "\<lambda>x. fst (snd (?f x))" "\<lambda>x. opened (fst (?f x))"] each(2)
      by (simp add: comp_def filter_map)
    ultimately show "as_remaining a + ?rem = (if as_rolledup a \<and> \<not> is_top then 0
        else opened (Dir n (as_db a) cp ls (map2 set_db ?ds' (as_subdirs a))))"
      using r stays(3) op' by simp
  next
    case (rolls rc dst' subs')
    have z: "?rem = 0"
    proof -
      have "snd (snd (?f x)) = 0" if x: "x \<in> set ds" for x
      proof -
        have "fst (snd (?f x))" using rolls(1) x by (simp add: list_all_iff)
        then show ?thesis using each [OF x] opened_walked by fastforce
      qed
      then show ?thesis by (intro sum_list_zero) auto
    qed
    have "as_rolledup a"
    proof -
      obtain r where r: "db_summary d = [r]" "rw_isroot r" "ls"
        using Dir.prems(1) d by (auto simp: fresh_db_def)
      have "list_all (\<lambda>c. ch_copy c = Copied \<and> ch_db c \<noteq> None) ?subs"
        using each(1) by (fastforce simp: list_all_iff walked_def)
      from do_rollup_copied [OF this r(1,2), of inp level] show ?thesis using rolls(2,5) r(3) by auto
    qed
    then show "as_remaining a + ?rem = (if as_rolledup a \<and> \<not> is_top then 0
        else opened (Dir n (as_db a) cp ls (map2 set_db ?ds' (as_subdirs a))))"
      using z rolls(6) op' by simp
  qed
qed

section \<open>Properties\<close>

text \<open>
  Rolling up an index, with any limits and levels, changes nothing about what a query finds: the
  set of all pairs of a directory's path and an entry of it is the same before and after, although
  the query no longer enters the rolled up directories but reads their rows, with the paths
  rebuilt, from the database above them (inodes being unique in the index).
\<close>
theorem rollup_keeps_answers:
  assumes "fresh t" and "distinct (inodes t)" and "\<not> ri_dry_run inp"
  shows "answers (pre @ dir_name t) (fst (rollup_walk mem inp level is_top t)) = answers (pre @ dir_name t) t"
  using walked_walk [OF assms] by (simp add: walked_def)

text \<open>Three directories under each other, and one beside; all owned by the same user.\<close>

definition sample_db :: "string \<Rightarrow> nat \<Rightarrow> nat \<Rightarrow> nat list \<Rightarrow> nat db" where
  "sample_db n i m es = \<lparr>db_summary = [\<lparr>rw_isroot = True, rw_name = n, rw_inode = i, rw_depth = 0,
       rw_perms = \<lparr>pm_mode = m, pm_uid = 1, pm_gid = 1\<rparr>, rw_nondirs = length es, rw_canrollup = False,
       rw_isrolledup = False\<rparr>], db_entries = es, db_pentries_rollup = [], db_treesummary = []\<rparr>"

definition sample_index :: "nat dir" where
  "sample_index = Dir ''r'' (Some (sample_db ''r'' 1 493 [10])) Copied True
     [Dir ''a'' (Some (sample_db ''a'' 2 493 [20, 21])) Copied True
        [Dir ''b'' (Some (sample_db ''b'' 3 448 [30])) Copied True []],
      Dir ''c'' (Some (sample_db ''c'' 4 493 [])) Copied True []]"

definition sample_in :: rollup_in where
  "sample_in = \<lparr>ri_min_level = 0, ri_max_level = 9, ri_entries_limit = 0, ri_delete_below = None,
     ri_dry_run = False, ri_dont_reprocess = False\<rparr>"

lemma sample_index_ok: "fresh sample_index" "distinct (inodes sample_index)" "within 9 0 sample_index"
  by (simp_all add: sample_index_def sample_db_def fresh_db_def)

lemma rollup_keeps_answers_witness:
  "answers (''/x/'' @ dir_name sample_index) (fst (rollup_walk no_permissions sample_in 0 True sample_index))
     = answers (''/x/'' @ dir_name sample_index) sample_index"
  by (rule rollup_keeps_answers [OF sample_index_ok(1,2)]) (simp add: sample_in_def)

text \<open>
  The number printed as remaining directories is right: the sum of what all threads counted while
  they rolled up a whole index is the number of directories that a query opens afterwards.
\<close>
theorem rollup_counts_remaining:
  assumes "fresh t" and "distinct (inodes t)" and "\<not> ri_dry_run inp" and "ri_min_level inp = 0"
    and "within (ri_max_level inp) 0 t"
  shows "snd (snd (rollup_walk mem inp 0 True t)) = opened (fst (rollup_walk mem inp 0 True t))"
  using remaining_walk [OF assms(1-3,5,4), of mem True] by simp

lemma rollup_counts_remaining_witness:
  "snd (snd (rollup_walk no_permissions sample_in 0 True sample_index))
     = opened (fst (rollup_walk no_permissions sample_in 0 True sample_index))"
  by (rule rollup_counts_remaining [OF sample_index_ok(1,2)]) (simp_all add: sample_in_def sample_index_ok(3))

text \<open>Who may list a directory and read its index, by the mode bits.\<close>

definition can_read :: "Permissions \<Rightarrow> nat \<Rightarrow> nat set \<Rightarrow> bool" where
  "can_read p uid gids =
     (if uid = pm_uid p then pm_mode p AND 320 = 320
      else if pm_gid p \<in> gids then pm_mode p AND 40 = 40
      else pm_mode p AND 5 = 5)"

text \<open>
  The rules let private directories roll up into public ones: when the owners are the same and the
  owner's read and execute bits agree, a directory that neither its group nor others may read
  rolls up into one that all may read, so that every other user reads its rows there.  (The two
  conditions that the comments add to the last rules, that the top is \<open>o-rx\<close> and \<open>go-rx\<close>, are not
  checked.)
\<close>
theorem check_pair_permissions_exposes_private:
  assumes "pm_uid p = pm_uid c" and "pm_mode p AND 320 = pm_mode c AND 320"
    and "pm_mode p AND 40 = 40" and "pm_mode p AND 5 = 5"
    and "pm_mode c AND 40 = 0" and "pm_mode c AND 5 = 0" and "uid \<noteq> pm_uid p"
  shows "check_pair_permissions p c = 1 \<and> can_read p uid gids \<and> \<not> can_read c uid gids"
  using assms by (simp add: check_pair_permissions_iff can_read_def)

lemma check_pair_permissions_exposes_private_witness:
  "check_pair_permissions \<lparr>pm_mode = 493, pm_uid = 1, pm_gid = 1\<rparr> \<lparr>pm_mode = 448, pm_uid = 1, pm_gid = 2\<rparr> = 1
    \<and> can_read \<lparr>pm_mode = 493, pm_uid = 1, pm_gid = 1\<rparr> 7 {}
    \<and> \<not> can_read \<lparr>pm_mode = 448, pm_uid = 1, pm_gid = 2\<rparr> 7 {}"
  by (rule check_pair_permissions_exposes_private) simp_all

text \<open>
  With the conditions of the comments (and of the documentation) checked, whoever may read the
  parent may read the child, provided that whatever others may do the owner and the group may.
\<close>

definition documented_rules :: "Permissions \<Rightarrow> Permissions \<Rightarrow> bool" where
  "documented_rules parent child \<longleftrightarrow> pm_uid parent = pm_uid child \<and> (
     (pm_mode parent AND 5 = 5 \<and> pm_mode child AND 5 = 5 \<and> pm_gid parent = pm_gid child)
     \<or> (pm_mode parent AND 365 = pm_mode child AND 365 \<and> pm_gid parent = pm_gid child)
     \<or> (pm_mode parent AND 360 = pm_mode child AND 360 \<and> pm_gid parent = pm_gid child \<and> pm_mode parent AND 5 = 0)
     \<or> (pm_mode parent AND 320 = pm_mode child AND 320 \<and> pm_mode parent AND 40 = 0 \<and> pm_mode parent AND 5 = 0))"

lemma documented_rules_safe:
  assumes "documented_rules p c" and "can_read p uid gids" and "pm_mode c AND 5 = 5 \<longrightarrow> pm_mode c AND 365 = 365"
  shows "can_read c uid gids"
proof -
  have sub: "a AND 365 = b AND 365 \<Longrightarrow> a AND 320 = b AND 320 \<and> a AND 40 = b AND 40 \<and> a AND 5 = b AND 5"
    "a AND 360 = b AND 360 \<Longrightarrow> a AND 320 = b AND 320 \<and> a AND 40 = b AND 40" for a b :: nat
    using and_sub [of a 365 b 320] and_sub [of a 365 b 40] and_sub [of a 365 b 5]
      and_sub [of a 360 b 320] and_sub [of a 360 b 40] by simp_all
  have full: "pm_mode c AND 320 = 320 \<and> pm_mode c AND 40 = 40" if "pm_mode c AND 5 = 5"
    using sub(1) [of "pm_mode c" 365] assms(3) that by simp
  consider "pm_uid p = pm_uid c" "pm_mode c AND 5 = 5"
    | "pm_uid p = pm_uid c" "pm_gid p = pm_gid c" "pm_mode p AND 365 = pm_mode c AND 365"
    | "pm_uid p = pm_uid c" "pm_gid p = pm_gid c" "pm_mode p AND 360 = pm_mode c AND 360" "pm_mode p AND 5 = 0"
    | "pm_uid p = pm_uid c" "pm_mode p AND 320 = pm_mode c AND 320" "pm_mode p AND 40 = 0" "pm_mode p AND 5 = 0"
    using assms(1) unfolding documented_rules_def by auto
  then show ?thesis
  proof cases
    case 1
    then show ?thesis using full by (simp add: can_read_def)
  next
    case 2
    then show ?thesis using assms(2) sub(1) [OF 2(3)] by (auto simp: can_read_def split: if_splits)
  next
    case 3
    then show ?thesis using assms(2) sub(2) [OF 3(3)] by (auto simp: can_read_def split: if_splits)
  next
    case 4
    then show ?thesis using assms(2) by (auto simp: can_read_def split: if_splits)
  qed
qed

text \<open>
  C40: A roll up that fails hides what it did not copy: the flag is set before the first child is
  copied, so that after a child could not be attached the database claims to be rolled up, and a
  query finds the entries of the directory itself and nothing of any subdirectory.
\<close>
theorem failed_rollup_hides_subdirectories:
  assumes "fst (should_rollup mem inp d (c # cs) \<lparr>ds_level = level, ds_subdir_count = length (c # cs),
      ds_subnondir_count = 0, ds_too_many_before = 0, ds_too_many_after = 0, ds_score = 0, ds_success = True\<rparr>) = 1"
    and "\<not> ri_dry_run inp" and "ch_copy c = Attach_fails" and "fresh_db n d"
  shows "\<not> as_rolledup (rollup_ascend mem inp level is_top ls False (Some d) (c # cs))
    \<and> answers (pre @ n) (Dir n (as_db (rollup_ascend mem inp level is_top ls False (Some d) (c # cs))) cp ls ds)
      = Pair (pre @ n) ` set (db_entries d)"
proof -
  obtain r where r: "db_summary d = [r]" "rw_isroot r" "rw_name r = n" using assms(4) by (auto simp: fresh_db_def)
  have "rollup_children inp level (c # cs) (rollup_init d) = (-1, rollup_init d, map ch_db (c # cs))"
    using assms(3) by (cases "ch_db c") simp_all
  then have "do_rollup inp level ls (c # cs) d = (-1, rollup_init d, map ch_db (c # cs))"
    by (simp add: do_rollup_def del: rollup_children.simps)
  moreover obtain ds1 where "should_rollup mem inp d (c # cs) \<lparr>ds_level = level, ds_subdir_count = length (c # cs),
      ds_subnondir_count = 0, ds_too_many_before = 0, ds_too_many_after = 0, ds_score = 0, ds_success = True\<rparr> = (1, ds1)"
    using assms(1) by (metis prod.collapse)
  ultimately have a: "as_db (rollup_ascend mem inp level is_top ls False (Some d) (c # cs)) = Some (rollup_init d)"
    "\<not> as_rolledup (rollup_ascend mem inp level is_top ls False (Some d) (c # cs))"
    using assms(2) by (simp_all add: rollup_ascend_def)
  obtain ts where i: "rolled_db d r [] = (rollup_init d)\<lparr>db_treesummary := ts\<rparr>"
    using r by (intro that [of "db_treesummary (rolled_db d r [])"] db.equality)
      (simp_all add: rollup_init_def rollup_cleanup_def rolled_db_def roots_def)
  have "db_answers (pre @ n) (length n) (rollup_init d) = Pair (pre @ n) ` set (db_entries d)"
    using rolled_db_answers [OF r, where subs = "[]" and pre = pre] unfolding i by (simp add: db_answers_def)
  then show ?thesis using a rolled_db_facts(2) [OF r(1,2), of "[]"] by (simp add: i)
qed

lemma failed_rollup_hides_subdirectories_witness:
  "answers ''/x/r'' (Dir ''r'' (as_db (rollup_ascend no_permissions sample_in 0 True True False
      (Some (sample_db ''r'' 1 493 [10]))
      [\<lparr>ch_rolledup = True, ch_db = Some (sample_db ''c'' 2 493 [20]), ch_copy = Attach_fails\<rparr>])) Copied True
      [Dir ''c'' (Some (sample_db ''c'' 2 493 [20])) Copied True []])
    = {(''/x/r'', 10)}"
  using failed_rollup_hides_subdirectories [of no_permissions sample_in "sample_db ''r'' 1 493 [10]"
      "\<lparr>ch_rolledup = True, ch_db = Some (sample_db ''c'' 2 493 [20]), ch_copy = Attach_fails\<rparr>" "[]" 0
      "''r''" True True "''/x/''" Copied "[Dir ''c'' (Some (sample_db ''c'' 2 493 [20])) Copied True []]"]
  by (simp add: should_rollup_def can_rollup_def sample_db_def sample_in_def get_permissions_def
      root_permissions_def roots_def check_pair_permissions_def fresh_db_def)

text \<open>
  \<open>get_permissions\<close> asks all rows: on a database that is rolled up already, a directory is judged by the
  permissions of the last row that was copied into it.
\<close>

lemma rerun_judges_by_last_row:
  assumes "db_summary d = [r]" and "db_summary sub = rows @ [x]"
  shows "get_permissions mem (rolled_db d r (subs @ [sub])) = rw_perms x"
  using assms(2) by (simp add: get_permissions_def rolled_db_def renamed_def)

end
