(* ===== verification/HistText.thy ===== *)
theory HistText
  imports Bytes "HOL-Library.Word"
begin

text \<open>
  What the histograms of \<open>src/src/histogram.c\<close> share: the text a bucket is appended to,
  \<open>serialize_bucket\<close>, and the scanning of texts with \<open>sscanf\<close>, whose conversions are interpreted
  one after the other as the C library does.  A \<open>size_t\<close> is a 64 bit word.
\<close>

section \<open>Writing\<close>

text \<open>
  The bytes of the buffer before \<open>curr\<close>, \<open>None\<close> for a byte that was never written, and \<open>size\<close>.
  The argument \<open>item\<close> is what the callback prints; \<open>snprintf\<close> writes as much of it as fits, with a
  NUL.  \<open>grow\<close> says whether \<open>realloc\<close> to a size succeeds; it keeps the bytes and adds unwritten ones.
\<close>

record text_buffer =
  tb_size :: nat
  tb_bytes :: "char option list"

definition snprintf_bytes :: "nat \<Rightarrow> string \<Rightarrow> char option list" where
  "snprintf_bytes avail item =
     (if length item < avail then map Some item
      else if avail = 0 then []
      else map Some (take (avail - 1) item @ [NUL]))"

definition serialize_bucket :: "(nat \<Rightarrow> bool) \<Rightarrow> string \<Rightarrow> text_buffer \<Rightarrow> text_buffer option" where
  "serialize_bucket grow item b =
     (let written = length (tb_bytes b);
          avail = tb_size b - written;
          wrote = length item;
          bytes = snprintf_bytes avail item
      in if avail \<le> wrote then
           (let new_size = tb_size b + 2 * wrote
            in if grow new_size
               then Some \<lparr>tb_size = new_size,
                          tb_bytes = tb_bytes b @ take wrote (bytes @ replicate wrote None)\<rparr>
               else None)
         else Some (b\<lparr>tb_bytes := tb_bytes b @ bytes\<rparr>))"

definition DEFAULT_HIST_ALLOC :: nat where "DEFAULT_HIST_ALLOC = 512"

text \<open>The header, which always fits, and the buckets, up to the first that fails.\<close>

definition start_text :: "string \<Rightarrow> text_buffer" where
  "start_text header = \<lparr>tb_size = DEFAULT_HIST_ALLOC, tb_bytes = map Some header\<rparr>"

fun serialize_buckets :: "(nat \<Rightarrow> bool) \<Rightarrow> string list \<Rightarrow> text_buffer \<Rightarrow> text_buffer option" where
  "serialize_buckets grow [] b = Some b"
| "serialize_buckets grow (i # is) b =
     (case serialize_bucket grow i b of None \<Rightarrow> None | Some b' \<Rightarrow> serialize_buckets grow is b')"

text \<open>The C string that starts at the buffer.\<close>

definition c_text :: "text_buffer \<Rightarrow> string" where
  "c_text b = map the (takeWhile (\<lambda>c. c \<noteq> None \<and> c \<noteq> Some NUL) (tb_bytes b))"

lemma takeWhile_Some:
  "NUL \<notin> set s \<Longrightarrow> takeWhile (\<lambda>c. c \<noteq> None \<and> c \<noteq> Some NUL) (map Some s @ r)
     = map Some s @ takeWhile (\<lambda>c. c \<noteq> None \<and> c \<noteq> Some NUL) r"
  by (induction s) auto

lemma c_text_Some: "NUL \<notin> set s \<Longrightarrow> c_text \<lparr>tb_size = n, tb_bytes = map Some s\<rparr> = s"
  by (induction s) (auto simp: c_text_def)

lemma take_into: "length xs = m \<Longrightarrow> take (m + Suc d) (xs @ y # zs) = xs @ y # take d zs"
  by simp

lemma serialize_bucket_fits:
  assumes "length s + length i < n"
  shows "serialize_bucket grow i \<lparr>tb_size = n, tb_bytes = map Some s\<rparr>
    = Some \<lparr>tb_size = n, tb_bytes = map Some (s @ i)\<rparr>"
proof -
  have "\<not> n - length s \<le> length i" using assms by simp
  then show ?thesis by (simp add: serialize_bucket_def snprintf_bytes_def Let_def)
qed

text \<open>
  A text that fits is written as it is.  The first bucket that does not fit is cut off with a NUL
  and not written again into the larger buffer.
\<close>

lemma serialize_buckets_fit:
  assumes "length s + length (concat is) < n"
  shows "serialize_buckets grow is \<lparr>tb_size = n, tb_bytes = map Some s\<rparr>
    = Some \<lparr>tb_size = n, tb_bytes = map Some (s @ concat is)\<rparr>"
  using assms
proof (induction "is" arbitrary: s)
  case (Cons i "is")
  have "serialize_bucket grow i \<lparr>tb_size = n, tb_bytes = map Some s\<rparr>
      = Some \<lparr>tb_size = n, tb_bytes = map Some (s @ i)\<rparr>"
    by (rule serialize_bucket_fits) (use Cons.prems in simp)
  then show ?case using Cons.IH [of "s @ i"] Cons.prems by simp
qed simp

lemma serialize_buckets_extends:
  "serialize_buckets grow is b = Some b' \<Longrightarrow> \<exists>r. tb_bytes b' = tb_bytes b @ r"
proof (induction "is" arbitrary: b)
  case (Cons i "is")
  then obtain b1 where b1: "serialize_bucket grow i b = Some b1" "serialize_buckets grow is b1 = Some b'"
    by (auto split: option.splits)
  then have "\<exists>r. tb_bytes b1 = tb_bytes b @ r"
    by (auto simp: serialize_bucket_def Let_def split: if_splits)
  then show ?case using Cons.IH [OF b1(2)] by auto
qed simp

lemma serialize_buckets_grow:
  "(\<And>n. grow n) \<Longrightarrow> serialize_buckets grow is b \<noteq> None"
  by (induction "is" arbitrary: b) (auto simp: serialize_bucket_def Let_def split: option.splits)

lemma serialize_buckets_cut:
  assumes "serialize_buckets grow is \<lparr>tb_size = n, tb_bytes = map Some s\<rparr> = Some b"
    and "length s < n" and "NUL \<notin> set (s @ concat is)"
  shows "c_text b = take (n - 1) (s @ concat is)"
  using assms
proof (induction "is" arbitrary: s)
  case Nil
  then show ?case by (auto simp: c_text_Some)
next
  case (Cons i "is")
  let ?b = "\<lparr>tb_size = n, tb_bytes = map Some s\<rparr>"
  show ?case
  proof (cases "length s + length i < n")
    case True
    then have "serialize_bucket grow i ?b = Some \<lparr>tb_size = n, tb_bytes = map Some (s @ i)\<rparr>"
      by (rule serialize_bucket_fits)
    then show ?thesis using Cons.IH [of "s @ i"] Cons.prems True by simp
  next
    case False
    let ?a = "n - length s"
    obtain b1 where b1: "serialize_bucket grow i ?b = Some b1" "serialize_buckets grow is b1 = Some b"
      using Cons.prems(1) by (auto split: option.splits)
    have len: "length i = (?a - 1) + Suc (length i - ?a)" using False Cons.prems(2) by simp
    have cut: "take (length i) (map Some (take (?a - 1) i @ [NUL]) @ replicate (length i) None)
        = map Some (take (?a - 1) i) @ Some NUL # replicate (length i - ?a) None"
    proof -
      have "take (?a - 1 + Suc (length i - ?a)) (map Some (take (?a - 1) i) @ Some NUL # replicate (length i) None)
          = map Some (take (?a - 1) i) @ Some NUL # take (length i - ?a) (replicate (length i) None)"
        by (rule take_into) (use len in simp)
      then show ?thesis by (simp only: len [symmetric]) (simp add: min_def)
    qed
    have "tb_bytes b1 = map Some s @ map Some (take (?a - 1) i) @ Some NUL # replicate (length i - ?a) None"
      using b1(1) False Cons.prems(2) cut
      by (auto simp: serialize_bucket_def snprintf_bytes_def Let_def split: if_splits)
    then obtain r where "tb_bytes b = map Some (s @ take (?a - 1) i) @ Some NUL # r"
      using serialize_buckets_extends [OF b1(2)] by auto
    moreover have "NUL \<notin> set (s @ take (?a - 1) i)"
      using Cons.prems(3) by (auto dest: in_set_takeD)
    ultimately have "c_text b = s @ take (?a - 1) i"
      using takeWhile_Some [of "s @ take (?a - 1) i" "Some NUL # r"] by (simp add: c_text_def comp_def)
    then show ?thesis using Cons.prems(2) len by simp
  qed
qed

section \<open>Scanning\<close>

text \<open>
  The directives of the formats: \<open>%zu\<close>, \<open>%no\<close>, \<open>%[^:]\<close>, a character that has to match, and \<open>%n\<close>.
  The result of \<open>sscanf\<close> is the list of the values it assigned, whose length it returns, and what
  \<open>%n\<close> was set to, \<open>None\<close> when scanning ended before.
\<close>

datatype conv = Zu | Oct nat | NotColon | Lit char | Nread

datatype assigned = Num "64 word" | Str string

fun sscanf :: "conv list \<Rightarrow> string \<Rightarrow> nat \<Rightarrow> assigned list \<times> nat option" where
  "sscanf [] s k = ([], None)"
| "sscanf (Lit c # f) s k =
     (case s of [] \<Rightarrow> ([], None) | c' # s' \<Rightarrow> if c = c' then sscanf f s' (k + 1) else ([], None))"
| "sscanf (Zu # f) s k =
     (let ws = length (takeWhile isspace s) in
      case scan_num 10 (drop ws s) of
        None \<Rightarrow> ([], None)
      | Some (v, n) \<Rightarrow>
          (case sscanf f (drop (ws + n) s) (k + ws + n) of
             (vs, r) \<Rightarrow> (Num (word_of_int (clamp_u v)) # vs, r)))"
| "sscanf (Oct w # f) s k =
     (let ws = length (takeWhile isspace s) in
      case scan_num 8 (take w (drop ws s)) of
        None \<Rightarrow> ([], None)
      | Some (v, n) \<Rightarrow>
          (case sscanf f (drop (ws + n) s) (k + ws + n) of
             (vs, r) \<Rightarrow> (Num (word_of_int (v mod 2 ^ 32)) # vs, r)))"
| "sscanf (NotColon # f) s k =
     (let t = takeWhile (\<lambda>c. c \<noteq> CHR '':'') s in
      if t = [] then ([], None)
      else (case sscanf f (drop (length t) s) (k + length t) of (vs, r) \<Rightarrow> (Str t # vs, r)))"
| "sscanf (Nread # f) s k = (fst (sscanf f s k), Some k)"

text \<open>\<open>%zu\<close> of a word.\<close>

definition fmt_zu :: "64 word \<Rightarrow> string" where
  "fmt_zu v = digits 10 (unat v)"

lemma fmt_zu_ne [simp]: "fmt_zu v \<noteq> []"
  by (simp add: fmt_zu_def)

lemma fmt_zu_chars: "c \<in> set (fmt_zu v) \<Longrightarrow> is_digit 10 c"
  by (simp add: fmt_zu_def digits_all)

lemma fmt_zu_length: "length (fmt_zu v) \<le> 20"
proof -
  have "unat v < 2 ^ LENGTH(64)" by (rule unsigned_less)
  then have "unat v < 10 ^ 20" by simp
  then show ?thesis unfolding fmt_zu_def using length_digits [of 10 20 "unat v"] by simp
qed

lemma no_space: "s \<noteq> [] \<Longrightarrow> (\<And>c. c \<in> set s \<Longrightarrow> is_digit b c) \<Longrightarrow> takeWhile isspace (s @ r) = []"
  using digit_not_sign by (cases s) auto

lemma sscanf_zu:
  assumes "r = [] \<or> \<not> is_digit 10 (hd r)"
  shows "sscanf (Zu # f) (fmt_zu v @ r) k =
    (case sscanf f r (k + length (fmt_zu v)) of (vs, n) \<Rightarrow> (Num v # vs, n))"
proof -
  have ws: "takeWhile isspace (fmt_zu v @ r) = []"
    by (rule no_space) (auto intro: fmt_zu_chars)
  have "scan_num 10 (fmt_zu v @ r) = Some (int (num_value 10 (fmt_zu v)), length (fmt_zu v))"
    by (rule scan_num_digits) (use assms fmt_zu_chars in auto)
  moreover have "num_value 10 (fmt_zu v) = unat v"
    by (simp add: fmt_zu_def num_value_digits)
  moreover have "clamp_u (int (unat v)) = int (unat v)"
    using unsigned_less [where 'a = int, of v] by (simp add: clamp_u_def)
  ultimately show ?thesis using ws by simp
qed

declare sscanf.simps(3,4) [simp del]

lemma colon_no_digit [simp]: "\<not> is_digit b (CHR '':'')" "\<not> is_digit b (CHR '';'')"
  by (simp_all add: is_digit_def digit_val_def Let_def)

section \<open>The loops over the buckets\<close>

text \<open>
  What parsing ends with: an access outside of the text or the buckets, a null pointer, or a value.
\<close>

datatype 'h outcome = Undefined | Null | Returns 'h

text \<open>
  The loop that scans one bucket after the other: \<open>fresh\<close> is set when \<open>read\<close> is zero at the
  start of each round, otherwise it keeps its value when \<open>%n\<close> is not reached; the character in front
  of the new position, which may lie behind the text, has to be a semicolon.
\<close>

function bucket_loop ::
    "conv list \<Rightarrow> bool \<Rightarrow> (assigned list \<Rightarrow> 'h \<Rightarrow> 'h outcome) \<Rightarrow> string \<Rightarrow> nat \<Rightarrow> 'h \<Rightarrow> 'h outcome" where
  "bucket_loop fmt fresh store s read h =
     (if s = [] then Returns h
      else
        (case sscanf fmt s 0 of
           (vs, n) \<Rightarrow>
             let r = (case n of Some k \<Rightarrow> k | None \<Rightarrow> if fresh then 0 else read)
             in if length vs \<noteq> 2 then Null
                else if r = 0 then (if fresh then Null else Undefined)
                else if length s < r - 1 then Undefined
                else if length s = r - 1 \<or> s ! (r - 1) \<noteq> CHR '';'' then Null
                else (case store vs h of
                        Returns h' \<Rightarrow> bucket_loop fmt fresh store (drop r s) r h'
                      | e \<Rightarrow> e)))"
  by pat_completeness auto
termination
  by (relation "measure (\<lambda>(fmt, fresh, store, s, read, h). length s)") auto

declare bucket_loop.simps [simp del]

text \<open>Buckets that are written one behind the other are read one after the other.\<close>

lemma bucket_loop_reads:
  assumes "\<And>x r. x \<in> set xs \<Longrightarrow> sscanf fmt (item x @ r) 0 = (vals x, Some (length (item x)))"
    and "\<And>x. x \<in> set xs \<Longrightarrow> length (vals x) = 2 \<and> item x \<noteq> [] \<and> last (item x) = CHR '';''"
    and "\<And>x h. x \<in> set xs \<Longrightarrow> I h \<Longrightarrow> store (vals x) h = Returns (upd h x) \<and> I (upd h x)"
    and "I h"
  shows "bucket_loop fmt fresh store (concat (map item xs)) read h = Returns (foldl upd h xs)"
  using assms
proof (induction xs arbitrary: read h)
  case Nil
  then show ?case by (simp add: bucket_loop.simps)
next
  case (Cons x xs)
  let ?s = "item x @ concat (map item xs)"
  have x: "length (vals x) = 2" "item x \<noteq> []" "last (item x) = CHR '';''" using Cons.prems(2) [of x] by auto
  have at: "?s ! (length (item x) - 1) = CHR '';''"
    using x by (simp add: nth_append last_conv_nth)
  have "store (vals x) h = Returns (upd h x)" "I (upd h x)" using Cons.prems(3) [of x h] Cons.prems(4) by auto
  moreover have "bucket_loop fmt fresh store (concat (map item xs)) (length (item x)) (upd h x)
      = Returns (foldl upd (upd h x) xs)"
    by (rule Cons.IH) (use Cons.prems calculation in auto)
  moreover have "length ?s \<noteq> length (item x) - 1" "\<not> length ?s < length (item x) - 1"
    using x(2) by (cases "item x"; simp)+
  ultimately show ?case
    using x at Cons.prems(1) [of x "concat (map item xs)"]
    by (subst bucket_loop.simps) (simp add: Let_def)
qed

end
