(* ===== verification/Hist.thy ===== *)
theory Hist
  imports HistText Complex_Main
begin

text \<open>
  The logarithmic, permission and age histograms of \<open>src/src/histogram.c\<close>: inserting values,
  the texts, parsing them and combining histograms.  The state of an aggregate starts with zeros.
  The quotient of logarithms, a floating point number cut off to an integer, is the parameter
  \<open>quot base value\<close>.
\<close>

unbundle bit_operations_syntax

section \<open>Values\<close>

datatype sqlite_value = Text string | Integer "64 word" | Float rat | SQL_null

definition sqlite3_value_int :: "64 word \<Rightarrow> 32 word" where
  "sqlite3_value_int v = ucast v"

section \<open>What the three kinds have in common\<close>

text \<open>
  A histogram is good when it has the buckets its kind and its parameters ask for; combining adds
  the counts of good histograms.  Then histograms of parts are combined to the histogram of all.
\<close>

locale histogram =
  fixes good :: "'h \<Rightarrow> bool"
    and empty :: 'h
    and insert :: "'v \<Rightarrow> 'h \<Rightarrow> 'h"
    and combine :: "'h \<Rightarrow> 'h \<Rightarrow> 'h"
  assumes good_empty: "good empty"
    and good_insert: "good h \<Longrightarrow> good (insert v h)"
    and combine_empty: "good h \<Longrightarrow> combine h empty = h"
    and combine_insert: "good h \<Longrightarrow> good g \<Longrightarrow> combine h (insert v g) = insert v (combine h g)"
begin

lemma good_fold: "good h \<Longrightarrow> good (fold insert vs h)"
  by (induction vs arbitrary: h) (simp_all add: good_insert)

lemma combine_fold: "good h \<Longrightarrow> good g \<Longrightarrow> combine h (fold insert vs g) = fold insert vs (combine h g)"
  by (induction vs arbitrary: g) (simp_all add: good_insert combine_insert)

lemma combine_all:
  "good h \<Longrightarrow> foldl combine h (map (\<lambda>vs. fold insert vs empty) vss) = fold insert (concat vss) h"
  by (induction vss arbitrary: h) (simp_all add: combine_fold good_empty combine_empty good_fold)

end

section \<open>Logarithmic histograms\<close>

record log_hist =
  lh_base :: "64 word"
  lh_count :: "64 word"
  lh_lt :: "64 word"
  lh_buckets :: "64 word list option"
  lh_ge :: "64 word"

definition log_hist_zero :: log_hist where
  "log_hist_zero = \<lparr>lh_base = 0, lh_count = 0, lh_lt = 0, lh_buckets = None, lh_ge = 0\<rparr>"

definition log_hist_init :: "log_hist \<Rightarrow> 64 word \<Rightarrow> 64 word \<Rightarrow> log_hist option" where
  "log_hist_init hist base bucket_count =
     (if base < 2 then None
      else Some (hist\<lparr>lh_base := base, lh_count := bucket_count, lh_lt := 0,
                      lh_buckets := Some (replicate (unat bucket_count) 0), lh_ge := 0\<rparr>))"

definition log_hist_insert :: "(64 word \<Rightarrow> 64 word \<Rightarrow> nat) \<Rightarrow> 64 word \<Rightarrow> log_hist \<Rightarrow> log_hist" where
  "log_hist_insert quot v hist =
     (if v < 1 then hist\<lparr>lh_lt := lh_lt hist + 1\<rparr>
      else
        let bucket = quot (lh_base hist) v
        in if unat (lh_count hist) \<le> bucket then hist\<lparr>lh_ge := lh_ge hist + 1\<rparr>
           else hist\<lparr>lh_buckets := map_option (\<lambda>b. b[bucket := b ! bucket + 1]) (lh_buckets hist)\<rparr>)"

text \<open>The number that is inserted, and whether it is.\<close>

definition log_hist_value :: "sqlite_value \<Rightarrow> 64 word \<times> bool" where
  "log_hist_value v =
     (case v of
        Text s \<Rightarrow> (of_nat (length (cstr s)), True)
      | Integer w \<Rightarrow> (scast (sqlite3_value_int w), 0 \<le> sint (sqlite3_value_int w))
      | Float d \<Rightarrow> (word_of_int \<lfloor>d\<rfloor>, 0 \<le> d)
      | SQL_null \<Rightarrow> (0, True))"

text \<open>\<open>None\<close> when the aggregate reports an error.\<close>

definition log_hist_step ::
    "(64 word \<Rightarrow> 64 word \<Rightarrow> nat) \<Rightarrow> 64 word \<Rightarrow> 64 word \<Rightarrow> sqlite_value \<Rightarrow> log_hist \<Rightarrow> log_hist option" where
  "log_hist_step quot base bucket_count v hist =
     (case (if lh_base hist = 0
            then log_hist_init hist (scast (sqlite3_value_int base)) (scast (sqlite3_value_int bucket_count))
            else Some hist) of
        None \<Rightarrow> None
      | Some h \<Rightarrow>
          (case log_hist_value v of (n, ins) \<Rightarrow> Some (if ins then log_hist_insert quot n h else h)))"

definition serialize_log_bucket :: "nat \<Rightarrow> 64 word \<Rightarrow> string" where
  "serialize_log_bucket e n = fmt_zu (of_nat e) @ '':'' @ fmt_zu n @ '';''"

definition log_header :: "log_hist \<Rightarrow> string" where
  "log_header hist = fmt_zu (lh_base hist) @ '';'' @ fmt_zu (lh_count hist) @ '';'' @
     fmt_zu (lh_lt hist) @ '';'' @ fmt_zu (lh_ge hist) @ '';''"

definition log_items :: "log_hist \<Rightarrow> string list" where
  "log_items hist = (case lh_buckets hist of None \<Rightarrow> []
     | Some b \<Rightarrow> map (\<lambda>i. serialize_log_bucket i (b ! i))
                  (filter (\<lambda>i. b ! i \<noteq> 0) [0..<unat (lh_count hist)]))"

definition log_hist_serialize :: "(nat \<Rightarrow> bool) \<Rightarrow> log_hist \<Rightarrow> string option" where
  "log_hist_serialize grow hist =
     (if lh_base hist = 0 then Some ''0;0;0;0;''
      else map_option c_text (serialize_buckets grow (log_items hist) (start_text (log_header hist))))"

definition log_hist_store :: "assigned list \<Rightarrow> log_hist \<Rightarrow> log_hist outcome" where
  "log_hist_store vs hist =
     (case (vs, lh_buckets hist) of
        ([Num bucket, Num n], Some b) \<Rightarrow>
          if unat bucket < length b then Returns (hist\<lparr>lh_buckets := Some (b[unat bucket := n])\<rparr>)
          else Undefined
      | _ \<Rightarrow> Undefined)"

definition log_hist_parse :: "string \<Rightarrow> log_hist outcome" where
  "log_hist_parse str =
     (case sscanf [Zu, Lit CHR '';'', Zu, Lit CHR '';'', Zu, Lit CHR '';'', Zu, Lit CHR '';'', Nread] str 0 of
        ([Num base, Num n, Num lt, Num ge], Some r) \<Rightarrow>
          if r = 0 \<or> str ! (r - 1) \<noteq> CHR '';'' then Null
          else
            let hist = \<lparr>lh_base = base, lh_count = n, lh_lt = lt, lh_buckets = None, lh_ge = ge\<rparr>
            in if base = 0 then Returns hist
               else bucket_loop [Zu, Lit CHR '':'', Zu, Lit CHR '';'', Nread] False log_hist_store (drop r str) r
                      (hist\<lparr>lh_buckets := Some (replicate (unat n) 0)\<rparr>)
      | _ \<Rightarrow> Null)"

text \<open>
  \<open>Null\<close> when the histograms cannot be combined; a base that \<open>log_hist_init\<close> refuses leaves the
  buckets that were freed before in use.
\<close>

definition log_hist_combine_inplace :: "log_hist \<Rightarrow> log_hist \<Rightarrow> log_hist outcome" where
  "log_hist_combine_inplace lhs rhs =
     (let add = (\<lambda>l. l\<lparr>lh_lt := lh_lt l + lh_lt rhs, lh_ge := lh_ge l + lh_ge rhs,
                   lh_buckets := (case (lh_buckets l, lh_buckets rhs) of
                       (Some a, Some b) \<Rightarrow> Some (map (\<lambda>i. a ! i + b ! i) [0..<unat (lh_count l)])
                     | (a, _) \<Rightarrow> a)\<rparr>)
      in if lh_base rhs = 0 then Returns lhs
         else if lh_base lhs = 0 then
           (case log_hist_init lhs (lh_base rhs) (lh_count rhs) of
              None \<Rightarrow> Undefined
            | Some l \<Rightarrow> Returns (add l))
         else if lh_base lhs \<noteq> lh_base rhs then Null
         else if lh_count lhs \<noteq> lh_count rhs then Null
         else Returns (add lhs))"

definition log_hist_combine_step :: "string option \<Rightarrow> log_hist \<Rightarrow> log_hist outcome" where
  "log_hist_combine_step new_hist_str hist =
     (case new_hist_str of
        None \<Rightarrow> Null
      | Some s \<Rightarrow>
          (case log_hist_parse s of
             Undefined \<Rightarrow> Undefined
           | Null \<Rightarrow> Null
           | Returns new_hist \<Rightarrow>
               let h = (if lh_buckets hist = None
                        then hist\<lparr>lh_base := lh_base new_hist, lh_count := lh_count new_hist,
                                  lh_buckets := Some (replicate (unat (lh_count new_hist)) 0)\<rparr>
                        else hist)
               in log_hist_combine_inplace h new_hist))"

subsection \<open>Texts\<close>

text \<open>An initialised histogram.\<close>

definition log_good :: "64 word \<Rightarrow> 64 word \<Rightarrow> log_hist \<Rightarrow> bool" where
  "log_good base n hist \<longleftrightarrow> lh_base hist = base \<and> lh_count hist = n
     \<and> (\<exists>b. lh_buckets hist = Some b \<and> length b = unat n)"

definition log_text :: "log_hist \<Rightarrow> string" where
  "log_text hist = (if lh_base hist = 0 then ''0;0;0;0;'' else log_header hist @ concat (log_items hist))"

lemma header_fits: "length (log_header h) < DEFAULT_HIST_ALLOC"
  using fmt_zu_length [of "lh_base h"] fmt_zu_length [of "lh_count h"] fmt_zu_length [of "lh_lt h"]
    fmt_zu_length [of "lh_ge h"] by (simp add: log_header_def DEFAULT_HIST_ALLOC_def)

lemma NUL_fmt_zu: "NUL \<notin> set (fmt_zu v)"
  using fmt_zu_chars digit_not_sign by blast

lemma NUL_log_text: "NUL \<notin> set (log_header h @ concat (log_items h))"
  using NUL_fmt_zu by (auto simp: log_header_def log_items_def serialize_log_bucket_def split: option.splits)

text \<open>What is written is the text, cut off behind 511 bytes.\<close>

lemma log_hist_serialize_cut:
  assumes "log_hist_serialize grow h = Some s"
  shows "s = take (DEFAULT_HIST_ALLOC - 1) (log_text h)"
proof (cases "lh_base h = 0")
  case True
  then show ?thesis using assms by (auto simp: log_hist_serialize_def log_text_def DEFAULT_HIST_ALLOC_def)
next
  case False
  then obtain b where b: "serialize_buckets grow (log_items h) (start_text (log_header h)) = Some b" "s = c_text b"
    using assms by (auto simp: log_hist_serialize_def)
  show ?thesis
    using serialize_buckets_cut [OF b(1) [unfolded start_text_def] header_fits NUL_log_text] False b(2)
    by (simp add: log_text_def)
qed

lemma log_hist_serialize_fits:
  assumes "length (log_text h) < DEFAULT_HIST_ALLOC"
  shows "log_hist_serialize grow h = Some (log_text h)"
proof (cases "lh_base h = 0")
  case False
  then have "serialize_buckets grow (log_items h) (start_text (log_header h))
      = Some \<lparr>tb_size = DEFAULT_HIST_ALLOC, tb_bytes = map Some (log_header h @ concat (log_items h))\<rparr>"
    unfolding start_text_def by (intro serialize_buckets_fit) (use assms in \<open>simp add: log_text_def\<close>)
  then show ?thesis using False NUL_log_text [of h]
    by (simp add: log_hist_serialize_def log_text_def c_text_Some del: map_append)
qed (simp add: log_hist_serialize_def log_text_def)

lemma log_bucket_scans:
  "sscanf [Zu, Lit CHR '':'', Zu, Lit CHR '';'', Nread] (serialize_log_bucket i n @ r) 0
     = ([Num (of_nat i), Num n], Some (length (serialize_log_bucket i n)))"
  by (simp add: serialize_log_bucket_def sscanf_zu)

lemma log_header_scans:
  "sscanf [Zu, Lit CHR '';'', Zu, Lit CHR '';'', Zu, Lit CHR '';'', Zu, Lit CHR '';'', Nread] (log_header h @ r) 0
     = ([Num (lh_base h), Num (lh_count h), Num (lh_lt h), Num (lh_ge h)], Some (length (log_header h)))"
  by (simp add: log_header_def sscanf_zu)

lemma foldl_stores:
  "foldl (\<lambda>b i. b[i := f i]) b is = map (\<lambda>i. if i \<in> set is then f i else b ! i) [0..<length b]"
  for b :: "'a list"
proof (induction "is" arbitrary: b)
  case Nil
  then show ?case by (simp add: map_nth)
next
  case (Cons i "is")
  then show ?case by (auto simp: nth_list_update intro: map_cong)
qed

lemma foldl_store_buckets:
  "lh_buckets h = Some b \<Longrightarrow> foldl (\<lambda>h i. h\<lparr>lh_buckets := map_option (\<lambda>c. c[i := f i]) (lh_buckets h)\<rparr>) h is
     = h\<lparr>lh_buckets := Some (foldl (\<lambda>c i. c[i := f i]) b is)\<rparr>"
  by (induction "is" arbitrary: h b) simp_all

lemma restore_zeros:
  "length b = n \<Longrightarrow> foldl (\<lambda>c i. c[i := b ! i]) (replicate n 0) (filter (\<lambda>i. b ! i \<noteq> 0) [0..<n]) = b"
  by (auto simp: foldl_stores intro: nth_equalityI)

text \<open>A histogram is read back from its text.\<close>

lemma log_hist_parse_text:
  assumes "log_good base n h" and "base \<noteq> 0"
  shows "log_hist_parse (log_text h) = Returns h"
proof -
  obtain b where b: "lh_buckets h = Some b" "length b = unat n" and base: "lh_base h = base" "lh_count h = n"
    using assms(1) by (auto simp: log_good_def)
  let ?is = "filter (\<lambda>i. b ! i \<noteq> 0) [0..<unat n]"
  let ?item = "\<lambda>i. serialize_log_bucket i (b ! i)"
  let ?upd = "\<lambda>h i. h\<lparr>lh_buckets := map_option (\<lambda>c. c[i := b ! i]) (lh_buckets h)\<rparr>"
  let ?h0 = "\<lparr>lh_base = base, lh_count = n, lh_lt = lh_lt h, lh_buckets = Some (replicate (unat n) 0), lh_ge = lh_ge h\<rparr>"
  have idx: "unat (of_nat i :: 64 word) = i" if "i < unat n" for i
    using that unsigned_less [of n, where 'a = nat] by (simp add: unat_of_nat)
  have "bucket_loop [Zu, Lit CHR '':'', Zu, Lit CHR '';'', Nread] False log_hist_store
      (concat (map ?item ?is)) r ?h0 = Returns (foldl ?upd ?h0 ?is)" for r
  proof (rule bucket_loop_reads [where I = "log_good base n" and vals = "\<lambda>i. [Num (of_nat i), Num (b ! i)]"])
    show "sscanf [Zu, Lit CHR '':'', Zu, Lit CHR '';'', Nread] (?item i @ r) 0
        = ([Num (of_nat i), Num (b ! i)], Some (length (?item i)))" for i r
      by (rule log_bucket_scans)
  next
    fix i g
    assume "i \<in> set ?is" "log_good base n g"
    then show "log_hist_store [Num (of_nat i), Num (b ! i)] g = Returns (?upd g i) \<and> log_good base n (?upd g i)"
      by (auto simp: log_hist_store_def log_good_def idx)
  qed (use base in \<open>auto simp: serialize_log_bucket_def log_good_def\<close>)
  moreover have "foldl ?upd ?h0 ?is = h"
    using foldl_store_buckets [of ?h0 _ "\<lambda>i. b ! i" ?is] b base restore_zeros [of b "unat n"] by simp
  moreover have "log_text h = log_header h @ concat (map ?item ?is)"
    using b base assms(2) by (simp add: log_text_def log_items_def)
  moreover have "(log_header h @ r) ! (length (log_header h) - 1) = CHR '';''" for r
    by (simp add: log_header_def nth_append)
  moreover have "log_header h \<noteq> []" by (simp add: log_header_def)
  ultimately show ?thesis
    using base assms(2) by (simp add: log_hist_parse_def log_header_scans Let_def)
qed

subsection \<open>Combining\<close>

text \<open>The histogram of some values: what the steps lead to from the start.\<close>

definition log_hist_of ::
    "(64 word \<Rightarrow> 64 word \<Rightarrow> nat) \<Rightarrow> 64 word \<Rightarrow> 64 word \<Rightarrow> sqlite_value list \<Rightarrow> log_hist option" where
  "log_hist_of quot base n vs =
     foldl (\<lambda>h v. Option.bind h (log_hist_step quot base n v)) (Some log_hist_zero) vs"

definition log_insert :: "(64 word \<Rightarrow> 64 word \<Rightarrow> nat) \<Rightarrow> sqlite_value \<Rightarrow> log_hist \<Rightarrow> log_hist" where
  "log_insert quot v h = (case log_hist_value v of (x, ins) \<Rightarrow> if ins then log_hist_insert quot x h else h)"

definition log_start :: "64 word \<Rightarrow> 64 word \<Rightarrow> log_hist" where
  "log_start base n = \<lparr>lh_base = base, lh_count = n, lh_lt = 0, lh_buckets = Some (replicate (unat n) 0), lh_ge = 0\<rparr>"

definition log_combine :: "log_hist \<Rightarrow> log_hist \<Rightarrow> log_hist" where
  "log_combine l r = l\<lparr>lh_lt := lh_lt l + lh_lt r, lh_ge := lh_ge l + lh_ge r,
     lh_buckets := Some (map2 (+) (the (lh_buckets l)) (the (lh_buckets r)))\<rparr>"

lemma map2_nth: "length a = n \<Longrightarrow> length b = n \<Longrightarrow> map (\<lambda>i. f (a ! i) (b ! i)) [0..<n] = map2 f a b"
  by (auto intro: nth_equalityI)

lemma log_good_insert: "log_good base n h \<Longrightarrow> log_good base n (log_insert quot v h)"
  by (auto simp: log_good_def log_insert_def log_hist_insert_def Let_def split: prod.splits)

lemma log_good_combine: "log_good base n h \<Longrightarrow> log_good base n g \<Longrightarrow> log_good base n (log_combine h g)"
  by (auto simp: log_good_def log_combine_def)

lemma map2_update: "length a = length b \<Longrightarrow> i < length b \<Longrightarrow>
    map2 (+) a (b[i := x + b ! i]) = (map2 (+) a b)[i := x + (a ! i + b ! i)]"
  for a b :: "'a::ab_semigroup_add list"
  by (auto simp: nth_list_update add.left_commute intro: nth_equalityI)

lemma map2_zeros: "length a = n \<Longrightarrow> map2 (+) a (replicate n 0) = a"
  for a :: "'a::monoid_add list"
  by (auto intro: nth_equalityI)

interpretation log_hists: histogram "log_good base n" "log_start base n" "log_insert quot" log_combine
  for base n quot
proof unfold_locales
  show "log_good base n (log_start base n)" by (simp add: log_good_def log_start_def)
next
  fix h g v
  assume h: "log_good base n h" and g: "log_good base n g"
  obtain a b where a: "lh_buckets h = Some a" "lh_buckets g = Some b" "length a = unat n" "length b = unat n"
    "lh_base h = base" "lh_base g = base" "lh_count h = n" "lh_count g = n"
    using h g by (auto simp: log_good_def)
  show "log_combine h (log_insert quot v g) = log_insert quot v (log_combine h g)"
    using a by (auto simp: log_combine_def log_insert_def log_hist_insert_def Let_def map2_update add_ac
        not_le split: prod.splits)
next
  show "log_good base n (log_insert quot v h)" if "log_good base n h" for h v
    using that by (rule log_good_insert)
next
  show "log_combine h (log_start base n) = h" if "log_good base n h" for h
    using that by (auto simp: log_combine_def log_start_def log_good_def map2_zeros)
qed

text \<open>The steps of the code are these insertions, once the first one has set the histogram up.\<close>

abbreviation as_size :: "64 word \<Rightarrow> 64 word" where
  "as_size w \<equiv> scast (sqlite3_value_int w)"

lemma log_hist_step_good:
  "log_good b n h \<Longrightarrow> b \<noteq> 0 \<Longrightarrow> log_hist_step quot base m v h = Some (log_insert quot v h)"
  by (auto simp: log_hist_step_def log_good_def log_insert_def split: prod.splits)

lemma log_hist_step_zero:
  assumes "2 \<le> as_size base"
  shows "log_hist_step quot base n v log_hist_zero = Some (log_insert quot v (log_start (as_size base) (as_size n)))"
  using assms by (auto simp: log_hist_step_def log_hist_zero_def log_hist_init_def log_insert_def log_start_def
      not_less [symmetric] split: prod.splits)

lemma log_hist_of_eq:
  assumes "2 \<le> as_size base"
  shows "log_hist_of quot base n vs =
    Some (if vs = [] then log_hist_zero else fold (log_insert quot) vs (log_start (as_size base) (as_size n)))"
proof (induction vs rule: rev_induct)
  case (snoc v vs)
  let ?h = "fold (log_insert quot) vs (log_start (as_size base) (as_size n))"
  have good: "log_good (as_size base) (as_size n) ?h"
    by (intro log_hists.good_fold log_hists.good_empty)
  have "as_size base \<noteq> 0" using assms by auto
  then show ?case
    using snoc log_hist_step_good [OF good] log_hist_step_zero [OF assms]
    by (cases "vs = []") (simp_all add: log_hist_of_def)
qed (simp add: log_hist_of_def)

text \<open>What the aggregate \<open>log_hist_combine\<close> makes of a column of texts.\<close>

definition log_hist_combined :: "string option list \<Rightarrow> log_hist outcome" where
  "log_hist_combined ts =
     foldl (\<lambda>h t. case h of Returns h' \<Rightarrow> log_hist_combine_step t h' | e \<Rightarrow> e) (Returns log_hist_zero) ts"

text \<open>What the accumulator is as long as no histogram had a value, and after that.\<close>

definition log_accum :: "64 word \<Rightarrow> 64 word \<Rightarrow> log_hist option \<Rightarrow> log_hist \<Rightarrow> bool" where
  "log_accum b n g h =
     (case g of
        None \<Rightarrow> lh_base h = 0 \<and> lh_count h = 0 \<and> lh_lt h = 0 \<and> lh_ge h = 0 \<and> lh_buckets h \<in> {None, Some []}
      | Some g' \<Rightarrow> h = g' \<and> log_good b n g')"

lemma parse_empty_hist:
  "log_hist_parse ''0;0;0;0;'' = Returns log_hist_zero"
  by (simp add: log_hist_parse_def log_hist_zero_def sscanf.simps(3) isspace_def scan_num_def is_digit_def
      digit_val_def num_value_def clamp_u_def)

lemma log_combine_step_empty:
  assumes "log_accum b n g h"
  shows "\<exists>h'. log_hist_combine_step (Some ''0;0;0;0;'') h = Returns h' \<and> log_accum b n g h'"
  using assms
  by (auto simp: log_hist_combine_step_def parse_empty_hist log_hist_combine_inplace_def log_hist_zero_def
      log_accum_def log_good_def Let_def split: option.splits)

lemma log_combine_step_good:
  assumes "log_accum b n g h" and "log_good b n k" and "2 \<le> b"
  shows "\<exists>h'. log_hist_combine_step (Some (log_text k)) h = Returns h'
    \<and> log_accum b n (Some (log_combine (case g of None \<Rightarrow> log_start b n | Some g' \<Rightarrow> g') k)) h'"
proof -
  have b: "b \<noteq> 0" "\<not> b < 2" using assms(3) by auto
  obtain kb where kb: "lh_buckets k = Some kb" "length kb = unat n" "lh_base k = b" "lh_count k = n"
    using assms(2) by (auto simp: log_good_def)
  show ?thesis
  proof (cases g)
    case None
    have "log_good b n (log_combine (log_start b n) k)"
      by (rule log_good_combine [OF log_hists.good_empty assms(2)])
    then show ?thesis
      using assms(1) b kb None
      by (auto simp: log_hist_combine_step_def log_hist_parse_text [OF assms(2)] log_hist_combine_inplace_def
          log_accum_def log_hist_init_def log_combine_def log_start_def map2_nth Let_def)
  next
    case (Some g')
    then obtain gb where gb: "h = g'" "lh_buckets g' = Some gb" "length gb = unat n" "lh_base g' = b" "lh_count g' = n"
      using assms(1) by (auto simp: log_accum_def log_good_def)
    have "log_good b n (log_combine g' k)"
      using log_good_combine [OF _ assms(2)] assms(1) Some by (simp add: log_accum_def)
    then show ?thesis
      using b kb gb Some
      by (simp add: log_hist_combine_step_def log_hist_parse_text [OF assms(2)] log_hist_combine_inplace_def
          log_accum_def log_combine_def map2_nth Let_def)
  qed
qed

lemma log_hist_combined_snoc:
  "log_hist_combined (ts @ [t]) = (case log_hist_combined ts of Returns h \<Rightarrow> log_hist_combine_step t h | e \<Rightarrow> e)"
  by (simp add: log_hist_combined_def)

text \<open>The text of the histogram of a column of values, as the aggregate \<open>log_hist\<close> returns it.\<close>

definition log_hist_result ::
    "(nat \<Rightarrow> bool) \<Rightarrow> (64 word \<Rightarrow> 64 word \<Rightarrow> nat) \<Rightarrow> 64 word \<Rightarrow> 64 word \<Rightarrow> sqlite_value list \<Rightarrow> string option" where
  "log_hist_result grow quot base n vs = Option.bind (log_hist_of quot base n vs) (log_hist_serialize grow)"

lemma log_combined_accum:
  assumes b: "2 \<le> as_size base"
    and short: "\<And>vs. vs \<in> set groups \<Longrightarrow> length (log_text (the (log_hist_of quot base n vs))) < DEFAULT_HIST_ALLOC"
  shows "\<exists>h. log_hist_combined (map (log_hist_result grow quot base n) groups) = Returns h
    \<and> log_accum (as_size base) (as_size n)
        (if concat groups = [] then None
         else Some (fold (log_insert quot) (concat groups) (log_start (as_size base) (as_size n)))) h"
  using short
proof (induction groups rule: rev_induct)
  case Nil
  then show ?case by (simp add: log_hist_combined_def log_accum_def log_hist_zero_def)
next
  case (snoc vs groups)
  let ?start = "log_start (as_size base) (as_size n)"
  let ?g = "if concat groups = [] then None else Some (fold (log_insert quot) (concat groups) ?start)"
  obtain h where h: "log_hist_combined (map (log_hist_result grow quot base n) groups) = Returns h"
    "log_accum (as_size base) (as_size n) ?g h"
    using snoc by auto
  have res: "log_hist_result grow quot base n vs = Some (log_text (the (log_hist_of quot base n vs)))"
    using log_hist_serialize_fits [OF snoc.prems [of vs]] by (simp add: log_hist_result_def log_hist_of_eq [OF b])
  show ?case
  proof (cases "vs = []")
    case True
    then have "log_hist_result grow quot base n vs = Some ''0;0;0;0;''"
      by (simp add: log_hist_result_def log_hist_of_eq [OF b] log_hist_serialize_def log_hist_zero_def)
    moreover have "concat (groups @ [vs]) = concat groups" using True by simp
    moreover have "log_hist_combined (map (log_hist_result grow quot base n) (groups @ [vs]))
        = log_hist_combine_step (log_hist_result grow quot base n vs) h"
      using h(1) by (simp add: log_hist_combined_snoc)
    ultimately show ?thesis
      using log_combine_step_empty [OF h(2)] by presburger
  next
    case False
    let ?k = "fold (log_insert quot) vs ?start"
    have good: "log_good (as_size base) (as_size n) ?k"
      by (intro log_hists.good_fold log_hists.good_empty)
    have "log_hist_result grow quot base n vs = Some (log_text ?k)"
      using res False by (simp add: log_hist_of_eq [OF b])
    moreover have "log_combine (case ?g of None \<Rightarrow> ?start | Some g' \<Rightarrow> g') ?k
        = fold (log_insert quot) (concat (groups @ [vs])) ?start"
    proof -
      have acc: "(case ?g of None \<Rightarrow> ?start | Some g' \<Rightarrow> g') = fold (log_insert quot) (concat groups) ?start"
      proof (cases "concat groups")
        case Nil
        show ?thesis unfolding Nil by simp
      next
        case (Cons x xs)
        show ?thesis unfolding Cons by simp
      qed
      have "log_good (as_size base) (as_size n) (fold (log_insert quot) (concat groups) ?start)"
        by (intro log_hists.good_fold log_hists.good_empty)
      then show ?thesis
        unfolding acc by (simp add: log_hists.combine_fold [OF _ log_hists.good_empty] log_hists.combine_empty)
    qed
    ultimately show ?thesis
      using log_combine_step_good [OF h(2) good b] h(1) False by (auto simp: log_hist_combined_snoc)
  qed
qed

section \<open>Properties of logarithmic histograms\<close>

text \<open>
  C28: Combining the histograms of parts gives the histogram of the whole: when \<open>log_hist\<close> has made a
  text of each group of values, empty groups included, \<open>log_hist_combine\<close> parses these texts and adds
  them up to the very text that \<open>log_hist\<close> makes of all values at once, as long as the base is at least 2 and no text has more
  than the 511 bytes that are kept; counts wrap around at 64 bits in both.
\<close>
theorem log_hist_combine_all:
  assumes "2 \<le> as_size base"
    and "\<And>vs. vs \<in> set groups \<Longrightarrow> length (log_text (the (log_hist_of quot base n vs))) < DEFAULT_HIST_ALLOC"
  shows "\<exists>h. log_hist_combined (map (log_hist_result grow quot base n) groups) = Returns h
    \<and> log_hist_serialize grow h = log_hist_result grow quot base n (concat groups)"
proof -
  obtain h where "log_hist_combined (map (log_hist_result grow quot base n) groups) = Returns h"
    "log_accum (as_size base) (as_size n) (if concat groups = [] then None
       else Some (fold (log_insert quot) (concat groups) (log_start (as_size base) (as_size n)))) h"
    using log_combined_accum [OF assms] by blast
  then show ?thesis
    by (auto simp: log_hist_result_def log_hist_of_eq [OF assms(1)] log_accum_def log_hist_serialize_def
        log_hist_zero_def split: if_splits)
qed

text \<open>The quotient of logarithms to base 2, for the small values of the samples.\<close>

definition quot_sample :: "64 word \<Rightarrow> 64 word \<Rightarrow> nat" where
  "quot_sample base v = (if v < 2 then 0 else if v < 4 then 1 else if v < 8 then 2 else 3)"

lemma log_hist_combine_all_witness:
  "\<exists>h. log_hist_combined (map (log_hist_result (\<lambda>_. True) quot_sample 2 3)
        [[Integer 5, Text ''ab''], [], [SQL_null, Integer 9, Integer 4]]) = Returns h
    \<and> log_hist_serialize (\<lambda>_. True) h
        = log_hist_result (\<lambda>_. True) quot_sample 2 3 [Integer 5, Text ''ab'', SQL_null, Integer 9, Integer 4]"
proof -
  have "\<exists>h. log_hist_combined (map (log_hist_result (\<lambda>_. True) quot_sample 2 3)
        [[Integer 5, Text ''ab''], [], [SQL_null, Integer 9, Integer 4]]) = Returns h
    \<and> log_hist_serialize (\<lambda>_. True) h
        = log_hist_result (\<lambda>_. True) quot_sample 2 3 (concat [[Integer 5, Text ''ab''], [], [SQL_null, Integer 9, Integer 4]])"
  proof (rule log_hist_combine_all)
    show "2 \<le> as_size 2" by code_simp
    have "list_all (\<lambda>vs. length (log_text (the (log_hist_of quot_sample 2 3 vs))) < DEFAULT_HIST_ALLOC)
        [[Integer 5, Text ''ab''], [], [SQL_null, Integer 9, Integer 4]]" by code_simp
    then show "length (log_text (the (log_hist_of quot_sample 2 3 vs))) < DEFAULT_HIST_ALLOC"
      if "vs \<in> set [[Integer 5, Text ''ab''], [], [SQL_null, Integer 9, Integer 4]]" for vs
      using that by (simp only: list_all_iff)
  qed
  then show ?thesis by simp
qed

text \<open>
  A histogram that needs more room than the first 512 bytes is cut off: the bucket that does not
  fit is not written again after the buffer has grown, so that the text that \<open>log_hist\<close> returns is
  the first 511 bytes of what it should be, and the counts behind them are lost.
\<close>
theorem log_hist_text_cut:
  assumes "log_hist_serialize grow h = Some s"
  shows "s = take 511 (log_text h)"
  using log_hist_serialize_cut [OF assms] by (simp add: DEFAULT_HIST_ALLOC_def)

text \<open>Two hundred buckets with one value each.\<close>

definition log_large :: log_hist where
  "log_large = \<lparr>lh_base = 2, lh_count = 200, lh_lt = 0, lh_buckets = Some (replicate 200 1), lh_ge = 0\<rparr>"

lemma length_items: "(\<And>x. x \<in> set xs \<Longrightarrow> 4 \<le> length (f x)) \<Longrightarrow> 4 * length xs \<le> length (concat (map f xs))"
  by (induction xs) fastforce+

lemma log_large_long: "511 < length (log_text log_large)"
proof -
  have "4 \<le> length (serialize_log_bucket i n)" for i n
    by (cases "fmt_zu (of_nat i)"; cases "fmt_zu n") (simp_all add: serialize_log_bucket_def)
  then have "4 * length [0..<200] \<le> length (concat (map (\<lambda>i. serialize_log_bucket i 1) [0..<200]))"
    by (intro length_items)
  moreover have "log_items log_large = map (\<lambda>i. serialize_log_bucket i 1) [0..<200]"
    by (simp add: log_items_def log_large_def del: upt_conv_Cons)
  moreover have "lh_base log_large \<noteq> 0" by (simp add: log_large_def)
  ultimately show ?thesis by (simp add: log_text_def)
qed

lemma log_hist_text_cut_witness:
  "\<exists>s. log_hist_serialize (\<lambda>_. True) log_large = Some s \<and> s = take 511 (log_text log_large) \<and> s \<noteq> log_text log_large"
proof -
  obtain s where s: "log_hist_serialize (\<lambda>_. True) log_large = Some s"
    using serialize_buckets_grow [of "\<lambda>_. True" "log_items log_large" "start_text (log_header log_large)"]
    by (cases "lh_base log_large = 0") (auto simp: log_hist_serialize_def)
  have "length s < length (log_text log_large)"
    unfolding log_hist_text_cut [OF s] using log_large_long by simp
  then have "s \<noteq> log_text log_large" by auto
  then show ?thesis using log_hist_text_cut [OF s] s by blast
qed

end
