(* ===== verification/HistTime.thy ===== *)
theory HistTime
  imports Hist
begin

text \<open>
  The permission and age histograms of \<open>src/src/histogram.c\<close>.  Their buckets are fixed: 512 modes,
  and the ages of \<open>TIME_BUCKETS\<close>.
\<close>

section \<open>Permission histograms\<close>

definition mode_zero :: "64 word list" where
  "mode_zero = replicate 512 0"

definition mode_hist_step :: "64 word \<Rightarrow> 64 word list \<Rightarrow> 64 word list" where
  "mode_hist_step v hist =
     (let mode = unat (sqlite3_value_int v AND 511) in hist[mode := 1 + hist ! mode])"

definition serialize_mode_bucket :: "nat \<Rightarrow> 64 word \<Rightarrow> string" where
  "serialize_mode_bucket mode n = fmt_03o mode @ '':'' @ fmt_zu n @ '';''"

definition mode_items :: "64 word list \<Rightarrow> string list" where
  "mode_items hist = map (\<lambda>i. serialize_mode_bucket i (hist ! i)) (filter (\<lambda>i. hist ! i \<noteq> 0) [0..<512])"

text \<open>All bytes up to \<open>curr\<close> are returned.\<close>

definition mode_hist_final :: "(nat \<Rightarrow> bool) \<Rightarrow> 64 word list \<Rightarrow> text_buffer option" where
  "mode_hist_final grow hist = serialize_buckets grow (mode_items hist) (start_text [])"

definition mode_hist_store :: "assigned list \<Rightarrow> 64 word list \<Rightarrow> 64 word list outcome" where
  "mode_hist_store vs hist =
     (case vs of
        [Num bucket, Num n] \<Rightarrow>
          if unat bucket < length hist then Returns (hist[unat bucket := n]) else Undefined
      | _ \<Rightarrow> Undefined)"

definition mode_hist_parse :: "string \<Rightarrow> 64 word list outcome" where
  "mode_hist_parse str =
     bucket_loop [Oct 3, Lit CHR '':'', Zu, Lit CHR '';'', Nread] True mode_hist_store str 0 mode_zero"

definition mode_hist_combine_inplace :: "64 word list \<Rightarrow> 64 word list \<Rightarrow> 64 word list" where
  "mode_hist_combine_inplace lhs rhs = map (\<lambda>i. lhs ! i + rhs ! i) [0..<512]"

definition mode_hist_combine_step :: "string option \<Rightarrow> 64 word list \<Rightarrow> 64 word list outcome" where
  "mode_hist_combine_step new_hist_str hist =
     (case new_hist_str of
        None \<Rightarrow> Null
      | Some s \<Rightarrow>
          (case mode_hist_parse s of
             Returns new_hist \<Rightarrow> Returns (mode_hist_combine_inplace hist new_hist)
           | Null \<Rightarrow> Null
           | Undefined \<Rightarrow> Undefined))"

lemma mode_masked: "unat (w AND 511 :: 32 word) < 512"
proof -
  have "w AND 511 \<le> 511" by (rule word_and_le1)
  then show ?thesis by (simp add: word_le_nat_alt)
qed

interpretation mode_hists: histogram "\<lambda>h. length h = 512" mode_zero mode_hist_step mode_hist_combine_inplace
proof unfold_locales
  fix h g :: "64 word list" and v
  assume "length h = 512" "length g = 512"
  then show "mode_hist_combine_inplace h (mode_hist_step v g) = mode_hist_step v (mode_hist_combine_inplace h g)"
    using mode_masked [of "sqlite3_value_int v"]
    by (simp add: mode_hist_combine_inplace_def mode_hist_step_def map2_nth map2_update Let_def)
next
  fix h :: "64 word list"
  assume "length h = 512"
  then show "mode_hist_combine_inplace h mode_zero = h"
    by (simp add: mode_hist_combine_inplace_def mode_zero_def map2_nth map2_zeros)
qed (simp_all add: mode_hist_step_def mode_zero_def Let_def)

lemma octal_digits: "c \<in> set (fmt_03o n) \<Longrightarrow> is_digit 8 c"
proof -
  have "is_digit 8 (CHR ''0'')" by (simp add: is_digit_def digit_val_def)
  then show "c \<in> set (fmt_03o n) \<Longrightarrow> is_digit 8 c"
    using digits_all [of 8 c n] by (auto simp: fmt_03o_def Let_def)
qed

lemma length_fmt_03o: "n < 512 \<Longrightarrow> length (fmt_03o n) = 3"
  using length_digits [of 8 3 n] by (simp add: fmt_03o_def Let_def)

lemma mode_bucket_scans:
  assumes "i < 512"
  shows "sscanf [Oct 3, Lit CHR '':'', Zu, Lit CHR '';'', Nread] (serialize_mode_bucket i n @ r) 0
     = ([Num (of_nat i), Num n], Some (length (serialize_mode_bucket i n)))"
proof -
  let ?s = "fmt_03o i"
  have ws: "takeWhile isspace (?s @ t) = []" for t
    by (rule no_space) (use length_fmt_03o [OF assms] octal_digits in auto)
  have "scan_num 8 (?s @ []) = Some (int (num_value 8 ?s), length ?s)"
    by (rule scan_num_digits) (use length_fmt_03o [OF assms] octal_digits in auto)
  moreover have "num_value 8 ?s = i"
    by (simp add: fmt_03o_def Let_def num_value_zeros num_value_digits)
  ultimately show ?thesis
    using ws length_fmt_03o [OF assms] assms
    by (simp add: serialize_mode_bucket_def sscanf.simps(4) sscanf_zu)
qed

lemma mode_hist_parse_text:
  assumes "length h = 512"
  shows "mode_hist_parse (concat (mode_items h)) = Returns h"
proof -
  let ?is = "filter (\<lambda>i. h ! i \<noteq> 0) [0..<512]"
  have "bucket_loop [Oct 3, Lit CHR '':'', Zu, Lit CHR '';'', Nread] True mode_hist_store
      (concat (map (\<lambda>i. serialize_mode_bucket i (h ! i)) ?is)) 0 mode_zero
      = Returns (foldl (\<lambda>g i. g[i := h ! i]) mode_zero ?is)"
  proof (rule bucket_loop_reads [where I = "\<lambda>h. length h = 512" and vals = "\<lambda>i. [Num (of_nat i), Num (h ! i)]"])
    show "sscanf [Oct 3, Lit CHR '':'', Zu, Lit CHR '';'', Nread] (serialize_mode_bucket i (h ! i) @ r) 0
        = ([Num (of_nat i), Num (h ! i)], Some (length (serialize_mode_bucket i (h ! i))))"
      if "i \<in> set ?is" for i r
      using that by (intro mode_bucket_scans) simp
  next
    show "mode_hist_store [Num (of_nat i), Num (h ! i)] g = Returns (g[i := h ! i]) \<and> length (g[i := h ! i]) = 512"
      if "i \<in> set ?is" "length g = 512" for i g
      using that by (simp add: mode_hist_store_def unat_of_nat)
  qed (auto simp: serialize_mode_bucket_def mode_zero_def)
  then show ?thesis
    using restore_zeros [OF assms] by (simp add: mode_hist_parse_def mode_items_def mode_zero_def)
qed

section \<open>Age histograms\<close>

definition TIME_BUCKETS :: "(string \<times> 64 word) list" where
  "TIME_BUCKETS =
     [(''future'', 0), (''second'', 1), (''minute'', 60), (''hour'', 3600), (''day'', 86400),
      (''week'', 604800), (''four_weeks'', 2419200), (''year'', 31536000), (''two_years'', 63072000),
      (''five_years'', 157680000), (''ten_years'', 315360000), (''twenty_years'', 630720000),
      (''more_years'', 630720001)]"

abbreviation TIME_BUCKETS_COUNT :: nat where
  "TIME_BUCKETS_COUNT \<equiv> length TIME_BUCKETS"

abbreviation seconds :: "nat \<Rightarrow> 64 word" where
  "seconds i \<equiv> snd (TIME_BUCKETS ! i)"

record time_hist =
  th_buckets :: "64 word list"
  th_ref :: "64 word"
  th_init :: bool

definition time_zero :: time_hist where
  "time_zero = \<lparr>th_buckets = replicate TIME_BUCKETS_COUNT 0, th_ref = 0, th_init = False\<rparr>"

text \<open>The first bucket before the last that is larger than the age, or the last.\<close>

fun find_bucket :: "64 word \<Rightarrow> nat list \<Rightarrow> nat" where
  "find_bucket dt [] = TIME_BUCKETS_COUNT - 1"
| "find_bucket dt (i # is) = (if dt <s seconds i then i else find_bucket dt is)"

definition time_hist_step :: "64 word \<Rightarrow> 64 word \<Rightarrow> time_hist \<Rightarrow> time_hist" where
  "time_hist_step timestamp ref hist =
     (let h = (if th_init hist then hist else hist\<lparr>th_ref := ref, th_init := True\<rparr>);
          i = find_bucket (th_ref h - timestamp) [0..<TIME_BUCKETS_COUNT - 1]
      in h\<lparr>th_buckets := (th_buckets h)[i := 1 + th_buckets h ! i]\<rparr>)"

definition serialize_time_bucket :: "nat \<Rightarrow> 64 word \<Rightarrow> string" where
  "serialize_time_bucket bucket n = fmt_zu (seconds bucket) @ '':'' @ fmt_zu n @ '';''"

definition time_items :: "time_hist \<Rightarrow> string list" where
  "time_items hist = map (\<lambda>i. serialize_time_bucket i (th_buckets hist ! i))
     (filter (\<lambda>i. th_buckets hist ! i \<noteq> 0) [0..<TIME_BUCKETS_COUNT])"

definition time_hist_final :: "(nat \<Rightarrow> bool) \<Rightarrow> time_hist \<Rightarrow> char option list option" where
  "time_hist_final grow hist =
     (if \<not> th_init hist then Some (map Some ''0;'')
      else map_option tb_bytes
             (serialize_buckets grow (time_items hist) (start_text (fmt_zu (th_ref hist) @ '';''))))"

definition time_hist_store :: "assigned list \<Rightarrow> time_hist \<Rightarrow> time_hist outcome" where
  "time_hist_store vs hist =
     (case vs of
        [Num bucket, Num n] \<Rightarrow>
          (case filter (\<lambda>i. bucket = seconds i) [0..<TIME_BUCKETS_COUNT - 1] of
             i # _ \<Rightarrow> Returns (hist\<lparr>th_buckets := (th_buckets hist)[i := n]\<rparr>)
           | [] \<Rightarrow>
               if bucket \<noteq> seconds (TIME_BUCKETS_COUNT - 1) then Null
               else Returns (hist\<lparr>th_buckets := (th_buckets hist)[TIME_BUCKETS_COUNT - 1 := n]\<rparr>))
      | _ \<Rightarrow> Undefined)"

definition time_hist_parse :: "string \<Rightarrow> time_hist outcome" where
  "time_hist_parse str =
     (case sscanf [Zu, Lit CHR '';'', Nread] str 0 of
        ([Num ref], Some r) \<Rightarrow>
          if r = 0 \<or> str ! (r - 1) \<noteq> CHR '';'' then Null
          else bucket_loop [Zu, Lit CHR '':'', Zu, Lit CHR '';'', Nread] False time_hist_store (drop r str) r
                 (time_zero\<lparr>th_ref := ref\<rparr>)
      | _ \<Rightarrow> Null)"

definition time_hist_combine_inplace :: "time_hist \<Rightarrow> time_hist \<Rightarrow> time_hist option" where
  "time_hist_combine_inplace lhs rhs =
     (let add = (\<lambda>l. l\<lparr>th_buckets := map (\<lambda>i. th_buckets l ! i + th_buckets rhs ! i) [0..<TIME_BUCKETS_COUNT]\<rparr>)
      in if th_ref lhs = 0 then Some (add (lhs\<lparr>th_ref := th_ref rhs\<rparr>))
         else if th_ref rhs = 0 then Some (add lhs)
         else if th_ref lhs \<noteq> th_ref rhs then None
         else Some (add lhs))"

definition time_hist_combine_step :: "string option \<Rightarrow> time_hist \<Rightarrow> time_hist outcome" where
  "time_hist_combine_step new_hist_str hist =
     (case new_hist_str of
        None \<Rightarrow> Null
      | Some s \<Rightarrow>
          (case time_hist_parse s of
             Undefined \<Rightarrow> Undefined
           | Null \<Rightarrow> Null
           | Returns new_hist \<Rightarrow>
               let h = (if th_init hist then hist else hist\<lparr>th_ref := th_ref new_hist, th_init := True\<rparr>)
               in (case time_hist_combine_inplace h new_hist of None \<Rightarrow> Null | Some h' \<Rightarrow> Returns h')))"

text \<open>The bucket of an age is the one that its header promises: from the bucket before, below its own.\<close>

lemma seconds_values:
  "seconds 0 = 0" "seconds 1 = 1" "seconds 2 = 60" "seconds 3 = 3600" "seconds 4 = 86400" "seconds 5 = 604800"
  "seconds 6 = 2419200" "seconds 7 = 31536000" "seconds 8 = 63072000" "seconds 9 = 157680000"
  "seconds 10 = 315360000" "seconds 11 = 630720000" "seconds 12 = 630720001"
  by (simp_all add: TIME_BUCKETS_def)

lemma buckets_count: "TIME_BUCKETS_COUNT = 13"
  by (simp add: TIME_BUCKETS_def)

lemma find_bucket_spec:
  "find_bucket dt [m..<n] = i \<Longrightarrow> n = TIME_BUCKETS_COUNT - 1 \<Longrightarrow> m \<le> n \<Longrightarrow>
    m \<le> i \<and> i \<le> n \<and> (i < n \<longrightarrow> dt <s seconds i) \<and> (\<forall>j. m \<le> j \<and> j < i \<longrightarrow> \<not> dt <s seconds j)"
proof (induction "n - m" arbitrary: m)
  case 0
  then have "m = n" by simp
  then show ?case using 0 by auto
next
  case (Suc k)
  then have m: "[m..<n] = m # [Suc m..<n]" by (simp add: upt_conv_Cons)
  show ?case
  proof (cases "dt <s seconds m")
    case True
    then show ?thesis using Suc.prems Suc.hyps(2) m by auto
  next
    case False
    then have "find_bucket dt [Suc m..<n] = i" using Suc.prems m by simp
    then have "Suc m \<le> i \<and> i \<le> n \<and> (i < n \<longrightarrow> dt <s seconds i) \<and> (\<forall>j. Suc m \<le> j \<and> j < i \<longrightarrow> \<not> dt <s seconds j)"
      by (intro Suc.hyps(1)) (use Suc.hyps(2) Suc.prems(2) in auto)
    then show ?thesis using False Suc_leD le_eq_less_or_eq by (metis Suc_leI)
  qed
qed

text \<open>The last bucket aside.\<close>

lemma time_bucket_interval:
  assumes "find_bucket dt [0..<TIME_BUCKETS_COUNT - 1] = i" and "0 < i"
  shows "sint (seconds (i - 1)) \<le> sint dt \<and> (i < TIME_BUCKETS_COUNT - 1 \<longrightarrow> sint dt < sint (seconds i))"
proof -
  have "\<not> dt <s seconds (i - 1)" "i < TIME_BUCKETS_COUNT - 1 \<longrightarrow> dt <s seconds i"
    using find_bucket_spec [OF assms(1)] assms(2) by simp_all
  then show ?thesis by (simp add: word_sless_alt not_less)
qed

lemma find_bucket_valid: "find_bucket dt [0..<TIME_BUCKETS_COUNT - 1] < TIME_BUCKETS_COUNT"
  using find_bucket_spec [of dt 0 _ "find_bucket dt [0..<TIME_BUCKETS_COUNT - 1]"] by (simp add: buckets_count)

text \<open>Reading a text back, and combining.\<close>

definition time_good :: "64 word \<Rightarrow> time_hist \<Rightarrow> bool" where
  "time_good ref h \<longleftrightarrow> th_init h \<and> th_ref h = ref \<and> length (th_buckets h) = TIME_BUCKETS_COUNT"

definition time_start :: "64 word \<Rightarrow> time_hist" where
  "time_start ref = time_zero\<lparr>th_ref := ref, th_init := True\<rparr>"

definition time_combine :: "time_hist \<Rightarrow> time_hist \<Rightarrow> time_hist" where
  "time_combine l r = l\<lparr>th_buckets := map2 (+) (th_buckets l) (th_buckets r)\<rparr>"

definition time_text :: "time_hist \<Rightarrow> string" where
  "time_text h = fmt_zu (th_ref h) @ '';'' @ concat (time_items h)"

interpretation time_hists: histogram "time_good ref" "time_start ref" "\<lambda>v. time_hist_step v r" time_combine
  for ref r
proof unfold_locales
  fix h g v
  assume "time_good ref h" "time_good ref g"
  then show "time_combine h (time_hist_step v r g) = time_hist_step v r (time_combine h g)"
    using find_bucket_valid [of "ref - v"]
    by (simp add: time_combine_def time_hist_step_def time_good_def map2_update Let_def)
next
  show "time_good ref (time_start ref)" by (simp add: time_good_def time_start_def time_zero_def)
next
  show "time_good ref (time_hist_step v r h)" if "time_good ref h" for h v
    using that by (simp add: time_good_def time_hist_step_def Let_def)
next
  show "time_combine h (time_start ref) = h" if "time_good ref h" for h
    using that by (simp add: time_good_def time_combine_def time_start_def time_zero_def map2_zeros)
qed

lemma time_bucket_scans:
  "sscanf [Zu, Lit CHR '':'', Zu, Lit CHR '';'', Nread] (serialize_time_bucket i n @ r) 0
     = ([Num (seconds i), Num n], Some (length (serialize_time_bucket i n)))"
  by (simp add: serialize_time_bucket_def sscanf_zu)

lemma filter_upt_eq: "i < n \<Longrightarrow> filter (\<lambda>j. j = i) [0..<n] = [i]"
  by (induction n) (auto simp: less_Suc_eq filter_empty_conv)

lemma time_hist_store_bucket:
  assumes "i < TIME_BUCKETS_COUNT"
  shows "time_hist_store [Num (seconds i), Num n] h = Returns (h\<lparr>th_buckets := (th_buckets h)[i := n]\<rparr>)"
proof -
  have d: "distinct (map snd TIME_BUCKETS)" by (simp add: TIME_BUCKETS_def)
  have eq: "seconds i = seconds j \<longleftrightarrow> i = j" if "j < TIME_BUCKETS_COUNT" for j
    using nth_eq_iff_index_eq [OF d, of i j] assms that by simp
  show ?thesis
  proof (cases "i < TIME_BUCKETS_COUNT - 1")
    case True
    have "filter (\<lambda>j. seconds i = seconds j) [0..<TIME_BUCKETS_COUNT - 1] = filter (\<lambda>j. j = i) [0..<TIME_BUCKETS_COUNT - 1]"
      by (rule filter_cong) (auto simp: eq)
    also have "\<dots> = [i]"
      by (rule filter_upt_eq [OF True])
    finally show ?thesis by (simp add: time_hist_store_def)
  next
    case False
    then have "i = TIME_BUCKETS_COUNT - 1" using assms by simp
    moreover have "filter (\<lambda>j. seconds i = seconds j) [0..<TIME_BUCKETS_COUNT - 1] = []"
      using False by (auto simp: filter_empty_conv eq)
    ultimately show ?thesis by (simp add: time_hist_store_def)
  qed
qed

lemma foldl_store_times:
  "foldl (\<lambda>h i. h\<lparr>th_buckets := (th_buckets h)[i := f i]\<rparr>) h is
     = h\<lparr>th_buckets := foldl (\<lambda>c i. c[i := f i]) (th_buckets h) is\<rparr>"
  by (induction "is" arbitrary: h) simp_all

lemma time_hist_parse_text:
  assumes "time_good ref h"
  shows "time_hist_parse (time_text h) = Returns (h\<lparr>th_init := False\<rparr>)"
proof -
  let ?b = "th_buckets h"
  let ?is = "filter (\<lambda>i. ?b ! i \<noteq> 0) [0..<TIME_BUCKETS_COUNT]"
  have len: "length ?b = TIME_BUCKETS_COUNT" using assms by (simp add: time_good_def)
  have "bucket_loop [Zu, Lit CHR '':'', Zu, Lit CHR '';'', Nread] False time_hist_store
      (concat (map (\<lambda>i. serialize_time_bucket i (?b ! i)) ?is)) r (time_zero\<lparr>th_ref := th_ref h\<rparr>)
      = Returns (foldl (\<lambda>g i. g\<lparr>th_buckets := (th_buckets g)[i := ?b ! i]\<rparr>) (time_zero\<lparr>th_ref := th_ref h\<rparr>) ?is)" for r
  proof (rule bucket_loop_reads [where I = "\<lambda>_. True" and vals = "\<lambda>i. [Num (seconds i), Num (?b ! i)]"])
    show "sscanf [Zu, Lit CHR '':'', Zu, Lit CHR '';'', Nread] (serialize_time_bucket i (?b ! i) @ r) 0
        = ([Num (seconds i), Num (?b ! i)], Some (length (serialize_time_bucket i (?b ! i))))" for i r
      by (rule time_bucket_scans)
  qed (auto simp: time_hist_store_bucket serialize_time_bucket_def)
  moreover have "foldl (\<lambda>g i. g\<lparr>th_buckets := (th_buckets g)[i := ?b ! i]\<rparr>) (time_zero\<lparr>th_ref := th_ref h\<rparr>) ?is
      = h\<lparr>th_init := False\<rparr>"
    using restore_zeros [OF len] by (simp add: foldl_store_times time_zero_def)
  moreover have "sscanf [Zu, Lit CHR '';'', Nread] (time_text h) 0
      = ([Num (th_ref h)], Some (Suc (length (fmt_zu (th_ref h)))))"
    by (simp add: time_text_def sscanf_zu)
  ultimately show ?thesis
    by (simp add: time_hist_parse_def time_text_def time_items_def nth_append)
qed

text \<open>Histograms of the same reference time are added.\<close>

lemma time_combine_step_good:
  assumes "time_good ref k" and "h = time_zero \<or> time_good ref h"
  shows "time_hist_combine_step (Some (time_text k)) h
    = Returns (time_combine (if h = time_zero then time_start ref else h) k)"
proof -
  have k: "th_ref k = ref" "length (th_buckets k) = TIME_BUCKETS_COUNT" using assms(1) by (simp_all add: time_good_def)
  have z: "\<not> th_init time_zero" "th_ref (time_start ref) = ref" "th_init (time_start ref)"
    "length (th_buckets (time_start ref)) = TIME_BUCKETS_COUNT"
    by (simp_all add: time_zero_def time_start_def)
  have "time_hist_combine_inplace g (k\<lparr>th_init := False\<rparr>) = Some (time_combine g k)" if "time_good ref g" for g
    using that k by (simp add: time_hist_combine_inplace_def time_combine_def time_good_def map2_nth Let_def)
  moreover have "time_good ref (time_start ref)" by (rule time_hists.good_empty)
  ultimately show ?thesis
    using assms(2) z k
    by (auto simp: time_hist_combine_step_def time_hist_parse_text [OF assms(1)] time_good_def Let_def time_start_def)
qed

end
