(* ===== verification/HistCategory.thy ===== *)
theory HistCategory
  imports HistText Trie Utils "HOL-Library.Multiset"
begin

text \<open>
  The category and extension histograms and the statistical mode of \<open>src/src/histogram.c\<close>.  An
  aggregate has a trie that leads from a category to the cell that holds its count, and the list of
  the categories in the order they came.  The cells are a list, a pointer to one is its index.
  The linked list is the list of its data.
\<close>

section \<open>Counting\<close>

record cat_hist =
  ch_trie :: "(nat, unit) trie option"
  ch_counts :: "64 word list"
  ch_categories :: "string list"
  ch_keep_1 :: bool
  ch_sort :: bool

definition cat_zero :: cat_hist where
  "cat_zero = \<lparr>ch_trie = None, ch_counts = [], ch_categories = [], ch_keep_1 = False, ch_sort = False\<rparr>"

text \<open>The arguments behind the category, as far as the SQL function has them.\<close>

definition category_hist_init :: "int list \<Rightarrow> cat_hist \<Rightarrow> cat_hist" where
  "category_hist_init args hist =
     (if ch_trie hist = None then
        hist\<lparr>ch_trie := Some trie_alloc, ch_categories := [],
             ch_keep_1 := (if 0 < length args then args ! 0 \<noteq> 0 else ch_keep_1 hist),
             ch_sort := (if 1 < length args then args ! 1 \<noteq> 0 else ch_sort hist)\<rparr>
      else hist)"

text \<open>
  One more of a category, or \<open>n\<close> more: through the pointer in the trie when it is there (and
  \<open>check_exists\<close> is set), with a new cell otherwise.
\<close>

definition category_add :: "bool \<Rightarrow> string \<Rightarrow> 64 word \<Rightarrow> cat_hist \<Rightarrow> cat_hist outcome" where
  "category_add check_exists cat n hist =
     (case (if check_exists then trie_search (ch_trie hist) (Some cat) else None) of
        Some (Some cell) \<Rightarrow>
          if cell < length (ch_counts hist)
          then Returns (hist\<lparr>ch_counts := (ch_counts hist)[cell := n + ch_counts hist ! cell]\<rparr>)
          else Undefined
      | Some None \<Rightarrow> Undefined
      | None \<Rightarrow>
          Returns (hist\<lparr>ch_counts := ch_counts hist @ [n],
                        ch_trie := fst (trie_insert (ch_trie hist) (Some cat) (Some (length (ch_counts hist))) (Some ())),
                        ch_categories := ch_categories hist @ [cat]\<rparr>))"

definition category_hist_insert :: "cat_hist \<Rightarrow> string \<Rightarrow> cat_hist outcome" where
  "category_hist_insert hist cat = category_add True cat 1 hist"

definition category_hist_step :: "int list \<Rightarrow> string option \<Rightarrow> cat_hist \<Rightarrow> cat_hist outcome" where
  "category_hist_step args cat hist =
     (let h = category_hist_init args hist
      in case cat of None \<Rightarrow> Returns h | Some s \<Rightarrow> category_hist_insert h (cstr s))"

definition extension_hist_step :: "int list \<Rightarrow> string option \<Rightarrow> cat_hist \<Rightarrow> cat_hist outcome" where
  "extension_hist_step args ext hist =
     (let h = category_hist_init args hist
      in case ext of
           None \<Rightarrow> Returns h
         | Some e \<Rightarrow>
             let s = cstr e; idx = trailing_match_index (Some s) (length s) ''.''
             in if idx = 0 \<or> idx = length s then category_hist_insert h ''no-ext''
                else category_hist_insert h (drop idx s))"

text \<open>The count that the pointer found for a category leads to.\<close>

definition category_count :: "cat_hist \<Rightarrow> string \<Rightarrow> 64 word option" where
  "category_count hist cat =
     (case trie_search (ch_trie hist) (Some cat) of
        Some (Some cell) \<Rightarrow> if cell < length (ch_counts hist) then Some (ch_counts hist ! cell) else None
      | _ \<Rightarrow> None)"

section \<open>Writing\<close>

text \<open>\<open>qsort\<close>: the arrays that are sorted here have no equal elements.\<close>

fun insert_by :: "('a \<Rightarrow> 'a \<Rightarrow> int) \<Rightarrow> 'a \<Rightarrow> 'a list \<Rightarrow> 'a list" where
  "insert_by cmp x [] = [x]"
| "insert_by cmp x (y # ys) = (if cmp x y \<le> 0 then x # y # ys else y # insert_by cmp x ys)"

definition qsort :: "('a \<Rightarrow> 'a \<Rightarrow> int) \<Rightarrow> 'a list \<Rightarrow> 'a list" where
  "qsort cmp xs = foldr (insert_by cmp) xs []"

definition category_compare :: "string \<Rightarrow> string \<Rightarrow> int" where
  "category_compare l r =
     (case str_cmp \<lparr>str_data = Some l, str_len = length l, str_owned = True\<rparr>
                   \<lparr>str_data = Some r, str_len = length r, str_owned = True\<rparr> of
        None \<Rightarrow> 0 | Some c \<Rightarrow> c)"

definition serialize_category_bucket :: "string \<times> 64 word \<Rightarrow> string" where
  "serialize_category_bucket c = fmt_zu (of_nat (length (fst c))) @ '':'' @ fst c @ '':'' @ fmt_zu (snd c) @ '';''"

text \<open>The categories to be printed with their counts, \<open>None\<close> when a pointer leads nowhere.\<close>

fun counted :: "cat_hist \<Rightarrow> string list \<Rightarrow> (string \<times> 64 word) list option" where
  "counted hist [] = Some []"
| "counted hist (c # cs) =
     (case (category_count hist c, counted hist cs) of
        (Some n, Some r) \<Rightarrow> Some ((c, n) # r)
      | _ \<Rightarrow> None)"

definition category_hist_keep :: "cat_hist \<Rightarrow> (string \<times> 64 word) list option" where
  "category_hist_keep hist =
     map_option (filter (\<lambda>(c, n). ch_keep_1 hist \<or> 1 < n))
       (counted hist (if ch_sort hist then qsort category_compare (ch_categories hist) else ch_categories hist))"

definition category_hist_final :: "(nat \<Rightarrow> bool) \<Rightarrow> cat_hist \<Rightarrow> text_buffer option" where
  "category_hist_final grow hist =
     (let h = (if ch_trie hist = None
               then hist\<lparr>ch_trie := Some trie_alloc, ch_categories := [], ch_keep_1 := False, ch_sort := False\<rparr>
               else hist)
      in case category_hist_keep h of
           None \<Rightarrow> None
         | Some keep \<Rightarrow>
             serialize_buckets grow (map serialize_category_bucket keep)
               (start_text (fmt_zu (of_nat (length keep)) @ '';'')))"

section \<open>Parsing and combining\<close>

record category_bucket =
  cb_name :: string
  cb_len :: "64 word"
  cb_count :: "64 word"

definition category_bucket_cmp :: "category_bucket \<Rightarrow> category_bucket \<Rightarrow> int" where
  "category_bucket_cmp l r =
     (if cb_count r < cb_count l then -1
      else if cb_count l < cb_count r then 1
      else strncmp (cb_name l) (cb_name r) (unat (if cb_len r < cb_len l then cb_len l else cb_len r)))"

text \<open>
  One bucket of the text at \<open>s\<close>, which follows a semicolon: the bucket and the rest.  A name that is
  longer than its length says is written behind the memory allocated for it; \<open>read\<close> keeps its value
  when the second \<open>%n\<close> is not reached.
\<close>

definition parse_category :: "string \<Rightarrow> (category_bucket \<times> string) outcome" where
  "parse_category s =
     (case sscanf [Zu, Lit CHR '':'', Nread] s 0 of
        ([Num len], Some r) \<Rightarrow>
          let s' = drop r s; t = takeWhile (\<lambda>c. c \<noteq> CHR '':'') s'
          in if t \<noteq> [] \<and> unat (len + 1) \<le> length t then Undefined
             else
               (case sscanf [NotColon, Lit CHR '':'', Zu, Lit CHR '';'', Nread] s' 0 of
                  ([Str name, Num n], r2) \<Rightarrow>
                    let r' = (case r2 of None \<Rightarrow> r | Some k \<Rightarrow> k)
                    in if length s' < r' - 1 then Undefined
                       else if length s' = r' - 1 \<or> s' ! (r' - 1) \<noteq> CHR '';'' then Null
                       else Returns (\<lparr>cb_name = name, cb_len = len, cb_count = n\<rparr>, drop r' s')
                | _ \<Rightarrow> Null)
      | _ \<Rightarrow> Null)"

fun parse_categories :: "nat \<Rightarrow> string \<Rightarrow> category_bucket list outcome" where
  "parse_categories 0 s = Returns []"
| "parse_categories (Suc k) s =
     (case parse_category s of
        Returns (b, s') \<Rightarrow> (case parse_categories k s' of Returns bs \<Rightarrow> Returns (b # bs) | e \<Rightarrow> e)
      | Null \<Rightarrow> Null
      | Undefined \<Rightarrow> Undefined)"

definition category_hist_parse :: "string \<Rightarrow> category_bucket list outcome" where
  "category_hist_parse str =
     (case sscanf [Zu, Lit CHR '';'', Nread] str 0 of
        ([Num n], Some r) \<Rightarrow>
          if r = 0 \<or> str ! (r - 1) \<noteq> CHR '';'' then Null
          else (case parse_categories (unat n) (drop r str) of
                  Returns bs \<Rightarrow> Returns (qsort category_bucket_cmp bs)
                | e \<Rightarrow> e)
      | _ \<Rightarrow> Null)"

text \<open>A bucket whose length is not that of its name would be looked up with bytes behind the name.\<close>

fun category_hist_combine_inplace :: "bool \<Rightarrow> category_bucket list \<Rightarrow> cat_hist \<Rightarrow> cat_hist outcome" where
  "category_hist_combine_inplace check_exists [] accumulator = Returns accumulator"
| "category_hist_combine_inplace check_exists (b # bs) accumulator =
     (if unat (cb_len b) \<noteq> length (cb_name b) then Undefined
      else
        (case category_add check_exists (cb_name b) (cb_count b) accumulator of
           Returns a \<Rightarrow> category_hist_combine_inplace check_exists bs a
         | e \<Rightarrow> e))"

definition category_hist_combine :: "category_bucket list \<Rightarrow> category_bucket list \<Rightarrow> category_bucket list outcome" where
  "category_hist_combine lhs rhs =
     (case category_hist_combine_inplace False lhs (cat_zero\<lparr>ch_trie := Some trie_alloc\<rparr>) of
        Returns a \<Rightarrow>
          (case category_hist_combine_inplace True rhs a of
             Returns b \<Rightarrow>
               (case counted b (ch_categories b) of
                  Some cs \<Rightarrow> Returns (map (\<lambda>(c, n). \<lparr>cb_name = c, cb_len = of_nat (length c), cb_count = n\<rparr>) cs)
                | None \<Rightarrow> Undefined)
           | e \<Rightarrow> (case e of Null \<Rightarrow> Null | _ \<Rightarrow> Undefined))
      | e \<Rightarrow> (case e of Null \<Rightarrow> Null | _ \<Rightarrow> Undefined))"

definition category_hist_combine_step :: "int \<Rightarrow> string option \<Rightarrow> cat_hist \<Rightarrow> cat_hist outcome" where
  "category_hist_combine_step sort_arg new_hist_str hist =
     (let h = (if ch_trie hist = None
               then hist\<lparr>ch_trie := Some trie_alloc, ch_categories := [], ch_keep_1 := True, ch_sort := sort_arg \<noteq> 0\<rparr>
               else hist)
      in case new_hist_str of
           None \<Rightarrow> Null
         | Some s \<Rightarrow>
             (case category_hist_parse (cstr s) of
                Returns bs \<Rightarrow> category_hist_combine_inplace True bs h
              | Null \<Rightarrow> Null
              | Undefined \<Rightarrow> Undefined))"

section \<open>The mode\<close>

text \<open>
  \<open>category_t\<close>: a \<open>str_t\<close> and a count.  \<open>category_bucket_cmp\<close> is given pointers to these, and reads the
  pointer, the length and the third word of the \<open>str_t\<close>, the function that frees it.
\<close>

record category =
  ca_data :: string
  ca_len :: "64 word"
  ca_free :: "64 word"
  ca_count :: "64 word"

definition as_bucket :: "category \<Rightarrow> category_bucket" where
  "as_bucket c = \<lparr>cb_name = ca_data c, cb_len = ca_len c, cb_count = ca_free c\<rparr>"

text \<open>\<open>None\<close> is the SQL value NULL; \<open>free_fn\<close> is the address of \<open>free\<close>, which \<open>str_alloc\<close> stores.\<close>

definition mode_count_final :: "(nat \<Rightarrow> bool) \<Rightarrow> 64 word \<Rightarrow> cat_hist \<Rightarrow> text_buffer option" where
  "mode_count_final grow free_fn hist =
     (if ch_trie hist = None then None
      else
        case counted hist (ch_categories hist) of
          None \<Rightarrow> None
        | Some cs \<Rightarrow>
            let categories = map (\<lambda>(c, n). \<lparr>ca_data = c, ca_len = of_nat (length c), ca_free = free_fn, ca_count = n\<rparr>) cs;
                sorted = qsort (\<lambda>l r. category_bucket_cmp (as_bucket l) (as_bucket r)) categories
            in (case sorted of
                  [] \<Rightarrow> None
                | mode # next \<Rightarrow>
                    if next \<noteq> [] \<and> ca_count mode = ca_count (next ! 0) then None
                    else serialize_bucket grow (serialize_category_bucket (ca_data mode, ca_count mode)) (start_text [])))"

definition mode_count_parse :: "string option \<Rightarrow> category_bucket outcome" where
  "mode_count_parse str =
     (case str of
        None \<Rightarrow> Null
      | Some s \<Rightarrow>
          if s = [] then Null
          else (case parse_category s of Returns (b, rest) \<Rightarrow> Returns b | Null \<Rightarrow> Null | Undefined \<Rightarrow> Undefined))"

section \<open>What the counts are\<close>

text \<open>
  The trie leads from each category to a cell of its own; the list has each category once.
\<close>

definition cat_ok :: "cat_hist \<Rightarrow> bool" where
  "cat_ok h \<longleftrightarrow> (\<exists>t. ch_trie h = Some t
     \<and> (\<forall>s. trie_search_node t s \<noteq> Some None)
     \<and> (\<forall>s a. trie_search_node t s = Some (Some a) \<longrightarrow> a < length (ch_counts h))
     \<and> (\<forall>s s' a. trie_search_node t s = Some (Some a) \<longrightarrow> trie_search_node t s' = Some (Some a) \<longrightarrow> s = s')
     \<and> (\<forall>s. s \<in> set (ch_categories h) \<longleftrightarrow> trie_search_node t s \<noteq> None)
     \<and> distinct (ch_categories h))"

lemma cat_ok_start: "cat_ok (category_hist_init args cat_zero)"
  by (simp add: cat_ok_def category_hist_init_def cat_zero_def)

lemma category_count_start: "category_count (category_hist_init args cat_zero) s = None"
  by (simp add: category_count_def category_hist_init_def cat_zero_def trie_search_def)

lemma category_count_dom: "cat_ok h \<Longrightarrow> category_count h s \<noteq> None \<longleftrightarrow> s \<in> set (ch_categories h)"
  by (fastforce simp: cat_ok_def category_count_def trie_search_def split: option.splits)

definition plus_count :: "64 word option \<Rightarrow> 64 word \<Rightarrow> 64 word" where
  "plus_count old n = (case old of None \<Rightarrow> n | Some m \<Rightarrow> n + m)"

lemma category_add_spec:
  assumes "cat_ok h"
  shows "\<exists>h'. category_add True s n h = Returns h' \<and> cat_ok h'
    \<and> category_count h' = (category_count h)(s \<mapsto> plus_count (category_count h s) n)
    \<and> ch_categories h' = (if s \<in> set (ch_categories h) then ch_categories h else ch_categories h @ [s])
    \<and> ch_keep_1 h' = ch_keep_1 h \<and> ch_sort h' = ch_sort h"
proof -
  obtain t where t: "ch_trie h = Some t" "\<And>s. trie_search_node t s \<noteq> Some None"
    "\<And>s a. trie_search_node t s = Some (Some a) \<Longrightarrow> a < length (ch_counts h)"
    "\<And>s s' a. trie_search_node t s = Some (Some a) \<Longrightarrow> trie_search_node t s' = Some (Some a) \<Longrightarrow> s = s'"
    "\<And>s. s \<in> set (ch_categories h) \<longleftrightarrow> trie_search_node t s \<noteq> None" "distinct (ch_categories h)"
    using assms by (auto simp: cat_ok_def)
  show ?thesis
  proof (cases "trie_search_node t s")
    case None
    let ?t = "fst (trie_insert_node t s (Some (length (ch_counts h))) (Some ()))"
    let ?h = "h\<lparr>ch_counts := ch_counts h @ [n], ch_trie := Some ?t, ch_categories := ch_categories h @ [s]\<rparr>"
    have look: "trie_search_node ?t k = (if k = s then Some (Some (length (ch_counts h))) else trie_search_node t k)" for k
      by (rule trie_map.lookup_insert)
    have "category_add True s n h = Returns ?h"
      using None t(1) by (simp add: category_add_def trie_search_def trie_insert_def split_beta)
    moreover have "cat_ok ?h"
      unfolding cat_ok_def using None t by (auto simp: look less_Suc_eq dest: t(3))
    moreover have "category_count ?h = (category_count h)(s \<mapsto> n)"
    proof
      show "category_count ?h k = ((category_count h)(s \<mapsto> n)) k" for k
        using t(1) t(2) [of k] t(3) [of k] None
        by (auto simp: category_count_def trie_search_def look nth_append split: option.splits)
    qed
    moreover have "category_count h s = None"
      using None t(1) by (simp add: category_count_def trie_search_def)
    ultimately show ?thesis using None t(5) [of s] by (simp add: plus_count_def)
  next
    case (Some u)
    then obtain a where a: "trie_search_node t s = Some (Some a)" using t(2) [of s] by (cases u) auto
    let ?h = "h\<lparr>ch_counts := (ch_counts h)[a := n + ch_counts h ! a]\<rparr>"
    have "category_add True s n h = Returns ?h"
      using a t(1,3) by (simp add: category_add_def trie_search_def)
    moreover have "cat_ok ?h" unfolding cat_ok_def using t by auto
    moreover have "category_count ?h = (category_count h)(s \<mapsto> n + ch_counts h ! a)"
    proof
      show "category_count ?h k = ((category_count h)(s \<mapsto> n + ch_counts h ! a)) k" for k
      proof (cases "trie_search_node t k")
        case None
        then show ?thesis using t(1) a by (auto simp: category_count_def trie_search_def)
      next
        case (Some v)
        then obtain b where b: "trie_search_node t k = Some (Some b)" using t(2) [of k] by (cases v) auto
        have "b < length (ch_counts h)" by (rule t(3) [OF b])
        moreover have "b = a \<longleftrightarrow> k = s" using t(4) [OF a, of k] a b by auto
        ultimately show ?thesis using t(1) b by (auto simp: category_count_def trie_search_def nth_list_update)
      qed
    qed
    moreover have "category_count h s = Some (ch_counts h ! a)"
      using a t(1,3) by (simp add: category_count_def trie_search_def)
    ultimately show ?thesis using a t(5) [of s] by (auto simp: plus_count_def)
  qed
qed

lemma counted_total: "(\<And>c. c \<in> set cs \<Longrightarrow> category_count h c = Some (f c)) \<Longrightarrow> counted h cs = Some (map (\<lambda>c. (c, f c)) cs)"
  by (induction cs) simp_all

text \<open>What the aggregate has after a column of values, and the categories among them.\<close>

definition cat_hist_of :: "int list \<Rightarrow> string option list \<Rightarrow> cat_hist outcome" where
  "cat_hist_of args xs =
     foldl (\<lambda>h x. case h of Returns h' \<Rightarrow> category_hist_step args x h' | e \<Rightarrow> e) (Returns cat_zero) xs"

definition names :: "string option list \<Rightarrow> string list" where
  "names xs = map (\<lambda>x. cstr (the x)) (filter (\<lambda>x. x \<noteq> None) xs)"

definition firsts :: "string list \<Rightarrow> string list" where
  "firsts xs = rev (remdups (rev xs))"

definition tally :: "string list \<Rightarrow> string \<Rightarrow> 64 word option" where
  "tally xs s = (if s \<in> set xs then Some (of_nat (count_list xs s)) else None)"

lemma firsts_simps [simp]:
  "firsts [] = []" "firsts (xs @ [x]) = (if x \<in> set xs then firsts xs else firsts xs @ [x])"
  "set (firsts xs) = set xs" "distinct (firsts xs)"
  by (auto simp: firsts_def)

lemma tally_snoc: "tally (xs @ [x]) = (tally xs)(x \<mapsto> plus_count (tally xs x) 1)"
  by (rule ext) (auto simp: tally_def plus_count_def count_notin)

lemma tally_append: "tally (xs @ ys) s =
    (if s \<in> set ys then Some (plus_count (tally xs s) (of_nat (count_list ys s))) else tally xs s)"
  by (auto simp: tally_def plus_count_def count_notin add.commute)

definition cat_counts :: "cat_hist \<Rightarrow> string list \<Rightarrow> bool" where
  "cat_counts h ns \<longleftrightarrow> cat_ok h \<and> ch_categories h = firsts ns \<and> category_count h = tally ns"

lemma category_hist_step_counts:
  assumes "h = cat_zero \<and> ns = [] \<or> cat_counts h ns"
  shows "\<exists>h'. category_hist_step args x h = Returns h' \<and> cat_counts h' (ns @ names [x])
    \<and> (let g = category_hist_init args h in ch_keep_1 h' = ch_keep_1 g \<and> ch_sort h' = ch_sort g)"
proof -
  let ?h = "category_hist_init args h"
  have ok: "cat_counts ?h ns"
  proof (cases "ch_trie h = None")
    case True
    then have "h = cat_zero" "ns = []" using assms by (auto simp: cat_counts_def cat_ok_def)
    then show ?thesis
      using cat_ok_start category_count_start
      by (auto simp: cat_counts_def category_hist_init_def cat_zero_def tally_def fun_eq_iff)
  next
    case False
    then show ?thesis using assms by (auto simp: category_hist_init_def cat_zero_def)
  qed
  show ?thesis
  proof (cases x)
    case None
    then show ?thesis using ok by (simp add: category_hist_step_def names_def Let_def)
  next
    case (Some s)
    have "cat_ok ?h" using ok by (simp add: cat_counts_def)
    from category_add_spec [OF this, of "cstr s" 1] obtain h' where
      "category_add True (cstr s) 1 ?h = Returns h'" "cat_ok h'"
      "category_count h' = (category_count ?h)(cstr s \<mapsto> plus_count (category_count ?h (cstr s)) 1)"
      "ch_categories h' = (if cstr s \<in> set (ch_categories ?h) then ch_categories ?h else ch_categories ?h @ [cstr s])"
      "ch_keep_1 h' = ch_keep_1 ?h" "ch_sort h' = ch_sort ?h"
      by auto
    then show ?thesis
      using ok Some
      by (simp add: category_hist_step_def category_hist_insert_def cat_counts_def names_def tally_snoc Let_def)
  qed
qed

lemma names_append: "names (xs @ ys) = names xs @ names ys"
  by (simp add: names_def)

lemma cat_hist_of_counts:
  "\<exists>h. cat_hist_of args xs = Returns h \<and> (if xs = [] then h = cat_zero else cat_counts h (names xs)
      \<and> ch_keep_1 h = (0 < length args \<and> args ! 0 \<noteq> 0) \<and> ch_sort h = (1 < length args \<and> args ! 1 \<noteq> 0))"
proof (induction xs rule: rev_induct)
  case (snoc x xs)
  then obtain h where h: "cat_hist_of args xs = Returns h"
    "if xs = [] then h = cat_zero else cat_counts h (names xs)
      \<and> ch_keep_1 h = (0 < length args \<and> args ! 0 \<noteq> 0) \<and> ch_sort h = (1 < length args \<and> args ! 1 \<noteq> 0)" by blast
  have "h = cat_zero \<and> names xs = [] \<or> cat_counts h (names xs)"
    using h(2) by (auto simp: names_def split: if_splits)
  from category_hist_step_counts [OF this, of args x] obtain h' where
    h': "category_hist_step args x h = Returns h'" "cat_counts h' (names xs @ names [x])"
    "ch_keep_1 h' = ch_keep_1 (category_hist_init args h)" "ch_sort h' = ch_sort (category_hist_init args h)"
    by (auto simp: Let_def)
  have "cat_hist_of args (xs @ [x]) = Returns h'" using h(1) h'(1) by (simp add: cat_hist_of_def)
  moreover have "ch_keep_1 h' = (0 < length args \<and> args ! 0 \<noteq> 0) \<and> ch_sort h' = (1 < length args \<and> args ! 1 \<noteq> 0)"
    using h(2) h'(3,4)
    by (auto simp: category_hist_init_def cat_zero_def cat_counts_def cat_ok_def split: if_splits)
  ultimately show ?case using h'(2) by (simp add: names_append [symmetric])
qed (simp add: cat_hist_of_def)

section \<open>Reading a text back\<close>

lemma mset_insert_by [simp]: "mset (insert_by cmp x ys) = add_mset x (mset ys)"
  by (induction ys) simp_all

lemma mset_qsort [simp]: "mset (qsort cmp xs) = mset xs"
  by (induction xs) (simp_all add: qsort_def)

lemma set_qsort [simp]: "set (qsort cmp xs) = set xs"
  using mset_qsort by (rule mset_eq_setD)

lemma distinct_map_qsort: "distinct (map f xs) \<Longrightarrow> distinct (map f (qsort cmp xs))"
  by (metis distinct_count_atmost_1 mset_map mset_qsort set_map set_qsort)

definition bucket_of :: "string \<times> 64 word \<Rightarrow> category_bucket" where
  "bucket_of c = \<lparr>cb_name = fst c, cb_len = of_nat (length (fst c)), cb_count = snd c\<rparr>"

definition category_text :: "(string \<times> 64 word) list \<Rightarrow> string" where
  "category_text cs = fmt_zu (of_nat (length cs)) @ '';'' @ concat (map serialize_category_bucket cs)"

text \<open>Names that the parser can tell from what is around them.\<close>

definition plain_name :: "string \<Rightarrow> bool" where
  "plain_name s \<longleftrightarrow> s \<noteq> [] \<and> CHR '':'' \<notin> set s"

lemma until_colon: "CHR '':'' \<notin> set s \<Longrightarrow> takeWhile (\<lambda>c. c \<noteq> CHR '':'') (s @ CHR '':'' # r) = s"
  by (induction s) auto

lemma unat_Suc_len:
  assumes "n < 2 ^ 64 - 1"
  shows "unat (of_nat n + 1 :: 64 word) = Suc n"
proof -
  have "of_nat n + 1 = (of_nat (Suc n) :: 64 word)" by simp
  moreover have "unat (of_nat (Suc n) :: 64 word) = Suc n"
    using assms by (simp add: unat_of_nat del: of_nat_Suc)
  ultimately show ?thesis by (simp add: add.commute)
qed

lemma parse_category_text:
  assumes "plain_name (fst c)" and "length (fst c) < 2 ^ 64 - 1"
  shows "parse_category (serialize_category_bucket c @ r) = Returns (bucket_of c, r)"
proof -
  let ?n = "fst c"
  let ?len = "of_nat (length ?n) :: 64 word"
  let ?num = "fmt_zu ?len"
  let ?rest = "?n @ CHR '':'' # fmt_zu (snd c) @ CHR '';'' # r"
  have s: "serialize_category_bucket c @ r = ?num @ CHR '':'' # ?rest"
    by (simp add: serialize_category_bucket_def)
  have tw: "takeWhile (\<lambda>c. c \<noteq> CHR '':'') ?rest = ?n"
    by (rule until_colon) (use assms(1) in \<open>simp add: plain_name_def\<close>)
  have first: "sscanf [Zu, Lit CHR '':'', Nread] (?num @ CHR '':'' # ?rest) 0
      = ([Num ?len], Some (Suc (length ?num)))"
    by (simp add: sscanf_zu)
  have second: "sscanf [NotColon, Lit CHR '':'', Zu, Lit CHR '';'', Nread] ?rest 0
      = ([Str ?n, Num (snd c)], Some (Suc (Suc (length ?n + length (fmt_zu (snd c))))))"
    using assms(1) by (simp add: tw sscanf_zu plain_name_def Let_def)
  have len: "unat (?len + 1) = Suc (length ?n)"
    by (rule unat_Suc_len [OF assms(2)])
  have semi: "?rest ! Suc (length ?n + length (fmt_zu (snd c))) = CHR '';''"
    by (simp add: nth_append)
  have dr: "drop (Suc (length ?num)) (?num @ CHR '':'' # ?rest) = ?rest" by simp
  show ?thesis
    using semi len by (simp add: s parse_category_def first second tw Let_def bucket_of_def del: sscanf.simps)
qed

lemma mode_count_parse_text:
  assumes "plain_name (fst c)" and "length (fst c) < 2 ^ 64 - 1"
  shows "mode_count_parse (Some (serialize_category_bucket c)) = Returns (bucket_of c)"
  using parse_category_text [OF assms, of "[]"] by (simp add: mode_count_parse_def) (simp add: serialize_category_bucket_def)

lemma parse_categories_text:
  "(\<And>c. c \<in> set cs \<Longrightarrow> plain_name (fst c) \<and> length (fst c) < 2 ^ 64 - 1) \<Longrightarrow>
    parse_categories (length cs) (concat (map serialize_category_bucket cs)) = Returns (map bucket_of cs)"
  by (induction cs) (simp_all add: parse_category_text)

lemma category_hist_parse_text:
  assumes "\<And>c. c \<in> set cs \<Longrightarrow> plain_name (fst c) \<and> length (fst c) < 2 ^ 64 - 1" and "length cs < 2 ^ 64"
  shows "category_hist_parse (category_text cs) = Returns (qsort category_bucket_cmp (map bucket_of cs))"
proof -
  have "unat (of_nat (length cs) :: 64 word) = length cs"
    using assms(2) by (simp add: unat_of_nat)
  moreover have "(fmt_zu w @ CHR '';'' # r) ! length (fmt_zu w) = CHR '';''" for w r
    by (simp add: nth_append)
  ultimately show ?thesis
    using parse_categories_text [OF assms(1)]
    by (simp add: category_hist_parse_def category_text_def sscanf_zu)
qed

lemma NUL_category_text:
  assumes "\<And>c. c \<in> set cs \<Longrightarrow> NUL \<notin> set (fst c)"
  shows "NUL \<notin> set (category_text cs)"
proof -
  have "NUL \<notin> set (fmt_zu w)" for w using fmt_zu_chars digit_not_sign by blast
  then show ?thesis using assms by (auto simp: category_text_def serialize_category_bucket_def)
qed

lemma category_hist_final_fits:
  assumes "category_hist_keep h = Some cs" and "ch_trie h \<noteq> None"
    and "length (category_text cs) < DEFAULT_HIST_ALLOC"
  shows "category_hist_final grow h = Some \<lparr>tb_size = DEFAULT_HIST_ALLOC, tb_bytes = map Some (category_text cs)\<rparr>"
  using assms serialize_buckets_fit [of "fmt_zu (of_nat (length cs)) @ '';''" "map serialize_category_bucket cs"
      DEFAULT_HIST_ALLOC grow]
  by (auto simp: category_hist_final_def category_text_def start_text_def Let_def)

text \<open>Adding the buckets of another histogram.\<close>

lemma combine_inplace_counts:
  assumes "cat_ok h" and "distinct (map cb_name bs)" and "\<And>b. b \<in> set bs \<Longrightarrow> unat (cb_len b) = length (cb_name b)"
  shows "\<exists>h'. category_hist_combine_inplace True bs h = Returns h' \<and> cat_ok h'
    \<and> set (ch_categories h') = set (ch_categories h) \<union> cb_name ` set bs
    \<and> (\<forall>b \<in> set bs. category_count h' (cb_name b) = Some (plus_count (category_count h (cb_name b)) (cb_count b)))
    \<and> (\<forall>s. s \<notin> cb_name ` set bs \<longrightarrow> category_count h' s = category_count h s)"
  using assms
proof (induction bs arbitrary: h)
  case (Cons b bs)
  from category_add_spec [OF Cons.prems(1), of "cb_name b" "cb_count b"] obtain h1 where
    h1: "category_add True (cb_name b) (cb_count b) h = Returns h1" "cat_ok h1"
    "category_count h1 = (category_count h)(cb_name b \<mapsto> plus_count (category_count h (cb_name b)) (cb_count b))"
    "ch_categories h1 = (if cb_name b \<in> set (ch_categories h) then ch_categories h else ch_categories h @ [cb_name b])"
    by auto
  have "distinct (map cb_name bs)" "\<And>b. b \<in> set bs \<Longrightarrow> unat (cb_len b) = length (cb_name b)"
    using Cons.prems(2,3) by auto
  from Cons.IH [OF h1(2) this] obtain h2 where
    h2: "category_hist_combine_inplace True bs h1 = Returns h2" "cat_ok h2"
    "set (ch_categories h2) = set (ch_categories h1) \<union> cb_name ` set bs"
    "\<forall>b \<in> set bs. category_count h2 (cb_name b) = Some (plus_count (category_count h1 (cb_name b)) (cb_count b))"
    "\<forall>s. s \<notin> cb_name ` set bs \<longrightarrow> category_count h2 s = category_count h1 s" by blast
  have "category_hist_combine_inplace True (b # bs) h = Returns h2"
    using h1(1) h2(1) Cons.prems(3) [of b] by simp
  moreover have "cb_name b \<notin> cb_name ` set bs" using Cons.prems(2) by simp
  moreover have "set (ch_categories h2) = set (ch_categories h) \<union> cb_name ` set (b # bs)"
    using h2(3) h1(4) by auto
  moreover have "\<forall>c \<in> set (b # bs). category_count h2 (cb_name c) = Some (plus_count (category_count h (cb_name c)) (cb_count c))"
    using h2(4,5) h1(3) calculation(2) by (auto simp: image_iff)
  moreover have "\<forall>s. s \<notin> cb_name ` set (b # bs) \<longrightarrow> category_count h2 s = category_count h s"
    using h2(5) h1(3) by simp
  ultimately show ?case using h2(2) by blast
qed simp

section \<open>Properties\<close>

text \<open>What the aggregate \<open>category_hist\<close> returns for a column, and the list of counts it should print.\<close>

definition category_hist_result :: "(nat \<Rightarrow> bool) \<Rightarrow> int list \<Rightarrow> string option list \<Rightarrow> string option" where
  "category_hist_result grow args xs =
     (case cat_hist_of args xs of
        Returns h \<Rightarrow> map_option c_text (category_hist_final grow h)
      | _ \<Rightarrow> None)"

definition tallied :: "int list \<Rightarrow> string list \<Rightarrow> (string \<times> 64 word) list" where
  "tallied args ns =
     map (\<lambda>s. (s, of_nat (count_list ns s)))
       (if 1 < length args \<and> args ! 1 \<noteq> 0 then qsort category_compare (firsts ns) else firsts ns)"

definition category_hist_combined :: "int \<Rightarrow> string option list \<Rightarrow> cat_hist outcome" where
  "category_hist_combined sort_arg ts =
     foldl (\<lambda>h t. case h of Returns h' \<Rightarrow> category_hist_combine_step sort_arg t h' | e \<Rightarrow> e) (Returns cat_zero) ts"

lemma NUL_names: "n \<in> set (names xs) \<Longrightarrow> NUL \<notin> set n"
  by (auto simp: names_def cstr_def dest: set_takeWhileD)

lemma tallied_names: "set (map fst (tallied args ns)) = set ns" "distinct (map fst (tallied args ns))"
  using distinct_map_qsort [of id "firsts ns" category_compare]
  by (auto simp: tallied_def comp_def image_image)

lemma tallied_tally: "c \<in> set (tallied args ns) \<Longrightarrow> tally ns (fst c) = Some (snd c)"
  by (auto simp: tallied_def tally_def split: if_splits)

lemma category_hist_result_text:
  assumes "0 < length args" and "args ! 0 \<noteq> 0" and "length (category_text (tallied args (names xs))) < DEFAULT_HIST_ALLOC"
  shows "category_hist_result grow args xs = Some (category_text (tallied args (names xs)))"
proof -
  obtain h where h: "cat_hist_of args xs = Returns h" "if xs = [] then h = cat_zero else cat_counts h (names xs)
      \<and> ch_keep_1 h = (0 < length args \<and> args ! 0 \<noteq> 0) \<and> ch_sort h = (1 < length args \<and> args ! 1 \<noteq> 0)"
    using cat_hist_of_counts by blast
  have "category_hist_final grow h
      = Some \<lparr>tb_size = DEFAULT_HIST_ALLOC, tb_bytes = map Some (category_text (tallied args (names xs)))\<rparr>"
  proof (cases "xs = []")
    case True
    then show ?thesis
      using h(2) by (simp add: category_hist_final_def cat_zero_def category_hist_keep_def names_def tallied_def
          category_text_def start_text_def qsort_def)
  next
    case False
    then have c: "cat_counts h (names xs)" "ch_keep_1 h" "ch_sort h = (1 < length args \<and> args ! 1 \<noteq> 0)"
      using h(2) assms by auto
    let ?order = "if ch_sort h then qsort category_compare (ch_categories h) else ch_categories h"
    have "counted h ?order = Some (map (\<lambda>s. (s, of_nat (count_list (names xs) s))) ?order)"
      by (rule counted_total) (use c(1) in \<open>auto simp: cat_counts_def tally_def split: if_splits\<close>)
    then have "category_hist_keep h = Some (tallied args (names xs))"
      using c by (simp add: category_hist_keep_def tallied_def cat_counts_def)
    moreover have "ch_trie h \<noteq> None" using c(1) by (auto simp: cat_counts_def cat_ok_def)
    ultimately show ?thesis by (rule category_hist_final_fits [OF _ _ assms(3)])
  qed
  moreover have "NUL \<notin> set (category_text (tallied args (names xs)))"
    using tallied_names(1) [of args "names xs"] NUL_names by (intro NUL_category_text) force
  ultimately show ?thesis using h(1) by (simp add: category_hist_result_def c_text_Some)
qed

text \<open>
  After any column of values, the aggregate \<open>category_hist\<close> has each category once, in the order in
  which they first came, and the count its trie leads to for a category is the number of times it
  came, modulo \<open>2 ^ 64\<close>; nulls are skipped, and there is no count for anything else.
\<close>
theorem category_hist_counts:
  "\<exists>h. cat_hist_of args xs = Returns h \<and> ch_categories h = firsts (names xs)
    \<and> category_count h = (\<lambda>s. if s \<in> set (names xs) then Some (of_nat (count_list (names xs) s)) else None)"
proof -
  obtain h where h: "cat_hist_of args xs = Returns h" "if xs = [] then h = cat_zero else cat_counts h (names xs)
      \<and> ch_keep_1 h = (0 < length args \<and> args ! 0 \<noteq> 0) \<and> ch_sort h = (1 < length args \<and> args ! 1 \<noteq> 0)"
    using cat_hist_of_counts by blast
  then show ?thesis
    by (auto simp: cat_counts_def tally_def cat_zero_def category_count_def trie_search_def names_def fun_eq_iff
        split: if_splits)
qed

definition accumulated :: "cat_hist \<Rightarrow> string list \<Rightarrow> bool" where
  "accumulated h ns \<longleftrightarrow> cat_ok h \<and> category_count h = tally ns \<and> set (ch_categories h) = set ns"

lemma category_combine_step:
  assumes "h = cat_zero \<and> ns = [] \<or> accumulated h ns"
    and "\<And>n. n \<in> set (names xs) \<Longrightarrow> plain_name n"
    and "length (category_text (tallied args (names xs))) < DEFAULT_HIST_ALLOC"
  shows "\<exists>h'. category_hist_combine_step sort_arg (Some (category_text (tallied args (names xs)))) h = Returns h'
    \<and> accumulated h' (ns @ names xs)"
proof -
  let ?cs = "tallied args (names xs)"
  let ?h = "if ch_trie h = None then h\<lparr>ch_trie := Some trie_alloc, ch_categories := [], ch_keep_1 := True, ch_sort := sort_arg \<noteq> 0\<rparr> else h"
  let ?bs = "qsort category_bucket_cmp (map bucket_of ?cs)"
  have acc: "accumulated ?h ns"
    using assms(1)
    by (auto simp: accumulated_def cat_ok_def cat_zero_def category_count_def trie_search_def tally_def fun_eq_iff)
  have short: "length (fst c) < 512" "plain_name (fst c)" if "c \<in> set ?cs" for c
  proof -
    have "length (serialize_category_bucket c) \<le> length (concat (map serialize_category_bucket ?cs))"
      using that by (auto simp: length_concat comp_def intro!: member_le_sum_list)
    then show "length (fst c) < 512"
      using assms(3) by (simp add: category_text_def serialize_category_bucket_def DEFAULT_HIST_ALLOC_def)
    show "plain_name (fst c)" using that tallied_names(1) [of args "names xs"] assms(2) by force
  qed
  have "length ?cs \<le> length (concat (map serialize_category_bucket ?cs))"
    using sum_list_mono [of ?cs "\<lambda>_. 1" "\<lambda>c. length (serialize_category_bucket c)"]
    by (simp add: length_concat comp_def sum_list_triv serialize_category_bucket_def)
  then have "length ?cs < 512" using assms(3) by (simp add: category_text_def DEFAULT_HIST_ALLOC_def)
  then have "category_hist_parse (category_text ?cs) = Returns ?bs"
    using short by (intro category_hist_parse_text) fastforce+
  moreover have "cstr (category_text ?cs) = category_text ?cs"
    using tallied_names(1) [of args "names xs"] NUL_names by (intro cstr_id NUL_category_text) force
  moreover have "distinct (map cb_name ?bs)"
    using tallied_names(2) [of args "names xs"]
    by (intro distinct_map_qsort) (simp add: comp_def bucket_of_def)
  moreover have "unat (cb_len b) = length (cb_name b)" if "b \<in> set ?bs" for b
    using that short by (fastforce simp: bucket_of_def unat_of_nat)
  ultimately obtain h' where h': "category_hist_combine_step sort_arg (Some (category_text ?cs)) h = Returns h'"
    "cat_ok h'" "set (ch_categories h') = set (ch_categories ?h) \<union> cb_name ` set ?bs"
    "\<forall>b \<in> set ?bs. category_count h' (cb_name b) = Some (plus_count (category_count ?h (cb_name b)) (cb_count b))"
    "\<forall>s. s \<notin> cb_name ` set ?bs \<longrightarrow> category_count h' s = category_count ?h s"
    using combine_inplace_counts [of ?h ?bs] acc
    by (auto simp: category_hist_combine_step_def accumulated_def Let_def)
  have bs: "cb_name ` set ?bs = set (names xs)"
    using tallied_names(1) [of args "names xs"] by (force simp: bucket_of_def)
  have "category_count h' s = tally (ns @ names xs) s" for s
  proof (cases "s \<in> set (names xs)")
    case True
    then obtain c where c: "c \<in> set ?cs" "fst c = s" using tallied_names(1) [of args "names xs"] by force
    then have "category_count h' (cb_name (bucket_of c))
        = Some (plus_count (category_count ?h (cb_name (bucket_of c))) (cb_count (bucket_of c)))"
      using h'(4) by simp
    moreover have "snd c = of_nat (count_list (names xs) s)"
      using tallied_tally [OF c(1)] c(2) True by (simp add: tally_def)
    ultimately show ?thesis using True acc c(2) by (simp add: tally_append bucket_of_def accumulated_def)
  next
    case False
    then show ?thesis using h'(5) bs acc by (simp add: tally_append accumulated_def)
  qed
  then show ?thesis using h' bs acc by (auto simp: accumulated_def fun_eq_iff)
qed

lemma category_hist_combined_snoc:
  "category_hist_combined sort_arg (ts @ [t]) =
     (case category_hist_combined sort_arg ts of Returns h \<Rightarrow> category_hist_combine_step sort_arg t h | e \<Rightarrow> e)"
  by (simp add: category_hist_combined_def)

text \<open>
  C29: Category histograms of parts combine to the counts of the whole: when \<open>category_hist\<close>, keeping
  single values, has printed a text for each group of values, \<open>category_hist_combine\<close> parses the texts
  and its trie then leads, for every category of any group, to the number of times it came in all
  groups together, modulo \<open>2 ^ 64\<close>.  No category may be empty or contain a colon, and no text be
  longer than the 511 bytes that are written correctly.
\<close>
theorem category_hist_combine_all:
  assumes "0 < length args" and "args ! 0 \<noteq> 0"
    and "\<And>xs n. xs \<in> set groups \<Longrightarrow> n \<in> set (names xs) \<Longrightarrow> plain_name n"
    and "\<And>xs. xs \<in> set groups \<Longrightarrow> length (category_text (tallied args (names xs))) < DEFAULT_HIST_ALLOC"
  shows "\<exists>h. category_hist_combined sort_arg (map (category_hist_result grow args) groups) = Returns h
    \<and> category_count h = (\<lambda>s. if s \<in> set (names (concat groups))
        then Some (of_nat (count_list (names (concat groups)) s)) else None)"
proof -
  have "\<exists>h. category_hist_combined sort_arg (map (category_hist_result grow args) groups) = Returns h
    \<and> (h = cat_zero \<and> names (concat groups) = [] \<or> accumulated h (names (concat groups)))"
    using assms(3,4)
  proof (induction groups rule: rev_induct)
    case (snoc xs groups)
    then obtain h where h: "category_hist_combined sort_arg (map (category_hist_result grow args) groups) = Returns h"
      "h = cat_zero \<and> names (concat groups) = [] \<or> accumulated h (names (concat groups))" by auto
    have "length (category_text (tallied args (names xs))) < DEFAULT_HIST_ALLOC" using snoc.prems(2) by simp
    from category_combine_step [OF h(2) _ this, of sort_arg] category_hist_result_text [OF assms(1,2) this, of grow]
    show ?case using snoc.prems(1) h(1) by (fastforce simp: category_hist_combined_snoc names_append)
  qed (simp add: category_hist_combined_def names_def)
  then show ?thesis
    by (auto simp: accumulated_def tally_def cat_zero_def category_count_def trie_search_def fun_eq_iff)
qed

lemma category_hist_combine_all_witness:
  "\<exists>h. category_hist_combined 0 (map (category_hist_result (\<lambda>_. True) [1, 0])
        [[Some ''txt'', None, Some ''c''], [], [Some ''c'', Some ''c'', Some ''h'']]) = Returns h
    \<and> category_count h ''c'' = Some 3 \<and> category_count h ''txt'' = Some 1 \<and> category_count h ''x'' = None"
proof -
  have "\<exists>h. category_hist_combined 0 (map (category_hist_result (\<lambda>_. True) [1, 0])
        [[Some ''txt'', None, Some ''c''], [], [Some ''c'', Some ''c'', Some ''h'']]) = Returns h
    \<and> category_count h = (\<lambda>s. if s \<in> set (names (concat [[Some ''txt'', None, Some ''c''], [], [Some ''c'', Some ''c'', Some ''h'']]))
        then Some (of_nat (count_list (names (concat [[Some ''txt'', None, Some ''c''], [], [Some ''c'', Some ''c'', Some ''h'']])) s)) else None)"
  proof (rule category_hist_combine_all)
    fix xs :: "string option list" and n
    assume xs: "xs \<in> set [[Some ''txt'', None, Some ''c''], [], [Some ''c'', Some ''c'', Some ''h'']]"
    then show "n \<in> set (names xs) \<Longrightarrow> plain_name n" by (auto simp: names_def cstr_def plain_name_def)
    have "list_all (\<lambda>xs. length (category_text (tallied [1, 0] (names xs))) < DEFAULT_HIST_ALLOC)
        [[Some ''txt'', None, Some ''c''], [], [Some ''c'', Some ''c'', Some ''h'']]" by code_simp
    then show "length (category_text (tallied [1, 0] (names xs))) < DEFAULT_HIST_ALLOC"
      using xs by (simp only: list_all_iff)
  qed simp_all
  then show ?thesis by (auto simp: names_def cstr_def)
qed

text \<open>
  A category with a colon in it makes a text that cannot be parsed: the length in front of the
  name is not used to read the name, which ends at the first colon, so that \<open>category_hist_combine\<close>
  fails on what \<open>category_hist\<close> printed.
\<close>
theorem category_colon_unparsable:
  assumes "0 < length args" and "args ! 0 \<noteq> 0"
    and "a \<noteq> []" and "CHR '':'' \<notin> set a" and "NUL \<notin> set (a @ CHR '':'' # c # b)"
    and "\<not> is_digit 10 c" and "\<not> isspace c" and "c \<noteq> CHR ''-''" and "c \<noteq> CHR ''+''"
    and "length (a @ CHR '':'' # c # b) < 400"
  shows "\<exists>t. category_hist_result grow args [Some (a @ CHR '':'' # c # b)] = Some t \<and> category_hist_parse t = Null
    \<and> category_hist_combined sort_arg [Some t] = Null"
proof -
  let ?s = "a @ CHR '':'' # c # b"
  let ?rest = "a @ CHR '':'' # c # b @ CHR '':'' # fmt_zu 1 @ '';''"
  let ?cs = "tallied args (names [Some ?s])"
  obtain len :: "64 word" where len: "of_nat (length ?s) = len" by simp
  have "cstr ?s = ?s" using assms(5) by (rule cstr_id)
  then have cs: "?cs = [(?s, 1)]" by (simp add: tallied_def names_def firsts_def qsort_def)
  have t: "category_text ?cs = fmt_zu 1 @ CHR '';'' # fmt_zu len @ CHR '':'' # ?rest"
    unfolding cs category_text_def serialize_category_bucket_def len [symmetric] by simp
  have "length (category_text ?cs) < DEFAULT_HIST_ALLOC"
    unfolding t using fmt_zu_length [of 1] fmt_zu_length [of len] assms(10) by (simp add: DEFAULT_HIST_ALLOC_def)
  then have res: "category_hist_result grow args [Some ?s] = Some (category_text ?cs)"
    by (rule category_hist_result_text [OF assms(1,2)])
  have first: "sscanf [Zu, Lit CHR '':'', Nread] (fmt_zu len @ CHR '':'' # ?rest) 0
      = ([Num len], Some (Suc (length (fmt_zu len))))"
    by (simp add: sscanf_zu)
  have tw: "takeWhile (\<lambda>c. c \<noteq> CHR '':'') ?rest = a"
    by (rule until_colon [OF assms(4)])
  have "scan_num 10 (c # r) = None" for r
    using assms(6,8,9) by (simp add: scan_num_def)
  then have second: "sscanf [NotColon, Lit CHR '':'', Zu, Lit CHR '';'', Nread] ?rest 0 = ([Str a], None)"
    using assms(3,7) by (simp add: sscanf.simps(3) tw Let_def)
  have "unat (len + 1) = Suc (length ?s)"
    unfolding len [symmetric] by (rule unat_Suc_len) (use assms(10) in simp)
  then have "parse_category (fmt_zu len @ CHR '':'' # ?rest) = Null"
    by (simp add: parse_category_def first second tw Let_def del: sscanf.simps)
  moreover have "sscanf [Zu, Lit CHR '';'', Nread] (category_text ?cs) 0 = ([Num 1], Some (Suc (length (fmt_zu 1))))"
    unfolding t by (simp add: sscanf_zu)
  ultimately have null: "category_hist_parse (category_text ?cs) = Null"
    by (simp add: category_hist_parse_def t nth_append)
  have "NUL \<notin> set (category_text ?cs)" using assms(5) by (intro NUL_category_text) (simp add: cs)
  then have "category_hist_combined sort_arg [Some (category_text ?cs)] = Null"
    using null by (simp add: category_hist_combined_def category_hist_combine_step_def cstr_id)
  then show ?thesis using res null by blast
qed

lemma category_colon_unparsable_witness:
  "\<exists>t. category_hist_result (\<lambda>_. True) [1, 0] [Some ''C:x''] = Some t \<and> category_hist_parse t = Null
    \<and> category_hist_combined 0 [Some t] = Null"
  using category_colon_unparsable [of "[1, 0]" "''C''" "CHR ''x''" "[]" "\<lambda>_. True" 0]
  by (simp add: is_digit_def digit_val_def isspace_def)

text \<open>What is in front when one element is smaller than all others.\<close>

lemma insert_by_least:
  assumes "\<And>y. y \<in> set ys \<Longrightarrow> y \<noteq> c \<Longrightarrow> cmp c y < 0 \<and> 0 < cmp y c" and "cmp c c \<le> 0"
  shows "c \<in> set ys \<Longrightarrow> hd ys = c \<Longrightarrow> 0 < cmp x c \<Longrightarrow> hd (insert_by cmp x ys) = c"
    and "hd (insert_by cmp c ys) = c"
  using assms by (cases ys; force simp: less_imp_le)+

lemma qsort_least:
  assumes "c \<in> set xs" and "\<And>y. y \<in> set xs \<Longrightarrow> y \<noteq> c \<Longrightarrow> cmp c y < 0 \<and> 0 < cmp y c" and "cmp c c \<le> 0"
  shows "\<exists>r. qsort cmp xs = c # r"
proof -
  have "hd (qsort cmp xs) = c" using assms
  proof (induction xs)
    case (Cons x xs)
    have least: "y \<in> set (qsort cmp xs) \<Longrightarrow> y \<noteq> c \<Longrightarrow> cmp c y < 0 \<and> 0 < cmp y c" for y
      using Cons.prems(2) by simp
    note ins = insert_by_least [where ys = "qsort cmp xs" and c = c and cmp = cmp, OF least Cons.prems(3)]
    have q: "qsort cmp (x # xs) = insert_by cmp x (qsort cmp xs)" by (simp add: qsort_def)
    show ?case
    proof (cases "x = c")
      case True
      then show ?thesis using ins(2) q by simp
    next
      case False
      then have "hd (qsort cmp xs) = c" using Cons by auto
      then show ?thesis using ins(1) [of x] q False Cons.prems by auto
    qed
  qed simp
  moreover have "qsort cmp xs \<noteq> []" using assms(1) set_qsort [of cmp xs] by (metis empty_iff list.set(1))
  ultimately show ?thesis by (cases "qsort cmp xs") auto
qed

lemma strncmp_swap: "strncmp a b n = - strncmp b a n"
  by (induction a b n rule: strncmp.induct) (auto simp: Let_def)

lemma strncmp_refl: "strncmp a a n = 0"
  using strncmp_swap [of a a n] by simp

text \<open>
  The statistical mode is not the mode: the array that \<open>mode_count\<close> sorts holds counts behind a
  \<open>str_t\<close>, where the comparison reads the address of \<open>free\<close>, the same for all; so the array is sorted by
  name alone, and what is printed, unless the result is NULL, is the first category in the order of
  the bytes with its count, however often the others came.
\<close>
theorem mode_count_is_first_name:
  assumes "cat_hist_of [] xs = Returns h"
    and "c \<in> set (names xs)"
    and "\<And>d. d \<in> set (names xs) \<Longrightarrow> d \<noteq> c \<Longrightarrow> strncmp c d (max (length c) (length d)) < 0"
    and "\<And>d. d \<in> set (names xs) \<Longrightarrow> length d < 2 ^ 64"
    and "mode_count_final grow free_fn h \<noteq> None"
  shows "mode_count_final grow free_fn h
    = serialize_bucket grow (serialize_category_bucket (c, of_nat (count_list (names xs) c))) (start_text [])"
proof -
  let ?mk = "\<lambda>d. \<lparr>ca_data = d, ca_len = of_nat (length d), ca_free = free_fn, ca_count = of_nat (count_list (names xs) d)\<rparr>"
  let ?cmp = "\<lambda>l r. category_bucket_cmp (as_bucket l) (as_bucket r)"
  have "xs \<noteq> []" using assms(2) by (auto simp: names_def)
  then have h: "cat_counts h (names xs)" using cat_hist_of_counts [of "[]" xs] assms(1) by simp
  then have "counted h (firsts (names xs)) = Some (map (\<lambda>d. (d, of_nat (count_list (names xs) d))) (firsts (names xs)))"
    by (intro counted_total) (auto simp: cat_counts_def tally_def)
  then have counted: "counted h (ch_categories h) = Some (map (\<lambda>d. (d, of_nat (count_list (names xs) d))) (firsts (names xs)))"
    using h by (simp add: cat_counts_def)
  have cmp: "?cmp (?mk d) (?mk e) = strncmp d e (max (length d) (length e))"
    if "d \<in> set (names xs)" "e \<in> set (names xs)" for d e
    using assms(4) [OF that(1)] assms(4) [OF that(2)]
    by (simp add: category_bucket_cmp_def as_bucket_def word_less_nat_alt unat_of_nat max_def)
  have "\<exists>r. qsort ?cmp (map ?mk (firsts (names xs))) = ?mk c # r"
  proof (rule qsort_least)
    show "?mk c \<in> set (map ?mk (firsts (names xs)))" using assms(2) by auto
    show "?cmp (?mk c) (?mk c) \<le> 0" using cmp [OF assms(2,2)] by (simp add: strncmp_refl)
    fix y
    assume "y \<in> set (map ?mk (firsts (names xs)))" "y \<noteq> ?mk c"
    then obtain d where d: "d \<in> set (names xs)" "d \<noteq> c" "y = ?mk d" by auto
    then have "strncmp c d (max (length c) (length d)) < 0" by (intro assms(3))
    then show "?cmp (?mk c) y < 0 \<and> 0 < ?cmp y (?mk c)"
      using cmp [OF assms(2) d(1)] cmp [OF d(1) assms(2)] d(3)
        strncmp_swap [of d c "max (length c) (length d)"] by (simp add: max.commute)
  qed
  then obtain r where r: "qsort ?cmp (map ?mk (firsts (names xs))) = ?mk c # r" by blast
  have "ch_trie h \<noteq> None" using h by (auto simp: cat_counts_def cat_ok_def)
  then show ?thesis
    using assms(5) r counted by (auto simp: mode_count_final_def comp_def Let_def split: if_splits)
qed

text \<open>One file named \<open>a\<close> and two named \<open>b\<close>: the mode is given as \<open>a\<close>.\<close>

lemma mode_count_is_first_name_witness:
  "\<exists>h. cat_hist_of [] [Some ''b'', Some ''a'', Some ''b''] = Returns h
    \<and> category_count h ''b'' = Some 2
    \<and> mode_count_final (\<lambda>_. True) 4096 h = Some \<lparr>tb_size = 512, tb_bytes = map Some ''1:a:1;''\<rparr>"
proof -
  let ?xs = "[Some ''b'', Some ''a'', Some ''b'']"
  obtain h where h: "cat_hist_of [] ?xs = Returns h" using cat_hist_of_counts by blast
  have n: "names ?xs = [''b'', ''a'', ''b'']" by (simp add: names_def cstr_def)
  have "category_count h ''b'' = Some 2"
    using category_hist_counts [of "[]" ?xs] h n by auto
  moreover have "mode_count_final (\<lambda>_. True) 4096 h
      = serialize_bucket (\<lambda>_. True) (serialize_category_bucket (''a'', of_nat (count_list (names ?xs) ''a''))) (start_text [])"
  proof (rule mode_count_is_first_name [OF h])
    have "(case cat_hist_of [] ?xs of Returns h \<Rightarrow> mode_count_final (\<lambda>_. True) 4096 h \<noteq> None | _ \<Rightarrow> False)"
      by code_simp
    then show "mode_count_final (\<lambda>_. True) 4096 h \<noteq> None" using h by simp
  qed (use n in auto)
  moreover have "serialize_bucket (\<lambda>_. True)
      (serialize_category_bucket (''a'', of_nat (count_list (names ?xs) ''a''))) (start_text [])
      = Some \<lparr>tb_size = 512, tb_bytes = map Some ''1:a:1;''\<rparr>" by code_simp
  ultimately show ?thesis using h by auto
qed

end
