(* ===== verification/TreeSummary.thy ===== *)
theory TreeSummary
  imports Summary Rollup "HOL-Library.Multiset"
begin

text \<open>
  Tree summaries in databases: \<open>querytsdb\<close> and \<open>inserttreesumdb\<close> of \<open>src/src/dbutils.c\<close>,
  \<open>bottomup_collect_treesummary\<close> of \<open>src/src/rollup.c\<close> with \<open>treesummary_ascend\<close> of
  \<open>src/src/gufi_treesummary_all.c\<close>, and the parallel collection of \<open>src/src/gufi_treesummary.c\<close>.  A
  database is modelled by the rows of \<open>summary\<close> with record type 0, as values of \<open>struct sum\<close>, the
  rows of \<open>treesummary\<close> for its own directory, and what decides about rolling up.  SQL statements on
  databases that could be opened are taken to succeed.  The SQL function \<open>TOTAL\<close> adds up floating point numbers; it
  is the parameter \<open>sql_total\<close>.
\<close>

section \<open>Rows and databases\<close>







section \<open>Bottom up\<close>

datatype CheckIsRolledUp = ISROLLEDUP_CHECK | ISROLLEDUP_DONT_CHECK | ISROLLEDUP_KNOWN_YES | ISROLLEDUP_KNOWN_NO







section \<open>In parallel\<close>




section \<open>Summaries that add up\<close>

lemma merge_commute: "merge a b = merge b a"
  by (simp add: merge_def min.commute max.commute add.commute)

lemma merge_assoc: "merge (merge a b) c = merge a (merge b c)"
  by (simp add: merge_def min.assoc max.assoc add.assoc)

lemma merge_left_commute: "merge a (merge b c) = merge b (merge a c)"
  by (metis merge_assoc merge_commute)

lemma merge_zeroit_left: "ranged s \<Longrightarrow> merge zeroit s = s"
  using merge_zeroit merge_commute by metis

lemma ranged_merge: "ranged a \<Longrightarrow> ranged b \<Longrightarrow> ranged (merge a b)"
  by (simp add: ranged_def merge_def min.coboundedI1 max.coboundedI1)


definition gather :: "sum list \<Rightarrow> sum" where
  "gather xs = fold merge xs zeroit"

lemma fold_merge: "fold merge ys (merge x s) = merge (fold merge ys s) x"
proof (induction ys arbitrary: s)
  case Nil
  show ?case by (simp add: merge_commute)
next
  case (Cons y ys)
  show ?case by (simp add: merge_left_commute [of y x] Cons)
qed

lemma gather_Nil [simp]: "gather [] = zeroit"
  by (simp add: gather_def)

lemma gather_Cons [simp]: "gather (x # xs) = merge (gather xs) x"
  by (simp add: gather_def fold_merge)

lemma ranged_gather: "list_all ranged xs \<Longrightarrow> ranged (gather xs)"
  by (induction xs) (simp_all add: ranged_zeroit ranged_merge)

lemma gather_append: "list_all ranged ys \<Longrightarrow> gather (xs @ ys) = merge (gather xs) (gather ys)"
  by (induction xs) (simp_all add: merge_zeroit_left ranged_gather merge_assoc merge_commute merge_left_commute)


lemma gather_concat: "list_all (list_all ranged) xss \<Longrightarrow> gather (concat xss) = gather (map gather xss)"
  by (induction xss) (auto simp: gather_append merge_commute list_all_iff)

text \<open>Summaries that leave the ranges and time totals alone, when \<open>tsumit\<close> takes them for files.\<close>

definition neutral :: "sum \<Rightarrow> bool" where
  "neutral d \<longleftrightarrow> (\<forall>out. ranged out \<longrightarrow> tsumit_ranges d out = out)"

definition settled :: "sum \<Rightarrow> bool" where
  "settled d \<longleftrightarrow> ranged d \<and> 0 \<le> totfiles d \<and> 0 \<le> totlinks d \<and> 0 \<le> totsize d \<and> (totfiles d = 0 \<longrightarrow> neutral d)"

lemma neutral_zeroit: "neutral zeroit"
  unfolding neutral_def by (auto simp: tsumit_ranges_def zeroit_def ranged_def)

lemma settled_zeroit: "settled zeroit"
  by (simp add: settled_def neutral_zeroit ranged_zeroit) (simp add: zeroit_def)

lemma tsumit_ranges_merge: "tsumit_ranges (merge a b) out = tsumit_ranges b (tsumit_ranges a out)"
  by (simp add: tsumit_ranges_def merge_def min.assoc max.assoc add.assoc)

lemma settled_merge: "settled a \<Longrightarrow> settled b \<Longrightarrow> settled (merge a b)"
proof -
  assume s: "settled a" "settled b"
  have "totfiles (merge a b) = totfiles a + totfiles b" "totlinks (merge a b) = totlinks a + totlinks b"
    "totsize (merge a b) = totsize a + totsize b" by (simp_all add: merge_def)
  moreover have "neutral (merge a b)" if "totfiles a = 0" "totfiles b = 0"
    using s that by (simp add: settled_def neutral_def tsumit_ranges_merge)
  ultimately show ?thesis using s by (simp add: settled_def ranged_merge)
qed



lemma settled_gather: "list_all settled xs \<Longrightarrow> settled (gather xs)"
  by (induction xs) (simp_all add: settled_zeroit settled_merge)







section \<open>What a summary stands for\<close>














text \<open>Changing the number of directories leaves the rest.\<close>

lemma settled_totsubdirs [simp]: "settled (s\<lparr>totsubdirs := n\<rparr>) = settled s"
proof -
  have "tsumit_ranges (s\<lparr>totsubdirs := n\<rparr>) out = tsumit_ranges s out" for out by (simp add: tsumit_ranges_def)
  then show ?thesis by (simp add: settled_def neutral_def) (simp add: ranged_def)
qed

lemma clear_totsubdirs [simp]: "clear_subdirs (s\<lparr>totsubdirs := n\<rparr>) = clear_subdirs s"
  by (simp add: clear_subdirs_def)






section \<open>The three ways to a tree summary\<close>


























section \<open>Properties\<close>













end
