(* ===== verification/BottomUp.thy ===== *)
theory BottomUp
  imports Prelude "HOL-Library.Multiset"
begin

text \<open>
  The walk of \<open>src/src/BottomUp.c\<close>: directories are read on the way down, and each is processed on the
  way up when all its subdirectories have been, which a reference counter per directory finds out.
  The threads of the pool run \<open>descend_to_bottom\<close> and \<open>ascend_to_top\<close> in any order; what they have to do
  is the multiset \<open>bs_acts\<close>.  The children of a directory are enqueued one by one, while the mutex of
  the counter is held.  A directory is its path below the root; \<open>bs_phase\<close> keeps book of what became of
  each and is not read by the code.
\<close>

section \<open>Directories\<close>

type_synonym path = "string list"

text \<open>A directory entry: \<open>DT_UNKNOWN\<close> has to be examined, which fails or tells whether it is a directory.\<close>

datatype d_type = DT_DIR | DT_UNKNOWN "bool option" | DT_OTHER

record bu_env =
  en_opens :: "path \<Rightarrow> bool"
  en_entries :: "path \<Rightarrow> (string \<times> d_type) list"
  en_descend :: "path \<Rightarrow> bool \<times> bool" \<comment> \<open>whether it succeeds, and \<open>keep_descending\<close>\<close>
  en_level :: nat \<comment> \<open>the level of the root\<close>
  en_min_level :: nat
  en_max_level :: nat
  en_track_non_dirs :: bool

fun is_directory :: "d_type \<Rightarrow> bool option" where
  "is_directory DT_DIR = Some True"
| "is_directory (DT_UNKNOWN st) = st"
| "is_directory DT_OTHER = Some False"

text \<open>The loop over the entries: subdirectories and others, \<open>None\<close> when one cannot be examined.\<close>

fun read_entries :: "bool \<Rightarrow> (string \<times> d_type) list \<Rightarrow> (string list \<times> string list) option" where
  "read_entries track [] = Some ([], [])"
| "read_entries track ((n, t) # es) =
     (if n = ''.'' \<or> n = ''..'' then read_entries track es
      else
        (case is_directory t of
           None \<Rightarrow> None
         | Some is_dir \<Rightarrow>
             (case read_entries track es of
                None \<Rightarrow> None
              | Some (subdirs, others) \<Rightarrow>
                  if is_dir then Some (n # subdirs, others)
                  else if track then Some (subdirs, n # others)
                  else Some (subdirs, others))))"

datatype act = Descend path | Enqueue path "string list" | Ascend path

datatype phase = Unborn | Queued | Expanding | Waiting | Ready | Finished | Unopened | Dead

record bu_state =
  bs_acts :: "act multiset"
  bs_remaining :: "path \<Rightarrow> nat"
  bs_phase :: "path \<Rightarrow> phase"
  bs_ascended :: "path list"

definition level_of :: "bu_env \<Rightarrow> path \<Rightarrow> nat" where
  "level_of env p = en_level env + length p"

definition in_levels :: "bu_env \<Rightarrow> path \<Rightarrow> bool" where
  "in_levels env p \<longleftrightarrow> en_min_level env \<le> level_of env p \<and> level_of env p \<le> en_max_level env"

text \<open>The parent is told, unless this is the root.\<close>

definition notify_parent :: "path \<Rightarrow> act multiset" where
  "notify_parent p = (if p = [] then {#} else {#Ascend (butlast p)#})"

section \<open>The two routines\<close>

definition descend_to_bottom :: "bu_env \<Rightarrow> path \<Rightarrow> bu_state \<Rightarrow> bu_state" where
  "descend_to_bottom env p s =
     (if \<not> en_opens env p then
        s\<lparr>bs_acts := bs_acts s + notify_parent p, bs_phase := (bs_phase s)(p := Unopened)\<rparr>
      else
        case read_entries (en_track_non_dirs env) (en_entries env p) of
          None \<Rightarrow> s\<lparr>bs_phase := (bs_phase s)(p := Dead)\<rparr>
        | Some (subdirs, others) \<Rightarrow>
            (case (if in_levels env p then en_descend env p else (True, True)) of
               (ok, keep_descending) \<Rightarrow>
                 if ok then
                   if keep_descending \<and> level_of env p + 1 \<le> en_max_level env \<and> subdirs \<noteq> [] then
                     s\<lparr>bs_remaining := (bs_remaining s)(p := length subdirs),
                       bs_acts := bs_acts s + {#Enqueue p subdirs#},
                       bs_phase := (bs_phase s)(p := Expanding)\<rparr>
                   else
                     s\<lparr>bs_remaining := (bs_remaining s)(p := 0),
                       bs_acts := bs_acts s + {#Ascend p#},
                       bs_phase := (bs_phase s)(p := Ready)\<rparr>
                 else s\<lparr>bs_phase := (bs_phase s)(p := Dead)\<rparr>))"

text \<open>One child of the loop under the mutex; after the last one the mutex is released.\<close>

definition enqueue_child :: "path \<Rightarrow> string list \<Rightarrow> bu_state \<Rightarrow> bu_state" where
  "enqueue_child p cs s =
     (case cs of
        [] \<Rightarrow> s\<lparr>bs_phase := (bs_phase s)(p := Waiting)\<rparr>
      | c # cs' \<Rightarrow> s\<lparr>bs_acts := bs_acts s + {#Descend (p @ [c]), Enqueue p cs'#},
                     bs_phase := (bs_phase s)(p @ [c] := Queued)\<rparr>)"

text \<open>\<open>bs_ascended\<close>: the directories processed, in order; the user's function is called within the levels.\<close>

definition ascend_to_top :: "path \<Rightarrow> bu_state \<Rightarrow> bu_state" where
  "ascend_to_top p s =
     (let remaining = (if bs_remaining s p \<noteq> 0 then bs_remaining s p - 1 else 0);
          s1 = s\<lparr>bs_remaining := (bs_remaining s)(p := remaining)\<rparr>
      in if remaining \<noteq> 0 then s1
         else s1\<lparr>bs_ascended := bs_ascended s @ [p],
                 bs_acts := bs_acts s + notify_parent p,
                 bs_phase := (bs_phase s)(p := Finished)\<rparr>)"

definition user_ascends :: "bu_env \<Rightarrow> bu_state \<Rightarrow> path list" where
  "user_ascends env s = filter (in_levels env) (bs_ascended s)"

text \<open>\<open>parallel_bottomup_enqueue\<close> of one root.\<close>

definition bu_start :: bu_state where
  "bu_start = \<lparr>bs_acts = {#Descend []#}, bs_remaining = (\<lambda>_. 0), bs_phase = (\<lambda>_. Unborn)([] := Queued),
     bs_ascended = []\<rparr>"

text \<open>Any thread takes any activity; the counter can only be changed when its mutex is not held.\<close>

definition take_act :: "act \<Rightarrow> bu_state \<Rightarrow> bu_state" where
  "take_act a s = s\<lparr>bs_acts := bs_acts s - {#a#}\<rparr>"

inductive bu_step :: "bu_env \<Rightarrow> bu_state \<Rightarrow> bu_state \<Rightarrow> bool" for env where
  descend: "Descend p \<in># bs_acts s \<Longrightarrow> bu_step env s (descend_to_bottom env p (take_act (Descend p) s))"
| enqueue: "Enqueue p cs \<in># bs_acts s \<Longrightarrow> bu_step env s (enqueue_child p cs (take_act (Enqueue p cs) s))"
| ascend: "Ascend p \<in># bs_acts s \<Longrightarrow> (\<And>cs. Enqueue p cs \<notin># bs_acts s) \<Longrightarrow>
    bu_step env s (ascend_to_top p (take_act (Ascend p) s))"

abbreviation bu_run :: "bu_env \<Rightarrow> bu_state \<Rightarrow> bu_state \<Rightarrow> bool" where
  "bu_run env \<equiv> (bu_step env)\<^sup>*\<^sup>*"

section \<open>What holds for each directory\<close>

definition subs :: "bu_env \<Rightarrow> path \<Rightarrow> string list" where
  "subs env p = (case read_entries (en_track_non_dirs env) (en_entries env p) of None \<Rightarrow> [] | Some (ds, _) \<Rightarrow> ds)"

definition enqs_of :: "act multiset \<Rightarrow> path \<Rightarrow> string list multiset" where
  "enqs_of A p = image_mset (\<lambda>a. case a of Enqueue q cs \<Rightarrow> cs | _ \<Rightarrow> [])
     (filter_mset (\<lambda>a. \<exists>cs. a = Enqueue p cs) A)"

abbreviation enqs :: "bu_state \<Rightarrow> path \<Rightarrow> string list multiset" where
  "enqs s p \<equiv> enqs_of (bs_acts s) p"

abbreviation queued :: "bu_state \<Rightarrow> path \<Rightarrow> nat" where
  "queued s p \<equiv> count (bs_acts s) (Descend p)"

abbreviation tokens :: "bu_state \<Rightarrow> path \<Rightarrow> nat" where
  "tokens s p \<equiv> count (bs_acts s) (Ascend p)"

abbreviation over :: "phase \<Rightarrow> bool" where
  "over ph \<equiv> ph = Finished \<or> ph = Unopened"

definition unfinished :: "bu_env \<Rightarrow> bu_state \<Rightarrow> path \<Rightarrow> nat" where
  "unfinished env s p = length (filter (\<lambda>x. \<not> over (bs_phase s (p @ [x]))) (subs env p))"

definition no_kids :: "bu_state \<Rightarrow> path \<Rightarrow> bool" where
  "no_kids s p \<longleftrightarrow> (\<forall>x. bs_phase s (p @ [x]) = Unborn)"

definition quiet :: "bu_state \<Rightarrow> path \<Rightarrow> bool" where
  "quiet s p \<longleftrightarrow> queued s p = 0 \<and> enqs s p = {#} \<and> tokens s p = 0"

definition expanded :: "bu_env \<Rightarrow> bu_state \<Rightarrow> path \<Rightarrow> bool" where
  "expanded env s p \<longleftrightarrow> queued s p = 0 \<and> tokens s p + unfinished env s p = bs_remaining s p \<and> subs env p \<noteq> []
     \<and> (\<forall>x. bs_phase s (p @ [x]) \<noteq> Unborn \<longrightarrow> x \<in> set (subs env p))"

definition node_ok :: "bu_env \<Rightarrow> bu_state \<Rightarrow> path \<Rightarrow> bool" where
  "node_ok env s p =
     (case bs_phase s p of
        Unborn \<Rightarrow> quiet s p \<and> no_kids s p
      | Queued \<Rightarrow> queued s p = 1 \<and> enqs s p = {#} \<and> tokens s p = 0 \<and> no_kids s p
      | Expanding \<Rightarrow> expanded env s p \<and> (\<exists>ds cs. enqs s p = {#cs#} \<and> subs env p = ds @ cs
          \<and> (\<forall>x \<in> set ds. bs_phase s (p @ [x]) \<noteq> Unborn) \<and> (\<forall>x \<in> set cs. bs_phase s (p @ [x]) = Unborn))
          \<and> 0 < bs_remaining s p
      | Waiting \<Rightarrow> expanded env s p \<and> enqs s p = {#} \<and> (\<forall>x \<in> set (subs env p). bs_phase s (p @ [x]) \<noteq> Unborn)
          \<and> 0 < bs_remaining s p
      | Ready \<Rightarrow> queued s p = 0 \<and> enqs s p = {#} \<and> tokens s p = 1 \<and> bs_remaining s p = 0 \<and> no_kids s p
      | Finished \<Rightarrow> quiet s p \<and> (no_kids s p \<or> (\<forall>x. if x \<in> set (subs env p) then over (bs_phase s (p @ [x]))
          else bs_phase s (p @ [x]) = Unborn))
      | _ \<Rightarrow> quiet s p \<and> no_kids s p)"

lemma enqs_of_simps [simp]:
  "enqs_of {#} q = {#}"
  "enqs_of (add_mset (Enqueue p cs) A) q = (if p = q then add_mset cs (enqs_of A q) else enqs_of A q)"
  "enqs_of (add_mset (Descend p) A) q = enqs_of A q"
  "enqs_of (add_mset (Ascend p) A) q = enqs_of A q"
  "enqs_of (A + B) q = enqs_of A q + enqs_of B q"
  by (auto simp: enqs_of_def)

lemma enqs_of_empty: "enqs_of A p = {#} \<longleftrightarrow> (\<forall>cs. Enqueue p cs \<notin># A)"
  by (induction A) (auto simp: enqs_of_def)

lemma notify_parent_simps [simp]:
  "enqs_of (notify_parent p) q = {#}"
  "count (notify_parent p) (Descend q) = 0"
  "count (notify_parent p) (Ascend q) = (if p \<noteq> [] \<and> butlast p = q then 1 else 0)"
  by (auto simp: notify_parent_def)

text \<open>What is said of a directory rests on its own account and on the phases of its subdirectories.\<close>

lemma node_ok_frame:
  assumes "node_ok env s q" "bs_phase s' q = bs_phase s q" "bs_remaining s' q = bs_remaining s q"
    "queued s' q = queued s q" "tokens s' q = tokens s q" "enqs s' q = enqs s q"
    "\<And>x. bs_phase s' (q @ [x]) = bs_phase s (q @ [x])"
  shows "node_ok env s' q"
  using assms unfolding node_ok_def expanded_def quiet_def no_kids_def unfinished_def
  by (simp only: )

lemma butlast_other [simp]: "butlast p = p \<longleftrightarrow> p = []"
  by (cases p rule: rev_cases) auto

lemma child_iff: "q @ [x] = p \<longleftrightarrow> p \<noteq> [] \<and> q = butlast p \<and> x = last p"
  by auto

text \<open>A directory on its way has a parent that waits for it.\<close>

definition under_way :: "phase \<Rightarrow> bool" where
  "under_way ph \<longleftrightarrow> ph = Queued \<or> ph = Expanding \<or> ph = Waiting \<or> ph = Ready \<or> ph = Dead"

lemma parent_waits:
  assumes "node_ok env s q" "under_way (bs_phase s (q @ [x]))"
  shows "bs_phase s q = Expanding \<or> bs_phase s q = Waiting" "x \<in> set (subs env q)"
proof -
  show "bs_phase s q = Expanding \<or> bs_phase s q = Waiting"
    using assms by (cases "bs_phase s q")
      (auto simp: node_ok_def no_kids_def under_way_def split: if_splits dest!: spec[where x = x])
  then show "x \<in> set (subs env q)"
    using assms by (auto simp: node_ok_def expanded_def under_way_def)
qed

lemma filter_one_less:
  assumes "distinct xs" "x \<in> set xs" "P x" "\<not> Q x" "\<And>y. y \<noteq> x \<Longrightarrow> P y = Q y"
  shows "length (filter P xs) = Suc (length (filter Q xs))"
  using assms
proof (induction xs)
  case (Cons y ys)
  show ?case
  proof (cases "y = x")
    case True
    then have "filter P ys = filter Q ys"
      using Cons.prems by (intro filter_cong) (auto, metis+)
    then show ?thesis using True Cons.prems by simp
  next
    case False
    then show ?thesis using Cons by auto
  qed
qed simp

lemma parent_child_moves:
  assumes ok: "node_ok env s q" and w: "under_way (bs_phase s (q @ [x]))"
    and ph: "bs_phase s' = (bs_phase s)(q @ [x] := ph')" "under_way ph'"
    and eq: "bs_remaining s' q = bs_remaining s q" "queued s' q = queued s q" "tokens s' q = tokens s q"
      "enqs s' q = enqs s q"
  shows "node_ok env s' q"
proof -
  have [simp]: "bs_phase s' q = bs_phase s q"
    by (simp add: ph)
  have u: "unfinished env s' q = unfinished env s q"
    unfolding unfinished_def ph using w ph(2) by (intro arg_cong[where f = length] filter_cong) (auto simp: under_way_def)
  have nu: "bs_phase s' (q @ [y]) \<noteq> Unborn \<longleftrightarrow> bs_phase s (q @ [y]) \<noteq> Unborn" for y
    using w ph by (auto simp: under_way_def)
  have ex: "expanded env s' q = expanded env s q"
    unfolding expanded_def u eq nu by simp
  show ?thesis
    using parent_waits(1) [OF ok w] ok nu by (auto simp: node_ok_def ex eq)
qed

lemma parent_child_over:
  assumes ok: "node_ok env s q" and w: "under_way (bs_phase s (q @ [x]))" and d: "distinct (subs env q)"
    and ph: "bs_phase s' = (bs_phase s)(q @ [x] := ph')" "over ph'"
    and eq: "bs_remaining s' q = bs_remaining s q" "queued s' q = queued s q" "tokens s' q = Suc (tokens s q)"
      "enqs s' q = enqs s q"
  shows "node_ok env s' q"
proof -
  have [simp]: "bs_phase s' q = bs_phase s q"
    by (simp add: ph)
  have u: "unfinished env s q = Suc (unfinished env s' q)"
    unfolding unfinished_def ph using w ph(2) parent_waits(2) [OF ok w]
    by (intro filter_one_less [where x = x] d) (auto simp: under_way_def)
  have nu: "bs_phase s' (q @ [y]) \<noteq> Unborn \<longleftrightarrow> bs_phase s (q @ [y]) \<noteq> Unborn" for y
    using w ph by (auto simp: under_way_def)
  have ex: "expanded env s' q = expanded env s q"
    unfolding expanded_def u eq nu by simp
  show ?thesis
    using parent_waits(1) [OF ok w] ok nu by (auto simp: node_ok_def ex eq)
qed

section \<open>The steps keep the accounts\<close>

definition all_ok :: "bu_env \<Rightarrow> bu_state \<Rightarrow> bool" where
  "all_ok env s \<longleftrightarrow> (\<forall>q. node_ok env s q)"

abbreviation distinct_subs :: "bu_env \<Rightarrow> bool" where
  "distinct_subs env \<equiv> (\<forall>p. distinct (subs env p))"

lemma all_ok_start: "all_ok env bu_start"
  by (auto simp: all_ok_def node_ok_def bu_start_def quiet_def no_kids_def)

text \<open>A step that ends the way of \<open>p\<close> and tells its parent; and one after which \<open>p\<close> is still on its way.\<close>

lemma all_ok_over:
  assumes ok: "all_ok env s" and d: "distinct_subs env" and w: "under_way (bs_phase s p)"
    and ph: "bs_phase s' = (bs_phase s)(p := ph')" "over ph'"
    and rem: "\<And>q. q \<noteq> p \<Longrightarrow> bs_remaining s' q = bs_remaining s q"
    and q: "\<And>q. q \<noteq> p \<Longrightarrow> queued s' q = queued s q"
    and t: "\<And>q. q \<noteq> p \<Longrightarrow> tokens s' q = tokens s q + count (notify_parent p) (Ascend q)"
    and e: "\<And>q. q \<noteq> p \<Longrightarrow> enqs s' q = enqs s q"
    and p: "node_ok env s' p"
  shows "all_ok env s'"
  unfolding all_ok_def
proof (intro allI)
  fix r
  have r: "node_ok env s r"
    using ok by (simp add: all_ok_def)
  show "node_ok env s' r"
  proof (cases "r = p \<or> p = [] \<or> r \<noteq> butlast p")
    case True
    then show ?thesis
      using p by (cases "r = p") (auto simp: rem q t e ph child_iff intro!: node_ok_frame [OF r])
  next
    case False
    then have p': "p = r @ [last p]" by simp
    show ?thesis
      by (rule parent_child_over [OF r, of "last p" s' ph'])
        (use False w d ph in \<open>auto simp: rem q t e simp flip: p'\<close>)
  qed
qed

lemma all_ok_moves:
  assumes ok: "all_ok env s" and w: "under_way (bs_phase s p)"
    and ph: "bs_phase s' = (bs_phase s)(p := ph')" "under_way ph'"
    and rem: "\<And>q. q \<noteq> p \<Longrightarrow> bs_remaining s' q = bs_remaining s q"
    and q: "\<And>q. q \<noteq> p \<Longrightarrow> queued s' q = queued s q"
    and t: "\<And>q. q \<noteq> p \<Longrightarrow> tokens s' q = tokens s q"
    and e: "\<And>q. q \<noteq> p \<Longrightarrow> enqs s' q = enqs s q"
    and p: "node_ok env s' p"
  shows "all_ok env s'"
  unfolding all_ok_def
proof (intro allI)
  fix r
  have r: "node_ok env s r"
    using ok by (simp add: all_ok_def)
  show "node_ok env s' r"
  proof (cases "r = p \<or> p = [] \<or> r \<noteq> butlast p")
    case True
    then show ?thesis
      using p by (cases "r = p") (auto simp: rem q t e ph child_iff intro!: node_ok_frame [OF r])
  next
    case False
    then have p': "p = r @ [last p]" by simp
    show ?thesis
      by (rule parent_child_moves [OF r, of "last p" s' ph'])
        (use False w ph in \<open>auto simp: rem q t e simp flip: p'\<close>)
  qed
qed

text \<open>What is queued, enqueued from or told tells the phase.\<close>

lemma phase_queued: "node_ok env s p \<Longrightarrow> Descend p \<in># bs_acts s \<Longrightarrow> bs_phase s p = Queued"
  by (cases "bs_phase s p") (auto simp: node_ok_def quiet_def expanded_def count_eq_zero_iff)

lemma phase_enqueuing: "node_ok env s p \<Longrightarrow> Enqueue p cs \<in># bs_acts s \<Longrightarrow> bs_phase s p = Expanding"
  by (cases "bs_phase s p") (auto simp: node_ok_def quiet_def enqs_of_empty)

lemma phase_told:
  "node_ok env s p \<Longrightarrow> Ascend p \<in># bs_acts s \<Longrightarrow> (\<And>cs. Enqueue p cs \<notin># bs_acts s) \<Longrightarrow>
    bs_phase s p = Waiting \<or> bs_phase s p = Ready"
  using enqs_of_empty [of "bs_acts s" p]
  by (cases "bs_phase s p") (auto simp: node_ok_def quiet_def count_eq_zero_iff)

lemma all_ok_descend:
  assumes ok: "all_ok env s" and d: "distinct_subs env" and a: "Descend p \<in># bs_acts s"
  shows "all_ok env (descend_to_bottom env p (take_act (Descend p) s))"
proof -
  obtain A where A: "bs_acts s = add_mset (Descend p) A"
    using a by (metis multi_member_split)
  have n: "node_ok env s p"
    using ok by (simp add: all_ok_def)
  note q = phase_queued [OF n a]
  then have w: "under_way (bs_phase s p)" by (simp add: under_way_def)
  from n q A have z: "count A (Descend p) = 0" "enqs_of A p = {#}" "count A (Ascend p) = 0" "no_kids s p"
    by (auto simp: node_ok_def)
  show ?thesis
  proof (cases "en_opens env p")
    case False
    then show ?thesis
      by (intro all_ok_over [OF ok d w, where ph' = Unopened])
        (use z in \<open>auto simp: descend_to_bottom_def take_act_def A node_ok_def quiet_def no_kids_def\<close>)
  next
    case opens: True
    have dead: "all_ok env (take_act (Descend p) s\<lparr>bs_phase := (bs_phase s)(p := Dead)\<rparr>)"
      by (intro all_ok_moves [OF ok w, where ph' = Dead])
        (use z in \<open>auto simp: take_act_def A node_ok_def quiet_def no_kids_def under_way_def\<close>)
    have ready: "all_ok env (s\<lparr>bs_remaining := (bs_remaining s)(p := 0), bs_acts := add_mset (Ascend p) A,
        bs_phase := (bs_phase s)(p := Ready)\<rparr>)"
      by (intro all_ok_moves [OF ok w, where ph' = Ready])
        (use z in \<open>auto simp: node_ok_def A quiet_def no_kids_def under_way_def\<close>)
    have expands: "all_ok env (s\<lparr>bs_remaining := (bs_remaining s)(p := length ds),
        bs_acts := add_mset (Enqueue p ds) A, bs_phase := (bs_phase s)(p := Expanding)\<rparr>)"
      if "ds = subs env p" "ds \<noteq> []" for ds
      by (intro all_ok_moves [OF ok w, where ph' = Expanding])
        (use z that in \<open>auto simp: node_ok_def A expanded_def unfinished_def no_kids_def under_way_def\<close>)
    show ?thesis
      using opens dead ready expands
      by (auto simp: descend_to_bottom_def take_act_def A subs_def split: option.splits prod.splits)
  qed
qed

lemma all_ok_enqueue:
  assumes ok: "all_ok env s" and a: "Enqueue p cs \<in># bs_acts s" and d: "distinct_subs env"
  shows "all_ok env (enqueue_child p cs (take_act (Enqueue p cs) s))"
proof -
  obtain A where A: "bs_acts s = add_mset (Enqueue p cs) A"
    using a by (metis multi_member_split)
  have n: "node_ok env s p"
    using ok by (simp add: all_ok_def)
  note q = phase_enqueuing [OF n a]
  then have w: "under_way (bs_phase s p)" by (simp add: under_way_def)
  from n q A obtain ds where z: "enqs_of A p = {#}" "subs env p = ds @ cs"
    "\<forall>x\<in>set ds. bs_phase s (p @ [x]) \<noteq> Unborn" "\<forall>x\<in>set cs. bs_phase s (p @ [x]) = Unborn"
    "0 < bs_remaining s p" and ex: "expanded env s p"
    by (auto simp: node_ok_def)
  show ?thesis
  proof (cases cs)
    case Nil
    have "expanded env (s\<lparr>bs_acts := A, bs_phase := (bs_phase s)(p := Waiting)\<rparr>) p"
      using ex by (simp add: expanded_def unfinished_def A)
    then show ?thesis
      unfolding Nil enqueue_child_def
      by (intro all_ok_moves [OF ok w, where ph' = Waiting])
        (use z Nil in \<open>auto simp: take_act_def A node_ok_def under_way_def\<close>)
  next
    case (Cons c cs')
    have new: "bs_phase s (p @ [c]) = Unborn" "c \<notin> set ds" "c \<notin> set cs'"
      using z d [THEN spec [of _ p]] by (auto simp: Cons)
    let ?s = "s\<lparr>bs_acts := add_mset (Enqueue p cs') (add_mset (Descend (p @ [c])) A),
      bs_phase := (bs_phase s)(p @ [c] := Queued)\<rparr>"
    have nc: "node_ok env s r" for r
      using ok by (simp add: all_ok_def)
    have "node_ok env ?s r" for r
    proof (cases "r = p")
      case True
      have "unfinished env ?s p = unfinished env s p"
        unfolding unfinished_def using new by (intro arg_cong[where f = length] filter_cong) auto
      then have "expanded env ?s p"
        using ex by (auto simp: expanded_def A Cons z)
      moreover have "enqs ?s p = {#cs'#}" "subs env p = (ds @ [c]) @ cs'"
        using z by (auto simp: Cons)
      moreover have "\<forall>x\<in>set (ds @ [c]). bs_phase ?s (p @ [x]) \<noteq> Unborn" "\<forall>x\<in>set cs'. bs_phase ?s (p @ [x]) = Unborn"
        using z new by (auto simp: Cons)
      ultimately show ?thesis
        using q z(5) unfolding True node_ok_def by (simp only: phase.case) auto
    next
      case np: False
      show ?thesis
      proof (cases "r = p @ [c]")
        case True
        with nc [of r] new show ?thesis
          by (auto simp: node_ok_def A quiet_def no_kids_def Cons split: if_splits)
      next
        case False
        then show ?thesis
          using np by (intro node_ok_frame [OF nc]) (auto simp: A)
      qed
    qed
    then show ?thesis
      by (auto simp: all_ok_def enqueue_child_def take_act_def A Cons add_mset_commute)
  qed
qed

lemma all_ok_ascend:
  assumes ok: "all_ok env s" and a: "Ascend p \<in># bs_acts s" and f: "\<And>cs. Enqueue p cs \<notin># bs_acts s"
    and d: "distinct_subs env"
  shows "all_ok env (ascend_to_top p (take_act (Ascend p) s))"
proof -
  obtain A where A: "bs_acts s = add_mset (Ascend p) A"
    using a by (metis multi_member_split)
  have n: "node_ok env s p"
    using ok by (simp add: all_ok_def)
  note q = phase_told [OF n a f]
  then have w: "under_way (bs_phase s p)" by (auto simp: under_way_def)
  show ?thesis
  proof (cases "bs_remaining s p \<le> 1")
    case True
    have "node_ok env (ascend_to_top p (take_act (Ascend p) s)) p"
    proof (cases "bs_phase s p = Ready")
      case True
      with n show ?thesis
        by (auto simp: node_ok_def ascend_to_top_def take_act_def A quiet_def no_kids_def)
    next
      case False
      with q n have z: "expanded env s p" "\<forall>x\<in>set (subs env p). bs_phase s (p @ [x]) \<noteq> Unborn"
        "enqs_of A p = {#}" "0 < bs_remaining s p"
        by (auto simp: node_ok_def A)
      with True have r: "bs_remaining s p = 1" by simp
      with z(1) have u: "unfinished env s p = 0" "count A (Ascend p) = 0" "count A (Descend p) = 0"
        "\<And>x. bs_phase s (p @ [x]) \<noteq> Unborn \<Longrightarrow> x \<in> set (subs env p)"
        by (auto simp: expanded_def A)
      from u(1) have "\<forall>x\<in>set (subs env p). over (bs_phase s (p @ [x]))"
        by (auto simp: unfinished_def filter_empty_conv)
      with u z(3) r show ?thesis
        by (auto simp: node_ok_def ascend_to_top_def take_act_def A quiet_def)
    qed
    then show ?thesis
      by (intro all_ok_over [OF ok d w, where ph' = Finished])
        (use True in \<open>auto simp: ascend_to_top_def take_act_def A Let_def\<close>)
  next
    case False
    with q n have ph: "bs_phase s p = Waiting" by (auto simp: node_ok_def)
    have "node_ok env (ascend_to_top p (take_act (Ascend p) s)) p"
      using n ph False by (auto simp: node_ok_def expanded_def unfinished_def ascend_to_top_def take_act_def A)
    then show ?thesis
      by (intro all_ok_moves [OF ok w, where ph' = Waiting])
        (use False ph in \<open>auto simp: ascend_to_top_def take_act_def A Let_def under_way_def\<close>)
  qed
qed

lemma all_ok_step:
  assumes "bu_step env s s'" "all_ok env s" "distinct_subs env"
  shows "all_ok env s'"
  using assms(1)
proof cases
  case (descend p)
  then show ?thesis using all_ok_descend [OF assms(2,3)] by simp
next
  case (enqueue p cs)
  then show ?thesis using all_ok_enqueue [OF assms(2) _ assms(3)] by simp
next
  case (ascend p)
  then show ?thesis using all_ok_ascend [OF assms(2) _ _ assms(3)] by simp
qed

lemma all_ok_run:
  assumes "bu_run env bu_start s" "distinct_subs env"
  shows "all_ok env s"
  using assms(1) by (induction rule: rtranclp_induct) (use assms(2) in \<open>auto intro: all_ok_start dest: all_ok_step\<close>)

end
