(* ===== verification/BottomUpProps.thy ===== *)
theory BottomUpProps
  imports BottomUp
begin

text \<open>
  What the walk of \<open>src/src/BottomUp.c\<close> promises, whatever the threads do first: a directory is processed
  after everything below it and only once; the walk ends; then every directory it can reach and open
  has been processed, and no other; and a directory whose subdirectory was dropped on the way down never is.
\<close>

section \<open>What the walk reaches\<close>

definition descend_result :: "bu_env \<Rightarrow> path \<Rightarrow> bool \<times> bool" where
  "descend_result env p = (if in_levels env p then en_descend env p else (True, True))"

text \<open>A directory is dropped when an entry cannot be examined or the user's function fails.\<close>

definition drops :: "bu_env \<Rightarrow> path \<Rightarrow> bool" where
  "drops env p \<longleftrightarrow> en_opens env p \<and>
     (read_entries (en_track_non_dirs env) (en_entries env p) = None \<or> \<not> fst (descend_result env p))"

definition expands :: "bu_env \<Rightarrow> path \<Rightarrow> bool" where
  "expands env p \<longleftrightarrow> en_opens env p \<and> \<not> drops env p \<and> snd (descend_result env p)
     \<and> level_of env p + 1 \<le> en_max_level env \<and> subs env p \<noteq> []"

inductive reached :: "bu_env \<Rightarrow> path \<Rightarrow> bool" for env where
  root: "reached env []"
| subdir: "reached env p \<Longrightarrow> expands env p \<Longrightarrow> c \<in> set (subs env p) \<Longrightarrow> reached env (p @ [c])"

definition distinct_names :: "bu_env \<Rightarrow> bool" where
  "distinct_names env \<longleftrightarrow> (\<forall>p. distinct (map fst (en_entries env p)))"

lemma read_entries_subdirs:
  "read_entries track es = Some (ds, others) \<Longrightarrow>
    ds = map fst (filter (\<lambda>(n, t). n \<noteq> ''.'' \<and> n \<noteq> ''..'' \<and> is_directory t = Some True) es)"
proof (induction es arbitrary: ds others)
  case (Cons e es)
  obtain n t where "e = (n, t)" by fastforce
  then show ?case
    using Cons by (auto split: if_splits option.splits prod.splits)
qed simp

lemma read_entries_distinct:
  "read_entries track es = Some (ds, others) \<Longrightarrow> distinct (map fst es) \<Longrightarrow> distinct ds"
  by (auto dest!: read_entries_subdirs intro: distinct_map_filter)

lemma distinct_names_subs: "distinct_names env \<Longrightarrow> distinct_subs env"
  by (auto simp: distinct_names_def subs_def split: option.splits prod.splits dest: read_entries_distinct)

section \<open>Directories below a finished one\<close>

definition settled :: "bu_state \<Rightarrow> path \<Rightarrow> bool" where
  "settled s p \<longleftrightarrow> \<not> under_way (bs_phase s p)"

lemma settled_cases: "settled s p \<longleftrightarrow> bs_phase s p = Unborn \<or> over (bs_phase s p)"
  by (cases "bs_phase s p") (auto simp: settled_def under_way_def)

lemma below_unborn:
  assumes "all_ok env s" "bs_phase s p = Unborn"
  shows "bs_phase s (p @ r) = Unborn"
  using assms(2)
proof (induction r arbitrary: p)
  case (Cons c r)
  have "node_ok env s p"
    using assms(1) by (simp add: all_ok_def)
  with Cons.prems have "bs_phase s (p @ [c]) = Unborn"
    by (simp add: node_ok_def no_kids_def)
  then show ?case
    using Cons.IH [of "p @ [c]"] by simp
qed simp

lemma child_of_over:
  assumes "all_ok env s" "over (bs_phase s p)"
  shows "bs_phase s (p @ [c]) = Unborn \<or> over (bs_phase s (p @ [c]))"
proof -
  have "node_ok env s p"
    using assms(1) by (simp add: all_ok_def)
  then show ?thesis
    using assms(2) by (auto simp: node_ok_def no_kids_def split: if_splits dest!: spec [of _ c])
qed

lemma below_over:
  assumes "all_ok env s" "over (bs_phase s p)"
  shows "settled s (p @ r)"
  using assms(2)
proof (induction r arbitrary: p)
  case Nil
  then show ?case by (simp add: settled_cases)
next
  case (Cons c r)
  from child_of_over [OF assms(1) Cons.prems, of c] show ?case
  proof
    assume "bs_phase s (p @ [c]) = Unborn"
    from below_unborn [OF assms(1) this, of r] show ?thesis
      by (simp add: settled_cases)
  next
    assume "over (bs_phase s (p @ [c]))"
    from Cons.IH [OF this] show ?thesis by simp
  qed
qed

section \<open>The order of processing\<close>

definition order_ok :: "bu_state \<Rightarrow> bool" where
  "order_ok s \<longleftrightarrow> set (bs_ascended s) = {p. bs_phase s p = Finished}
     \<and> (\<forall>i j r. i < length (bs_ascended s) \<longrightarrow> j < length (bs_ascended s)
          \<longrightarrow> bs_ascended s ! j = bs_ascended s ! i @ r \<longrightarrow> j \<le> i)"

lemma order_ok_same:
  assumes "order_ok s" "bs_ascended s' = bs_ascended s"
    "\<And>q. (bs_phase s' q = Finished) = (bs_phase s q = Finished)"
  shows "order_ok s'"
  using assms by (simp add: order_ok_def)

lemma order_ok_append:
  assumes ok: "order_ok s" and all: "all_ok env s" and w: "under_way (bs_phase s p)"
    and s': "bs_ascended s' = bs_ascended s @ [p]" "bs_phase s' = (bs_phase s)(p := Finished)"
  shows "order_ok s'"
proof -
  have fin: "bs_phase s (bs_ascended s ! i) = Finished" if "i < length (bs_ascended s)" for i
    using ok that nth_mem unfolding order_ok_def by blast
  have above: "p \<noteq> bs_ascended s ! i @ r" if "i < length (bs_ascended s)" for i r
  proof
    assume p: "p = bs_ascended s ! i @ r"
    have "settled s (bs_ascended s ! i @ r)"
      using fin [OF that] by (intro below_over [OF all]) simp
    with w p show False by (simp add: settled_def)
  qed
  have "set (bs_ascended s') = {q. bs_phase s' q = Finished}"
    using ok by (auto simp: s' order_ok_def)
  moreover have "j \<le> i" if "i < length (bs_ascended s')" "j < length (bs_ascended s')"
    "bs_ascended s' ! j = bs_ascended s' ! i @ r" for i j r
  proof (cases "i < length (bs_ascended s) \<and> j < length (bs_ascended s)")
    case True
    with that ok show ?thesis
      by (auto simp: s' nth_append order_ok_def)
  next
    case False
    with that above [of i r] show ?thesis
      by (cases "i = length (bs_ascended s)") (auto simp: s' nth_append)
  qed
  ultimately show ?thesis
    unfolding order_ok_def by blast
qed

lemma descend_ascended [simp]: "bs_ascended (descend_to_bottom env p s) = bs_ascended s"
  by (auto simp: descend_to_bottom_def split: option.splits prod.splits)

lemma descend_phase:
  "\<exists>ph. bs_phase (descend_to_bottom env p s) = (bs_phase s)(p := ph) \<and> ph \<noteq> Finished"
  by (auto simp: descend_to_bottom_def split: option.splits prod.splits)

lemma enqueue_ascended [simp]: "bs_ascended (enqueue_child p cs s) = bs_ascended s"
  by (auto simp: enqueue_child_def split: list.splits)

lemma take_act_simps [simp]:
  "bs_phase (take_act a s) = bs_phase s" "bs_ascended (take_act a s) = bs_ascended s"
  "bs_remaining (take_act a s) = bs_remaining s"
  by (simp_all add: take_act_def)

lemma enqueued_child_new:
  assumes ok: "all_ok env s" and d: "distinct_subs env" and a: "Enqueue p (c # cs) \<in># bs_acts s"
  shows "bs_phase s (p @ [c]) = Unborn" "c \<in> set (subs env p)"
proof -
  have n: "node_ok env s p"
    using ok by (simp add: all_ok_def)
  obtain A where A: "bs_acts s = add_mset (Enqueue p (c # cs)) A"
    using a by (metis multi_member_split)
  have "bs_phase s (p @ [c]) = Unborn \<and> c \<in> set (subs env p)"
    using n phase_enqueuing [OF n a] by (auto simp: node_ok_def A)
  then show "bs_phase s (p @ [c]) = Unborn" "c \<in> set (subs env p)"
    by auto
qed

lemma order_ok_step:
  assumes "bu_step env s s'" "order_ok s" "all_ok env s" "distinct_subs env"
  shows "order_ok s'"
  using assms(1)
proof cases
  case (descend p)
  have q: "bs_phase s p = Queued"
    using assms(3) descend by (auto simp: all_ok_def intro: phase_queued)
  show ?thesis
    using descend_phase [of env p "take_act (Descend p) s"] q
    by (intro order_ok_same [OF assms(2)]) (auto simp: descend split: if_splits)
next
  case (enqueue p cs)
  have q: "bs_phase s p = Expanding"
    using assms(3) enqueue by (auto simp: all_ok_def intro: phase_enqueuing)
  show ?thesis
    using q enqueued_child_new(1) [OF assms(3,4)] enqueue
    by (intro order_ok_same [OF assms(2)]) (auto simp: enqueue_child_def split: list.splits)
next
  case (ascend p)
  have "bs_phase s p = Waiting \<or> bs_phase s p = Ready"
    using assms(3) ascend phase_told [of env s p] by (simp add: all_ok_def)
  then have w: "under_way (bs_phase s p)" by (auto simp: under_way_def)
  show ?thesis
  proof (cases "bs_remaining s p \<le> 1")
    case True
    then show ?thesis
      by (intro order_ok_append [OF assms(2,3) w]) (auto simp: ascend ascend_to_top_def Let_def)
  next
    case False
    then show ?thesis
      by (intro order_ok_same [OF assms(2)]) (auto simp: ascend ascend_to_top_def Let_def)
  qed
qed

lemma order_ok_run:
  assumes "bu_run env bu_start s" "distinct_subs env"
  shows "order_ok s"
  using assms(1)
proof (induction rule: rtranclp_induct)
  case base
  then show ?case by (auto simp: order_ok_def bu_start_def)
next
  case (step s s')
  then show ?case
    using order_ok_step all_ok_run assms(2) by blast
qed

section \<open>The end of the walk\<close>

text \<open>What the phase of a directory says of the directory itself.\<close>

definition node_sound :: "bu_env \<Rightarrow> bu_state \<Rightarrow> path \<Rightarrow> bool" where
  "node_sound env s p = (bs_phase s p = Unborn \<or> reached env p \<and>
     (case bs_phase s p of
        Unborn \<Rightarrow> True
      | Queued \<Rightarrow> True
      | Expanding \<Rightarrow> expands env p
      | Waiting \<Rightarrow> expands env p
      | Ready \<Rightarrow> en_opens env p \<and> \<not> drops env p \<and> \<not> expands env p
      | Finished \<Rightarrow> en_opens env p \<and> \<not> drops env p
          \<and> (expands env p \<longrightarrow> (\<forall>c \<in> set (subs env p). over (bs_phase s (p @ [c]))))
      | Unopened \<Rightarrow> \<not> en_opens env p
      | Dead \<Rightarrow> drops env p))"

definition all_sound :: "bu_env \<Rightarrow> bu_state \<Rightarrow> bool" where
  "all_sound env s \<longleftrightarrow> bs_phase s [] \<noteq> Unborn \<and> (\<forall>p. node_sound env s p)"

lemma all_sound_update:
  assumes sound: "all_sound env s" and no: "\<not> over (bs_phase s p)"
    and ph: "bs_phase s' = (bs_phase s)(p := ph)" "ph \<noteq> Unborn" and p: "node_sound env s' p"
  shows "all_sound env s'"
proof -
  have "node_sound env s' q" for q
  proof (cases "q = p")
    case False
    have "node_sound env s q"
      using sound by (simp add: all_sound_def)
    then show ?thesis
      using False no unfolding node_sound_def ph by (cases "bs_phase s q") auto
  qed (use p in simp)
  then show ?thesis
    using sound ph by (auto simp: all_sound_def)
qed

lemma descend_sound:
  assumes "node_sound env s p" "bs_phase s p = Queued"
  shows "\<exists>ph. bs_phase (descend_to_bottom env p (take_act a s)) = (bs_phase s)(p := ph) \<and> ph \<noteq> Unborn
    \<and> node_sound env (descend_to_bottom env p (take_act a s)) p"
proof (cases "en_opens env p")
  case False
  then show ?thesis
    using assms by (auto simp: descend_to_bottom_def node_sound_def)
next
  case opens: True
  show ?thesis
  proof (cases "read_entries (en_track_non_dirs env) (en_entries env p)")
    case None
    then show ?thesis
      using assms opens by (auto simp: descend_to_bottom_def node_sound_def drops_def)
  next
    case (Some r)
    obtain ds others ok keep where r: "r = (ds, others)" and k: "descend_result env p = (ok, keep)"
      by (metis surj_pair)
    then have "subs env p = ds"
      using Some by (simp add: subs_def)
    then show ?thesis
      using assms opens Some r k
      by (auto simp: descend_to_bottom_def node_sound_def drops_def expands_def descend_result_def split: if_splits)
  qed
qed

lemma all_sound_step:
  assumes "bu_step env s s'" "all_sound env s" "all_ok env s" "distinct_subs env"
  shows "all_sound env s'"
  using assms(1)
proof cases
  case (descend p)
  have q: "bs_phase s p = Queued"
    using assms(3) descend phase_queued [of env s p] by (simp add: all_ok_def)
  have "node_sound env s p"
    using assms(2) by (simp add: all_sound_def)
  from descend_sound [OF this q, of "Descend p"] show ?thesis
    using q all_sound_update [OF assms(2), of p] unfolding descend(1) by auto
next
  case (enqueue p cs)
  have q: "bs_phase s p = Expanding"
    using assms(3) enqueue phase_enqueuing [of env s p] by (simp add: all_ok_def)
  have n: "node_sound env s p"
    using assms(2) by (simp add: all_sound_def)
  show ?thesis
  proof (cases cs)
    case Nil
    show ?thesis
      by (rule all_sound_update [OF assms(2), of p _ Waiting])
        (use q n in \<open>auto simp: enqueue Nil enqueue_child_def node_sound_def\<close>)
  next
    case (Cons c cs')
    have new: "bs_phase s (p @ [c]) = Unborn" "c \<in> set (subs env p)"
      using enqueued_child_new [OF assms(3,4)] enqueue(2) Cons by auto
    then have "reached env (p @ [c])"
      using n q by (auto simp: node_sound_def intro: reached.subdir)
    then show ?thesis
      by (intro all_sound_update [OF assms(2), of "p @ [c]" _ Queued])
        (use new in \<open>auto simp: enqueue Cons enqueue_child_def node_sound_def\<close>)
  qed
next
  case (ascend p)
  have q: "bs_phase s p = Waiting \<or> bs_phase s p = Ready"
    using assms(3) ascend phase_told [of env s p] by (simp add: all_ok_def)
  have n: "node_sound env s p"
    using assms(2) by (simp add: all_sound_def)
  have ok: "all_ok env s'"
    by (rule all_ok_step [OF assms(1,3,4)])
  show ?thesis
  proof (cases "bs_remaining s p \<le> 1")
    case True
    then have ph: "bs_phase s' = (bs_phase s)(p := Finished)"
      by (auto simp: ascend ascend_to_top_def Let_def)
    have "over (bs_phase s' (p @ [c]))" if e: "expands env p" "c \<in> set (subs env p)" for c
    proof -
      have w: "bs_phase s p = Waiting"
        using q n e by (auto simp: node_sound_def)
      have "node_ok env s p" using assms(3) by (simp add: all_ok_def)
      then have "bs_phase s (p @ [c]) \<noteq> Unborn"
        using w e by (simp add: node_ok_def)
      moreover have "bs_phase s' (p @ [c]) = Unborn \<or> over (bs_phase s' (p @ [c]))"
        by (rule child_of_over [OF ok]) (simp add: ph)
      ultimately show ?thesis by (simp add: ph)
    qed
    then have "node_sound env s' p"
      using n q by (auto simp: node_sound_def ph expands_def)
    then show ?thesis
      using q by (intro all_sound_update [OF assms(2) _ ph]) auto
  next
    case False
    then have ph: "bs_phase s' = bs_phase s"
      by (auto simp: ascend ascend_to_top_def Let_def)
    then show ?thesis
      using assms(2) unfolding all_sound_def node_sound_def ph by blast
  qed
qed

lemma all_sound_run:
  assumes "bu_run env bu_start s" "distinct_subs env"
  shows "all_sound env s"
  using assms(1)
proof (induction rule: rtranclp_induct)
  case base
  then show ?case by (auto simp: all_sound_def bu_start_def node_sound_def intro: reached.root)
next
  case (step s s')
  then show ?case
    using all_sound_step all_ok_run assms(2) by blast
qed

lemma stuck_no_acts:
  assumes "\<And>s'. \<not> bu_step env s s'"
  shows "bs_acts s = {#}"
proof (rule ccontr)
  assume "bs_acts s \<noteq> {#}"
  then obtain a where a: "a \<in># bs_acts s" by blast
  have d: "Descend p \<notin># bs_acts s" and e: "Enqueue p cs \<notin># bs_acts s" for p cs
    using assms by (auto dest: bu_step.descend bu_step.enqueue)
  then show False
    using a assms by (cases a) (auto, metis bu_step.ascend)
qed

lemma stuck_over:
  assumes stuck: "\<And>s'. \<not> bu_step env s s'" and ok: "all_ok env s" and sound: "all_sound env s"
    and no: "\<And>p. reached env p \<Longrightarrow> \<not> drops env p" and born: "bs_phase s p \<noteq> Unborn"
  shows "over (bs_phase s p)"
  using born
proof (induction "en_max_level env - level_of env p" arbitrary: p rule: less_induct)
  case less
  note A = stuck_no_acts [OF stuck]
  have n: "node_ok env s p" and sd: "node_sound env s p"
    using ok sound by (auto simp: all_ok_def all_sound_def)
  show ?case
  proof (rule ccontr)
    assume no_over: "\<not> over (bs_phase s p)"
    then have w: "bs_phase s p = Waiting"
      using n sd no [of p] less.prems by (cases "bs_phase s p") (auto simp: node_ok_def A node_sound_def)
    then have "0 < unfinished env s p" and lv: "level_of env p + 1 \<le> en_max_level env"
      using n sd by (auto simp: node_ok_def expanded_def A node_sound_def expands_def)
    then obtain c where c: "c \<in> set (subs env p)" "\<not> over (bs_phase s (p @ [c]))"
      by (auto simp: unfinished_def filter_empty_conv)
    have "bs_phase s (p @ [c]) \<noteq> Unborn"
      using n w c by (simp add: node_ok_def)
    moreover have "en_max_level env - level_of env (p @ [c]) < en_max_level env - level_of env p"
      using lv by (simp add: level_of_def)
    ultimately show False
      using less.hyps c(2) by blast
  qed
qed

section \<open>The walk ends\<close>

text \<open>The order in which the activities get smaller; an activity is replaced by smaller ones.\<close>

fun act_rank :: "bu_env \<Rightarrow> act \<Rightarrow> nat \<times> nat" where
  "act_rank env (Descend p) = (2 * (en_max_level env - level_of env p) + 2, 0)"
| "act_rank env (Enqueue p cs) = (2 * (en_max_level env - level_of env p) + 1, length cs)"
| "act_rank env (Ascend p) = (0, length p)"

definition act_less :: "bu_env \<Rightarrow> (act \<times> act) set" where
  "act_less env = inv_image (less_than <*lex*> less_than) (act_rank env)"

definition in_depth :: "bu_env \<Rightarrow> bu_state \<Rightarrow> bool" where
  "in_depth env s \<longleftrightarrow> (\<forall>p cs. Enqueue p cs \<in># bs_acts s \<longrightarrow> level_of env p + 1 \<le> en_max_level env)"

definition new_acts :: "bu_env \<Rightarrow> act \<Rightarrow> act multiset \<Rightarrow> bool" where
  "new_acts env a K \<longleftrightarrow> (\<forall>b \<in># K. (b, a) \<in> act_less env
     \<and> (\<forall>p cs. b = Enqueue p cs \<longrightarrow> level_of env p + 1 \<le> en_max_level env))"

lemma notify_parent_less: "b \<in># notify_parent p \<Longrightarrow> (b, Descend p) \<in> act_less env \<and> (b, Ascend p) \<in> act_less env
    \<and> b \<noteq> Enqueue q cs"
  by (cases p rule: rev_cases) (auto simp: notify_parent_def act_less_def)

lemma bu_step_acts:
  assumes "bu_step env s s'" "in_depth env s"
  shows "\<exists>a A K. bs_acts s = add_mset a A \<and> bs_acts s' = A + K \<and> new_acts env a K"
  using assms(1)
proof cases
  case (descend p)
  then obtain A where A: "bs_acts s = add_mset (Descend p) A"
    by (metis multi_member_split)
  have "\<exists>K. bs_acts s' = A + K \<and> new_acts env (Descend p) K"
    by (auto simp: descend descend_to_bottom_def take_act_def A new_acts_def act_less_def
        dest: notify_parent_less [of _ p env] split: option.splits prod.splits
        intro!: exI [of _ "{#}"] exI [of _ "{#Ascend p#}"] exI [of _ "{#Enqueue p ds#}" for ds]
          exI [of _ "notify_parent p"])
  with A show ?thesis by blast
next
  case (enqueue p cs)
  then obtain A where A: "bs_acts s = add_mset (Enqueue p cs) A"
    by (metis multi_member_split)
  have lv: "level_of env p + 1 \<le> en_max_level env"
    using assms(2) enqueue(2) by (auto simp: in_depth_def)
  have "\<exists>K. bs_acts s' = A + K \<and> new_acts env (Enqueue p cs) K"
  proof (cases cs)
    case Nil
    then show ?thesis
      by (auto simp: enqueue enqueue_child_def take_act_def A new_acts_def)
  next
    case (Cons c cs')
    then show ?thesis
      using lv by (intro exI [of _ "{#Descend (p @ [c]), Enqueue p cs'#}"])
        (auto simp: enqueue enqueue_child_def take_act_def A new_acts_def act_less_def level_of_def)
  qed
  with A show ?thesis by blast
next
  case (ascend p)
  then obtain A where A: "bs_acts s = add_mset (Ascend p) A"
    by (metis multi_member_split)
  have "new_acts env (Ascend p) {#}" "new_acts env (Ascend p) (notify_parent p)"
    using notify_parent_less by (auto simp: new_acts_def)
  then have "\<exists>K. bs_acts s' = A + K \<and> new_acts env (Ascend p) K"
    by (auto simp: ascend ascend_to_top_def take_act_def A Let_def)
  with A show ?thesis by blast
qed

lemma in_depth_step:
  assumes "bu_step env s s'" "in_depth env s"
  shows "in_depth env s'" "(bs_acts s', bs_acts s) \<in> mult1 (act_less env)"
proof -
  from bu_step_acts [OF assms] obtain a A K where
    A: "bs_acts s = add_mset a A" "bs_acts s' = A + K" "new_acts env a K" by blast
  then show "in_depth env s'"
    using assms(2) by (auto simp: in_depth_def new_acts_def)
  show "(bs_acts s', bs_acts s) \<in> mult1 (act_less env)"
    using A by (auto simp: mult1_def new_acts_def)
qed

lemma wf_act_less: "wf (act_less env)"
  by (auto simp: act_less_def)

section \<open>A small tree\<close>

text \<open>A root with a subdirectory and a file; the second walk's function fails in the subdirectory.\<close>

definition tree_env :: bu_env where
  "tree_env = \<lparr>en_opens = (\<lambda>_. True),
     en_entries = (\<lambda>p. if p = [] then [(''.'', DT_DIR), (''a'', DT_UNKNOWN (Some True)), (''f'', DT_OTHER)] else []),
     en_descend = (\<lambda>_. (True, True)), en_level = 0, en_min_level = 0, en_max_level = 5, en_track_non_dirs = False\<rparr>"

definition failing_env :: bu_env where
  "failing_env = tree_env\<lparr>en_descend := (\<lambda>p. (p = [], True))\<rparr>"

lemma distinct_tree: "distinct_names tree_env" "distinct_names failing_env"
  by (auto simp: distinct_names_def tree_env_def failing_env_def)

lemma distinct_run_step: "bu_run env s u \<Longrightarrow> bu_step env u v \<Longrightarrow> bu_run env s v"
  by (rule rtranclp.rtrancl_into_rtrancl)

definition expanding_root :: bu_state where
  "expanding_root = \<lparr>bs_acts = {#Descend [''a''], Enqueue [] []#}, bs_remaining = (\<lambda>_. 0)([] := 1),
     bs_phase = (\<lambda>_. Unborn)([] := Expanding, [''a''] := Queued), bs_ascended = []\<rparr>"

lemma expanding_root_run:
  assumes "env = tree_env \<or> env = failing_env"
  shows "bu_run env bu_start expanding_root"
proof -
  have "bu_step env bu_start (descend_to_bottom env [] (take_act (Descend []) bu_start))" (is "bu_step _ _ ?s")
    by (rule bu_step.descend) (simp add: bu_start_def)
  moreover have "?s = \<lparr>bs_acts = {#Enqueue [] [''a'']#}, bs_remaining = (\<lambda>_. 0)([] := 1),
      bs_phase = (\<lambda>_. Unborn)([] := Expanding), bs_ascended = []\<rparr>" (is "_ = ?t")
    using assms by (auto simp: bu_start_def descend_to_bottom_def take_act_def tree_env_def failing_env_def
        in_levels_def level_of_def)
  moreover have "bu_step env ?t (enqueue_child [] [''a''] (take_act (Enqueue [] [''a'']) ?t))"
    by (rule bu_step.enqueue) simp
  moreover have "enqueue_child [] [''a''] (take_act (Enqueue [] [''a'']) ?t) = expanding_root"
    by (simp add: enqueue_child_def take_act_def expanding_root_def)
  ultimately show ?thesis
    by (auto intro: converse_rtranclp_into_rtranclp)
qed

definition tree_done :: bu_state where
  "tree_done = \<lparr>bs_acts = {#}, bs_remaining = (\<lambda>_. 0),
     bs_phase = (\<lambda>_. Unborn)([] := Finished, [''a''] := Finished), bs_ascended = [[''a''], []]\<rparr>"

lemma tree_done_run: "bu_run tree_env bu_start tree_done"
proof -
  let ?ph = "\<lambda>r a. (\<lambda>_. Unborn)([] := r, [''a''] := a)"
  let ?s = "\<lambda>A r n a. \<lparr>bs_acts = A, bs_remaining = (\<lambda>_. 0)([] := n), bs_phase = ?ph r a, bs_ascended = []\<rparr>"
  have [simp]: "(\<lambda>_. 0::nat)([] := n, [''a''] := 0) = (\<lambda>_. 0)([] := n)" "(\<lambda>_. 0::nat)([] := 0) = (\<lambda>_. 0)" for n
    by auto
  have 1: "bu_step tree_env expanding_root (?s {#Ascend [''a''], Enqueue [] []#} Expanding 1 Ready)"
    using bu_step.descend [of "[''a'']" expanding_root tree_env]
    by (simp add: expanding_root_def descend_to_bottom_def take_act_def tree_env_def in_levels_def level_of_def
        add_mset_commute fun_upd_twist)
  have 2: "bu_step tree_env (?s {#Ascend [''a''], Enqueue [] []#} Expanding 1 Ready)
      (?s {#Ascend [''a'']#} Waiting 1 Ready)"
    using bu_step.enqueue [of "[]" "[]" "?s {#Ascend [''a''], Enqueue [] []#} Expanding 1 Ready" tree_env]
    by (simp add: enqueue_child_def take_act_def fun_upd_twist)
  have 3: "bu_step tree_env (?s {#Ascend [''a'']#} Waiting 1 Ready)
      (?s {#Ascend []#} Waiting 1 Finished\<lparr>bs_ascended := [[''a'']]\<rparr>)"
    using bu_step.ascend [of "[''a'']" "?s {#Ascend [''a'']#} Waiting 1 Ready" tree_env]
    by (simp add: ascend_to_top_def take_act_def notify_parent_def fun_upd_twist fun_upd_idem)
  have 4: "bu_step tree_env (?s {#Ascend []#} Waiting 1 Finished\<lparr>bs_ascended := [[''a'']]\<rparr>) tree_done"
    using bu_step.ascend [of "[]" "?s {#Ascend []#} Waiting 1 Finished\<lparr>bs_ascended := [[''a'']]\<rparr>" tree_env]
    by (simp add: ascend_to_top_def take_act_def notify_parent_def tree_done_def fun_upd_twist)
  show ?thesis
    using expanding_root_run [of tree_env] 1 2 3 4 by (auto intro: distinct_run_step)
qed

definition tree_dropped :: bu_state where
  "tree_dropped = \<lparr>bs_acts = {#Enqueue [] []#}, bs_remaining = (\<lambda>_. 0)([] := 1),
     bs_phase = (\<lambda>_. Unborn)([] := Expanding, [''a''] := Dead), bs_ascended = []\<rparr>"

lemma tree_dropped_run: "bu_run failing_env bu_start tree_dropped"
proof -
  have "bu_step failing_env expanding_root tree_dropped"
    using bu_step.descend [of "[''a'']" expanding_root failing_env]
    by (simp add: expanding_root_def tree_dropped_def descend_to_bottom_def take_act_def failing_env_def
        tree_env_def in_levels_def level_of_def)
  then show ?thesis
    using expanding_root_run [of failing_env] by (auto intro: distinct_run_step)
qed

lemma tree_done_stuck: "\<not> bu_step tree_env tree_done s"
  by (auto simp: tree_done_def elim!: bu_step.cases)

section \<open>Properties\<close>

text \<open>C18: In every order in which the threads may work, a directory is processed (\<open>ascend_to_top\<close> past the
  counter) after all directories below it that are processed, and once: nothing at or below a processed
  directory comes later.\<close>

theorem bottomup_children_first:
  assumes "bu_run env bu_start s" "distinct_names env"
    and "i < length (bs_ascended s)" "j < length (bs_ascended s)" "bs_ascended s ! j = bs_ascended s ! i @ below"
  shows "j \<le> i"
  using order_ok_run [OF assms(1) distinct_names_subs [OF assms(2)]] assms(3-5)
  unfolding order_ok_def by blast

lemma bottomup_children_first_witness:
  "bs_ascended tree_done ! 0 = bs_ascended tree_done ! 1 @ [''a''] \<and> (0::nat) \<le> 1"
  using bottomup_children_first [OF tree_done_run distinct_tree(1), of 1 0 "[''a'']"]
  by (simp add: tree_done_def)

text \<open>C20: The walk ends: no sequence of steps of the threads goes on forever, whatever the file system answers
  and however the user's function behaves; the levels bound the depth.\<close>

theorem bottomup_terminates:
  "\<nexists>walk. walk 0 = bu_start \<and> (\<forall>i. bu_step env (walk i) (walk (Suc i)))"
proof
  assume "\<exists>walk. walk 0 = bu_start \<and> (\<forall>i. bu_step env (walk i) (walk (Suc i)))"
  then obtain w where w: "w 0 = bu_start" "\<And>i. bu_step env (w i) (w (Suc i))" by blast
  have d: "in_depth env (w i)" for i
  proof (induction i)
    case 0
    then show ?case by (simp add: w(1) in_depth_def bu_start_def)
  next
    case (Suc i)
    then show ?case using w(2) in_depth_step(1) by blast
  qed
  then have "(bs_acts (w (Suc i)), bs_acts (w i)) \<in> mult1 (act_less env)" for i
    using w(2) in_depth_step(2) by blast
  then have "\<exists>f. \<forall>i. (f (Suc i), f i) \<in> mult1 (act_less env)"
    by (intro exI [of _ "\<lambda>i. bs_acts (w i)"]) simp
  then show False
    using wf_mult1 [OF wf_act_less, of env] by (simp add: wf_iff_no_infinite_down_chain)
qed

text \<open>C19: When nothing is left to do and no directory was dropped on the way down, the directories that have
  been processed are those that can be reached from the root (through directories that are read and
  expanded, within the levels) and opened.\<close>

theorem bottomup_processes_all:
  assumes "bu_run env bu_start s" "distinct_names env" "\<And>s'. \<not> bu_step env s s'"
    and "\<And>p. reached env p \<Longrightarrow> \<not> drops env p"
  shows "set (bs_ascended s) = {p. reached env p \<and> en_opens env p}"
proof -
  note d = distinct_names_subs [OF assms(2)]
  note ok = all_ok_run [OF assms(1) d] and sound = all_sound_run [OF assms(1) d]
  have sd: "node_sound env s p" for p
    using sound by (simp add: all_sound_def)
  note over = stuck_over [OF assms(3) ok sound assms(4)]
  have ends: "over (bs_phase s p)" if "reached env p" for p
    using that
  proof induction
    case root
    then show ?case using sound by (intro over) (auto simp: all_sound_def)
  next
    case (subdir p c)
    then show ?case
      using sd [of p] by (auto simp: node_sound_def expands_def)
  qed
  have "bs_phase s p = Finished \<longleftrightarrow> reached env p \<and> en_opens env p" for p
    using sd [of p] ends [of p] by (cases "bs_phase s p") (auto simp: node_sound_def)
  then show ?thesis
    using order_ok_run [OF assms(1) d] by (auto simp: order_ok_def)
qed

lemma bottomup_processes_all_witness:
  "set (bs_ascended tree_done) = {p. reached tree_env p \<and> en_opens tree_env p}"
  by (rule bottomup_processes_all [OF tree_done_run distinct_tree(1) tree_done_stuck])
    (auto simp: drops_def tree_env_def descend_result_def)

text \<open>A directory dropped on the way down (the user's function failed, or an entry could not be examined)
  is never taken off its parent's counter: no directory above it is ever processed.\<close>

theorem bottomup_dropped_blocks:
  assumes "bu_run env bu_start s" "distinct_names env" "bs_phase s (p @ below) = Dead"
  shows "p \<notin> set (bs_ascended s)"
proof
  note d = distinct_names_subs [OF assms(2)]
  assume "p \<in> set (bs_ascended s)"
  then have "over (bs_phase s p)"
    using order_ok_run [OF assms(1) d] by (auto simp: order_ok_def)
  from below_over [OF all_ok_run [OF assms(1) d] this, of below] show False
    using assms(3) by (simp add: settled_def under_way_def)
qed

lemma bottomup_dropped_blocks_witness: "[] \<notin> set (bs_ascended tree_dropped)"
  by (rule bottomup_dropped_blocks [OF tree_dropped_run distinct_tree(2), of "[]" "[''a'']"])
    (simp add: tree_dropped_def)

end
