(* ===== verification/Unrollup.thy ===== *)
theory Unrollup
  imports Rollup
begin

text \<open>
  Undoing a roll up: \<open>src/src/gufi_unrollup.c\<close>, over the index of theory \<open>Rollup\<close>.  Whether the directory with a path
  can be examined and opened is a parameter; a database that can be opened is taken to be changed by all of
  \<open>ROLLUP_CLEANUP\<close>.
\<close>

section \<open>The walk\<close>

text \<open>The entries that are skipped without being looked at.\<close>

definition skipped_name :: "string \<Rightarrow> bool" where
  "skipped_name n \<longleftrightarrow>
     (if length n < 3 then n = ''.'' \<or> n = ''..'' else if 3 < length n then drop (length n - 3) n = ''.db'' else False)"

definition deep_enough :: "nat \<Rightarrow> nat \<Rightarrow> bool" where
  "deep_enough min_level level \<longleftrightarrow> min_level \<le> level"

text \<open>\<open>rolledup\<close> is what the directory above passes on.\<close>

fun unrollup :: "(string \<Rightarrow> bool) \<Rightarrow> nat \<Rightarrow> nat \<Rightarrow> nat \<Rightarrow> bool \<Rightarrow> string \<Rightarrow> 'e dir \<Rightarrow> 'e dir" where
  "unrollup usable min_level max_level level rolledup name (Dir n db cp ls ds) =
     (if \<not> usable name then Dir n db cp ls ds
      else
        let db0 = (if deep_enough min_level level then db else None);
            rolledup' = (case db0 of Some d \<Rightarrow> if rolledup then rolledup else get_isrolledup d | None \<Rightarrow> rolledup);
            ds' = (if level < max_level then
                map (\<lambda>d. if skipped_name (dir_name d) then d
                         else unrollup usable min_level max_level (level + 1) rolledup' (name @ ''/'' @ dir_name d) d) ds
              else ds);
            db' = (case db0 of Some d \<Rightarrow> if rolledup' then Some (rollup_cleanup False d) else db | None \<Rightarrow> db)
        in Dir n db' cp ls ds')"

section \<open>What a roll up leaves to be undone\<close>

definition reset_row :: "summary_row \<Rightarrow> summary_row" where
  "reset_row r = r\<lparr>rw_canrollup := True, rw_isrolledup := False\<rparr>"

definition forget_row :: "summary_row \<Rightarrow> summary_row" where
  "forget_row r = r\<lparr>rw_canrollup := True\<rparr>"

text \<open>All of a database but for \<open>canrollup\<close>, which is no longer known, and the rows of \<open>treesummary\<close>.\<close>

definition forget_db :: "'e db \<Rightarrow> 'e db" where
  "forget_db d = d\<lparr>db_summary := map forget_row (db_summary d), db_treesummary := []\<rparr>"

text \<open>\<open>d'\<close> comes of \<open>d\<close> by rolling up.\<close>

definition undoable :: "'e db \<Rightarrow> 'e db \<Rightarrow> bool" where
  "undoable d d' \<longleftrightarrow> db_entries d' = db_entries d \<and> map reset_row (roots d') = map reset_row (roots d)
     \<and> (get_isrolledup d' \<or> forget_db d' = forget_db d)"

lemma row_flags [simp]:
  "rw_isroot (reset_row r) = rw_isroot r" "reset_row (forget_row r) = reset_row r"
  "reset_row (r\<lparr>rw_canrollup := c, rw_isrolledup := b\<rparr>) = reset_row r"
  "reset_row (r\<lparr>rw_isrolledup := b\<rparr>) = reset_row r" "reset_row (r\<lparr>rw_canrollup := b\<rparr>) = reset_row r"
  "forget_row (r\<lparr>rw_isrolledup := False\<rparr>) = reset_row r" "forget_row (reset_row r) = reset_row r"
  by (simp_all add: reset_row_def forget_row_def)

lemma reset_roots: "roots d = map f (roots d0) \<Longrightarrow> (\<And>r. reset_row (f r) = reset_row r) \<Longrightarrow> map reset_row (roots d) = map reset_row (roots d0)"
  by simp

lemma roots_map: "(\<And>r. rw_isroot (f r) = rw_isroot r) \<Longrightarrow> filter rw_isroot (map f (roots d)) = map f (roots d)"
  by (simp add: roots_def filter_map comp_def)

lemma roots_cleanup: "roots (rollup_cleanup b d) = map (\<lambda>r. r\<lparr>rw_canrollup := True, rw_isrolledup := b\<rparr>) (roots d)"
  by (subst roots_def) (simp add: rollup_cleanup_def roots_map)

lemma entries_cleanup [simp]: "db_entries (rollup_cleanup b d) = db_entries d" "db_entries (delete_subdir_rollup d) = db_entries d"
  by (simp_all add: rollup_cleanup_def delete_subdir_rollup_def)

lemma roots_delete: "roots (delete_subdir_rollup d) = map (\<lambda>r. r\<lparr>rw_isrolledup := False\<rparr>) (roots d)"
  by (subst roots_def) (simp add: delete_subdir_rollup_def roots_map)

lemma roots_process: "roots (rollup_child_process k sub d) = roots d"
proof -
  have p: "roots (insert_pentries sub x) = roots x" "roots (insert_treesummary sub x) = roots x" for x
    by (simp_all add: insert_pentries_def insert_treesummary_def roots_def)
  have s: "roots (insert_summary sub x) = roots x" for x
  proof -
    have "filter rw_isroot (map (\<lambda>r. r\<lparr>rw_name := y r, rw_depth := z r, rw_isroot := False, rw_canrollup := True, rw_isrolledup := True\<rparr>) rs) = []" for y z rs
      by (induction rs) simp_all
    then show ?thesis by (cases "roots x") (simp_all add: insert_summary_def roots_def [of "db_summary_update _ _"] roots_def [symmetric])
  qed
  have "roots (foldl (\<lambda>db stmt. stmt sub db) d fs) = roots d"
    if "set fs \<subseteq> {insert_pentries, insert_summary, insert_treesummary}" for fs
    using that p s by (induction fs arbitrary: d) auto
  then show ?thesis using set_take_subset [of k rollup_one_subdir]
    unfolding rollup_child_process_def by (auto simp: rollup_one_subdir_def)
qed

lemma entries_process: "db_entries (rollup_child_process k sub d) = db_entries d"
proof -
  have "db_entries (foldl (\<lambda>db stmt. stmt sub db) d fs) = db_entries d"
    if "set fs \<subseteq> {insert_pentries, insert_summary, insert_treesummary}" for fs
    using that
    by (induction fs arbitrary: d) (auto simp: insert_pentries_def insert_summary_def insert_treesummary_def split: list.split)
  then show ?thesis using set_take_subset [of k rollup_one_subdir]
    unfolding rollup_child_process_def by (auto simp: rollup_one_subdir_def)
qed

lemma isrolledup_process: "get_isrolledup (rollup_child_process k sub d) = get_isrolledup d"
  by (simp add: get_isrolledup_def roots_process)

lemma undoable_refl: "undoable d d"
  by (simp add: undoable_def)

lemma undoable_init:
  assumes "undoable d d'" "roots d \<noteq> []"
  shows "undoable d (rollup_init d') \<and> get_isrolledup (rollup_init d')"
proof -
  have "roots d' \<noteq> []" using assms by (auto simp: undoable_def)
  then have "get_isrolledup (rollup_init d')"
    by (cases "rev (roots d')") (simp_all add: get_isrolledup_def rollup_init_def roots_cleanup rev_map)
  then show ?thesis using assms(1)
    by (auto simp: undoable_def rollup_init_def roots_cleanup comp_def)
qed

lemma undoable_process:
  "undoable d d' \<and> get_isrolledup d' \<Longrightarrow> undoable d (rollup_child_process k sub d') \<and> get_isrolledup (rollup_child_process k sub d')"
  by (simp add: undoable_def roots_process entries_process isrolledup_process)

lemma undoable_treesummary: "undoable d d' \<Longrightarrow> undoable d (d'\<lparr>db_treesummary := ts\<rparr>)"
  by (auto simp: undoable_def forget_db_def)

lemma undoable_delete:
  assumes "undoable d d'" "fresh_db n d"
  shows "undoable d (delete_subdir_rollup d')"
proof -
  obtain r where r: "db_summary d = [r]" "rw_isroot r" "\<not> rw_isrolledup r" "db_pentries_rollup d = []"
    using assms(2) by (auto simp: fresh_db_def)
  have "map reset_row (roots d') = [reset_row r]" "db_entries d' = db_entries d"
    using assms(1) r by (auto simp: undoable_def roots_def)
  moreover have "forget_row r = reset_row r" using r(3) by (cases r) (simp add: forget_row_def reset_row_def)
  ultimately have "forget_db (delete_subdir_rollup d') = forget_db d"
    using r by (simp add: forget_db_def delete_subdir_rollup_def comp_def)
  then show ?thesis using assms(1)
    by (simp add: undoable_def roots_delete comp_def)
qed

text \<open>Cleaning gives back the database.\<close>

lemma cleanup_undoes:
  assumes "undoable d d'" "fresh_db n d"
  shows "forget_db (rollup_cleanup False d') = forget_db d"
proof -
  obtain r where r: "db_summary d = [r]" "rw_isroot r" "\<not> rw_isrolledup r" "db_pentries_rollup d = []"
    using assms(2) by (auto simp: fresh_db_def)
  have "map reset_row (roots d') = [reset_row r]" "db_entries d' = db_entries d"
    using assms(1) r by (auto simp: undoable_def roots_def)
  moreover have "forget_row r = reset_row r" using r(3) by (cases r) (simp add: forget_row_def reset_row_def)
  moreover have "forget_row (x\<lparr>rw_canrollup := True, rw_isrolledup := False\<rparr>) = reset_row x" for x
    by (simp add: forget_row_def reset_row_def)
  ultimately show ?thesis
    using r by (simp add: forget_db_def rollup_cleanup_def comp_def)
qed

section \<open>Directories\<close>

text \<open>An index as \<open>gufi_dir2index\<close> leaves it, some databases missing, whatever will happen when they are copied.\<close>

fun indexed :: "'e dir \<Rightarrow> bool" where
  "indexed (Dir n db cp ls ds) \<longleftrightarrow> (\<forall>d. db = Some d \<longrightarrow> fresh_db n d) \<and> list_all indexed ds"

fun forget :: "'e dir \<Rightarrow> 'e dir" where
  "forget (Dir n db cp ls ds) = Dir n (map_option forget_db db) cp ls (map forget ds)"

inductive undoable_dir :: "'e dir \<Rightarrow> 'e dir \<Rightarrow> bool" where
  "rel_option undoable db db' \<Longrightarrow> list_all2 undoable_dir ds ds' \<Longrightarrow>
   undoable_dir (Dir n db cp ls ds) (Dir n db' cp ls ds')"
  monos list.rel_mono_strong

inductive_cases undoable_dirE: "undoable_dir (Dir n db cp ls ds) t"

definition same_or_deleted :: "'e child \<Rightarrow> 'e db option \<Rightarrow> bool" where
  "same_or_deleted c s \<longleftrightarrow> s = ch_db c \<or> s = map_option delete_subdir_rollup (ch_db c)"

lemma same_db [simp]: "same_or_deleted c (ch_db c)" "ch_db c = x \<Longrightarrow> same_or_deleted c x"
  by (simp_all add: same_or_deleted_def)

lemma all_same: "list_all2 same_or_deleted cs (map ch_db cs)"
  by (simp add: list.rel_map list_all2_refl)

lemma undoable_children:
  "undoable d db \<and> get_isrolledup db \<Longrightarrow>
   undoable d (fst (snd (rollup_children inp level cs db))) \<and> get_isrolledup (fst (snd (rollup_children inp level cs db)))
   \<and> list_all2 same_or_deleted cs (snd (snd (rollup_children inp level cs db)))"
proof (induction inp level cs db rule: rollup_children.induct)
  case (2 inp level c cs db)
  show ?case
  proof (cases "ch_db c")
    case None
    then show ?thesis using 2(2) all_same [of cs] by simp
  next
    case (Some sub)
    show ?thesis
    proof (cases "ch_copy c")
      case Copied
      let ?db = "rollup_child_process (length (rollup_one_subdir :: ('a db \<Rightarrow> 'a db \<Rightarrow> 'a db) list)) sub db"
      have "undoable d (fst (snd (rollup_children inp level cs ?db))) \<and> get_isrolledup (fst (snd (rollup_children inp level cs ?db)))
          \<and> list_all2 same_or_deleted cs (snd (snd (rollup_children inp level cs ?db)))"
        using 2(1) [OF refl Some Copied refl undoable_process [OF 2(2)]] .
      moreover have "same_or_deleted c (Some (delete_subdir_rollup sub))" using Some by (simp add: same_or_deleted_def)
      ultimately show ?thesis using Some Copied by (auto simp: Let_def split: prod.split)
    next
      case Attach_fails
      then show ?thesis using 2(2) all_same [of cs] Some by simp
    next
      case (Exec_fails k)
      then show ?thesis using undoable_process [OF 2(2)] all_same [of cs] Some by simp
    qed
  qed
qed simp

lemma undoable_ascend:
  assumes "fresh_db n d"
  shows "\<exists>d'. as_db (rollup_ascend mem inp level is_top ls r (Some d) subs) = Some d' \<and> undoable d d'"
    and "list_all2 same_or_deleted subs (as_subdirs (rollup_ascend mem inp level is_top ls r (Some d) subs))"
proof -
  have ne: "roots d \<noteq> []" using assms by (auto simp: fresh_db_def roots_def)
  have u: "undoable d (fst (snd (do_rollup inp level ls subs d)))" "list_all2 same_or_deleted subs (snd (snd (do_rollup inp level ls subs d)))"
    using undoable_children [OF undoable_init [OF undoable_refl ne], of inp level subs] undoable_treesummary
    by (auto simp: do_rollup_def rolledup_treesummary_def split: prod.split)
  show "\<exists>d'. as_db (rollup_ascend mem inp level is_top ls r (Some d) subs) = Some d' \<and> undoable d d'"
    using u(1) undoable_refl [of d] by (auto simp: rollup_ascend_def Let_def split: prod.split)
  show "list_all2 same_or_deleted subs (as_subdirs (rollup_ascend mem inp level is_top ls r (Some d) subs))"
    using u(2) all_same [of subs] by (auto simp: rollup_ascend_def Let_def split: prod.split)
qed

lemma undoable_dir_refl: "undoable_dir t t"
proof (induction t)
  case (Dir n db cp ls ds)
  have "list_all2 undoable_dir ds ds" by (rule list.rel_refl_strong) (rule Dir.IH)
  moreover have "rel_option undoable db db" by (rule option.rel_refl_strong) (rule undoable_refl)
  ultimately show ?case by (simp add: undoable_dir.intros)
qed

lemma undoable_set_db:
  assumes "undoable_dir t t'" "indexed t" "same_or_deleted (as_child (t', x)) s"
  shows "undoable_dir t (set_db t' s)"
proof (cases t)
  case (Dir n db cp ls ds)
  then obtain db' ds' where t': "t' = Dir n db' cp ls ds'" "rel_option undoable db db'" "list_all2 undoable_dir ds ds'"
    using assms(1) undoable_dirE by metis
  have "rel_option undoable db s"
  proof (cases db)
    case None
    then show ?thesis using t' assms(3) by (auto simp: same_or_deleted_def)
  next
    case (Some d)
    then obtain d' where d': "db' = Some d'" "undoable d d'" using t'(2) by (cases db') auto
    have "fresh_db n d" using assms(2) Dir Some by simp
    then show ?thesis using undoable_delete [OF d'(2)] d' Some assms(3) t'(1) by (auto simp: same_or_deleted_def)
  qed
  then show ?thesis using Dir t' by (simp add: undoable_dir.intros)
qed

lemma undoable_set_dbs:
  "list_all2 undoable_dir ts (map fst rs) \<Longrightarrow> list_all indexed ts \<Longrightarrow> list_all2 same_or_deleted (map as_child rs) ss \<Longrightarrow>
   list_all2 undoable_dir ts (map2 set_db (map fst rs) ss)"
proof (induction rs arbitrary: ts ss)
  case (Cons r rs)
  obtain t ts' where ts: "ts = t # ts'" "undoable_dir t (fst r)" "list_all2 undoable_dir ts' (map fst rs)"
    using Cons.prems(1) by (auto simp: list_all2_Cons2)
  obtain s ss' where ss: "ss = s # ss'" "same_or_deleted (as_child r) s" "list_all2 same_or_deleted (map as_child rs) ss'"
    using Cons.prems(3) by (auto simp: list_all2_Cons1)
  have "undoable_dir t (set_db (fst r) s)"
    using undoable_set_db [OF ts(2), of "snd r" s] ss(2) Cons.prems(2) ts(1) by simp
  then show ?case using Cons.IH [OF ts(3) _ ss(3)] Cons.prems(2) ts(1) ss(1) by simp
qed simp

lemma undoable_walk: "indexed t \<Longrightarrow> undoable_dir t (fst (rollup_walk mem inp level is_top t))"
proof (induction t arbitrary: level is_top)
  case (Dir n db cp ls ds)
  let ?rs = "map (walk_sub mem inp level) ds"
  have "undoable_dir d (fst (walk_sub mem inp level d))" if "d \<in> set ds" for d
    using Dir.IH [OF that] Dir.prems that undoable_dir_refl [of d] by (simp add: walk_sub_def list_all_iff)
  then have below: "list_all2 undoable_dir ds (map fst ?rs)" by (simp add: list.rel_map list.rel_refl_strong)
  have db: "rel_option undoable db db" by (rule option.rel_refl_strong) (rule undoable_refl)
  show ?case
  proof (cases "ri_min_level inp \<le> level \<and> level \<le> ri_max_level inp")
    case False
    then show ?thesis using below db by (auto simp: rollup_walk_Dir Let_def undoable_dir.intros)
  next
    case True
    let ?a = "rollup_ascend mem inp level is_top ls False db (map as_child ?rs)"
    have a: "rel_option undoable db (as_db ?a) \<and> list_all2 same_or_deleted (map as_child ?rs) (as_subdirs ?a)"
    proof (cases db)
      case None
      then show ?thesis using all_same [of "map as_child ?rs"] by (simp add: rollup_ascend_def Let_def)
    next
      case (Some d)
      then have "fresh_db n d" using Dir.prems by simp
      then show ?thesis using undoable_ascend [where n = n and d = d and mem = mem and inp = inp and level = level and is_top = is_top
            and ls = ls and r = False and subs = "map as_child ?rs"] Some by auto
    qed
    have "list_all indexed ds" using Dir.prems by simp
    then have "list_all2 undoable_dir ds (map2 set_db (map fst ?rs) (as_subdirs ?a))"
      using undoable_set_dbs [OF below] a by blast
    then show ?thesis using True a by (simp add: rollup_walk_Dir Let_def undoable_dir.intros)
  qed
qed

section \<open>Undoing\<close>

fun plain_names :: "'e dir \<Rightarrow> bool" where
  "plain_names (Dir n db cp ls ds) \<longleftrightarrow> list_all (\<lambda>d. \<not> skipped_name (dir_name d) \<and> plain_names d) ds"

lemma undoable_dir_name: "undoable_dir t t' \<Longrightarrow> dir_name t' = dir_name t"
  by (auto elim: undoable_dir.cases)

lemma unrollup_undoes:
  "undoable_dir t t' \<Longrightarrow> indexed t \<Longrightarrow> plain_names t \<Longrightarrow> within max_level level t \<Longrightarrow>
   forget (unrollup (\<lambda>_. True) 0 max_level level rolled name t') = forget t"
proof (induction t arbitrary: t' level rolled name)
  case (Dir n db cp ls ds)
  obtain db' ds' where t': "t' = Dir n db' cp ls ds'" "rel_option undoable db db'" "list_all2 undoable_dir ds ds'"
    using Dir.prems(1) undoable_dirE by metis
  let ?r = "case db' of Some d \<Rightarrow> if rolled then rolled else get_isrolledup d | None \<Rightarrow> rolled"
  let ?f = "\<lambda>d. if skipped_name (dir_name d) then d
     else unrollup (\<lambda>_. True) 0 max_level (level + 1) ?r (name @ ''/'' @ dir_name d) d"
  have "forget (?f d') = forget d" if d: "d \<in> set ds" "undoable_dir d d'" for d d'
  proof -
    have "indexed d" "\<not> skipped_name (dir_name d')" "plain_names d" "within max_level (level + 1) d"
      using Dir.prems(2-4) d undoable_dir_name [OF d(2)] by (simp_all add: list_all_iff)
    then show ?thesis using Dir.IH [OF d] by simp
  qed
  note each = this
  have "map forget (map ?f ds') = map forget ds"
  proof (rule nth_equalityI)
    show "length (map forget (map ?f ds')) = length (map forget ds)" using t'(3) by (simp add: list_all2_lengthD)
    fix i
    assume "i < length (map forget (map ?f ds'))"
    then have i: "i < length ds'" "i < length ds" "undoable_dir (ds ! i) (ds' ! i)" "ds ! i \<in> set ds"
      using t'(3) by (simp_all add: list_all2_conv_all_nth)
    show "map forget (map ?f ds') ! i = map forget ds ! i" using each [OF i(4,3)] i by (simp only: nth_map length_map)
  qed
  moreover have "ds' = []" if "\<not> level < max_level"
    using Dir.prems(4) that t'(3) by (cases ds; auto; cases "hd ds"; auto)
  ultimately have subs: "map forget (if level < max_level then map ?f ds' else ds') = map forget ds"
    using t'(3) by (cases "level < max_level") auto
  have "map_option forget_db (case db' of Some d \<Rightarrow> if ?r then Some (rollup_cleanup False d) else db' | None \<Rightarrow> db') = map_option forget_db db"
  proof (cases db)
    case None
    then show ?thesis using t'(2) by auto
  next
    case (Some d)
    then obtain d' where d': "db' = Some d'" "undoable d d'" using t'(2) by (cases db') auto
    have "fresh_db n d" using Dir.prems(2) Some by simp
    then show ?thesis using cleanup_undoes [OF d'(2)] d' Some by (auto simp: undoable_def)
  qed
  then show ?case using subs unfolding t'(1) by (simp add: Let_def deep_enough_def)
qed

text \<open>The rows of \<open>treesummary\<close> in all databases, by their inodes.\<close>

fun treesummaries :: "'e dir \<Rightarrow> nat option list list" where
  "treesummaries (Dir n db cp ls ds) = (case db of None \<Rightarrow> [] | Some d \<Rightarrow> db_treesummary d) # concat (map treesummaries ds)"

lemma treesummaries_unrollup: "treesummaries (unrollup usable min_level max_level level rolled name t) = treesummaries t"
proof (induction t arbitrary: level rolled name)
  case (Dir n db cp ls ds)
  show ?case
    by (auto simp: Let_def Dir.IH rollup_cleanup_def comp_def split: option.split intro!: arg_cong [where f = concat] map_cong)
qed

text \<open>
  C8: Unrolling up an index undoes a roll up with any limits and levels, also one that failed anywhere: the tables
  \<open>summary\<close>, \<open>entries\<close> and \<open>pentries_rollup\<close> of all databases are again what they were, but for \<open>canrollup\<close>, while the
  rows that the roll up left in \<open>treesummary\<close>, those of the directories below included, all stay: \<open>ROLLUP_CLEANUP\<close> has
  no statement for them.  The walk has to be deep enough, every directory and database has to be accessible then, and
  no directory may have a name that ends in \<open>.db\<close>; the tables of attributes are not part of the model.
\<close>
theorem unrollup_undoes_rollup:
  assumes "indexed t" and "plain_names t" and "within max_level 0 t" and "t' = fst (rollup_walk mem inp level is_top t)"
  shows "forget (unrollup (\<lambda>_. True) 0 max_level 0 False name t') = forget t
    \<and> treesummaries (unrollup (\<lambda>_. True) 0 max_level 0 False name t') = treesummaries t'"
  using unrollup_undoes [OF undoable_walk [OF assms(1)] assms(1-3)] treesummaries_unrollup unfolding assms(4) by blast

lemma unrollup_undoes_rollup_witness:
  "forget (unrollup (\<lambda>_. True) 0 9 0 False ''r'' (fst (rollup_walk no_permissions sample_in 0 True sample_index))) = forget sample_index"
proof -
  have "indexed sample_index" "plain_names sample_index"
    by (simp_all add: sample_index_def sample_db_def fresh_db_def skipped_name_def)
  then show ?thesis using unrollup_undoes_rollup [OF _ _ sample_index_ok(3) refl] by blast
qed

text \<open>So the database of a directory that is no longer rolled up still has tree summaries of directories below it.\<close>

lemma unrollup_leaves_treesummaries:
  "i \<in> set (db_treesummary sub) \<Longrightarrow> i \<noteq> Some (rw_inode r) \<Longrightarrow>
   i \<in> set (db_treesummary (rollup_cleanup False (rolled_db d r [sub])))"
  by (simp add: rollup_cleanup_def rolled_db_def)

text \<open>
  A directory of the index with a name of more than three characters that ends in \<open>.db\<close> is not unrolled, nor
  anything below it, although the directory above it, when it was rolled up, no longer has its rows.
\<close>
theorem unrollup_skips_db_names:
  assumes "3 < length (dir_name d)" and "drop (length (dir_name d) - 3) (dir_name d) = ''.db''" and "d \<in> set ds"
  shows "d \<in> set (dir_subdirs (unrollup usable min_level max_level level rolledup name (Dir n db cp ls ds)))"
proof -
  have "skipped_name (dir_name d)" using assms(1,2) by (simp add: skipped_name_def)
  then have "d \<in> (\<lambda>d. if skipped_name (dir_name d) then d else f d) ` set ds" for f
    using assms(3) by (force simp: image_iff)
  then show ?thesis using assms(3) by (simp add: Let_def)
qed

lemma unrollup_skips_db_names_witness:
  "Dir ''x.db'' None Copied True [] \<in> set (dir_subdirs (unrollup (\<lambda>_. True) 0 9 0 False ''r''
     (Dir ''r'' None Copied True [Dir ''x.db'' (None :: nat db option) Copied True []])))"
  by (rule unrollup_skips_db_names) simp_all

end
