(* ===== verification/Topdown.thy ===== *)
theory Topdown
  imports Rollup
begin

text \<open>
  Rolling up from the top, \<open>src/src/gufi_rollup_topdown.c\<close>: the directories that may roll up are looked for from the
  root, and everything below one is copied into its database, by several threads into databases of their own that are
  merged at the end.  Databases and indexes are those of theory \<open>Rollup\<close>, with how the copying of a directory ends; the
  databases of the threads can be made and merged.
\<close>

section \<open>Looking for tops\<close>

text \<open>What the tool was told; what the tree summary of a database says of its entries is a parameter, \<open>None\<close> when the
  query fails.\<close>

record topdown_in =
  td_min_level :: nat
  td_max_level :: nat
  td_entries_limit :: nat
  td_dry_run :: bool
  td_dont_reprocess :: bool

record topdown_stats =
  tp_not_rolledup :: nat
  tp_cannot_rollup :: nat
  tp_too_many_before :: nat
  tp_too_many_after :: nat
  tp_top :: nat

definition no_topdown_stats :: topdown_stats where
  "no_topdown_stats = \<lparr>tp_not_rolledup = 0, tp_cannot_rollup = 0, tp_too_many_before = 0, tp_too_many_after = 0, tp_top = 0\<rparr>"

definition add_topdown_stats :: "topdown_stats \<Rightarrow> topdown_stats \<Rightarrow> topdown_stats" where
  "add_topdown_stats a b =
     \<lparr>tp_not_rolledup = tp_not_rolledup a + tp_not_rolledup b, tp_cannot_rollup = tp_cannot_rollup a + tp_cannot_rollup b,
      tp_too_many_before = tp_too_many_before a + tp_too_many_before b,
      tp_too_many_after = tp_too_many_after a + tp_too_many_after b, tp_top = tp_top a + tp_top b\<rparr>"

text \<open>The callbacks run for every row of the root, the last decides.\<close>

definition last_root :: "'e db \<Rightarrow> summary_row option" where
  "last_root db = (case rev (roots db) of [] \<Rightarrow> None | r # _ \<Rightarrow> Some r)"

datatype decision = Too_shallow | Descend_cannot | Descend_before | Descend_after | Query_failed | Is_top

text \<open>What \<open>find_top\<close> does with a directory that was opened.\<close>

definition decide_top :: "topdown_in \<Rightarrow> ('e db \<Rightarrow> nat option) \<Rightarrow> nat \<Rightarrow> 'e db option \<Rightarrow> decision" where
  "decide_top inp tree_entries level db =
     (if level < td_min_level inp then Too_shallow
      else case db of
        None \<Rightarrow> Descend_cannot
      | Some d \<Rightarrow>
          let can = (case last_root d of None \<Rightarrow> False | Some r \<Rightarrow> rw_canrollup r);
              before = (case last_root d of None \<Rightarrow> 0 | Some r \<Rightarrow> rw_nondirs r)
          in if td_entries_limit inp \<noteq> 0 \<and> td_entries_limit inp < before then Descend_before
             else if td_entries_limit inp \<noteq> 0 \<and> tree_entries d = None then Query_failed
             else if td_entries_limit inp \<noteq> 0 \<and> td_entries_limit inp < the (tree_entries d) then Descend_after
             else if can then Is_top else Descend_cannot)"

text \<open>The directories that are prepared for copying, with the paths they have, and what was counted.\<close>

fun find_rollup_top ::
    "topdown_in \<Rightarrow> ('e db \<Rightarrow> nat option) \<Rightarrow> (string \<Rightarrow> bool) \<Rightarrow> nat \<Rightarrow> string \<Rightarrow> 'e dir
     \<Rightarrow> (string \<times> 'e dir) list \<times> topdown_stats" where
  "find_rollup_top inp tree_entries opens level name (Dir n db cp ls ds) =
     (if \<not> opens name then ([], no_topdown_stats\<lparr>tp_not_rolledup := 1\<rparr>)
      else
        let results = (if level + 1 \<le> td_max_level inp
              then map (\<lambda>d. find_rollup_top inp tree_entries opens (level + 1) (name @ ''/'' @ dir_name d) d) ds else []);
            tops = concat (map fst results);
            below = foldr add_topdown_stats (map snd results) no_topdown_stats
        in case decide_top inp tree_entries level db of
             Too_shallow \<Rightarrow> (tops, add_topdown_stats (no_topdown_stats\<lparr>tp_not_rolledup := 1\<rparr>) below)
           | Descend_cannot \<Rightarrow>
               (tops, add_topdown_stats (no_topdown_stats\<lparr>tp_not_rolledup := 1, tp_cannot_rollup := 1\<rparr>) below)
           | Descend_before \<Rightarrow>
               (tops, add_topdown_stats (no_topdown_stats\<lparr>tp_not_rolledup := 1, tp_too_many_before := 1\<rparr>) below)
           | Descend_after \<Rightarrow>
               (tops, add_topdown_stats (no_topdown_stats\<lparr>tp_not_rolledup := 1, tp_too_many_after := 1\<rparr>) below)
           | Query_failed \<Rightarrow> ([], no_topdown_stats\<lparr>tp_not_rolledup := 1\<rparr>)
           | Is_top \<Rightarrow>
               (if td_dry_run inp \<or> (db \<noteq> None \<and> last_root (the db) \<noteq> None \<and> rw_isrolledup (the (last_root (the db)))
                                        \<and> td_dont_reprocess inp)
                then [] else [(name, Dir n db cp ls ds)],
                no_topdown_stats\<lparr>tp_top := 1\<rparr>))"

section \<open>Copying\<close>

text \<open>\<open>ls_dirs\<close> and \<open>parallel_walk\<close>: all directories below, with the paths their rows get; a path begins with the name of the
  top.  A subdirectory is rolled up from its database, if that can be attached.\<close>

type_synonym 'e subtree = "string \<times> 'e db option \<times> copy"

fun subdirs_below :: "string \<Rightarrow> 'e dir \<Rightarrow> 'e subtree list" where
  "subdirs_below p (Dir n db cp ls ds) =
     concat (map (\<lambda>d. (p @ ''/'' @ dir_name d, dir_db d, dir_copy d) # subdirs_below (p @ ''/'' @ dir_name d) d) ds)"

text \<open>The summary rows of a subdirectory all get the path that is put into the statement.\<close>

definition insert_summary_as :: "string \<Rightarrow> 'e db \<Rightarrow> 'e db \<Rightarrow> 'e db" where
  "insert_summary_as p sub db =
     db\<lparr>db_summary := db_summary db @
          map (\<lambda>r. r\<lparr>rw_name := p, rw_depth := rw_depth r + 1, rw_isroot := False, rw_canrollup := True,
                     rw_isrolledup := True\<rparr>) (db_summary sub)\<rparr>"

text \<open>The path stands in the text of the statements between single quotes, as it is.  With a quote in it the text behind
  the first statement is another one: \<open>quoted p sub db\<close> is what SQLite then makes of it, a parameter.\<close>

definition copy_statements :: "(string \<Rightarrow> 'e db \<Rightarrow> 'e db \<Rightarrow> 'e db) \<Rightarrow> string \<Rightarrow> ('e db \<Rightarrow> 'e db \<Rightarrow> 'e db) list" where
  "copy_statements quoted p =
     (if CHR 0x27 \<in> set p then [insert_pentries, quoted p] else [insert_pentries, insert_summary_as p, insert_treesummary])"

definition copy_to_top :: "(string \<Rightarrow> 'e db \<Rightarrow> 'e db \<Rightarrow> 'e db) \<Rightarrow> 'e db \<Rightarrow> 'e subtree \<Rightarrow> 'e db" where
  "copy_to_top quoted db s =
     (case s of
        (p, None, cp) \<Rightarrow> db
      | (p, Some sub, cp) \<Rightarrow>
          let stmts = (case cp of Copied \<Rightarrow> copy_statements quoted p | Attach_fails \<Rightarrow> [] | Exec_fails n \<Rightarrow> take n (copy_statements quoted p))
          in foldl (\<lambda>db stmt. stmt sub db) db stmts)"

text \<open>The databases of the threads: the first is that of the top, a subdirectory goes to each in turn.\<close>

definition template_rollup_db :: "'e db" where
  "template_rollup_db = \<lparr>db_summary = [], db_entries = [], db_pentries_rollup = [], db_treesummary = []\<rparr>"

definition in_turn :: "nat \<Rightarrow> nat \<Rightarrow> 'a list \<Rightarrow> 'a list" where
  "in_turn threads_used i xs = map snd (filter (\<lambda>(k, _). k mod threads_used = i) (zip [0..<length xs] xs))"

definition thread_db ::
    "(string \<Rightarrow> 'e db \<Rightarrow> 'e db \<Rightarrow> 'e db) \<Rightarrow> 'e db \<Rightarrow> nat \<Rightarrow> 'e subtree list \<Rightarrow> nat \<Rightarrow> 'e db" where
  "thread_db quoted topdb threads_used subdirs i =
     foldl (copy_to_top quoted) (if i = 0 then topdb else template_rollup_db) (in_turn threads_used i subdirs)"

definition rollup_merge :: "'e db \<Rightarrow> 'e db \<Rightarrow> 'e db" where
  "rollup_merge db tdb =
     db\<lparr>db_summary := db_summary db @ db_summary tdb, db_pentries_rollup := db_pentries_rollup db @ pentries tdb\<rparr>"

text \<open>\<open>subdirs\<close> are the directories below in the order in which the threads found them.\<close>

definition enqueue_rollup_copy ::
    "(string \<Rightarrow> 'e db \<Rightarrow> 'e db \<Rightarrow> 'e db) \<Rightarrow> nat \<Rightarrow> 'e db \<Rightarrow> 'e subtree list \<Rightarrow> 'e db" where
  "enqueue_rollup_copy quoted maxthreads topdb subdirs =
     (if subdirs = [] then rollup_init topdb
      else
        let threads_used = min (length subdirs) maxthreads;
            tdbs = map (thread_db quoted (rollup_init topdb) threads_used subdirs) [0..<threads_used]
        in foldl rollup_merge (hd tdbs) (tl tdbs))"

section \<open>What is copied\<close>

text \<open>A directory that can be copied: its path has no quote.\<close>

definition plain_sub :: "'e subtree \<Rightarrow> bool" where
  "plain_sub x \<longleftrightarrow> CHR 0x27 \<notin> set (fst x) \<and> snd (snd x) = Copied"

definition path_db :: "'e subtree \<Rightarrow> string \<times> 'e db option" where
  "path_db x = (fst x, fst (snd x))"

lemma path_db_simps [simp]: "fst (path_db x) = fst x" "snd (path_db x) = fst (snd x)" "path_db (p, s, c) = (p, s)"
  by (simp_all add: path_db_def)

definition as_sub :: "string \<Rightarrow> summary_row \<Rightarrow> summary_row" where
  "as_sub p r = r\<lparr>rw_name := p, rw_depth := rw_depth r + 1, rw_isroot := False, rw_canrollup := True, rw_isrolledup := True\<rparr>"

definition sub_rows :: "(string \<times> 'e db option) list \<Rightarrow> summary_row set" where
  "sub_rows subs = {as_sub p r | p s r. (p, Some s) \<in> set subs \<and> r \<in> set (db_summary s)}"

definition sub_pentries :: "(string \<times> 'e db option) list \<Rightarrow> (nat \<times> 'e) set" where
  "sub_pentries subs = {x | x p s. (p, Some s) \<in> set subs \<and> x \<in> set (pentries s)}"

lemma sub_sets_Cons:
  "sub_rows (x # xs) = (case snd x of None \<Rightarrow> {} | Some s \<Rightarrow> as_sub (fst x) ` set (db_summary s)) \<union> sub_rows xs"
  "sub_pentries (x # xs) = (case snd x of None \<Rightarrow> {} | Some s \<Rightarrow> set (pentries s)) \<union> sub_pentries xs"
  by (cases x; auto simp: sub_rows_def sub_pentries_def image_iff split: option.split)+

lemma sub_sets_Nil [simp]: "sub_rows [] = {}" "sub_pentries [] = {}"
  by (simp_all add: sub_rows_def sub_pentries_def)

lemma copy_step:
  assumes "plain_sub x"
  shows "set (db_summary (copy_to_top quoted db x)) =
      set (db_summary db) \<union> (case fst (snd x) of None \<Rightarrow> {} | Some s \<Rightarrow> as_sub (fst x) ` set (db_summary s))"
    "set (db_pentries_rollup (copy_to_top quoted db x)) =
      set (db_pentries_rollup db) \<union> (case fst (snd x) of None \<Rightarrow> {} | Some s \<Rightarrow> set (pentries s))"
    "db_entries (copy_to_top quoted db x) = db_entries db" "roots (copy_to_top quoted db x) = roots db"
  using assms
  by (cases x; cases "fst (snd x)"; auto simp: plain_sub_def copy_to_top_def copy_statements_def insert_summary_as_def
      insert_pentries_def insert_treesummary_def as_sub_def roots_def filter_map comp_def)+

lemma copy_folds:
  "list_all plain_sub xs \<Longrightarrow>
   set (db_summary (foldl (copy_to_top quoted) db xs)) = set (db_summary db) \<union> sub_rows (map path_db xs)
   \<and> set (db_pentries_rollup (foldl (copy_to_top quoted) db xs)) = set (db_pentries_rollup db) \<union> sub_pentries (map path_db xs)
   \<and> db_entries (foldl (copy_to_top quoted) db xs) = db_entries db \<and> roots (foldl (copy_to_top quoted) db xs) = roots db"
proof (induction xs arbitrary: db)
  case (Cons x xs)
  then show ?case using Cons.IH [of "copy_to_top quoted db x"] by (simp add: copy_step sub_sets_Cons Un_assoc path_db_def split: option.split)
qed simp

lemma copy_fold:
  assumes "list_all plain_sub xs"
  shows "set (db_summary (foldl (copy_to_top quoted) db xs)) = set (db_summary db) \<union> sub_rows (map path_db xs)"
    "set (db_pentries_rollup (foldl (copy_to_top quoted) db xs)) = set (db_pentries_rollup db) \<union> sub_pentries (map path_db xs)"
    "db_entries (foldl (copy_to_top quoted) db xs) = db_entries db"
    "roots (foldl (copy_to_top quoted) db xs) = roots db"
  using copy_folds [OF assms, of quoted db] by simp_all

lemma in_turn_plain: "list_all plain_sub xs \<Longrightarrow> list_all plain_sub (in_turn n i xs)"
  by (auto simp: list_all_iff in_turn_def dest: set_zip_rightD)

lemma in_turn_union:
  assumes "0 < n"
  shows "set xs = (\<Union>i < n. set (in_turn n i xs))"
proof
  show "(\<Union>i < n. set (in_turn n i xs)) \<subseteq> set xs" by (auto simp: in_turn_def dest: set_zip_rightD)
  show "set xs \<subseteq> (\<Union>i < n. set (in_turn n i xs))"
  proof
    fix x assume "x \<in> set xs"
    then obtain k where k: "k < length xs" "x = xs ! k" by (auto simp: in_set_conv_nth)
    then have "(k, x) \<in> set (zip [0..<length xs] xs)" by (auto simp: in_set_zip intro!: exI [of _ k])
    then have "x \<in> set (in_turn n (k mod n) xs)" by (force simp: in_turn_def image_iff)
    then show "x \<in> (\<Union>i < n. set (in_turn n i xs))" using assms by auto
  qed
qed

lemma sub_sets_union:
  assumes "set xs = (\<Union>i < n. set (ys i))"
  shows "sub_rows (map path_db xs) = (\<Union>i < n. sub_rows (map path_db (ys i)))"
    "sub_pentries (map path_db xs) = (\<Union>i < n. sub_pentries (map path_db (ys i)))"
  unfolding sub_rows_def sub_pentries_def set_map assms by blast+

lemma merge_fold:
  "set (db_summary (foldl rollup_merge db ts)) = set (db_summary db) \<union> (\<Union>t \<in> set ts. set (db_summary t))"
  "set (db_pentries_rollup (foldl rollup_merge db ts)) = set (db_pentries_rollup db) \<union> (\<Union>t \<in> set ts. set (pentries t))"
  "db_entries (foldl rollup_merge db ts) = db_entries db"
  by (induction ts arbitrary: db) (auto simp: rollup_merge_def)

lemma template_roots [simp]: "roots template_rollup_db = []" "db_summary template_rollup_db = []" "db_pentries_rollup template_rollup_db = []"
  by (simp_all add: template_rollup_db_def roots_def)

lemma upt_head: "0 < n \<Longrightarrow> [0..<n] = 0 # map Suc [0..<n - 1]"
  by (cases n) (simp_all add: upt_conv_Cons map_Suc_upt)

text \<open>In whatever order and by however many threads.\<close>

lemma copied:
  assumes "0 < maxthreads" and "list_all plain_sub subs"
  shows "set (db_summary (enqueue_rollup_copy quoted maxthreads topdb subs)) = set (db_summary (rollup_init topdb)) \<union> sub_rows (map path_db subs)"
    "set (db_pentries_rollup (enqueue_rollup_copy quoted maxthreads topdb subs)) = sub_pentries (map path_db subs)"
    "db_entries (enqueue_rollup_copy quoted maxthreads topdb subs) = db_entries topdb"
proof -
  let ?n = "min (length subs) maxthreads" and ?db = "rollup_init topdb"
  let ?t = "thread_db quoted ?db ?n subs"
  note fold = copy_fold [OF in_turn_plain [OF assms(2)]]
  have init: "db_pentries_rollup ?db = []" "db_entries ?db = db_entries topdb" by (simp_all add: rollup_init_def rollup_cleanup_def)
  have "set (db_summary (enqueue_rollup_copy quoted maxthreads topdb subs)) = set (db_summary ?db) \<union> sub_rows (map path_db subs)
    \<and> set (db_pentries_rollup (enqueue_rollup_copy quoted maxthreads topdb subs)) = sub_pentries (map path_db subs)
    \<and> db_entries (enqueue_rollup_copy quoted maxthreads topdb subs) = db_entries topdb"
  proof (cases "subs = []")
    case True
    then show ?thesis using init by (simp add: enqueue_rollup_copy_def)
  next
    case False
    then have n: "0 < ?n" using assms(1) by (cases subs) simp_all
    have c: "enqueue_rollup_copy quoted maxthreads topdb subs = foldl rollup_merge (?t 0) (map (\<lambda>i. ?t (Suc i)) [0..<?n - 1])"
      using False by (simp add: enqueue_rollup_copy_def Let_def upt_head [OF n] comp_def)
    have sum: "set (db_summary (?t (Suc i))) = sub_rows (map path_db (in_turn ?n (Suc i) subs))" for i
      by (simp add: thread_db_def fold)
    have pen: "set (pentries (?t (Suc i))) = sub_pentries (map path_db (in_turn ?n (Suc i) subs))" for i
      by (simp add: pentries_def thread_db_def fold)
    have i0: "{..<?n} = insert 0 (Suc ` {..<?n - 1})" using n lessThan_Suc_eq_insert_0 [of "?n - 1"] by simp
    have rows: "sub_rows (map path_db subs) = sub_rows (map path_db (in_turn ?n 0 subs)) \<union> (\<Union>i < ?n - 1. sub_rows (map path_db (in_turn ?n (Suc i) subs)))"
      using sub_sets_union(1) [OF in_turn_union [OF n]] unfolding i0 by simp
    have pens: "sub_pentries (map path_db subs) = sub_pentries (map path_db (in_turn ?n 0 subs)) \<union> (\<Union>i < ?n - 1. sub_pentries (map path_db (in_turn ?n (Suc i) subs)))"
      using sub_sets_union(2) [OF in_turn_union [OF n]] unfolding i0 by simp
    have t0: "set (db_summary (?t 0)) = set (db_summary ?db) \<union> sub_rows (map path_db (in_turn ?n 0 subs))"
      "set (db_pentries_rollup (?t 0)) = sub_pentries (map path_db (in_turn ?n 0 subs))" "db_entries (?t 0) = db_entries topdb"
      using init by (simp_all add: thread_db_def fold)
    show ?thesis unfolding c merge_fold t0 rows pens using sum pen by (simp add: Un_assoc atLeast0LessThan)
  qed
  then show "set (db_summary (enqueue_rollup_copy quoted maxthreads topdb subs)) = set (db_summary (rollup_init topdb)) \<union> sub_rows (map path_db subs)"
    "set (db_pentries_rollup (enqueue_rollup_copy quoted maxthreads topdb subs)) = sub_pentries (map path_db subs)"
    "db_entries (enqueue_rollup_copy quoted maxthreads topdb subs) = db_entries topdb" by blast+
qed

section \<open>What a query finds afterwards\<close>

definition one_row :: "'e db \<Rightarrow> summary_row \<Rightarrow> bool" where
  "one_row s r \<longleftrightarrow> db_summary s = [r] \<and> rw_isroot r \<and> \<not> rw_isrolledup r \<and> db_pentries_rollup s = []"

lemma one_row_facts:
  assumes "one_row s r"
  shows "roots s = [r]" "set (pentries s) = Pair (rw_inode r) ` set (db_entries s)" "\<not> get_isrolledup s"
  using assms by (auto simp: one_row_def roots_def pentries_def get_isrolledup_def)

lemma fresh_one_row: "fresh (Dir n db cp ls ds) \<Longrightarrow> \<exists>s r. db = Some s \<and> one_row s r \<and> rw_name r = n"
  by (auto simp: fresh_db_def one_row_def split: option.splits)

lemma db_answersI:
  "r \<in> set (db_summary db) \<Longrightarrow> (rw_inode r, e) \<in> set (pentries db) \<Longrightarrow> row_path name len r = p \<Longrightarrow> (p, e) \<in> db_answers name len db"
  unfolding db_answers_def by blast

lemma fresh_dir: "fresh d \<Longrightarrow> \<exists>s r. dir_db d = Some s \<and> one_row s r \<and> rw_name r = dir_name d"
  using fresh_one_row by (metis dir.exhaust dir.sel(1) dir.sel(2))

definition below :: "string \<Rightarrow> 'e dir \<Rightarrow> (string \<times> 'e db option) list" where
  "below p t = map path_db (subdirs_below p t)"

lemma below_Dir [simp]:
  "below p (Dir n db cp ls ds) = concat (map (\<lambda>d. (p @ ''/'' @ dir_name d, dir_db d) # below (p @ ''/'' @ dir_name d) d) ds)"
  by (simp add: below_def map_concat comp_def)

lemma below_fresh:
  "fresh t \<Longrightarrow> (q, x) \<in> set (below p t) \<Longrightarrow> \<exists>s r. x = Some s \<and> one_row s r"
proof (induction t arbitrary: p)
  case (Dir n db cp ls ds)
  then obtain d where d: "d \<in> set ds" "(q, x) = (p @ ''/'' @ dir_name d, dir_db d) \<or> (q, x) \<in> set (below (p @ ''/'' @ dir_name d) d)"
    by auto
  have f: "fresh d" using Dir.prems(1) d(1) by (simp add: list_all_iff)
  show ?case
  proof (cases "(q, x) = (p @ ''/'' @ dir_name d, dir_db d)")
    case True
    then show ?thesis using fresh_dir [OF f] by auto
  next
    case False
    then show ?thesis using d Dir.IH [OF d(1) f] by blast
  qed
qed

lemma below_copied: "fresh t \<Longrightarrow> x \<in> set (subdirs_below p t) \<Longrightarrow> snd (snd x) = Copied"
proof (induction t arbitrary: p)
  case (Dir n db cp ls ds)
  then obtain d where d: "d \<in> set ds" "x = (p @ ''/'' @ dir_name d, dir_db d, dir_copy d) \<or> x \<in> set (subdirs_below (p @ ''/'' @ dir_name d) d)"
    by auto
  have f: "fresh d" using Dir.prems(1) d(1) by (simp add: list_all_iff)
  then have "dir_copy d = Copied" by (cases d) simp
  then show ?case using d Dir.IH [OF d(1) f] by auto
qed

definition sub_inode :: "string \<times> 'e db option \<Rightarrow> nat" where
  "sub_inode x = rw_inode (hd (db_summary (the (snd x))))"

lemma below_inodes: "fresh t \<Longrightarrow> map sub_inode (below p t) = concat (map inodes (dir_subdirs t))"
proof (induction t arbitrary: p)
  case (Dir n db cp ls ds)
  have "map sub_inode ((p @ ''/'' @ dir_name d, dir_db d) # below (p @ ''/'' @ dir_name d) d) = inodes d" if d: "d \<in> set ds" for d
  proof -
    have f: "fresh d" using Dir.prems d by (simp add: list_all_iff)
    obtain s r where r: "dir_db d = Some s" "one_row s r" using fresh_dir [OF f] by blast
    have "inodes d = map rw_inode (db_summary s) @ concat (map inodes (dir_subdirs d))" using r(1) by (cases d) simp
    moreover have "sub_inode (p @ ''/'' @ dir_name d, dir_db d) = rw_inode r" using r by (simp add: sub_inode_def one_row_def)
    ultimately show ?thesis using Dir.IH [OF d f] r(2) by (simp only: list.map one_row_def append.simps)
  qed
  then show ?case by (simp add: map_concat comp_def cong: map_cong)
qed

lemma answers_fresh:
  "fresh t \<Longrightarrow> answers (pre @ p) t = {(pre @ p, e) | e. e \<in> set (db_entries (the (dir_db t)))}
     \<union> {(pre @ q, e) | q s e. (q, Some s) \<in> set (below p t) \<and> e \<in> set (db_entries s)}"
proof (induction t arbitrary: p)
  case (Dir n db cp ls ds)
  obtain s r where s: "db = Some s" "one_row s r" using fresh_one_row Dir.prems by blast
  have own: "db_answers (pre @ p) (length n) s = {(pre @ p, e) | e. e \<in> set (db_entries s)}"
    using one_row_facts(2) [OF s(2)] s(2) by (auto simp: db_answers_def one_row_def row_path_def)
  have sub: "answers ((pre @ p) @ ''/'' @ dir_name d) d = {(pre @ p @ ''/'' @ dir_name d, e) | e. e \<in> set (db_entries (the (dir_db d)))}
     \<union> {(pre @ q, e) | q s e. (q, Some s) \<in> set (below (p @ ''/'' @ dir_name d) d) \<and> e \<in> set (db_entries s)}"
    and some: "\<exists>x. dir_db d = Some x" if d: "d \<in> set ds" for d
  proof -
    have f: "fresh d" using Dir.prems d by (simp add: list_all_iff)
    show "answers ((pre @ p) @ ''/'' @ dir_name d) d = {(pre @ p @ ''/'' @ dir_name d, e) | e. e \<in> set (db_entries (the (dir_db d)))}
     \<union> {(pre @ q, e) | q s e. (q, Some s) \<in> set (below (p @ ''/'' @ dir_name d) d) \<and> e \<in> set (db_entries s)}"
      using Dir.IH [OF d f, of "p @ ''/'' @ dir_name d"] by simp
    show "\<exists>x. dir_db d = Some x" using fresh_dir [OF f] by blast
  qed
  have "(\<Union>d \<in> set ds. answers ((pre @ p) @ ''/'' @ dir_name d) d) =
      {(pre @ q, e) | q s e. (q, Some s) \<in> set (below p (Dir n db cp ls ds)) \<and> e \<in> set (db_entries s)}"
  proof
    show "(\<Union>d \<in> set ds. answers ((pre @ p) @ ''/'' @ dir_name d) d) \<subseteq>
        {(pre @ q, e) | q s e. (q, Some s) \<in> set (below p (Dir n db cp ls ds)) \<and> e \<in> set (db_entries s)}"
    proof
      fix y assume "y \<in> (\<Union>d \<in> set ds. answers ((pre @ p) @ ''/'' @ dir_name d) d)"
      then obtain d where d: "d \<in> set ds" "y \<in> answers ((pre @ p) @ ''/'' @ dir_name d) d" by blast
      obtain x where x: "dir_db d = Some x" using some [OF d(1)] by blast
      from d(2) [unfolded sub [OF d(1)]]
      show "y \<in> {(pre @ q, e) | q s e. (q, Some s) \<in> set (below p (Dir n db cp ls ds)) \<and> e \<in> set (db_entries s)}"
      proof
        assume "y \<in> {(pre @ p @ ''/'' @ dir_name d, e) | e. e \<in> set (db_entries (the (dir_db d)))}"
        then obtain e where "y = (pre @ p @ ''/'' @ dir_name d, e)" "e \<in> set (db_entries x)" using x by auto
        moreover have "(p @ ''/'' @ dir_name d, Some x) \<in> set (below p (Dir n db cp ls ds))" using d(1) x by force
        ultimately show ?thesis by blast
      next
        assume "y \<in> {(pre @ q, e) | q s e. (q, Some s) \<in> set (below (p @ ''/'' @ dir_name d) d) \<and> e \<in> set (db_entries s)}"
        moreover have "set (below (p @ ''/'' @ dir_name d) d) \<subseteq> set (below p (Dir n db cp ls ds))" using d(1) by auto
        ultimately show ?thesis by blast
      qed
    qed
    show "{(pre @ q, e) | q s e. (q, Some s) \<in> set (below p (Dir n db cp ls ds)) \<and> e \<in> set (db_entries s)}
        \<subseteq> (\<Union>d \<in> set ds. answers ((pre @ p) @ ''/'' @ dir_name d) d)"
    proof
      fix y assume "y \<in> {(pre @ q, e) | q s e. (q, Some s) \<in> set (below p (Dir n db cp ls ds)) \<and> e \<in> set (db_entries s)}"
      then obtain q x e d where y: "y = (pre @ q, e)" "e \<in> set (db_entries x)" "d \<in> set ds"
        "(q, Some x) = (p @ ''/'' @ dir_name d, dir_db d) \<or> (q, Some x) \<in> set (below (p @ ''/'' @ dir_name d) d)"
        by auto
      have "y \<in> answers ((pre @ p) @ ''/'' @ dir_name d) d"
        unfolding sub [OF y(3)] using y(1,2,4) by (cases "dir_db d") auto
      then show "y \<in> (\<Union>d \<in> set ds. answers ((pre @ p) @ ''/'' @ dir_name d) d)" using y(3) by blast
    qed
  qed
  then show ?case using s one_row_facts(3) [OF s(2)] own by simp
qed

text \<open>
  C7: Rolling up from the top, by any number of threads that find the directories in any order, changes nothing about
  what a query finds in the subtree: the database of the top alone answers with the paths and the entries that the
  query found in all directories before, when none of them was rolled up, all of them can be copied, their inodes are different and no path
  below the top has a single quote, which would end the text it is put into.
\<close>
theorem topdown_keeps_answers:
  assumes "fresh t" and "distinct (inodes t)" and "set subs = set (subdirs_below (dir_name t) t)" and "0 < maxthreads"
    and "\<forall>x \<in> set subs. CHR 0x27 \<notin> set (fst x)"
  shows "db_answers (pre @ dir_name t) (length (dir_name t)) (enqueue_rollup_copy quoted maxthreads (the (dir_db t)) subs)
    = answers (pre @ dir_name t) t"
proof -
  obtain n db cp ls ds where t: "t = Dir n db cp ls ds" by (cases t)
  obtain d r where d: "db = Some d" "one_row d r" "rw_name r = n" using fresh_one_row assms(1) t by blast
  let ?res = "enqueue_rollup_copy quoted maxthreads d subs" and ?subs = "map path_db subs"
  let ?root = "r\<lparr>rw_canrollup := True, rw_isrolledup := True\<rparr>"
  have init: "db_summary (rollup_init d) = [?root]"
    using one_row_facts(1) [OF d(2)] by (simp add: rollup_init_def rollup_cleanup_def)
  have "list_all plain_sub subs"
    using assms(3,5) below_copied [OF assms(1)] by (auto simp: list_all_iff plain_sub_def)
  note res = copied [OF assms(4) this, of quoted d, unfolded init]
  have subs: "set ?subs = set (below (dir_name t) t)" using assms(3) by (simp only: set_map below_def)
  have sub: "\<exists>rs. one_row s rs" if "(q, Some s) \<in> set ?subs" for q s
    using below_fresh [OF assms(1)] that subs by blast
  have rows: "set (db_summary ?res) = insert ?root (sub_rows ?subs)" using res(1) by simp
  have roots: "x = ?root" if "x \<in> set (roots ?res)" for x
    using that rows by (auto simp: roots_def sub_rows_def as_sub_def)
  have rootin: "?root \<in> set (roots ?res)" using rows d(2) by (simp add: roots_def one_row_def)
  have pent: "set (pentries ?res) = Pair (rw_inode r) ` set (db_entries d) \<union> sub_pentries ?subs"
  proof -
    have "set (roots ?res) = {?root}" using roots rootin by blast
    then show ?thesis by (simp only: pentries_def set_remdups set_append set_concat set_map image_image res(2,3)) simp
  qed
  have path: "row_path (pre @ n) (length n) ?root = pre @ n" using d(3) by (simp add: row_path_def)
  have spath: "row_path (pre @ n) (length n) (as_sub q x) = pre @ q" for q x by (simp add: row_path_def as_sub_def)
  text \<open>An inode belongs to one of the directories.\<close>
  have dis: "distinct (rw_inode r # map sub_inode (below n t))"
    using assms(2) d below_inodes [OF assms(1), of n] t by (simp add: one_row_def)
  have ino: "sub_inode (q, Some s) = rw_inode x" if "one_row s x" for q s x using that by (simp add: sub_inode_def one_row_def)
  have other: "rw_inode x \<noteq> rw_inode r" if "(q, Some s) \<in> set ?subs" "one_row s x" for q s x
  proof -
    have "sub_inode (q, Some s) \<in> set (map sub_inode (below n t))"
      using that(1) subs t by (auto simp del: below_Dir)
    then show ?thesis using dis ino [OF that(2), of q] by auto
  qed
  have same: "(q, s) = (q', s')" if "(q, Some s) \<in> set ?subs" "one_row s x" "(q', Some s') \<in> set ?subs" "one_row s' x'"
      "rw_inode x = rw_inode x'" for q s x q' s' x'
  proof -
    have "inj_on sub_inode (set (below n t))" using dis by (simp add: distinct_map)
    moreover have "set ?subs = set (below n t)" using subs t by simp
    ultimately have "(q, Some s) = (q', Some s')" using that ino [OF that(2), of q] ino [OF that(4), of q'] by (metis inj_onD)
    then show ?thesis by simp
  qed
  have "db_answers (pre @ n) (length n) ?res = {(pre @ n, e) | e. e \<in> set (db_entries d)}
      \<union> {(pre @ q, e) | q s e. (q, Some s) \<in> set ?subs \<and> e \<in> set (db_entries s)}" (is "_ = ?A \<union> ?B")
  proof
    show "db_answers (pre @ n) (length n) ?res \<subseteq> ?A \<union> ?B"
    proof
      fix y assume "y \<in> db_answers (pre @ n) (length n) ?res"
      then obtain x e where y: "y = (row_path (pre @ n) (length n) x, e)" "x \<in> set (db_summary ?res)" "(rw_inode x, e) \<in> set (pentries ?res)"
        by (auto simp: db_answers_def)
      from y(3) [unfolded pent] consider (own) "rw_inode x = rw_inode r" "e \<in> set (db_entries d)"
        | (below) q' s' where "(q', Some s') \<in> set ?subs" "(rw_inode x, e) \<in> set (pentries s')"
        by (auto simp: sub_pentries_def)
      then show "y \<in> ?A \<union> ?B"
      proof cases
        case own
        have "x = ?root"
        proof (rule ccontr)
          assume "x \<noteq> ?root"
          then obtain q s z where "(q, Some s) \<in> set ?subs" "z \<in> set (db_summary s)" "x = as_sub q z"
            using y(2) rows by (auto simp: sub_rows_def)
          moreover obtain rs where "one_row s rs" using sub \<open>(q, Some s) \<in> set ?subs\<close> by blast
          ultimately show False using own(1) other [of q s rs] by (auto simp: one_row_def as_sub_def)
        qed
        then show ?thesis using own(2) y(1) path by auto
      next
        case below
        obtain rs' where rs': "one_row s' rs'" using sub below(1) by blast
        have e: "rw_inode x = rw_inode rs'" "e \<in> set (db_entries s')" using below(2) one_row_facts(2) [OF rs'] by auto
        have "x \<noteq> ?root" using e(1) other [OF below(1) rs'] by auto
        then obtain q s z where z: "(q, Some s) \<in> set ?subs" "z \<in> set (db_summary s)" "x = as_sub q z"
          using y(2) rows by (auto simp: sub_rows_def)
        obtain rs where rs: "one_row s rs" using sub z(1) by blast
        then have "rw_inode rs = rw_inode rs'" using z(2,3) e(1) by (simp add: one_row_def as_sub_def)
        then have "(q, s) = (q', s')" using same [OF z(1) rs below(1) rs'] by simp
        then show ?thesis using y(1) z spath e(2) by auto
      qed
    qed
    show "?A \<union> ?B \<subseteq> db_answers (pre @ n) (length n) ?res"
    proof
      fix y assume "y \<in> ?A \<union> ?B"
      then consider e where "y = (pre @ n, e)" "e \<in> set (db_entries d)"
        | q s e where "y = (pre @ q, e)" "(q, Some s) \<in> set ?subs" "e \<in> set (db_entries s)" by blast
      then show "y \<in> db_answers (pre @ n) (length n) ?res"
      proof cases
        case 1
        then have "(rw_inode ?root, e) \<in> set (pentries ?res)" unfolding pent by simp
        moreover have "?root \<in> set (db_summary ?res)" unfolding rows by simp
        ultimately show ?thesis using path unfolding 1(1) by (intro db_answersI)
      next
        case 2
        obtain rs where rs: "one_row s rs" using sub 2(2) by blast
        have "rs \<in> set (db_summary s)" using rs by (simp add: one_row_def)
        then have "as_sub q rs \<in> sub_rows ?subs" using 2(2) unfolding sub_rows_def by blast
        then have "as_sub q rs \<in> set (db_summary ?res)" unfolding rows by simp
        moreover have "(rw_inode rs, e) \<in> set (pentries s)" using one_row_facts(2) [OF rs] 2(3) by simp
        then have "(rw_inode (as_sub q rs), e) \<in> set (pentries ?res)"
          using 2(2) unfolding pent sub_pentries_def as_sub_def by auto
        ultimately show ?thesis using spath [of q rs] unfolding 2(1) by (intro db_answersI)
      qed
    qed
  qed
  then show ?thesis using answers_fresh [OF assms(1), of pre n] subs t d(1) by simp
qed

lemma topdown_keeps_answers_witness:
  "db_answers (''/x/'' @ dir_name sample_index) (length (dir_name sample_index))
      (enqueue_rollup_copy (\<lambda>_ _ db. db) 2 (the (dir_db sample_index)) (rev (subdirs_below (dir_name sample_index) sample_index)))
    = answers (''/x/'' @ dir_name sample_index) sample_index"
  proof (rule topdown_keeps_answers [OF sample_index_ok(1,2)])
  show "\<forall>x \<in> set (rev (subdirs_below (dir_name sample_index) sample_index)). CHR 0x27 \<notin> set (fst x)"
    by (simp add: sample_index_def)
qed simp_all

text \<open>
  When a subdirectory was rolled up before, its database is copied with all the rows of the directories below it,
  and all of them get the path of the subdirectory: a query then finds entries of deeper directories under it.
\<close>
theorem topdown_renames_rolled_rows:
  assumes "(q, Some s, c) \<in> set subs" and "r \<in> set (db_summary s)" and "(rw_inode r, e) \<in> set (pentries s)" and "0 < maxthreads"
    and "list_all plain_sub subs"
  shows "(take (length name - basename_len) name @ q, e) \<in> db_answers name basename_len (enqueue_rollup_copy quoted maxthreads topdb subs)"
proof (rule db_answersI)
  have "as_sub q r \<in> sub_rows (map path_db subs)" using assms(1,2) unfolding sub_rows_def by force
  then show "as_sub q r \<in> set (db_summary (enqueue_rollup_copy quoted maxthreads topdb subs))"
    unfolding copied(1) [OF assms(4,5)] by simp
  have "(rw_inode r, e) \<in> sub_pentries (map path_db subs)" using assms(1,3) unfolding sub_pentries_def by force
  then show "(rw_inode (as_sub q r), e) \<in> set (pentries (enqueue_rollup_copy quoted maxthreads topdb subs))"
    by (simp add: pentries_def copied(2) [OF assms(4,5)] as_sub_def)
  show "row_path name basename_len (as_sub q r) = take (length name - basename_len) name @ q"
    by (simp add: row_path_def as_sub_def)
qed

text \<open>\<open>r/a\<close> was rolled up and has the entry 30 of \<open>r/a/b\<close>.\<close>

definition rolled_sub :: "nat db" where
  "rolled_sub = \<lparr>db_summary =
     [\<lparr>rw_isroot = True, rw_name = ''a'', rw_inode = 2, rw_depth = 1, rw_perms = no_permissions, rw_nondirs = 0,
       rw_canrollup = True, rw_isrolledup = True\<rparr>,
      \<lparr>rw_isroot = False, rw_name = ''a/b'', rw_inode = 3, rw_depth = 2, rw_perms = no_permissions, rw_nondirs = 1,
       rw_canrollup = True, rw_isrolledup = True\<rparr>],
     db_entries = [], db_pentries_rollup = [(3, 30)], db_treesummary = []\<rparr>"

lemma topdown_renames_rolled_rows_witness:
  "(''/x/r/a'', 30) \<in> db_answers ''/x/r'' 1 (enqueue_rollup_copy (\<lambda>_ _ db. db) 2 (sample_db ''r'' 1 493 [10]) [(''r/a'', Some rolled_sub, Copied)])"
  using topdown_renames_rolled_rows [where q = "''r/a''" and s = rolled_sub and subs = "[(''r/a'', Some rolled_sub, Copied)]"
      and r = "db_summary rolled_sub ! 1" and e = 30 and maxthreads = 2 and name = "''/x/r''" and basename_len = 1 and c = Copied and quoted = "\<lambda>_ _ db. db"
      and topdb = "sample_db ''r'' 1 493 [10]"]
  by (simp add: rolled_sub_def pentries_def roots_def plain_sub_def)

text \<open>
  A quote in the path of a subdirectory: when SQLite takes what it makes of the statement for an error, the entries are
  copied, but no row of \<open>summary\<close> that they belong to.
\<close>
lemma topdown_quote_loses_summary:
  assumes "CHR 0x27 \<in> set q" and "0 < maxthreads"
  shows "db_summary (enqueue_rollup_copy (\<lambda>_ _ db. db) maxthreads topdb [(q, Some s, Copied)]) = db_summary (rollup_init topdb)
    \<and> db_pentries_rollup (enqueue_rollup_copy (\<lambda>_ _ db. db) maxthreads topdb [(q, Some s, Copied)]) = pentries s"
proof -
  have "in_turn 1 0 [(q, Some s, Copied)] = [(q, Some s, Copied)]" by (simp add: in_turn_def)
  moreover have "min 1 maxthreads = 1" using assms(2) by simp
  ultimately show ?thesis
    using assms(1)
    by (simp add: enqueue_rollup_copy_def thread_db_def copy_to_top_def copy_statements_def insert_pentries_def
        rollup_init_def rollup_cleanup_def Let_def)
qed

section \<open>The tops\<close>

text \<open>The directories that are examined: those below a directory that does not roll up.\<close>

fun examined :: "topdown_in \<Rightarrow> ('e db \<Rightarrow> nat option) \<Rightarrow> (string \<Rightarrow> bool) \<Rightarrow> nat \<Rightarrow> string \<Rightarrow> 'e dir \<Rightarrow> nat" where
  "examined inp tree_entries opens level name (Dir n db cp ls ds) =
     1 + (if \<not> opens name \<or> decide_top inp tree_entries level db \<in> {Is_top, Query_failed} \<or> td_max_level inp < level + 1 then 0
          else sum_list (map (\<lambda>d. examined inp tree_entries opens (level + 1) (name @ ''/'' @ dir_name d) d) ds))"

lemma no_topdown_stats [simp]: "tp_not_rolledup no_topdown_stats = 0" "tp_top no_topdown_stats = 0"
  by (simp_all add: no_topdown_stats_def)

lemma foldr_stats:
  "tp_not_rolledup (foldr add_topdown_stats xs no_topdown_stats) = sum_list (map tp_not_rolledup xs)"
  "tp_top (foldr add_topdown_stats xs no_topdown_stats) = sum_list (map tp_top xs)"
  by (induction xs) (simp_all add: add_topdown_stats_def)

text \<open>The number of directories to traverse that is printed at the end counts each examined directory once.\<close>

lemma topdown_remaining:
  "tp_not_rolledup (snd (find_rollup_top inp tree_entries opens level name t))
     + tp_top (snd (find_rollup_top inp tree_entries opens level name t)) = examined inp tree_entries opens level name t"
proof (induction t arbitrary: level name)
  case (Dir n db cp ls ds)
  let ?f = "\<lambda>d. find_rollup_top inp tree_entries opens (level + 1) (name @ ''/'' @ dir_name d) d"
  have "sum_list (map (\<lambda>d. tp_not_rolledup (snd (?f d)) + tp_top (snd (?f d))) ds) =
      sum_list (map (\<lambda>d. examined inp tree_entries opens (level + 1) (name @ ''/'' @ dir_name d) d) ds)"
    by (intro arg_cong [where f = sum_list] map_cong refl) (rule Dir.IH)
  then have s: "sum_list (map (\<lambda>d. tp_not_rolledup (snd (?f d))) ds) + sum_list (map (\<lambda>d. tp_top (snd (?f d))) ds) =
      sum_list (map (\<lambda>d. examined inp tree_entries opens (level + 1) (name @ ''/'' @ dir_name d) d) ds)"
    by (simp only: sum_list_add)
  show ?case using s
    by (cases "decide_top inp tree_entries level db")
      (simp_all add: Let_def add_topdown_stats_def foldr_stats comp_def)
qed

end
