(* ===== verification/Replace.thy ===== *)
theory Replace
  imports Trie
begin

text \<open>
  The replacement of \<open>{key}\<close> in the SQL of the user: \<open>src/src/gufi_query/query_replacement.c\<close> and
  \<open>query_user_strs.c\<close>.  The keys are found once; in each directory their values, kept in a trie, are
  copied into a buffer that grows.  A buffer is its contents and the number of bytes allocated; \<open>mem n\<close>
  tells whether \<open>realloc\<close> to \<open>n\<close> bytes succeeds.  Copying more than is allocated, or a negative number of
  bytes (which \<open>size_t\<close> makes a huge one), is the error \<open>Invalid\<close>.
\<close>

section \<open>Finding the keys\<close>

definition USER_STR_START :: char where "USER_STR_START = CHR ''{''"
definition USER_STR_END :: char where "USER_STR_END = CHR ''}''"

record usk =
  us_start :: nat
  us_end :: nat

definition find_stop :: "string \<Rightarrow> nat \<Rightarrow> nat" where
  "find_stop sql j = j + length (takeWhile (\<lambda>c. c \<noteq> USER_STR_END) (drop j sql))"

definition save_user_str :: "string \<Rightarrow> nat \<Rightarrow> usk list" where
  "save_user_str sql i =
     (let j = find_stop sql (i + 1)
      in if i + 1 = j then []
         else if j = length sql then []
         else [\<lparr>us_start = i, us_end = j\<rparr>])"

definition saved_at :: "string \<Rightarrow> nat \<Rightarrow> usk list" where
  "saved_at sql i = (if sql ! i = USER_STR_START then save_user_str sql i else [])"

definition save_replacements :: "string \<Rightarrow> usk list" where
  "save_replacements sql = concat (map (saved_at sql) [0..<length sql])"

section \<open>Replacing them\<close>

datatype replace_error = NoMemory | NoKey string | Invalid

record buf =
  bf_data :: string
  bf_allocd :: nat

type_synonym 'a result = "replace_error + 'a"

definition resize :: "(nat \<Rightarrow> bool) \<Rightarrow> nat \<Rightarrow> buf \<Rightarrow> buf result" where
  "resize mem n b = (if mem n then Inr (b\<lparr>bf_allocd := n\<rparr>) else Inl NoMemory)"

definition copy_in :: "string \<Rightarrow> buf \<Rightarrow> buf result" where
  "copy_in s b = (if length (bf_data b) + length s \<le> bf_allocd b then Inr (b\<lparr>bf_data := bf_data b @ s\<rparr>)
     else Inl Invalid)"

text \<open>The new value of \<open>orig_start\<close> is the position of the stop character.\<close>

definition replace_user_str ::
    "(nat \<Rightarrow> bool) \<Rightarrow> (string, 'f) trie \<Rightarrow> string \<Rightarrow> usk \<Rightarrow> buf \<Rightarrow> (buf \<times> nat) result" where
  "replace_user_str mem user_strs sql usk replaced =
     (let len = us_end usk - 1 - (us_start usk + 1) + 1;
          key = take len (drop (us_start usk + 1) sql)
      in case trie_search (Some user_strs) (Some key) of
           None \<Rightarrow> Inl (NoKey key)
         | Some None \<Rightarrow> Inl Invalid
         | Some (Some val) \<Rightarrow>
             let req_alloc = length (bf_data replaced) + length val + 1
             in bind_result
                  (if bf_allocd replaced \<le> req_alloc then resize mem (req_alloc * 2) replaced else Inr replaced)
                  (\<lambda>b. bind_result (copy_in val b) (\<lambda>b. Inr (b, us_end usk))))"

fun replace_loop ::
    "(nat \<Rightarrow> bool) \<Rightarrow> (string, 'f) trie \<Rightarrow> string \<Rightarrow> usk list \<Rightarrow> nat \<Rightarrow> buf \<Rightarrow> (buf \<times> nat) result" where
  "replace_loop mem user_strs orig [] orig_start replaced = Inr (replaced, orig_start)"
| "replace_loop mem user_strs orig (pos # idx) orig_start replaced =
     (if us_start pos < orig_start then Inl Invalid
      else
        let start = us_start pos;
            unmodified_len = start - orig_start;
            required = length (bf_data replaced) + unmodified_len + 1
        in bind_result (if bf_allocd replaced \<le> required then resize mem (required * 2) replaced else Inr replaced)
             (\<lambda>b. bind_result (copy_in (take unmodified_len (drop orig_start orig)) b)
             (\<lambda>b. bind_result
                    (if orig ! start = USER_STR_START then replace_user_str mem user_strs orig pos b
                     else Inr (b, orig_start + unmodified_len))
             (\<lambda>(b, o'). replace_loop mem user_strs orig idx (o' + 1) b))))"

definition replace_rest :: "(nat \<Rightarrow> bool) \<Rightarrow> string \<Rightarrow> buf \<Rightarrow> nat \<Rightarrow> string result" where
  "replace_rest mem orig b orig_start =
     (if length orig < orig_start then Inl Invalid
      else
        let required = length (bf_data b) + (length orig - orig_start) + 1
        in bind_result (if bf_allocd b < required then resize mem required b else Inr b)
             (\<lambda>b. bind_result (copy_in (drop orig_start orig) b)
             (\<lambda>b. if length (bf_data b) < bf_allocd b then Inr (bf_data b) else Inl Invalid)))"

text \<open>The result, NUL terminated, is \<open>used\<close>; without keys it is the original.\<close>

definition replace_sql :: "(nat \<Rightarrow> bool) \<Rightarrow> (string, 'f) trie \<Rightarrow> string \<Rightarrow> usk list \<Rightarrow> string result" where
  "replace_sql mem user_strs orig idx =
     (if idx = [] then Inr orig
      else bind_result (replace_loop mem user_strs orig idx 0 \<lparr>bf_data = [], bf_allocd = 0\<rparr>)
        (\<lambda>(b, orig_start). replace_rest mem orig b orig_start))"

section \<open>What it should be\<close>

text \<open>The text is read once: \<open>{key}\<close> gives the value of \<open>key\<close>, \<open>{}\<close> and a brace that is not closed stay.\<close>

function replaced_text :: "(string \<Rightarrow> string option) \<Rightarrow> string \<Rightarrow> string result" where
  "replaced_text val [] = Inr []"
| "replaced_text val (c # cs) =
     (let key = takeWhile (\<lambda>c. c \<noteq> USER_STR_END) cs; rest = dropWhile (\<lambda>c. c \<noteq> USER_STR_END) cs
      in if c \<noteq> USER_STR_START \<or> key = [] \<or> rest = [] then bind_result (replaced_text val cs) (\<lambda>s. Inr (c # s))
         else case val key of
                None \<Rightarrow> Inl (NoKey key)
              | Some v \<Rightarrow> bind_result (replaced_text val (tl rest)) (\<lambda>s. Inr (v @ s)))"
  by pat_completeness auto

termination
proof (relation "measure (\<lambda>(val, s). length s)", goal_cases)
  case (3 val c cs x xa v)
  then show ?case
    using length_dropWhile_le [of "\<lambda>c. c \<noteq> USER_STR_END" cs] by simp
qed auto

text \<open>No key contains a brace.\<close>

fun no_nested :: "string \<Rightarrow> bool" where
  "no_nested [] = True"
| "no_nested (c # cs) = ((c = USER_STR_START \<and> dropWhile (\<lambda>c. c \<noteq> USER_STR_END) cs \<noteq> []
      \<longrightarrow> USER_STR_START \<notin> set (takeWhile (\<lambda>c. c \<noteq> USER_STR_END) cs)) \<and> no_nested cs)"


declare replaced_text.simps(2) [simp del]

definition user_value :: "(string, 'f) trie \<Rightarrow> string \<Rightarrow> string option" where
  "user_value t key = (case trie_search (Some t) (Some key) of Some (Some v) \<Rightarrow> Some v | _ \<Rightarrow> None)"

text \<open>No null value was put into the trie.\<close>

definition values_set :: "(string, 'f) trie \<Rightarrow> bool" where
  "values_set t \<longleftrightarrow> (\<forall>key. trie_search (Some t) (Some key) \<noteq> Some None)"

section \<open>The positions of the keys\<close>

definition saved_from :: "string \<Rightarrow> nat \<Rightarrow> usk list" where
  "saved_from sql p = concat (map (saved_at sql) [p..<length sql])"

lemma saved_from_end [simp]: "length sql \<le> p \<Longrightarrow> saved_from sql p = []"
  by (simp add: saved_from_def)

lemma saved_from_step: "p < length sql \<Longrightarrow> saved_from sql p = saved_at sql p @ saved_from sql (Suc p)"
  by (simp add: saved_from_def upt_conv_Cons)

lemma saved_from_skip:
  assumes "\<And>i. p \<le> i \<Longrightarrow> i < q \<Longrightarrow> i < length sql \<Longrightarrow> saved_at sql i = []" "p \<le> q"
  shows "saved_from sql p = saved_from sql q"
  using assms
proof (induction "q - p" arbitrary: p)
  case (Suc n)
  show ?case
  proof (cases "p < length sql")
    case True
    have "saved_from sql (Suc p) = saved_from sql q"
      using Suc by auto
    then show ?thesis
      using True Suc.prems Suc.hyps(2) by (simp add: saved_from_step)
  qed (use Suc.prems in simp)
qed simp

abbreviation key_of :: "string \<Rightarrow> string" where
  "key_of cs \<equiv> takeWhile (\<lambda>c. c \<noteq> USER_STR_END) cs"

abbreviation rest_of :: "string \<Rightarrow> string" where
  "rest_of cs \<equiv> dropWhile (\<lambda>c. c \<noteq> USER_STR_END) cs"

lemma key_rest: "length cs = length (key_of cs) + length (rest_of cs)"
  by (metis length_append takeWhile_dropWhile_id)

lemma rest_drop: "rest_of cs = drop (length (key_of cs)) cs"
  by (simp add: dropWhile_eq_drop)

lemma saved_at_eq:
  assumes "p < length sql" "cs = drop (Suc p) sql"
  shows "saved_at sql p = (if sql ! p = USER_STR_START \<and> key_of cs \<noteq> [] \<and> rest_of cs \<noteq> []
     then [\<lparr>us_start = p, us_end = Suc (p + length (key_of cs))\<rparr>] else [])"
proof -
  have "length sql = Suc p + length cs"
    using assms by simp
  then have "Suc (p + length (key_of cs)) = length sql \<longleftrightarrow> rest_of cs = []"
    using key_rest [of cs] by (simp only: length_0_conv [symmetric]) linarith
  then show ?thesis
    by (simp add: saved_at_def save_user_str_def find_stop_def Let_def assms(2) del: dropWhile_eq_Nil_conv)
qed

lemma key_has_no_start:
  assumes "no_nested (drop p sql)" "p < length sql" "sql ! p = USER_STR_START" "cs = drop (Suc p) sql" "rest_of cs \<noteq> []"
    and i: "Suc p \<le> i" "i < Suc (Suc (p + length (key_of cs)))" "i < length sql"
  shows "saved_at sql i = []"
proof -
  have "drop p sql = sql ! p # cs"
    using assms(2,4) by (metis Cons_nth_drop_Suc)
  then have no: "USER_STR_START \<notin> set (key_of cs)"
    using assms by simp
  have c: "sql ! i = cs ! (i - Suc p)"
    using assms by (simp add: nth_drop)
  have "sql ! i \<noteq> USER_STR_START"
  proof (cases "i - Suc p < length (key_of cs)")
    case True
    then have "sql ! i = key_of cs ! (i - Suc p)"
      by (simp add: c takeWhile_nth)
    then show ?thesis
      using True no by (metis nth_mem)
  next
    case False
    then have "i - Suc p = length (key_of cs)"
      using i by simp
    then have "sql ! i = USER_STR_END"
      using assms(5) c nth_length_takeWhile [of "\<lambda>c. c \<noteq> USER_STR_END" cs] key_rest [of cs] by auto
    then show ?thesis by (simp add: USER_STR_START_def USER_STR_END_def)
  qed
  then show ?thesis by (simp add: saved_at_def)
qed

lemma no_nested_drop: "no_nested s \<Longrightarrow> no_nested (drop n s)"
  by (induction s arbitrary: n) (auto simp: drop_Cons split: nat.splits)

text \<open>The buffer grows to what is asked for, or an allocation fails.\<close>

lemma grow:
  obtains (none) n where "(if bf_allocd b \<le> r then resize mem (r * 2) b else Inr b) = Inl NoMemory" "\<not> mem n"
  | (some) a where "(if bf_allocd b \<le> r then resize mem (r * 2) b else Inr b) = Inr (b\<lparr>bf_allocd := a\<rparr>)" "r \<le> a"
proof (cases "bf_allocd b \<le> r")
  case True
  then show ?thesis using none [of "r * 2"] some [of "r * 2"] by (cases "mem (r * 2)") (simp_all add: resize_def)
next
  case False
  then show ?thesis using some [of "bf_allocd b"] by simp
qed

definition or_no_memory :: "(nat \<Rightarrow> bool) \<Rightarrow> replace_error + 'a \<Rightarrow> replace_error + 'a \<Rightarrow> bool" where
  "or_no_memory mem r s \<longleftrightarrow> r = s \<or> r = Inl NoMemory \<and> (\<exists>n. \<not> mem n)"

lemma or_no_memory_bind:
  "or_no_memory mem r s \<Longrightarrow> (\<And>a. s = Inr a \<Longrightarrow> or_no_memory mem (f a) (g a)) \<Longrightarrow>
   or_no_memory mem (bind_result r f) (bind_result s g)"
  by (cases s) (auto simp: or_no_memory_def)

lemma replace_rest_eq:
  assumes "q \<le> length orig"
  shows "or_no_memory mem (replace_rest mem orig b q) (Inr (bf_data b @ drop q orig))"
  using assms by (auto simp: replace_rest_def Let_def resize_def copy_in_def or_no_memory_def)

section \<open>The loop does what it should\<close>

lemma replaced_text_keep:
  "c \<noteq> USER_STR_START \<or> key_of cs = [] \<or> rest_of cs = [] \<Longrightarrow>
   replaced_text val (c # cs) = bind_result (replaced_text val cs) (\<lambda>s. Inr (c # s))"
  by (simp add: replaced_text.simps(2) Let_def)

lemma replaced_text_key:
  "key_of cs \<noteq> [] \<Longrightarrow> rest_of cs \<noteq> [] \<Longrightarrow>
   replaced_text val (USER_STR_START # cs) =
     (case val (key_of cs) of
        None \<Rightarrow> Inl (NoKey (key_of cs))
      | Some v \<Rightarrow> bind_result (replaced_text val (tl (rest_of cs))) (\<lambda>s. Inr (v @ s)))"
  by (simp add: replaced_text.simps(2) Let_def del: dropWhile_eq_Nil_conv)

lemma copy_in_fits: "length (bf_data b) + length s \<le> bf_allocd b \<Longrightarrow> copy_in s b = Inr (b\<lparr>bf_data := bf_data b @ s\<rparr>)"
  by (simp add: copy_in_def)

text \<open>One turn of the loop: the text in front of the key and the value of the key are appended.\<close>

lemma replace_loop_key:
  assumes vals: "values_set t"
    and q: "q \<le> p" "p < length sql" "sql ! p = USER_STR_START" "cs = drop (Suc p) sql"
    and k: "key_of cs \<noteq> []"
  shows "\<exists>a. or_no_memory mem
    (replace_loop mem t sql (\<lparr>us_start = p, us_end = Suc (p + length (key_of cs))\<rparr> # ks) q b)
    (case user_value t (key_of cs) of
       None \<Rightarrow> Inl (NoKey (key_of cs))
     | Some v \<Rightarrow> replace_loop mem t sql ks (Suc (Suc (p + length (key_of cs))))
         \<lparr>bf_data = bf_data b @ take (p - q) (drop q sql) @ v, bf_allocd = a\<rparr>)"
proof -
  let ?k = "\<lparr>us_start = p, us_end = Suc (p + length (key_of cs))\<rparr>"
  let ?r = "length (bf_data b) + (p - q) + 1"
  have "take (length (key_of cs)) cs = key_of cs"
    by (metis append_eq_conv_conj takeWhile_dropWhile_id)
  then have key: "take (Suc (p + length (key_of cs)) - 1 - (p + 1) + 1) (drop (p + 1) sql) = key_of cs"
    using k by (simp add: q(4))
  show ?thesis
  proof (cases rule: grow [of b ?r mem])
    case (none n)
    have "replace_loop mem t sql (?k # ks) q b = Inl NoMemory"
      unfolding replace_loop.simps(2) Let_def usk.simps none bind_result_simps using q by simp
    with none show ?thesis by (auto simp: or_no_memory_def)
  next
    case (some a)
    let ?b = "b\<lparr>bf_allocd := a, bf_data := bf_data b @ take (p - q) (drop q sql)\<rparr>"
    have cp: "copy_in (take (p - q) (drop q sql)) (b\<lparr>bf_allocd := a\<rparr>) = Inr ?b"
      using some(2) by (simp add: copy_in_def)
    have loop: "replace_loop mem t sql (?k # ks) q b =
        bind_result (replace_user_str mem t sql ?k ?b) (\<lambda>(b, p). replace_loop mem t sql ks (p + 1) b)"
      unfolding replace_loop.simps(2) Let_def usk.simps some(1) bind_result_simps cp using q by simp
    show ?thesis
    proof (cases "user_value t (key_of cs)")
      case None
      then have "trie_search (Some t) (Some (key_of cs)) = None"
        using vals by (auto simp: user_value_def values_set_def split: option.splits)
      then have "replace_user_str mem t sql ?k ?b = Inl (NoKey (key_of cs))"
        unfolding replace_user_str_def usk.simps key Let_def by simp
      then show ?thesis
        unfolding loop by (simp add: None or_no_memory_def)
    next
      case (Some v)
      then have t: "trie_search (Some t) (Some (key_of cs)) = Some (Some v)"
        by (auto simp: user_value_def split: option.splits)
      let ?r' = "length (bf_data ?b) + length v + 1"
      show ?thesis
      proof (cases rule: grow [of ?b ?r' mem])
        case (none n)
        then have "replace_user_str mem t sql ?k ?b = Inl NoMemory"
          unfolding replace_user_str_def usk.simps key Let_def t option.case none(1) by simp
        then show ?thesis
          using none unfolding loop by (auto simp: or_no_memory_def)
      next
        case a': (some a')
        then have "replace_user_str mem t sql ?k ?b =
            Inr (\<lparr>bf_data = bf_data b @ take (p - q) (drop q sql) @ v, bf_allocd = a'\<rparr>, Suc (p + length (key_of cs)))"
          unfolding replace_user_str_def usk.simps key Let_def t option.case a'(1) bind_result_simps
          by (simp add: copy_in_def)
        then show ?thesis
          unfolding loop by (auto simp: Some or_no_memory_def)
      qed
    qed
  qed
qed

lemma replace_from:
  assumes vals: "values_set t"
  shows "q \<le> p \<Longrightarrow> p \<le> length sql \<Longrightarrow> no_nested (drop p sql) \<Longrightarrow>
    or_no_memory mem
      (bind_result (replace_loop mem t sql (saved_from sql p) q b) (\<lambda>(b, q). replace_rest mem sql b q))
      (bind_result (replaced_text (user_value t) (drop p sql)) (\<lambda>s. Inr (bf_data b @ take (p - q) (drop q sql) @ s)))"
proof (induction "length sql - p" arbitrary: p q b rule: less_induct)
  case less
  let ?cs = "drop (Suc p) sql"
  show ?case
  proof (cases "p = length sql")
    case True
    then have "take (p - q) (drop q sql) = drop q sql" by simp
    then show ?thesis
      using replace_rest_eq [of q sql mem b] less.prems True by simp
  next
    case False
    then have p: "p < length sql" and d: "drop p sql = sql ! p # ?cs"
      using less.prems by (auto simp: Cons_nth_drop_Suc)
    have nn: "no_nested (drop n (drop p sql))" for n
      by (rule no_nested_drop [OF less.prems(3)])
    show ?thesis
    proof (cases "sql ! p = USER_STR_START \<and> key_of ?cs \<noteq> [] \<and> rest_of ?cs \<noteq> []")
      case True
      let ?e = "Suc (Suc (p + length (key_of ?cs)))"
      have at: "saved_at sql p = [\<lparr>us_start = p, us_end = Suc (p + length (key_of ?cs))\<rparr>]"
        using True saved_at_eq [OF p refl] by presburger
      have "saved_from sql (Suc p) = saved_from sql ?e"
        using key_has_no_start [OF less.prems(3) p _ refl] True by (intro saved_from_skip) auto
      then have sv: "saved_from sql p = \<lparr>us_start = p, us_end = Suc (p + length (key_of ?cs))\<rparr> # saved_from sql ?e"
        using saved_from_step [OF p] at by simp
      have "length (rest_of ?cs) \<noteq> 0"
        using True by (simp del: dropWhile_eq_Nil_conv)
      moreover have "length sql = Suc p + length ?cs"
        using p by simp
      ultimately have e: "?e \<le> length sql"
        using key_rest [of ?cs] by linarith
      have tl: "tl (rest_of ?cs) = drop ?e sql"
        by (simp add: rest_drop tl_drop drop_Suc add.commute)
      have nn': "no_nested (drop ?e sql)"
        using nn [of "?e - p"] by (simp add: add.commute)
      have body: "replaced_text (user_value t) (drop p sql) =
          (case user_value t (key_of ?cs) of
             None \<Rightarrow> Inl (NoKey (key_of ?cs))
           | Some v \<Rightarrow> bind_result (replaced_text (user_value t) (drop ?e sql)) (\<lambda>s. Inr (v @ s)))"
        using True replaced_text_key [of ?cs "user_value t"] unfolding d tl by simp
      obtain a where a: "or_no_memory mem (replace_loop mem t sql (saved_from sql p) q b)
          (case user_value t (key_of ?cs) of
             None \<Rightarrow> Inl (NoKey (key_of ?cs))
           | Some v \<Rightarrow> replace_loop mem t sql (saved_from sql ?e) ?e
               \<lparr>bf_data = bf_data b @ take (p - q) (drop q sql) @ v, bf_allocd = a\<rparr>)"
        unfolding sv using replace_loop_key [OF vals less.prems(1) p _ refl] True by blast
      show ?thesis
      proof (cases "user_value t (key_of ?cs)")
        case None
        then show ?thesis
          using a by (auto simp: body or_no_memory_def)
      next
        case (Some v)
        have "or_no_memory mem
          (bind_result (replace_loop mem t sql (saved_from sql ?e) ?e
             \<lparr>bf_data = bf_data b @ take (p - q) (drop q sql) @ v, bf_allocd = a\<rparr>) (\<lambda>(b, q). replace_rest mem sql b q))
          (bind_result (replaced_text (user_value t) (drop ?e sql))
             (\<lambda>s. Inr ((bf_data b @ take (p - q) (drop q sql) @ v) @ take (?e - ?e) (drop ?e sql) @ s)))"
          using less.hyps [of ?e ?e "\<lparr>bf_data = bf_data b @ take (p - q) (drop q sql) @ v, bf_allocd = a\<rparr>"] p e nn'
          by simp
        then show ?thesis
          using a by (auto simp: body Some or_no_memory_def bind_result_assoc)
      qed
    next
      case False
      then have at: "saved_at sql p = []"
        using saved_at_eq [OF p refl] by presburger
      have body: "replaced_text (user_value t) (drop p sql) =
          bind_result (replaced_text (user_value t) ?cs) (\<lambda>s. Inr (sql ! p # s))"
        unfolding d using False by (intro replaced_text_keep) blast
      have "take (Suc p - q) (drop q sql) = take (p - q) (drop q sql) @ [sql ! p]"
        using less.prems(1) p by (simp add: Suc_diff_le take_Suc_conv_app_nth)
      then show ?thesis
        using less.hyps [of "Suc p" q b] p less.prems(1) nn [of 1] saved_from_step [OF p] at
        by (simp add: body bind_result_assoc)
    qed
  qed
qed

section \<open>Properties\<close>

text \<open>C34: In a text whose keys contain no opening brace, the replacement puts the value of each key, gives back
  the first key that has none, or runs out of memory; it never writes behind the buffer, whatever
  sizes the text and the values have.\<close>

theorem replace_sql_replaces:
  assumes "no_nested sql" "values_set t"
  shows "or_no_memory mem (replace_sql mem t sql (save_replacements sql)) (replaced_text (user_value t) sql)"
proof -
  have sv: "save_replacements sql = saved_from sql 0"
    by (simp add: save_replacements_def saved_from_def)
  have all: "or_no_memory mem
      (bind_result (replace_loop mem t sql (saved_from sql 0) 0 \<lparr>bf_data = [], bf_allocd = 0\<rparr>)
         (\<lambda>(b, q). replace_rest mem sql b q)) (replaced_text (user_value t) sql)" for mem
    using replace_from [OF assms(2), of 0 0 sql mem "\<lparr>bf_data = [], bf_allocd = 0\<rparr>"] assms(1)
    by (cases "replaced_text (user_value t) sql") simp_all
  show ?thesis
  proof (cases "saved_from sql 0 = []")
    case True
    have "replaced_text (user_value t) sql = Inr sql"
      using all [of "\<lambda>_. True"] replace_rest_eq [of 0 sql "\<lambda>_. True"] True
      by (simp add: or_no_memory_def)
    then show ?thesis
      by (simp add: replace_sql_def sv True or_no_memory_def)
  qed (use all [of mem] in \<open>simp add: replace_sql_def sv\<close>)
qed

lemma replace_sql_replaces_witness:
  "or_no_memory (\<lambda>n. n < 40)
     (replace_sql (\<lambda>n. n < 40) (fst (trie_insert_node trie_alloc ''n'' (Some ''dir'') (None :: unit option)))
        ''{n}{}!'' (save_replacements ''{n}{}!''))
     (Inr ''dir{}!'')"
proof -
  let ?t = "fst (trie_insert_node trie_alloc ''n'' (Some ''dir'') (None :: unit option))"
  have v: "values_set ?t"
    by (auto simp: values_set_def trie_search_def trie_search_insert)
  have n: "no_nested ''{n}{}!''"
    by (simp add: USER_STR_START_def USER_STR_END_def)
  have "user_value ?t = (\<lambda>k. if k = ''n'' then Some ''dir'' else None)"
    by (rule ext) (simp add: user_value_def trie_search_def trie_search_insert)
  then have "replaced_text (user_value ?t) ''{n}{}!'' = Inr ''dir{}!''"
    by (simp add: replaced_text.simps(2) USER_STR_START_def USER_STR_END_def Let_def)
  then show ?thesis
    using replace_sql_replaces [OF n v, of "\<lambda>n. n < 40"] by simp
qed

end
