(* ===== verification/ExtAttach.thy ===== *)
theory ExtAttach
  imports Utils FdIO
begin

text \<open>
  Attaching external databases: \<open>src/src/external_attach.c\<close>, \<open>src/src/gufi_query/external_attach.c\<close>, the
  attaching and detaching of \<open>src/src/dbutils.c\<close> and the SQL function \<open>basename\<close> of
  \<open>src/src/addqueryfuncs.c\<close>.  A connection is the names attached to it and its temporary views.  What
  SQLite can open, create and hold is a parameter; it refuses a name that is taken and to detach one
  that is not there.  A query on \<open>external_dbs\<close> is the filter its text says.
\<close>

section \<open>Paths for SQLite\<close>

definition need_convert :: "(char \<times> string) list" where
  "need_convert = [(CHR ''#'', ''%23''), (CHR ''?'', ''%3f''), (CHR ''%'', ''%25'')]"

definition convert :: "char \<Rightarrow> string" where
  "convert c = (case map_of need_convert c of None \<Rightarrow> [c] | Some d \<Rightarrow> d)"

text \<open>What is written into \<open>dst_size\<close> bytes, and how much of \<open>src\<close> was read.\<close>

fun sqlite_uri_path :: "nat \<Rightarrow> string \<Rightarrow> string \<times> nat" where
  "sqlite_uri_path dst_size [] = ([], 0)"
| "sqlite_uri_path dst_size (c # cs) =
     (if dst_size = 0 then ([], 0)
      else
        let out = take dst_size (convert c);
            (dst, s) = sqlite_uri_path (dst_size - length out) cs
        in (out @ dst, s + 1))"

text \<open>The URI of a database that is attached; \<open>rest\<close> is the mode and the name of the VFS.\<close>

definition attach_uri :: "string \<Rightarrow> string \<Rightarrow> string" where
  "attach_uri name rest = ''file:'' @ name @ ''?mode='' @ rest"

lemma length_convert: "length (convert c) \<le> 3"
  by (auto simp: convert_def need_convert_def)

lemma convert_ne: "convert c \<noteq> []"
  by (auto simp: convert_def need_convert_def)

lemma sqlite_uri_path_fits:
  "3 * length src \<le> dst_size \<Longrightarrow> sqlite_uri_path dst_size src = (concat (map convert src), length src)"
proof (induction src arbitrary: dst_size)
  case (Cons c cs)
  then have l: "length (convert c) \<le> dst_size" "3 * length cs \<le> dst_size - length (convert c)"
    using length_convert [of c] by simp_all
  then show ?case
    using Cons.IH [OF l(2)] Cons.prems by (simp add: Let_def)
qed simp

section \<open>The SQL function basename\<close>

definition sqlite_basename :: "string option \<Rightarrow> string" where
  "sqlite_basename path =
     (case path of
        None \<Rightarrow> []
      | Some p \<Rightarrow>
          let trimmed_len = trailing_non_match_index (Some p) (length p) ''/''
          in if trimmed_len = 0 then ''/''
             else
               let offset = trailing_match_index (Some p) trimmed_len ''/''
               in take (trimmed_len - offset) (drop offset p))"

section \<open>Attaching and detaching\<close>

record sqlite_env =
  se_opens :: "string \<Rightarrow> bool" \<comment> \<open>URIs of files that can be opened as databases\<close>
  se_uri_rest :: string
  se_view_ok :: "string \<Rightarrow> bool" \<comment> \<open>views whose statement is good\<close>
  se_max_attached :: nat

record conn =
  cn_names :: "string list"
  cn_views :: "string \<Rightarrow> string list option" \<comment> \<open>the databases a view takes its rows from\<close>

definition attachdb :: "sqlite_env \<Rightarrow> string \<Rightarrow> string \<Rightarrow> conn \<Rightarrow> bool \<times> conn" where
  "attachdb env name dbn c =
     (if se_opens env (attach_uri name (se_uri_rest env)) \<and> dbn \<notin> set (cn_names c) \<and> length (cn_names c) < se_max_attached env
      then (True, c\<lparr>cn_names := cn_names c @ [dbn]\<rparr>) else (False, c))"

definition detachdb :: "string \<Rightarrow> conn \<Rightarrow> conn" where
  "detachdb dbn c = c\<lparr>cn_names := filter (\<lambda>n. n \<noteq> dbn) (cn_names c)\<rparr>"

definition create_view :: "sqlite_env \<Rightarrow> string \<Rightarrow> string list \<Rightarrow> conn \<Rightarrow> bool \<times> conn" where
  "create_view env view sources c =
     (if se_view_ok env view \<and> cn_views c view = None then (True, c\<lparr>cn_views := (cn_views c)(view \<mapsto> sources)\<rparr>)
      else (False, c))"

definition drop_view :: "string \<Rightarrow> conn \<Rightarrow> conn" where
  "drop_view view c = c\<lparr>cn_views := (cn_views c)(view := None)\<rparr>"

text \<open>The names \<open>extdb0\<close>, \<open>extdb1\<close>, \<dots> with their counter.\<close>

definition attachname :: "64 word \<Rightarrow> string" where
  "attachname n = ''extdb'' @ digits 10 (unat n)"

definition external_increment_attachname :: "64 word \<Rightarrow> string \<times> 64 word" where
  "external_increment_attachname rec_count = (attachname rec_count, rec_count + 1)"

definition external_decrement_attachname :: "64 word \<Rightarrow> string \<times> 64 word" where
  "external_decrement_attachname rec_count = (attachname (rec_count - 1), rec_count - 1)"

record ext_row =
  er_type :: string
  er_pinode :: string
  er_filename :: string

text \<open>A query with the conditions that are given; the table may be missing.\<close>

definition external_create_query ::
    "string option \<Rightarrow> (ext_row \<Rightarrow> bool) option \<Rightarrow> ext_row list option \<Rightarrow> ext_row list option" where
  "external_create_query type extra dbs =
     map_option (filter (\<lambda>r. (case type of None \<Rightarrow> True | Some t \<Rightarrow> er_type r = t) \<and>
       (case extra of None \<Rightarrow> True | Some cond \<Rightarrow> cond r))) dbs"

text \<open>The loop over the rows: each takes a name, attaching may fail. The names that were attached.\<close>

fun concatenate_loop ::
    "sqlite_env \<Rightarrow> (string \<Rightarrow> string) \<Rightarrow> ext_row list \<Rightarrow> conn \<Rightarrow> 64 word \<Rightarrow> string list \<times> conn \<times> 64 word" where
  "concatenate_loop env modify_filename [] c rec_count = ([], c, rec_count)"
| "concatenate_loop env modify_filename (r # rows) c rec_count =
     (let filename = modify_filename (er_filename r);
          (name, rec_count') = external_increment_attachname rec_count;
          clean_path = fst (sqlite_uri_path (length filename * 3 + 1) filename);
          (ok, c') = attachdb env clean_path name c;
          (names, c'', rec_count'') = concatenate_loop env modify_filename rows c' rec_count'
      in (if ok then name # names else names, c'', rec_count''))"

text \<open>\<open>None\<close> is the result -1.\<close>

definition external_concatenate ::
    "sqlite_env \<Rightarrow> ext_row list option \<Rightarrow> string option \<Rightarrow> (ext_row \<Rightarrow> bool) option \<Rightarrow> string \<Rightarrow>
     (string \<Rightarrow> string) \<Rightarrow> conn \<Rightarrow> 64 word \<Rightarrow> nat option \<times> conn \<times> 64 word" where
  "external_concatenate env dbs type extra viewname modify_filename c rec_count =
     (case (if type = None then Some [] else external_create_query type extra dbs) of
        None \<Rightarrow> (None, c, rec_count)
      | Some rows \<Rightarrow>
          let (names, c1, rec_count1) = concatenate_loop env modify_filename rows c rec_count;
              (ok, c2) = create_view env viewname names c1
          in (if ok then Some (length names) else None, c2, rec_count1))"

fun detach_loop :: "ext_row list \<Rightarrow> conn \<Rightarrow> 64 word \<Rightarrow> conn \<times> 64 word" where
  "detach_loop [] c rec_count = (c, rec_count)"
| "detach_loop (r # rows) c rec_count =
     (let (name, rec_count') = external_decrement_attachname rec_count
      in detach_loop rows (detachdb name c) rec_count')"

definition external_concatenate_cleanup ::
    "ext_row list option \<Rightarrow> string option \<Rightarrow> string option \<Rightarrow> (ext_row \<Rightarrow> bool) option \<Rightarrow> conn \<Rightarrow> 64 word \<Rightarrow> conn \<times> 64 word" where
  "external_concatenate_cleanup dbs view type extra c rec_count =
     (let c1 = (case view of None \<Rightarrow> c | Some v \<Rightarrow> drop_view v c)
      in case (if type = None then None else external_create_query type extra dbs) of
           None \<Rightarrow> (c1, rec_count)
         | Some rows \<Rightarrow> detach_loop rows c1 rec_count)"

section \<open>The databases of the user\<close>

record eas =
  ea_basename :: string
  ea_view :: string

definition basename_comp :: "string \<Rightarrow> eas \<Rightarrow> ext_row \<Rightarrow> bool" where
  "basename_comp dir_inode user r \<longleftrightarrow>
     er_pinode r = dir_inode \<and> sqlite_basename (Some (er_filename r)) = ea_basename user"

fun attach_extdbs ::
    "sqlite_env \<Rightarrow> ext_row list option \<Rightarrow> string \<Rightarrow> eas list \<Rightarrow> conn \<Rightarrow> 64 word \<Rightarrow> conn \<times> 64 word" where
  "attach_extdbs env dbs dir_inode [] c extdb_count = (c, extdb_count)"
| "attach_extdbs env dbs dir_inode (user # users) c extdb_count =
     (let (_, c', n) = external_concatenate env dbs (Some ''user_db'') (Some (basename_comp dir_inode user))
        (ea_view user) id c extdb_count
      in attach_extdbs env dbs dir_inode users c' n)"

fun detach_extdbs :: "ext_row list option \<Rightarrow> string \<Rightarrow> eas list \<Rightarrow> conn \<Rightarrow> 64 word \<Rightarrow> conn \<times> 64 word" where
  "detach_extdbs dbs dir_inode [] c extdb_count = (c, extdb_count)"
| "detach_extdbs dbs dir_inode (user # users) c extdb_count =
     (let (c', n) =
        (if dir_inode \<noteq> [] then external_concatenate_cleanup dbs (Some (ea_view user)) (Some ''user_db'')
           (Some (basename_comp dir_inode user)) c extdb_count
         else (drop_view (ea_view user) c, extdb_count))
      in detach_extdbs dbs dir_inode users c' n)"

section \<open>What is attached is detached\<close>

definition ext_names :: "nat \<Rightarrow> nat \<Rightarrow> string set" where
  "ext_names m k = (\<lambda>i. ''extdb'' @ digits 10 i) ` {m..<m + k}"

lemma ext_names_0 [simp]: "ext_names m 0 = {}"
  by (simp add: ext_names_def)

lemma ext_names_add: "ext_names m (j + k) = ext_names m j \<union> ext_names (m + j) k"
proof -
  have "{m..<m + (j + k)} = {m..<m + j} \<union> {m + j..<m + j + k}" by auto
  then show ?thesis unfolding ext_names_def image_Un [symmetric] by simp
qed

lemma ext_names_mono: "j \<le> k \<Longrightarrow> ext_names m j \<subseteq> ext_names m k"
  by (auto simp: ext_names_def)

lemma attachname_in: "k \<noteq> 0 \<Longrightarrow> attachname n \<in> ext_names (unat n) k"
  by (auto simp: attachname_def ext_names_def)

lemma unat_plus:
  fixes n :: "64 word"
  assumes "unat n + k < 2 ^ 64"
  shows "unat (n + of_nat k) = unat n + k"
proof -
  have "unat (of_nat k :: 64 word) = k"
    using assms by (simp add: unat_of_nat take_bit_nat_eq_self del: of_nat_add)
  then show ?thesis
    using assms by (simp add: unat_word_ariths)
qed

lemma unat_minus:
  fixes n :: "64 word"
  assumes "k \<le> unat n"
  shows "unat (n - of_nat k) = unat n - k"
proof -
  have "unat n < 2 ^ 64"
    using unsigned_less [of n] by simp
  then have k: "unat (of_nat k :: 64 word) = k"
    using assms by (simp add: unat_of_nat take_bit_nat_eq_self)
  then have "of_nat k \<le> n"
    using assms by (simp add: word_le_nat_alt)
  then show ?thesis by (simp add: unat_sub k)
qed

lemma concatenate_loop_effect:
  "unat n + length rows < 2 ^ 64 \<Longrightarrow> concatenate_loop env f rows c n = (ns, c', n') \<Longrightarrow>
   cn_names c' = cn_names c @ ns \<and> set ns \<subseteq> ext_names (unat n) (length rows) \<and> cn_views c' = cn_views c
     \<and> n' = n + of_nat (length rows)"
proof (induction rows arbitrary: c n ns c' n')
  case (Cons r rows)
  have u: "unat (n + 1) = unat n + 1"
    using unat_plus [of n 1] Cons.prems(1) by simp
  have sub: "ext_names (unat n) (length (r # rows)) = insert (attachname n) (ext_names (unat n + 1) (length rows))"
    using ext_names_add [of "unat n" 1 "length rows"] by (simp add: ext_names_def attachname_def)
  obtain ns1 c1 where a: "attachdb env (fst (sqlite_uri_path (length (f (er_filename r)) * 3 + 1) (f (er_filename r))))
      (attachname n) c = (ns1, c1)" by fastforce
  obtain ns2 c2 n2 where l: "concatenate_loop env f rows c1 (n + 1) = (ns2, c2, n2)"
    by (metis prod_cases3)
  have "unat (n + 1) + length rows < 2 ^ 64"
    using Cons.prems(1) u by simp
  from Cons.IH [OF this l] show ?case
    using Cons.prems(2) a l unfolding sub
    by (auto simp: external_increment_attachname_def Let_def attachdb_def u split: if_splits)
qed simp

lemma detach_loop_effect:
  "length rows \<le> unat n \<Longrightarrow> detach_loop rows c n = (c', n') \<Longrightarrow>
   cn_names c' = filter (\<lambda>x. x \<notin> ext_names (unat n - length rows) (length rows)) (cn_names c)
     \<and> cn_views c' = cn_views c \<and> n' = n - of_nat (length rows)"
proof (induction rows arbitrary: c n c' n')
  case (Cons r rows)
  have u: "unat (n - 1) = unat n - 1"
    using unat_minus [of 1 n] Cons.prems(1) by simp
  let ?c = "detachdb (attachname (n - 1)) c"
  have sub: "ext_names (unat n - length (r # rows)) (length (r # rows)) =
      insert (attachname (n - 1)) (ext_names (unat n - 1 - length rows) (length rows))"
    using ext_names_add [of "unat n - length (r # rows)" "length rows" 1] Cons.prems(1)
    by (auto simp: ext_names_def attachname_def u)
  have "length rows \<le> unat (n - 1)" "detach_loop rows ?c (n - 1) = (c', n')"
    using Cons.prems u by (simp_all add: external_decrement_attachname_def Let_def)
  note IH = Cons.IH [OF this]
  have "filter (\<lambda>x. x \<notin> ext_names (unat n - 1 - length rows) (length rows)) (cn_names ?c) =
      filter (\<lambda>x. x \<notin> ext_names (unat n - length (r # rows)) (length (r # rows))) (cn_names c)"
    unfolding sub by (auto simp: detachdb_def intro!: filter_cong)
  moreover have "n - 1 - of_nat (length rows) = n - of_nat (length (r # rows))"
    by simp
  ultimately show ?case
    using IH unfolding u by (simp add: detachdb_def)
qed (simp add: filter_id_conv)

text \<open>How many rows the query of each of the user's databases has.\<close>

definition user_rows :: "ext_row list option \<Rightarrow> string \<Rightarrow> eas \<Rightarrow> nat" where
  "user_rows dbs dir_inode user =
     (case external_create_query (Some ''user_db'') (Some (basename_comp dir_inode user)) dbs of
        None \<Rightarrow> 0 | Some rows \<Rightarrow> length rows)"

definition all_rows :: "ext_row list option \<Rightarrow> string \<Rightarrow> eas list \<Rightarrow> nat" where
  "all_rows dbs dir_inode users = sum_list (map (user_rows dbs dir_inode) users)"

lemma create_view_effect:
  "create_view env v ns c = (ok, c') \<Longrightarrow> cn_names c' = cn_names c \<and> (\<forall>x. x \<noteq> v \<longrightarrow> cn_views c' x = cn_views c x)"
  by (auto simp: create_view_def split: if_splits)

lemma concatenate_effect:
  assumes "external_concatenate env dbs (Some t) extra v f c n = (r, c', n')"
    "k = (case external_create_query (Some t) extra dbs of None \<Rightarrow> 0 | Some rows \<Rightarrow> length rows)"
    "unat n + k < 2 ^ 64"
  shows "\<exists>ns. cn_names c' = cn_names c @ ns \<and> set ns \<subseteq> ext_names (unat n) k \<and> n' = n + of_nat k
     \<and> (\<forall>x. x \<noteq> v \<longrightarrow> cn_views c' x = cn_views c x)"
proof (cases "external_create_query (Some t) extra dbs")
  case None
  then show ?thesis using assms by (auto simp: external_concatenate_def intro!: exI [of _ "[]"])
next
  case (Some rows)
  obtain ns c1 n1 where l: "concatenate_loop env f rows c n = (ns, c1, n1)" by (metis prod_cases3)
  obtain ok c2 where v: "create_view env v ns c1 = (ok, c2)" by fastforce
  from Some assms(2,3) have "unat n + length rows < 2 ^ 64" by simp
  from concatenate_loop_effect [OF this l] create_view_effect [OF v] show ?thesis
    using assms(1,2) Some l v by (auto simp: external_concatenate_def Let_def intro!: exI [of _ ns])
qed

lemma attach_extdbs_effect:
  "unat n + all_rows dbs d users < 2 ^ 64 \<Longrightarrow> attach_extdbs env dbs d users c n = (c', n') \<Longrightarrow>
   \<exists>ns. cn_names c' = cn_names c @ ns \<and> set ns \<subseteq> ext_names (unat n) (all_rows dbs d users)
     \<and> n' = n + of_nat (all_rows dbs d users) \<and> (\<forall>x. x \<notin> ea_view ` set users \<longrightarrow> cn_views c' x = cn_views c x)"
proof (induction users arbitrary: c n)
  case Nil
  then show ?case by (simp add: all_rows_def)
next
  case (Cons user users)
  let ?k = "user_rows dbs d user" and ?ks = "all_rows dbs d users"
  have all: "all_rows dbs d (user # users) = ?k + ?ks"
    by (simp add: all_rows_def)
  obtain r c1 n1 where e: "external_concatenate env dbs (Some ''user_db'') (Some (basename_comp d user)) (ea_view user) id c n
      = (r, c1, n1)" by (metis prod_cases3)
  have k: "unat n + ?k < 2 ^ 64"
    using Cons.prems(1) all by simp
  from concatenate_effect [OF e _ this] obtain ns1 where
    1: "cn_names c1 = cn_names c @ ns1" "set ns1 \<subseteq> ext_names (unat n) ?k" "n1 = n + of_nat ?k"
      "\<forall>x. x \<noteq> ea_view user \<longrightarrow> cn_views c1 x = cn_views c x"
    by (auto simp: user_rows_def)
  have u: "unat n1 = unat n + ?k"
    unfolding 1(3) by (rule unat_plus [OF k])
  have "attach_extdbs env dbs d users c1 n1 = (c', n')" "unat n1 + ?ks < 2 ^ 64"
    using Cons.prems e all u by simp_all
  from Cons.IH [OF this(2,1)] obtain ns2 where
    2: "cn_names c' = cn_names c1 @ ns2" "set ns2 \<subseteq> ext_names (unat n1) ?ks" "n' = n1 + of_nat ?ks"
      "\<forall>x. x \<notin> ea_view ` set users \<longrightarrow> cn_views c' x = cn_views c1 x"
    by blast
  show ?case
    using 1 2 unfolding all ext_names_add u by (intro exI [of _ "ns1 @ ns2"]) auto
qed

lemma detach_extdbs_effect:
  "d \<noteq> [] \<Longrightarrow> all_rows dbs d users \<le> unat n \<Longrightarrow> detach_extdbs dbs d users c n = (c', n') \<Longrightarrow>
   cn_names c' = filter (\<lambda>x. x \<notin> ext_names (unat n - all_rows dbs d users) (all_rows dbs d users)) (cn_names c)
     \<and> n' = n - of_nat (all_rows dbs d users)
     \<and> cn_views c' = (\<lambda>x. if x \<in> ea_view ` set users then None else cn_views c x)"
proof (induction users arbitrary: c n)
  case Nil
  then show ?case by (simp add: all_rows_def filter_id_conv)
next
  case (Cons user users)
  let ?k = "user_rows dbs d user" and ?ks = "all_rows dbs d users"
  have all: "all_rows dbs d (user # users) = ?k + ?ks"
    by (simp add: all_rows_def)
  obtain c1 n1 where e: "external_concatenate_cleanup dbs (Some (ea_view user)) (Some ''user_db'')
      (Some (basename_comp d user)) c n = (c1, n1)" by fastforce
  have 1: "cn_names c1 = filter (\<lambda>x. x \<notin> ext_names (unat n - ?k) ?k) (cn_names c)" "n1 = n - of_nat ?k"
    "cn_views c1 = (cn_views c)(ea_view user := None)"
  proof (atomize (full), cases "external_create_query (Some ''user_db'') (Some (basename_comp d user)) dbs")
    case None
    then show "cn_names c1 = filter (\<lambda>x. x \<notin> ext_names (unat n - ?k) ?k) (cn_names c) \<and> n1 = n - of_nat ?k \<and>
        cn_views c1 = (cn_views c)(ea_view user := None)"
      using e by (auto simp: external_concatenate_cleanup_def drop_view_def user_rows_def filter_id_conv)
  next
    case (Some rows)
    then have k: "?k = length rows" by (simp add: user_rows_def)
    have "detach_loop rows (drop_view (ea_view user) c) n = (c1, n1)"
      using e Some by (simp add: external_concatenate_cleanup_def)
    from detach_loop_effect [OF _ this] show "cn_names c1 = filter (\<lambda>x. x \<notin> ext_names (unat n - ?k) ?k) (cn_names c) \<and> n1 = n - of_nat ?k \<and>
        cn_views c1 = (cn_views c)(ea_view user := None)"
      using Cons.prems(2) all k by (simp add: drop_view_def)
  qed
  have u: "unat n1 = unat n - ?k"
    unfolding 1(2) using Cons.prems(2) all by (intro unat_minus) simp
  have "detach_extdbs dbs d users c1 n1 = (c', n')" "?ks \<le> unat n1"
    using Cons.prems e all u by simp_all
  note 2 = Cons.IH [OF Cons.prems(1) this(2,1)]
  have n: "ext_names (unat n - (?k + ?ks)) (?k + ?ks) = ext_names (unat n - ?k - ?ks) ?ks \<union> ext_names (unat n - ?k) ?k"
    using ext_names_add [of "unat n - (?k + ?ks)" ?ks ?k] Cons.prems(2) all
    by (simp add: add.commute)
  show ?case
    using 1 2 unfolding all n u by (auto simp: conj_commute intro!: filter_cong)
qed

section \<open>The list of databases in a directory\<close>

record db_env =
  de_realpath :: "string \<Rightarrow> string option"
  de_is_file :: "string \<Rightarrow> bool option" \<comment> \<open>\<open>None\<close> when \<open>stat\<close> fails\<close>
  de_quick_check :: "string \<Rightarrow> bool option" \<comment> \<open>\<open>None\<close> when the file does not open\<close>

definition check_is_db :: "db_env \<Rightarrow> bool \<Rightarrow> string \<Rightarrow> bool" where
  "check_is_db de check_extdb_valid path =
     (if \<not> check_extdb_valid then True
      else case de_is_file de path of
             None \<Rightarrow> False
           | Some reg \<Rightarrow> if \<not> reg then False else de_quick_check de path = Some True)"

text \<open>The path of a line; \<open>dir\<close> is the name of the list without its last component.\<close>

definition extdb_path :: "db_env \<Rightarrow> string \<Rightarrow> string \<Rightarrow> string option" where
  "extdb_path de dir line = (if line ! 0 \<noteq> CHR ''/'' then de_realpath de (dir @ line) else Some line)"

text \<open>The paths \<open>func\<close> is called with, in order.  A turn reads a line, at most one per byte and one at the end.\<close>

fun read_list_loop :: "db_env \<Rightarrow> bool \<Rightarrow> string \<Rightarrow> (nat \<Rightarrow> io) \<Rightarrow> string \<Rightarrow> nat \<Rightarrow> nat \<Rightarrow> string list" where
  "read_list_loop de validate dir io file offset 0 = []"
| "read_list_loop de validate dir io file offset (Suc fuel) =
     (case getline_fd_seekable file (Some offset) io 0 512 of
        GetlineErr _ \<Rightarrow> []
      | GetlineOk line offset' \<Rightarrow>
          if line = [] then []
          else
            (case extdb_path de dir line of
               None \<Rightarrow> []
             | Some path \<Rightarrow> if check_is_db de validate path then [path] else [])
            @ read_list_loop de validate dir io file offset' fuel)"

text \<open>\<open>rc\<close> counts the calls of \<open>func\<close> that return 0.\<close>

definition external_read_file ::
    "db_env \<Rightarrow> bool \<Rightarrow> string \<Rightarrow> nat \<Rightarrow> (string \<Rightarrow> bool) \<Rightarrow> (nat \<Rightarrow> io) \<Rightarrow> string option \<Rightarrow> string list \<times> nat" where
  "external_read_file de validate name basename_len func io contents =
     (case contents of
        None \<Rightarrow> ([], 0)
      | Some file \<Rightarrow>
          let paths = read_list_loop de validate (take (length name - basename_len) name) io file 0 (length file + 1)
          in (paths, length (filter func paths)))"

lemma line_end_after:
  assumes "pos < length file"
  shows "pos < line_end file pos"
proof (cases "LF \<in> set (drop pos file)")
  case False
  then have "line_at file pos = drop pos file"
    unfolding line_at_def by (subst takeWhile_eq_all_conv) auto
  then show ?thesis
    using assms by (simp add: line_end_def)
qed (simp add: line_end_def)

text \<open>The lines of a text.\<close>

function text_lines :: "string \<Rightarrow> nat \<Rightarrow> string list" where
  "text_lines file pos = (if length file \<le> pos then [] else line_at file pos # text_lines file (line_end file pos))"
  by pat_completeness auto
termination
proof (relation "measure (\<lambda>(file, pos). length file - pos)", goal_cases)
  case (2 fl pos)
  then show ?case
    using line_end_after [of pos fl] by (simp add: diff_less_mono2)
qed simp

declare text_lines.simps [simp del]

definition listed :: "db_env \<Rightarrow> bool \<Rightarrow> string \<Rightarrow> string \<Rightarrow> string list" where
  "listed de validate dir line =
     (case extdb_path de dir line of
        None \<Rightarrow> [] | Some path \<Rightarrow> if check_is_db de validate path then [path] else [])"

lemma read_list_loop_eq:
  assumes "\<forall>j. \<exists>k. io j = IoMax k"
  shows "length file - pos < fuel \<Longrightarrow> read_list_loop de validate dir io file pos fuel =
    concat (map (listed de validate dir) (takeWhile (\<lambda>l. l \<noteq> []) (text_lines file pos)))"
proof (induction fuel arbitrary: pos)
  case (Suc fuel)
  have g: "getline_fd_seekable file (Some pos) io 0 512 =
      (if length file \<le> pos then GetlineErr (- int EIO) else GetlineOk (line_at file pos) (line_end file pos))"
    using getline_fd_line [OF _ assms, of 512] by (simp add: getline_fd_seekable_def)
  show ?case
  proof (cases "length file \<le> pos")
    case False
    then have "pos < line_end file pos"
      by (intro line_end_after) simp
    then have "length file - line_end file pos < fuel"
      using False Suc.prems by simp
    from Suc.IH [OF this] show ?thesis
      using False by (subst text_lines.simps) (simp add: g listed_def [symmetric] del: map_map)
  next
    case True
    then show ?thesis by (subst text_lines.simps) (simp add: g)
  qed
qed simp

section \<open>Properties\<close>

text \<open>
  What SQLite documents of URIs, for its function \<open>sqlite_file\<close> from URIs to names of files: behind \<open>file:\<close> stands the
  path, unless it begins with two slashes and so with the name of a host; it ends before a question mark or a number sign; a
  percent sign and two hexadecimal digits are a byte, and other characters stand for themselves.
\<close>

definition reads_uris :: "(string \<Rightarrow> string) \<Rightarrow> (string \<Rightarrow> string) \<Rightarrow> bool" where
  "reads_uris sqlite_file path_of \<longleftrightarrow>
     (\<forall>p. take 2 p \<noteq> ''//'' \<longrightarrow> sqlite_file (''file:'' @ p) = path_of p)
   \<and> (\<forall>cs. path_of (CHR ''?'' # cs) = [] \<and> path_of (CHR ''#'' # cs) = [])
   \<and> (\<forall>a b x y cs. digit_val a = Some x \<and> digit_val b = Some y \<and> 0 < 16 * x + y \<longrightarrow>
        path_of (CHR ''%'' # a # b # cs) = char_of (16 * x + y) # path_of cs)
   \<and> (\<forall>c cs. c \<notin> set ''%?#'' \<and> c \<noteq> CHR 0x00 \<longrightarrow> path_of (c # cs) = c # path_of cs)"

lemma char_of_converted [simp]: "char_of (35 :: nat) = CHR ''#''" "char_of (63 :: nat) = CHR ''?''" "char_of (37 :: nat) = CHR ''%''"
  using char_of_char [of "CHR ''#''", where 'a = nat] char_of_char [of "CHR ''?''", where 'a = nat]
    char_of_char [of "CHR ''%''", where 'a = nat]
  by (simp_all del: char_of_char)

lemma path_of_convert:
  assumes "reads_uris sqlite_file path_of" and "c \<noteq> CHR 0x00"
  shows "path_of (convert c @ cs) = c # path_of cs"
proof (cases "c \<in> set ''%?#''")
  case True
  have "path_of (CHR ''%'' # a # b # cs) = char_of (16 * x + y) # path_of cs"
    if "digit_val a = Some x" "digit_val b = Some y" "0 < 16 * x + y" for a b x y
    using assms(1) that unfolding reads_uris_def by blast
  from this [of "CHR ''2''" 2 "CHR ''3''" 3] this [of "CHR ''3''" 3 "CHR ''f''" 15] this [of "CHR ''2''" 2 "CHR ''5''" 5]
  show ?thesis using True by (auto simp: convert_def need_convert_def digit_val_def)
next
  case False
  then have "convert c = [c]" by (auto simp: convert_def need_convert_def)
  then show ?thesis using assms False by (simp add: reads_uris_def)
qed

text \<open>
  C35: A path that does not begin with two slashes, escaped and attached, is read by SQLite as the same path, whatever
  characters it has, and the buffer of three times its length is enough for it.  SQLite's reading of URIs is a
  parameter with its documented behaviour; that the statement is cut at \<open>MAXSQL\<close> bytes is not modelled.
\<close>

theorem sqlite_uri_path_roundtrip:
  assumes "reads_uris sqlite_file path_of" and "take 2 path \<noteq> ''//''" and "CHR 0x00 \<notin> set path"
  shows "sqlite_file (attach_uri (fst (sqlite_uri_path (3 * length path + 1) path)) rest) = path
   \<and> length (fst (sqlite_uri_path (3 * length path + 1) path)) \<le> 3 * length path"
proof -
  have "path_of (concat (map convert p) @ ''?mode='' @ rest) = p" if "CHR 0x00 \<notin> set p" for p
    using that
  proof (induction p)
    case Nil
    then show ?case using assms(1) by (simp add: reads_uris_def)
  next
    case (Cons c p)
    then show ?case using path_of_convert [OF assms(1), of c] by auto
  qed
  moreover have "take 2 (concat (map convert path) @ ''?mode='' @ rest) \<noteq> ''//''"
  proof (cases path rule: remdups_adj.cases)
    case (3 c d p)
    then have "c \<noteq> SLASH \<or> d \<noteq> SLASH" using assms(2) by (auto simp: numeral_2_eq_2)
    then show ?thesis
      using 3 by (cases "c = SLASH") (auto simp: convert_def need_convert_def numeral_2_eq_2)
  qed (auto simp: convert_def need_convert_def numeral_2_eq_2)
  moreover have "length (concat (map convert p)) \<le> 3 * length p" for p
  proof (induction p)
    case (Cons c p)
    then show ?case using length_convert [of c] by simp
  qed simp
  ultimately show ?thesis
    using assms by (simp add: sqlite_uri_path_fits attach_uri_def reads_uris_def)
qed

text \<open>Whichever databases can be attached and whichever views can be created, what \<open>attach_extdbs\<close> does for
  a directory is undone by \<open>detach_extdbs\<close>: the names that are attached, the counter and the views are
  those from before.\<close>

theorem extdbs_detached:
  assumes "dir_inode \<noteq> []" "unat extdb_count + all_rows dbs dir_inode users < 2 ^ 64"
    and "set (cn_names c) \<inter> ext_names (unat extdb_count) (all_rows dbs dir_inode users) = {}"
    and "\<And>user. user \<in> set users \<Longrightarrow> cn_views c (ea_view user) = None"
    and "attach_extdbs env dbs dir_inode users c extdb_count = (c', n')"
  shows "detach_extdbs dbs dir_inode users c' n' = (c, extdb_count)"
proof -
  let ?k = "all_rows dbs dir_inode users"
  obtain ns where a: "cn_names c' = cn_names c @ ns" "set ns \<subseteq> ext_names (unat extdb_count) ?k"
    "n' = extdb_count + of_nat ?k" "\<forall>x. x \<notin> ea_view ` set users \<longrightarrow> cn_views c' x = cn_views c x"
    using attach_extdbs_effect [OF assms(2,5)] by blast
  have u: "unat n' = unat extdb_count + ?k"
    unfolding a(3) by (rule unat_plus [OF assms(2)])
  obtain c2 n2 where e: "detach_extdbs dbs dir_inode users c' n' = (c2, n2)" by fastforce
  note b = detach_extdbs_effect [OF assms(1) _ e]
  have "filter (\<lambda>x. x \<notin> ext_names (unat extdb_count) ?k) (cn_names c) = cn_names c"
    using assms(3) by (auto simp: filter_id_conv)
  moreover have "filter (\<lambda>x. x \<notin> ext_names (unat extdb_count) ?k) ns = []"
    using a(2) by (auto simp: filter_empty_conv)
  ultimately have "cn_names c2 = cn_names c"
    using b u a(1) by simp
  moreover have "cn_views c2 = cn_views c"
    using b u a(4) assms(4) by (auto intro!: ext)
  moreover have "n2 = extdb_count"
    using b u a(3) by simp
  ultimately show ?thesis
    unfolding e by (cases c, cases c2) simp
qed

text \<open>The databases tracked for a directory are those of the lines of its list up to the first empty line;
  whatever is listed behind an empty line is not read.\<close>

theorem external_read_file_lines:
  assumes "\<forall>j. \<exists>k. io j = IoMax k"
  shows "fst (external_read_file de validate name basename_len func io (Some file)) =
    concat (map (listed de validate (take (length name - basename_len) name))
      (takeWhile (\<lambda>l. l \<noteq> []) (text_lines file 0)))"
  using read_list_loop_eq [OF assms, where pos = 0 and fuel = "length file + 1"] by (simp add: external_read_file_def Let_def)

lemma external_read_file_lines_witness:
  "fst (external_read_file \<lparr>de_realpath = \<lambda>_. None, de_is_file = \<lambda>_. None, de_quick_check = \<lambda>_. None\<rparr> False
     ''d/external.gufi'' 13 (\<lambda>_. True) (\<lambda>_. IoMax 8) (Some (''/a'' @ [LF, LF] @ ''/b''))) = [''/a'']"
  by (subst external_read_file_lines) (simp_all add: text_lines.simps line_at_def line_end_def listed_def
      extdb_path_def check_is_db_def)

definition one_db :: "ext_row list option" where
  "one_db = Some [\<lparr>er_type = ''user_db'', er_pinode = ''1'', er_filename = ''/x/b''\<rparr>]"

lemma extdbs_detached_witness:
  "case attach_extdbs \<lparr>se_opens = \<lambda>_. True, se_uri_rest = ro', se_view_ok = \<lambda>_. True, se_max_attached = 10\<rparr> one_db ''1''
       [\<lparr>ea_basename = ''b'', ea_view = ''v''\<rparr>] \<lparr>cn_names = [''tree''], cn_views = \<lambda>_. None\<rparr> 0 of
     (c', n') \<Rightarrow> detach_extdbs one_db ''1'' [\<lparr>ea_basename = ''b'', ea_view = ''v''\<rparr>] c' n' =
       (\<lparr>cn_names = [''tree''], cn_views = \<lambda>_. None\<rparr>, 0)"
proof -
  let ?us = "[\<lparr>ea_basename = ''b'', ea_view = ''v''\<rparr>]" and ?c = "\<lparr>cn_names = [''tree''], cn_views = \<lambda>_. None\<rparr>"
  obtain c' n' where a: "attach_extdbs \<lparr>se_opens = \<lambda>_. True, se_uri_rest = ro', se_view_ok = \<lambda>_. True, se_max_attached = 10\<rparr> one_db ''1'' ?us ?c 0
      = (c', n')" by fastforce
  have "all_rows one_db ''1'' ?us \<le> 1"
    by (simp add: all_rows_def user_rows_def external_create_query_def one_db_def)
  then have "unat (0 :: 64 word) + all_rows one_db ''1'' ?us < 2 ^ 64"
    by simp
  from extdbs_detached [OF _ this _ _ a] show ?thesis
    unfolding a by (auto simp: ext_names_def)
qed

text \<open>A function that reads URIs like this, for examples.\<close>

fun example_path :: "string \<Rightarrow> string" where
  "example_path (CHR ''%'' # a # b # cs) =
     (case (digit_val a, digit_val b) of
        (Some x, Some y) \<Rightarrow> char_of (16 * x + y) # example_path cs
      | _ \<Rightarrow> CHR ''%'' # example_path (a # b # cs))"
| "example_path (c # cs) = (if c = CHR ''?'' \<or> c = CHR ''#'' then [] else c # example_path cs)"
| "example_path [] = []"

lemma example_path_plain: "c \<notin> set ''%?#'' \<Longrightarrow> example_path (c # cs) = c # example_path cs"
  by (cases "c # cs" rule: example_path.cases) auto

lemma sqlite_uri_path_roundtrip_witness:
  "example_path (drop 5 (attach_uri (fst (sqlite_uri_path 25 ''/a%23?#b'')) ''ro'')) = ''/a%23?#b''"
proof -
  have "reads_uris (\<lambda>u. example_path (drop 5 u)) example_path"
    unfolding reads_uris_def using example_path_plain by (auto simp del: example_path.simps(2))
  from conjunct1 [OF sqlite_uri_path_roundtrip [OF this, of "''/a%23?#b''" "''ro''"]] show ?thesis by simp
qed

end
