(* ===== verification/Output.thy ===== *)
theory Output
  imports Bytes "HOL-Library.Word"
begin

text \<open>
  What a query prints: \<open>src/src/OutputBuffers.c\<close>, \<open>src/src/print.c\<close>, and the reader of typed rows in
  \<open>src/src/gufi_vt.c\<close>.  A buffer is its memory and the number of bytes that are used.  A file takes what is written
  to it until its room is used up.  A write behind the end of a buffer is the result \<open>None\<close>.
\<close>

section \<open>Files and buffers\<close>

record ofile =
  fl_data :: string
  fl_room :: "nat option" \<comment> \<open>\<open>None\<close> when there is always room\<close>

definition fwrite :: "string \<Rightarrow> ofile \<Rightarrow> nat \<times> ofile" where
  "fwrite s out =
     (let n = (case fl_room out of None \<Rightarrow> length s | Some r \<Rightarrow> min r (length s))
      in (n, out\<lparr>fl_data := fl_data out @ take n s, fl_room := map_option (\<lambda>r. r - n) (fl_room out)\<rparr>))"

record output_buffer =
  ob_buf :: string
  ob_filled :: nat
  ob_count :: nat

abbreviation ob_capacity :: "output_buffer \<Rightarrow> nat" where "ob_capacity obuf \<equiv> length (ob_buf obuf)"

definition ob_text :: "output_buffer \<Rightarrow> string" where
  "ob_text obuf = take (ob_filled obuf) (ob_buf obuf)"

text \<open>\<open>mem\<close> is what \<open>malloc\<close> gives, \<open>None\<close> when there is no memory.\<close>

definition OutputBuffer_init :: "string option \<Rightarrow> nat \<Rightarrow> output_buffer option" where
  "OutputBuffer_init mem capacity =
     (if capacity = 0 then None
      else map_option (\<lambda>m. \<lparr>ob_buf = take capacity (m @ replicate capacity NUL), ob_filled = 0, ob_count = 0\<rparr>) mem)"

definition store :: "string \<Rightarrow> nat \<Rightarrow> string \<Rightarrow> string option" where
  "store buf at s = (if at + length s \<le> length buf then Some (take at buf @ s @ drop (at + length s) buf) else None)"

definition OutputBuffer_write :: "output_buffer \<Rightarrow> string \<Rightarrow> bool \<Rightarrow> (nat \<times> output_buffer) option" where
  "OutputBuffer_write obuf s increment_count =
     (if ob_capacity obuf < ob_filled obuf + length s then Some (0, obuf)
      else map_option (\<lambda>b. (length s, \<lparr>ob_buf = b, ob_filled = ob_filled obuf + length s,
                                       ob_count = ob_count obuf + of_bool increment_count\<rparr>))
             (store (ob_buf obuf) (ob_filled obuf) s))"

definition OutputBuffer_flush :: "output_buffer \<Rightarrow> ofile \<Rightarrow> nat \<times> output_buffer \<times> ofile" where
  "OutputBuffer_flush obuf out =
     (case fwrite (ob_text obuf) out of
        (rc, out') \<Rightarrow> (rc, if rc = ob_filled obuf then obuf\<lparr>ob_filled := 0\<rparr> else obuf, out'))"

fun OutputBuffers_flush_to_single :: "output_buffer list \<Rightarrow> ofile \<Rightarrow> nat \<times> output_buffer list \<times> ofile" where
  "OutputBuffers_flush_to_single [] out = (0, [], out)"
| "OutputBuffers_flush_to_single (b # bs) out =
     (case OutputBuffer_flush b out of (n, b', out1) \<Rightarrow>
        (case OutputBuffers_flush_to_single bs out1 of (octets, bs', out2) \<Rightarrow> (n + octets, b' # bs', out2)))"

fun OutputBuffers_flush_to_multiple :: "(output_buffer \<times> ofile) list \<Rightarrow> nat \<times> (output_buffer \<times> ofile) list" where
  "OutputBuffers_flush_to_multiple [] = (0, [])"
| "OutputBuffers_flush_to_multiple ((b, out) # rest) =
     (case OutputBuffer_flush b out of (n, b', out') \<Rightarrow>
        (case OutputBuffers_flush_to_multiple rest of (octets, rest') \<Rightarrow>
           ((if n < ob_filled b' \<and> ob_filled b' \<noteq> 0 then octets else n + octets), (b', out') # rest')))"

section \<open>Printing\<close>

record print_args =
  pr_ob :: output_buffer
  pr_delim :: char
  pr_newline :: char
  pr_file :: ofile
  pr_rows :: nat
  pr_types :: "nat list option"
  pr_suppress_newline :: bool

fun len_of_len_loop :: "nat \<Rightarrow> nat \<Rightarrow> nat" where
  "len_of_len_loop c len = (if c < 8 \<and> len \<noteq> 0 then len_of_len_loop (c + 1) (len div 16) else c)"

declare len_of_len_loop.simps [simp del]

definition len_of_len :: "nat \<Rightarrow> nat" where
  "len_of_len len = len_of_len_loop 1 (len div 16)"

definition fmt_hex :: "nat \<Rightarrow> nat \<Rightarrow> string" where
  "fmt_hex width n = (let s = digits 16 n in replicate (width - length s) (CHR ''0'') @ s)"

text \<open>A column with its type; \<open>NULL\<close> has no bytes.\<close>

type_synonym column = "nat option \<times> string"

definition columns_of :: "nat list option \<Rightarrow> string option list \<Rightarrow> column list" where
  "columns_of types data =
     (let texts = map (\<lambda>d. case d of None \<Rightarrow> [] | Some s \<Rightarrow> cstr s) data
      in case types of None \<Rightarrow> map (Pair None) texts | Some ts \<Rightarrow> zip (map Some ts) texts)"

definition row_length :: "bool \<Rightarrow> bool \<Rightarrow> column list \<Rightarrow> nat" where
  "row_length typed suppress_newline cols =
     sum_list (map (\<lambda>c. length (snd c) + (if typed then 1 + (1 + len_of_len (length (snd c))) else 0)) cols)
     + (if typed then 8 + 4 else length cols - 1 + of_bool (\<not> suppress_newline))"

text \<open>The bytes of a row as they go to the file.\<close>

definition column_bytes :: "column \<Rightarrow> string" where
  "column_bytes c =
     (case fst c of
        None \<Rightarrow> []
      | Some t \<Rightarrow> [char_of (t + 48), char_of (len_of_len (length (snd c)) + 48)] @ digits 16 (length (snd c)))
     @ snd c"

fun columns_bytes :: "char \<Rightarrow> column list \<Rightarrow> string" where
  "columns_bytes delim [] = []"
| "columns_bytes delim [c] = column_bytes c"
| "columns_bytes delim (c # cs) = column_bytes c @ (if fst c = None then [delim] else []) @ columns_bytes delim cs"

definition row_prefix :: "bool \<Rightarrow> bool \<Rightarrow> column list \<Rightarrow> string" where
  "row_prefix typed suppress_newline cols =
     (if typed then fmt_hex 8 (row_length typed suppress_newline cols) @ fmt_hex 4 (length cols) else [])"

definition row_bytes :: "bool \<Rightarrow> char \<Rightarrow> char \<Rightarrow> bool \<Rightarrow> column list \<Rightarrow> string" where
  "row_bytes typed delim newline suppress_newline cols =
     row_prefix typed suppress_newline cols @ columns_bytes delim cols
     @ (if \<not> typed \<and> \<not> suppress_newline then [newline] else [])"

text \<open>The same into the buffer: what is put at its end, and what \<open>snprintf\<close> puts there, a NUL behind it.\<close>

type_synonym place = "string \<times> nat"

definition put :: "string \<Rightarrow> place \<Rightarrow> place option" where
  "put s p = map_option (\<lambda>b. (b, snd p + length s)) (store (fst p) (snd p) s)"

definition put_fmt :: "nat \<Rightarrow> string \<Rightarrow> place \<Rightarrow> place option" where
  "put_fmt advance s p =
     (let n = length (fst p) - snd p
      in if n = 0 then Some (fst p, snd p + advance)
         else map_option (\<lambda>b. (b, snd p + advance)) (store (fst p) (snd p) (take (n - 1) s @ [NUL])))"

definition put_column :: "column \<Rightarrow> place \<Rightarrow> place option" where
  "put_column c p =
     Option.bind
       (case fst c of
          None \<Rightarrow> Some p
        | Some t \<Rightarrow>
            Option.bind (put [char_of (t + 48)] p) (\<lambda>p1.
            Option.bind (put [char_of (len_of_len (length (snd c)) + 48)] p1) (\<lambda>p2.
            put_fmt (len_of_len (length (snd c))) (digits 16 (length (snd c))) p2)))
       (put (snd c))"

fun put_columns :: "char \<Rightarrow> column list \<Rightarrow> place \<Rightarrow> place option" where
  "put_columns delim [] p = Some p"
| "put_columns delim [c] p = put_column c p"
| "put_columns delim (c # cs) p =
     Option.bind (put_column c p) (\<lambda>p1.
     Option.bind (if fst c = None then put [delim] p1 else Some p1) (put_columns delim cs))"

definition put_row :: "bool \<Rightarrow> char \<Rightarrow> char \<Rightarrow> bool \<Rightarrow> column list \<Rightarrow> place \<Rightarrow> place option" where
  "put_row typed delim newline suppress_newline cols p =
     Option.bind
       (if typed then
          Option.bind (put_fmt 8 (fmt_hex 8 (row_length typed suppress_newline cols)) p) (put_fmt 4 (fmt_hex 4 (length cols)))
        else Some p) (\<lambda>p1.
     Option.bind (put_columns delim cols p1)
       (put (if \<not> typed \<and> \<not> suppress_newline then [newline] else [])))"

definition print_parallel :: "print_args \<Rightarrow> string option list \<Rightarrow> print_args option" where
  "print_parallel p data =
     (let cols = columns_of (pr_types p) data;
          typed = (pr_types p \<noteq> None);
          row_len = row_length typed (pr_suppress_newline p) cols;
          ob = pr_ob p;
          (ob1, file1) =
            (if ob_capacity ob - ob_filled ob < row_len then snd (OutputBuffer_flush ob (pr_file p)) else (ob, pr_file p))
      in if ob_capacity ob < row_len then
           Some (p\<lparr>pr_ob := ob1\<lparr>ob_count := ob_count ob1 + 1\<rparr>,
             pr_file := snd (fwrite (row_bytes typed (pr_delim p) (pr_newline p) (pr_suppress_newline p) cols) file1),
             pr_rows := pr_rows p + 1\<rparr>)
         else
           map_option (\<lambda>(buf, filled).
               p\<lparr>pr_ob := \<lparr>ob_buf = buf, ob_filled = filled, ob_count = ob_count ob1 + 1\<rparr>, pr_file := file1,
                 pr_rows := pr_rows p + 1\<rparr>)
             (put_row typed (pr_delim p) (pr_newline p) (pr_suppress_newline p) cols (ob_buf ob1, ob_filled ob1)))"

definition print_uncached :: "print_args \<Rightarrow> string option list \<Rightarrow> print_args" where
  "print_uncached p data =
     p\<lparr>pr_file := snd (fwrite (columns_bytes (pr_delim p) (columns_of None data)
           @ (if pr_suppress_newline p then [] else [pr_newline p])) (pr_file p)),
       pr_rows := pr_rows p + 1\<rparr>"

section \<open>Reading typed rows\<close>

datatype read_error = Row_eof | Row_error | Row_overflow

text \<open>\<open>*curr - '0'\<close> as a \<open>char\<close>, and as the size it is converted to.\<close>

definition char_minus_zero :: "char \<Rightarrow> int" where
  "char_minus_zero c = sint (of_nat (of_char c) - 48 :: 8 word)"

definition as_size :: "int \<Rightarrow> nat" where
  "as_size v = nat (v mod 2 ^ 64)"

definition sscanf_zx :: "string \<Rightarrow> nat option" where
  "sscanf_zx s = map_option (\<lambda>v. as_size (clamp_u (fst v))) (scan_num 16 (dropWhile isspace (cstr s)))"

text \<open>\<open>read_size\<close> on the rest of the input, to \<open>at\<close> of a buffer of \<open>cap\<close> bytes.\<close>

definition read_to :: "nat \<Rightarrow> nat \<Rightarrow> nat \<Rightarrow> string \<Rightarrow> read_error + (string \<times> string)" where
  "read_to cap at n input =
     (let got = take n input
      in if cap < at + length got then Inl Row_overflow
         else if length got \<noteq> n then Inl Row_error
         else Inr (got, drop n input))"

fun read_columns :: "nat \<Rightarrow> nat \<Rightarrow> nat \<Rightarrow> string \<Rightarrow> read_error + ((char \<times> string) list \<times> string)" where
  "read_columns cap 0 at input = Inr ([], input)"
| "read_columns cap (Suc i) at input =
     bind_result (read_to cap at 2 input) (\<lambda>(tl, in1).
     let len_of_len = as_size (char_minus_zero (tl ! 1)) in
     bind_result (read_to cap (at + 2) len_of_len in1) (\<lambda>(l, in2).
     if cap \<le> at + 2 + len_of_len then Inl Row_overflow
     else case sscanf_zx l of
       None \<Rightarrow> Inl Row_error
     | Some len \<Rightarrow>
         bind_result (read_to cap (at + 2 + len_of_len) len in2) (\<lambda>(v, in3).
         bind_result (read_columns cap i (at + 2 + len_of_len + len) in3) (\<lambda>(cols, in4).
         Inr ((char_of (of_char (tl ! 0) + 208 :: nat), v) # cols, in4)))))"

definition gufi_query_read_row :: "string \<Rightarrow> read_error + ((char \<times> string) list \<times> string)" where
  "gufi_query_read_row input =
     (let prefix = take 12 input
      in if prefix = [] then Inl Row_eof
         else if length prefix \<noteq> 12 then Inl Row_error
         else case (scan_num 16 (take 8 (dropWhile isspace (cstr prefix))),
                    scan_num 16 (take 4 (dropWhile isspace (cstr (drop 8 prefix))))) of
                (Some (row_len, _), Some (col_count, _)) \<Rightarrow>
                  read_columns (as_size (row_len - 11)) (nat col_count) 0 (drop 12 input)
              | _ \<Rightarrow> Inl Row_error)"

end
