(* ===== verification/OutputProps.thy ===== *)
theory OutputProps
  imports Output
begin

text \<open>
  What reaches the file: every row once and whole, in the order of the thread, whichever way the buffer was filled
  and flushed; and what the virtual tables read of typed rows.
\<close>

section \<open>Lengths\<close>

lemma length_digits_step: "length (digits 16 n) = (if n < 16 then 1 else Suc (length (digits 16 (n div 16))))"
  by (subst digits.simps) simp

lemma len_of_len_loop_digits:
  "m < 16 ^ (8 - c) \<Longrightarrow> c \<le> 8 \<Longrightarrow> len_of_len_loop c m = c + (if m = 0 then 0 else length (digits 16 m))"
proof (induction c m rule: len_of_len_loop.induct)
  case (1 c m)
  show ?case
  proof (cases "m = 0")
    case True
    then show ?thesis by (simp add: len_of_len_loop.simps)
  next
    case False
    then have c: "c < 8" using 1 by (cases "c = 8") auto
    then have "8 - c = Suc (8 - (c + 1))" by simp
    then have "m div 16 < 16 ^ (8 - (c + 1))" using 1(2) by (simp add: less_mult_imp_div_less mult.commute)
    then have "len_of_len_loop (c + 1) (m div 16) = c + 1 + (if m div 16 = 0 then 0 else length (digits 16 (m div 16)))"
      using 1(1) c False by simp
    then show ?thesis using c False by (subst len_of_len_loop.simps) (simp add: length_digits_step [of m] div_eq_0_iff)
  qed
qed

lemma len_of_len_digits:
  assumes "n < 16 ^ 8"
  shows "len_of_len n = length (digits 16 n)"
proof -
  have "n div 16 < 16 ^ (8 - 1)" using assms by (simp add: less_mult_imp_div_less)
  then have "len_of_len n = 1 + (if n div 16 = 0 then 0 else length (digits 16 (n div 16)))"
    unfolding len_of_len_def by (rule len_of_len_loop_digits) simp
  then show ?thesis by (simp add: length_digits_step [of n] div_eq_0_iff)
qed

lemma length_fmt_hex: "n < 16 ^ w \<Longrightarrow> 0 < w \<Longrightarrow> length (fmt_hex w n) = w"
  using length_digits [of 16 w n] by (simp add: fmt_hex_def Let_def)

text \<open>The columns of a row that can be printed: typed all or none, none longer than eight hexadecimal digits can say.\<close>

definition columns_ok :: "bool \<Rightarrow> column list \<Rightarrow> bool" where
  "columns_ok typed cols \<longleftrightarrow> cols \<noteq> [] \<and> (\<forall>c \<in> set cols. (fst c \<noteq> None) = typed \<and> length (snd c) < 16 ^ 8)"

lemma length_column_bytes:
  "(fst c \<noteq> None) = typed \<Longrightarrow> length (snd c) < 16 ^ 8 \<Longrightarrow>
   length (column_bytes c) = length (snd c) + (if typed then 1 + (1 + len_of_len (length (snd c))) else 0)"
  by (auto simp: column_bytes_def len_of_len_digits)

lemma length_columns_bytes:
  "columns_ok typed cols \<Longrightarrow> length (columns_bytes delim cols) =
   sum_list (map (\<lambda>c. length (snd c) + (if typed then 1 + (1 + len_of_len (length (snd c))) else 0)) cols)
   + (if typed then 0 else length cols - 1)"
proof (induction delim cols rule: columns_bytes.induct)
  case (2 delim c)
  then show ?case using length_column_bytes [of c typed] by (simp add: columns_ok_def)
next
  case (3 delim c c' cs)
  then have ok: "columns_ok typed (c' # cs)" and c: "(fst c \<noteq> None) = typed" "length (snd c) < 16 ^ 8"
    by (simp_all add: columns_ok_def)
  show ?case using 3(1) [OF ok] length_column_bytes [OF c] c(1) by auto
qed (simp add: columns_ok_def)

lemma length_row_bytes:
  assumes "columns_ok typed cols" "row_length typed s cols < 16 ^ 8" "length cols < 16 ^ 4"
  shows "length (row_bytes typed d n s cols) = row_length typed s cols"
  using length_columns_bytes [OF assms(1), of d] length_fmt_hex [OF assms(2)] length_fmt_hex [OF assms(3)]
  by (auto simp: row_bytes_def row_prefix_def row_length_def)

section \<open>Putting into a buffer\<close>

definition at_end :: "string \<Rightarrow> nat \<Rightarrow> place \<Rightarrow> bool" where
  "at_end s cap p \<longleftrightarrow> length (fst p) = cap \<and> snd p = length s \<and> length s \<le> cap \<and> take (length s) (fst p) = s"

lemma put_end:
  assumes "at_end s cap p" "length s + length t \<le> cap"
  shows "\<exists>p'. put t p = Some p' \<and> at_end (s @ t) cap p'"
  using assms by (auto simp: put_def store_def at_end_def)

lemma put_fmt_end:
  assumes "at_end s cap p" "length t = n" "length s + n < cap"
  shows "\<exists>p'. put_fmt n t p = Some p' \<and> at_end (s @ t) cap p'"
  using assms by (auto simp: put_fmt_def store_def at_end_def Let_def)

lemma put_nil: "at_end s cap p \<Longrightarrow> put [] p = Some p"
  using append_take_drop_id [of "length s" "fst p"] by (cases p) (simp add: put_def store_def at_end_def)

text \<open>Without room for its NUL the last character is lost.\<close>

lemma put_fmt_cut:
  assumes "at_end s cap p" "length t = n" "length s + n = cap" "0 < n"
  shows "\<exists>p'. put_fmt n t p = Some p' \<and> at_end (s @ butlast t @ [NUL]) cap p'"
  using assms by (auto simp: put_fmt_def store_def at_end_def Let_def butlast_conv_take)

lemma put_column_end:
  assumes p: "at_end s cap p" and c: "length (snd c) < 16 ^ 8" "length s + length (column_bytes c) \<le> cap"
    and room: "fst c = None \<or> snd c \<noteq> [] \<or> length s + length (column_bytes c) < cap"
  shows "\<exists>p'. put_column c p = Some p' \<and> at_end (s @ column_bytes c) cap p'"
proof (cases "fst c")
  case None
  then show ?thesis using put_end [OF p, of "snd c"] c by (simp add: put_column_def column_bytes_def)
next
  case (Some t)
  let ?l = "length (snd c)" and ?t = "[char_of (t + 48)] :: string" and ?n = "[char_of (len_of_len (length (snd c)) + 48)] :: string"
  have b: "column_bytes c = ?t @ ?n @ digits 16 ?l @ snd c" using Some by (simp add: column_bytes_def)
  have len: "length s + (2 + (length (digits 16 ?l) + ?l)) \<le> cap" using c(2) unfolding b by simp
  obtain p1 where p1: "put ?t p = Some p1" "at_end (s @ ?t) cap p1" using put_end [OF p, of ?t] len by auto
  obtain p2 where p2: "put ?n p1 = Some p2" "at_end ((s @ ?t) @ ?n) cap p2" using put_end [OF p1(2), of ?n] len by auto
  have "length ((s @ ?t) @ ?n) + len_of_len ?l < cap"
  proof (cases "snd c = []")
    case True
    then show ?thesis using room Some unfolding b len_of_len_digits [OF c(1)] by simp
  next
    case False
    then have "1 \<le> ?l" by (cases "snd c") simp_all
    then show ?thesis using len unfolding len_of_len_digits [OF c(1)] by (simp del: length_greater_0_conv)
  qed
  then obtain p3 where p3: "put_fmt (len_of_len ?l) (digits 16 ?l) p2 = Some p3" "at_end (((s @ ?t) @ ?n) @ digits 16 ?l) cap p3"
    using put_fmt_end [OF p2(2), of "digits 16 ?l" "len_of_len ?l"] by (auto simp: len_of_len_digits [OF c(1)])
  obtain p4 where "put (snd c) p3 = Some p4" "at_end ((((s @ ?t) @ ?n) @ digits 16 ?l) @ snd c) cap p4"
    using put_end [OF p3(2), of "snd c"] len by auto
  then show ?thesis using Some p1 p2 p3 unfolding b by (simp add: put_column_def)
qed

lemma column_bytes_ne: "fst c \<noteq> None \<Longrightarrow> column_bytes c \<noteq> []"
  by (auto simp: column_bytes_def)

lemma columns_bytes_ne: "columns_ok True cols \<Longrightarrow> columns_bytes d cols \<noteq> []"
  by (cases "(d, cols)" rule: columns_bytes.cases) (auto simp: columns_ok_def column_bytes_ne)

lemma put_columns_end:
  "columns_ok typed cols \<Longrightarrow> at_end s cap p \<Longrightarrow> length s + length (columns_bytes delim cols) \<le> cap \<Longrightarrow>
   \<not> typed \<or> snd (last cols) \<noteq> [] \<or> length s + length (columns_bytes delim cols) < cap \<Longrightarrow>
   \<exists>p'. put_columns delim cols p = Some p' \<and> at_end (s @ columns_bytes delim cols) cap p'"
proof (induction delim cols arbitrary: s p rule: columns_bytes.induct)
  case (2 delim c)
  then show ?case using put_column_end [of s cap p c] by (auto simp: columns_ok_def)
next
  case (3 delim c c' cs)
  then have ok: "columns_ok typed (c' # cs)" and c: "(fst c \<noteq> None) = typed" "length (snd c) < 16 ^ 8"
    by (simp_all add: columns_ok_def)
  let ?d = "if fst c = None then [delim] else []"
  have len: "length s + (length (column_bytes c) + (length ?d + length (columns_bytes delim (c' # cs)))) \<le> cap"
    using "3.prems"(3) by simp
  have "fst c = None \<or> snd c \<noteq> [] \<or> length s + length (column_bytes c) < cap"
  proof (cases typed)
    case True
    then have "0 < length (columns_bytes delim (c' # cs))" using columns_bytes_ne [of "c' # cs" delim] ok by simp
    then show ?thesis using len by linarith
  qed (use c in simp)
  then obtain p1 where p1: "put_column c p = Some p1" "at_end (s @ column_bytes c) cap p1"
    using put_column_end [OF "3.prems"(2) c(2)] len by auto
  obtain p2 where p2: "(if fst c = None then put [delim] p1 else Some p1) = Some p2" "at_end ((s @ column_bytes c) @ ?d) cap p2"
  proof (cases "fst c")
    case None
    then show ?thesis using that put_end [OF p1(2), of "[delim]"] len by auto
  next
    case (Some t)
    then show ?thesis using that [of p1] p1(2) by simp
  qed
  have "length ((s @ column_bytes c) @ ?d) + length (columns_bytes delim (c' # cs)) \<le> cap" using len by simp
  moreover have "\<not> typed \<or> snd (last (c' # cs)) \<noteq> []
      \<or> length ((s @ column_bytes c) @ ?d) + length (columns_bytes delim (c' # cs)) < cap"
    using "3.prems"(4) by auto
  ultimately obtain p3 where "put_columns delim (c' # cs) p2 = Some p3"
      "at_end (((s @ column_bytes c) @ ?d) @ columns_bytes delim (c' # cs)) cap p3"
    using "3.IH" [OF ok p2(2)] by blast
  then show ?case using p1(1) p2(1) by simp
qed (simp add: columns_ok_def)

lemma put_row_end:
  assumes ok: "columns_ok typed cols" and sz: "row_length typed sn cols < 16 ^ 8" "length cols < 16 ^ 4"
    and p: "at_end s cap p" and len: "length s + row_length typed sn cols \<le> cap"
    and room: "\<not> typed \<or> snd (last cols) \<noteq> [] \<or> length s + row_length typed sn cols < cap"
  shows "\<exists>p'. put_row typed delim newline sn cols p = Some p' \<and> at_end (s @ row_bytes typed delim newline sn cols) cap p'"
proof (cases typed)
  case True
  let ?a = "fmt_hex 8 (row_length True sn cols)" and ?b = "fmt_hex 4 (length cols)"
  have ab: "length ?a = 8" "length ?b = 4" using sz True by (simp_all add: length_fmt_hex)
  have b: "row_bytes typed delim newline sn cols = ?a @ ?b @ columns_bytes delim cols" using True by (simp add: row_bytes_def row_prefix_def)
  have l: "row_length typed sn cols = 12 + length (columns_bytes delim cols)"
    using length_row_bytes [OF ok sz, of delim newline] ab unfolding b by simp
  have ne: "0 < length (columns_bytes delim cols)" using columns_bytes_ne [of cols delim] ok True by simp
  obtain p1 where p1: "put_fmt 8 ?a p = Some p1" "at_end (s @ ?a) cap p1" using put_fmt_end [OF p ab(1)] len l ne by auto
  obtain p2 where p2: "put_fmt 4 ?b p1 = Some p2" "at_end ((s @ ?a) @ ?b) cap p2" using put_fmt_end [OF p1(2) ab(2)] len l ne ab by auto
  obtain p3 where p3: "put_columns delim cols p2 = Some p3" "at_end (((s @ ?a) @ ?b) @ columns_bytes delim cols) cap p3"
    using put_columns_end [OF ok p2(2), of delim] len room l ab by auto
  then show ?thesis using put_nil [OF p3(2)] p1(1) p2(1) p3 True b by (simp add: put_row_def)
next
  case False
  let ?nl = "if \<not> sn then [newline] else []"
  have b: "row_bytes typed delim newline sn cols = columns_bytes delim cols @ ?nl" using False by (simp add: row_bytes_def row_prefix_def)
  have l: "row_length typed sn cols = length (columns_bytes delim cols) + length ?nl"
    using length_row_bytes [OF ok sz, of delim newline] unfolding b by simp
  obtain p1 where p1: "put_columns delim cols p = Some p1" "at_end (s @ columns_bytes delim cols) cap p1"
    using put_columns_end [OF ok p, of delim] len False l by auto
  obtain p2 where "put ?nl p1 = Some p2" "at_end ((s @ columns_bytes delim cols) @ ?nl) cap p2"
    using put_end [OF p1(2), of ?nl] len l by auto
  then show ?thesis using p1 False b unfolding put_row_def by auto
qed

section \<open>Printing rows\<close>

definition printed :: "print_args \<Rightarrow> string" where
  "printed p = fl_data (pr_file p) @ ob_text (pr_ob p)"

definition printable :: "nat list option \<Rightarrow> bool \<Rightarrow> string option list \<Rightarrow> bool" where
  "printable types suppress_newline data \<longleftrightarrow>
     columns_ok (types \<noteq> None) (columns_of types data)
     \<and> row_length (types \<noteq> None) suppress_newline (columns_of types data) < 16 ^ 8
     \<and> length (columns_of types data) < 16 ^ 4"

abbreviation bytes_of :: "print_args \<Rightarrow> string option list \<Rightarrow> string" where
  "bytes_of p data \<equiv> row_bytes (pr_types p \<noteq> None) (pr_delim p) (pr_newline p) (pr_suppress_newline p) (columns_of (pr_types p) data)"

lemma fwrite_room: "fl_room f = None \<Longrightarrow> fwrite s f = (length s, f\<lparr>fl_data := fl_data f @ s\<rparr>)"
  by (simp add: fwrite_def)

lemma length_ob_text: "ob_filled b \<le> ob_capacity b \<Longrightarrow> length (ob_text b) = ob_filled b"
  by (simp add: ob_text_def)

lemma flush_room:
  assumes "fl_room f = None" "ob_filled b \<le> ob_capacity b"
  shows "OutputBuffer_flush b f = (ob_filled b, b\<lparr>ob_filled := 0\<rparr>, f\<lparr>fl_data := fl_data f @ ob_text b\<rparr>)"
  using assms by (simp add: OutputBuffer_flush_def fwrite_room length_ob_text)

text \<open>The buffer a row is put into when it fits.\<close>

lemma at_end_text: "ob_filled b \<le> ob_capacity b \<Longrightarrow> at_end (ob_text b) (ob_capacity b) (ob_buf b, ob_filled b)"
  by (simp add: at_end_def ob_text_def)

lemma at_end_ob: "at_end s cap (buf, n) \<Longrightarrow> n \<le> cap \<and> length buf = cap \<and> take n buf = s"
  by (auto simp: at_end_def)

text \<open>The row does not end with an empty column whose length has no room for the NUL behind it.\<close>

definition tight :: "print_args \<Rightarrow> string option list \<Rightarrow> bool" where
  "tight p data \<longleftrightarrow> pr_types p \<noteq> None \<and> snd (last (columns_of (pr_types p) data)) = []
     \<and> (let len = row_length True (pr_suppress_newline p) (columns_of (pr_types p) data)
        in len = ob_capacity (pr_ob p) \<or> ob_filled (pr_ob p) + len = ob_capacity (pr_ob p))"

lemma print_parallel_appends:
  assumes fit: "ob_filled (pr_ob p) \<le> ob_capacity (pr_ob p)" and room: "fl_room (pr_file p) = None"
    and ok: "printable (pr_types p) (pr_suppress_newline p) data" and tight: "\<not> tight p data"
  shows "\<exists>ob f. print_parallel p data = Some (p\<lparr>pr_ob := ob, pr_file := f, pr_rows := pr_rows p + 1\<rparr>)
    \<and> ob_filled ob \<le> ob_capacity ob \<and> ob_capacity ob = ob_capacity (pr_ob p) \<and> ob_count ob = ob_count (pr_ob p) + 1
    \<and> fl_room f = None \<and> fl_data f @ ob_text ob = printed p @ bytes_of p data"
proof -
  let ?typed = "pr_types p \<noteq> None" and ?sn = "pr_suppress_newline p" and ?cols = "columns_of (pr_types p) data"
  let ?len = "row_length ?typed ?sn ?cols" and ?b = "pr_ob p" and ?f = "pr_file p"
  let ?cap = "ob_capacity ?b"
  note ok' = ok [unfolded printable_def]
  define b1 where "b1 = (if ?cap - ob_filled ?b < ?len then ?b\<lparr>ob_filled := 0\<rparr> else ?b)"
  define f1 where "f1 = (if ?cap - ob_filled ?b < ?len then ?f\<lparr>fl_data := fl_data ?f @ ob_text ?b\<rparr> else ?f)"
  have flushed: "(if ?cap - ob_filled ?b < ?len then snd (OutputBuffer_flush ?b ?f) else (?b, ?f)) = (b1, f1)"
    using flush_room [OF room fit] by (simp add: b1_def f1_def)
  have b1: "ob_filled b1 \<le> ob_capacity b1" "ob_capacity b1 = ?cap" "fl_room f1 = None" "fl_data f1 @ ob_text b1 = printed p"
    "ob_count b1 = ob_count ?b"
    using fit room by (simp_all add: b1_def f1_def printed_def ob_text_def)
  show ?thesis
  proof (cases "?cap < ?len")
    case True
    then have "?cap - ob_filled ?b < ?len" by linarith
    then have "ob_filled b1 = 0" unfolding b1_def by (simp only: if_True) simp
    then have "fl_data f1 = printed p" using b1(4) by (simp add: ob_text_def)
    moreover have "print_parallel p data = Some (p\<lparr>pr_ob := b1\<lparr>ob_count := ob_count b1 + 1\<rparr>,
        pr_file := f1\<lparr>fl_data := fl_data f1 @ bytes_of p data\<rparr>, pr_rows := pr_rows p + 1\<rparr>)"
      using True by (simp only: print_parallel_def Let_def flushed split_conv if_True fwrite_room [OF b1(3)] snd_conv)
    ultimately show ?thesis using b1 \<open>ob_filled b1 = 0\<close>
      by (intro exI [of _ "b1\<lparr>ob_count := ob_count b1 + 1\<rparr>"] exI [of _ "f1\<lparr>fl_data := fl_data f1 @ bytes_of p data\<rparr>"])
        (simp add: ob_text_def)
  next
    case False
    have "ob_filled b1 + ?len \<le> ?cap" using False fit by (auto simp: b1_def)
    moreover have "\<not> ?typed \<or> snd (last ?cols) \<noteq> [] \<or> ob_filled b1 + ?len < ?cap"
      using tight \<open>ob_filled b1 + ?len \<le> ?cap\<close> by (cases "pr_types p") (auto simp: tight_def b1_def Let_def split: if_splits)
    ultimately obtain buf n where q: "put_row ?typed (pr_delim p) (pr_newline p) ?sn ?cols (ob_buf b1, ob_filled b1) = Some (buf, n)"
      "at_end (ob_text b1 @ bytes_of p data) ?cap (buf, n)"
      using put_row_end [of ?typed ?cols ?sn "ob_text b1" ?cap "(ob_buf b1, ob_filled b1)" "pr_delim p" "pr_newline p"]
        ok' at_end_text [OF b1(1)] b1(1,2) by (auto simp: length_ob_text)
    have "print_parallel p data = Some (p\<lparr>pr_ob := \<lparr>ob_buf = buf, ob_filled = n, ob_count = ob_count b1 + 1\<rparr>, pr_file := f1,
        pr_rows := pr_rows p + 1\<rparr>)"
      using False by (simp only: print_parallel_def Let_def flushed split_conv if_False q(1) option.map)
    then show ?thesis using at_end_ob [OF q(2)] b1(3-5)
      by (intro exI [of _ "\<lparr>ob_buf = buf, ob_filled = n, ob_count = ob_count b1 + 1\<rparr>"] exI [of _ f1]) (simp add: ob_text_def)
  qed
qed

fun print_rows :: "print_args \<Rightarrow> string option list list \<Rightarrow> print_args option" where
  "print_rows p [] = Some p"
| "print_rows p (d # ds) = Option.bind (print_parallel p d) (\<lambda>p'. print_rows p' ds)"

text \<open>Rows that cannot be tight.\<close>

definition fine :: "nat list option \<Rightarrow> bool \<Rightarrow> string option list \<Rightarrow> bool" where
  "fine types suppress_newline data \<longleftrightarrow> printable types suppress_newline data
     \<and> (types \<noteq> None \<longrightarrow> snd (last (columns_of types data)) \<noteq> [])"

lemma print_rows_appends:
  assumes "ob_filled (pr_ob p) \<le> ob_capacity (pr_ob p)" "fl_room (pr_file p) = None"
    and "\<forall>d \<in> set rows. fine (pr_types p) (pr_suppress_newline p) d"
  shows "\<exists>ob f n. print_rows p rows = Some (p\<lparr>pr_ob := ob, pr_file := f, pr_rows := n\<rparr>)
    \<and> ob_filled ob \<le> ob_capacity ob \<and> fl_room f = None \<and> fl_data f @ ob_text ob = printed p @ concat (map (bytes_of p) rows)"
  using assms
proof (induction rows arbitrary: p)
  case Nil
  then show ?case
    by (intro exI [of _ "pr_ob p"] exI [of _ "pr_file p"] exI [of _ "pr_rows p"]) (simp add: printed_def)
next
  case (Cons d ds)
  have f: "fine (pr_types p) (pr_suppress_newline p) d" using Cons.prems(3) by simp
  then have "\<not> tight p d" by (auto simp: fine_def tight_def)
  then obtain ob g where p1: "print_parallel p d = Some (p\<lparr>pr_ob := ob, pr_file := g, pr_rows := pr_rows p + 1\<rparr>)"
    "ob_filled ob \<le> ob_capacity ob" "fl_room g = None" "fl_data g @ ob_text ob = printed p @ bytes_of p d"
    using print_parallel_appends [OF Cons.prems(1,2) f [unfolded fine_def, THEN conjunct1]] by blast
  let ?p = "p\<lparr>pr_ob := ob, pr_file := g, pr_rows := pr_rows p + 1\<rparr>"
  obtain ob' g' n where "print_rows ?p ds = Some (?p\<lparr>pr_ob := ob', pr_file := g', pr_rows := n\<rparr>)"
    "ob_filled ob' \<le> ob_capacity ob'" "fl_room g' = None" "fl_data g' @ ob_text ob' = printed ?p @ concat (map (bytes_of ?p) ds)"
    using Cons.IH [of ?p] p1(2,3) Cons.prems(3) by auto
  then show ?case using p1 by (intro exI [of _ ob'] exI [of _ g'] exI [of _ n]) (simp add: printed_def)
qed

text \<open>What is in the file when the buffer was flushed at the end.\<close>

definition output_of :: "print_args \<Rightarrow> string" where
  "output_of p = fl_data (snd (snd (OutputBuffer_flush (pr_ob p) (pr_file p))))"

lemma output_of_room: "fl_room (pr_file p) = None \<Longrightarrow> ob_filled (pr_ob p) \<le> ob_capacity (pr_ob p) \<Longrightarrow> output_of p = printed p"
  by (simp add: output_of_def flush_room printed_def)

lemma print_rows_output:
  assumes "ob_filled (pr_ob p) \<le> ob_capacity (pr_ob p)" "fl_room (pr_file p) = None"
    and "\<forall>d \<in> set rows. fine (pr_types p) (pr_suppress_newline p) d"
  shows "\<exists>p'. print_rows p rows = Some p' \<and> output_of p' = printed p @ concat (map (bytes_of p) rows)"
proof -
  obtain ob f n where r: "print_rows p rows = Some (p\<lparr>pr_ob := ob, pr_file := f, pr_rows := n\<rparr>)"
    "ob_filled ob \<le> ob_capacity ob" "fl_room f = None" "fl_data f @ ob_text ob = printed p @ concat (map (bytes_of p) rows)"
    using print_rows_appends [OF assms] by blast
  let ?p = "p\<lparr>pr_ob := ob, pr_file := f, pr_rows := n\<rparr>"
  have "output_of ?p = printed ?p" by (rule output_of_room) (use r in simp_all)
  then have "output_of ?p = printed p @ concat (map (bytes_of p) rows)" using r(4) by (simp add: printed_def)
  then show ?thesis using r(1) by blast
qed



section \<open>Typed rows are read back\<close>

lemma digits16: "c \<in> set (digits 16 n) \<Longrightarrow> is_digit 16 c"
  by (rule digits_all) simp_all

lemma fmt_hex_digits: "c \<in> set (fmt_hex w n) \<Longrightarrow> is_digit 16 c"
  using digits16 [of c n] is_digit_zero by (auto simp: fmt_hex_def Let_def)

lemma num_value_fmt_hex: "num_value 16 (fmt_hex w n) = n"
  by (simp add: fmt_hex_def Let_def num_value_zeros num_value_digits)

text \<open>A text of digits as it is.\<close>

lemma scan_digits16:
  assumes "ds \<noteq> []" "\<And>c. c \<in> set ds \<Longrightarrow> is_digit 16 c"
  shows "scan_num 16 ds = Some (int (num_value 16 ds), length ds)"
proof (cases "1 < length ds")
  case True
  then show ?thesis using scan_num_digits [of ds 16 "[]"] assms by simp
next
  case False
  then obtain c where ds: "ds = [c]" using assms(1) by (cases ds) auto
  then have "is_digit 16 c" using assms(2) by simp
  then show ?thesis unfolding ds using digit_not_sign [of 16 c] by (simp add: scan_num_def Let_def)
qed

lemma digits_plain:
  assumes "\<And>c. c \<in> set ds \<Longrightarrow> is_digit b c"
  shows "cstr ds = ds" "dropWhile isspace ds = ds"
proof -
  show "cstr ds = ds" using assms digit_not_sign by (intro cstr_id) blast
  show "dropWhile isspace ds = ds" using assms digit_not_sign by (cases ds) auto
qed

lemma sscanf_zx_digits: "n < 2 ^ 64 \<Longrightarrow> sscanf_zx (digits 16 n) = Some n"
  using scan_digits16 [OF digits_ne, of 16 n] digits_plain [of "digits 16 n" 16] digits16
  by (simp add: sscanf_zx_def num_value_digits as_size_def clamp_u_def)

lemma char_minus_zero_digit: "n < 10 \<Longrightarrow> char_minus_zero (char_of (n + 48)) = int n"
proof -
  assume n: "n < 10"
  then have "(of_nat (of_char (char_of (n + 48) :: char)) - 48 :: 8 word) = of_nat n" by simp
  then show ?thesis using n by (simp add: char_minus_zero_def signed_of_nat signed_take_bit_eq_if_positive bit_iff_odd take_bit_int_eq_self_iff)
qed

lemma length_digits16: "n < 16 ^ 8 \<Longrightarrow> length (digits 16 n) \<le> 8"
  by (rule length_digits) simp_all

lemma type_char: "char_of (of_char (char_of (t + 48 :: nat) :: char) + 208 :: nat) = (char_of t :: char)"
proof -
  have e: "t + 48 + 208 = t + 256" by simp
  have "((t + 48) mod 256 + 208) mod 256 = (t + 48 + 208) mod 256" by (rule mod_add_left_eq)
  also have "\<dots> = t mod 256" unfolding e by (rule mod_add_self2)
  finally have m: "((t + 48) mod 256 + 208) mod 256 = t mod 256" .
  have "char_of (of_char (char_of (t + 48) :: char) + 208 :: nat) = (char_of (((t + 48) mod 256 + 208) mod 256) :: char)"
    by (simp only: of_char_of char_of_mod_256)
  then show ?thesis unfolding m by (simp only: char_of_mod_256)
qed

text \<open>What a typed column is read as.\<close>

definition value_of :: "column \<Rightarrow> char \<times> string" where
  "value_of c = (char_of (the (fst c)), snd c)"

lemma columns_bytes_typed: "columns_ok True cols \<Longrightarrow> columns_bytes delim cols = concat (map column_bytes cols)"
  by (induction delim cols rule: columns_bytes.induct) (auto simp: columns_ok_def)

lemma read_columns_bytes:
  assumes "\<forall>c \<in> set cols. fst c \<noteq> None \<and> length (snd c) < 16 ^ 8"
    and "at + length (concat (map column_bytes cols)) < cap"
  shows "read_columns cap (length cols) at (concat (map column_bytes cols) @ rest) = Inr (map value_of cols, rest)"
  using assms
proof (induction cols arbitrary: "at")
  case (Cons c cols)
  obtain t where t: "fst c = Some t" using Cons.prems(1) by auto
  let ?l = "length (snd c)" and ?ds = "digits 16 (length (snd c))" and ?more = "concat (map column_bytes cols) @ rest"
  have l: "?l < 16 ^ 8" using Cons.prems(1) by simp
  have b: "column_bytes c = [char_of (t + 48), char_of (length ?ds + 48)] @ ?ds @ snd c"
    using t by (simp add: column_bytes_def len_of_len_digits [OF l])
  have cap: "at + (2 + (length ?ds + (?l + length (concat (map column_bytes cols))))) < cap"
    using Cons.prems(2) unfolding b list.map concat.simps length_append by simp
  have n: "as_size (char_minus_zero (char_of (length ?ds + 48))) = length ?ds"
    using char_minus_zero_digit [of "length ?ds"] length_digits16 [OF l] by (simp add: as_size_def)
  have "read_columns cap (length cols) (at + 2 + length ?ds + ?l) ?more = Inr (map value_of cols, rest)"
  proof (rule Cons.IH)
    show "\<forall>c \<in> set cols. fst c \<noteq> None \<and> length (snd c) < 16 ^ 8" using Cons.prems(1) by (intro ballI) (meson list.set_intros(2))
    show "at + 2 + length ?ds + ?l + length (concat (map column_bytes cols)) < cap" using cap by linarith
  qed
  note more = this
  have z: "sscanf_zx ?ds = Some ?l" using l by (intro sscanf_zx_digits) simp
  have ch: "char_of (of_char (char_of (t + 48) :: char) + 208 :: nat) = (char_of t :: char)"
    by (rule type_char)
  have r1: "read_to cap at 2 (column_bytes c @ ?more) = Inr ([char_of (t + 48), char_of (length ?ds + 48)], ?ds @ snd c @ ?more)"
    using cap by (simp add: read_to_def b)
  have r2: "read_to cap (at + 2) (length ?ds) (?ds @ snd c @ ?more) = Inr (?ds, snd c @ ?more)"
    using cap by (simp add: read_to_def)
  have r3: "read_to cap (at + 2 + length ?ds) ?l (snd c @ ?more) = Inr (snd c, ?more)"
    using cap by (simp add: read_to_def)
  have over: "\<not> cap \<le> at + 2 + length ?ds" using cap by simp
  show ?case
    unfolding list.map concat.simps append_assoc list.size(4) read_columns.simps add_Suc_right add_0_right
    by (simp only: r1 bind_result_simps prod.case nth_Cons_0 One_nat_def nth_Cons_Suc Let_def n r2 over if_False z option.case r3 more ch
        value_of_def t option.sel)
qed simp

lemma scan_fmt_hex: "0 < w \<Longrightarrow> scan_num 16 (fmt_hex w n) = Some (int n, length (fmt_hex w n))"
proof -
  have "fmt_hex w n \<noteq> []" by (simp add: fmt_hex_def Let_def)
  then have "scan_num 16 (fmt_hex w n) = Some (int (num_value 16 (fmt_hex w n)), length (fmt_hex w n))"
    by (rule scan_digits16) (rule fmt_hex_digits)
  then show ?thesis by (simp only: num_value_fmt_hex)
qed

lemma read_row_bytes:
  assumes ok: "columns_ok True cols" and sz: "row_length True sn cols < 16 ^ 8" "length cols < 16 ^ 4"
  shows "gufi_query_read_row (row_bytes True delim newline sn cols @ rest) = Inr (map value_of cols, rest)"
proof -
  let ?n = "row_length True sn cols"
  let ?a = "fmt_hex 8 ?n" and ?b = "fmt_hex 4 (length cols)" and ?c = "concat (map column_bytes cols)"
  have b: "row_bytes True delim newline sn cols = ?a @ ?b @ ?c"
    by (simp add: row_bytes_def row_prefix_def columns_bytes_typed [OF ok])
  have len: "length ?a = 8" "length ?b = 4" using sz by (simp_all add: length_fmt_hex)
  have n: "?n = 12 + length ?c" using length_row_bytes [OF ok sz, of delim newline] len unfolding b by simp
  have ds: "is_digit 16 c" if "c \<in> set (?a @ ?b)" for c using that fmt_hex_digits by auto
  have pre: "take 12 ((?a @ ?b @ ?c) @ rest) = ?a @ ?b" "drop 12 ((?a @ ?b @ ?c) @ rest) = ?c @ rest" using len by simp_all
  have sa: "take 8 (dropWhile isspace (cstr (?a @ ?b))) = ?a" using digits_plain [of "?a @ ?b", OF ds] len by simp
  have "drop 8 (?a @ ?b) = ?b" using len by simp
  then have sb: "take 4 (dropWhile isspace (cstr (drop 8 (?a @ ?b)))) = ?b"
    using digits_plain [of ?b 16, OF fmt_hex_digits] len by simp
  have cap: "as_size (int ?n - 11) = length ?c + 1" using n sz(1) by (simp add: as_size_def)
  have "read_columns (length ?c + 1) (length cols) 0 (?c @ rest) = Inr (map value_of cols, rest)"
    by (rule read_columns_bytes) (use ok in \<open>auto simp: columns_ok_def\<close>)
  moreover have "?a @ ?b \<noteq> []" "length (?a @ ?b) = 12" using len by auto
  moreover have "scan_num 16 ?a = Some (int ?n, 8)" "scan_num 16 ?b = Some (int (length cols), 4)"
    using scan_fmt_hex [of 8 ?n] scan_fmt_hex [of 4 "length cols"] len by simp_all
  ultimately show ?thesis
    unfolding b gufi_query_read_row_def pre Let_def sa sb by (simp only: if_False option.case prod.case cap nat_int not_True_eq_False) simp
qed

fun read_rows :: "nat \<Rightarrow> string \<Rightarrow> read_error + ((char \<times> string) list list \<times> string)" where
  "read_rows 0 input = Inr ([], input)"
| "read_rows (Suc n) input =
     bind_result (gufi_query_read_row input) (\<lambda>(row, rest).
     bind_result (read_rows n rest) (\<lambda>(rows, rest'). Inr (row # rows, rest')))"

lemma read_rows_bytes:
  "\<forall>cols \<in> set rows. columns_ok True cols \<and> row_length True sn cols < 16 ^ 8 \<and> length cols < 16 ^ 4 \<Longrightarrow>
   read_rows (length rows) (concat (map (row_bytes True delim newline sn) rows)) = Inr (map (map value_of) rows, [])"
proof (induction rows)
  case (Cons r rows)
  have "gufi_query_read_row (row_bytes True delim newline sn r @ concat (map (row_bytes True delim newline sn) rows)) =
      Inr (map value_of r, concat (map (row_bytes True delim newline sn) rows))"
    by (rule read_row_bytes) (use Cons.prems in auto)
  moreover have "read_rows (length rows) (concat (map (row_bytes True delim newline sn) rows)) = Inr (map (map value_of) rows, [])"
    using Cons by simp
  ultimately show ?case by simp
qed simp

text \<open>
  C25: What a query prints with types through a buffer of any size is read back by the virtual tables row by row, with
  the type and the bytes of each column, and nothing is left over, when the last column of no row is empty or NULL (such
  a row can lose the length of that column, theorem \<open>tight_row_loses_length\<close>) and the file takes everything.  A row
  must have fewer than \<open>16\<^sup>4\<close> columns and \<open>16\<^sup>8\<close> bytes.
\<close>
theorem typed_rows_roundtrip:
  assumes "pr_types p = Some types" "printed p = []" "fl_room (pr_file p) = None" "ob_filled (pr_ob p) \<le> ob_capacity (pr_ob p)"
    and "\<forall>d \<in> set rows. fine (Some types) (pr_suppress_newline p) d"
  shows "\<exists>p'. print_rows p rows = Some p'
    \<and> read_rows (length rows) (output_of p') = Inr (map (\<lambda>d. map value_of (columns_of (Some types) d)) rows, [])"
proof -
  let ?sn = "pr_suppress_newline p"
  obtain p' where p': "print_rows p rows = Some p'" "output_of p' = concat (map (bytes_of p) rows)"
    using print_rows_output [of p rows] assms by auto
  have b: "map (bytes_of p) rows = map (row_bytes True (pr_delim p) (pr_newline p) ?sn) (map (columns_of (Some types)) rows)"
    using assms(1) by simp
  have "read_rows (length (map (columns_of (Some types)) rows)) (concat (map (bytes_of p) rows)) =
      Inr (map (map value_of) (map (columns_of (Some types)) rows), [])"
    unfolding b by (rule read_rows_bytes) (use assms(5) in \<open>auto simp: fine_def printable_def\<close>)
  then show ?thesis using p' by (intro exI [of _ p']) (simp add: comp_def)
qed

section \<open>What goes wrong\<close>

lemma put_column_cut:
  assumes p: "at_end s cap p" and c: "fst c = Some t" "snd c = []" "length s + length (column_bytes c) = cap"
  shows "\<exists>p'. put_column c p = Some p' \<and> at_end (s @ butlast (column_bytes c) @ [NUL]) cap p'"
proof -
  let ?t = "[char_of (t + 48)] :: string" and ?n = "[char_of (len_of_len 0 + 48)] :: string"
  have d: "digits 16 0 = ''0''" by (subst digits.simps) (simp add: digit_char_def char_of_def bit_iff_odd)
  have b: "column_bytes c = ?t @ ?n @ ''0''" using c by (simp add: column_bytes_def d)
  have l: "len_of_len 0 = 1" by (simp add: len_of_len_digits d)
  have len: "length s + 3 = cap" using c(3) b by simp
  obtain p1 where p1: "put ?t p = Some p1" "at_end (s @ ?t) cap p1" using put_end [OF p, of ?t] len by auto
  obtain p2 where p2: "put ?n p1 = Some p2" "at_end ((s @ ?t) @ ?n) cap p2" using put_end [OF p1(2), of ?n] len by auto
  obtain p3 where p3: "put_fmt 1 ''0'' p2 = Some p3" "at_end (((s @ ?t) @ ?n) @ butlast ''0'' @ [NUL]) cap p3"
    using put_fmt_cut [OF p2(2), of "''0''" 1] len by auto
  have "put [] p3 = Some p3" by (rule put_nil [OF p3(2)])
  then show ?thesis using c p1 p2 p3 b by (simp add: put_column_def l d)
qed

lemma put_columns_cut:
  "columns_ok True cols \<Longrightarrow> at_end s cap p \<Longrightarrow> length s + length (columns_bytes delim cols) = cap \<Longrightarrow> snd (last cols) = [] \<Longrightarrow>
   \<exists>p'. put_columns delim cols p = Some p' \<and> at_end (s @ butlast (columns_bytes delim cols) @ [NUL]) cap p'"
proof (induction delim cols arbitrary: s p rule: columns_bytes.induct)
  case (2 delim c)
  then obtain t where "fst c = Some t" by (auto simp: columns_ok_def)
  then show ?case using put_column_cut [OF "2.prems"(2)] 2 by simp
next
  case (3 delim c c' cs)
  then have ok: "columns_ok True (c' # cs)" and c: "fst c \<noteq> None" "length (snd c) < 16 ^ 8"
    by (simp_all add: columns_ok_def)
  obtain t where t: "fst c = Some t" using c(1) by auto
  have ne: "0 < length (columns_bytes delim (c' # cs))" using columns_bytes_ne [OF ok, of delim] by simp
  have len: "length s + (length (column_bytes c) + length (columns_bytes delim (c' # cs))) = cap"
    using "3.prems"(3) c by simp
  then have "length s + length (column_bytes c) < cap" using ne by linarith
  then obtain p1 where p1: "put_column c p = Some p1" "at_end (s @ column_bytes c) cap p1"
    using put_column_end [OF "3.prems"(2) c(2)] by auto
  obtain p2 where "put_columns delim (c' # cs) p1 = Some p2"
      "at_end ((s @ column_bytes c) @ butlast (columns_bytes delim (c' # cs)) @ [NUL]) cap p2"
    using "3.IH" [OF ok p1(2)] len "3.prems"(4) by auto
  moreover have "butlast (columns_bytes delim (c # c' # cs)) = column_bytes c @ butlast (columns_bytes delim (c' # cs))"
    using c ne by (auto simp: butlast_append)
  ultimately have "put_columns delim (c # c' # cs) p = Some p2" "at_end (s @ butlast (columns_bytes delim (c # c' # cs)) @ [NUL]) cap p2"
    using p1 t by simp_all
  then show ?case by blast
qed (simp add: columns_ok_def)

text \<open>
  When a typed row whose last column is empty fills the buffer to its end, the length of that column, a zero, is
  printed as a NUL.
\<close>
lemma print_parallel_tight:
  assumes "ob_filled (pr_ob p) \<le> ob_capacity (pr_ob p)" "fl_room (pr_file p) = None"
    and "printable (pr_types p) (pr_suppress_newline p) data" and "tight p data"
  shows "\<exists>ob f. print_parallel p data = Some (p\<lparr>pr_ob := ob, pr_file := f, pr_rows := pr_rows p + 1\<rparr>)
    \<and> ob_filled ob \<le> ob_capacity ob \<and> ob_capacity ob = ob_capacity (pr_ob p) \<and> ob_count ob = ob_count (pr_ob p) + 1
    \<and> fl_room f = None \<and> fl_data f @ ob_text ob = printed p @ butlast (bytes_of p data) @ [NUL]
    \<and> bytes_of p data \<noteq> []"
proof -
  let ?sn = "pr_suppress_newline p" and ?cols = "columns_of (pr_types p) data"
  let ?len = "row_length True ?sn ?cols" and ?b = "pr_ob p" and ?f = "pr_file p"
  let ?cap = "ob_capacity ?b"
  have typed: "(pr_types p \<noteq> None) = True" and last: "snd (last ?cols) = []" using assms(4) by (auto simp: tight_def)
  have ok: "columns_ok True ?cols" "?len < 16 ^ 8" "length ?cols < 16 ^ 4"
    using assms(3) unfolding printable_def typed by simp_all
  define b1 where "b1 = (if ?cap - ob_filled ?b < ?len then ?b\<lparr>ob_filled := 0\<rparr> else ?b)"
  define f1 where "f1 = (if ?cap - ob_filled ?b < ?len then ?f\<lparr>fl_data := fl_data ?f @ ob_text ?b\<rparr> else ?f)"
  have flushed: "(if ?cap - ob_filled ?b < ?len then snd (OutputBuffer_flush ?b ?f) else (?b, ?f)) = (b1, f1)"
    using flush_room [OF assms(2,1)] by (simp add: b1_def f1_def)
  have full: "ob_filled b1 + ?len = ?cap"
    using assms(1,4) by (auto simp: b1_def tight_def Let_def)
  have b1: "ob_filled b1 \<le> ob_capacity b1" "ob_capacity b1 = ?cap" "fl_data f1 @ ob_text b1 = printed p"
    "ob_count b1 = ob_count ?b" "fl_room f1 = None"
    using assms(1,2) by (simp_all add: b1_def f1_def printed_def ob_text_def)
  let ?p = "(ob_buf b1, ob_filled b1)" and ?s = "ob_text b1"
  let ?a = "fmt_hex 8 ?len" and ?c = "fmt_hex 4 (length ?cols)" and ?cs = "columns_bytes (pr_delim p) ?cols"
  have ac: "length ?a = 8" "length ?c = 4" using ok by (simp_all add: length_fmt_hex)
  have b: "bytes_of p data = ?a @ ?c @ ?cs" unfolding typed by (simp add: row_bytes_def row_prefix_def)
  have l: "?len = 12 + length ?cs" using length_row_bytes [OF ok, of "pr_delim p" "pr_newline p"] ac b unfolding typed by simp
  have ne: "?cs \<noteq> []" using columns_bytes_ne [OF ok(1)] .
  then have pos: "0 < length ?cs" by simp
  have s: "length ?s + (12 + length ?cs) = ?cap" using full l length_ob_text [OF b1(1)] by simp
  have p0: "at_end ?s ?cap ?p" using at_end_text [OF b1(1)] b1(2) by simp
  have "length ?s + 8 < ?cap" using s pos by linarith
  then obtain p1 where p1: "put_fmt 8 ?a ?p = Some p1" "at_end (?s @ ?a) ?cap p1" using put_fmt_end [OF p0 ac(1)] by auto
  have "length (?s @ ?a) + 4 < ?cap" using s pos unfolding length_append ac by linarith
  then obtain p2 where p2: "put_fmt 4 ?c p1 = Some p2" "at_end ((?s @ ?a) @ ?c) ?cap p2" using put_fmt_end [OF p1(2) ac(2)] by auto
  have "length ((?s @ ?a) @ ?c) + length ?cs = ?cap" using s ac by simp
  then obtain p3 where p3: "put_columns (pr_delim p) ?cols p2 = Some p3" "at_end (((?s @ ?a) @ ?c) @ butlast ?cs @ [NUL]) ?cap p3"
    using put_columns_cut [OF ok(1) p2(2) _ last] by blast
  obtain buf n where p3e: "p3 = (buf, n)" by (cases p3)
  have row: "put_row True (pr_delim p) (pr_newline p) ?sn ?cols ?p = Some (buf, n)"
    using p1(1) p2(1) p3 put_nil [OF p3(2)] unfolding put_row_def p3e by simp
  have notlarge: "\<not> ?cap < ?len" using full by simp
  have "print_parallel p data = Some (p\<lparr>pr_ob := \<lparr>ob_buf = buf, ob_filled = n, ob_count = ob_count b1 + 1\<rparr>, pr_file := f1,
      pr_rows := pr_rows p + 1\<rparr>)"
    by (simp only: print_parallel_def Let_def typed flushed split_conv notlarge if_False row option.map)
  moreover have "fl_data f1 @ take n buf = printed p @ butlast (bytes_of p data) @ [NUL]"
    using at_end_ob [OF p3(2) [unfolded p3e]] b1(3) ne unfolding b by (simp add: butlast_append)
  moreover have "bytes_of p data \<noteq> []" using ne unfolding b by simp
  ultimately show ?thesis
    using at_end_ob [OF p3(2) [unfolded p3e]] b1(4,5)
    by (intro exI [of _ "\<lparr>ob_buf = buf, ob_filled = n, ob_count = ob_count b1 + 1\<rparr>"] exI [of _ f1]) (simp add: ob_text_def)
qed

theorem tight_row_loses_length:
  assumes "ob_filled (pr_ob p) \<le> ob_capacity (pr_ob p)" "fl_room (pr_file p) = None"
    and "printable (pr_types p) (pr_suppress_newline p) data" and "tight p data"
  shows "\<exists>p'. print_parallel p data = Some p' \<and> printed p' = printed p @ butlast (bytes_of p data) @ [NUL]"
proof -
  obtain ob f where "print_parallel p data = Some (p\<lparr>pr_ob := ob, pr_file := f, pr_rows := pr_rows p + 1\<rparr>)"
    "fl_data f @ ob_text ob = printed p @ butlast (bytes_of p data) @ [NUL]"
    using print_parallel_tight [OF assms] by blast
  then show ?thesis by (simp add: printed_def)
qed

lemma put_length: "put s p = Some p' \<Longrightarrow> snd p' = snd p + length s \<and> snd p' \<le> length (fst p') \<and> length (fst p') = length (fst p)"
  by (cases p) (auto simp: put_def store_def split: if_splits)

lemma put_columns_length:
  "put_columns delim cols p = Some p' \<Longrightarrow> columns_ok False cols \<Longrightarrow>
   snd p' = snd p + length (columns_bytes delim cols) \<and> snd p' \<le> length (fst p') \<and> length (fst p') = length (fst p)"
proof (induction delim cols arbitrary: p rule: columns_bytes.induct)
  case (2 delim c)
  then show ?case using put_length [of "snd c" p p'] by (simp add: columns_ok_def put_column_def column_bytes_def)
next
  case (3 delim c c' cs)
  have ok: "columns_ok False (c' # cs)" and c: "fst c = None" using "3.prems"(2) by (auto simp: columns_ok_def)
  obtain p1 p2 where "put (snd c) p = Some p1" "put [delim] p1 = Some p2" "put_columns delim (c' # cs) p2 = Some p'"
    using "3.prems"(1) c by (auto simp: put_column_def bind_Some_iff)
  then show ?case using put_length [of "snd c" p p1] put_length [of "[delim]" p1 p2] "3.IH" [OF _ ok, of p2] c
    by (simp add: column_bytes_def)
qed (simp add: columns_ok_def)

text \<open>
  When a row does not fit behind what the buffer holds, and the file does not take all of that, as on a full
  disk, the row is written behind the end of the buffer.
\<close>
theorem failed_flush_overflows:
  assumes "pr_types p = None" "fl_room (pr_file p) = Some r" "r < ob_filled (pr_ob p)" "ob_filled (pr_ob p) \<le> ob_capacity (pr_ob p)"
    and "printable None (pr_suppress_newline p) data"
    and "row_length False (pr_suppress_newline p) (columns_of None data) \<le> ob_capacity (pr_ob p)"
    and "ob_capacity (pr_ob p) < ob_filled (pr_ob p) + row_length False (pr_suppress_newline p) (columns_of None data)"
  shows "print_parallel p data = None"
proof -
  let ?sn = "pr_suppress_newline p" and ?cols = "columns_of None data" and ?b = "pr_ob p"
  let ?len = "row_length False ?sn ?cols" and ?cap = "ob_capacity ?b"
  have ok: "columns_ok False ?cols" "?len < 16 ^ 8" "length ?cols < 16 ^ 4"
    using assms(5) by (simp_all add: printable_def)
  have "fst (fwrite (ob_text ?b) (pr_file p)) = r" using assms(2-4) by (simp add: fwrite_def length_ob_text)
  then have "fst (snd (OutputBuffer_flush ?b (pr_file p))) = ?b"
    using assms(3) by (cases "fwrite (ob_text ?b) (pr_file p)") (simp add: OutputBuffer_flush_def)
  moreover have "?cap - ob_filled ?b < ?len" using assms(4,7) by linarith
  ultimately obtain f1 where flushed: "(if ?cap - ob_filled ?b < ?len then snd (OutputBuffer_flush ?b (pr_file p)) else (?b, pr_file p)) = (?b, f1)"
    by (cases "snd (OutputBuffer_flush ?b (pr_file p))") simp
  have "put_row False (pr_delim p) (pr_newline p) ?sn ?cols (ob_buf ?b, ob_filled ?b) = None"
  proof (rule ccontr)
    assume "put_row False (pr_delim p) (pr_newline p) ?sn ?cols (ob_buf ?b, ob_filled ?b) \<noteq> None"
    then obtain p1 p2 where p: "put_columns (pr_delim p) ?cols (ob_buf ?b, ob_filled ?b) = Some p1"
      "put (if \<not> ?sn then [pr_newline p] else []) p1 = Some p2"
      unfolding put_row_def by (auto simp: bind_Some_iff)
    have "snd p2 = ob_filled ?b + ?len \<and> snd p2 \<le> ?cap"
      using put_columns_length [OF p(1) ok(1)] put_length [OF p(2)] length_row_bytes [OF ok, of "pr_delim p" "pr_newline p"]
      by (simp add: row_bytes_def row_prefix_def)
    then show False using assms(7) by simp
  qed
  moreover have "\<not> ?cap < ?len" using assms(6) by simp
  moreover have "(pr_types p \<noteq> None) = False" using assms(1) by simp
  ultimately show ?thesis
    by (simp only: print_parallel_def Let_def assms(1) flushed split_conv if_False option.map simp_thms)
qed

section \<open>Buffers that are in order\<close>

definition ob_ok :: "output_buffer \<Rightarrow> bool" where
  "ob_ok b \<longleftrightarrow> ob_filled b \<le> ob_capacity b"

lemma print_parallel_in_order:
  assumes "ob_ok (pr_ob p)" and "fl_room (pr_file p) = None" and "printable (pr_types p) (pr_suppress_newline p) data"
  obtains ob f where "print_parallel p data = Some (p\<lparr>pr_ob := ob, pr_file := f, pr_rows := pr_rows p + 1\<rparr>)"
    "ob_ok ob" "ob_capacity ob = ob_capacity (pr_ob p)" "ob_count ob = ob_count (pr_ob p) + 1" "fl_room f = None"
    "length (fl_data f @ ob_text ob) = length (printed p) + length (bytes_of p data)"
proof (cases "tight p data")
  case True
  from print_parallel_tight [OF assms(1) [unfolded ob_ok_def] assms(2,3) this] obtain ob f where
    t: "print_parallel p data = Some (p\<lparr>pr_ob := ob, pr_file := f, pr_rows := pr_rows p + 1\<rparr>)"
      "ob_filled ob \<le> ob_capacity ob" "ob_capacity ob = ob_capacity (pr_ob p)" "ob_count ob = ob_count (pr_ob p) + 1"
      "fl_room f = None" "fl_data f @ ob_text ob = printed p @ butlast (bytes_of p data) @ [NUL]" "bytes_of p data \<noteq> []" by blast
  have "length (fl_data f @ ob_text ob) = length (printed p) + length (bytes_of p data)"
    unfolding t(6) using t(7) by (cases "bytes_of p data") simp_all
  then show ?thesis using that [of f ob] t by (simp add: ob_ok_def)
next
  case False
  from print_parallel_appends [OF assms(1) [unfolded ob_ok_def] assms(2,3) this] obtain ob f where
    t: "print_parallel p data = Some (p\<lparr>pr_ob := ob, pr_file := f, pr_rows := pr_rows p + 1\<rparr>)"
      "ob_filled ob \<le> ob_capacity ob" "ob_capacity ob = ob_capacity (pr_ob p)" "ob_count ob = ob_count (pr_ob p) + 1"
      "fl_room f = None" "fl_data f @ ob_text ob = printed p @ bytes_of p data" by blast
  have "length (fl_data f @ ob_text ob) = length (printed p) + length (bytes_of p data)" unfolding t(6) by simp
  then show ?thesis using that [of f ob] t by (simp add: ob_ok_def)
qed

lemma print_rows_in_order:
  assumes "ob_ok (pr_ob p)" and "fl_room (pr_file p) = None"
    and "\<forall>d \<in> set rows. printable (pr_types p) (pr_suppress_newline p) d"
  shows "\<exists>p'. print_rows p rows = Some p' \<and> ob_ok (pr_ob p') \<and> ob_capacity (pr_ob p') = ob_capacity (pr_ob p)
    \<and> ob_count (pr_ob p') = ob_count (pr_ob p) + length rows \<and> pr_rows p' = pr_rows p + length rows
    \<and> length (printed p') = length (printed p) + sum_list (map (\<lambda>d. length (bytes_of p d)) rows)"
  using assms
proof (induction rows arbitrary: p)
  case (Cons d ds)
  from Cons.prems(3) have d: "printable (pr_types p) (pr_suppress_newline p) d" by simp
  obtain ob f where s: "print_parallel p d = Some (p\<lparr>pr_ob := ob, pr_file := f, pr_rows := pr_rows p + 1\<rparr>)"
    "ob_ok ob" "ob_capacity ob = ob_capacity (pr_ob p)" "ob_count ob = ob_count (pr_ob p) + 1" "fl_room f = None"
    "length (fl_data f @ ob_text ob) = length (printed p) + length (bytes_of p d)"
    by (rule print_parallel_in_order [OF Cons.prems(1,2) d])
  let ?p = "p\<lparr>pr_ob := ob, pr_file := f, pr_rows := pr_rows p + 1\<rparr>"
  have "printed ?p = fl_data f @ ob_text ob" by (simp add: printed_def)
  then show ?case
    using Cons.IH [of ?p] Cons.prems(3) s by (auto simp del: length_append)
qed simp

text \<open>
  C27: A buffer is in order when it uses no more than its memory.  When rows of any length, with types or without, are
  printed through a buffer that is in order to a file that takes everything, none of them is written behind the end of
  the buffer, which stays in order and keeps its size; each row is counted, and as many bytes are in the file and the
  buffer as all rows have.  A text that is then written to the buffer is added whole, or not at all when it does not fit.
  A row must have a column, fewer than \<open>16\<^sup>4\<close> columns, and fewer than \<open>16\<^sup>8\<close> bytes.
\<close>
theorem buffers_stay_in_order:
  assumes "ob_ok (pr_ob p)" and "fl_room (pr_file p) = None"
    and "\<forall>d \<in> set rows. printable (pr_types p) (pr_suppress_newline p) d"
  shows "\<exists>p'. print_rows p rows = Some p' \<and> ob_ok (pr_ob p') \<and> ob_capacity (pr_ob p') = ob_capacity (pr_ob p)
    \<and> ob_count (pr_ob p') = ob_count (pr_ob p) + length rows \<and> pr_rows p' = pr_rows p + length rows
    \<and> length (printed p') = length (printed p) + sum_list (map (\<lambda>d. length (bytes_of p d)) rows)
    \<and> (\<forall>s inc. \<exists>n b. OutputBuffer_write (pr_ob p') s inc = Some (n, b) \<and> ob_ok b
        \<and> n = (if ob_filled (pr_ob p') + length s \<le> ob_capacity (pr_ob p') then length s else 0)
        \<and> ob_text b = ob_text (pr_ob p') @ take n s)"
proof -
  have "\<exists>n b. OutputBuffer_write o' s inc = Some (n, b) \<and> ob_ok b
      \<and> n = (if ob_filled o' + length s \<le> ob_capacity o' then length s else 0) \<and> ob_text b = ob_text o' @ take n s"
    if "ob_ok o'" for o' s inc
    using that by (auto simp: OutputBuffer_write_def store_def ob_ok_def ob_text_def)
  then show ?thesis using print_rows_in_order [OF assms] by blast
qed

section \<open>Examples\<close>

definition ex_print :: "nat list option \<Rightarrow> nat \<Rightarrow> nat \<Rightarrow> nat option \<Rightarrow> print_args" where
  "ex_print types cap filled room =
     \<lparr>pr_ob = \<lparr>ob_buf = replicate cap (CHR ''x''), ob_filled = filled, ob_count = 0\<rparr>, pr_delim = CHR ''|'', pr_newline = LF,
      pr_file = \<lparr>fl_data = [], fl_room = room\<rparr>, pr_rows = 0, pr_types = types, pr_suppress_newline = False\<rparr>"

lemma small_len [simp]: "len_of_len 0 = 1" "len_of_len (Suc 0) = 1" "len_of_len 2 = 1"
  by (simp_all add: len_of_len_def len_of_len_loop.simps)


lemma typed_rows_roundtrip_witness:
  "\<exists>p'. print_rows (ex_print (Some [1, 3]) 20 0 None) [[Some ''7'', Some ''ab''], [None, Some ''c'']] = Some p'
     \<and> read_rows 2 (output_of p') = Inr ([[(char_of (1 :: nat), ''7''), (char_of (3 :: nat), ''ab'')],
         [(char_of (1 :: nat), []), (char_of (3 :: nat), ''c'')]], [])"
proof -
  have "fine (Some [1, 3]) False [Some ''7'', Some ''ab'']" "fine (Some [1, 3]) False [None, Some ''c'']"
    by (simp_all add: fine_def printable_def columns_ok_def columns_of_def row_length_def cstr_def numeral_2_eq_2 [symmetric])
  then obtain p' where "print_rows (ex_print (Some [1, 3]) 20 0 None) [[Some ''7'', Some ''ab''], [None, Some ''c'']] = Some p'"
    "read_rows (length [[Some ''7'', Some ''ab''], [None, Some ''c'']]) (output_of p') =
      Inr (map (\<lambda>d. map value_of (columns_of (Some [1, 3]) d)) [[Some ''7'', Some ''ab''], [None, Some ''c'']], [])"
    using typed_rows_roundtrip [of "ex_print (Some [1, 3]) 20 0 None" "[1, 3]" "[[Some ''7'', Some ''ab''], [None, Some ''c'']]"]
    by (auto simp: ex_print_def printed_def ob_text_def)
  then show ?thesis by (simp add: value_of_def columns_of_def cstr_def numeral_2_eq_2)
qed

lemma buffers_stay_in_order_witness:
  "\<exists>p'. print_rows (ex_print (Some [5]) 15 3 None) [[None], [Some ''abcdef''], [Some ''x'']] = Some p'
    \<and> ob_ok (pr_ob p') \<and> ob_count (pr_ob p') = 3 \<and> length (printed p') = 3 + (15 + 21 + 16)"
proof -
  have "ob_ok (pr_ob (ex_print (Some [5]) 15 3 None))" "fl_room (pr_file (ex_print (Some [5]) 15 3 None)) = None"
    by (simp_all add: ex_print_def ob_ok_def)
  moreover have "\<forall>d \<in> set [[None], [Some ''abcdef''], [Some ''x'']].
      printable (pr_types (ex_print (Some [5]) 15 3 None)) (pr_suppress_newline (ex_print (Some [5]) 15 3 None)) d"
    by (simp add: ex_print_def) (simp add: printable_def columns_ok_def columns_of_def row_length_def cstr_def len_of_len_def len_of_len_loop.simps)
  moreover have "sum_list (map (\<lambda>d. length (bytes_of (ex_print (Some [5]) 15 3 None) d)) [[None], [Some ''abcdef''], [Some ''x'']]) = 52"
    "length (printed (ex_print (Some [5]) 15 3 None)) = 3" "ob_count (pr_ob (ex_print (Some [5]) 15 3 None)) = 0"
    by code_simp+
  ultimately show ?thesis
    using buffers_stay_in_order [of "ex_print (Some [5]) 15 3 None" "[[None], [Some ''abcdef''], [Some ''x'']]"] by auto
qed

lemma tight_row_loses_length_witness:
  "\<exists>p'. print_parallel (ex_print (Some [5]) 15 0 None) [None] = Some p' \<and> printed p' = ''0000000f000151'' @ [NUL]"
proof -
  have b: "printed (ex_print (Some [5]) 15 0 None) @ butlast (bytes_of (ex_print (Some [5]) 15 0 None) [None]) @ [NUL] = ''0000000f000151'' @ [NUL]"
    by code_simp
  have "printable (Some [5]) False [None]" "tight (ex_print (Some [5]) 15 0 None) [None]"
    by (simp_all add: ex_print_def tight_def printable_def columns_ok_def columns_of_def row_length_def)
  then obtain p' where "print_parallel (ex_print (Some [5]) 15 0 None) [None] = Some p'"
    "printed p' = printed (ex_print (Some [5]) 15 0 None) @ butlast (bytes_of (ex_print (Some [5]) 15 0 None) [None]) @ [NUL]"
    using tight_row_loses_length [of "ex_print (Some [5]) 15 0 None" "[None]"] by (auto simp: ex_print_def)
  then show ?thesis unfolding b by blast
qed

lemma failed_flush_overflows_witness:
  "print_parallel (ex_print None 4 3 (Some 1)) [Some ''ab''] = None"
  by (rule failed_flush_overflows [where r = 1])
    (auto simp: ex_print_def printable_def columns_ok_def columns_of_def row_length_def cstr_def)

end
