(* ===== verification/Entries.thy ===== *)
theory Entries
  imports Prelude
begin

text \<open>
  The entries of a directory and what \<open>stat\<close> says of them, as far as the code looks at it, and
  \<open>try_skip_lstat\<close> of \<open>src/src/descend.c\<close>.
\<close>

datatype st_kind = S_DIR | S_REG | S_LNK | S_OTHER

record stat =
  st_kind :: st_kind
  st_uid :: nat
  st_gid :: nat

datatype entry_type = DIR | LNK | REG | SPECIAL | UNKNOWN

text \<open>What an entry is, \<open>None\<close> when it has to be examined and cannot be.\<close>

definition try_skip_lstat :: "(string \<Rightarrow> stat option) \<Rightarrow> string \<Rightarrow> entry_type \<Rightarrow> st_kind option" where
  "try_skip_lstat lstat name d_type =
     (case d_type of
        DIR \<Rightarrow> Some S_DIR
      | LNK \<Rightarrow> Some S_LNK
      | REG \<Rightarrow> Some S_REG
      | SPECIAL \<Rightarrow> Some S_OTHER
      | UNKNOWN \<Rightarrow> map_option st_kind (lstat name))"

end
