(* ===== verification/Query.thy ===== *)
theory Query
  imports Replace ExtAttach Entries
begin

text \<open>
  What \<open>gufi_query\<close> does in a directory of the index: \<open>src/src/gufi_query/processdir.c\<close>,
  \<open>process_queries.c\<close>, \<open>query.c\<close> and the \<open>setstr\<close> of \<open>PoolArgs.c\<close>.  The state of a thread is its connection, the strings
  set by the user and a log of the statements it ran.  The file system and what SQLite answers are
  parameters: \<open>ge_exec\<close> gives the number of rows a statement returned before it ended or failed and the
  strings it set.
\<close>

section \<open>Inputs\<close>

datatype process_sql = RUN_ON_ROW | RUN_SE | RUN_TSE

datatype DirMatch = DIR_MATCH_NONE | DIR_MATCH_UID nat | DIR_MATCH_GID nat | DIR_MATCH_ALL nat nat

record gq_input =
  gi_tsum :: string
  gi_sum :: string
  gi_ent :: string
  gi_process_sql :: process_sql
  gi_min_level :: nat
  gi_max_level :: nat
  gi_dir_match :: DirMatch
  gi_skip :: "string list"
  gi_keep_matime :: bool
  gi_process_xattrs :: bool
  gi_external_attach :: "eas list"
  gi_external_copy :: "((string \<Rightarrow> bool) \<times> string) list" \<comment> \<open>pattern and statement\<close>

text \<open>The statement is run in a directory, for one of its inodes or not, with the number of subdirectories
  that were pushed.\<close>

record gq_env =
  ge_opens :: "string \<Rightarrow> bool"
  ge_entries :: "string \<Rightarrow> (string \<times> entry_type) list"
  ge_stat :: "string \<Rightarrow> stat option"
  ge_lstat :: "string \<Rightarrow> stat option"
  ge_sqlite :: sqlite_env
  ge_treesummary :: "string \<Rightarrow> nat" \<comment> \<open>rows of the query for the table\<close>
  ge_isrolledup :: "string \<Rightarrow> bool"
  ge_inodes :: "string \<Rightarrow> string list"
  ge_external_dbs :: "string \<Rightarrow> ext_row list option"
  ge_exec :: "string \<Rightarrow> string option \<Rightarrow> nat \<Rightarrow> string \<Rightarrow> nat \<times> (string \<times> string) list"

record gqw =
  gw_name :: string
  gw_basename_len :: nat
  gw_level :: nat
  gw_sqlite3_name :: string
  gw_id_match :: bool

datatype stage = Tsum | Sum | Ent

datatype event = Ran string "string option" stage string | PluginInit | PluginExit | Copied string string | Restored string

record thread =
  th_conn :: conn
  th_user_strs :: "(string, unit) trie"
  th_log :: "event list"

section \<open>Queries\<close>

definition note_event :: "event \<Rightarrow> thread \<Rightarrow> thread" where
  "note_event e s = s\<lparr>th_log := th_log s @ [e]\<rparr>"

definition setstr :: "string \<times> string \<Rightarrow> (string, unit) trie \<Rightarrow> (string, unit) trie" where
  "setstr kv t = fst (trie_insert_node t (fst kv) (Some (snd kv)) (Some ()))"

text \<open>The rows are counted by the callback; \<open>*rc\<close> is their number also when the statement failed.\<close>

definition querydb :: "gq_env \<Rightarrow> string \<Rightarrow> string option \<Rightarrow> nat \<Rightarrow> stage \<Rightarrow> string \<Rightarrow> thread \<Rightarrow> nat \<times> thread" where
  "querydb env p inode pushed st sql s =
     (case ge_exec env p inode pushed sql of
        (rows, strs) \<Rightarrow>
          (rows, note_event (Ran p inode st sql) (s\<lparr>th_user_strs := foldl (\<lambda>t kv. setstr kv t) (th_user_strs s) strs\<rparr>)))"

definition replaced_sql :: "(nat \<Rightarrow> bool) \<Rightarrow> string \<Rightarrow> thread \<Rightarrow> replace_error + string" where
  "replaced_sql mem sql s = replace_sql mem (th_user_strs s) sql (save_replacements sql)"

section \<open>Descending\<close>

definition dir_match :: "DirMatch \<Rightarrow> stat \<Rightarrow> bool" where
  "dir_match on st =
     (case on of
        DIR_MATCH_NONE \<Rightarrow> True
      | DIR_MATCH_UID uid \<Rightarrow> uid = st_uid st
      | DIR_MATCH_GID gid \<Rightarrow> gid = st_gid st
      | DIR_MATCH_ALL uid gid \<Rightarrow> uid = st_uid st \<and> gid = st_gid st)"

text \<open>\<open>new_gqw_with_name\<close>: the paths and what the entry is; symbolic links are followed below an input path.\<close>

definition new_gqw_with_name :: "gq_env \<Rightarrow> gqw \<Rightarrow> string \<Rightarrow> entry_type \<Rightarrow> nat \<Rightarrow> (gqw \<times> st_kind) option" where
  "new_gqw_with_name env prefix basename d_type next_level =
     (let name = gw_name prefix @ ''/'' @ basename;
          sqlite3_size = length (gw_sqlite3_name prefix) + 1 + 3 * length basename + 1;
          room = sqlite3_size - (length (gw_sqlite3_name prefix) + 1);
          sqlite3_name = gw_sqlite3_name prefix @ (if basename = [] then [] else ''/'' @ fst (sqlite_uri_path room basename))
      in map_option (\<lambda>kind.
           (\<lparr>gw_name = name, gw_basename_len = length basename, gw_level = next_level,
             gw_sqlite3_name = (if kind = S_DIR then sqlite3_name else []), gw_id_match = gw_id_match prefix\<rparr>, kind))
         (if next_level < 2 then map_option st_kind (ge_stat env name) else try_skip_lstat (ge_lstat env) name d_type))"

text \<open>A file next to the database whose name matches a pattern: its rows are copied by the user's statement.\<close>

fun maybe_copy_external ::
    "gq_env \<Rightarrow> bool \<Rightarrow> ((string \<Rightarrow> bool) \<times> string) list \<Rightarrow> string \<Rightarrow> string \<Rightarrow> thread \<Rightarrow> thread" where
  "maybe_copy_external env db [] path basename s = s"
| "maybe_copy_external env db ((match, sql) # ecs) path basename s =
     (let s1 =
        (if match basename \<and> db then
           case attachdb (ge_sqlite env) (fst (sqlite_uri_path (length path * 3 + 1) path)) ''extdb'' (th_conn s) of
             (ok, c) \<Rightarrow>
               if ok then note_event (Copied path sql) (s\<lparr>th_conn := detachdb ''extdb'' c\<rparr>) else s
         else s)
      in maybe_copy_external env db ecs path basename s1)"

text \<open>Which subdirectories are pushed.\<close>

definition gq_push :: "gq_input \<Rightarrow> gq_env \<Rightarrow> gqw \<Rightarrow> gqw option" where
  "gq_push inp env child =
     (if gi_dir_match inp \<noteq> DIR_MATCH_NONE \<and> \<not> gw_id_match child \<and> gi_min_level inp \<le> gw_level child then
        case ge_lstat env (gw_name child) of
          None \<Rightarrow> None
        | Some st \<Rightarrow> if dir_match (gi_dir_match inp) st then Some (child\<lparr>gw_id_match := True\<rparr>) else None
      else Some child)"

fun gq_descend_loop ::
    "gq_input \<Rightarrow> gq_env \<Rightarrow> bool \<Rightarrow> gqw \<Rightarrow> nat \<Rightarrow> (string \<times> entry_type) list \<Rightarrow> thread \<Rightarrow> gqw list \<times> thread" where
  "gq_descend_loop inp env db gqw next_level [] s = ([], s)"
| "gq_descend_loop inp env db gqw next_level ((d_name, d_type) # es) s =
     (if d_name \<in> set (gi_skip inp) \<or> d_name = ''db.db'' then gq_descend_loop inp env db gqw next_level es s
      else case new_gqw_with_name env gqw d_name d_type next_level of
             None \<Rightarrow> gq_descend_loop inp env db gqw next_level es s
           | Some (child, kind) \<Rightarrow>
               let here = (if kind = S_DIR then (case gq_push inp env child of None \<Rightarrow> [] | Some w \<Rightarrow> [w]) else []);
                   s1 = (if kind = S_REG \<or> kind = S_LNK
                         then maybe_copy_external env db (gi_external_copy inp) (gw_name child) d_name s else s);
                   (pushed, s2) = gq_descend_loop inp env db gqw next_level es s1
               in (here @ pushed, s2))"

definition gq_descend :: "gq_input \<Rightarrow> gq_env \<Rightarrow> bool \<Rightarrow> gqw \<Rightarrow> thread \<Rightarrow> gqw list \<times> thread" where
  "gq_descend inp env db gqw s =
     (let next_level = gw_level gqw + 1
      in if next_level \<le> gi_max_level inp
         then gq_descend_loop inp env db gqw next_level (ge_entries env (gw_name gqw)) s
         else ([], s))"

section \<open>The statements on a directory\<close>

text \<open>\<open>-S\<close>: the records that let \<open>-E\<close> run, \<open>None\<close> when the statement could not be made; then \<open>-E\<close>.\<close>

definition summary_query ::
    "(nat \<Rightarrow> bool) \<Rightarrow> gq_input \<Rightarrow> gq_env \<Rightarrow> string \<Rightarrow> string option \<Rightarrow> nat \<Rightarrow> thread \<Rightarrow> nat option \<times> thread" where
  "summary_query mem inp env p inode walked s =
     (if gi_sum inp \<noteq> [] then
        case replaced_sql mem (gi_sum inp) s of
          Inl _ \<Rightarrow> (None, s)
        | Inr sql \<Rightarrow>
            (case querydb env p inode walked Sum sql s of
               (recs, s') \<Rightarrow> (Some (if gi_process_sql inp = RUN_ON_ROW then recs else 1), s'))
      else (Some 1, s))"

definition entries_query ::
    "(nat \<Rightarrow> bool) \<Rightarrow> gq_input \<Rightarrow> gq_env \<Rightarrow> string \<Rightarrow> string option \<Rightarrow> nat \<Rightarrow> thread \<Rightarrow> thread" where
  "entries_query mem inp env p inode walked s =
     (if gi_ent inp \<noteq> [] then
        case replaced_sql mem (gi_ent inp) s of
          Inl _ \<Rightarrow> s
        | Inr sql \<Rightarrow> snd (querydb env p inode walked Ent sql s)
      else s)"

text \<open>The subdirectories pushed here, and the number pushed so far, which \<open>subdirs()\<close> gives to the statements.\<close>

definition process_queries ::
    "(nat \<Rightarrow> bool) \<Rightarrow> gq_input \<Rightarrow> gq_env \<Rightarrow> gqw \<Rightarrow> bool \<Rightarrow> string option \<Rightarrow> bool \<Rightarrow> nat \<Rightarrow> thread
     \<Rightarrow> gqw list \<times> nat \<times> thread" where
  "process_queries mem inp env gqw db inode descend walked s =
     (let (children, walked1, s1) =
        (if descend \<and> \<not> (db \<and> ge_isrolledup env (gw_name gqw))
         then case gq_descend inp env db gqw s of (ch, s') \<Rightarrow> (ch, length ch, s')
         else ([], walked, s))
      in if \<not> db \<or> gw_level gqw < gi_min_level inp then (children, walked1, s1)
         else case summary_query mem inp env (gw_name gqw) inode walked1 s1 of
                (None, s2) \<Rightarrow> (children, walked1, s2)
              | (Some recs, s2) \<Rightarrow>
                  (children, walked1,
                   if 0 < recs then entries_query mem inp env (gw_name gqw) inode walked1 s2 else s2))"

section \<open>Views\<close>

text \<open>The statements of one \<open>sqlite3_exec\<close> are run until one fails.\<close>

fun create_views :: "sqlite_env \<Rightarrow> string list \<Rightarrow> conn \<Rightarrow> conn" where
  "create_views env [] c = c"
| "create_views env (v # vs) c =
     (case create_view env v [] c of (ok, c') \<Rightarrow> if ok then create_views env vs c' else c')"

fun drop_views :: "string list \<Rightarrow> conn \<Rightarrow> conn" where
  "drop_views [] c = c"
| "drop_views (v # vs) c = (if cn_views c v = None then c else drop_views vs (drop_view v c))"

definition extdb_views :: "string list" where
  "extdb_views = [''esummary'', ''epentries'', ''exsummary'', ''expentries'', ''evrsummary'', ''evrpentries'',
     ''evrxsummary'', ''evrxpentries'']"

text \<open>\<open>CREATE TEMP VIEW IF NOT EXISTS\<close>, the next only when this one succeeded.\<close>

fun xattr_create_views :: "sqlite_env \<Rightarrow> string list \<Rightarrow> conn \<Rightarrow> conn" where
  "xattr_create_views env [] c = c"
| "xattr_create_views env (v # vs) c =
     (if cn_views c v \<noteq> None then xattr_create_views env vs c
      else case create_view env v [] c of (ok, c') \<Rightarrow> if ok then xattr_create_views env vs c' else c')"

definition xattr_views :: "string list" where
  "xattr_views = [''xentries'', ''xpentries'', ''xsummary'', ''vrxpentries'', ''vrxsummary'']"

definition xattr_modify_filename :: "string \<Rightarrow> string \<Rightarrow> string" where
  "xattr_modify_filename name src = (if src \<noteq> [] \<and> src ! 0 = CHR ''/'' then src else name @ ''/'' @ src)"

definition setup_xattrs_views :: "gq_env \<Rightarrow> string \<Rightarrow> conn \<Rightarrow> 64 word \<Rightarrow> conn \<times> 64 word" where
  "setup_xattrs_views env p c extdb_count =
     (case external_concatenate (ge_sqlite env) (ge_external_dbs env p) (Some ''xattrs'') None ''xattrs''
        (xattr_modify_filename p) c extdb_count of
        (_, c', n) \<Rightarrow> (xattr_create_views (ge_sqlite env) xattr_views c', n))"

section \<open>A directory\<close>

definition with_conn :: "conn \<Rightarrow> thread \<Rightarrow> thread" where
  "with_conn c s = s\<lparr>th_conn := c\<rparr>"

text \<open>The statements between setting up and taking down the plugins.\<close>

definition plugin_queries ::
    "(nat \<Rightarrow> bool) \<Rightarrow> gq_input \<Rightarrow> gq_env \<Rightarrow> gqw \<Rightarrow> string option \<Rightarrow> bool \<Rightarrow> nat \<Rightarrow> thread \<Rightarrow> gqw list \<times> nat \<times> thread" where
  "plugin_queries mem inp env gqw inode descend walked s =
     (case process_queries mem inp env gqw True inode descend walked (note_event PluginInit s) of
        (ch, w, s') \<Rightarrow> (ch, w, note_event PluginExit s'))"

fun inode_loop ::
    "(nat \<Rightarrow> bool) \<Rightarrow> gq_input \<Rightarrow> gq_env \<Rightarrow> gqw \<Rightarrow> string list \<Rightarrow> bool \<Rightarrow> nat \<Rightarrow> 64 word \<Rightarrow> thread
     \<Rightarrow> gqw list \<times> 64 word \<times> thread" where
  "inode_loop mem inp env gqw [] desc walked n s = ([], n, s)"
| "inode_loop mem inp env gqw (dir_inode # inodes) desc walked n s =
     (let dbs = ge_external_dbs env (gw_name gqw);
          (c1, n1) = attach_extdbs (ge_sqlite env) dbs dir_inode (gi_external_attach inp) (th_conn s) n;
          c2 = create_views (ge_sqlite env) extdb_views c1;
          (ch, walked', s1) = plugin_queries mem inp env gqw (Some dir_inode) desc walked (with_conn c2 s);
          c3 = drop_views (rev extdb_views) (th_conn s1);
          (c4, n2) = detach_extdbs dbs dir_inode (gi_external_attach inp) c3 n1;
          (chs, n3, s2) = inode_loop mem inp env gqw inodes False walked' n2 (with_conn c4 s1)
      in (ch @ chs, n3, s2))"

text \<open>With databases of the user once for each inode of the summary table, otherwise once.\<close>

definition external_queries ::
    "(nat \<Rightarrow> bool) \<Rightarrow> gq_input \<Rightarrow> gq_env \<Rightarrow> gqw \<Rightarrow> 64 word \<Rightarrow> thread \<Rightarrow> gqw list \<times> 64 word \<times> thread" where
  "external_queries mem inp env gqw n s =
     (if gi_external_attach inp \<noteq> [] then
        let dbs = ge_external_dbs env (gw_name gqw); dir_inodes = ge_inodes env (gw_name gqw)
        in if dir_inodes = [] then
             let (c1, n1) = attach_extdbs (ge_sqlite env) dbs [] (gi_external_attach inp) (th_conn s) n;
                 c2 = create_views (ge_sqlite env) extdb_views c1;
                 (ch, _, s1) = plugin_queries mem inp env gqw None True 0 (with_conn c2 s);
                 c3 = drop_views (rev extdb_views) (th_conn s1);
                 (c4, n2) = detach_extdbs dbs [] (gi_external_attach inp) c3 n1
             in (ch, n2, with_conn c4 s1)
           else inode_loop mem inp env gqw dir_inodes True 0 n s
      else case plugin_queries mem inp env gqw None True 0 s of (ch, _, s1) \<Rightarrow> (ch, n, s1))"

definition summary_and_entries ::
    "(nat \<Rightarrow> bool) \<Rightarrow> gq_input \<Rightarrow> gq_env \<Rightarrow> gqw \<Rightarrow> thread \<Rightarrow> gqw list \<times> thread" where
  "summary_and_entries mem inp env gqw s =
     (let p = gw_name gqw;
          (c1, n1) = (if gi_process_xattrs inp then setup_xattrs_views env p (th_conn s) 0 else (th_conn s, 0));
          (ch, n2, s1) = external_queries mem inp env gqw n1 (with_conn c1 s);
          (c2, _) = (if gi_process_xattrs inp
             then external_concatenate_cleanup (ge_external_dbs env p) (Some ''xattrs'') (Some ''xattrs'') None (th_conn s1) n2
             else (th_conn s1, n2))
      in (ch, with_conn c2 s1))"

text \<open>The query on the tree summary: \<open>None\<close> when the statement could not be made, else the records.\<close>

definition treesummary_query ::
    "(nat \<Rightarrow> bool) \<Rightarrow> gq_input \<Rightarrow> gq_env \<Rightarrow> gqw \<Rightarrow> thread \<Rightarrow> nat option \<times> thread" where
  "treesummary_query mem inp env gqw s =
     (if gi_tsum inp \<noteq> [] \<and> gi_process_sql inp \<noteq> RUN_SE then
        if ge_treesummary env (gw_name gqw) < 1 then (Some 1, s)
        else case replaced_sql mem (gi_tsum inp) s of
               Inl _ \<Rightarrow> (None, s)
             | Inr sql \<Rightarrow>
                 (case querydb env (gw_name gqw) None 0 Tsum sql s of
                    (recs, s') \<Rightarrow> (Some (if gi_process_sql inp = RUN_TSE then 1 else recs), s'))
      else (Some 1, s))"

text \<open>\<open>{n}\<close> is the name and \<open>{i}\<close> the path of the directory.\<close>

definition dir_strs :: "gqw \<Rightarrow> (string, unit) trie \<Rightarrow> (string, unit) trie" where
  "dir_strs gqw t =
     (let p = gw_name gqw;
          t1 = fst (trie_insert_node t ''n'' (Some (drop (length p - gw_basename_len gqw) p)) None)
      in fst (trie_insert_node t1 ''i'' (Some p) None))"

definition processdir :: "(nat \<Rightarrow> bool) \<Rightarrow> gq_input \<Rightarrow> gq_env \<Rightarrow> gqw \<Rightarrow> thread \<Rightarrow> gqw list \<times> thread" where
  "processdir mem inp env gqw s =
     (let p = gw_name gqw
      in if \<not> ge_opens env p then ([], s)
         else if gi_keep_matime inp \<and> ge_lstat env (p @ ''/db.db'') = None then ([], s)
         else
           let (db, c) =
             (if gi_min_level inp \<le> gw_level gqw
              then attachdb (ge_sqlite env) (gw_sqlite3_name gqw @ ''/db.db'') ''tree'' (th_conn s)
              else (False, th_conn s))
           in if db then
                let s1 = (with_conn c s)\<lparr>th_user_strs := dir_strs gqw (th_user_strs s)\<rparr>;
                    (recs, s2) = treesummary_query mem inp env gqw s1;
                    (ch, s3) = (case recs of
                        None \<Rightarrow> ([], s2)
                      | Some n \<Rightarrow> if 0 < n then summary_and_entries mem inp env gqw s2 else ([], s2));
                    s4 = with_conn (detachdb ''tree'' (th_conn s3)) s3
                in (ch, if gi_keep_matime inp then note_event (Restored (p @ ''/db.db'')) s4 else s4)
              else case process_queries mem inp env gqw False None True 0 s of (ch, _, s1) \<Rightarrow> (ch, s1))"

end
