(* ===== verification/QueryProps.thy ===== *)
theory QueryProps
  imports Query
begin

text \<open>
  What \<open>gufi_query\<close> promises: a directory leaves the thread's connection as it found it; which
  subdirectories are pushed; and that all directories are handled once, whichever thread takes them.
\<close>

section \<open>The connection\<close>

lemma attachdb_extdb:
  assumes "''extdb'' \<notin> set (cn_names c)" "attachdb env name ''extdb'' c = (True, c')"
  shows "detachdb ''extdb'' c' = c"
  using assms by (cases c) (auto simp: attachdb_def detachdb_def filter_id_conv split: if_splits)

lemma maybe_copy_conn [simp]:
  "''extdb'' \<notin> set (cn_names (th_conn s)) \<Longrightarrow> th_conn (maybe_copy_external env db ecs p b s) = th_conn s"
proof (induction ecs arbitrary: s)
  case (Cons e ecs)
  obtain match sql where e: "e = (match, sql)" by fastforce
  obtain ok c where a: "attachdb (ge_sqlite env) (fst (sqlite_uri_path (length p * 3 + 1) p)) ''extdb'' (th_conn s)
      = (ok, c)" by fastforce
  let ?s1 = "if match b \<and> db then
      if ok then note_event (Copied p sql) (s\<lparr>th_conn := detachdb ''extdb'' c\<rparr>) else s else s"
  have c: "th_conn ?s1 = th_conn s"
    using attachdb_extdb [OF Cons.prems, where c' = c] a by (cases ok) (auto simp: note_event_def)
  have "th_conn (maybe_copy_external env db ecs p b ?s1) = th_conn ?s1"
    by (rule Cons.IH) (simp only: c Cons.prems not_False_eq_True)
  then show ?case
    unfolding e maybe_copy_external.simps Let_def a prod.case c .
qed simp

lemma gq_descend_loop_conn [simp]:
  "''extdb'' \<notin> set (cn_names (th_conn s)) \<Longrightarrow> th_conn (snd (gq_descend_loop inp env db gqw l es s)) = th_conn s"
  by (induction inp env db gqw l es s rule: gq_descend_loop.induct)
    (auto simp: Let_def split: prod.splits option.splits)

lemma gq_descend_conn [simp]:
  "''extdb'' \<notin> set (cn_names (th_conn s)) \<Longrightarrow> th_conn (snd (gq_descend inp env db gqw s)) = th_conn s"
  by (simp add: gq_descend_def Let_def)

lemma querydb_conn [simp]: "th_conn (snd (querydb env p i w st sql s)) = th_conn s"
  by (simp add: querydb_def note_event_def split: prod.splits)

lemma summary_query_conn [simp]: "th_conn (snd (summary_query mem inp env p i w s)) = th_conn s"
  by (simp add: summary_query_def split_beta split: sum.splits)

lemma entries_query_conn [simp]: "th_conn (entries_query mem inp env p i w s) = th_conn s"
  by (simp add: entries_query_def split: sum.splits)

lemma process_queries_conn [simp]:
  "''extdb'' \<notin> set (cn_names (th_conn s)) \<Longrightarrow>
   th_conn (snd (snd (process_queries mem inp env gqw db i d w s))) = th_conn s"
  using summary_query_conn
  by (auto simp: process_queries_def Let_def split_beta split: option.splits)

lemma plugin_queries_conn [simp]:
  "''extdb'' \<notin> set (cn_names (th_conn s)) \<Longrightarrow> th_conn (snd (snd (plugin_queries mem inp env gqw i d w s))) = th_conn s"
  using process_queries_conn [of "note_event PluginInit s" mem inp env gqw True i d w]
  by (simp add: plugin_queries_def note_event_def split_beta)

text \<open>Views do not change the names.\<close>

lemma create_view_names [simp]: "cn_names (snd (create_view env v ns c)) = cn_names c"
  by (simp add: create_view_def)

lemma create_views_names [simp]: "cn_names (create_views env vs c) = cn_names c"
  by (induction env vs c rule: create_views.induct) (auto simp: create_view_def)

lemma drop_views_names [simp]: "cn_names (drop_views vs c) = cn_names c"
  by (induction vs c rule: drop_views.induct) (auto simp: drop_view_def)

lemma xattr_create_views_names [simp]: "cn_names (xattr_create_views env vs c) = cn_names c"
  by (induction env vs c rule: xattr_create_views.induct) (auto simp: create_view_def)

text \<open>Names that do not begin as those of external databases.\<close>

definition no_ext :: "conn \<Rightarrow> nat \<Rightarrow> bool" where
  "no_ext c k \<longleftrightarrow> (\<forall>n \<in> set (cn_names c). take 5 n \<noteq> ''extdb'' \<or> n \<in> ext_names 0 k)"

lemma digits_eq: "digits 10 i = digits 10 j \<longleftrightarrow> i = j"
proof
  assume "digits 10 i = digits 10 j"
  then have "num_value 10 (digits 10 i) = num_value 10 (digits 10 j)" by (rule arg_cong)
  then show "i = j" by (simp only: num_value_digits) 
qed (rule arg_cong)

lemma ext_names_disjoint: "ext_names 0 m \<inter> ext_names m k = {}"
  by (auto simp: ext_names_def digits_eq)

lemma ext_names_prefix: "n \<in> ext_names m k \<Longrightarrow> take 5 n = ''extdb'' \<and> n \<noteq> ''extdb''"
  by (auto simp: ext_names_def)

lemma no_ext_disjoint: "no_ext c m \<Longrightarrow> set (cn_names c) \<inter> ext_names m k = {}"
  using ext_names_disjoint [of m k] ext_names_prefix by (fastforce simp: no_ext_def)

lemma no_extdb: "no_ext c k \<Longrightarrow> ''extdb'' \<notin> set (cn_names c)"
  using ext_names_prefix [of "''extdb''" 0 k] by (auto simp: no_ext_def)

text \<open>The databases of the user around anything that keeps the names.\<close>

lemma extdbs_names:
  assumes "d \<noteq> []" "unat n + all_rows dbs d users < 2 ^ 64" "no_ext c (unat n)"
    and "attach_extdbs env dbs d users c n = (c1, n1)" "cn_names c2 = cn_names c1"
    and "detach_extdbs dbs d users c2 n1 = (c3, n3)"
  shows "cn_names c3 = cn_names c \<and> n3 = n \<and> ''extdb'' \<notin> set (cn_names c1)"
proof -
  let ?k = "all_rows dbs d users"
  obtain ns where a: "cn_names c1 = cn_names c @ ns" "set ns \<subseteq> ext_names (unat n) ?k" "n1 = n + of_nat ?k"
    using attach_extdbs_effect [OF assms(2,4)] by blast
  have u: "unat n1 = unat n + ?k"
    unfolding a(3) by (rule unat_plus [OF assms(2)])
  note b = detach_extdbs_effect [OF assms(1) _ assms(6)]
  have "filter (\<lambda>x. x \<notin> ext_names (unat n) ?k) (cn_names c) = cn_names c"
    using no_ext_disjoint [OF assms(3)] by (auto simp: filter_id_conv)
  moreover have "filter (\<lambda>x. x \<notin> ext_names (unat n) ?k) ns = []"
    using a(2) by (auto simp: filter_empty_conv)
  moreover have "''extdb'' \<notin> set ns"
    using a(2) ext_names_prefix by blast
  ultimately show ?thesis
    using b u a assms(5) no_extdb [OF assms(3)] by simp
qed

lemma detach_extdbs_nothing:
  "detach_extdbs dbs [] users c n = (c', n') \<Longrightarrow> cn_names c' = cn_names c \<and> n' = n"
  by (induction users arbitrary: c) (auto simp: drop_view_def)

text \<open>The inodes of a directory are not empty, and the rows for them can be counted; with no inode there are none.\<close>

definition external_ok :: "gq_input \<Rightarrow> gq_env \<Rightarrow> string \<Rightarrow> bool" where
  "external_ok inp env p \<longleftrightarrow>
     (let dbs = ge_external_dbs env p; users = gi_external_attach inp;
          xattrs = (case external_create_query (Some ''xattrs'') None dbs of None \<Rightarrow> 0 | Some rows \<Rightarrow> length rows)
      in (\<forall>i \<in> set (ge_inodes env p). i \<noteq> [] \<and> xattrs + all_rows dbs i users < 2 ^ 64)
       \<and> (ge_inodes env p = [] \<longrightarrow> all_rows dbs [] users = 0) \<and> xattrs < 2 ^ 64)"

lemma with_conn_conn [simp]: "th_conn (with_conn c s) = c"
  by (simp add: with_conn_def)

lemma inode_loop_names:
  assumes "\<forall>i \<in> set is. i \<noteq> [] \<and> unat n + all_rows (ge_external_dbs env (gw_name gqw)) i (gi_external_attach inp) < 2 ^ 64"
    and "no_ext (th_conn s) (unat n)"
    and "inode_loop mem inp env gqw is desc walked n s = (ch, n', s')"
  shows "cn_names (th_conn s') = cn_names (th_conn s) \<and> n' = n"
  using assms
proof (induction mem inp env gqw "is" desc walked n s arbitrary: ch n' s' rule: inode_loop.induct)
  case (2 mem inp env gqw i "is" desc walked n s)
  let ?dbs = "ge_external_dbs env (gw_name gqw)" and ?us = "gi_external_attach inp"
  obtain c1 n1 where 1: "attach_extdbs (ge_sqlite env) ?dbs i ?us (th_conn s) n = (c1, n1)" by fastforce
  let ?c2 = "create_views (ge_sqlite env) extdb_views c1"
  obtain ch1 w s1 where 3: "plugin_queries mem inp env gqw (Some i) desc walked (with_conn ?c2 s) = (ch1, w, s1)"
    by (rule prod_cases3)
  let ?c3 = "drop_views (rev extdb_views) (th_conn s1)"
  obtain c4 n2 where 4: "detach_extdbs ?dbs i ?us ?c3 n1 = (c4, n2)" by fastforce
  obtain chs n3 s3 where 5: "inode_loop mem inp env gqw is False w n2 (with_conn c4 s1) = (chs, n3, s3)"
    by (rule prod_cases3)
  have s': "s' = s3" "n' = n3"
    using "2.prems"(3) by (simp_all add: Let_def 1 3 4 5)
  have i: "i \<noteq> []" "unat n + all_rows ?dbs i ?us < 2 ^ 64"
    using "2.prems"(1) by auto
  have ne: "''extdb'' \<notin> set (cn_names c1)"
  proof -
    obtain ns where "cn_names c1 = cn_names (th_conn s) @ ns" "set ns \<subseteq> ext_names (unat n) (all_rows ?dbs i ?us)"
      using attach_extdbs_effect [OF i(2) 1] by blast
    then show ?thesis using no_extdb [OF "2.prems"(2)] ext_names_prefix by fastforce
  qed
  have "th_conn s1 = ?c2"
    using plugin_queries_conn [of "with_conn ?c2 s" mem inp env gqw "Some i" desc walked] ne 3 by simp
  then have "cn_names ?c3 = cn_names c1" by simp
  note r = extdbs_names [OF i "2.prems"(2) 1 this 4]
  have "\<forall>i \<in> set is. i \<noteq> [] \<and> unat n2 + all_rows ?dbs i ?us < 2 ^ 64" "no_ext (th_conn (with_conn c4 s1)) (unat n2)"
    using r "2.prems"(1,2) by (auto simp: no_ext_def)
  from "2.IH" [OF refl refl 1 [symmetric] _ 3 [symmetric] _ _ refl 4 [symmetric] _ this 5] r show ?case
    by (simp add: s')
qed simp

lemma external_queries_names:
  assumes ok: "external_ok inp env (gw_name gqw)"
    and n: "unat n \<le> (case external_create_query (Some ''xattrs'') None (ge_external_dbs env (gw_name gqw)) of
      None \<Rightarrow> 0 | Some rows \<Rightarrow> length rows)"
    and c: "no_ext (th_conn s) (unat n)" and q: "external_queries mem inp env gqw n s = (ch, n', s')"
  shows "cn_names (th_conn s') = cn_names (th_conn s) \<and> n' = n"
proof -
  let ?dbs = "ge_external_dbs env (gw_name gqw)" and ?us = "gi_external_attach inp"
  show ?thesis
  proof (cases "?us = []")
    case True
    obtain ch1 w s1 where p: "plugin_queries mem inp env gqw None True 0 s = (ch1, w, s1)" by (rule prod_cases3)
    have "th_conn s1 = th_conn s"
      using plugin_queries_conn [OF no_extdb [OF c], of mem inp env gqw None True 0] p by simp
    then show ?thesis
      using q p True by (simp add: external_queries_def)
  next
    case us: False
    show ?thesis
    proof (cases "ge_inodes env (gw_name gqw) = []")
      case True
      obtain c1 n1 where 1: "attach_extdbs (ge_sqlite env) ?dbs [] ?us (th_conn s) n = (c1, n1)" by fastforce
      let ?c2 = "create_views (ge_sqlite env) extdb_views c1"
      obtain ch1 w s1 where 3: "plugin_queries mem inp env gqw None True 0 (with_conn ?c2 s) = (ch1, w, s1)"
        by (rule prod_cases3)
      let ?c3 = "drop_views (rev extdb_views) (th_conn s1)"
      obtain c4 n2 where 4: "detach_extdbs ?dbs [] ?us ?c3 n1 = (c4, n2)" by fastforce
      have z: "all_rows ?dbs [] ?us = 0"
        using ok True by (simp add: external_ok_def Let_def)
      have "unat n + all_rows ?dbs [] ?us < 2 ^ 64"
        using z unsigned_less [of n] by simp
      from attach_extdbs_effect [OF this 1] have c1: "cn_names c1 = cn_names (th_conn s)" "n1 = n"
        using z by auto
      have "th_conn s1 = ?c2"
        using plugin_queries_conn [of "with_conn ?c2 s" mem inp env gqw None True 0] no_extdb [OF c] 3 c1 by simp
      moreover have "cn_names c4 = cn_names ?c3 \<and> n2 = n1"
        using detach_extdbs_nothing [OF 4] .
      moreover have "s' = with_conn c4 s1" "n' = n2"
        using q us True by (simp_all add: external_queries_def Let_def 1 3 4)
      ultimately show ?thesis
        using c1 by simp
    next
      case False
      then have l: "inode_loop mem inp env gqw (ge_inodes env (gw_name gqw)) True 0 n s = (ch, n', s')"
        using q us by (simp add: external_queries_def Let_def)
      have "\<forall>i \<in> set (ge_inodes env (gw_name gqw)). i \<noteq> [] \<and> unat n + all_rows ?dbs i ?us < 2 ^ 64"
        using ok n by (fastforce simp: external_ok_def Let_def)
      from inode_loop_names [OF this c l] show ?thesis .
    qed
  qed
qed

text \<open>The views of extended attributes around the statements.\<close>

lemma summary_and_entries_names:
  assumes ok: "external_ok inp env (gw_name gqw)" and c: "no_ext (th_conn s) 0"
  shows "cn_names (th_conn (snd (summary_and_entries mem inp env gqw s))) = cn_names (th_conn s)"
proof -
  let ?p = "gw_name gqw"
  let ?dbs = "ge_external_dbs env ?p"
  let ?q = "external_create_query (Some ''xattrs'') None ?dbs"
  let ?k = "case ?q of None \<Rightarrow> 0 | Some rows \<Rightarrow> length rows"
  show ?thesis
  proof (cases "gi_process_xattrs inp")
    case False
    obtain ch n s1 where e: "external_queries mem inp env gqw 0 (with_conn (th_conn s) s) = (ch, n, s1)"
      by (rule prod_cases3)
    have "cn_names (th_conn s1) = cn_names (th_conn (with_conn (th_conn s) s))"
      using external_queries_names [OF ok _ _ e] c by simp
    then show ?thesis
      using False e by (simp add: summary_and_entries_def Let_def)
  next
    case True
    have k: "unat (0 :: 64 word) + ?k < 2 ^ 64"
      using ok by (auto simp: external_ok_def Let_def)
    obtain r c0 n1 where x: "external_concatenate (ge_sqlite env) ?dbs (Some ''xattrs'') None ''xattrs''
        (xattr_modify_filename ?p) (th_conn s) 0 = (r, c0, n1)" by (rule prod_cases3)
    from concatenate_effect [OF x refl k] obtain ns where
      a: "cn_names c0 = cn_names (th_conn s) @ ns" "set ns \<subseteq> ext_names 0 ?k" "n1 = of_nat ?k"
      by auto
    let ?c1 = "xattr_create_views (ge_sqlite env) xattr_views c0"
    have s: "setup_xattrs_views env ?p (th_conn s) 0 = (?c1, n1)"
      by (simp add: setup_xattrs_views_def x)
    have u: "unat n1 = ?k"
      using unat_plus [OF k] a(3) by simp
    obtain ch n2 s1 where e: "external_queries mem inp env gqw n1 (with_conn ?c1 s) = (ch, n2, s1)"
      by (rule prod_cases3)
    have "no_ext (th_conn (with_conn ?c1 s)) (unat n1)"
      using c a(1,2) ext_names_prefix unfolding u no_ext_def by (auto simp: subset_iff)
    then have b: "cn_names (th_conn s1) = cn_names (th_conn s) @ ns" "n2 = n1"
      using external_queries_names [OF ok _ _ e] u a(1) by simp_all
    obtain c2 n3 where f: "external_concatenate_cleanup ?dbs (Some ''xattrs'') (Some ''xattrs'') None (th_conn s1) n2 = (c2, n3)"
      by fastforce
    have base: "filter (\<lambda>x. x \<notin> ext_names 0 ?k) (cn_names (th_conn s)) = cn_names (th_conn s)"
      using no_ext_disjoint [OF c, of ?k] by (auto simp: filter_id_conv)
    have "filter (\<lambda>x. x \<notin> ext_names 0 ?k) ns = []"
      using a(2) by (auto simp: filter_empty_conv)
    then have keep: "filter (\<lambda>x. x \<notin> ext_names 0 ?k) (cn_names (th_conn s1)) = cn_names (th_conn s)"
      using base b by simp
    have "cn_names c2 = cn_names (th_conn s)"
    proof (cases ?q)
      case None
      then show ?thesis
        using f keep by (auto simp: external_concatenate_cleanup_def drop_view_def)
    next
      case (Some rows)
      then have "detach_loop rows (drop_view ''xattrs'' (th_conn s1)) n2 = (c2, n3)"
        using f by (simp add: external_concatenate_cleanup_def)
      from detach_loop_effect [OF _ this] show ?thesis
        using u b(2) keep Some by (simp add: drop_view_def)
    qed
    then show ?thesis
      using True by (simp add: summary_and_entries_def Let_def s e f)
  qed
qed

lemma treesummary_query_conn [simp]: "th_conn (snd (treesummary_query mem inp env gqw s)) = th_conn s"
  by (simp add: treesummary_query_def split_beta split: sum.splits)

lemma processdir_keeps:
  assumes "external_ok inp env (gw_name gqw)"
    and "no_ext (th_conn s) 0" and "''tree'' \<notin> set (cn_names (th_conn s))"
  shows "cn_names (th_conn (snd (processdir mem inp env gqw s))) = cn_names (th_conn s)"
proof -
  let ?at = "if gi_min_level inp \<le> gw_level gqw
    then attachdb (ge_sqlite env) (gw_sqlite3_name gqw @ ''/db.db'') ''tree'' (th_conn s) else (False, th_conn s)"
  obtain db c where at: "?at = (db, c)" by fastforce
  note no = no_extdb [OF assms(2)]
  show ?thesis
  proof (cases db)
    case False
    then show ?thesis
      using at no by (simp add: processdir_def Let_def split_beta)
  next
    case True
    then have c: "cn_names c = cn_names (th_conn s) @ [''tree'']"
      using at by (auto simp: attachdb_def split: if_splits)
    let ?s1 = "(with_conn c s)\<lparr>th_user_strs := dir_strs gqw (th_user_strs s)\<rparr>"
    obtain recs s2 where t: "treesummary_query mem inp env gqw ?s1 = (recs, s2)" by fastforce
    have s2: "th_conn s2 = c"
      using treesummary_query_conn [of mem inp env gqw ?s1, unfolded t] by simp
    have "no_ext (th_conn s2) 0"
      using assms(2) c s2 by (auto simp: no_ext_def)
    from summary_and_entries_names [OF assms(1) this, of mem]
    have n: "cn_names (th_conn (snd (case recs of None \<Rightarrow> ([], s2)
        | Some n \<Rightarrow> if 0 < n then summary_and_entries mem inp env gqw s2 else ([], s2)))) = cn_names (th_conn s) @ [''tree'']"
      by (auto simp: s2 c split: option.splits)
    have f: "filter (\<lambda>x. x \<noteq> ''tree'') (cn_names (th_conn s)) = cn_names (th_conn s)"
      using assms(3) by (auto simp: filter_id_conv)
    show ?thesis
      unfolding processdir_def Let_def at prod.case
      using True n by (simp add: t split_beta detachdb_def note_event_def f)
  qed
qed

section \<open>The subdirectories that are pushed\<close>

definition entry_subdirs :: "gq_input \<Rightarrow> gq_env \<Rightarrow> gqw \<Rightarrow> string \<times> entry_type \<Rightarrow> gqw list" where
  "entry_subdirs inp env gqw e =
     (if fst e \<in> set (gi_skip inp) \<or> fst e = ''db.db'' then []
      else case new_gqw_with_name env gqw (fst e) (snd e) (gw_level gqw + 1) of
             Some (child, S_DIR) \<Rightarrow> (case gq_push inp env child of None \<Rightarrow> [] | Some w \<Rightarrow> [w])
           | _ \<Rightarrow> [])"

definition subdirs_of :: "gq_input \<Rightarrow> gq_env \<Rightarrow> gqw \<Rightarrow> gqw list" where
  "subdirs_of inp env gqw =
     (if gw_level gqw + 1 \<le> gi_max_level inp then concat (map (entry_subdirs inp env gqw) (ge_entries env (gw_name gqw)))
      else [])"

lemma gq_descend_loop_children:
  "fst (gq_descend_loop inp env db gqw (gw_level gqw + 1) es s) = concat (map (entry_subdirs inp env gqw) es)"
proof (induction es arbitrary: s)
  case (Cons e es)
  obtain n t where e: "e = (n, t)" by fastforce
  show ?case
  proof (cases "new_gqw_with_name env gqw n t (gw_level gqw + 1)")
    case None
    then show ?thesis using Cons by (simp add: e entry_subdirs_def)
  next
    case (Some r)
    obtain child kind where "r = (child, kind)" by fastforce
    then show ?thesis
      using Cons Some by (cases kind) (auto simp: e entry_subdirs_def Let_def split_beta)
  qed
qed simp

lemma gq_descend_children [simp]: "fst (gq_descend inp env db gqw s) = subdirs_of inp env gqw"
  using gq_descend_loop_children [of inp env db gqw]
  by (simp add: gq_descend_def subdirs_of_def Let_def)

definition pushed_dirs :: "gq_input \<Rightarrow> gq_env \<Rightarrow> bool \<Rightarrow> gqw \<Rightarrow> gqw list" where
  "pushed_dirs inp env db gqw = (if db \<and> ge_isrolledup env (gw_name gqw) then [] else subdirs_of inp env gqw)"

lemma process_queries_children [simp]:
  "fst (process_queries mem inp env gqw db i d w s) = (if d then pushed_dirs inp env db gqw else [])"
  by (auto simp: process_queries_def pushed_dirs_def Let_def split_beta split: option.splits)

lemma plugin_queries_children [simp]:
  "fst (plugin_queries mem inp env gqw i d w s) = (if d then pushed_dirs inp env True gqw else [])"
  using process_queries_children [of mem inp env gqw True i d w "note_event PluginInit s"]
  by (simp add: plugin_queries_def split_beta)

lemma inode_loop_children:
  "fst (inode_loop mem inp env gqw is d w n s) = (if d \<and> is \<noteq> [] then pushed_dirs inp env True gqw else [])"
  by (induction "is" arbitrary: d w n s) (simp_all add: Let_def split_beta)

lemma external_queries_children [simp]:
  "fst (external_queries mem inp env gqw n s) = pushed_dirs inp env True gqw"
  by (simp add: external_queries_def Let_def split_beta inode_loop_children)

lemma summary_and_entries_children [simp]:
  "fst (summary_and_entries mem inp env gqw s) = pushed_dirs inp env True gqw"
  by (simp add: summary_and_entries_def Let_def split_beta)

text \<open>Whether the database of a directory is queried.\<close>

definition queried :: "gq_input \<Rightarrow> gq_env \<Rightarrow> string list \<Rightarrow> gqw \<Rightarrow> bool" where
  "queried inp env names gqw \<longleftrightarrow> gi_min_level inp \<le> gw_level gqw
     \<and> se_opens (ge_sqlite env) (attach_uri (gw_sqlite3_name gqw @ ''/db.db'') (se_uri_rest (ge_sqlite env)))
     \<and> ''tree'' \<notin> set names \<and> length names < se_max_attached (ge_sqlite env)"

definition entered :: "gq_input \<Rightarrow> gq_env \<Rightarrow> gqw \<Rightarrow> bool" where
  "entered inp env gqw \<longleftrightarrow> ge_opens env (gw_name gqw)
     \<and> \<not> (gi_keep_matime inp \<and> ge_lstat env (gw_name gqw @ ''/db.db'') = None)"

definition kids :: "gq_input \<Rightarrow> gq_env \<Rightarrow> string list \<Rightarrow> gqw \<Rightarrow> gqw list" where
  "kids inp env names gqw =
     (if entered inp env gqw then pushed_dirs inp env (queried inp env names gqw) gqw else [])"

lemma processdir_kids:
  assumes "gi_tsum inp = [] \<or> gi_process_sql inp = RUN_SE"
  shows "fst (processdir mem inp env gqw s) = kids inp env (cn_names (th_conn s)) gqw"
proof -
  have t: "treesummary_query mem inp env gqw s' = (Some 1, s')" for s'
    using assms by (auto simp: treesummary_query_def)
  have "fst (if gi_min_level inp \<le> gw_level gqw
      then attachdb (ge_sqlite env) (gw_sqlite3_name gqw @ ''/db.db'') ''tree'' (th_conn s) else (False, th_conn s))
      = queried inp env (cn_names (th_conn s)) gqw"
    by (auto simp: queried_def attachdb_def)
  then show ?thesis
    by (auto simp: processdir_def kids_def entered_def Let_def split_beta t)
qed

lemma new_gqw_level: "new_gqw_with_name env gqw n t l = Some (child, kind) \<Longrightarrow> gw_level child = l"
  unfolding new_gqw_with_name_def Let_def by (auto simp: map_option_case split: option.splits)

lemma gq_push_level: "gq_push inp env child = Some w \<Longrightarrow> gw_level w = gw_level child"
  by (auto simp: gq_push_def split: if_splits option.splits)

lemma entry_subdirs_level:
  assumes "w \<in> set (entry_subdirs inp env gqw e)"
  shows "gw_level w = gw_level gqw + 1"
proof (cases "new_gqw_with_name env gqw (fst e) (snd e) (gw_level gqw + 1)")
  case None
  then show ?thesis using assms by (simp add: entry_subdirs_def split: if_splits)
next
  case (Some r)
  obtain child kind where r: "r = (child, kind)" by fastforce
  have "gq_push inp env child = Some w"
    using assms Some r by (cases kind) (auto simp: entry_subdirs_def split: if_splits option.splits)
  then show ?thesis
    using gq_push_level new_gqw_level Some r by simp
qed

lemma subdirs_level: "w \<in> set (subdirs_of inp env gqw) \<Longrightarrow> gw_level w = gw_level gqw + 1 \<and> gw_level w \<le> gi_max_level inp"
  by (auto simp: subdirs_of_def dest: entry_subdirs_level split: if_splits)

lemma kids_level: "w \<in> set (kids inp env names gqw) \<Longrightarrow> gw_level w = gw_level gqw + 1 \<and> gw_level w \<le> gi_max_level inp"
  by (auto simp: kids_def pushed_dirs_def dest: subdirs_level split: if_splits)

section \<open>The walk\<close>

text \<open>Everything below a directory, each as often as the walk meets it.\<close>

function subtree :: "gq_input \<Rightarrow> gq_env \<Rightarrow> string list \<Rightarrow> gqw \<Rightarrow> gqw multiset" where
  "subtree inp env names gqw = add_mset gqw (sum_list (map (subtree inp env names) (kids inp env names gqw)))"
  by pat_completeness auto

termination
proof (relation "measure (\<lambda>(inp, env, names, gqw). gi_max_level inp - gw_level gqw)", goal_cases)
  case (2 inp env names gqw w)
  then show ?case
    using kids_level [of w inp env names gqw] by simp linarith
qed simp

declare subtree.simps [simp del]

text \<open>Any thread takes any directory from the queues.\<close>

record walk =
  wk_queue :: "gqw multiset"
  wk_handled :: "gqw list"
  wk_threads :: "thread list"

inductive gq_step :: "(nat \<Rightarrow> bool) \<Rightarrow> gq_input \<Rightarrow> gq_env \<Rightarrow> walk \<Rightarrow> walk \<Rightarrow> bool" for mem inp env where
  handle: "gqw \<in># wk_queue s \<Longrightarrow> i < length (wk_threads s) \<Longrightarrow>
    processdir mem inp env gqw (wk_threads s ! i) = (children, t) \<Longrightarrow>
    gq_step mem inp env s
      \<lparr>wk_queue = wk_queue s - {#gqw#} + mset children, wk_handled = wk_handled s @ [gqw],
       wk_threads = (wk_threads s)[i := t]\<rparr>"

definition thread_ok :: "string list \<Rightarrow> thread \<Rightarrow> bool" where
  "thread_ok names t \<longleftrightarrow> cn_names (th_conn t) = names"

definition names_ok :: "string list \<Rightarrow> bool" where
  "names_ok names \<longleftrightarrow> ''tree'' \<notin> set names \<and> (\<forall>n \<in> set names. take 5 n \<noteq> ''extdb'')"

definition walk_ok :: "gq_input \<Rightarrow> gq_env \<Rightarrow> string list \<Rightarrow> gqw \<Rightarrow> walk \<Rightarrow> bool" where
  "walk_ok inp env names root s \<longleftrightarrow> (\<forall>t \<in> set (wk_threads s). thread_ok names t)
     \<and> mset (wk_handled s) + sum_mset (image_mset (subtree inp env names) (wk_queue s)) = subtree inp env names root"

lemma walk_step:
  assumes ok: "\<And>p. external_ok inp env p" and names: "names_ok names"
    and tsum: "gi_tsum inp = [] \<or> gi_process_sql inp = RUN_SE"
    and "gq_step mem inp env s s'" "walk_ok inp env names root s"
  shows "walk_ok inp env names root s'"
  using assms(4)
proof cases
  case (handle gqw i children t)
  have th: "thread_ok names (wk_threads s ! i)"
    using assms(5) handle(3) by (auto simp: walk_ok_def)
  have "no_ext (th_conn (wk_threads s ! i)) 0" "''tree'' \<notin> set (cn_names (th_conn (wk_threads s ! i)))"
    using th names by (auto simp: thread_ok_def names_ok_def no_ext_def)
  from processdir_keeps [where gqw = gqw and mem = mem, OF ok this] have t: "thread_ok names t"
    using th handle(4) by (simp add: thread_ok_def)
  have ch: "children = kids inp env names gqw"
    using processdir_kids [OF tsum, of mem env gqw "wk_threads s ! i"] th handle(4) by (simp add: thread_ok_def)
  obtain Q where Q: "wk_queue s = add_mset gqw Q"
    using handle(2) by (metis multi_member_split)
  have "mset (wk_handled s') + sum_mset (image_mset (subtree inp env names) (wk_queue s')) =
      mset (wk_handled s) + add_mset gqw (sum_mset (image_mset (subtree inp env names) (mset children)))
        + sum_mset (image_mset (subtree inp env names) Q)"
    using handle(1) Q by simp
  also have "\<dots> = mset (wk_handled s) + sum_mset (image_mset (subtree inp env names) (wk_queue s))"
    unfolding Q image_mset_add_mset sum_mset.add_mset subtree.simps [of inp env names gqw] ch sum_list_mset
    by simp
  also have "\<dots> = subtree inp env names root"
    using assms(5) by (simp add: walk_ok_def)
  finally have "mset (wk_handled s') + sum_mset (image_mset (subtree inp env names) (wk_queue s')) = subtree inp env names root" .
  moreover have "\<forall>t \<in> set (wk_threads s'). thread_ok names t"
    using assms(5) handle(1) t set_update_subset_insert [of "wk_threads s" i t] by (auto simp: walk_ok_def)
  ultimately show ?thesis
    by (simp add: walk_ok_def)
qed

lemma walk_run:
  assumes "\<And>p. external_ok inp env p" "names_ok names" "gi_tsum inp = [] \<or> gi_process_sql inp = RUN_SE"
    and "(gq_step mem inp env)\<^sup>*\<^sup>* s s'" "walk_ok inp env names root s"
  shows "walk_ok inp env names root s'"
  using assms(4,5) by (induction rule: rtranclp_induct) (use walk_step [OF assms(1-3)] in blast)+

section \<open>A small index\<close>

text \<open>A directory with a subdirectory; no statement returns a row.\<close>

definition tiny_env :: gq_env where
  "tiny_env = \<lparr>ge_opens = (\<lambda>_. True), ge_entries = (\<lambda>p. if p = ''r'' then [(''db.db'', REG), (''a'', DIR)] else []),
     ge_stat = (\<lambda>p. if p = ''r/a'' then Some \<lparr>st_kind = S_DIR, st_uid = 0, st_gid = 0\<rparr> else None),
     ge_lstat = (\<lambda>_. None), ge_sqlite = \<lparr>se_opens = \<lambda>_. True, se_uri_rest = ''ro'', se_view_ok = \<lambda>_. True, se_max_attached = 10\<rparr>,
     ge_treesummary = (\<lambda>_. 1), ge_isrolledup = (\<lambda>_. False), ge_inodes = (\<lambda>_. [''1'']),
     ge_external_dbs = (\<lambda>_. Some []), ge_exec = (\<lambda>_ _ _ _. (0, []))\<rparr>"

definition tiny_input :: "process_sql \<Rightarrow> gq_input" where
  "tiny_input a = \<lparr>gi_tsum = ''T'', gi_sum = ''S'', gi_ent = ''E'', gi_process_sql = a, gi_min_level = 0, gi_max_level = 9,
     gi_dir_match = DIR_MATCH_NONE, gi_skip = [''.'', ''..''], gi_keep_matime = False, gi_process_xattrs = True,
     gi_external_attach = [\<lparr>ea_basename = ''b'', ea_view = ''v''\<rparr>], gi_external_copy = []\<rparr>"

definition tiny_root :: gqw where
  "tiny_root = \<lparr>gw_name = ''r'', gw_basename_len = 1, gw_level = 0, gw_sqlite3_name = ''r'', gw_id_match = False\<rparr>"

definition tiny_child :: gqw where
  "tiny_child = \<lparr>gw_name = ''r/a'', gw_basename_len = 1, gw_level = 1, gw_sqlite3_name = ''r/a'', gw_id_match = False\<rparr>"

definition tiny_thread :: thread where
  "tiny_thread = \<lparr>th_conn = \<lparr>cn_names = [''main''], cn_views = \<lambda>_. None\<rparr>, th_user_strs = trie_alloc, th_log = []\<rparr>"

lemma tiny_external: "external_ok (tiny_input a) tiny_env p"
  by (simp add: external_ok_def tiny_env_def tiny_input_def external_create_query_def all_rows_def user_rows_def Let_def)

lemma tiny_kids:
  "kids (tiny_input a) tiny_env names tiny_root = [tiny_child]" "kids (tiny_input a) tiny_env names tiny_child = []"
  by (simp_all add: kids_def entered_def pushed_dirs_def subdirs_of_def entry_subdirs_def new_gqw_with_name_def gq_push_def
      tiny_env_def tiny_input_def tiny_root_def tiny_child_def convert_def need_convert_def Let_def)

lemma tiny_query_run:
  "\<exists>t. (gq_step mem (tiny_input RUN_SE) tiny_env)\<^sup>*\<^sup>* \<lparr>wk_queue = {#tiny_root#}, wk_handled = [], wk_threads = [tiny_thread]\<rparr>
     \<lparr>wk_queue = {#}, wk_handled = [tiny_root, tiny_child], wk_threads = [t]\<rparr>"
proof -
  let ?i = "tiny_input RUN_SE"
  have m: "gi_tsum ?i = [] \<or> gi_process_sql ?i = RUN_SE" by (simp add: tiny_input_def)
  obtain t1 where p1: "processdir mem ?i tiny_env tiny_root tiny_thread = ([tiny_child], t1)"
    using processdir_kids [OF m, of mem tiny_env tiny_root tiny_thread] tiny_kids(1) by (metis prod.collapse)
  obtain t2 where p2: "processdir mem ?i tiny_env tiny_child t1 = ([], t2)"
    using processdir_kids [OF m, of mem tiny_env tiny_child t1] tiny_kids(2) by (metis prod.collapse)
  let ?s0 = "\<lparr>wk_queue = {#tiny_root#}, wk_handled = [], wk_threads = [tiny_thread]\<rparr>"
  let ?s1 = "\<lparr>wk_queue = {#tiny_child#}, wk_handled = [tiny_root], wk_threads = [t1]\<rparr>"
  let ?s2 = "\<lparr>wk_queue = {#}, wk_handled = [tiny_root, tiny_child], wk_threads = [t2]\<rparr>"
  have "gq_step mem ?i tiny_env ?s0 ?s1"
    using gq_step.handle [of tiny_root ?s0 0 mem ?i tiny_env "[tiny_child]" t1] p1 by simp
  moreover have "gq_step mem ?i tiny_env ?s1 ?s2"
    using gq_step.handle [of tiny_child ?s1 0 mem ?i tiny_env "[]" t2] p2 by simp
  ultimately show ?thesis
    by (meson converse_rtranclp_into_rtranclp rtranclp.rtrancl_refl)
qed

lemma tiny_query_ok:
  "names_ok [''main'']" "thread_ok [''main''] tiny_thread" "th_log tiny_thread = []"
  "gi_tsum (tiny_input RUN_SE) = [] \<or> gi_process_sql (tiny_input RUN_SE) = RUN_SE"
  by (simp_all add: names_ok_def thread_ok_def tiny_thread_def tiny_input_def)

section \<open>Properties\<close>

text \<open>C14: Whatever fails in a directory (attaching its database, external databases or extended attributes,
  creating views, replacing strings, the statements), the thread's connection has the same databases
  attached after the directory as before, so the next directory can be attached.\<close>

theorem processdir_detaches:
  assumes "external_ok inp env (gw_name gqw)"
    and "no_ext (th_conn s) 0" and "''tree'' \<notin> set (cn_names (th_conn s))"
  shows "cn_names (th_conn (snd (processdir mem inp env gqw s))) = cn_names (th_conn s)"
  using assms by (rule processdir_keeps)

lemma processdir_detaches_witness:
  "cn_names (th_conn (snd (processdir (\<lambda>_. True) (tiny_input RUN_SE) tiny_env tiny_root tiny_thread))) = [''main'']"
  by (subst processdir_detaches [OF tiny_external])
    (simp_all add: tiny_thread_def no_ext_def)

text \<open>C10: With any number of threads, whichever takes which directory, the walk handles exactly the directories
  below the one it starts with: those met through directories that can be opened, are not rolled up and
  are not below the last level, each once; and it takes no more steps than there are directories.  There is no \<open>-T\<close>, or
  the option to run only \<open>-S\<close> and \<open>-E\<close> is given: otherwise the walk may end where \<open>-T\<close> returns no row, as lemma
  \<open>tsum_without_rows_prunes\<close> shows.  The threads start with the same databases attached, none named \<open>tree\<close> or \<open>extdb\<close>
  and a number, and the external databases of a directory are fewer than their counter can hold.\<close>

theorem query_visits_subtree:
  assumes "\<And>p. external_ok inp env p" "names_ok names" "gi_tsum inp = [] \<or> gi_process_sql inp = RUN_SE"
    and "\<forall>t \<in> set threads. thread_ok names t"
    and "(gq_step mem inp env)\<^sup>*\<^sup>* \<lparr>wk_queue = {#root#}, wk_handled = [], wk_threads = threads\<rparr> s"
  shows "mset (wk_handled s) \<subseteq># subtree inp env names root
    \<and> (wk_queue s = {#} \<longrightarrow> mset (wk_handled s) = subtree inp env names root)"
proof -
  have "walk_ok inp env names root \<lparr>wk_queue = {#root#}, wk_handled = [], wk_threads = threads\<rparr>"
    using assms(4) by (simp add: walk_ok_def)
  from walk_run [OF assms(1-3,5) this] have
    "mset (wk_handled s) + sum_mset (image_mset (subtree inp env names) (wk_queue s)) = subtree inp env names root"
    by (simp add: walk_ok_def)
  then show ?thesis
    by (metis image_mset_empty sum_mset.empty add_0_right mset_subset_eq_add_left)
qed

lemma query_visits_subtree_witness:
  "subtree (tiny_input RUN_SE) tiny_env [''main''] tiny_root = {#tiny_root, tiny_child#}"
proof -
  obtain t where r: "(gq_step (\<lambda>_. True) (tiny_input RUN_SE) tiny_env)\<^sup>*\<^sup>*
      \<lparr>wk_queue = {#tiny_root#}, wk_handled = [], wk_threads = [tiny_thread]\<rparr>
      \<lparr>wk_queue = {#}, wk_handled = [tiny_root, tiny_child], wk_threads = [t]\<rparr>"
    using tiny_query_run by blast
  from query_visits_subtree [OF tiny_external tiny_query_ok(1,4) _ r] tiny_query_ok(2) show ?thesis by simp
qed

text \<open>When \<open>-T\<close> returns no row, for instance because it failed, and the next statement is only to run on a
  row, neither \<open>-S\<close> nor \<open>-E\<close> runs and no subdirectory is pushed: the tree below is not queried.\<close>

theorem tsum_without_rows_prunes:
  assumes "gi_process_sql inp = RUN_ON_ROW" "gi_tsum inp \<noteq> []" "1 \<le> ge_treesummary env (gw_name gqw)"
    and "queried inp env (cn_names (th_conn s)) gqw" "entered inp env gqw"
    and "\<And>sql. fst (ge_exec env (gw_name gqw) None 0 sql) = 0"
  shows "fst (processdir mem inp env gqw s) = []
    \<and> (\<forall>p i sql. Ran p i Sum sql \<in> set (th_log (snd (processdir mem inp env gqw s))) \<longrightarrow> Ran p i Sum sql \<in> set (th_log s))
    \<and> (\<forall>p i sql. Ran p i Ent sql \<in> set (th_log (snd (processdir mem inp env gqw s))) \<longrightarrow> Ran p i Ent sql \<in> set (th_log s))"
proof -
  let ?at = "if gi_min_level inp \<le> gw_level gqw
    then attachdb (ge_sqlite env) (gw_sqlite3_name gqw @ ''/db.db'') ''tree'' (th_conn s) else (False, th_conn s)"
  obtain db c where at: "?at = (db, c)" by fastforce
  have db: "db"
    using assms(4) at by (auto simp: queried_def attachdb_def split: if_splits)
  let ?s1 = "(with_conn c s)\<lparr>th_user_strs := dir_strs gqw (th_user_strs s)\<rparr>"
  have "th_log ?s1 = th_log s" by (simp add: with_conn_def)
  then have "\<exists>s2. (treesummary_query mem inp env gqw ?s1 = (None, s2) \<or> treesummary_query mem inp env gqw ?s1 = (Some 0, s2))
      \<and> (th_log s2 = th_log s \<or> (\<exists>sql. th_log s2 = th_log s @ [Ran (gw_name gqw) None Tsum sql]))"
    using assms(1-3,6)
    by (auto simp: treesummary_query_def querydb_def note_event_def split_beta split: sum.splits)
  then obtain r s2 where t: "treesummary_query mem inp env gqw ?s1 = (r, s2)" "r = None \<or> r = Some 0"
    "th_log s2 = th_log s \<or> (\<exists>sql. th_log s2 = th_log s @ [Ran (gw_name gqw) None Tsum sql])"
    by blast
  have "processdir mem inp env gqw s =
      (let s4 = with_conn (detachdb ''tree'' (th_conn s2)) s2
       in ([], if gi_keep_matime inp then note_event (Restored (gw_name gqw @ ''/db.db'')) s4 else s4))"
    unfolding processdir_def Let_def at prod.case
    using db assms(5) t(1,2) by (auto simp: entered_def)
  then show ?thesis
    using t(3) by (auto simp: Let_def with_conn_def note_event_def)
qed

lemma tsum_without_rows_prunes_witness:
  "fst (processdir (\<lambda>_. True) (tiny_input RUN_ON_ROW) tiny_env tiny_root tiny_thread) = []"
proof -
  have "queried (tiny_input RUN_ON_ROW) tiny_env (cn_names (th_conn tiny_thread)) tiny_root"
    "entered (tiny_input RUN_ON_ROW) tiny_env tiny_root"
    by (simp_all add: queried_def entered_def tiny_env_def tiny_input_def tiny_root_def tiny_thread_def)
  from tsum_without_rows_prunes [OF _ _ _ this, of "\<lambda>_. True"] show ?thesis
    by (simp add: tiny_input_def tiny_env_def)
qed

end
