(* ===== verification/Descend.thy ===== *)
theory Descend
  imports Trie Entries "HOL-Library.Multiset"
begin

text \<open>
  The walk down a tree that the tools share: \<open>src/src/descend.c\<close>.  \<open>descend\<close> reads a directory and hands each
  subdirectory to the queue or, when there are already enough of them, works on it at once; other entries
  go to the function for files.  A directory stream, \<open>lstat\<close> and \<open>readlink\<close> are parameters.  The pool is the
  relation \<open>descent_step\<close>: any thread takes any item.  Compressing an item does not change it and is left out.
\<close>

section \<open>Entries\<close>

record dirent =
  d_name :: string
  d_type :: entry_type
  d_ino :: nat

text \<open>\<open>fs_readlink\<close> gives what a link holds, \<open>None\<close> when it cannot be read.\<close>

record fs =
  fs_opendir :: "string \<Rightarrow> dirent list option"
  fs_lstat :: "string \<Rightarrow> stat option"
  fs_readlink :: "string \<Rightarrow> string option"

section \<open>One directory\<close>

record descend_input =
  di_min_level :: nat
  di_max_level :: nat
  di_subdir_limit :: nat
  di_skip :: "(unit, unit) trie"
  di_skip_db :: bool
  di_processdir :: bool \<comment> \<open>whether there is a function for directories\<close>
  di_processnondir :: bool

record dwork =
  dw_name :: string
  dw_basename_len :: nat
  dw_level :: nat
  dw_ino :: nat
  dw_pinode :: nat
  dw_recursion_level :: nat

text \<open>What becomes of an entry, in the order of the directory.\<close>

datatype action = Enqueue dwork | InSitu dwork | NonDir dwork char string

record descend_counters =
  dc_dirs :: nat
  dc_dirs_insitu :: nat
  dc_nondirs :: nat
  dc_nondirs_processed :: nat

definition LINKNAME_SIZE :: nat where "LINKNAME_SIZE = 4096"

text \<open>\<open>readlink\<close> returns -1 or the bytes it wrote, at most \<open>LINKNAME_SIZE\<close>; the NUL is written at that index.
  \<open>None\<close>: outside of the array.\<close>

definition read_linkname :: "fs \<Rightarrow> string \<Rightarrow> string option" where
  "read_linkname env name =
     (case fs_readlink env name of
        None \<Rightarrow> None
      | Some target \<Rightarrow>
          let link_len = min (length target) LINKNAME_SIZE
          in if link_len < LINKNAME_SIZE then Some (take link_len target) else None)"

definition skip_entry :: "descend_input \<Rightarrow> string \<Rightarrow> bool" where
  "skip_entry inp name \<longleftrightarrow> trie_search (Some (di_skip inp)) (Some name) \<noteq> None \<or> di_skip_db inp \<and> name = ''db.db''"

definition new_child :: "dwork \<Rightarrow> dirent \<Rightarrow> dwork" where
  "new_child work e =
     \<lparr>dw_name = dw_name work @ ''/'' @ d_name e, dw_basename_len = length (d_name e), dw_level = dw_level work + 1,
      dw_ino = d_ino e, dw_pinode = dw_ino work, dw_recursion_level = 0\<rparr>"

definition descend_dir :: "descend_input \<Rightarrow> dwork \<Rightarrow> dwork \<Rightarrow> descend_counters \<Rightarrow> action list \<times> descend_counters" where
  "descend_dir inp work child ctrs =
     (if dw_level child \<le> di_max_level inp then
        if di_processdir inp then
          if di_subdir_limit inp = 0 \<or> dc_dirs ctrs < di_subdir_limit inp
          then ([Enqueue child], ctrs\<lparr>dc_dirs := dc_dirs ctrs + 1\<rparr>)
          else ([InSitu (child\<lparr>dw_recursion_level := dw_recursion_level work + 1\<rparr>)],
                ctrs\<lparr>dc_dirs := dc_dirs ctrs + 1, dc_dirs_insitu := dc_dirs_insitu ctrs + 1\<rparr>)
        else ([], ctrs\<lparr>dc_dirs := dc_dirs ctrs + 1\<rparr>)
      else ([], ctrs))"

definition descend_nondir ::
    "descend_input \<Rightarrow> dwork \<Rightarrow> dwork \<Rightarrow> char \<Rightarrow> string \<Rightarrow> descend_counters \<Rightarrow> action list \<times> descend_counters" where
  "descend_nondir inp work child type linkname ctrs =
     (if di_min_level inp \<le> dw_level work then
        if di_processnondir inp
        then ([NonDir child type linkname],
              ctrs\<lparr>dc_nondirs := dc_nondirs ctrs + 1, dc_nondirs_processed := dc_nondirs_processed ctrs + 1\<rparr>)
        else ([], ctrs\<lparr>dc_nondirs := dc_nondirs ctrs + 1\<rparr>)
      else ([], ctrs))"

definition descend_entry ::
    "fs \<Rightarrow> descend_input \<Rightarrow> dwork \<Rightarrow> dirent \<Rightarrow> descend_counters \<Rightarrow> (action list \<times> descend_counters) option" where
  "descend_entry env inp work e ctrs =
     (if skip_entry inp (d_name e) then Some ([], ctrs)
      else
        let child = new_child work e
        in case try_skip_lstat (fs_lstat env) (dw_name child) (d_type e) of
             None \<Rightarrow> Some ([], ctrs)
           | Some S_DIR \<Rightarrow> Some (descend_dir inp work child ctrs)
           | Some S_LNK \<Rightarrow>
               map_option (\<lambda>l. descend_nondir inp work child CHR ''l'' l ctrs) (read_linkname env (dw_name child))
           | Some S_REG \<Rightarrow> Some (descend_nondir inp work child CHR ''f'' [] ctrs)
           | Some S_OTHER \<Rightarrow> Some ([], ctrs))"

fun descend_loop ::
    "fs \<Rightarrow> descend_input \<Rightarrow> dwork \<Rightarrow> dirent list \<Rightarrow> descend_counters \<Rightarrow> (action list \<times> descend_counters) option" where
  "descend_loop env inp work [] ctrs = Some ([], ctrs)"
| "descend_loop env inp work (e # es) ctrs =
     (case descend_entry env inp work e ctrs of
        None \<Rightarrow> None
      | Some (acts, ctrs') \<Rightarrow> map_option (\<lambda>(rest, c). (acts @ rest, c)) (descend_loop env inp work es ctrs'))"

definition no_counters :: descend_counters where
  "no_counters = \<lparr>dc_dirs = 0, dc_dirs_insitu = 0, dc_nondirs = 0, dc_nondirs_processed = 0\<rparr>"

text \<open>\<open>None\<close>: a write outside of an array.\<close>

definition descend ::
    "fs \<Rightarrow> descend_input \<Rightarrow> dwork \<Rightarrow> dirent list \<Rightarrow> (action list \<times> descend_counters) option" where
  "descend env inp work dir =
     (if dw_level work \<le> di_max_level inp then descend_loop env inp work dir no_counters else Some ([], no_counters))"

section \<open>A walk\<close>

text \<open>A function for directories that opens its directory and calls \<open>descend\<close>, as those of the tools do: what it
  enqueues and what it and the directories worked on at once handle.  The fuel bounds the recursion.\<close>

datatype handled = Dir string nat nat | Entry string nat nat char string

definition handled_dir :: "dwork \<Rightarrow> handled" where
  "handled_dir w = Dir (dw_name w) (dw_level w) (dw_pinode w)"

definition handled_entry :: "dwork \<Rightarrow> char \<Rightarrow> string \<Rightarrow> handled" where
  "handled_entry w type linkname = Entry (dw_name w) (dw_level w) (dw_pinode w) type linkname"

fun gather_results :: "('a list \<times> 'b list) option list \<Rightarrow> ('a list \<times> 'b list) option" where
  "gather_results [] = Some ([], [])"
| "gather_results (None # rs) = None"
| "gather_results (Some (q, h) # rs) = map_option (\<lambda>(q', h'). (q @ q', h @ h')) (gather_results rs)"

fun processdir_walk :: "fs \<Rightarrow> descend_input \<Rightarrow> nat \<Rightarrow> dwork \<Rightarrow> (dwork list \<times> handled list) option" where
  "processdir_walk env inp 0 work = None"
| "processdir_walk env inp (Suc fuel) work =
     (case fs_opendir env (dw_name work) of
        None \<Rightarrow> Some ([], [handled_dir work])
      | Some dir \<Rightarrow>
          (case descend env inp work dir of
             None \<Rightarrow> None
           | Some (acts, _) \<Rightarrow>
               map_option (\<lambda>(q, h). (q, handled_dir work # h))
                 (gather_results (map (\<lambda>a. case a of
                      Enqueue w \<Rightarrow> Some ([w], [])
                    | InSitu w \<Rightarrow> processdir_walk env inp fuel w
                    | NonDir w type linkname \<Rightarrow> Some ([], [handled_entry w type linkname])) acts))))"

record descent =
  ds_queue :: "dwork multiset"
  ds_handled :: "handled list"

definition walk_fuel :: "descend_input \<Rightarrow> dwork \<Rightarrow> nat" where
  "walk_fuel inp w = Suc (di_max_level inp - dw_level w)"

inductive descent_step :: "fs \<Rightarrow> descend_input \<Rightarrow> descent \<Rightarrow> descent \<Rightarrow> bool" for env inp where
  work_on: "w \<in># ds_queue s \<Longrightarrow> processdir_walk env inp (walk_fuel inp w) w = Some (q, h) \<Longrightarrow>
    descent_step env inp s \<lparr>ds_queue = ds_queue s - {#w#} + mset q, ds_handled = ds_handled s @ h\<rparr>"

section \<open>What is handled\<close>

text \<open>The subdirectories and the other entries of a directory, whatever the limit.\<close>

definition kind_of :: "fs \<Rightarrow> descend_input \<Rightarrow> dwork \<Rightarrow> dirent \<Rightarrow> st_kind option" where
  "kind_of env inp work e =
     (if skip_entry inp (d_name e) then None else try_skip_lstat (fs_lstat env) (dw_name (new_child work e)) (d_type e))"

definition entry_dirs :: "fs \<Rightarrow> descend_input \<Rightarrow> dwork \<Rightarrow> dirent \<Rightarrow> dwork list" where
  "entry_dirs env inp work e =
     (if kind_of env inp work e = Some S_DIR \<and> dw_level work + 1 \<le> di_max_level inp \<and> di_processdir inp
      then [new_child work e] else [])"

definition entry_others :: "fs \<Rightarrow> descend_input \<Rightarrow> dwork \<Rightarrow> dirent \<Rightarrow> handled list" where
  "entry_others env inp work e =
     (if di_min_level inp \<le> dw_level work \<and> di_processnondir inp then
        case kind_of env inp work e of
          Some S_REG \<Rightarrow> [handled_entry (new_child work e) CHR ''f'' []]
        | Some S_LNK \<Rightarrow> [handled_entry (new_child work e) CHR ''l'' (the (fs_readlink env (dw_name (new_child work e))))]
        | _ \<Rightarrow> []
      else [])"

definition entries_of :: "fs \<Rightarrow> descend_input \<Rightarrow> dwork \<Rightarrow> dirent list" where
  "entries_of env inp work =
     (if dw_level work \<le> di_max_level inp then (case fs_opendir env (dw_name work) of None \<Rightarrow> [] | Some es \<Rightarrow> es) else [])"

definition dirs_below :: "fs \<Rightarrow> descend_input \<Rightarrow> dwork \<Rightarrow> dwork list" where
  "dirs_below env inp work = concat (map (entry_dirs env inp work) (entries_of env inp work))"

lemma dirs_below_level: "w \<in> set (dirs_below env inp work) \<Longrightarrow> dw_level w = dw_level work + 1 \<and> dw_level w \<le> di_max_level inp"
  by (auto simp: dirs_below_def entry_dirs_def new_child_def split: if_splits)

text \<open>All that is to be handled below a directory, and the directory.\<close>

function everything :: "fs \<Rightarrow> descend_input \<Rightarrow> dwork \<Rightarrow> handled multiset" where
  "everything env inp work =
     add_mset (handled_dir work)
       (mset (concat (map (entry_others env inp work) (entries_of env inp work)))
        + sum_list (map (everything env inp) (dirs_below env inp work)))"
  by pat_completeness auto

termination
proof (relation "measure (\<lambda>(env, inp, work). di_max_level inp - dw_level work)", goal_cases)
  case (2 env inp work w)
  then show ?case
    using dirs_below_level [of w env inp work] by simp linarith
qed simp

declare everything.simps [simp del]

lemma everything_cong:
  assumes "dw_name w = dw_name w'" "dw_level w = dw_level w'" "dw_ino w = dw_ino w'" "dw_pinode w = dw_pinode w'"
  shows "everything env inp w = everything env inp w'"
proof -
  have n: "new_child w e = new_child w' e" for e
    using assms by (simp add: new_child_def)
  have "entries_of env inp w = entries_of env inp w'" "handled_dir w = handled_dir w'"
    using assms by (simp_all add: entries_of_def handled_dir_def)
  moreover have k: "kind_of env inp w e = kind_of env inp w' e" for e
    by (simp add: kind_of_def n)
  moreover have "entry_others env inp w e = entry_others env inp w' e" for e
    using assms(2) k n by (simp add: entry_others_def split: option.split st_kind.split)
  moreover have "entry_dirs env inp w e = entry_dirs env inp w' e" for e
    using assms(2) k n by (simp add: entry_dirs_def)
  ultimately show ?thesis
    by (simp add: everything.simps [of env inp w] everything.simps [of env inp w'] dirs_below_def cong: map_cong)
qed

lemma everything_recursion_level [simp]: "everything env inp (w\<lparr>dw_recursion_level := r\<rparr>) = everything env inp w"
  by (rule everything_cong) simp_all

lemma everything_limit [simp]: "everything env (inp\<lparr>di_subdir_limit := n\<rparr>) w = everything env inp w"
proof (induction env inp w rule: everything.induct)
  case (1 env inp work)
  have s: "skip_entry (inp\<lparr>di_subdir_limit := n\<rparr>) = skip_entry inp"
    by (simp add: skip_entry_def fun_eq_iff)
  have k: "kind_of env (inp\<lparr>di_subdir_limit := n\<rparr>) work = kind_of env inp work"
    by (simp add: kind_of_def s fun_eq_iff)
  have "entry_dirs env (inp\<lparr>di_subdir_limit := n\<rparr>) work = entry_dirs env inp work"
    by (simp add: entry_dirs_def k fun_eq_iff)
  moreover have "entries_of env (inp\<lparr>di_subdir_limit := n\<rparr>) work = entries_of env inp work"
    by (simp add: entries_of_def)
  ultimately have "entry_others env (inp\<lparr>di_subdir_limit := n\<rparr>) work = entry_others env inp work"
    "dirs_below env (inp\<lparr>di_subdir_limit := n\<rparr>) work = dirs_below env inp work"
    "entries_of env (inp\<lparr>di_subdir_limit := n\<rparr>) work = entries_of env inp work"
    by (simp_all only: dirs_below_def) (auto simp: entry_others_def k fun_eq_iff)
  moreover have "map (everything env (inp\<lparr>di_subdir_limit := n\<rparr>)) (dirs_below env inp work) =
      map (everything env inp) (dirs_below env inp work)"
    using 1 by (rule map_cong [OF refl])
  ultimately show ?case
    by (simp only: everything.simps [of env "inp\<lparr>di_subdir_limit := n\<rparr>"] everything.simps [of env inp])
qed

section \<open>One directory handles its entries\<close>

fun value_of :: "fs \<Rightarrow> descend_input \<Rightarrow> action \<Rightarrow> handled multiset" where
  "value_of env inp (Enqueue w) = everything env inp w"
| "value_of env inp (InSitu w) = everything env inp w"
| "value_of env inp (NonDir w type linkname) = {#handled_entry w type linkname#}"

lemma read_linkname_Some: "read_linkname env name = Some l \<Longrightarrow> fs_readlink env name = Some l"
  by (auto simp: read_linkname_def Let_def split: option.splits if_splits)

lemma descend_entry_value:
  assumes "descend_entry env inp work e ctrs = Some (acts, c)" "dw_level work \<le> di_max_level inp"
  shows "sum_list (map (value_of env inp) acts) =
    mset (entry_others env inp work e) + sum_list (map (everything env inp) (entry_dirs env inp work e))"
proof (cases "kind_of env inp work e")
  case None
  then show ?thesis
    using assms(1)
    by (auto simp: Let_def descend_entry_def kind_of_def entry_others_def entry_dirs_def split: if_splits option.splits)
next
  case (Some k)
  then have k: "\<not> skip_entry inp (d_name e)" "try_skip_lstat (fs_lstat env) (dw_name (new_child work e)) (d_type e) = Some k"
    by (auto simp: kind_of_def split: if_splits)
  have l: "dw_level (new_child work e) = dw_level work + 1" by (simp add: new_child_def)
  show ?thesis
  proof (cases k)
    case S_DIR
    then show ?thesis
      using assms(1) k Some
      by (auto simp: Let_def descend_entry_def descend_dir_def entry_others_def entry_dirs_def l split: if_splits)
  next
    case S_LNK
    then obtain t where t: "read_linkname env (dw_name (new_child work e)) = Some t"
      "descend_nondir inp work (new_child work e) CHR ''l'' t ctrs = (acts, c)"
      using assms(1) k by (auto simp: Let_def descend_entry_def)
    then show ?thesis
      using Some S_LNK read_linkname_Some [OF t(1)]
      by (auto simp: descend_nondir_def entry_others_def entry_dirs_def split: if_splits)
  next
    case S_REG
    then show ?thesis
      using assms(1) k Some
      by (auto simp: Let_def descend_entry_def descend_nondir_def entry_others_def entry_dirs_def split: if_splits)
  next
    case S_OTHER
    then show ?thesis
      using assms(1) k Some by (auto simp: Let_def descend_entry_def entry_others_def entry_dirs_def)
  qed
qed

lemma descend_loop_value:
  assumes "descend_loop env inp work es ctrs = Some (acts, c)" "dw_level work \<le> di_max_level inp"
  shows "sum_list (map (value_of env inp) acts) =
    mset (concat (map (entry_others env inp work) es))
      + sum_list (map (everything env inp) (concat (map (entry_dirs env inp work) es)))"
  using assms(1)
proof (induction es arbitrary: ctrs acts)
  case (Cons e es)
  then obtain a c1 rest where e: "descend_entry env inp work e ctrs = Some (a, c1)"
    "descend_loop env inp work es c1 = Some (rest, c)" "acts = a @ rest"
    by (auto split: option.splits)
  show ?case
    using Cons.IH [OF e(2)] descend_entry_value [OF e(1) assms(2)] e(3) by (simp add: ac_simps)
qed simp

lemma descend_value:
  assumes "descend env inp work es = Some (acts, c)" "fs_opendir env (dw_name work) = Some es"
  shows "add_mset (handled_dir work) (sum_list (map (value_of env inp) acts)) = everything env inp work"
proof (cases "dw_level work \<le> di_max_level inp")
  case True
  then show ?thesis
    using descend_loop_value [of env inp work es no_counters acts c] assms
    by (simp add: descend_def everything.simps [of env inp work] entries_of_def dirs_below_def)
next
  case False
  then show ?thesis
    using assms by (simp add: descend_def everything.simps [of env inp work] entries_of_def dirs_below_def)
qed

lemma gather_value:
  fixes v :: "'a \<Rightarrow> 'b multiset"
  assumes "gather_results (map f as) = Some (q, h)"
    and "\<And>a q h. a \<in> set as \<Longrightarrow> f a = Some (q, h) \<Longrightarrow> mset h + sum_list (map v q) = u a"
  shows "mset h + sum_list (map v q) = sum_list (map u as)"
  using assms
proof (induction as arbitrary: q h)
  case (Cons a as)
  then obtain q1 h1 q2 h2 where a: "f a = Some (q1, h1)" "gather_results (map f as) = Some (q2, h2)" "q = q1 @ q2" "h = h1 @ h2"
    by (cases "f a") auto
  have "mset h2 + sum_list (map v q2) = sum_list (map u as)"
    using Cons.IH [OF a(2)] Cons.prems(2) by simp
  moreover have "mset h1 + sum_list (map v q1) = u a"
    using Cons.prems(2) [OF _ a(1)] by simp
  ultimately show ?case
    using a(3,4) by (simp add: ac_simps flip: \<open>mset h1 + sum_list (map v q1) = u a\<close>)
qed simp

lemma processdir_walk_value:
  "processdir_walk env inp fuel work = Some (q, h) \<Longrightarrow>
    mset h + sum_list (map (everything env inp) q) = everything env inp work"
proof (induction fuel arbitrary: work q h)
  case (Suc fuel)
  show ?case
  proof (cases "fs_opendir env (dw_name work)")
    case None
    then show ?thesis
      using Suc.prems by (simp add: everything.simps [of env inp work] entries_of_def dirs_below_def)
  next
    case (Some es)
    then obtain acts c q' h' where d: "descend env inp work es = Some (acts, c)" "h = handled_dir work # h'" "q = q'"
      "gather_results (map (\<lambda>a. case a of Enqueue w \<Rightarrow> Some ([w], []) | InSitu w \<Rightarrow> processdir_walk env inp fuel w
         | NonDir w type linkname \<Rightarrow> Some ([], [handled_entry w type linkname])) acts) = Some (q', h')"
      using Suc.prems by (auto split: option.splits)
    have "mset h' + sum_list (map (everything env inp) q') = sum_list (map (value_of env inp) acts)"
      by (rule gather_value [OF d(4)]) (auto dest: Suc.IH split: action.splits)
    then show ?thesis
      using descend_value [OF d(1) Some] d(2,3) by simp
  qed
qed simp

section \<open>The walk handles everything once\<close>

lemma walk_step_value:
  assumes "descent_step env inp s s'"
  shows "mset (ds_handled s') + sum_mset (image_mset (everything env inp) (ds_queue s')) =
    mset (ds_handled s) + sum_mset (image_mset (everything env inp) (ds_queue s))"
  using assms
proof cases
  case (work_on w q h)
  then obtain Q where "ds_queue s = add_mset w Q" by (metis multi_member_split)
  then show ?thesis
    using work_on(1) processdir_walk_value [OF work_on(3)] by (simp add: sum_list_mset ac_simps)
qed

lemma walk_value:
  assumes "(descent_step env inp)\<^sup>*\<^sup>* s s'"
  shows "mset (ds_handled s') + sum_mset (image_mset (everything env inp) (ds_queue s')) =
    mset (ds_handled s) + sum_mset (image_mset (everything env inp) (ds_queue s))"
  using assms by (induction rule: rtranclp_induct) (simp_all add: walk_step_value)

text \<open>Every link can be read and is shorter than the array.\<close>

definition links_ok :: "fs \<Rightarrow> bool" where
  "links_ok env \<longleftrightarrow> (\<forall>name. \<exists>t. fs_readlink env name = Some t \<and> length t < LINKNAME_SIZE)"

lemma descend_loop_ok:
  assumes "links_ok env"
  shows "\<exists>r. descend_loop env inp work es ctrs = Some r"
proof (induction es arbitrary: ctrs)
  case (Cons e es)
  have "read_linkname env n \<noteq> None" for n
  proof -
    obtain t where "fs_readlink env n = Some t" "length t < LINKNAME_SIZE"
      using assms by (auto simp: links_ok_def)
    then show ?thesis by (simp add: read_linkname_def)
  qed
  then have "descend_entry env inp work e ctrs \<noteq> None"
    by (simp add: descend_entry_def Let_def del: not_None_eq split: option.splits st_kind.splits)
  then obtain acts c where "descend_entry env inp work e ctrs = Some (acts, c)"
    by fastforce
  then show ?case using Cons [of c] by auto
qed simp

lemma descend_insitu_level:
  assumes "descend_loop env inp work es ctrs = Some (acts, c)" "InSitu w \<in> set acts"
  shows "dw_level w = dw_level work + 1 \<and> dw_level w \<le> di_max_level inp"
  using assms
proof (induction es arbitrary: ctrs acts)
  case (Cons e es)
  then obtain a c1 rest where e: "descend_entry env inp work e ctrs = Some (a, c1)"
    "descend_loop env inp work es c1 = Some (rest, c)" "acts = a @ rest"
    by (auto split: option.splits)
  have "dw_level w = dw_level work + 1 \<and> dw_level w \<le> di_max_level inp" if "InSitu w \<in> set a"
    using that e(1)
    by (auto simp: descend_entry_def descend_dir_def descend_nondir_def new_child_def Let_def
        split: if_splits option.splits st_kind.splits)
  then show ?case using Cons e by auto
qed simp

lemma gather_ok: "(\<And>a. a \<in> set as \<Longrightarrow> \<exists>r. f a = Some r) \<Longrightarrow> \<exists>r. gather_results (map f as) = Some r"
proof (induction as)
  case (Cons a as)
  then obtain q h r where "f a = Some (q, h)" "gather_results (map f as) = Some r"
    by (metis list.set_intros surj_pair)
  then show ?case by simp
qed simp

lemma processdir_walk_ok:
  assumes "links_ok env"
  shows "walk_fuel inp work \<le> fuel \<Longrightarrow> \<exists>r. processdir_walk env inp fuel work = Some r"
proof (induction fuel arbitrary: work)
  case (Suc fuel)
  show ?case
  proof (cases "fs_opendir env (dw_name work)")
    case (Some es)
    obtain acts c where d: "descend env inp work es = Some (acts, c)"
      using descend_loop_ok [OF assms, of inp work es no_counters] by (fastforce simp: descend_def)
    have "\<exists>r. processdir_walk env inp fuel w = Some r" if "InSitu w \<in> set acts" for w
    proof (rule Suc.IH)
      have "dw_level w = dw_level work + 1" "dw_level w \<le> di_max_level inp"
        using descend_insitu_level [of env inp work es no_counters acts c w] d that
        by (auto simp: descend_def split: if_splits)
      then show "walk_fuel inp w \<le> fuel"
        using Suc.prems by (simp add: walk_fuel_def)
    qed
    then have "\<exists>r. gather_results (map (\<lambda>a. case a of Enqueue w \<Rightarrow> Some ([w], []) | InSitu w \<Rightarrow> processdir_walk env inp fuel w
         | NonDir w type linkname \<Rightarrow> Some ([], [handled_entry w type linkname])) acts) = Some r"
      by (intro gather_ok) (auto split: action.splits)
    then show ?thesis
      using Some d by auto
  qed simp
qed (simp add: walk_fuel_def)

lemma walk_handled_grows: "descent_step env inp s s' \<Longrightarrow> length (ds_handled s) < length (ds_handled s')"
proof (induction rule: descent_step.induct)
  case (work_on w s q h)
  then have "h \<noteq> []"
    unfolding walk_fuel_def by (auto split: option.splits)
  then show ?case by simp
qed

section \<open>How much is enqueued\<close>

fun is_enqueue :: "action \<Rightarrow> bool" where
  "is_enqueue (Enqueue w) = True"
| "is_enqueue _ = False"

fun is_insitu :: "action \<Rightarrow> bool" where
  "is_insitu (InSitu w) = True"
| "is_insitu _ = False"

fun is_nondir :: "action \<Rightarrow> bool" where
  "is_nondir (NonDir w t l) = True"
| "is_nondir _ = False"

definition counted_ok :: "descend_input \<Rightarrow> descend_counters \<Rightarrow> action list \<Rightarrow> descend_counters \<Rightarrow> bool" where
  "counted_ok inp ctrs acts c \<longleftrightarrow>
     length (filter is_enqueue acts) + min (dc_dirs ctrs) (di_subdir_limit inp) = min (dc_dirs c) (di_subdir_limit inp)
     \<and> dc_dirs c = dc_dirs ctrs + length (filter is_enqueue acts) + length (filter is_insitu acts)
     \<and> dc_dirs_insitu c = dc_dirs_insitu ctrs + length (filter is_insitu acts)
     \<and> dc_nondirs_processed c = dc_nondirs_processed ctrs + length (filter is_nondir acts)"

lemma counted_okD:
  assumes "counted_ok inp ctrs acts c"
  shows "length (filter is_enqueue acts) + min (dc_dirs ctrs) (di_subdir_limit inp) = min (dc_dirs c) (di_subdir_limit inp)"
    "dc_dirs c = dc_dirs ctrs + length (filter is_enqueue acts) + length (filter is_insitu acts)"
    "dc_dirs_insitu c = dc_dirs_insitu ctrs + length (filter is_insitu acts)"
    "dc_nondirs_processed c = dc_nondirs_processed ctrs + length (filter is_nondir acts)"
  using assms unfolding counted_ok_def by blast+

lemma counted_ok_Nil [simp]: "counted_ok inp ctrs [] ctrs"
  by (simp add: counted_ok_def)

lemma counted_ok_append: "counted_ok inp ctrs a c1 \<Longrightarrow> counted_ok inp c1 b c \<Longrightarrow> counted_ok inp ctrs (a @ b) c"
  unfolding counted_ok_def filter_append length_append by (elim conjE, intro conjI) linarith+

lemma descend_dir_counted:
  assumes "descend_dir inp work child ctrs = (acts, c)" "di_processdir inp" "0 < di_subdir_limit inp"
  shows "counted_ok inp ctrs acts c"
  using assms by (auto simp: descend_dir_def counted_ok_def split: if_splits)

lemma descend_nondir_counted:
  assumes "descend_nondir inp work child t l ctrs = (acts, c)"
  shows "counted_ok inp ctrs acts c"
  using assms by (auto simp: descend_nondir_def counted_ok_def split: if_splits)

lemma descend_entry_counted:
  assumes "descend_entry env inp work e ctrs = Some (acts, c)" "di_processdir inp" "0 < di_subdir_limit inp"
  shows "counted_ok inp ctrs acts c"
  using assms
  by (auto simp: descend_entry_def Let_def intro: descend_dir_counted descend_nondir_counted
      split: if_splits option.splits st_kind.splits)

lemma descend_loop_counted:
  assumes "descend_loop env inp work es ctrs = Some (acts, c)" "di_processdir inp" "0 < di_subdir_limit inp"
  shows "counted_ok inp ctrs acts c"
  using assms(1)
proof (induction es arbitrary: ctrs acts)
  case (Cons e es)
  then show ?case
    using descend_entry_counted [OF _ assms(2,3)] by (fastforce intro: counted_ok_append split: option.splits)
qed simp

section \<open>Properties\<close>

definition tiny_entries :: "dirent list" where
  "tiny_entries = [\<lparr>d_name = ''a'', d_type = DIR, d_ino = 1\<rparr>, \<lparr>d_name = ''b'', d_type = DIR, d_ino = 2\<rparr>,
     \<lparr>d_name = ''l'', d_type = LNK, d_ino = 3\<rparr>]"

definition tiny_fs :: fs where
  "tiny_fs = \<lparr>fs_opendir = (\<lambda>p. Some (if p = ''r'' then tiny_entries else [])),
     fs_lstat = (\<lambda>_. None), fs_readlink = (\<lambda>_. Some ''t'')\<rparr>"

definition tiny_descend :: "nat \<Rightarrow> descend_input" where
  "tiny_descend n = \<lparr>di_min_level = 0, di_max_level = 5, di_subdir_limit = n, di_skip = trie_alloc, di_skip_db = True,
     di_processdir = True, di_processnondir = True\<rparr>"

definition tiny_work :: dwork where
  "tiny_work = \<lparr>dw_name = ''r'', dw_basename_len = 1, dw_level = 0, dw_ino = 9, dw_pinode = 0, dw_recursion_level = 0\<rparr>"

lemma tiny_links_ok: "links_ok tiny_fs"
  by (simp add: links_ok_def tiny_fs_def LINKNAME_SIZE_def)

lemma tiny_skip: "skip_entry (tiny_descend n) name \<longleftrightarrow> name = ''db.db''"
  by (simp add: skip_entry_def tiny_descend_def trie_search_def)

lemma tiny_fields:
  "fs_opendir tiny_fs p = Some (if p = ''r'' then tiny_entries else [])" "fs_readlink tiny_fs p = Some ''t''"
  "di_max_level (tiny_descend n) = 5" "di_min_level (tiny_descend n) = 0" "di_processdir (tiny_descend n)"
  "di_processnondir (tiny_descend n)" "di_subdir_limit (tiny_descend n) = n"
  "dw_name tiny_work = ''r''" "dw_level tiny_work = 0" "dw_ino tiny_work = 9" "dw_pinode tiny_work = 0"
  "dw_recursion_level tiny_work = 0"
  by (simp_all add: tiny_fs_def tiny_descend_def tiny_work_def)

lemmas tiny_simps = tiny_skip tiny_fields tiny_entries_def descend_def descend_entry_def descend_dir_def
  descend_nondir_def new_child_def try_skip_lstat_def read_linkname_def handled_dir_def handled_entry_def
  no_counters_def Let_def LINKNAME_SIZE_def

definition tiny_sub :: dwork where
  "tiny_sub = \<lparr>dw_name = ''r/a'', dw_basename_len = 1, dw_level = 1, dw_ino = 1, dw_pinode = 9, dw_recursion_level = 0\<rparr>"

lemma tiny_descend_result:
  "descend tiny_fs (tiny_descend 1) tiny_work tiny_entries = Some ([Enqueue tiny_sub,
     InSitu \<lparr>dw_name = ''r/b'', dw_basename_len = 1, dw_level = 1, dw_ino = 2, dw_pinode = 9, dw_recursion_level = 1\<rparr>,
     NonDir \<lparr>dw_name = ''r/l'', dw_basename_len = 1, dw_level = 1, dw_ino = 3, dw_pinode = 9, dw_recursion_level = 0\<rparr> CHR ''l'' ''t''],
     \<lparr>dc_dirs = 2, dc_dirs_insitu = 1, dc_nondirs = 1, dc_nondirs_processed = 1\<rparr>)"
  by (simp add: tiny_simps tiny_sub_def)

lemma tiny_sub_walk:
  "processdir_walk tiny_fs (tiny_descend 1) (Suc (Suc n)) tiny_work =
     Some ([tiny_sub], [Dir ''r'' 0 0, Dir ''r/b'' 1 9, Entry ''r/l'' 1 9 CHR ''l'' ''t''])"
  "processdir_walk tiny_fs (tiny_descend 1) (Suc n) tiny_sub = Some ([], [Dir ''r/a'' 1 9])"
  using tiny_descend_result
  by (simp_all add: tiny_fields) (simp_all add: tiny_simps tiny_sub_def)

lemma everything_ne: "everything env inp w \<noteq> {#}"
  by (simp add: everything.simps [of env inp w])

lemma tiny_run:
  "(descent_step tiny_fs ((tiny_descend 0)\<lparr>di_subdir_limit := 1\<rparr>))\<^sup>*\<^sup>* \<lparr>ds_queue = {#tiny_work#}, ds_handled = []\<rparr>
     \<lparr>ds_queue = {#}, ds_handled = [Dir ''r'' 0 0, Dir ''r/b'' 1 9, Entry ''r/l'' 1 9 CHR ''l'' ''t'', Dir ''r/a'' 1 9]\<rparr>"
proof -
  let ?i = "(tiny_descend 0)\<lparr>di_subdir_limit := 1\<rparr>"
  let ?s0 = "\<lparr>ds_queue = {#tiny_work#}, ds_handled = []\<rparr>"
  let ?h = "[Dir ''r'' 0 0, Dir ''r/b'' 1 9, Entry ''r/l'' 1 9 CHR ''l'' ''t'']"
  let ?s1 = "\<lparr>ds_queue = {#tiny_sub#}, ds_handled = ?h\<rparr>"
  let ?s2 = "\<lparr>ds_queue = {#}, ds_handled = ?h @ [Dir ''r/a'' 1 9]\<rparr>"
  have i: "?i = tiny_descend 1" by (simp add: tiny_descend_def)
  have f: "walk_fuel ?i tiny_work = Suc (Suc 4)" "walk_fuel ?i tiny_sub = Suc 4"
    unfolding i by (simp_all add: walk_fuel_def tiny_fields tiny_sub_def)
  have w: "processdir_walk tiny_fs ?i (walk_fuel ?i tiny_work) tiny_work = Some ([tiny_sub], ?h)"
    "processdir_walk tiny_fs ?i (walk_fuel ?i tiny_sub) tiny_sub = Some ([], [Dir ''r/a'' 1 9])"
    unfolding f unfolding i by (rule tiny_sub_walk)+
  have "descent_step tiny_fs ?i ?s0 ?s1"
    using descent_step.work_on [of tiny_work ?s0, OF _ w(1)] by simp
  moreover have "descent_step tiny_fs ?i ?s1 ?s2"
    using descent_step.work_on [of tiny_sub ?s1, OF _ w(2)] by simp
  ultimately have "(descent_step tiny_fs ?i)\<^sup>*\<^sup>* ?s0 ?s2"
    by (meson converse_rtranclp_into_rtranclp rtranclp.rtrancl_refl)
  then show ?thesis by simp
qed

text \<open>C21: With any number of threads, in whatever order they take the directories, a walk over links that can
  be read handles exactly what is below its root, each directory and each file once; how many
  subdirectories are enqueued and how many are worked on at once makes no difference.  A walk that is not
  complete can take a step, and every step handles something.\<close>

theorem walk_handles_everything:
  assumes "links_ok env"
    and "(descent_step env (inp\<lparr>di_subdir_limit := n\<rparr>))\<^sup>*\<^sup>* \<lparr>ds_queue = {#root#}, ds_handled = []\<rparr> s"
  shows "mset (ds_handled s) \<subseteq># everything env inp root
    \<and> (ds_queue s = {#} \<longleftrightarrow> mset (ds_handled s) = everything env inp root)
    \<and> (ds_queue s = {#} \<or> (\<exists>s'. descent_step env (inp\<lparr>di_subdir_limit := n\<rparr>) s s'))
    \<and> (\<forall>s'. descent_step env (inp\<lparr>di_subdir_limit := n\<rparr>) s s' \<longrightarrow> length (ds_handled s) < length (ds_handled s'))"
proof (intro conjI allI impI)
  have e: "everything env (inp\<lparr>di_subdir_limit := n\<rparr>) = everything env inp" by (simp add: fun_eq_iff)
  have v: "mset (ds_handled s) + sum_mset (image_mset (everything env inp) (ds_queue s)) = everything env inp root"
    using walk_value [OF assms(2)] by (simp add: e)
  then show "mset (ds_handled s) \<subseteq># everything env inp root"
    by (metis mset_subset_eq_add_left)
  show "ds_queue s = {#} \<longleftrightarrow> mset (ds_handled s) = everything env inp root"
    using v everything_ne [of env inp] by (cases "ds_queue s") auto
  show "ds_queue s = {#} \<or> (\<exists>s'. descent_step env (inp\<lparr>di_subdir_limit := n\<rparr>) s s')"
  proof (cases "ds_queue s = {#}")
    case False
    then obtain w where w: "w \<in># ds_queue s" by auto
    obtain q h where "processdir_walk env (inp\<lparr>di_subdir_limit := n\<rparr>)
        (walk_fuel (inp\<lparr>di_subdir_limit := n\<rparr>) w) w = Some (q, h)"
      using processdir_walk_ok [OF assms(1) order_refl] by fastforce
    from descent_step.work_on [OF w this] show ?thesis by blast
  qed simp
qed (rule walk_handled_grows)

lemma walk_handles_everything_witness:
  "\<exists>s :: descent. ds_queue s = {#} \<and> length (ds_handled s) = 4
     \<and> mset (ds_handled s) = everything tiny_fs (tiny_descend 0) tiny_work"
proof -
  let ?s2 = "\<lparr>ds_queue = {#}, ds_handled = [Dir ''r'' 0 0, Dir ''r/b'' 1 9, Entry ''r/l'' 1 9 CHR ''l'' ''t'', Dir ''r/a'' 1 9]\<rparr>"
  from walk_handles_everything [OF tiny_links_ok tiny_run]
  have "mset (ds_handled ?s2) = everything tiny_fs (tiny_descend 0) tiny_work" by simp
  then show ?thesis by (intro exI [where x = ?s2] conjI) simp_all
qed

text \<open>With a limit for subdirectories, a directory enqueues as many of its subdirectories as the limit
  allows and works on all others at once, and the counters say so.\<close>

theorem descend_limits_queue:
  assumes "descend env inp work es = Some (acts, c)" "di_processdir inp" "0 < di_subdir_limit inp"
  shows "length (filter is_enqueue acts) = min (dc_dirs c) (di_subdir_limit inp)
    \<and> length (filter is_insitu acts) = dc_dirs c - di_subdir_limit inp
    \<and> dc_dirs_insitu c = dc_dirs c - di_subdir_limit inp
    \<and> dc_nondirs_processed c = length (filter is_nondir acts)"
proof -
  have "counted_ok inp no_counters acts c"
    using assms descend_loop_counted [of env inp work es no_counters acts c] by (auto simp: descend_def split: if_splits)
  note d = counted_okD [OF this]
  have "length (filter is_enqueue acts) = min (dc_dirs c) (di_subdir_limit inp)"
    using d(1) by (simp add: no_counters_def)
  moreover have "dc_dirs c = length (filter is_enqueue acts) + length (filter is_insitu acts)"
    using d(2) by (simp add: no_counters_def)
  moreover have "dc_dirs_insitu c = length (filter is_insitu acts)" "dc_nondirs_processed c = length (filter is_nondir acts)"
    using d(3,4) by (simp_all add: no_counters_def)
  ultimately show ?thesis by linarith
qed

lemma descend_limits_queue_witness:
  "\<exists>acts c. descend tiny_fs (tiny_descend 1) tiny_work (the (fs_opendir tiny_fs ''r'')) = Some (acts, c)
    \<and> length (filter is_enqueue acts) = 1 \<and> dc_dirs_insitu c = 1 \<and> dc_dirs c = 2"
proof -
  obtain acts c where d: "descend tiny_fs (tiny_descend 1) tiny_work tiny_entries = Some (acts, c)" "dc_dirs c = 2"
    by (rule that [OF tiny_descend_result]) simp
  have e: "the (fs_opendir tiny_fs ''r'') = tiny_entries" and l: "di_processdir (tiny_descend 1)" "di_subdir_limit (tiny_descend 1) = 1"
    by (simp_all add: tiny_fields)
  have "length (filter is_enqueue acts) = 1 \<and> dc_dirs_insitu c = 1"
    using descend_limits_queue [OF d(1) l(1)] d(2) l(2) by simp
  then show ?thesis
    unfolding e using d by blast
qed

end
