(* ===== verification/Work.thy ===== *)
theory Work
  imports Utils
begin

text \<open>
  Work items in memory and on disk: \<open>new_work_with_name\<close> of \<open>src/src/bf.c\<close>, \<open>src/src/compress.c\<close>, and how an
  item is written to a swap file and read back (\<open>src/src/descend.c\<close>, \<open>src/src/gufi_query/process_queries.c\<close>,
  \<open>src/src/QueuePerThreadPool.c\<close>).  An allocation is the list of its bytes; the header \<open>compressed_t\<close> takes
  the first 16, as on a 64 bit machine.  zlib is a parameter: \<open>deflate s n\<close> are at most \<open>n\<close> bytes or an error,
  \<open>inflate s n\<close> what a stream at the beginning of \<open>s\<close> holds, if it is at most \<open>n\<close> bytes.
\<close>

section \<open>The header\<close>

definition COMP_OFFSET :: nat where "COMP_OFFSET = 16"

fun le_bytes :: "nat \<Rightarrow> nat \<Rightarrow> string" where
  "le_bytes 0 n = []"
| "le_bytes (Suc k) n = char_of (n mod 256) # le_bytes k (n div 256)"

fun le_value :: "string \<Rightarrow> nat" where
  "le_value [] = 0"
| "le_value (c # cs) = of_char c + 256 * le_value cs"

record compressed_t =
  cm_yes :: nat
  cm_orig_len :: nat
  cm_len :: nat

text \<open>\<open>int8_t\<close> at 0, \<open>uint16_t\<close> at 2, \<open>size_t\<close> at 8; the bytes between are not used.\<close>

definition put_header :: "compressed_t \<Rightarrow> string \<Rightarrow> string" where
  "put_header c junk =
     le_bytes 1 (cm_yes c) @ take 1 junk @ le_bytes 2 (cm_orig_len c) @ take 4 junk @ le_bytes 8 (cm_len c)"

definition get_header :: "string \<Rightarrow> compressed_t" where
  "get_header b = \<lparr>cm_yes = le_value (take 1 b), cm_orig_len = le_value (take 2 (drop 2 b)),
     cm_len = le_value (take 8 (drop 8 b))\<rparr>"

lemma length_le_bytes [simp]: "length (le_bytes k n) = k"
  by (induction k arbitrary: n) simp_all

lemma le_value_bytes: "le_value (le_bytes k n) = n mod 256 ^ k"
proof (induction k arbitrary: n)
  case (Suc k)
  have "n mod 256 + 256 * (n div 256 mod 256 ^ k) = n mod (256 * 256 ^ k)"
    by (simp add: mod_mult2_eq)
  then show ?case using Suc by simp
qed simp

lemma length_put_header [simp]: "4 \<le> length junk \<Longrightarrow> length (put_header c junk) = 16"
  by (simp add: put_header_def)

lemma get_put_header:
  assumes "4 \<le> length junk"
  shows "get_header (put_header c junk @ rest) = \<lparr>cm_yes = cm_yes c mod 256, cm_orig_len = cm_orig_len c mod 65536,
    cm_len = cm_len c mod 2 ^ 64\<rparr>"
proof -
  obtain j rest' where j: "junk = j # rest'" "3 \<le> length rest'"
    using assms by (cases junk) auto
  have "take 8 (drop 8 (put_header c junk @ rest)) = le_bytes 8 (cm_len c)"
    using assms by (simp add: put_header_def)
  moreover have "take 2 (drop 2 (put_header c junk @ rest)) = le_bytes 2 (cm_orig_len c)"
    using assms by (simp add: put_header_def j)
  moreover have "take 1 (put_header c junk @ rest) = le_bytes 1 (cm_yes c)"
    by (simp add: put_header_def)
  ultimately show ?thesis
    by (simp add: get_header_def le_value_bytes)
qed

section \<open>Compression\<close>

text \<open>A block that does not get smaller stays as it is.  \<open>junk\<close> is what fresh memory holds.\<close>

definition compress_struct :: "bool \<Rightarrow> (string \<Rightarrow> nat \<Rightarrow> string option) \<Rightarrow> string \<Rightarrow> string \<Rightarrow> string" where
  "compress_struct on deflate junk src =
     (let struct_len = length src
      in if on then
           case deflate (drop COMP_OFFSET src) (struct_len - COMP_OFFSET) of
             None \<Rightarrow> src
           | Some z \<Rightarrow>
               let len = length z + COMP_OFFSET
               in if len < struct_len
                  then put_header \<lparr>cm_yes = 1, cm_orig_len = struct_len, cm_len = len\<rparr> junk @ z @ take COMP_OFFSET junk
                  else src
         else src)"

text \<open>
  The length in the header counts the header too, but is given to zlib as that of the stream behind it.  The first part
  of the result is how many bytes behind the block zlib is told to read, \<open>beyond\<close> what the memory there holds.  The second
  is the new block; \<open>None\<close>: the program ends with an error.
\<close>

definition decompress_struct ::
    "(string \<Rightarrow> nat \<Rightarrow> string option) \<Rightarrow> string \<Rightarrow> string \<Rightarrow> string \<Rightarrow> nat \<times> string option" where
  "decompress_struct inflate junk beyond src =
     (let c = get_header src
      in if cm_yes c \<noteq> 0 then
           (COMP_OFFSET + cm_len c - length src,
            map_option (\<lambda>x. put_header \<lparr>cm_yes = le_value (take 1 junk), cm_orig_len = le_value (take 2 junk),
                cm_len = length x\<rparr> junk @ x)
              (inflate (take (cm_len c) (drop COMP_OFFSET (src @ beyond))) (cm_orig_len c - COMP_OFFSET)))
         else (0, Some src))"

section \<open>Items and the swap file\<close>

text \<open>A C string in a block: \<open>None\<close> when reading runs behind the block.\<close>

definition read_cstr :: "nat \<Rightarrow> string \<Rightarrow> string option" where
  "read_cstr offset b = (if NUL \<in> set (drop offset b) then Some (takeWhile (\<lambda>c. c \<noteq> NUL) (drop offset b)) else None)"

text \<open>\<open>struct work\<close> (the header, then the other fields) and the name behind it.\<close>

definition work_name :: "string \<Rightarrow> string \<Rightarrow> string" where
  "work_name prefix basename = (if prefix = [] then basename else prefix @ ''/'' @ basename)"

definition new_work_block :: "string \<Rightarrow> string \<Rightarrow> string \<Rightarrow> string" where
  "new_work_block stored prefix basename =
     (let name_total = length prefix + 1 + length basename; name = work_name prefix basename
      in replicate COMP_OFFSET NUL @ stored @ name @ replicate (name_total + 1 - length name) NUL)"

text \<open>What is written for an item, \<open>None\<close> when that is more than the block; and the block that is read back.\<close>

definition generic_serialize :: "string \<Rightarrow> nat \<Rightarrow> string option" where
  "generic_serialize b len = (if len \<le> length b then Some (le_bytes 8 len @ take len b) else None)"

definition generic_deserialize :: "string \<Rightarrow> string option" where
  "generic_deserialize s =
     (let len = le_value (take 8 s)
      in if length s < 8 + len then None else Some (take len (drop 8 s)))"

definition work_serialize :: "nat \<Rightarrow> string \<Rightarrow> string option" where
  "work_serialize work_size w =
     (let len = (if cm_yes (get_header w) \<noteq> 0 then cm_len (get_header w) else work_size)
      in generic_serialize w len)"

text \<open>\<open>gqw_t\<close> has a header of its own in front of the \<open>struct work\<close>; \<open>gqw->work.compressed\<close> is the one behind it.\<close>

definition gqw_serialize :: "nat \<Rightarrow> string \<Rightarrow> string option" where
  "gqw_serialize gqw_size w =
     (let c = get_header (drop COMP_OFFSET w);
          len = (if cm_yes c \<noteq> 0 then cm_len c else gqw_size)
      in generic_serialize w len)"

text \<open>\<open>decompress_work\<close>, \<open>decompress_gqw\<close>: the name is behind the struct.\<close>

definition decompress_work ::
    "nat \<Rightarrow> (string \<Rightarrow> nat \<Rightarrow> string option) \<Rightarrow> string \<Rightarrow> string \<Rightarrow> string \<Rightarrow> string option" where
  "decompress_work struct_size inflate junk beyond src =
     (case snd (decompress_struct inflate junk beyond src) of None \<Rightarrow> None | Some b \<Rightarrow> read_cstr struct_size b)"

text \<open>What becomes of an item in a swap file.\<close>

definition swapped :: "string option \<Rightarrow> string option" where
  "swapped s = (case s of None \<Rightarrow> None | Some b \<Rightarrow> generic_deserialize b)"

lemma swapped_serialize: "len \<le> length b \<Longrightarrow> len < 2 ^ 64 \<Longrightarrow> swapped (generic_serialize b len) = Some (take len b)"
  by (simp add: swapped_def generic_serialize_def generic_deserialize_def le_value_bytes)

section \<open>Compressing and decompressing\<close>

text \<open>zlib gives back what it compressed, whatever follows the stream, and keeps to the room it is given.\<close>

definition zlib_ok :: "(string \<Rightarrow> nat \<Rightarrow> string option) \<Rightarrow> (string \<Rightarrow> nat \<Rightarrow> string option) \<Rightarrow> bool" where
  "zlib_ok deflate inflate \<longleftrightarrow> (\<forall>s n z. deflate s n = Some z \<longrightarrow> length z \<le> n
     \<and> (\<forall>rest m. length s \<le> m \<longrightarrow> inflate (z @ rest) m = Some s))"

lemma get_header_zero: "get_header (replicate COMP_OFFSET NUL @ rest) = \<lparr>cm_yes = 0, cm_orig_len = 0, cm_len = 0\<rparr>"
proof -
  have z: "le_value (replicate n NUL) = 0" for n by (induction n) simp_all
  show ?thesis
    using z by (simp add: get_header_def COMP_OFFSET_def)
qed

lemma compressed_header:
  assumes "16 \<le> length junk" "length src < 65536" "compress_struct on deflate junk src \<noteq> src"
  obtains z where "deflate (drop 16 src) (length src - 16) = Some z" "length z + 16 < length src"
    "compress_struct on deflate junk src = put_header \<lparr>cm_yes = 1, cm_orig_len = length src, cm_len = length z + 16\<rparr> junk
       @ z @ take 16 junk"
    "get_header (compress_struct on deflate junk src @ rest) = \<lparr>cm_yes = 1, cm_orig_len = length src, cm_len = length z + 16\<rparr>"
proof -
  obtain z where z: "deflate (drop 16 src) (length src - 16) = Some z" "length z + 16 < length src"
    "compress_struct on deflate junk src = put_header \<lparr>cm_yes = 1, cm_orig_len = length src, cm_len = length z + 16\<rparr> junk
       @ z @ take 16 junk"
    using assms(3) by (auto simp: compress_struct_def COMP_OFFSET_def Let_def split: if_splits option.splits)
  have "get_header (compress_struct on deflate junk src @ rest) = \<lparr>cm_yes = 1, cm_orig_len = length src, cm_len = length z + 16\<rparr>"
    unfolding z(3) append_assoc using assms z(2) by (subst get_put_header) simp_all
  then show ?thesis using that z by blast
qed

lemma work_header:
  "get_header (new_work_block stored prefix basename) = \<lparr>cm_yes = 0, cm_orig_len = 0, cm_len = 0\<rparr>"
  by (simp add: new_work_block_def Let_def get_header_zero)

lemma decompress_compressed:
  fixes on deflate junk src
  defines "b \<equiv> compress_struct on deflate junk src"
  defines "b' \<equiv> take (cm_len (get_header b)) b"
  assumes "zlib_ok deflate inflate" "16 \<le> length junk" "16 \<le> length junk'" "length src < 65536" "b \<noteq> src"
  shows "map_option (drop 16) (snd (decompress_struct inflate junk' beyond b)) = Some (drop 16 src)"
    and "fst (decompress_struct inflate junk' beyond b) = 0"
    and "map_option (drop 16) (snd (decompress_struct inflate junk' beyond b')) = Some (drop 16 src)"
    and "fst (decompress_struct inflate junk' beyond b') = 16"
    and "cm_len (get_header b) \<le> length b" and "cm_len (get_header b) < 65536" and "cm_yes (get_header b) \<noteq> 0"
proof -
  obtain z where z: "deflate (drop 16 src) (length src - 16) = Some z" "length z + 16 < length src"
    "b = put_header \<lparr>cm_yes = 1, cm_orig_len = length src, cm_len = length z + 16\<rparr> junk @ z @ take 16 junk"
    "get_header (b @ []) = \<lparr>cm_yes = 1, cm_orig_len = length src, cm_len = length z + 16\<rparr>"
    unfolding b_def using compressed_header [OF assms(4,6) assms(7) [unfolded b_def]] .
  have h: "get_header b = \<lparr>cm_yes = 1, cm_orig_len = length src, cm_len = length z + 16\<rparr>"
    using z(4) by simp
  have l: "length (put_header c junk) = 16" "length (put_header c junk') = 16" for c
    using assms(4,5) by simp_all
  have i: "inflate (z @ rest) (length src - 16) = Some (drop 16 src)" for rest
    using assms(3) z(1) by (auto simp: zlib_ok_def)
  have b': "b' = put_header \<lparr>cm_yes = 1, cm_orig_len = length src, cm_len = length z + 16\<rparr> junk @ z"
    unfolding b'_def h unfolding z(3) by (simp add: l)
  have "get_header (put_header c junk @ z) = get_header (put_header c junk @ z @ take 16 junk)" for c
    using assms(4) by (simp add: get_header_def)
  then have h': "get_header b' = \<lparr>cm_yes = 1, cm_orig_len = length src, cm_len = length z + 16\<rparr>"
    using h unfolding b' z(3) by simp
  have d: "take (length z + 16) (drop 16 (b' @ beyond)) = z @ take 16 beyond"
    "take (length z + 16) (drop 16 (b @ beyond)) = z @ take 16 junk"
    using assms(4) unfolding b' z(3) by (simp_all add: l)
  have len: "length b = 32 + length z" "length b' = 16 + length z"
    using assms(4) unfolding b' z(3) by (simp_all add: l)
  show "map_option (drop 16) (snd (decompress_struct inflate junk' beyond b)) = Some (drop 16 src)"
    "map_option (drop 16) (snd (decompress_struct inflate junk' beyond b')) = Some (drop 16 src)"
    unfolding decompress_struct_def Let_def h h' COMP_OFFSET_def by (simp_all add: d i del: drop_append) (simp_all add: l)
  show "fst (decompress_struct inflate junk' beyond b) = 0" "fst (decompress_struct inflate junk' beyond b') = 16"
    unfolding decompress_struct_def Let_def h h' COMP_OFFSET_def by (simp_all add: len)
  show "cm_len (get_header b) \<le> length b" "cm_len (get_header b) < 65536" "cm_yes (get_header b) \<noteq> 0"
    using z(2) assms(6) by (simp_all add: h len)
qed

text \<open>Whether a \<open>gqw_t\<close> is compressed, which its own header says, does not matter for what is written.\<close>

lemma gqw_serialize_ignores_header:
  assumes "4 \<le> length junk" "4 \<le> length junk'"
  shows "map_option length (gqw_serialize n (put_header c junk @ rest)) = map_option length (gqw_serialize n (put_header c' junk' @ rest))"
  using assms by (simp add: gqw_serialize_def generic_serialize_def Let_def COMP_OFFSET_def)

section \<open>Properties\<close>

text \<open>
  C31: A \<open>struct work\<close> that was compressed is decompressed to what it was, its header excepted, whatever fresh memory
  contained, and zlib then reads nothing behind the block.  Written to a swap file by \<open>work_serialize\<close> and read back it is
  still decompressed to what it was, but zlib is told to read 16 bytes behind the block, whatever they hold.  The items
  of \<open>gufi_query\<close>, which have a function of their own for this, are not covered.
\<close>

theorem compressed_work_roundtrip:
  assumes "zlib_ok deflate inflate" "16 \<le> length junk" "16 \<le> length junk'"
    and "16 \<le> length src" "length src < 65536" "cm_yes (get_header src) = 0" "b = compress_struct on deflate junk src"
  shows "map_option (drop 16) (snd (decompress_struct inflate junk' beyond b)) = Some (drop 16 src)
    \<and> fst (decompress_struct inflate junk' beyond b) = 0
    \<and> (b = src
       \<or> (\<exists>b'. swapped (work_serialize n b) = Some b'
            \<and> map_option (drop 16) (snd (decompress_struct inflate junk' beyond b')) = Some (drop 16 src)
            \<and> fst (decompress_struct inflate junk' beyond b') = 16))"
proof (cases "b = src")
  case True
  then show ?thesis using assms(6) by (simp add: decompress_struct_def Let_def)
next
  case False
  note d = decompress_compressed [OF assms(1-3,5) False [unfolded assms(7)], folded assms(7)]
  have "swapped (work_serialize n b) = Some (take (cm_len (get_header b)) b)"
    using d(5-7) by (simp add: work_serialize_def Let_def swapped_serialize)
  then show ?thesis using d(1-4) by blast
qed

text \<open>A stream of one byte for nothing but zeros.\<close>

definition tiny_deflate :: "string \<Rightarrow> nat \<Rightarrow> string option" where
  "tiny_deflate s n = (if s = replicate 24 NUL \<and> 0 < n then Some [NUL] else None)"

definition tiny_inflate :: "string \<Rightarrow> nat \<Rightarrow> string option" where
  "tiny_inflate s n = (if take 1 s = [NUL] \<and> 24 \<le> n then Some (replicate 24 NUL) else None)"

lemma compressed_work_roundtrip_witness:
  "map_option (drop 16) (snd (decompress_struct tiny_inflate (replicate 16 NUL) ''xyz''
     (compress_struct True tiny_deflate (replicate 16 NUL) (replicate 40 NUL)))) = Some (replicate 24 NUL)"
proof -
  have z: "zlib_ok tiny_deflate tiny_inflate"
    by (auto simp: zlib_ok_def tiny_deflate_def tiny_inflate_def split: if_splits)
  have "replicate 40 NUL = replicate COMP_OFFSET NUL @ replicate 24 NUL"
    by (simp add: COMP_OFFSET_def flip: replicate_add)
  then have "cm_yes (get_header (replicate 40 NUL)) = 0"
    by (simp only: get_header_zero compressed_t.simps)
  from compressed_work_roundtrip [OF z _ _ _ _ this refl, of "replicate 16 NUL" "replicate 16 NUL" "''xyz''" True 40]
  show ?thesis by simp
qed

text \<open>An item that is not compressed loses its name in a swap file: only the struct is written, and the
  name the item is given afterwards begins where the memory of the item ends.\<close>

theorem swapped_work_loses_name:
  assumes "NUL \<notin> set (work_name prefix basename)" "16 + length stored < 2 ^ 64"
  shows "read_cstr (16 + length stored) (new_work_block stored prefix basename) = Some (work_name prefix basename)
    \<and> (\<exists>b. swapped (work_serialize (16 + length stored) (new_work_block stored prefix basename)) = Some b
        \<and> length b = 16 + length stored \<and> read_cstr (16 + length stored) b = None)"
proof -
  let ?w = "new_work_block stored prefix basename"
  let ?n = "work_name prefix basename"
  have l: "length ?n \<le> length prefix + 1 + length basename" by (simp add: work_name_def)
  obtain k where w: "?w = replicate 16 NUL @ stored @ ?n @ NUL # replicate k NUL"
  proof -
    obtain k where "length prefix + 1 + length basename + 1 - length ?n = Suc k"
      using l by (metis Suc_diff_le add.commute plus_1_eq_Suc)
    then show ?thesis using that by (simp add: new_work_block_def Let_def COMP_OFFSET_def)
  qed
  have "drop (16 + length stored) ?w = ?n @ NUL # replicate k NUL" by (simp add: w)
  then have "read_cstr (16 + length stored) ?w = Some ?n"
    using assms(1) takeWhile_append2 [of ?n "\<lambda>c. c \<noteq> NUL" "NUL # replicate k NUL"]
    by (fastforce simp: read_cstr_def)
  moreover have "16 + length stored \<le> length ?w" by (simp add: w)
  then have "swapped (work_serialize (16 + length stored) ?w) = Some (take (16 + length stored) ?w)"
    using assms(2) by (simp add: work_serialize_def work_header Let_def swapped_serialize)
  moreover have "length (take (16 + length stored) ?w) = 16 + length stored" by (simp add: w)
  ultimately show ?thesis by (simp add: read_cstr_def)
qed

lemma swapped_work_loses_name_witness:
  "read_cstr 20 (new_work_block ''abcd'' ''r'' ''x'') = Some ''r/x''"
  using swapped_work_loses_name [of "''r''" "''x''" "''abcd''"] by (simp add: work_name_def)

end
