(* ===== verification/Index.thy ===== *)
theory Index
  imports TraceScan Summary ExtAttach
begin

unbundle bit_operations_syntax

text \<open>
  Building an index: what \<open>src/src/gufi_dir2index.c\<close> puts into the database of a directory, what
  \<open>src/src/gufi_dir2trace.c\<close> writes about it and what \<open>src/src/gufi_trace2index.c\<close> makes of that, with the
  inserts of \<open>src/src/dbutils.c\<close>.  A database is the rows of its tables.  A directory is what the system calls
  say about it and its entries, in the order \<open>descend\<close> finds them.
\<close>

section \<open>Rows\<close>

text \<open>\<open>%q\<close> of SQLite: a C string with its single quotes doubled.\<close>

definition quoted :: "string \<Rightarrow> string" where
  "quoted s = concat (map (\<lambda>c. if c = CHR 0x27 then [c, c] else [c]) (cstr s))"

record entry_row =
  en_name :: string
  en_type :: char
  en_stat :: stat
  en_linkname :: string
  en_xattr_names :: string
  en_crtime :: "64 word"
  en_ossint1 :: "32 word"
  en_ossint2 :: "32 word"
  en_ossint3 :: "32 word"
  en_ossint4 :: "32 word"
  en_osstext1 :: string
  en_osstext2 :: string

record sum_row =
  sm_name :: string
  sm_type :: char
  sm_stat :: stat
  sm_linkname :: string
  sm_xattr_names :: string
  sm_crtime :: "64 word"
  sm_sum :: sum
  sm_pinode :: "64 word"

type_synonym xattr_row = "64 word \<times> string \<times> string"

text \<open>A database of extended attributes next to \<open>db.db\<close>.\<close>

record xattr_db =
  xd_filename :: string
  xd_pinode :: "64 word"
  xd_mode :: "32 word"
  xd_uid :: "32 word"
  xd_gid :: "32 word"
  xd_rows :: "xattr_row list"

record index_db =
  ix_entries :: "entry_row list"
  ix_summary :: "sum_row list"
  ix_xattrs :: "xattr_row list"
  ix_external :: "ext_row list"
  ix_xattr_dbs :: "xattr_db list"

definition empty_db :: index_db where
  "empty_db = \<lparr>ix_entries = [], ix_summary = [], ix_xattrs = [], ix_external = [], ix_xattr_dbs = []\<rparr>"

section \<open>Inserts\<close>

text \<open>The names of the attributes, nothing when they do not fit; \<open>None\<close> would be an overrun.\<close>

definition xattr_names :: "entry_data \<Rightarrow> string option" where
  "xattr_names ed =
     map_option (\<lambda>r. case r of Inl _ \<Rightarrow> [] | Inr s \<Rightarrow> s) (xattr_get_names (ed_xattrs ed) MAXXATTR XATTRDELIM)"

definition insertdbgo :: "work \<Rightarrow> entry_data \<Rightarrow> entry_row option" where
  "insertdbgo w ed = map_option (\<lambda>names.
     \<lparr>en_name = quoted (drop (w_name_len w - w_basename_len w) (w_name w)), en_type = ed_type ed, en_stat = w_statuso w,
      en_linkname = quoted (ed_linkname ed), en_xattr_names = names, en_crtime = w_crtime w,
      en_ossint1 = ed_ossint1 ed, en_ossint2 = ed_ossint2 ed, en_ossint3 = ed_ossint3 ed, en_ossint4 = ed_ossint4 ed,
      en_osstext1 = quoted (ed_osstext1 ed), en_osstext2 = quoted (ed_osstext2 ed)\<rparr>) (xattr_names ed)"

definition insertsumdb :: "string \<Rightarrow> work \<Rightarrow> entry_data \<Rightarrow> sum \<Rightarrow> sum_row option" where
  "insertsumdb path w ed su = map_option (\<lambda>names.
     \<lparr>sm_name = quoted path, sm_type = ed_type ed, sm_stat = w_statuso w, sm_linkname = quoted (ed_linkname ed),
      sm_xattr_names = quoted names, sm_crtime = w_crtime w, sm_sum = su, sm_pinode = w_pinode w\<rparr>) (xattr_names ed)"

definition insertdbgo_xattrs_avail :: "work \<Rightarrow> entry_data \<Rightarrow> xattr_row list" where
  "insertdbgo_xattrs_avail w ed =
     map (\<lambda>x. (st_ino (w_statuso w), take (x_name_len x) (x_name x), take (x_value_len x) (x_value x)))
       (take (xs_count (ed_xattrs ed)) (x_pairs (ed_xattrs ed)))"

text \<open>The table has the three columns as its key.\<close>

definition external_insert :: "string \<Rightarrow> 64 word \<Rightarrow> string \<Rightarrow> index_db \<Rightarrow> index_db" where
  "external_insert type pinode filename db =
     (let r = \<lparr>er_type = type, er_pinode = fmt_d pinode, er_filename = filename\<rparr>
      in if r \<in> set (ix_external db) then db else db\<lparr>ix_external := ix_external db @ [r]\<rparr>)"

section \<open>Attributes that cannot roll in\<close>

text \<open>The database of the owner and that of the group of an entry, by their positions in the list.\<close>

fun find_xattr_dbs :: "xattr_db list \<Rightarrow> nat \<Rightarrow> stat \<Rightarrow> nat option \<Rightarrow> nat option \<Rightarrow> nat option \<times> nat option" where
  "find_xattr_dbs [] i st u g = (u, g)"
| "find_xattr_dbs (x # xs) i st u g =
     (let u' = (if xd_uid x = st_uid st then Some i else u)
      in if xd_uid x = st_uid st \<and> g \<noteq> None then (u', g)
         else
           let same = (xd_gid x = st_gid st \<and> xd_mode x AND 0x20 = st_mode st AND 0x20);
               g' = (if same then Some i else g)
           in if same \<and> u' \<noteq> None then (u', g') else find_xattr_dbs xs (i + 1) st u' g')"

record xattr_env =
  xe_nobody_uid :: "32 word"
  xe_nobody_gid :: "32 word"
  xe_creates :: "string \<Rightarrow> bool" \<comment> \<open>files next to the database that can be created and opened\<close>

definition xattr_db_name :: "xattr_env \<Rightarrow> 32 word \<Rightarrow> 32 word \<Rightarrow> 32 word \<Rightarrow> string \<times> 32 word" where
  "xattr_db_name env uid gid mode =
     (if uid \<noteq> xe_nobody_uid env then (''uid.'' @ digits 10 (unat uid) @ ''.db'', 0x180)
      else if gid \<noteq> xe_nobody_gid env then
        if mode AND 0x20 = 0x20 then (''gid+r.'' @ digits 10 (unat gid) @ ''.db'', 0x20)
        else (''gid-r.'' @ digits 10 (unat gid) @ ''.db'', 0)
      else ([], 0))"

definition destroy_xattr_db :: "xattr_db \<Rightarrow> index_db \<Rightarrow> index_db" where
  "destroy_xattr_db x db =
     (let db' = external_insert ''xattrs'' (xd_pinode x) (xd_filename x) db
      in db'\<lparr>ix_xattr_dbs := ix_xattr_dbs db' @ [x]\<rparr>)"

text \<open>A database that cannot be created is destroyed at once, which records its name.\<close>

definition create_xattr_db ::
    "xattr_env \<Rightarrow> 64 word \<Rightarrow> 32 word \<Rightarrow> 32 word \<Rightarrow> 32 word \<Rightarrow> index_db \<Rightarrow> xattr_db option \<times> index_db" where
  "create_xattr_db env pinode uid gid mode db =
     (case xattr_db_name env uid gid mode of
        (filename, db_mode) \<Rightarrow>
          let x = \<lparr>xd_filename = filename, xd_pinode = pinode, xd_mode = db_mode, xd_uid = uid, xd_gid = gid, xd_rows = []\<rparr>
          in if xe_creates env filename then (Some x, db) else (None, external_insert ''xattrs'' pinode filename db))"

definition add_xattr_rows :: "nat \<Rightarrow> xattr_row list \<Rightarrow> xattr_db list \<Rightarrow> xattr_db list" where
  "add_xattr_rows i rows xs = xs[i := (xs ! i)\<lparr>xd_rows := xd_rows (xs ! i) @ rows\<rparr>]"

definition owner_mode_of :: "stat \<Rightarrow> owner_mode" where
  "owner_mode_of st = \<lparr>om_mode = st_mode st, om_uid = st_uid st, om_gid = st_gid st\<rparr>"

text \<open>The position of a database that is in the list or new.\<close>

definition get_xattr_db ::
    "nat option \<Rightarrow> xattr_db option \<times> index_db \<Rightarrow> xattr_db list \<Rightarrow> index_db \<Rightarrow> nat option \<times> xattr_db list \<times> index_db" where
  "get_xattr_db found created xs db =
     (case found of
        Some i \<Rightarrow> (Some i, xs, db)
      | None \<Rightarrow>
          (case created of
             (None, db') \<Rightarrow> (None, xs, db')
           | (Some x, db') \<Rightarrow> (Some (length xs), xs @ [x], db')))"

definition insertdbgo_xattrs ::
    "xattr_env \<Rightarrow> stat \<Rightarrow> work \<Rightarrow> entry_data \<Rightarrow> xattr_db list \<Rightarrow> index_db \<Rightarrow> xattr_db list \<times> index_db" where
  "insertdbgo_xattrs env dir w ed xs db =
     (let rows = insertdbgo_xattrs_avail w ed; st = w_statuso w
      in if xs_count (ed_xattrs ed) = 0 then (xs, db)
         else if xattr_can_rollin (owner_mode_of dir) (owner_mode_of st) \<noteq> 0
         then (xs, db\<lparr>ix_xattrs := ix_xattrs db @ rows\<rparr>)
         else
           let (u, g) = find_xattr_dbs xs 0 st None None;
               (ui, xs1, db1) = get_xattr_db u
                  (create_xattr_db env (w_pinode w) (st_uid st) (xe_nobody_gid env) (st_mode st) db) xs db
           in case ui of
                None \<Rightarrow> (xs1, db1)
              | Some i \<Rightarrow>
                  let (gi, xs2, db2) = get_xattr_db g
                     (create_xattr_db env (w_pinode w) (xe_nobody_uid env) (st_gid st) (st_mode st) db1) xs1 db1
                  in (case gi of
                        None \<Rightarrow> (xs2, db2)
                      | Some j \<Rightarrow> (add_xattr_rows j rows (add_xattr_rows i rows xs2), db2)))"

section \<open>A directory\<close>

text \<open>An entry that is not a directory: whether it can be examined, and the databases that are listed in it
  when it is a list of databases.\<close>

record source_entry =
  se_stat_ok :: bool
  se_work :: work
  se_ed :: entry_data
  se_listed :: "string list"

record source_dir =
  sd_work :: work
  sd_ed :: entry_data
  sd_nondirs :: "source_entry list"

definition EXTERNAL_DB_USER_FILE :: string where "EXTERNAL_DB_USER_FILE = ''external.gufi''"

definition is_list :: "work \<Rightarrow> bool" where
  "is_list w \<longleftrightarrow> cstr (drop (w_name_len w - w_basename_len w) (w_name w)) = EXTERNAL_DB_USER_FILE"

text \<open>What is carried through the entries of a directory: the summary, the databases of attributes and the
  database.\<close>

record building =
  bd_summary :: sum
  bd_xattr_dbs :: "xattr_db list"
  bd_db :: index_db

definition building0 :: building where
  "building0 = \<lparr>bd_summary = zeroit, bd_xattr_dbs = [], bd_db = empty_db\<rparr>"

text \<open>One row, the same statements in both programs; \<open>parent\<close> is what the attributes are compared with.\<close>

definition insert_entry :: "xattr_env \<Rightarrow> bool \<Rightarrow> bool \<Rightarrow> stat \<Rightarrow> work \<Rightarrow> entry_data \<Rightarrow> building \<Rightarrow> building option" where
  "insert_entry env have_statx process_xattrs parent w ed b =
     map_option (\<lambda>row.
       let (xs, db) = (if process_xattrs then insertdbgo_xattrs env parent w ed (bd_xattr_dbs b) (bd_db b)
          else (bd_xattr_dbs b, bd_db b))
       in \<lparr>bd_summary = sumit have_statx (bd_summary b) (w, ed), bd_xattr_dbs = xs,
           bd_db = db\<lparr>ix_entries := ix_entries db @ [row]\<rparr>\<rparr>) (insertdbgo w ed)"

section \<open>gufi\_dir2index\<close>

definition dir2index_nondir ::
    "xattr_env \<Rightarrow> bool \<Rightarrow> bool \<Rightarrow> stat \<Rightarrow> source_entry \<Rightarrow> building \<Rightarrow> building option" where
  "dir2index_nondir env have_statx process_xattrs dir e b =
     (if \<not> se_stat_ok e then Some b
      else
        let w = se_work e;
            db = (if is_list w then foldl (\<lambda>db f. external_insert ''user_db'' (w_pinode w) f db) (bd_db b) (se_listed e)
                  else bd_db b)
        in insert_entry env have_statx process_xattrs dir w (se_ed e) (b\<lparr>bd_db := db\<rparr>))"

fun dir2index_loop ::
    "xattr_env \<Rightarrow> bool \<Rightarrow> bool \<Rightarrow> stat \<Rightarrow> source_entry list \<Rightarrow> building \<Rightarrow> building option" where
  "dir2index_loop env have_statx process_xattrs dir [] b = Some b"
| "dir2index_loop env have_statx process_xattrs dir (e # es) b =
     (case dir2index_nondir env have_statx process_xattrs dir e b of
        None \<Rightarrow> None
      | Some b' \<Rightarrow> dir2index_loop env have_statx process_xattrs dir es b')"

text \<open>The databases of attributes are closed, then the attributes of the directory and its summary are written.\<close>

definition finish_dir :: "bool \<Rightarrow> string \<Rightarrow> work \<Rightarrow> entry_data \<Rightarrow> building \<Rightarrow> index_db option" where
  "finish_dir process_xattrs name w ed b =
     (let db = foldl (\<lambda>db x. destroy_xattr_db x db) (bd_db b) (bd_xattr_dbs b);
          db' = (if process_xattrs then db\<lparr>ix_xattrs := ix_xattrs db @ insertdbgo_xattrs_avail w ed\<rparr> else db)
      in map_option (\<lambda>row. db'\<lparr>ix_summary := ix_summary db' @ [row]\<rparr>) (insertsumdb name w ed (bd_summary b)))"

definition dir2index_dir :: "xattr_env \<Rightarrow> bool \<Rightarrow> bool \<Rightarrow> source_dir \<Rightarrow> index_db option" where
  "dir2index_dir env have_statx process_xattrs d =
     (let w = sd_work d
      in case dir2index_loop env have_statx process_xattrs (w_statuso w) (sd_nondirs d) building0 of
           None \<Rightarrow> None
         | Some b \<Rightarrow> finish_dir process_xattrs (drop (w_name_len w - w_basename_len w) (w_name w)) w (sd_ed d) b)"

section \<open>gufi\_dir2trace\<close>

text \<open>What an entry adds to a trace file; \<open>None\<close> is a name shorter than the prefix.\<close>

definition dir2trace_nondir :: "char \<Rightarrow> nat \<Rightarrow> source_entry \<Rightarrow> string option" where
  "dir2trace_nondir delim prefix_len e =
     (if \<not> se_stat_ok e then Some []
      else map_option (\<lambda>(_, out). out @ (if is_list (se_work e) then concat (map (externaltofile delim) (se_listed e)) else []))
        (worktofile delim prefix_len (Some (se_work e)) (Some (se_ed e))))"

fun dir2trace_loop :: "char \<Rightarrow> nat \<Rightarrow> source_entry list \<Rightarrow> string option" where
  "dir2trace_loop delim prefix_len [] = Some []"
| "dir2trace_loop delim prefix_len (e # es) =
     (case dir2trace_nondir delim prefix_len e of
        None \<Rightarrow> None
      | Some out \<Rightarrow> map_option (\<lambda>rest. out @ rest) (dir2trace_loop delim prefix_len es))"

definition dir2trace_dir :: "char \<Rightarrow> nat \<Rightarrow> source_dir \<Rightarrow> string option" where
  "dir2trace_dir delim prefix_len d =
     (case worktofile delim prefix_len (Some (sd_work d)) (Some (sd_ed d)) of
        None \<Rightarrow> None
      | Some (_, out) \<Rightarrow> map_option (\<lambda>rest. out @ rest) (dir2trace_loop delim prefix_len (sd_nondirs d)))"

section \<open>gufi\_trace2index\<close>

definition entry_data0 :: entry_data where
  "entry_data0 = \<lparr>ed_type = NUL, ed_linkname = [], ed_xattrs = xattrs_setup, ed_ossint1 = 0, ed_ossint2 = 0,
     ed_ossint3 = 0, ed_ossint4 = 0, ed_osstext1 = [], ed_osstext2 = []\<rparr>"

text \<open>\<open>linetowork\<close> is given the size of the buffer as the length of the line: behind the line and its NUL it sees
  \<open>junk\<close>, what else the buffer holds.  \<open>None\<close>: reading outside of the buffer or an overrun; a bad line is
  left out.\<close>

definition trace2index_nondir ::
    "xattr_env \<Rightarrow> bool \<Rightarrow> char \<Rightarrow> bool \<Rightarrow> string \<Rightarrow> string \<Rightarrow> building \<Rightarrow> building option" where
  "trace2index_nondir env have_statx delim old_format line junk b =
     (case linetowork (line @ NUL # junk) [] delim entry_data0 old_format of
        None \<Rightarrow> None
      | Some Bad \<Rightarrow> Some b
      | Some (Good (row, ed)) \<Rightarrow>
          if ed_type ed = CHR ''e'' then
            Some (b\<lparr>bd_db := external_insert ''user_db'' (st_ino (w_statuso row)) (w_name row) (bd_db b)\<rparr>)
          else insert_entry env have_statx True (w_statuso row) (row\<lparr>w_pinode := 0\<rparr>) ed b)"

text \<open>Up to \<open>entries\<close> lines from an offset of the file; an error and an empty line end the loop.  The junk is given
  by the offset.\<close>

fun trace2index_loop ::
    "xattr_env \<Rightarrow> bool \<Rightarrow> char \<Rightarrow> bool \<Rightarrow> string \<Rightarrow> (nat \<Rightarrow> nat \<Rightarrow> io) \<Rightarrow> (nat \<Rightarrow> string) \<Rightarrow> nat \<Rightarrow> nat
     \<Rightarrow> building \<Rightarrow> building option" where
  "trace2index_loop env have_statx delim old_format trace ior junk 0 offset b = Some b"
| "trace2index_loop env have_statx delim old_format trace ior junk (Suc n) offset b =
     (case rd trace ior offset of
        GetlineErr _ \<Rightarrow> Some b
      | GetlineOk line offset' \<Rightarrow>
          if line = [] then Some b
          else (case trace2index_nondir env have_statx delim old_format line (junk offset) b of
                  None \<Rightarrow> None
                | Some b' \<Rightarrow> trace2index_loop env have_statx delim old_format trace ior junk n offset' b'))"

text \<open>The directory of a row and its database; no directory for a bad line.\<close>

definition trace2index_dir ::
    "xattr_env \<Rightarrow> bool \<Rightarrow> char \<Rightarrow> bool \<Rightarrow> string \<Rightarrow> (nat \<Rightarrow> nat \<Rightarrow> io) \<Rightarrow> (nat \<Rightarrow> string) \<Rightarrow> row
     \<Rightarrow> (string \<times> index_db) option option" where
  "trace2index_dir env have_statx delim old_format trace ior junk r =
     (case linetowork (row_line r) [NUL] delim entry_data0 old_format of
        None \<Rightarrow> None
      | Some Bad \<Rightarrow> Some None
      | Some (Good (dir, ed)) \<Rightarrow>
          (case trace2index_loop env have_statx delim old_format trace ior junk (row_entries r) (row_offset r) building0 of
             None \<Rightarrow> None
           | Some b \<Rightarrow>
               let name = w_name dir;
                   basename_start = trailing_match_index (Some name) (w_name_len dir) [SLASH]
               in map_option (\<lambda>db. Some (name, db)) (finish_dir True (drop basename_start name) dir ed b)))"

end
