(* ===== verification/IndexTrace.thy ===== *)
theory IndexTrace
  imports Index
begin

text \<open>
  What the two ways to build an index have in common and where they differ: the lines of a trace as
  \<open>gufi_dir2trace\<close> writes them, read back by \<open>gufi_trace2index\<close>.
\<close>

section \<open>Lines\<close>

definition ended :: "string list \<Rightarrow> string" where
  "ended ls = concat (map (\<lambda>l. l @ [LF]) ls)"

lemma ended_simps [simp]: "ended [] = []" "ended (l # ls) = l @ LF # ended ls" "ended (as @ bs) = ended as @ ended bs"
  by (simp_all add: ended_def)

text \<open>Lines with the offsets behind them.\<close>

fun with_ends :: "nat \<Rightarrow> string list \<Rightarrow> (string \<times> nat) list" where
  "with_ends p [] = []"
| "with_ends p (l # ls) = (l, p + length l + 1) # with_ends (p + length l + 1) ls"

lemma with_ends_append: "with_ends p (as @ bs) = with_ends p as @ with_ends (p + length (ended as)) bs"
  by (induction as arbitrary: p) (simp_all add: add.assoc)

lemma fst_with_ends [simp]: "map fst (with_ends p ls) = ls"
  by (induction ls arbitrary: p) simp_all

lemma length_with_ends [simp]: "length (with_ends p ls) = length ls"
  by (induction ls arbitrary: p) simp_all

lemma line_of_ended:
  assumes "LF \<notin> set l" "fl = pre @ l @ LF # post"
  shows "line_at fl (length pre) = l" "line_end fl (length pre) = length pre + length l + 1" "length pre < length fl"
  using line_at_split [of "length pre" fl l post] line_end_split [of "length pre" fl l post] assms by simp_all

lemma lines_to_ended:
  assumes "\<forall>l \<in> set ls. LF \<notin> set l"
  shows "lines_to (pre @ ended ls) (length (pre @ ended ls)) (length pre) = with_ends (length pre) ls"
  using assms
proof (induction ls arbitrary: pre)
  case Nil
  then show ?case by (simp add: lines_to.simps)
next
  case (Cons l ls)
  let ?fl = "pre @ ended (l # ls)"
  have l: "line_at ?fl (length pre) = l" "line_end ?fl (length pre) = length pre + length l + 1" "length pre < length ?fl"
    using line_of_ended [of l ?fl pre "ended ls"] Cons.prems by simp_all
  have "lines_to ?fl (length ?fl) (length pre) = (l, length pre + length l + 1) # lines_to ?fl (length ?fl) (length pre + length l + 1)"
    using lines_to_head [of "length pre" "length ?fl" ?fl] l by simp
  moreover have "lines_to ?fl (length ?fl) (length pre + length l + 1) = with_ends (length pre + length l + 1) ls"
    using Cons.IH [of "pre @ l @ [LF]"] Cons.prems by simp
  ultimately show ?case by simp
qed

section \<open>The lines of a directory\<close>

definition ext_line :: "char \<Rightarrow> string \<Rightarrow> string" where
  "ext_line delim path = col delim (prefixed path) @ col delim ''e''"

definition work_line :: "char \<Rightarrow> nat \<Rightarrow> work \<Rightarrow> entry_data \<Rightarrow> string" where
  "work_line delim prefix_len w ed = line_of delim (drop prefix_len (w_name w)) w ed"

definition entry_lines :: "char \<Rightarrow> nat \<Rightarrow> source_entry \<Rightarrow> string list" where
  "entry_lines delim prefix_len e =
     (if se_stat_ok e then work_line delim prefix_len (se_work e) (se_ed e)
        # (if is_list (se_work e) then map (ext_line delim) (se_listed e) else []) else [])"

definition dir_lines :: "char \<Rightarrow> nat \<Rightarrow> source_dir \<Rightarrow> string list" where
  "dir_lines delim prefix_len d = concat (map (entry_lines delim prefix_len) (sd_nondirs d))"

text \<open>What can be in a trace: no newline in a line, good columns, a basename behind the last slash.\<close>

definition in_trace :: "char \<Rightarrow> nat \<Rightarrow> work \<Rightarrow> entry_data \<Rightarrow> bool" where
  "in_trace delim prefix_len w ed \<longleftrightarrow> entry_ok delim prefix_len w ed
     \<and> LF \<notin> set (work_line delim prefix_len w ed) \<and> ed_type ed \<noteq> NUL
     \<and> (let name = drop prefix_len (w_name w)
        in w_basename_len w = length name - trailing_match_index (Some name) (length name) [SLASH])"

definition listed_ok :: "string \<Rightarrow> bool" where
  "listed_ok path \<longleftrightarrow> length path < 65536 \<and> LF \<notin> set path \<and> NUL \<notin> set path"

definition source_ok :: "char \<Rightarrow> nat \<Rightarrow> source_dir \<Rightarrow> bool" where
  "source_ok delim prefix_len d \<longleftrightarrow> in_trace delim prefix_len (sd_work d) (sd_ed d) \<and> ed_type (sd_ed d) = CHR ''d''
     \<and> (\<forall>e \<in> set (sd_nondirs d). se_stat_ok e \<longrightarrow>
          in_trace delim prefix_len (se_work e) (se_ed e) \<and> ed_type (se_ed e) \<noteq> CHR ''d''
          \<and> (is_list (se_work e) \<longrightarrow> (\<forall>f \<in> set (se_listed e). listed_ok f)))"

definition trace_delim :: "char \<Rightarrow> bool" where
  "trace_delim delim \<longleftrightarrow> delim_ok delim \<and> delim \<noteq> LF \<and> delim \<noteq> CHR ''e'' \<and> delim \<noteq> CHR ''d''"

lemma externaltofile_line: "externaltofile delim path = ext_line delim path @ [LF]"
  by (simp add: externaltofile_def ext_line_def col_def prefixed_def)

lemma worktofile_work_line:
  "in_trace delim prefix_len w ed \<Longrightarrow>
    worktofile delim prefix_len (Some w) (Some ed) =
      Some (int (length (work_line delim prefix_len w ed)) + 1, work_line delim prefix_len w ed @ [LF])"
  by (simp add: in_trace_def worktofile_line work_line_def)

lemma ended_ext: "concat (map (externaltofile delim) fs) = ended (map (ext_line delim) fs)"
  by (induction fs) (simp_all add: externaltofile_line)

lemma dir2trace_loop_lines:
  assumes "\<forall>e \<in> set es. se_stat_ok e \<longrightarrow> in_trace delim prefix_len (se_work e) (se_ed e)"
  shows "dir2trace_loop delim prefix_len es = Some (ended (concat (map (entry_lines delim prefix_len) es)))"
  using assms
  by (induction es) (auto simp: dir2trace_nondir_def entry_lines_def worktofile_work_line ended_ext)

lemma dir2trace_lines:
  assumes "source_ok delim prefix_len d"
  shows "dir2trace_dir delim prefix_len d =
    Some (ended (work_line delim prefix_len (sd_work d) (sd_ed d) # dir_lines delim prefix_len d))"
proof -
  have "worktofile delim prefix_len (Some (sd_work d)) (Some (sd_ed d)) =
      Some (int (length (work_line delim prefix_len (sd_work d) (sd_ed d))) + 1, work_line delim prefix_len (sd_work d) (sd_ed d) @ [LF])"
    using assms by (intro worktofile_work_line) (simp add: source_ok_def)
  moreover have "dir2trace_loop delim prefix_len (sd_nondirs d) = Some (ended (dir_lines delim prefix_len d))"
    unfolding dir_lines_def by (rule dir2trace_loop_lines) (use assms in \<open>simp add: source_ok_def\<close>)
  ultimately show ?thesis by (simp add: dir2trace_dir_def)
qed

section \<open>Reading the lines\<close>

lemma column_one: "delim \<noteq> c \<Longrightarrow> column delim tail (Some (c # delim # r)) = Some ([c], Some r)"
  using column_col [of delim "[c]" tail r] by (simp add: col_def)

lemma linetowork_ext:
  assumes "listed_ok path" "delim \<noteq> CHR ''e''"
  shows "linetowork (ext_line delim path @ rest) tail delim ed False =
    Some (Good (\<lparr>w_name = path, w_name_len = length path, w_basename_len = length path, w_statuso = stat0,
      w_crtime = 0, w_pinode = 0\<rparr>, ed\<lparr>ed_type := CHR ''e''\<rparr>))"
proof -
  have "read_name delim tail False (col delim (prefixed path) @ col delim ''e'' @ rest) =
      Some (Good (\<lparr>w_name = path, w_name_len = length path, w_basename_len = length path, w_statuso = stat0,
        w_crtime = 0, w_pinode = 0\<rparr>, Some (col delim ''e'' @ rest)))"
    using assms by (intro read_name_read) (simp_all add: listed_ok_def)
  then show ?thesis
    using assms(2) column_one [of delim "CHR ''e''" tail rest]
    by (simp add: linetowork_def ext_line_def col_def)
qed

text \<open>What \<open>linetowork\<close> gives for the line of an entry.\<close>

definition as_read :: "nat \<Rightarrow> work \<Rightarrow> work" where
  "as_read prefix_len w = w\<lparr>w_name := drop prefix_len (w_name w), w_name_len := w_name_len w - prefix_len\<rparr>"

lemma linetowork_work_line:
  assumes "in_trace delim prefix_len w ed" "delim_ok delim"
  shows "linetowork (work_line delim prefix_len w ed @ rest) tail delim ed0 False = Some (Good (as_read prefix_len w, ed))"
proof -
  let ?name = "drop prefix_len (w_name w)"
  have l: "w_name_len w = length (w_name w)" "prefix_len \<le> w_name_len w"
    using assms(1) by (simp_all add: in_trace_def entry_ok_def)
  have b: "length ?name - trailing_match_index (Some ?name) (length ?name) [SLASH] = w_basename_len w"
    using assms(1) by (simp add: in_trace_def Let_def)
  have "linetowork (work_line delim prefix_len w ed @ rest) tail delim ed0 False =
      Some (Good (w\<lparr>w_name := ?name, w_name_len := length ?name, w_basename_len := w_basename_len w\<rparr>, ed))"
    using linetowork_reads_more [of delim prefix_len w ed rest tail ed0] assms unfolding work_line_def b [symmetric] in_trace_def by blast
  then show ?thesis
    using l by (simp add: as_read_def)
qed

lemma kind_prefixed:
  assumes "length name < 65536"
  shows "kind delim False (col delim (prefixed name) @ t # r) = Some t"
proof -
  let ?line = "col delim (prefixed name) @ t # r"
  have l: "length (fmt_04zx (length name)) = 4"
    using assms by (simp add: length_fmt_04zx)
  have "sscanf_04zx (cstr ?line) = Some (length name, 4)"
    using cstr_prefixed [OF assms, of "name @ [delim] @ t # r"] by (simp add: col_def prefixed_def)
  then have "find_first_delim ?line delim False = Some (4 + length name, (?line @ [NUL]) ! (4 + length name) \<noteq> delim)"
    using l by (simp add: find_first_delim_def col_def prefixed_def)
  moreover have "(?line @ [NUL]) ! (4 + length name) = delim"
    using l by (simp add: col_def prefixed_def nth_append)
  moreover have "type_char ?line (4 + length name) = t"
    using l by (simp add: type_char_def col_def prefixed_def)
  ultimately show ?thesis by (simp add: kind_Some)
qed

lemma kind_ext: "listed_ok path \<Longrightarrow> kind delim False (ext_line delim path) = Some (CHR ''e'')"
  using kind_prefixed [of path delim "CHR ''e''" "[delim]"] by (simp add: ext_line_def listed_ok_def col_def)

lemma kind_work:
  assumes "in_trace delim prefix_len w ed"
  shows "kind delim False (work_line delim prefix_len w ed) = Some (ed_type ed)"
proof -
  have "length (drop prefix_len (w_name w)) < 65536"
    using assms by (auto simp: in_trace_def entry_ok_def)
  from kind_prefixed [OF this] show ?thesis
    by (simp add: work_line_def line_of_def col_def)
qed

section \<open>The same rows\<close>

lemma as_read_simps [simp]:
  "w_statuso (as_read p w) = w_statuso w" "w_crtime (as_read p w) = w_crtime w" "w_pinode (as_read p w) = w_pinode w"
  "w_basename_len (as_read p w) = w_basename_len w" "w_name (as_read p w) = drop p (w_name w)"
  by (simp_all add: as_read_def)

lemma sumit_as_read [simp]: "sumit h s (as_read p w, ed) = sumit h s (w, ed)"
  by (simp add: sumit_def size_of_def blocks_of_def uid_of_def gid_of_def ctime_of_def mtime_of_def atime_of_def crtime_of_def)

lemma in_trace_basename:
  assumes "in_trace delim p w ed"
  shows "drop (w_name_len w - p - w_basename_len w) (drop p (w_name w)) = drop (w_name_len w - w_basename_len w) (w_name w)"
    "drop (trailing_match_index (Some (drop p (w_name w))) (w_name_len w - p) [SLASH]) (drop p (w_name w)) =
      drop (w_name_len w - w_basename_len w) (w_name w)"
proof -
  let ?name = "drop p (w_name w)"
  let ?i = "trailing_match_index (Some ?name) (length ?name) [SLASH]"
  have l: "w_name_len w = length (w_name w)" "p \<le> length (w_name w)" and b: "w_basename_len w = length ?name - ?i"
    using assms by (simp_all add: in_trace_def entry_ok_def Let_def)
  have "w_basename_len w \<le> length ?name" using b by simp
  then have n: "w_name_len w - p - w_basename_len w + p = w_name_len w - w_basename_len w"
    using l by simp
  show 1: "drop (w_name_len w - p - w_basename_len w) ?name = drop (w_name_len w - w_basename_len w) (w_name w)"
    using n by simp
  have "drop ?i ?name = drop (length ?name - w_basename_len w) ?name"
  proof (cases "?i \<le> length ?name")
    case True
    then have "length ?name - w_basename_len w = ?i" using b by linarith
    then show ?thesis by (simp only:)
  qed (use b in simp)
  then show "drop (trailing_match_index (Some ?name) (w_name_len w - p) [SLASH]) ?name =
      drop (w_name_len w - w_basename_len w) (w_name w)"
    using 1 l by simp
qed

lemma insertdbgo_as_read:
  assumes "in_trace delim p w ed"
  shows "insertdbgo ((as_read p w)\<lparr>w_pinode := n\<rparr>) ed = insertdbgo w ed"
proof -
  have "w_name_len (as_read p w) = w_name_len w - p" by (simp add: as_read_def)
  then show ?thesis
    using in_trace_basename(1) [OF assms] by (simp add: insertdbgo_def)
qed

text \<open>Neither the attributes nor the lists of databases touch the rows of the entries.\<close>

lemma external_insert_frame [simp]:
  "ix_entries (external_insert t n f db) = ix_entries db" "ix_summary (external_insert t n f db) = ix_summary db"
  "ix_xattrs (external_insert t n f db) = ix_xattrs db" "ix_xattr_dbs (external_insert t n f db) = ix_xattr_dbs db"
  by (simp_all add: external_insert_def Let_def)

lemma create_xattr_db_frame:
  "create_xattr_db env n u g m db = (x, db') \<Longrightarrow> ix_entries db' = ix_entries db \<and> ix_summary db' = ix_summary db
     \<and> ix_xattrs db' = ix_xattrs db"
  by (auto simp: create_xattr_db_def Let_def split: prod.splits if_splits)

lemma get_xattr_db_frame:
  assumes "get_xattr_db found (create_xattr_db env n u g m db) xs db = (i, xs', db')"
  shows "ix_entries db' = ix_entries db \<and> ix_summary db' = ix_summary db \<and> ix_xattrs db' = ix_xattrs db"
proof -
  obtain x d where c: "create_xattr_db env n u g m db = (x, d)" by fastforce
  show ?thesis
    using assms create_xattr_db_frame [OF c] unfolding c by (auto simp: get_xattr_db_def split: option.splits)
qed

lemma insertdbgo_xattrs_frame:
  assumes "insertdbgo_xattrs env dir w ed xs db = (xs', db')"
  shows "ix_entries db' = ix_entries db \<and> ix_summary db' = ix_summary db"
proof -
  obtain u g where f: "find_xattr_dbs xs 0 (w_statuso w) None None = (u, g)" by fastforce
  obtain ui xs1 db1 where 1: "get_xattr_db u
      (create_xattr_db env (w_pinode w) (st_uid (w_statuso w)) (xe_nobody_gid env) (st_mode (w_statuso w)) db) xs db = (ui, xs1, db1)"
    by (rule prod_cases3)
  obtain gi xs2 db2 where 2: "get_xattr_db g
      (create_xattr_db env (w_pinode w) (xe_nobody_uid env) (st_gid (w_statuso w)) (st_mode (w_statuso w)) db1) xs1 db1 = (gi, xs2, db2)"
    by (rule prod_cases3)
  show ?thesis
    using assms get_xattr_db_frame [OF 1] get_xattr_db_frame [OF 2]
    by (auto simp: insertdbgo_xattrs_def Let_def f 1 2 split: if_splits option.splits)
qed

definition agree :: "building \<Rightarrow> building \<Rightarrow> bool" where
  "agree b b' \<longleftrightarrow> bd_summary b = bd_summary b' \<and> ix_entries (bd_db b) = ix_entries (bd_db b')
     \<and> ix_summary (bd_db b) = [] \<and> ix_summary (bd_db b') = []"

lemma insert_entry_rows:
  assumes "insert_entry env h x st w ed b = Some b'"
  shows "bd_summary b' = sumit h (bd_summary b) (w, ed) \<and> ix_summary (bd_db b') = ix_summary (bd_db b)
    \<and> (\<exists>row. insertdbgo w ed = Some row \<and> ix_entries (bd_db b') = ix_entries (bd_db b) @ [row])"
proof -
  obtain row where r: "insertdbgo w ed = Some row"
    using assms by (auto simp: insert_entry_def)
  obtain xs db where d: "(if x then insertdbgo_xattrs env st w ed (bd_xattr_dbs b) (bd_db b) else (bd_xattr_dbs b, bd_db b)) = (xs, db)"
    by fastforce
  have "ix_entries db = ix_entries (bd_db b) \<and> ix_summary db = ix_summary (bd_db b)"
    using d insertdbgo_xattrs_frame [of env st w ed "bd_xattr_dbs b" "bd_db b" xs db] by (auto split: if_splits)
  then show ?thesis
    using assms r by (auto simp: insert_entry_def d)
qed

lemma insert_entry_Some: "insert_entry env h x st w ed b \<noteq> None \<longleftrightarrow> insertdbgo w ed \<noteq> None"
  by (simp add: insert_entry_def)

lemma sumit_pinode [simp]: "sumit h s (w\<lparr>w_pinode := n\<rparr>, ed) = sumit h s (w, ed)"
  by (simp add: sumit_def size_of_def blocks_of_def uid_of_def gid_of_def ctime_of_def mtime_of_def atime_of_def crtime_of_def)

lemma insert_entry_agree:
  assumes "in_trace delim p w ed" "agree b b'" "insert_entry env h x st w ed b = Some c"
  shows "\<exists>c'. insert_entry env' h x' st' ((as_read p w)\<lparr>w_pinode := n\<rparr>) ed b' = Some c' \<and> agree c c'"
proof -
  have "insertdbgo ((as_read p w)\<lparr>w_pinode := n\<rparr>) ed \<noteq> None"
    using assms(3) insert_entry_Some [of env h x st w ed b] insertdbgo_as_read [OF assms(1)] by simp
  then obtain c' where c': "insert_entry env' h x' st' ((as_read p w)\<lparr>w_pinode := n\<rparr>) ed b' = Some c'"
    using insert_entry_Some by (metis option.exhaust)
  show ?thesis
    using assms(2) insert_entry_rows [OF assms(3)] insert_entry_rows [OF c'] insertdbgo_as_read [OF assms(1), of n] c'
    by (auto simp: agree_def)
qed

text \<open>The lines of a list of lines, one after the other.\<close>

fun trace2index_lines :: "xattr_env \<Rightarrow> bool \<Rightarrow> char \<Rightarrow> (string \<times> string) list \<Rightarrow> building \<Rightarrow> building option" where
  "trace2index_lines env h delim [] b = Some b"
| "trace2index_lines env h delim ((l, junk) # ls) b =
     (case trace2index_nondir env h delim False l junk b of None \<Rightarrow> None | Some b' \<Rightarrow> trace2index_lines env h delim ls b')"

lemma trace2index_lines_append:
  "trace2index_lines env h delim (as @ bs) b =
     (case trace2index_lines env h delim as b of None \<Rightarrow> None | Some b' \<Rightarrow> trace2index_lines env h delim bs b')"
  by (induction as arbitrary: b) (auto split: option.splits)

text \<open>The lines of a file from an offset with what is behind them in the buffer.\<close>

fun with_junk :: "(nat \<Rightarrow> string) \<Rightarrow> nat \<Rightarrow> string list \<Rightarrow> (string \<times> string) list" where
  "with_junk junk p [] = []"
| "with_junk junk p (l # ls) = (l, junk p) # with_junk junk (p + length l + 1) ls"

lemma fst_with_junk [simp]: "map fst (with_junk junk p ls) = ls"
  by (induction ls arbitrary: p) simp_all

lemma trace2index_loop_lines:
  assumes "reads ior" "\<forall>l \<in> set ls. LF \<notin> set l \<and> l \<noteq> []"
  shows "trace2index_loop env h delim False (pre @ ended ls @ post) ior junk (length ls) (length pre) b =
    trace2index_lines env h delim (with_junk junk (length pre) ls) b"
  using assms(2)
proof (induction ls arbitrary: pre b)
  case (Cons l ls)
  let ?fl = "pre @ ended (l # ls) @ post"
  have l: "line_at ?fl (length pre) = l" "line_end ?fl (length pre) = length pre + length l + 1" "length pre < length ?fl"
    using line_of_ended [of l ?fl pre "ended ls @ post"] Cons.prems by simp_all
  then have "rd ?fl ior (length pre) = GetlineOk l (length pre + length l + 1)"
    using rd_reads [OF assms(1), of ?fl "length pre"] by simp
  moreover have "trace2index_loop env h delim False ?fl ior junk (length ls) (length pre + length l + 1) b' =
      trace2index_lines env h delim (with_junk junk (length pre + length l + 1) ls) b'" for b'
    using Cons.IH [of "pre @ l @ [LF]"] Cons.prems by simp
  ultimately show ?case
    using Cons.prems by (auto split: option.split)
qed simp

lemma trace2index_ext_lines:
  assumes "\<forall>f \<in> set fs. listed_ok f" "delim \<noteq> CHR ''e''" "map fst ps = map (ext_line delim) fs"
  shows "trace2index_lines env h delim ps b =
    Some (b\<lparr>bd_db := foldl (\<lambda>db f. external_insert ''user_db'' 0 f db) (bd_db b) fs\<rparr>)"
  using assms(1,3)
proof (induction fs arbitrary: b ps)
  case (Cons f fs)
  then obtain junk ps' where ps: "ps = (ext_line delim f, junk) # ps'" "map fst ps' = map (ext_line delim) fs"
    by (cases ps) auto
  have "linetowork (ext_line delim f @ NUL # junk) [] delim entry_data0 False =
    Some (Good (\<lparr>w_name = f, w_name_len = length f, w_basename_len = length f, w_statuso = stat0,
      w_crtime = 0, w_pinode = 0\<rparr>, entry_data0\<lparr>ed_type := CHR ''e''\<rparr>))"
    using Cons.prems(1) assms(2) by (intro linetowork_ext) simp_all
  then show ?case
    using Cons.IH [OF _ ps(2)] Cons.prems(1) ps by (simp add: trace2index_nondir_def stat0_def)
qed simp

lemma foldl_external_frame [simp]:
  "ix_entries (foldl (\<lambda>db f. external_insert t n f db) db fs) = ix_entries db"
  "ix_summary (foldl (\<lambda>db f. external_insert t n f db) db fs) = ix_summary db"
  "ix_xattrs (foldl (\<lambda>db f. external_insert t n f db) db fs) = ix_xattrs db"
  by (induction fs arbitrary: db) simp_all

lemma trace2index_work_line:
  assumes "in_trace delim p w ed" "delim_ok delim"
  shows "trace2index_nondir env h delim False (work_line delim p w ed) junk b =
    insert_entry env h True (w_statuso w) ((as_read p w)\<lparr>w_pinode := 0\<rparr>) ed b"
proof -
  have "ed_type ed \<noteq> CHR ''e''" using assms(1) by (simp add: in_trace_def entry_ok_def)
  then show ?thesis
    using linetowork_work_line [OF assms, of "NUL # junk" "[]" entry_data0] by (simp add: trace2index_nondir_def)
qed

lemma trace2index_entry:
  assumes "se_stat_ok e \<longrightarrow> in_trace delim p (se_work e) (se_ed e)"
    and "se_stat_ok e \<longrightarrow> is_list (se_work e) \<longrightarrow> (\<forall>f \<in> set (se_listed e). listed_ok f)"
    and "trace_delim delim" "agree b b'" "dir2index_nondir env h x dir e b = Some c"
    and "map fst ps = entry_lines delim p e"
  shows "\<exists>c'. trace2index_lines env' h delim ps b' = Some c' \<and> agree c c'"
proof (cases "se_stat_ok e")
  case False
  then show ?thesis using assms(4-6) by (simp add: dir2index_nondir_def entry_lines_def)
next
  case True
  let ?w = "se_work e"
  define db where "db = (if is_list ?w then foldl (\<lambda>db f. external_insert ''user_db'' (w_pinode ?w) f db) (bd_db b) (se_listed e) else bd_db b)"
  have t: "in_trace delim p ?w (se_ed e)" and dl: "delim_ok delim" "delim \<noteq> CHR ''e''"
    using assms(1,3) True by (simp_all add: trace_delim_def)
  have "agree (b\<lparr>bd_db := db\<rparr>) b'"
    using assms(4) by (simp add: agree_def db_def)
  moreover have "insert_entry env h x dir ?w (se_ed e) (b\<lparr>bd_db := db\<rparr>) = Some c"
    using assms(5) unfolding dir2index_nondir_def db_def by (simp only: Let_def True simp_thms if_False)
  ultimately obtain c1 where c1: "insert_entry env' h True (w_statuso ?w) ((as_read p ?w)\<lparr>w_pinode := 0\<rparr>) (se_ed e) b' = Some c1" "agree c c1"
    using insert_entry_agree [OF t] by blast
  have l: "\<forall>f \<in> set (if is_list ?w then se_listed e else []). listed_ok f"
    using assms(2) True by auto
  have "entry_lines delim p e = work_line delim p ?w (se_ed e) # map (ext_line delim) (if is_list ?w then se_listed e else [])"
    using True by (simp add: entry_lines_def)
  then obtain junk ps' where ps: "ps = (work_line delim p ?w (se_ed e), junk) # ps'"
    "map fst ps' = map (ext_line delim) (if is_list ?w then se_listed e else [])"
    using assms(6) by (cases ps) auto
  have "trace2index_lines env' h delim ps b' =
      Some (c1\<lparr>bd_db := foldl (\<lambda>db f. external_insert ''user_db'' 0 f db) (bd_db c1) (if is_list ?w then se_listed e else [])\<rparr>)"
    using trace2index_work_line [OF t dl(1)] c1(1) trace2index_ext_lines [OF l dl(2) ps(2)] ps(1) by simp
  then show ?thesis
    using c1(2) by (simp add: agree_def)
qed

lemma trace2index_entries:
  assumes "\<forall>e \<in> set es. se_stat_ok e \<longrightarrow> in_trace delim p (se_work e) (se_ed e)
      \<and> (is_list (se_work e) \<longrightarrow> (\<forall>f \<in> set (se_listed e). listed_ok f))"
    and "trace_delim delim" "agree b b'" "dir2index_loop env h x dir es b = Some c"
    and "map fst ps = concat (map (entry_lines delim p) es)"
  shows "\<exists>c'. trace2index_lines env' h delim ps b' = Some c' \<and> agree c c'"
  using assms(1,3,4,5)
proof (induction es arbitrary: b b' ps)
  case (Cons e es)
  then obtain b1 where b1: "dir2index_nondir env h x dir e b = Some b1" "dir2index_loop env h x dir es b1 = Some c"
    by (auto split: option.splits)
  obtain as bs where ps: "ps = as @ bs" "map fst as = entry_lines delim p e" "map fst bs = concat (map (entry_lines delim p) es)"
    using Cons.prems(4) by (auto simp: map_eq_append_conv)
  obtain b1' where "trace2index_lines env' h delim as b' = Some b1'" "agree b1 b1'"
    using trace2index_entry [of e delim p b b' env h x dir b1 as env'] Cons.prems assms(2) b1(1) ps(2) by auto
  then show ?case
    using Cons.IH [of b1 b1' bs] Cons.prems b1(2) ps by (simp add: trace2index_lines_append)
qed simp

section \<open>A directory\<close>

lemma destroy_xattr_dbs_frame [simp]:
  "ix_entries (foldl (\<lambda>db x. destroy_xattr_db x db) db xs) = ix_entries db"
  "ix_summary (foldl (\<lambda>db x. destroy_xattr_db x db) db xs) = ix_summary db"
  by (induction xs arbitrary: db) (simp_all add: destroy_xattr_db_def Let_def)

lemma finish_dir_rows:
  assumes "finish_dir x name w ed b = Some db"
  shows "ix_entries db = ix_entries (bd_db b)
    \<and> (\<exists>row. insertsumdb name w ed (bd_summary b) = Some row \<and> ix_summary db = ix_summary (bd_db b) @ [row])"
  using assms by (auto simp: finish_dir_def Let_def)

lemma finish_dir_Some: "finish_dir x name w ed b \<noteq> None \<longleftrightarrow> insertsumdb name w ed (bd_summary b) \<noteq> None"
  by (simp add: finish_dir_def Let_def)

lemma insertsumdb_as_read [simp]: "insertsumdb name (as_read p w) ed su = insertsumdb name w ed su"
  by (simp add: insertsumdb_def)

lemma finish_dir_agree:
  assumes "agree b b'" "finish_dir x name w ed b = Some db"
  shows "\<exists>db'. finish_dir x' name (as_read p w) ed b' = Some db' \<and> ix_entries db' = ix_entries db \<and> ix_summary db' = ix_summary db"
proof -
  have s: "bd_summary b' = bd_summary b" using assms(1) by (simp add: agree_def)
  have "insertsumdb name (as_read p w) ed (bd_summary b') \<noteq> None"
    using assms(2) finish_dir_Some [of x name w ed b] s by simp
  then obtain db' where db': "finish_dir x' name (as_read p w) ed b' = Some db'"
    using finish_dir_Some by (metis option.exhaust)
  show ?thesis
    using db' finish_dir_rows [OF assms(2)] finish_dir_rows [OF db'] assms(1) s by (auto simp: agree_def)
qed

lemma LF_ext_line:
  assumes "listed_ok f" "trace_delim delim"
  shows "LF \<notin> set (ext_line delim f)"
proof -
  have "LF \<notin> set (fmt_04zx (length f))"
    using fmt_04zx_digits [of LF "length f"] by (auto simp: is_digit_def digit_val_def)
  then show ?thesis
    using assms by (auto simp: ext_line_def col_def prefixed_def listed_ok_def trace_delim_def)
qed

lemma work_line_ne: "work_line delim p w ed \<noteq> []"
  by (simp add: work_line_def line_of_def col_def)

lemma dir_lines_good:
  assumes "source_ok delim p d" "trace_delim delim" "l \<in> set (dir_lines delim p d)"
  shows "LF \<notin> set l \<and> l \<noteq> [] \<and> kind delim False l \<noteq> None \<and> kind delim False l \<noteq> Some (CHR ''d'')"
proof -
  obtain e where e: "e \<in> set (sd_nondirs d)" "l \<in> set (entry_lines delim p e)"
    using assms(3) by (auto simp: dir_lines_def)
  then have st: "se_stat_ok e" by (auto simp: entry_lines_def split: if_splits)
  then have t: "in_trace delim p (se_work e) (se_ed e)" "ed_type (se_ed e) \<noteq> CHR ''d''"
    "is_list (se_work e) \<Longrightarrow> \<forall>f \<in> set (se_listed e). listed_ok f"
    using assms(1) e(1) by (auto simp: source_ok_def)
  consider "l = work_line delim p (se_work e) (se_ed e)"
    | f where "listed_ok f" "l = ext_line delim f"
    using e(2) st t(3) by (auto simp: entry_lines_def split: if_splits)
  then show ?thesis
  proof cases
    case 1
    then show ?thesis
      using t(1,2) kind_work [OF t(1)] work_line_ne by (simp add: in_trace_def)
  next
    case 2
    then show ?thesis
      using kind_ext LF_ext_line assms(2) by (simp add: ext_line_def col_def)
  qed
qed

lemma trace2index_dir_rows:
  assumes "source_ok delim p d" "trace_delim delim" "reads ior" "dir2index_dir env h x d = Some db"
    and "row_line r = work_line delim p (sd_work d) (sd_ed d)" "row_offset r = length pre" "row_entries r = length (dir_lines delim p d)"
  shows "\<exists>db'. trace2index_dir env' h delim False (pre @ ended (dir_lines delim p d) @ post) ior junk r =
      Some (Some (drop p (w_name (sd_work d)), db')) \<and> ix_entries db' = ix_entries db \<and> ix_summary db' = ix_summary db"
proof -
  let ?w = "sd_work d"
  have t: "in_trace delim p ?w (sd_ed d)" and dl: "delim_ok delim"
    using assms(1,2) by (simp_all add: source_ok_def trace_delim_def)
  have l: "w_name_len (as_read p ?w) = w_name_len ?w - p" by (simp add: as_read_def)
  obtain b where b: "dir2index_loop env h x (w_statuso ?w) (sd_nondirs d) building0 = Some b"
    "finish_dir x (drop (w_name_len ?w - w_basename_len ?w) (w_name ?w)) ?w (sd_ed d) b = Some db"
    using assms(4) by (auto simp: dir2index_dir_def Let_def split: option.splits)
  have a0: "agree building0 building0"
    by (simp add: agree_def building0_def empty_db_def)
  have ps: "map fst (with_junk junk (length pre) (dir_lines delim p d)) = concat (map (entry_lines delim p) (sd_nondirs d))"
    unfolding fst_with_junk by (rule dir_lines_def)
  obtain b' where b': "trace2index_lines env' h delim (with_junk junk (length pre) (dir_lines delim p d)) building0 = Some b'" "agree b b'"
    using trace2index_entries [OF _ assms(2) a0 b(1) ps] assms(1) unfolding source_ok_def by blast
  obtain db' where db': "finish_dir True (drop (w_name_len ?w - w_basename_len ?w) (w_name ?w)) (as_read p ?w) (sd_ed d) b' = Some db'"
    "ix_entries db' = ix_entries db" "ix_summary db' = ix_summary db"
    using finish_dir_agree [OF b'(2) b(2)] by blast
  have "trace2index_loop env' h delim False (pre @ ended (dir_lines delim p d) @ post) ior junk (row_entries r) (row_offset r) building0 = Some b'"
    using trace2index_loop_lines [OF assms(3), of "dir_lines delim p d"] dir_lines_good [OF assms(1,2)] b'(1) assms(6,7) by simp
  then show ?thesis
    using linetowork_work_line [OF t dl, of "[]" "[NUL]" entry_data0] db' in_trace_basename(2) [OF t] l assms(5)
    by (simp add: trace2index_dir_def Let_def)
qed

section \<open>A trace file\<close>

definition source_lines :: "char \<Rightarrow> nat \<Rightarrow> source_dir \<Rightarrow> string list" where
  "source_lines delim p d = work_line delim p (sd_work d) (sd_ed d) # dir_lines delim p d"

text \<open>The rows of the directories of a trace whose first line is at \<open>q\<close>.\<close>

fun dir_rows :: "nat \<Rightarrow> char \<Rightarrow> nat \<Rightarrow> nat \<Rightarrow> source_dir list \<Rightarrow> row list" where
  "dir_rows fd delim p q [] = []"
| "dir_rows fd delim p q (d # ds) =
     (let l = work_line delim p (sd_work d) (sd_ed d); off = q + length l + 1
      in stanza_row fd delim False ((l, off), with_ends off (dir_lines delim p d))
         # dir_rows fd delim p (q + length (ended (source_lines delim p d))) ds)"

lemma stanzas_sources:
  assumes "\<forall>d \<in> set ds. source_ok delim p d" "trace_delim delim"
  shows "map (stanza_row fd delim False) (stanzas (is_dir delim False) (with_ends q (concat (map (source_lines delim p) ds)))) =
    dir_rows fd delim p q ds"
  using assms(1)
proof (induction ds arbitrary: q)
  case (Cons d ds)
  let ?D = "is_dir delim False"
  let ?l = "work_line delim p (sd_work d) (sd_ed d)"
  let ?off = "q + length ?l + 1"
  let ?ds = "with_ends ?off (dir_lines delim p d)"
  let ?rest = "with_ends (?off + length (ended (dir_lines delim p d))) (concat (map (source_lines delim p) ds))"
  have ls: "with_ends q (concat (map (source_lines delim p) (d # ds))) = (?l, ?off) # ?ds @ ?rest"
    by (simp add: source_lines_def with_ends_append)
  have nd: "\<forall>y \<in> set ?ds. \<not> ?D y"
  proof
    fix y
    assume "y \<in> set ?ds"
    then have "fst y \<in> set (map fst ?ds)" by (simp only: set_map imageI)
    then have "fst y \<in> set (dir_lines delim p d)" by simp
    then show "\<not> ?D y"
      using dir_lines_good [of delim p d "fst y"] Cons.prems assms(2) by (simp add: is_dir_def)
  qed
  have hd: "?rest = [] \<or> ?D (hd ?rest)"
  proof (cases ds)
    case (Cons d' ds')
    then have "in_trace delim p (sd_work d') (sd_ed d')" "ed_type (sd_ed d') = CHR ''d''"
      using Cons.prems by (simp_all add: source_ok_def)
    then show ?thesis using kind_work by (simp add: Cons source_lines_def is_dir_def)
  qed simp
  have "takeWhile (\<lambda>y. \<not> ?D y) (?ds @ ?rest) = ?ds" "dropWhile (\<lambda>y. \<not> ?D y) (?ds @ ?rest) = ?rest"
    using nd hd by (simp_all add: takeWhile_append2 dropWhile_append2) (cases ?rest; simp)+
  then have st: "stanzas ?D (with_ends q (concat (map (source_lines delim p) (d # ds)))) = ((?l, ?off), ?ds) # stanzas ?D ?rest"
    unfolding ls by (simp only: stanzas.simps)
  have off: "?off + length (ended (dir_lines delim p d)) = q + length (ended (source_lines delim p d))"
    by (simp add: source_lines_def)
  have "map (stanza_row fd delim False) (stanzas ?D ?rest) = dir_rows fd delim p (q + length (ended (source_lines delim p d))) ds"
    unfolding off using Cons.prems by (intro Cons.IH) simp
  then show ?case
    unfolding st by (simp add: Let_def)
qed simp

section \<open>Building a directory succeeds\<close>

lemma xattr_names_Some:
  assumes "in_trace delim p w ed"
  shows "xattr_names ed \<noteq> None"
proof -
  let ?xs = "ed_xattrs ed"
  have ok: "xattrs_ok ?xs" and fl: "file_len ?xs < 65536"
    using assms by (simp_all add: in_trace_def entry_ok_def)
  have le: "sum_list (map x_name_len ps) \<le> sum_list (map pair_len ps)" for ps
    by (rule sum_list_mono) (simp add: pair_len_def)
  have one: "sum_list (map (\<lambda>x. x_name_len x + 1) ps) = sum_list (map x_name_len ps) + length ps" for ps
    by (induction ps) simp_all
  have member: "x_name_len x \<le> sum_list (map x_name_len (x_pairs ?xs))" if "x \<in> set (x_pairs ?xs)" for x
    using that by (simp add: member_le_sum_list)
  have n: "xs_name_len ?xs + xs_count ?xs < MAXXATTR"
    using ok fl le [of "x_pairs ?xs"] by (simp add: xattrs_ok_def file_len_def XATTR_PREFIX_LEN_def MAXXATTR_def)
  have "get_names_loop (x_pairs ?xs) MAXXATTR XATTRDELIM [] =
      Some ([] @ concat (map (\<lambda>x. x_name x @ [XATTRDELIM]) (x_pairs ?xs)))"
  proof (rule get_names_loop_fits)
    show "\<forall>x \<in> set (x_pairs ?xs). xattr_ok x \<and> x_name_len x < 2 ^ 32"
    proof
      fix x
      assume x: "x \<in> set (x_pairs ?xs)"
      have "x_name_len x < 65536"
        using member [OF x] n ok by (simp add: xattrs_ok_def MAXXATTR_def)
      then show "xattr_ok x \<and> x_name_len x < 2 ^ 32"
        using ok x by (simp add: xattrs_ok_def)
    qed
    show "length [] + sum_list (map (\<lambda>x. x_name_len x + 1) (x_pairs ?xs)) < MAXXATTR"
      using n ok unfolding one by (simp add: xattrs_ok_def)
  qed
  then show ?thesis
    using n by (simp add: xattr_names_def xattr_get_names_def)
qed

lemma dir2index_loop_Some:
  assumes "\<forall>e \<in> set es. se_stat_ok e \<longrightarrow> in_trace delim p (se_work e) (se_ed e)"
  shows "dir2index_loop env h x dir es b \<noteq> None"
  using assms
proof (induction es arbitrary: b)
  case (Cons e es)
  have "dir2index_nondir env h x dir e b \<noteq> None"
  proof (cases "se_stat_ok e")
    case True
    then have "insertdbgo (se_work e) (se_ed e) \<noteq> None"
      using Cons.prems xattr_names_Some [of delim p "se_work e" "se_ed e"] by (simp add: insertdbgo_def)
    then show ?thesis
      using True insert_entry_Some [of env h x dir "se_work e" "se_ed e"] by (simp add: dir2index_nondir_def Let_def)
  qed (simp add: dir2index_nondir_def)
  then obtain b' where "dir2index_nondir env h x dir e b = Some b'" by blast
  then show ?case using Cons by simp
qed simp

lemma dir2index_dir_Some:
  assumes "source_ok delim p d"
  shows "\<exists>db. dir2index_dir env h x d = Some db"
proof -
  have "dir2index_loop env h x (w_statuso (sd_work d)) (sd_nondirs d) building0 \<noteq> None"
    by (rule dir2index_loop_Some [of _ delim p]) (use assms in \<open>simp add: source_ok_def\<close>)
  then obtain b where b: "dir2index_loop env h x (w_statuso (sd_work d)) (sd_nondirs d) building0 = Some b"
    by blast
  have "xattr_names (sd_ed d) \<noteq> None"
    by (rule xattr_names_Some [of delim p "sd_work d"]) (use assms in \<open>simp add: source_ok_def\<close>)
  then have "insertsumdb n (sd_work d) (sd_ed d) su \<noteq> None" for n su
    by (simp add: insertsumdb_def)
  then show ?thesis
    using b finish_dir_Some [of x] by (fastforce simp: dir2index_dir_def Let_def)
qed

section \<open>Databases of users\<close>

lemma linetowork_fields_type:
  "linetowork_fields w ed delim tail old p = Some (Good (w', ed')) \<Longrightarrow> ed_type ed' = ed_type ed"
  unfolding linetowork_fields_def
  by (auto simp del: columns.simps split: option.splits parsed.splits)

lemma read_name_stat: "read_name delim tail old line = Some (Good (w, q)) \<Longrightarrow> w_statuso w = stat0"
  unfolding read_name_def
  by (auto simp: new_work_with_name_def Let_def split: option.splits list.splits if_splits)

lemma linetowork_ext_stat:
  assumes "linetowork line tail delim ed old = Some (Good (w, ed'))" "ed_type ed' = CHR ''e''"
  shows "w_statuso w = stat0"
proof -
  obtain w0 q where n: "read_name delim tail old line = Some (Good (w0, q))"
    using assms(1) by (auto simp: linetowork_def split: option.splits parsed.splits)
  have "w = w0"
    using assms n
    by (auto simp: linetowork_def dest!: linetowork_fields_type split: option.splits list.splits if_splits)
  then show ?thesis using read_name_stat [OF n] by simp
qed

definition no_user_pinode :: "index_db \<Rightarrow> bool" where
  "no_user_pinode db \<longleftrightarrow> (\<forall>r \<in> set (ix_external db). er_type r = ''user_db'' \<longrightarrow> er_pinode r = fmt_d (0 :: 64 word))"

lemma no_user_pinode_frame:
  "ix_external db' = ix_external db \<Longrightarrow> no_user_pinode db \<Longrightarrow> no_user_pinode db'"
  by (simp add: no_user_pinode_def)

lemma no_user_pinode_insert:
  "no_user_pinode db \<Longrightarrow> t = ''user_db'' \<longrightarrow> n = 0 \<Longrightarrow> no_user_pinode (external_insert t n f db)"
  by (auto simp: no_user_pinode_def external_insert_def Let_def)

lemma create_xattr_db_user:
  "no_user_pinode db \<Longrightarrow> create_xattr_db env n u g m db = (x, db') \<Longrightarrow> no_user_pinode db'"
  by (auto simp: create_xattr_db_def Let_def intro: no_user_pinode_insert split: prod.splits if_splits)

lemma get_xattr_db_user:
  assumes "no_user_pinode db" "get_xattr_db found (create_xattr_db env n u g m db) xs db = (i, xs', db')"
  shows "no_user_pinode db'"
proof -
  obtain x d where c: "create_xattr_db env n u g m db = (x, d)" by fastforce
  show ?thesis
    using assms create_xattr_db_user [OF assms(1) c] unfolding c by (auto simp: get_xattr_db_def split: option.splits)
qed

lemma insertdbgo_xattrs_user:
  assumes "no_user_pinode db" "insertdbgo_xattrs env dir w ed xs db = (xs', db')"
  shows "no_user_pinode db'"
proof -
  obtain u g where f: "find_xattr_dbs xs 0 (w_statuso w) None None = (u, g)" by fastforce
  obtain ui xs1 db1 where 1: "get_xattr_db u
      (create_xattr_db env (w_pinode w) (st_uid (w_statuso w)) (xe_nobody_gid env) (st_mode (w_statuso w)) db) xs db = (ui, xs1, db1)"
    by (rule prod_cases3)
  obtain gi xs2 db2 where 2: "get_xattr_db g
      (create_xattr_db env (w_pinode w) (xe_nobody_uid env) (st_gid (w_statuso w)) (st_mode (w_statuso w)) db1) xs1 db1 = (gi, xs2, db2)"
    by (rule prod_cases3)
  note db1 = get_xattr_db_user [OF assms(1) 1]
  note db2 = get_xattr_db_user [OF db1 2]
  have "no_user_pinode (db\<lparr>ix_xattrs := r\<rparr>)" for r
    using assms(1) by (simp add: no_user_pinode_def)
  then show ?thesis
    using assms db1 db2 by (auto simp: insertdbgo_xattrs_def Let_def f 1 2 split: if_splits option.splits)
qed

lemma trace2index_nondir_user:
  assumes "no_user_pinode (bd_db b)" "trace2index_nondir env h delim old line junk b = Some c"
  shows "no_user_pinode (bd_db c)"
proof (cases "linetowork (line @ NUL # junk) [] delim entry_data0 old")
  case None
  then show ?thesis using assms by (simp add: trace2index_nondir_def)
next
  case (Some r)
  show ?thesis
  proof (cases r)
    case Bad
    then show ?thesis using assms Some by (simp add: trace2index_nondir_def)
  next
    case (Good we)
    obtain w ed where we: "we = (w, ed)" by fastforce
    show ?thesis
    proof (cases "ed_type ed = CHR ''e''")
      case True
      have "linetowork (line @ NUL # junk) [] delim entry_data0 old = Some (Good (w, ed))"
        using Some Good we by simp
      from linetowork_ext_stat [OF this True] have "st_ino (w_statuso w) = 0"
        by (simp add: stat0_def)
      then show ?thesis
        using True Some Good we assms by (auto simp: trace2index_nondir_def intro: no_user_pinode_insert)
    next
      case False
      obtain xs db where d: "insertdbgo_xattrs env (w_statuso w) (w\<lparr>w_pinode := 0\<rparr>) ed (bd_xattr_dbs b) (bd_db b) = (xs, db)"
        by fastforce
      have "no_user_pinode db" using insertdbgo_xattrs_user [OF assms(1) d] .
      then show ?thesis
        using False Some Good we assms(2) d
        by (auto simp: trace2index_nondir_def insert_entry_def no_user_pinode_def)
    qed
  qed
qed

lemma trace2index_loop_user:
  assumes "no_user_pinode (bd_db b)" "trace2index_loop env h delim old trace ior junk n off b = Some c"
  shows "no_user_pinode (bd_db c)"
  using assms
proof (induction n arbitrary: off b)
  case (Suc n)
  show ?case
  proof (cases "\<exists>line off'. rd trace ior off = GetlineOk line off' \<and> line \<noteq> []")
    case True
    then obtain line off' where r: "rd trace ior off = GetlineOk line off'" "line \<noteq> []" by blast
    then obtain b' where b': "trace2index_nondir env h delim old line (junk off) b = Some b'"
      "trace2index_loop env h delim old trace ior junk n off' b' = Some c"
      using Suc.prems(2) by (auto split: option.splits)
    show ?thesis
      by (rule Suc.IH [OF trace2index_nondir_user [OF Suc.prems(1) b'(1)] b'(2)])
  next
    case False
    then have "c = b"
      using Suc.prems(2) by (auto split: getline_result.splits if_splits)
    then show ?thesis using Suc.prems(1) by simp
  qed
qed simp

lemma destroy_xattr_dbs_user: "no_user_pinode db \<Longrightarrow> no_user_pinode (foldl (\<lambda>db x. destroy_xattr_db x db) db xs)"
proof (induction xs arbitrary: db)
  case (Cons x xs)
  have "no_user_pinode (external_insert ''xattrs'' (xd_pinode x) (xd_filename x) db)"
    using Cons.prems by (intro no_user_pinode_insert) simp_all
  then have "no_user_pinode (destroy_xattr_db x db)"
    by (simp add: destroy_xattr_db_def no_user_pinode_def)
  then show ?case using Cons.IH by simp
qed simp

lemma trace2index_dir_user:
  assumes "trace2index_dir env h delim old trace ior junk r = Some (Some (name, db))"
  shows "no_user_pinode db"
proof -
  obtain dir ed b where b: "trace2index_loop env h delim old trace ior junk (row_entries r) (row_offset r) building0 = Some b"
    "finish_dir True (drop (trailing_match_index (Some (w_name dir)) (w_name_len dir) [SLASH]) (w_name dir)) dir ed b = Some db"
    using assms by (auto simp: trace2index_dir_def Let_def split: option.splits parsed.splits)
  have "no_user_pinode (bd_db building0)"
    by (simp add: no_user_pinode_def building0_def empty_db_def)
  then have "no_user_pinode (bd_db b)"
    using trace2index_loop_user b(1) by blast
  then have "no_user_pinode (foldl (\<lambda>db x. destroy_xattr_db x db) (bd_db b) (bd_xattr_dbs b))"
    by (rule destroy_xattr_dbs_user)
  then show ?thesis
    using b(2) by (auto simp: finish_dir_def Let_def no_user_pinode_def)
qed

section \<open>Properties\<close>

text \<open>Both programs give a directory a database with the same entries and the same summary.\<close>

definition indexed_alike ::
    "xattr_env \<Rightarrow> bool \<Rightarrow> bool \<Rightarrow> char \<Rightarrow> nat \<Rightarrow> string \<Rightarrow> (nat \<Rightarrow> nat \<Rightarrow> io) \<Rightarrow> (nat \<Rightarrow> string) \<Rightarrow> row \<Rightarrow> source_dir \<Rightarrow> bool" where
  "indexed_alike env h x delim p trace ior junk r d \<longleftrightarrow>
     (\<exists>db db'. dir2index_dir env h x d = Some db
        \<and> trace2index_dir env h delim False trace ior junk r = Some (Some (drop p (w_name (sd_work d)), db'))
        \<and> ix_entries db' = ix_entries db \<and> ix_summary db' = ix_summary db)"

lemma dir_rows_alike:
  assumes "\<forall>d \<in> set ds. source_ok delim p d" "trace_delim delim" "reads ior"
  shows "list_all2 (indexed_alike env h x delim p (pre @ ended (concat (map (source_lines delim p) ds))) ior junk)
    (dir_rows fd delim p (length pre) ds) ds"
  using assms(1)
proof (induction ds arbitrary: pre)
  case (Cons d ds)
  let ?l = "work_line delim p (sd_work d) (sd_ed d)"
  let ?rest = "ended (concat (map (source_lines delim p) ds))"
  let ?fl = "pre @ ended (concat (map (source_lines delim p) (d # ds)))"
  let ?r = "stanza_row fd delim False ((?l, length pre + length ?l + 1), with_ends (length pre + length ?l + 1) (dir_lines delim p d))"
  have fl: "?fl = (pre @ ?l @ [LF]) @ ended (dir_lines delim p d) @ ?rest"
    "?fl = (pre @ ended (source_lines delim p d)) @ ?rest"
    by (simp_all add: source_lines_def)
  have d: "source_ok delim p d" using Cons.prems by simp
  obtain db where db: "dir2index_dir env h x d = Some db"
    using dir2index_dir_Some [OF d] by blast
  have "row_line ?r = ?l" "row_offset ?r = length (pre @ ?l @ [LF])" "row_entries ?r = length (dir_lines delim p d)"
    by (simp_all add: stanza_row_def row_init_def)
  from trace2index_dir_rows [OF d assms(2,3) db this, of env ?rest junk]
  have "indexed_alike env h x delim p ?fl ior junk ?r d"
    unfolding indexed_alike_def fl(1) using db by blast
  moreover have "list_all2 (indexed_alike env h x delim p ?fl ior junk)
      (dir_rows fd delim p (length pre + length (ended (source_lines delim p d))) ds) ds"
    using Cons.IH [of "pre @ ended (source_lines delim p d)"] Cons.prems unfolding fl(2) by simp
  ultimately show ?case
    by (simp add: Let_def)
qed simp

lemma dir2trace_texts:
  assumes "\<forall>d \<in> set ds. source_ok delim p d"
  shows "concat (map (\<lambda>d. the (dir2trace_dir delim p d)) ds) = ended (concat (map (source_lines delim p) ds))"
  using assms by (induction ds) (simp_all add: dir2trace_lines source_lines_def)

text \<open>C15: When directories are written to a trace, in whatever order, scouting the trace finds a row for each,
  in that order, and building the index from the rows gives every directory a database with the same entries
  and the same summary that building it from the directory itself does.  No name, link target or attribute and no path
  in a list of external databases may contain a newline, which would end the line of the trace; all of these are
  C strings that fit the buffers that read them, no attribute contains the delimiter of attributes, and no entry
  has the type \<open>e\<close>; the delimiter of the trace is no digit, \<open>-\<close>, newline, \<open>d\<close> or \<open>e\<close> and not the type of an
  entry; and reading the trace does not fail.\<close>

theorem trace2index_as_dir2index:
  assumes "ds \<noteq> []" "\<forall>d \<in> set ds. source_ok delim p d" "trace_delim delim" "reads ior"
    and "trace = concat (map (\<lambda>d. the (dir2trace_dir delim p d)) ds)"
  shows "\<exists>sd. scout_trace trace ior delim False fd 0 (length trace) = Some sd \<and> sd_rc sd = 0
    \<and> list_all2 (indexed_alike env h x delim p trace ior junk) (sd_queue sd) ds"
proof -
  have tr: "trace = [] @ ended (concat (map (source_lines delim p) ds))"
    using dir2trace_texts [OF assms(2)] assms(5) by simp
  let ?ls = "concat (map (source_lines delim p) ds)"
  have good: "LF \<notin> set l \<and> kind delim False l \<noteq> None" if l: "l \<in> set ?ls" for l
  proof -
    obtain d where d: "d \<in> set ds" "l \<in> set (source_lines delim p d)" using l by auto
    then have ok: "source_ok delim p d" using assms(2) by blast
    then have "in_trace delim p (sd_work d) (sd_ed d)" by (simp add: source_ok_def)
    then show ?thesis
      using d(2) kind_work dir_lines_good [OF ok assms(3)] by (auto simp: source_lines_def in_trace_def)
  qed
  have ls: "lines_to trace (length trace) 0 = with_ends 0 ?ls"
    using lines_to_ended [of ?ls "[]"] good tr by simp
  obtain d ds' where ds: "ds = d # ds'" using assms(1) by (cases ds) auto
  have "in_trace delim p (sd_work d) (sd_ed d)" "ed_type (sd_ed d) = CHR ''d''"
    using assms(2) ds by (simp_all add: source_ok_def)
  then have "is_dir delim False (hd (lines_to trace (length trace) 0))"
    using kind_work unfolding ls ds by (simp add: source_lines_def is_dir_def)
  moreover have "\<forall>l \<in> set (lines_to trace (length trace) 0). kind delim False (fst l) \<noteq> None"
  proof
    fix y
    assume "y \<in> set (lines_to trace (length trace) 0)"
    then have "fst y \<in> set (map fst (with_ends 0 ?ls))" unfolding ls by (simp only: set_map imageI)
    then show "kind delim False (fst y) \<noteq> None" using good by simp
  qed
  moreover have "0 < length trace" using tr ds by (simp add: source_lines_def)
  ultimately obtain sd where sd: "scout_trace trace ior delim False fd 0 (length trace) = Some sd" "sd_rc sd = 0"
    "sd_queue sd = map (stanza_row fd delim False) (stanzas (is_dir delim False) (lines_to trace (length trace) 0))"
    using scout_trace_lines [OF assms(4), of 0 "length trace" trace delim False fd] by auto
  have "sd_queue sd = dir_rows fd delim p (length ([] :: string)) ds"
    unfolding sd(3) ls using stanzas_sources [OF assms(2,3)] by simp
  then show ?thesis
    using sd(1,2) dir_rows_alike [OF assms(2-4), of env h x "[]" junk fd] tr by simp
qed

text \<open>A directory with a link whose attributes only its owner may read.\<close>

definition sample_env :: xattr_env where
  "sample_env = \<lparr>xe_nobody_uid = 99, xe_nobody_gid = 99, xe_creates = (\<lambda>_. True)\<rparr>"

definition sample_dir :: source_dir where
  "sample_dir = \<lparr>sd_work = sample_work, sd_ed = sample_entry\<lparr>ed_type := CHR ''d''\<rparr>,
     sd_nondirs = [\<lparr>se_stat_ok = True, se_work = sample_work, se_ed = sample_entry, se_listed = []\<rparr>]\<rparr>"

lemma LF_work_line:
  assumes "LF \<notin> set (drop p (w_name w))" "LF \<notin> set (ed_linkname ed)" "LF \<notin> set (ed_osstext1 ed)" "LF \<notin> set (ed_osstext2 ed)"
    and "LF \<notin> set (xattrs_to_file (ed_xattrs ed) XATTRDELIM)" "delim \<noteq> LF" "ed_type ed \<noteq> LF"
  shows "LF \<notin> set (work_line delim p w ed)"
proof -
  have "delim_ok LF" by (simp add: delim_ok_def is_digit_def digit_val_def)
  note d = fmt_plain [OF this]
  have x: "LF \<notin> set (fmt_04zx n)" for n
    using fmt_04zx_digits [of LF n] by (auto simp: is_digit_def digit_val_def)
  show ?thesis
    using assms d x
    by (auto simp: work_line_def line_of_def col_def prefixed_def stat_columns_def os_columns_def fmt_u_def fmt_d_def)
qed

lemma sample_in_trace:
  assumes "t = CHR ''l'' \<or> t = CHR ''d''"
  shows "in_trace (CHR ''|'') 2 sample_work (sample_entry\<lparr>ed_type := t\<rparr>)"
proof -
  have x: "LF \<notin> set (fmt_04zx n)" for n
    using fmt_04zx_digits [of LF n] by (auto simp: is_digit_def digit_val_def)
  have "LF \<notin> set (work_line (CHR ''|'') 2 sample_work (sample_entry\<lparr>ed_type := t\<rparr>))"
    using assms x by (intro LF_work_line) (auto simp: sample_work_def sample_entry_def xattrs_to_file_def xattrs_setup_def)
  moreover have "entry_ok (CHR ''|'') 2 sample_work (sample_entry\<lparr>ed_type := t\<rparr>)"
    using sample_ok(1) assms by (auto simp: entry_ok_def)
  moreover have "trailing_match_index (Some ''a'') 1 [SLASH] = 0" by code_simp
  ultimately show ?thesis
    using assms by (auto simp: in_trace_def sample_work_def)
qed

lemma sample_source: "source_ok (CHR ''|'') 2 sample_dir" "trace_delim (CHR ''|'')"
proof -
  have "sample_entry\<lparr>ed_type := CHR ''l''\<rparr> = sample_entry" by (simp add: sample_entry_def)
  then have "in_trace (CHR ''|'') 2 sample_work sample_entry" using sample_in_trace [of "CHR ''l''"] by simp
  moreover have "\<not> is_list sample_work"
    by (simp add: is_list_def sample_work_def EXTERNAL_DB_USER_FILE_def cstr_def)
  moreover have "ed_type sample_entry = CHR ''l''" by (simp add: sample_entry_def)
  ultimately show "source_ok (CHR ''|'') 2 sample_dir"
    using sample_in_trace [of "CHR ''d''"] by (simp add: source_ok_def sample_dir_def)
  show "trace_delim (CHR ''|'')" using sample_ok(2) by (simp add: trace_delim_def)
qed

lemma trace2index_as_dir2index_witness:
  "\<exists>sd. scout_trace (the (dir2trace_dir (CHR ''|'') 2 sample_dir)) (\<lambda>_ _. IoMax 3) (CHR ''|'') False 7 0
      (length (the (dir2trace_dir (CHR ''|'') 2 sample_dir))) = Some sd \<and> length (sd_queue sd) = 1"
proof -
  obtain sd where "scout_trace (the (dir2trace_dir (CHR ''|'') 2 sample_dir)) (\<lambda>_ _. IoMax 3) (CHR ''|'') False 7 0
      (length (the (dir2trace_dir (CHR ''|'') 2 sample_dir))) = Some sd"
    "list_all2 (indexed_alike sample_env True True (CHR ''|'') 2 (the (dir2trace_dir (CHR ''|'') 2 sample_dir)) (\<lambda>_ _. IoMax 3) (\<lambda>_. []))
       (sd_queue sd) [sample_dir]"
    using trace2index_as_dir2index [of "[sample_dir]" "CHR ''|''" 2 "\<lambda>_ _. IoMax 3"
        "the (dir2trace_dir (CHR ''|'') 2 sample_dir)" 7 sample_env True True "\<lambda>_. []"] sample_source
    by (auto simp: reads_def)
  then show ?thesis
    using list_all2_lengthD by fastforce
qed

text \<open>In an index built from a trace, whatever is in the trace, the databases of users are recorded without
  their directory: a query for any directory finds none of them.\<close>

theorem trace2index_user_dbs_lost:
  assumes "trace2index_dir env h delim old_format trace ior junk r = Some (Some (name, db))" "dir_inode \<noteq> fmt_d (0 :: 64 word)"
  shows "external_create_query (Some ''user_db'') (Some (basename_comp dir_inode user)) (Some (ix_external db)) = Some []"
  using trace2index_dir_user [OF assms(1)] assms(2)
  by (auto simp: no_user_pinode_def external_create_query_def basename_comp_def filter_empty_conv)

lemma trace2index_user_dbs_lost_witness:
  "\<exists>r name db. trace2index_dir sample_env True (CHR ''|'') False (the (dir2trace_dir (CHR ''|'') 2 sample_dir)) (\<lambda>_ _. IoMax 3) (\<lambda>_. []) r
      = Some (Some (name, db))
    \<and> external_create_query (Some ''user_db'') (Some (basename_comp ''7'' \<lparr>ea_basename = ''b'', ea_view = ''v''\<rparr>))
        (Some (ix_external db)) = Some []"
proof -
  let ?l = "work_line (CHR ''|'') 2 sample_work (sample_entry\<lparr>ed_type := CHR ''d''\<rparr>)"
  obtain db0 where db0: "dir2index_dir sample_env True True sample_dir = Some db0"
    using dir2index_dir_Some [OF sample_source(1)] by blast
  define r where "r = (row_init 7 0 ?l 0 (length (?l @ [LF])))\<lparr>row_entries := length (dir_lines (CHR ''|'') 2 sample_dir)\<rparr>"
  have r: "row_line r = work_line (CHR ''|'') 2 (sd_work sample_dir) (sd_ed sample_dir)" "row_offset r = length (?l @ [LF])"
    "row_entries r = length (dir_lines (CHR ''|'') 2 sample_dir)"
    by (simp_all add: r_def row_init_def sample_dir_def)
  have io: "reads (\<lambda>_ _. IoMax 3)" by (simp add: reads_def)
  have t: "the (dir2trace_dir (CHR ''|'') 2 sample_dir) = (?l @ [LF]) @ ended (dir_lines (CHR ''|'') 2 sample_dir) @ []"
    using dir2trace_lines [OF sample_source(1)] by (simp add: sample_dir_def)
  obtain db where db: "trace2index_dir sample_env True (CHR ''|'') False (the (dir2trace_dir (CHR ''|'') 2 sample_dir)) (\<lambda>_ _. IoMax 3) (\<lambda>_. []) r
      = Some (Some (drop 2 (w_name (sd_work sample_dir)), db))"
    using trace2index_dir_rows [OF sample_source io db0 r, of sample_env "[]" "\<lambda>_. []"] unfolding t by blast
  have "''7'' \<noteq> fmt_d (0 :: 64 word)" by code_simp
  from trace2index_user_dbs_lost [OF db this] show ?thesis using db by blast
qed

text \<open>\<open>gufi_trace2index\<close> compares the permissions of an entry with themselves: attributes of an entry its owner
  may read and write go into the database of the directory, where everyone who may read it sees them,
  although \<open>gufi_dir2index\<close> keeps them out.\<close>

theorem trace2index_exposes_xattrs:
  assumes "in_trace delim p (se_work e) (se_ed e)" "delim_ok delim" "se_stat_ok e" "xs_count (ed_xattrs (se_ed e)) \<noteq> 0"
    and "st_mode (w_statuso (se_work e)) AND 0x180 = 0x180"
    and "xattr_can_rollin (owner_mode_of dir) (owner_mode_of (w_statuso (se_work e))) = 0"
  shows "(\<exists>b1. dir2index_nondir env h True dir e b = Some b1 \<and> ix_xattrs (bd_db b1) = ix_xattrs (bd_db b))
    \<and> (\<exists>b2. trace2index_nondir env h delim False (work_line delim p (se_work e) (se_ed e)) junk b = Some b2
        \<and> ix_xattrs (bd_db b2) = ix_xattrs (bd_db b) @ insertdbgo_xattrs_avail (se_work e) (se_ed e))"
proof
  let ?w = "se_work e" and ?ed = "se_ed e"
  have n: "xattr_names ?ed \<noteq> None" using xattr_names_Some assms(1) by blast
  then obtain row where row: "insertdbgo ?w ?ed = Some row" by (auto simp: insertdbgo_def)
  have frame: "ix_xattrs db' = ix_xattrs db" if d: "insertdbgo_xattrs env dir ?w ?ed xs db = (xs', db')" for xs db xs' db'
  proof -
    obtain u g where f: "find_xattr_dbs xs 0 (w_statuso ?w) None None = (u, g)" by fastforce
    obtain ui xs1 db1 where 1: "get_xattr_db u
        (create_xattr_db env (w_pinode ?w) (st_uid (w_statuso ?w)) (xe_nobody_gid env) (st_mode (w_statuso ?w)) db) xs db = (ui, xs1, db1)"
      by (rule prod_cases3)
    obtain gi xs2 db2 where 2: "get_xattr_db g
        (create_xattr_db env (w_pinode ?w) (xe_nobody_uid env) (st_gid (w_statuso ?w)) (st_mode (w_statuso ?w)) db1) xs1 db1 = (gi, xs2, db2)"
      by (rule prod_cases3)
    show ?thesis
      using d assms(4,6) get_xattr_db_frame [OF 1] get_xattr_db_frame [OF 2]
      by (auto simp: insertdbgo_xattrs_def Let_def f 1 2 split: option.splits)
  qed
  show "\<exists>b1. dir2index_nondir env h True dir e b = Some b1 \<and> ix_xattrs (bd_db b1) = ix_xattrs (bd_db b)"
  proof -
    define db where "db = (if is_list ?w then foldl (\<lambda>db f. external_insert ''user_db'' (w_pinode ?w) f db) (bd_db b) (se_listed e) else bd_db b)"
    have db: "ix_xattrs db = ix_xattrs (bd_db b)" by (simp add: db_def)
    obtain xs' db' where d: "insertdbgo_xattrs env dir ?w ?ed (bd_xattr_dbs b) db = (xs', db')" by fastforce
    have "dir2index_nondir env h True dir e b = insert_entry env h True dir ?w ?ed (b\<lparr>bd_db := db\<rparr>)"
      unfolding dir2index_nondir_def db_def by (simp only: Let_def assms(3) simp_thms if_False)
    then show ?thesis
      using row d db frame [OF d] by (simp add: insert_entry_def)
  qed
  have t: "trace2index_nondir env h delim False (work_line delim p ?w ?ed) junk b =
      insert_entry env h True (w_statuso ?w) ((as_read p ?w)\<lparr>w_pinode := 0\<rparr>) ?ed b"
    using trace2index_work_line assms(1,2) by blast
  have "0x1B6 AND 0x180 = (0x180 :: 32 word)" by simp
  then have "xattr_can_rollin (owner_mode_of (w_statuso ?w)) (owner_mode_of (w_statuso ?w)) \<noteq> 0"
    using assms(5) by (simp add: xattr_can_rollin_def owner_mode_of_def)
  then have "insertdbgo_xattrs env (w_statuso ?w) ((as_read p ?w)\<lparr>w_pinode := 0\<rparr>) ?ed xs db =
      (xs, db\<lparr>ix_xattrs := ix_xattrs db @ insertdbgo_xattrs_avail ?w ?ed\<rparr>)" for xs db
    using assms(4) by (simp add: insertdbgo_xattrs_def insertdbgo_xattrs_avail_def)
  then show "\<exists>b2. trace2index_nondir env h delim False (work_line delim p ?w ?ed) junk b = Some b2
      \<and> ix_xattrs (bd_db b2) = ix_xattrs (bd_db b) @ insertdbgo_xattrs_avail ?w ?ed"
    using row insertdbgo_as_read [OF assms(1), of 0] by (simp add: t insert_entry_def)
qed

definition private_work :: work where
  "private_work = sample_work\<lparr>w_statuso := stat0\<lparr>st_mode := 0x8180, st_uid := 5\<rparr>\<rparr>"

definition private_entry :: entry_data where
  "private_entry = sample_entry\<lparr>ed_xattrs := \<lparr>x_pairs = [\<lparr>x_name = ''n'', x_name_len = 1, x_value = ''v'', x_value_len = 1\<rparr>],
     xs_name_len = 1, xs_len = 2, xs_count = 1\<rparr>\<rparr>"

lemma private_in_trace: "in_trace (CHR ''|'') 2 private_work private_entry"
proof -
  have x: "LF \<notin> set (fmt_04zx n)" for n
    using fmt_04zx_digits [of LF n] by (auto simp: is_digit_def digit_val_def)
  have "LF \<notin> set (work_line (CHR ''|'') 2 private_work private_entry)"
    using x by (intro LF_work_line)
      (auto simp: private_work_def private_entry_def sample_work_def sample_entry_def xattrs_to_file_def XATTRDELIM_def)
  moreover have "entry_ok (CHR ''|'') 2 private_work private_entry"
    by (simp add: entry_ok_def private_work_def private_entry_def sample_work_def sample_entry_def xattrs_ok_def xattr_ok_def
        pair_len_def printable_def text_ok_def file_len_def XATTR_PREFIX_LEN_def XATTRDELIM_def MAXPATH_def MAXXATTR_def)
  moreover have "trailing_match_index (Some ''a'') 1 [SLASH] = 0" by code_simp
  ultimately show ?thesis
    by (auto simp: in_trace_def private_work_def private_entry_def sample_work_def sample_entry_def)
qed

lemma trace2index_exposes_xattrs_witness:
  "\<exists>b2. trace2index_nondir sample_env True (CHR ''|'') False (work_line (CHR ''|'') 2 private_work private_entry) [] building0 = Some b2
     \<and> ix_xattrs (bd_db b2) = [(0, ''n'', ''v'')]"
proof -
  let ?e = "\<lparr>se_stat_ok = True, se_work = private_work, se_ed = private_entry, se_listed = []\<rparr>"
  have "xattr_can_rollin (owner_mode_of (stat0\<lparr>st_mode := 0x41ED\<rparr>)) (owner_mode_of (w_statuso (se_work ?e))) = 0"
    by (simp add: xattr_can_rollin_def owner_mode_of_def private_work_def stat0_def UGO_MASK_def UG_MASK_def U_MASK_def)
  from trace2index_exposes_xattrs [of "CHR ''|''" 2 ?e "stat0\<lparr>st_mode := 0x41ED\<rparr>" sample_env True building0 "[]", OF _ _ _ _ _ this]
  show ?thesis
    using private_in_trace sample_ok(2)
    by (simp add: private_entry_def private_work_def insertdbgo_xattrs_avail_def building0_def empty_db_def stat0_def)
qed

text \<open>The name in a row of the entries is the name of the entry exactly when it has no single quote: the
  quotes are doubled as in the text of a statement, but the name is bound to a prepared one.\<close>

theorem entry_names_with_quotes:
  assumes "insertdbgo w ed = Some row"
  shows "en_name row = cstr (drop (w_name_len w - w_basename_len w) (w_name w))
    \<longleftrightarrow> CHR 0x27 \<notin> set (cstr (drop (w_name_len w - w_basename_len w) (w_name w)))"
proof -
  have l: "length (concat (map (\<lambda>c. if c = CHR 0x27 then [c, c] else [c]) s)) = length s + length (filter (\<lambda>c. c = CHR 0x27) s)" for s
    by (induction s) simp_all
  have same: "CHR 0x27 \<notin> set s \<Longrightarrow> concat (map (\<lambda>c. if c = CHR 0x27 then [c, c] else [c]) s) = s" for s
    by (induction s) auto
  have "quoted s = cstr s \<longleftrightarrow> CHR 0x27 \<notin> set (cstr s)" for s
  proof
    assume "quoted s = cstr s"
    then have "length (filter (\<lambda>c. c = CHR 0x27) (cstr s)) = 0"
      using l [of "cstr s"] by (simp add: quoted_def)
    then show "CHR 0x27 \<notin> set (cstr s)" by (auto simp: filter_empty_conv)
  qed (simp add: quoted_def same)
  moreover have "en_name row = quoted (drop (w_name_len w - w_basename_len w) (w_name w))"
    using assms by (auto simp: insertdbgo_def)
  ultimately show ?thesis by simp
qed

lemma entry_names_with_quotes_witness:
  "\<exists>row. insertdbgo (sample_work\<lparr>w_name := ''p/'' @ [CHR 0x27]\<rparr>) sample_entry = Some row \<and> en_name row \<noteq> [CHR 0x27]"
proof -
  let ?w = "sample_work\<lparr>w_name := ''p/'' @ [CHR 0x27]\<rparr>"
  have "sample_entry\<lparr>ed_type := CHR ''l''\<rparr> = sample_entry" by (simp add: sample_entry_def)
  then have "xattr_names sample_entry \<noteq> None"
    using xattr_names_Some [OF sample_in_trace [of "CHR ''l''"]] by simp
  then obtain row where row: "insertdbgo ?w sample_entry = Some row" by (auto simp: insertdbgo_def)
  have "en_name row \<noteq> [CHR 0x27]"
    using entry_names_with_quotes [OF row] by (simp add: sample_work_def cstr_def)
  then show ?thesis using row by blast
qed

end
