(* ===== verification/SqlFuncs.thy ===== *)
theory SqlFuncs
  imports Complex_Main Utils Trace
begin

text \<open>
  The functions \<open>src/src/addqueryfuncs.c\<close> adds to SQLite, but for those on paths (theory \<open>SqlPaths\<close>), the dates and
  the standard deviations.  A function has a result, which may be an error of SQL, or no result (\<open>None\<close>) where the
  C code divides by zero, leaves an array, never ends or is undefined.  Numbers are doubles: a finite double is
  the rational number it stands for, and reading one with \<open>%lf\<close> is the parameter \<open>scan_lf\<close>.
\<close>

section \<open>Results\<close>

datatype sql_result = Sql_null | Sql_text string | Sql_int int | Sql_double rat | Sql_blob string | Sql_error string

section \<open>Users and groups\<close>

text \<open>\<open>sscanf(text, "%u%n", &v, &read)\<close>.\<close>

definition scan_u32 :: "string \<Rightarrow> (32 word \<times> nat) option" where
  "scan_u32 s = (let ws = takeWhile isspace s in
     map_option (\<lambda>(v, k). (word_of_int (clamp_u v), length ws + k)) (scan_num 10 (drop (length ws) s)))"

text \<open>\<open>uidtouser\<close> and \<open>gidtogroup\<close> differ in what is looked up: \<open>Inl\<close> an error, \<open>Inr None\<close> no such id.\<close>

definition id_to_name :: "(32 word \<Rightarrow> string + string option) \<Rightarrow> string option \<Rightarrow> sql_result" where
  "id_to_name lookup text =
     (case text of
        None \<Rightarrow> Sql_null
      | Some s \<Rightarrow>
          (case scan_u32 s of
             None \<Rightarrow> Sql_null
           | Some (v, read) \<Rightarrow>
               if read \<noteq> length s then Sql_error ''Bad input''
               else (case lookup v of Inl err \<Rightarrow> Sql_error err | Inr None \<Rightarrow> Sql_text s | Inr (Some name) \<Rightarrow> Sql_text name)))"

definition uidtouser :: "(32 word \<Rightarrow> string + string option) \<Rightarrow> string option \<Rightarrow> sql_result" where
  "uidtouser = id_to_name"

definition gidtogroup :: "(32 word \<Rightarrow> string + string option) \<Rightarrow> string option \<Rightarrow> sql_result" where
  "gidtogroup = id_to_name"

definition modetotxt :: "32 word \<Rightarrow> sql_result option" where
  "modetotxt mode = map_option Sql_text (modetostr 64 mode)"

section \<open>Categories\<close>

datatype dbl = Fin rat | Pos_inf | Neg_inf | NaN

fun dlt :: "dbl \<Rightarrow> dbl \<Rightarrow> bool" where
  "dlt (Fin a) (Fin b) \<longleftrightarrow> a < b"
| "dlt Neg_inf (Fin b) \<longleftrightarrow> True"
| "dlt Neg_inf Pos_inf \<longleftrightarrow> True"
| "dlt (Fin a) Pos_inf \<longleftrightarrow> True"
| "dlt _ _ \<longleftrightarrow> False"

fun deq :: "dbl \<Rightarrow> dbl \<Rightarrow> bool" where
  "deq (Fin a) (Fin b) \<longleftrightarrow> a = b"
| "deq NaN _ \<longleftrightarrow> False"
| "deq a NaN \<longleftrightarrow> False"
| "deq a b \<longleftrightarrow> a = b"

text \<open>The chain of comparisons: the first limit that is above the value.\<close>

fun below_limit :: "(rat \<times> string) list \<Rightarrow> string \<Rightarrow> dbl \<Rightarrow> string" where
  "below_limit [] final x = final"
| "below_limit ((limit, cat) # limits) final x = (if dlt x (Fin limit) then cat else below_limit limits final x)"

definition size_category :: "string \<Rightarrow> (rat \<times> string) list \<Rightarrow> string \<Rightarrow> dbl \<Rightarrow> sql_result" where
  "size_category err limits final x =
     (if dlt x (Fin 0) then Sql_error err
      else if deq x (Fin 0) then Sql_text ''Zero'' else Sql_text (below_limit limits final x))"

definition intcat_limits :: "(rat \<times> string) list" where
  "intcat_limits = [(1000, ''O''), (1000 ^ 2, ''K''), (1000 ^ 3, ''M''), (1000 ^ 4, ''B''), (1000 ^ 5, ''T''), (1000 ^ 6, ''q'')]"

definition bytecat_limits :: "(rat \<times> string) list" where
  "bytecat_limits = [(1024, ''B''), (1024 ^ 2, ''K''), (1024 ^ 3, ''M''), (1024 ^ 4, ''G''), (1024 ^ 5, ''T''), (1024 ^ 6, ''P'')]"

definition agecat_limits :: "(rat \<times> string) list" where
  "agecat_limits = [(60, ''Secs''), (60 * 60, ''Mins''), (60 * 60 * 24, ''Hrs''), (60 * 60 * 24 * 7, ''Days''),
     (60 * 60 * 24 * 30, ''Wks''), (60 * 60 * 24 * 365, ''Mos''), (60 * 60 * 24 * 365 * 10, ''Yrs'')]"

definition intcat :: "(string \<Rightarrow> dbl option) \<Rightarrow> string \<Rightarrow> sql_result" where
  "intcat scan_lf s = (case scan_lf s of None \<Rightarrow> Sql_error ''Bad size'' | Some x \<Rightarrow> size_category ''Bad size'' intcat_limits ''Q'' x)"

definition bytecat :: "(string \<Rightarrow> dbl option) \<Rightarrow> string \<Rightarrow> sql_result" where
  "bytecat scan_lf s = (case scan_lf s of None \<Rightarrow> Sql_error ''Bad size'' | Some x \<Rightarrow> size_category ''Bad size'' bytecat_limits ''E'' x)"

text \<open>\<open>minus_time now x\<close> is \<open>time(NULL) - x\<close>, a subtraction of doubles; it is exact on seconds below 2 to the 53.\<close>

fun minus_time :: "int \<Rightarrow> dbl \<Rightarrow> dbl" where
  "minus_time now (Fin q) = Fin (of_int now - q)"
| "minus_time now Pos_inf = Neg_inf"
| "minus_time now Neg_inf = Pos_inf"
| "minus_time now NaN = NaN"

definition agecat :: "(string \<Rightarrow> dbl option) \<Rightarrow> int \<Rightarrow> string \<Rightarrow> sql_result" where
  "agecat scan_lf now s =
     (case scan_lf s of None \<Rightarrow> Sql_error ''Bad size''
      | Some x \<Rightarrow> size_category ''Bad timestamp'' agecat_limits ''Decs'' (minus_time now x))"

text \<open>Converting a double to an integer cuts off the fraction; outside of the type it is undefined.\<close>

definition trunc :: "rat \<Rightarrow> int" where
  "trunc q = (if 0 \<le> q then \<lfloor>q\<rfloor> else \<lceil>q\<rceil>)"

definition to_int64 :: "dbl \<Rightarrow> int option" where
  "to_int64 x = (case x of Fin q \<Rightarrow> if - (2 ^ 63) \<le> trunc q \<and> trunc q < 2 ^ 63 then Some (trunc q) else None | _ \<Rightarrow> None)"

definition unit_seconds :: "char \<Rightarrow> int" where
  "unit_seconds c =
     (if c = CHR ''s'' then 1 else if c = CHR ''m'' then 60 else if c = CHR ''h'' then 60 * 60
      else if c = CHR ''d'' then 60 * 60 * 24 else if c = CHR ''w'' then 60 * 60 * 24 * 7
      else if c = CHR ''M'' then 60 * 60 * 24 * 30 else if c = CHR ''y'' then 60 * 60 * 24 * 365
      else if c = CHR ''D'' then 60 * 60 * 24 * 365 * 10 else 60 * 60 * 24)"

definition epochtoage :: "(string \<Rightarrow> dbl option) \<Rightarrow> int \<Rightarrow> string \<Rightarrow> string \<Rightarrow> sql_result option" where
  "epochtoage scan_lf now s unit_s =
     (case scan_lf s of
        None \<Rightarrow> Some (Sql_error ''Bad size'')
      | Some x \<Rightarrow>
          (case to_int64 (minus_time now x) of
             None \<Rightarrow> None
           | Some age \<Rightarrow>
               Some (if age < 0 then Sql_error ''Bad timestamp''
                     else Sql_int (age div unit_seconds (case unit_s of [] \<Rightarrow> NUL | c # _ \<Rightarrow> c)))))"

section \<open>Blocks\<close>

definition SIZE :: string where "SIZE = ''KMGTPE''"

text \<open>\<open>sscanf(s, "%lu", &v)\<close>: what it returns and \<open>v\<close>.\<close>

definition scan_u64 :: "string \<Rightarrow> int \<times> 64 word" where
  "scan_u64 s =
     (case sscanf_dec s of
        Some v \<Rightarrow> (1, word_of_int (clamp_u v))
      | None \<Rightarrow> (if list_all isspace s then -1 else 0, 0))"

text \<open>The multiplications up to the letter of the unit.\<close>

fun apply_unit :: "char \<Rightarrow> 64 word \<Rightarrow> string \<Rightarrow> 64 word \<Rightarrow> 64 word option" where
  "apply_unit c multiplier [] unit_size = None"
| "apply_unit c multiplier (u # us) unit_size =
     (let unit_size' = unit_size * multiplier
      in if c = u then Some unit_size' else apply_unit c multiplier us unit_size')"

definition unit_value :: "string \<Rightarrow> 64 word \<Rightarrow> 64 word option" where
  "unit_value unit unit_size =
     (let len = length unit
      in if 3 < len then None
         else if len = 0 then Some unit_size
         else if 1 < len \<and> unit ! (len - 1) \<noteq> CHR ''B'' then None
         else if len = 3 \<and> unit ! 1 \<noteq> CHR ''i'' then None
         else apply_unit (unit ! 0) (if len = 2 then 1000 else 1024) SIZE unit_size)"

text \<open>\<open>None\<close>: a division by zero.\<close>

definition blocksize :: "string \<Rightarrow> string \<Rightarrow> sql_result option" where
  "blocksize size_s unit_s =
     (case scan_u64 size_s of
        (size_found, bytes) \<Rightarrow>
          if size_found \<noteq> 1 then Some (Sql_error ''Bad blocksize size'')
          else case scan_u64 unit_s of
            (coefficient_found, coefficient) \<Rightarrow>
              if coefficient_found = 1 \<and> coefficient = 0 then Some (Sql_error ''Bad blocksize unit'')
              else
                let unit = dropWhile (is_digit 10) unit_s
                in case unit_value unit (if coefficient_found = 1 then coefficient else 1) of
                     None \<Rightarrow> Some (Sql_error ''Bad blocksize unit'')
                   | Some unit_size \<Rightarrow>
                       if unit_size = 0 then None
                       else
                         let blocks = bytes div unit_size + of_bool (bytes mod unit_size \<noteq> 0);
                             text = fmt_u blocks @ (if coefficient_found = 0 then unit else [])
                         in if 22 < length text then None else Some (Sql_text text))"

section \<open>Readable sizes\<close>

text \<open>\<open>%.1f\<close>, rounding to even.\<close>

definition round_even :: "rat \<Rightarrow> int" where
  "round_even q = (let n = \<lfloor>q\<rfloor>; d = q - of_int n in if d < 1 / 2 \<or> d = 1 / 2 \<and> even n then n else n + 1)"

definition fmt_1f :: "dbl \<Rightarrow> string" where
  "fmt_1f x =
     (case x of
        Fin q \<Rightarrow> let n = nat (round_even (\<bar>q\<bar> * 10))
          in (if q < 0 then ''-'' else []) @ digits 10 (n div 10) @ ''.'' @ digits 10 (n mod 10)
      | Pos_inf \<Rightarrow> ''inf'' | Neg_inf \<Rightarrow> ''-inf'' | NaN \<Rightarrow> ''nan'')"

text \<open>The loop does not end on infinity.\<close>

partial_function (option) divide_1024 :: "dbl \<Rightarrow> nat \<Rightarrow> (dbl \<times> nat) option" where
  "divide_1024 x unit_index =
     (if dlt x (Fin 1024) \<or> x = NaN then Some (x, unit_index)
      else divide_1024 (case x of Fin q \<Rightarrow> Fin (q / 1024) | y \<Rightarrow> y) (unit_index + 1))"

definition human_readable_size :: "(string \<Rightarrow> dbl option) \<Rightarrow> string \<Rightarrow> sql_result option" where
  "human_readable_size scan_lf s =
     (case scan_lf s of
        None \<Rightarrow> Some (Sql_error ''Bad size'')
      | Some x \<Rightarrow>
          (case divide_1024 x 0 of
             None \<Rightarrow> None
           | Some (y, unit_index) \<Rightarrow>
               if unit_index = 0 then Some (Sql_text (take 9 (fmt_1f y)))
               else if length SIZE < unit_index then None
               else Some (Sql_text (take 9 (fmt_1f y @ [SIZE ! (unit_index - 1)])))))"

section \<open>Texts\<close>

definition ext :: "string option \<Rightarrow> sql_result" where
  "ext s =
     (case s of
        None \<Rightarrow> Sql_null
      | Some str \<Rightarrow>
          let idx = trailing_match_index (Some str) (length str) ''.''
          in if idx = 0 \<or> idx = length str then Sql_null else Sql_text (drop idx str))"

text \<open>A negative length becomes a huge one as \<open>size_t\<close>, then the size of a buffer: no result.\<close>

definition rpad :: "string \<Rightarrow> int \<Rightarrow> sql_result option" where
  "rpad s pad_len =
     (if pad_len < 0 then None
      else if nat pad_len < length s then Some (Sql_text s)
      else Some (Sql_text (s @ replicate (nat pad_len - length s) (CHR '' ''))))"

definition return_error :: "string \<Rightarrow> string \<Rightarrow> sql_result option" where
  "return_error prefix str =
     (let err_len = length prefix + length str + 1
      in map_option Sql_error (SNFORMAT_S (err_len + 1)
           [(prefix, length prefix), ('' '', 1), ([CHR 0x27], 1), (str, length str), ([CHR 0x27], 1)]))"

text \<open>What \<open>getline\<close> gives: the bytes up to the first newline, with it, or -1.  \<open>Inr\<close> is the line without its last
  byte.  \<open>out\<close> is the output of the command, \<open>None\<close> when it cannot be run.\<close>

definition lineop :: "string \<Rightarrow> string option \<Rightarrow> (sql_result + string) option" where
  "lineop cmd out =
     (case out of
        None \<Rightarrow> map_option Inl (return_error ''lineop: popen failed to run'' cmd)
      | Some text \<Rightarrow>
          let line = takeWhile (\<lambda>c. c \<noteq> LF) text @ (if LF \<in> set text then [LF] else [])
          in if line = [] then map_option Inl (return_error ''lineop: failed to read result of'' cmd)
             else if length line = 1 then map_option Inl (return_error ''lineop: did not get result from'' cmd)
             else Some (Inr (butlast line)))"

definition strop :: "string \<Rightarrow> string option \<Rightarrow> sql_result option" where
  "strop cmd out = map_option (\<lambda>r. case r of Inl e \<Rightarrow> e | Inr line \<Rightarrow> Sql_text line) (lineop cmd out)"

text \<open>\<open>sscanf(line, "%d", &v)\<close>.\<close>

definition scan_d32 :: "string \<Rightarrow> int option" where
  "scan_d32 s = map_option (\<lambda>v. sint (word_of_int (clamp_s v) :: 32 word)) (sscanf_dec (cstr s))"

definition intop :: "string \<Rightarrow> string option \<Rightarrow> sql_result option" where
  "intop cmd out =
     (case lineop cmd out of
        None \<Rightarrow> None
      | Some (Inl e) \<Rightarrow> Some e
      | Some (Inr line) \<Rightarrow>
          (case scan_d32 line of
             None \<Rightarrow> return_error ''intop: could not parse result from'' (cstr line)
           | Some v \<Rightarrow> Some (Sql_int v)))"

text \<open>Reading everything: \<open>rest\<close> is what is still to come, \<open>fails\<close> whether the stream has an error at its end, and
  \<open>grows\<close> whether the buffer can grow to a size.  \<open>fread\<close> gives as much as there is and fits.\<close>

function blobop_loop :: "(nat \<Rightarrow> bool) \<Rightarrow> string \<Rightarrow> nat \<Rightarrow> string \<Rightarrow> string option" where
  "blobop_loop grows data alloc rest =
     (let got = take (alloc - length data) rest
      in if got = [] then Some data
         else
           let data' = data @ got; rest' = drop (alloc - length data) rest
           in if length data' = alloc then
                (if grows (alloc * 2) then blobop_loop grows data' (alloc * 2) rest' else None)
              else blobop_loop grows data' alloc rest')"
  by auto
termination
  by (relation "measure (\<lambda>(_, _, _, rest). length rest)") (auto simp: Let_def)

definition blobop :: "(nat \<Rightarrow> bool) \<Rightarrow> string \<Rightarrow> (string \<times> bool) option \<Rightarrow> sql_result option" where
  "blobop grows cmd out =
     (case out of
        None \<Rightarrow> return_error ''blobop: popen failed to run'' cmd
      | Some (text, fails) \<Rightarrow>
          (case blobop_loop grows [] 256 text of
             None \<Rightarrow> Some (Sql_error ''out of memory'')
           | Some data \<Rightarrow> Some (if fails then Sql_error ''SQL logic error'' else Sql_blob data)))"

section \<open>Medians\<close>

text \<open>A value is kept as a pointer: a fraction is cut off, and it has to fit in 64 bits.\<close>

definition to_pointer :: "rat \<Rightarrow> nat option" where
  "to_pointer v = (if 0 \<le> trunc v \<and> trunc v < 2 ^ 64 then Some (nat (trunc v)) else None)"

definition median_step :: "rat \<Rightarrow> nat list \<Rightarrow> nat list option" where
  "median_step v data = map_option (\<lambda>p. data @ [p]) (to_pointer v)"

text \<open>A difference that is not an \<open>int\<close> is undefined; then there is no order to sort by.\<close>

definition cmp_defined :: "nat list \<Rightarrow> bool" where
  "cmp_defined xs \<longleftrightarrow> (\<forall>a \<in> set xs. \<forall>b \<in> set xs. \<bar>int a - int b\<bar> < 2 ^ 31)"

definition median_final :: "nat list \<Rightarrow> sql_result option" where
  "median_final xs =
     (let count = length xs; half = count div 2; arr = sort xs
      in if count = 0 then Some Sql_null
         else if count = 1 then Some (Sql_double (of_nat (xs ! 0)))
         else if count = 2 then Some (Sql_double ((of_nat (xs ! 0) + of_nat (xs ! 1)) / 2))
         else if \<not> cmp_defined xs then None
         else Some (Sql_double (if odd count then of_nat (arr ! half)
                else (of_nat (arr ! half) + of_nat (arr ! (half - 1))) / 2)))"

fun median_steps :: "rat list \<Rightarrow> nat list \<Rightarrow> nat list option" where
  "median_steps [] data = Some data"
| "median_steps (v # vs) data = (case median_step v data of None \<Rightarrow> None | Some data' \<Rightarrow> median_steps vs data')"

definition median :: "rat list \<Rightarrow> sql_result option" where
  "median vs = (case median_steps vs [] of None \<Rightarrow> None | Some data \<Rightarrow> median_final data)"

section \<open>Units\<close>

text \<open>What a unit stands for: a letter, for powers of 1024, of 1000 when a \<open>B\<close> follows, of 1024 again with \<open>iB\<close>.\<close>

definition letter_power :: "char \<Rightarrow> nat option" where
  "letter_power c =
     (if c = CHR ''K'' then Some 1 else if c = CHR ''M'' then Some 2 else if c = CHR ''G'' then Some 3
      else if c = CHR ''T'' then Some 4 else if c = CHR ''P'' then Some 5 else if c = CHR ''E'' then Some 6 else None)"

fun suffix_value :: "string \<Rightarrow> nat option" where
  "suffix_value [] = Some 1"
| "suffix_value [c] = map_option (\<lambda>i. 1024 ^ i) (letter_power c)"
| "suffix_value [c, b] = (if b = CHR ''B'' then map_option (\<lambda>i. 1000 ^ i) (letter_power c) else None)"
| "suffix_value [c, i, b] = (if i = CHR ''i'' \<and> b = CHR ''B'' then map_option (\<lambda>i. 1024 ^ i) (letter_power c) else None)"
| "suffix_value _ = None"

lemma apply_unit_power: "apply_unit c m SIZE u = map_option (\<lambda>i. u * m ^ i) (letter_power c)"
  by (simp add: SIZE_def letter_power_def Let_def power_numeral_reduce power_Suc mult.assoc)

lemma unit_value_suffix: "unit_value suf u = map_option (\<lambda>m. u * of_nat m) (suffix_value suf)"
proof (cases suf rule: suffix_value.cases)
  case (2 c)
  then show ?thesis by (simp add: unit_value_def apply_unit_power option.map_comp comp_def)
next
  case (3 c b)
  then show ?thesis by (simp add: unit_value_def apply_unit_power option.map_comp comp_def)
next
  case (4 c i b)
  then show ?thesis by (simp add: unit_value_def apply_unit_power option.map_comp comp_def)
qed (simp_all add: unit_value_def)

lemma letter_power_pos: "letter_power c = Some i \<Longrightarrow> 0 < i"
  by (auto simp: letter_power_def split: if_splits)

lemma suffix_value_large:
  assumes "suffix_value suf = Some m" "suf \<noteq> []"
  shows "1000 \<le> m \<and> length suf \<le> 3"
proof -
  have p: "a \<le> a ^ i" if "letter_power c = Some i" "1 \<le> a" for a i :: nat and c
    using that letter_power_pos [OF that(1)] by (simp add: self_le_power)
  show ?thesis
    using assms p [of _ _ 1024] p [of _ _ 1000]
    by (cases suf rule: suffix_value.cases) (fastforce split: if_splits)+
qed

section \<open>Numbers in a unit\<close>

definition plain_start :: "string \<Rightarrow> bool" where
  "plain_start s \<longleftrightarrow> (case s of [] \<Rightarrow> True
     | c # _ \<Rightarrow> \<not> is_digit 10 c \<and> \<not> isspace c \<and> c \<noteq> CHR ''-'' \<and> c \<noteq> CHR ''+'')"

lemma digits10: "c \<in> set (digits 10 n) \<Longrightarrow> is_digit 10 c"
  by (rule digits_all) simp_all

lemma dropWhile_isspace_digits: "dropWhile isspace (digits 10 n @ r) = digits 10 n @ r"
  using digits10 [of "hd (digits 10 n)" n] digit_not_sign by (cases "digits 10 n") auto

lemma scan_u64_digits:
  assumes "plain_start suf" "n < 2 ^ 64"
  shows "scan_u64 (digits 10 n @ suf) = (1, of_nat n)"
proof -
  have "suf = [] \<or> \<not> is_digit 10 (hd suf)"
    using assms(1) by (auto simp: plain_start_def split: list.splits)
  then have "scan_num 10 (digits 10 n @ suf) = Some (int n, length (digits 10 n))"
    using scan_num_digits [of "digits 10 n" 10 suf] digits10 by (simp add: num_value_digits)
  then have "sscanf_dec (digits 10 n @ suf) = Some (int n)"
    by (simp add: sscanf_dec_def dropWhile_isspace_digits)
  then show ?thesis
    using assms(2) by (simp add: scan_u64_def clamp_u_def)
qed

lemma scan_u64_none:
  assumes "plain_start suf"
  shows "scan_u64 suf = (if suf = [] then -1 else 0, 0)"
proof (cases suf)
  case (Cons c r)
  then have c: "\<not> is_digit 10 c" "\<not> isspace c" "c \<noteq> CHR ''-''" "c \<noteq> CHR ''+''"
    using assms by (simp_all add: plain_start_def)
  then have "sscanf_dec suf = None"
    by (simp add: Cons sscanf_dec_def scan_num_def)
  then show ?thesis
    using c by (simp add: scan_u64_def Cons)
qed (simp add: scan_u64_def sscanf_dec_def scan_num_def)

lemma fmt_u_digits: "fmt_u w = digits 10 (unat w)"
  by (simp add: fmt_u_def fmt_dec_def)

definition blocks_for :: "nat \<Rightarrow> nat \<Rightarrow> nat" where
  "blocks_for bytes unit = (bytes + unit - 1) div unit"

lemma blocks_for_eq:
  assumes "0 < u"
  shows "blocks_for a u = a div u + of_bool (a mod u \<noteq> 0)"
proof -
  have a: "a = u * (a div u) + a mod u" by simp
  have lt: "a mod u < u" using assms by simp
  have "(u * (a div u) + (a mod u + u - 1)) div u = a div u + (a mod u + u - 1) div u"
    using assms div_mult_self4 [of u "a div u" "a mod u + u - 1"] by simp
  moreover have "(a mod u + u - 1) div u = of_bool (a mod u \<noteq> 0)"
  proof (cases "a mod u = 0")
    case False
    then have "(a mod u + u - 1) div u = 1"
      using lt by (intro div_nat_eqI) simp_all
    then show ?thesis using False by simp
  qed (use assms in simp)
  moreover have e: "a + u - 1 = u * (a div u) + (a mod u + u - 1)"
    using a assms by linarith
  ultimately show ?thesis unfolding blocks_for_def by (simp only: e)
qed

lemma blocks_word:
  assumes "u \<noteq> (0 :: 64 word)"
  shows "unat (n div u + of_bool (n mod u \<noteq> 0)) = blocks_for (unat n) (unat u)"
proof -
  have u: "0 < unat u" using assms by (simp add: unat_gt_0)
  have d: "unat (n div u) = unat n div unat u" "unat (n mod u) = unat n mod unat u"
    by (simp_all add: unat_div unat_mod)
  have z: "n mod u \<noteq> 0 \<longleftrightarrow> unat n mod unat u \<noteq> 0"
    using d(2) by (metis unat_eq_zero)
  have "unat n div unat u + of_bool (unat n mod unat u \<noteq> 0) < 2 ^ 64"
  proof (cases "unat u = 1")
    case False
    then have "unat n div unat u \<le> unat n div 2" using u by (intro div_le_mono2) simp_all
    moreover have "unat n < 2 ^ 64" using unsigned_less [of n, where ?'a = nat] by simp
    then have "unat n div 2 < 2 ^ 63" by simp
    ultimately have "unat n div unat u < 2 ^ 63" by (rule le_less_trans)
    then show ?thesis by (simp add: of_bool_def)
  qed (use unsigned_less [of n, where ?'a = nat] in simp)
  then show ?thesis
    unfolding blocks_for_eq [OF u] using d z by (simp add: unat_word_ariths(1) of_bool_def split: if_splits)
qed

text \<open>
  For any size and any text of a unit, \<open>blocksize\<close> rounds the size up to whole units and repeats the unit when
  it has no number; a text that is no unit is an error; and a unit whose bytes are a multiple of 2 to the 64
  divides by zero.
\<close>

theorem blocksize_rounds_up:
  fixes n :: "64 word"
  assumes "plain_start suf" "\<forall>c. co = Some c \<longrightarrow> 0 < c \<and> c < 2 ^ 64"
  shows "blocksize (fmt_u n) ((case co of None \<Rightarrow> [] | Some c \<Rightarrow> digits 10 c) @ suf) =
    (case suffix_value suf of
       None \<Rightarrow> Some (Sql_error ''Bad blocksize unit'')
     | Some m \<Rightarrow>
         let unit = (case co of None \<Rightarrow> 1 | Some c \<Rightarrow> c) * m mod 2 ^ 64
         in if unit = 0 then None
            else Some (Sql_text (digits 10 (blocks_for (unat n) unit) @ (if co = None then suf else []))))"
proof -
  let ?c = "case co of None \<Rightarrow> 1 | Some c \<Rightarrow> c"
  let ?unit_s = "(case co of None \<Rightarrow> [] | Some c \<Rightarrow> digits 10 c) @ suf"
  have n: "scan_u64 (fmt_u n) = (1, n)"
    using scan_u64_digits [of "[]" "unat n"] unsigned_less [of n, where ?'a = nat] by (simp add: fmt_u_digits plain_start_def)
  obtain found where u: "scan_u64 ?unit_s = (found, if co = None then 0 else of_nat ?c)"
    and found: "found = 1 \<longleftrightarrow> co \<noteq> None" "found = 0 \<longleftrightarrow> co = None \<and> suf \<noteq> []"
    using scan_u64_none [OF assms(1)] scan_u64_digits [OF assms(1)] assms(2) by (cases co) auto
  have nz: "(of_nat c :: 64 word) \<noteq> 0" if c: "co = Some c" for c
  proof -
    have "unat (of_nat c :: 64 word) = c" "0 < c" using assms(2) c by (simp_all add: unat_of_nat)
    then show ?thesis by auto
  qed
  have d: "dropWhile (is_digit 10) ?unit_s = suf"
    using digits10 assms(1) by (cases co) (auto simp: dropWhile_append2 plain_start_def split: list.splits)
  show ?thesis
  proof (cases "suffix_value suf")
    case None
    then show ?thesis
      using n u found nz d by (cases co) (auto simp: blocksize_def unit_value_suffix Let_def)
  next
    case (Some m)
    define unit :: "64 word" where "unit = of_nat (?c * m)"
    have un: "unat unit = ?c * m mod 2 ^ 64" by (simp add: unit_def unat_of_nat del: of_nat_mult)
    have v: "unit_value suf (if found = 1 then (if co = None then 0 else of_nat ?c) else 1) = Some unit"
      using Some found by (cases co) (simp_all add: unit_value_suffix unit_def)
    let ?text = "digits 10 (blocks_for (unat n) (unat unit)) @ (if co = None then suf else [])"
    have short: "length ?text \<le> 22" if z: "unit \<noteq> 0"
    proof -
      have w: "blocks_for (unat n) (unat unit) < 2 ^ 64"
        unfolding blocks_word [OF z, symmetric] by (rule order_less_le_trans [OF unsigned_less]) simp
      show ?thesis
      proof (cases "co = None \<and> suf \<noteq> []")
        case True
        then have m: "1000 \<le> m" "length suf \<le> 3" "?c = 1" using suffix_value_large [OF Some] by auto
        have "m < 2 ^ 64"
          using Some by (cases suf rule: suffix_value.cases) (auto simp: letter_power_def split: if_splits)
        then have "unat unit = m" using un m(3) by simp
        then have "blocks_for (unat n) (unat unit) \<le> unat n div 1000 + 1"
          using blocks_for_eq [of m "unat n"] m(1) div_le_mono2 [of 1000 m "unat n"] by simp
        then have "blocks_for (unat n) (unat unit) < 10 ^ 17"
          using unsigned_less [of n, where ?'a = nat] by simp
        then have "length (digits 10 (blocks_for (unat n) (unat unit))) \<le> 17"
          by (intro length_digits) simp_all
        then show ?thesis using m(2) by simp
      next
        case False
        have "length (digits 10 (blocks_for (unat n) (unat unit))) \<le> 20"
          using w by (intro length_digits) simp_all
        then show ?thesis using False by auto
      qed
    qed
    have e: "(if co = None then suf else []) = (if found = 0 then suf else [])"
      using found by auto
    have "blocksize (fmt_u n) ?unit_s = (if unit = 0 then None else Some (Sql_text ?text))"
    proof (cases "unit = 0")
      case True
      then show ?thesis
        using n u v d nz found unfolding blocksize_def by (cases co) (auto simp: Let_def fmt_u_digits)
    next
      case False
      then show ?thesis
        using short [OF False] n u v d nz found
        unfolding blocksize_def e by (cases co) (auto simp: Let_def fmt_u_digits blocks_word)
    qed
    moreover have "unit = 0 \<longleftrightarrow> ?c * m mod 2 ^ 64 = 0" using un by (metis unat_eq_zero)
    ultimately show ?thesis using Some by (simp add: Let_def un)
  qed
qed

lemma blocksize_rounds_up_witness:
  "blocksize (fmt_u (1025 :: 64 word)) ''KiB'' = Some (Sql_text ''2KiB'')
    \<and> blocksize (fmt_u (1025 :: 64 word)) ''16E'' = None"
proof -
  have d: "digits 10 16 = ''16''" "digits 10 2 = ''2''" by code_simp+
  have b: "blocks_for 1025 1024 = 2" by (simp add: blocks_for_def)
  show ?thesis
    using blocksize_rounds_up [of "''KiB''" None 1025] blocksize_rounds_up [of "''E''" "Some 16" 1025] d b
    by (simp add: plain_start_def is_digit_def digit_val_def isspace_def letter_power_def Let_def)
qed

section \<open>Sizes\<close>

lemma divide_1024_power:
  assumes "1024 ^ k \<le> q" "q < 1024 ^ (k + 1)"
  shows "divide_1024 (Fin q) i = Some (Fin (q / 1024 ^ k), i + k)"
  using assms
proof (induction k arbitrary: q i)
  case 0
  then show ?case by (subst divide_1024.simps) simp
next
  case (Suc k)
  have "(1024 :: rat) ^ 1 \<le> 1024 ^ Suc k" by (rule power_increasing) simp_all
  then have "1024 \<le> q" using Suc.prems(1) unfolding power_one_right by (rule order_trans)
  then have "divide_1024 (Fin q) i = divide_1024 (Fin (q / 1024)) (i + 1)"
    by (subst divide_1024.simps) simp
  also have "\<dots> = Some (Fin (q / 1024 / 1024 ^ k), i + 1 + k)"
    using Suc.prems by (intro Suc.IH) (simp_all add: field_simps)
  finally show ?case by (simp add: field_simps)
qed

lemma divide_1024_inf: "divide_1024 x i = Some r \<Longrightarrow> x \<noteq> Pos_inf"
  using divide_1024.raw_induct [where P = "\<lambda>x _ _. x \<noteq> Pos_inf" and xa = "(x, i)" and y = r] by fastforce

lemma divide_1024_small: "q < 1024 \<Longrightarrow> divide_1024 (Fin q) i = Some (Fin q, i)"
  by (subst divide_1024.simps) simp

text \<open>
  A size is printed with the largest unit that is not larger than it, up to E; from the next unit, 1024 to the
  seventh, on the letter is read from behind the array of units, and for infinity the loop does not end.
\<close>

theorem human_readable_size_unit:
  assumes "scan_lf s = Some x" "x = Pos_inf \<or> x = Fin q \<and> 1024 ^ k \<le> q \<and> q < 1024 ^ (k + 1)" "0 < k"
  shows "human_readable_size scan_lf s =
    (if x \<noteq> Pos_inf \<and> k \<le> 6 then Some (Sql_text (take 9 (fmt_1f (Fin (q / 1024 ^ k)) @ [SIZE ! (k - 1)]))) else None)"
proof (cases "x = Pos_inf")
  case True
  have "divide_1024 Pos_inf 0 = None" using divide_1024_inf by (cases "divide_1024 Pos_inf 0") auto
  then show ?thesis using True assms(1) by (simp add: human_readable_size_def)
next
  case False
  then have q: "x = Fin q" "1024 ^ k \<le> q" "q < 1024 ^ (k + 1)" using assms(2) by auto
  have "divide_1024 (Fin q) 0 = Some (Fin (q / 1024 ^ k), 0 + k)" by (rule divide_1024_power [OF q(2,3)])
  then show ?thesis using q(1) assms(1,3) by (simp add: human_readable_size_def SIZE_def)
qed

lemma human_readable_size_unit_witness:
  "human_readable_size (\<lambda>_. Some (Fin 1536)) ''1536'' = Some (Sql_text ''1.5K'')"
proof -
  have "take 9 (fmt_1f (Fin (1536 / 1024 ^ 1)) @ [SIZE ! (1 - 1)]) = ''1.5K''" by code_simp
  then show ?thesis using human_readable_size_unit [of "\<lambda>_. Some (Fin 1536)" "''1536''" "Fin 1536" 1536 1] by simp
qed

section \<open>Users\<close>

text \<open>
  A user id of more than 32 bits is not an error: it is cut to its low 32 bits, and the name of that user is
  the result, so that for 2 to the 32 it is the name of the superuser.
\<close>

theorem uidtouser_wraps:
  assumes "n < 2 ^ 64" "lookup (of_nat (n mod 2 ^ 32)) = Inr (Some name)"
  shows "uidtouser lookup (Some (digits 10 n)) = Sql_text name"
proof -
  have ws: "takeWhile isspace (digits 10 n) = []"
    using digits10 [of "hd (digits 10 n)" n] digit_not_sign by (cases "digits 10 n") auto
  have "scan_num 10 (digits 10 n @ []) = Some (int n, length (digits 10 n))"
    using scan_num_digits [of "digits 10 n" 10 "[]"] digits10 by (simp add: num_value_digits)
  moreover have "(word_of_int (clamp_u (int n)) :: 32 word) = of_nat (n mod 2 ^ 32)"
    using assms(1) by (simp add: clamp_u_def word_of_nat_eq_iff take_bit_eq_mod)
  ultimately have "scan_u32 (digits 10 n) = Some (of_nat (n mod 2 ^ 32), length (digits 10 n))"
    using ws by (simp add: scan_u32_def)
  then show ?thesis using assms(2) by (simp add: uidtouser_def id_to_name_def)
qed

lemma uidtouser_wraps_witness:
  "uidtouser (\<lambda>v. Inr (if v = 0 then Some ''root'' else None)) (Some (digits 10 (2 ^ 32))) = Sql_text ''root''"
  using uidtouser_wraps [of "2 ^ 32" "\<lambda>v. Inr (if v = 0 then Some ''root'' else None)" "''root''"] by simp

section \<open>Medians\<close>

lemma median_steps_Some:
  "median_steps vs data = Some xs \<Longrightarrow> xs = data @ map (\<lambda>v. nat (trunc v)) vs \<and> (\<forall>v \<in> set vs. 0 \<le> trunc v)"
  by (induction vs arbitrary: data) (fastforce simp: median_step_def to_pointer_def split: if_splits)+

lemma sorted_halves:
  assumes "sorted xs" "i < length xs"
  shows "i < length (filter (\<lambda>x. x \<le> xs ! i) xs)" "length xs - i \<le> length (filter (\<lambda>x. xs ! i \<le> x) xs)"
proof -
  have "length (filter P xs) \<ge> length (filter P (take n xs))" for P n
    by (metis append_take_drop_id filter_append length_append le_add1)
  have "filter (\<lambda>x. x \<le> xs ! i) (take (Suc i) xs) = take (Suc i) xs"
    using assms by (auto simp: filter_id_conv in_set_conv_nth intro!: sorted_nth_mono)
  moreover have "length (filter (\<lambda>x. x \<le> xs ! i) (take (Suc i) xs)) \<le> length (filter (\<lambda>x. x \<le> xs ! i) xs)"
    by (metis append_take_drop_id filter_append length_append le_add1)
  ultimately show "i < length (filter (\<lambda>x. x \<le> xs ! i) xs)" using assms(2) by simp
  have "filter (\<lambda>x. xs ! i \<le> x) (drop i xs) = drop i xs"
    using assms by (auto simp: filter_id_conv in_set_conv_nth intro!: sorted_nth_mono)
  moreover have "length (filter (\<lambda>x. xs ! i \<le> x) (drop i xs)) \<le> length (filter (\<lambda>x. xs ! i \<le> x) xs)"
    by (metis append_take_drop_id filter_append length_append le_add2)
  ultimately show "length xs - i \<le> length (filter (\<lambda>x. xs ! i \<le> x) xs)" by (metis length_drop)
qed

lemma median_final_sorted:
  assumes "median_final xs = Some (Sql_double m)"
  shows "xs \<noteq> [] \<and> m = (if odd (length xs) then of_nat (sort xs ! (length xs div 2))
    else (of_nat (sort xs ! (length xs div 2)) + of_nat (sort xs ! (length xs div 2 - 1))) / 2)"
proof (cases "length xs = 1 \<or> length xs = 2")
  case True
  then consider a where "xs = [a]" | a b where "xs = [a, b]"
    by (auto simp: length_Suc_conv numeral_2_eq_2)
  then show ?thesis
    using assms by cases (auto simp: median_final_def Let_def)
next
  case False
  then show ?thesis
    using assms by (auto simp: median_final_def Let_def split: if_splits)
qed

lemma length_filter_sort: "length (filter P (sort xs)) = length (filter P xs)"
  by (metis filter_sort length_sort sort_key_simps)

lemma length_filter_mono: "(\<And>x. P x \<Longrightarrow> Q x) \<Longrightarrow> length (filter P xs) \<le> length (filter Q xs)"
  by (induction xs) (auto simp: le_SucI)

lemma median_final_halves:
  assumes "median_final xs = Some (Sql_double m)"
  shows "length xs \<le> 2 * length (filter (\<lambda>x. of_nat x \<le> m) xs) \<and> length xs \<le> 2 * length (filter (\<lambda>x. m \<le> of_nat x) xs)"
proof -
  let ?n = "length xs" and ?arr = "sort xs"
  let ?h = "length xs div 2"
  note m = median_final_sorted [OF assms]
  have n: "0 < ?n" using m by simp
  note up = sorted_halves [of ?arr ?h]
  show ?thesis
  proof (cases "odd ?n")
    case True
    then have eq: "m = of_nat (?arr ! ?h)" using m by simp
    have "?h < length (filter (\<lambda>x. x \<le> ?arr ! ?h) xs)" "?n - ?h \<le> length (filter (\<lambda>x. ?arr ! ?h \<le> x) xs)"
      using up n unfolding length_filter_sort by simp_all
    then show ?thesis unfolding eq of_nat_le_iff by linarith
  next
    case False
    let ?a = "?arr ! (?h - 1)" and ?b = "?arr ! ?h"
    have h: "2 * ?h = ?n" "0 < ?h" using False n by presburger+
    have eq: "m = (of_nat ?b + of_nat ?a) / 2" using m False by simp
    have "?a \<le> ?b" using h n by (intro sorted_nth_mono) simp_all
    then have "(of_nat ?a :: rat) \<le> of_nat ?b" by simp
    then have ab: "of_nat ?a \<le> m" "m \<le> of_nat ?b" unfolding eq by simp_all
    have "?h - 1 < length (filter (\<lambda>x. x \<le> ?a) xs)"
    proof -
      have "?h - 1 < length ?arr" using h unfolding length_sort by linarith
      from sorted_halves(1) [OF sorted_sort this] show ?thesis unfolding length_filter_sort .
    qed
    also have "\<dots> \<le> length (filter (\<lambda>x. of_nat x \<le> m) xs)"
      by (rule length_filter_mono) (use ab(1) in \<open>meson of_nat_mono order_trans\<close>)
    finally have low: "?h \<le> length (filter (\<lambda>x. of_nat x \<le> m) xs)" by linarith
    have "?n - ?h \<le> length (filter (\<lambda>x. ?b \<le> x) xs)"
      using up(2) n unfolding length_filter_sort by simp
    also have "\<dots> \<le> length (filter (\<lambda>x. m \<le> of_nat x) xs)"
      by (rule length_filter_mono) (use ab(2) in \<open>meson of_nat_mono order_trans\<close>)
    finally show ?thesis using low h by linarith
  qed
qed

text \<open>
  The median of any values, their fractions cut off, is not below half of them and not above half of them.
\<close>

theorem median_halves:
  assumes "median vs = Some (Sql_double m)"
  shows "length vs \<le> 2 * length (filter (\<lambda>v. of_int (trunc v) \<le> m) vs)
    \<and> length vs \<le> 2 * length (filter (\<lambda>v. m \<le> of_int (trunc v)) vs)"
proof -
  obtain xs where xs: "median_steps vs [] = Some xs" "median_final xs = Some (Sql_double m)"
    using assms by (auto simp: median_def split: option.splits)
  have eq: "xs = map (\<lambda>v. nat (trunc v)) vs" and pos: "\<forall>v \<in> set vs. 0 \<le> trunc v"
    using median_steps_Some [OF xs(1)] by simp_all
  have "filter (\<lambda>v. P (of_nat (nat (trunc v)))) vs = filter (\<lambda>v. P (of_int (trunc v))) vs" for P :: "rat \<Rightarrow> bool"
    using pos by (intro filter_cong) simp_all
  from this [of "\<lambda>y. y \<le> m"] this [of "\<lambda>y. m \<le> y"] show ?thesis
    using median_final_halves [OF xs(2)] by (simp add: eq filter_map comp_def)
qed

lemma median_halves_witness:
  "median [5, 1, 3/2] = Some (Sql_double 1)
     \<and> length [5, 1, 3/2 :: rat] \<le> 2 * length (filter (\<lambda>v. of_int (trunc v) \<le> (1 :: rat)) [5, 1, 3/2])"
proof -
  have "median [5, 1, 3/2] = Some (Sql_double 1)" by code_simp
  then show ?thesis using median_halves [of "[5, 1, 3/2]" 1] by blast
qed

end
