(* ===== verification/SqlPaths.thy ===== *)
theory SqlPaths
  imports SqlFuncs Rollup
begin

text \<open>
  The functions of \<open>src/src/addqueryfuncs.c\<close> on the directory a query is in: \<open>path\<close>, \<open>epath\<close>, \<open>rpath\<close>, \<open>spath\<close> and the
  small ones.  What \<open>rpath\<close> gives is put together with the rows of a rolled up index (theory \<open>Rollup\<close>).
\<close>

text \<open>The fields of \<open>struct work\<close> they use; \<open>aw_root_len\<close> is \<open>root_parent.len + root_basename_len\<close>.\<close>

record aqf_work =
  aw_name :: string
  aw_basename_len :: nat
  aw_root_len :: nat
  aw_orig_root :: string
  aw_level :: nat
  aw_pinode :: "64 word"

text \<open>\<open>prefix\<close> in place of the first bytes of a path; \<open>None\<close> when the path does not have them.\<close>

definition replace_root :: "string \<Rightarrow> nat \<Rightarrow> string \<Rightarrow> (string \<times> nat) list \<Rightarrow> nat \<Rightarrow> string option" where
  "replace_root prefix root_len p more_args more_len =
     (if length p < root_len then None
      else SNFORMAT_S (length prefix + length p - root_len + more_len + 1)
        ([(prefix, length prefix), (drop root_len p, length p - root_len)] @ more_args))"

text \<open>Without the path of the user it is the name without its last part; when that is all of it, the length is
  negative and SQLite takes all of the string.\<close>

definition path_fn :: "aqf_work \<Rightarrow> sql_result option" where
  "path_fn w =
     (if aw_orig_root w \<noteq> [] then map_option Sql_text (replace_root (aw_orig_root w) (aw_root_len w) (aw_name w) [] 0)
      else
        let n = int (length (aw_name w)) - int (aw_basename_len w) - 1
        in Some (Sql_text (if n < 0 then cstr (aw_name w) else take (nat n) (aw_name w))))"

definition epath :: "aqf_work \<Rightarrow> sql_result" where
  "epath w = Sql_text (drop (length (aw_name w) - aw_basename_len w) (aw_name w))"

text \<open>\<open>entry\<close> is the third argument: \<open>None\<close> when there is none, \<open>Some None\<close> when it is NULL, which is read.\<close>

definition modify_prefix :: "string \<Rightarrow> aqf_work \<Rightarrow> string option \<Rightarrow> int \<Rightarrow> string option option \<Rightarrow> sql_result option" where
  "modify_prefix prefix w sname isrolledup entry =
     (case entry of
        Some None \<Rightarrow> None
      | _ \<Rightarrow>
          let (more_args, more_len) = (case entry of
                 Some (Some e) \<Rightarrow> ([(''/'', 1), (e, length e)], 1 + length e) | _ \<Rightarrow> ([], 0));
              fullpath = (if isrolledup = 0 then Some (aw_name w)
                 else case sname of
                        None \<Rightarrow> None
                      | Some s \<Rightarrow> SNFORMAT_S (length (aw_name w) - aw_basename_len w + length s + 1)
                          [(aw_name w, length (aw_name w) - aw_basename_len w), (s, length s)])
          in case fullpath of
               None \<Rightarrow> None
             | Some p \<Rightarrow> map_option Sql_text (replace_root prefix (aw_root_len w) p more_args more_len))"


definition spath :: "string option \<Rightarrow> aqf_work \<Rightarrow> string option \<Rightarrow> int \<Rightarrow> string option option \<Rightarrow> sql_result option" where
  "spath source_prefix w sname isrolledup entry =
     (case source_prefix of
        None \<Rightarrow> Some (Sql_error ''spath() requires source path (-p)'')
      | Some s \<Rightarrow> if s = [] then Some (Sql_error ''spath() requires source path (-p)'')
          else modify_prefix s w sname isrolledup entry)"

definition starting_point :: "aqf_work \<Rightarrow> sql_result" where
  "starting_point w = Sql_text (aw_orig_root w)"

definition relative_level :: "aqf_work \<Rightarrow> sql_result" where
  "relative_level w = Sql_int (sint (of_nat (aw_level w) :: 64 word))"

definition pinode_fn :: "aqf_work \<Rightarrow> sql_result" where
  "pinode_fn w = Sql_int (sint (aw_pinode w))"

section \<open>Paths\<close>



section \<open>Rolled up rows\<close>









end
