(* ===== verification/Incremental.thy ===== *)
theory Incremental
  imports Trie Bytes Index
begin

text \<open>
  \<open>gufi_incremental_update\<close>: snapshots of the index and of the tree, their difference, and what is done to the
  directories of the index (\<open>src/src/gufi_incremental_update\<close>).  A path is the list of its names, from the directory
  that holds the top of the subtree.  A directory of the file system has an identity, the directory it is in, a name
  and a content; \<open>rename\<close> changes where it is, with everything below it.
\<close>

section \<open>The parking lot\<close>

datatype path_stat = Is_dir | Not_dir | Enoent | Stat_error

text \<open>-1 is an error, 0 a directory that was there, 1 one that was made.\<close>

definition setup_parking_lot :: "path_stat \<Rightarrow> bool \<Rightarrow> int" where
  "setup_parking_lot st mkdir_ok =
     (case st of Is_dir \<Rightarrow> 0 | Not_dir \<Rightarrow> -1 | Stat_error \<Rightarrow> -1 | Enoent \<Rightarrow> if mkdir_ok then 1 else -1)"

definition cleanup_parking_lot :: "int \<Rightarrow> bool \<Rightarrow> int" where
  "cleanup_parking_lot created remove_ok = (if created = 1 \<and> \<not> remove_ok then -1 else 0)"

text \<open>Where the artifacts go: \<open>None\<close> is a refusal.  \<open>realpath\<close> is a parameter.\<close>

definition handle_artifacts_dir ::
    "(string \<Rightarrow> string option) \<Rightarrow> (string \<Rightarrow> bool) \<Rightarrow> string option \<Rightarrow> string \<Rightarrow> bool \<Rightarrow> string option" where
  "handle_artifacts_dir realpath writable keep parking_lot created_parking_lot =
     (case keep of
        None \<Rightarrow> Some parking_lot
      | Some dir \<Rightarrow>
          (case realpath dir of
             None \<Rightarrow> None
           | Some real_artifacts \<Rightarrow>
               if created_parking_lot \<and> realpath parking_lot = Some real_artifacts then None
               else if \<not> writable dir then None else Some dir))"

section \<open>Suspects\<close>

record suspect_inodes =
  si_min :: "64 word"
  si_max :: "64 word"
  si_inodes :: "(unit, unit) trie"

definition no_suspects :: suspect_inodes where
  "no_suspects = \<lparr>si_min = -1, si_max = 0, si_inodes = trie_alloc\<rparr>"

definition add_suspect :: "string \<Rightarrow> 64 word \<Rightarrow> suspect_inodes \<Rightarrow> suspect_inodes" where
  "add_suspect inode_str inode s =
     \<lparr>si_min = (if inode < si_min s then inode else si_min s), si_max = (if si_max s < inode then inode else si_max s),
      si_inodes = fst (trie_insert_node (si_inodes s) inode_str None None)\<rparr>"

text \<open>The words of the file, a number and a letter at a time; directories first.\<close>

fun setup_suspect_file :: "(string \<times> char) list \<Rightarrow> suspect_inodes \<Rightarrow> suspect_inodes \<Rightarrow> suspect_inodes \<times> suspect_inodes" where
  "setup_suspect_file [] dirs fls = (dirs, fls)"
| "setup_suspect_file ((inode_str, type) # rest) dirs fls =
     (case sscanf_dec inode_str of
        None \<Rightarrow> setup_suspect_file rest dirs fls
      | Some v \<Rightarrow>
          let inode = word_of_int (clamp_u v)
          in if type = CHR ''d'' then setup_suspect_file rest (add_suspect inode_str inode dirs) fls
             else if type = CHR ''f'' \<or> type = CHR ''l'' then setup_suspect_file rest dirs (add_suspect inode_str inode fls)
             else setup_suspect_file rest dirs fls)"

definition find_inode :: "suspect_inodes \<Rightarrow> 64 word \<Rightarrow> bool" where
  "find_inode s inode =
     (if inode < si_min s then False else if si_max s < inode then False
      else trie_search_node (si_inodes s) (digits 10 (unat inode)) \<noteq> None)"

record suspect_input =
  su_method :: nat
  su_stat :: bool
  su_time :: int

text \<open>An entry: its inode and its times, \<open>None\<close> when it cannot be examined.\<close>

record suspect_entry =
  se_inode :: "64 word"
  se_times :: "(int \<times> int) option" \<comment> \<open>ctime and mtime\<close>

definition compare_suspect_time :: "suspect_entry \<Rightarrow> int \<Rightarrow> bool" where
  "compare_suspect_time w suspect_time =
     (case se_times w of None \<Rightarrow> True | Some (c, m) \<Rightarrow> suspect_time \<le> c \<or> suspect_time \<le> m)"

definition is_suspect :: "suspect_input \<Rightarrow> suspect_inodes \<Rightarrow> suspect_entry \<Rightarrow> bool" where
  "is_suspect inp s w =
     (if su_method inp = 1 then
        (if find_inode s (se_inode w) \<and> su_stat inp then compare_suspect_time w (su_time inp) else find_inode s (se_inode w))
      else if su_method inp = 3 then compare_suspect_time w (su_time inp)
      else False)"

text \<open>What \<open>processdir\<close> of \<open>find_suspects.c\<close> decides of a directory: it is examined, then its files and links when
  the method is above 1.\<close>

definition directory_suspect ::
    "suspect_input \<Rightarrow> suspect_inodes \<Rightarrow> suspect_inodes \<Rightarrow> suspect_entry \<Rightarrow> suspect_entry list \<Rightarrow> bool" where
  "directory_suspect inp dirs fls w nondirs =
     foldl (\<lambda>suspect n. suspect \<or> is_suspect inp fls n) (is_suspect inp dirs w) (if 1 < su_method inp then nondirs else [])"

section \<open>Tops of changed subtrees\<close>

text \<open>A directory of the tree: whether it can be opened, whether it can be examined, what \<open>is_suspect\<close> says of it.\<close>

datatype src_dir = Src_dir (sd_name: string) (sd_opens: bool) (sd_stats: bool) (sd_suspect: bool) (sd_dirs: "src_dir list")

text \<open>The tops below a directory at a level, with their paths; what the threads do is gathered in the order of the tree.\<close>

fun find_top :: "nat \<Rightarrow> nat \<Rightarrow> nat \<Rightarrow> string list \<Rightarrow> src_dir \<Rightarrow> string list list" where
  "find_top min_level max_level level p (Src_dir n opens stats suspect ds) =
     (if \<not> opens then []
      else if min_level \<le> level \<and> (\<not> stats \<or> suspect) then [p @ [n]]
      else if level + 1 \<le> max_level then concat (map (find_top min_level max_level (level + 1) (p @ [n])) ds)
      else [])"

section \<open>Snapshots\<close>

record snap_row =
  sr_path :: "string list"
  sr_inode :: nat
  sr_pinode :: nat
  sr_depth :: nat
  sr_suspect :: bool

text \<open>The names are escaped as in the text of a statement, and bound.\<close>

definition insert_snapshot_row :: "string list \<Rightarrow> nat \<Rightarrow> nat \<Rightarrow> nat \<Rightarrow> bool \<Rightarrow> snap_row" where
  "insert_snapshot_row p inode pinode level suspect =
     \<lparr>sr_path = map quoted p, sr_inode = inode, sr_pinode = pinode, sr_depth = level, sr_suspect = suspect\<rparr>"

section \<open>The difference\<close>

type_synonym diff_row = "snap_row option \<times> snap_row option" \<comment> \<open>of the index and of the tree\<close>

definition get_urd :: "snap_row list \<Rightarrow> snap_row list \<Rightarrow> diff_row list" where
  "get_urd index tree = concat (map (\<lambda>i.
     case filter (\<lambda>t. sr_inode i = sr_inode t) tree of
       [] \<Rightarrow> [(Some i, None)]
     | ts \<Rightarrow> map (\<lambda>t. (Some i, Some t)) ts) index)"

definition get_created :: "snap_row list \<Rightarrow> snap_row list \<Rightarrow> diff_row list" where
  "get_created index tree = map (\<lambda>t. (None, Some t)) (filter (\<lambda>t. sr_inode t \<notin> sr_inode ` set index) tree)"

text \<open>The conditions, NULL compared with anything being false.\<close>

fun differ :: "(snap_row \<Rightarrow> 'v) \<Rightarrow> diff_row \<Rightarrow> bool" where
  "differ f (Some i, Some t) \<longleftrightarrow> f i \<noteq> f t"
| "differ f _ \<longleftrightarrow> False"

definition get_diff :: "snap_row list \<Rightarrow> snap_row list \<Rightarrow> diff_row list" where
  "get_diff index tree = filter (\<lambda>r. differ sr_pinode r \<or> differ sr_path r \<or> fst r = None \<or> snd r = None
     \<or> (case snd r of None \<Rightarrow> False | Some t \<Rightarrow> sr_suspect t)) (get_urd index tree @ get_created index tree)"

definition deletes_and_move_outs :: "diff_row \<Rightarrow> bool" where
  "deletes_and_move_outs r \<longleftrightarrow> snd r = None \<or> differ sr_pinode r \<or> differ sr_path r"

definition creates_and_move_ins :: "diff_row \<Rightarrow> bool" where
  "creates_and_move_ins r \<longleftrightarrow> fst r = None \<or> differ sr_pinode r \<or> differ sr_path r"

definition updates :: "diff_row \<Rightarrow> bool" where
  "updates r \<longleftrightarrow> snd r \<noteq> None"

text \<open>What a query with \<open>ORDER BY\<close> may give: the rows in any order that the key allows.\<close>

definition ordered_rows :: "(diff_row \<Rightarrow> bool) \<Rightarrow> (diff_row \<Rightarrow> diff_row \<Rightarrow> bool) \<Rightarrow> diff_row list \<Rightarrow> diff_row list \<Rightarrow> bool" where
  "ordered_rows sel before diff rows \<longleftrightarrow> mset rows = mset (filter sel diff) \<and> sorted_wrt before rows"

definition deeper_in_index :: "diff_row \<Rightarrow> diff_row \<Rightarrow> bool" where
  "deeper_in_index a b \<longleftrightarrow> (case (fst a, fst b) of (Some i, Some j) \<Rightarrow> sr_depth j \<le> sr_depth i | _ \<Rightarrow> True)"

definition higher_in_tree :: "diff_row \<Rightarrow> diff_row \<Rightarrow> bool" where
  "higher_in_tree a b \<longleftrightarrow> (case (snd a, snd b) of (Some i, Some j) \<Rightarrow> sr_depth i \<le> sr_depth j | _ \<Rightarrow> True)"

section \<open>The directories of the index\<close>

datatype home = At_top | In_lot | In_dir nat

record 'd content =
  ct_db :: "'d option"
  ct_perms :: "(nat \<times> nat \<times> nat) option" \<comment> \<open>mode, user and group it was given, \<open>None\<close> as \<open>mkdir\<close> leaves them\<close>
  ct_other :: bool \<comment> \<open>other files, such as databases of attributes\<close>

record 'd fdir =
  fd_id :: nat
  fd_home :: home
  fd_name :: string
  fd_content :: "'d content"

definition child_of :: "'d fdir list \<Rightarrow> home \<Rightarrow> string \<Rightarrow> 'd fdir option" where
  "child_of fs h n = find (\<lambda>d. fd_home d = h \<and> fd_name d = n) fs"

fun walk :: "'d fdir list \<Rightarrow> home \<Rightarrow> string list \<Rightarrow> home option" where
  "walk fs h [] = Some h"
| "walk fs h (n # ns) = (case child_of fs h n of None \<Rightarrow> None | Some d \<Rightarrow> walk fs (In_dir (fd_id d)) ns)"

definition lookup_dir :: "'d fdir list \<Rightarrow> string list \<Rightarrow> 'd fdir option" where
  "lookup_dir fs p = (if p = [] then None else
     case walk fs At_top (butlast p) of None \<Rightarrow> None | Some h \<Rightarrow> child_of fs h (last p))"

definition change_dir :: "nat \<Rightarrow> ('d fdir \<Rightarrow> 'd fdir) \<Rightarrow> 'd fdir list \<Rightarrow> 'd fdir list" where
  "change_dir i f fs = map (\<lambda>d. if fd_id d = i then f d else d) fs"

definition is_empty_dir :: "'d fdir list \<Rightarrow> 'd fdir \<Rightarrow> bool" where
  "is_empty_dir fs d \<longleftrightarrow> ct_db (fd_content d) = None \<and> \<not> ct_other (fd_content d) \<and> \<not> (\<exists>e \<in> set fs. fd_home e = In_dir (fd_id d))"

text \<open>System calls; \<open>None\<close> is an error.\<close>

definition unlink_db :: "'d fdir list \<Rightarrow> string list \<Rightarrow> 'd fdir list option" where
  "unlink_db fs p =
     (case lookup_dir fs p of
        None \<Rightarrow> None
      | Some d \<Rightarrow> if ct_db (fd_content d) = None then None
          else Some (change_dir (fd_id d) (\<lambda>d. d\<lparr>fd_content := (fd_content d)\<lparr>ct_db := None\<rparr>\<rparr>) fs))"

definition rmdir :: "'d fdir list \<Rightarrow> string list \<Rightarrow> 'd fdir list option" where
  "rmdir fs p =
     (case lookup_dir fs p of
        None \<Rightarrow> None
      | Some d \<Rightarrow> if is_empty_dir fs d then Some (filter (\<lambda>e. fd_id e \<noteq> fd_id d) fs) else None)"

definition mkdir :: "'d fdir list \<Rightarrow> string list \<Rightarrow> 'd fdir list option" where
  "mkdir fs p = (if p = [] then None else
     case walk fs At_top (butlast p) of
       None \<Rightarrow> None
     | Some h \<Rightarrow> if child_of fs h (last p) \<noteq> None then None
         else Some (\<lparr>fd_id = Suc (Max (insert 0 (set (map fd_id fs)))), fd_home = h, fd_name = last p,
                fd_content = \<lparr>ct_db = None, ct_perms = None, ct_other = False\<rparr>\<rparr> # fs))"

text \<open>A directory \<open>d\<close> gets another place; what is there has to be an empty directory.\<close>

definition rename_dir :: "'d fdir list \<Rightarrow> 'd fdir \<Rightarrow> home \<Rightarrow> string \<Rightarrow> 'd fdir list option" where
  "rename_dir fs d h n =
     (case child_of fs h n of
        None \<Rightarrow> Some (change_dir (fd_id d) (\<lambda>d. d\<lparr>fd_home := h, fd_name := n\<rparr>) fs)
      | Some e \<Rightarrow>
          if fd_id e = fd_id d then Some fs
          else if is_empty_dir fs e then
            Some (change_dir (fd_id d) (\<lambda>d. d\<lparr>fd_home := h, fd_name := n\<rparr>) (filter (\<lambda>x. fd_id x \<noteq> fd_id e) fs))
          else None)"

section \<open>Applying the difference\<close>

definition lot_name :: "nat \<Rightarrow> string" where
  "lot_name inode = ''d.'' @ digits 10 inode"

text \<open>A row of each query.  After an error the next row follows.\<close>

definition apply_removes_and_move_outs_callback :: "'d fdir list \<Rightarrow> diff_row \<Rightarrow> 'd fdir list" where
  "apply_removes_and_move_outs_callback fs r =
     (case r of
        (Some i, None) \<Rightarrow>
          (case unlink_db fs (sr_path i) of
             None \<Rightarrow> fs
           | Some fs1 \<Rightarrow> (case rmdir fs1 (sr_path i) of None \<Rightarrow> fs1 | Some fs2 \<Rightarrow> fs2))
      | (Some i, Some t) \<Rightarrow>
          (case lookup_dir fs (sr_path i) of
             None \<Rightarrow> fs
           | Some d \<Rightarrow> (case rename_dir fs d In_lot (lot_name (sr_inode t)) of None \<Rightarrow> fs | Some fs1 \<Rightarrow> fs1))
      | (None, _) \<Rightarrow> fs)"

definition apply_creates_and_move_ins_callback :: "'d fdir list \<Rightarrow> diff_row \<Rightarrow> 'd fdir list" where
  "apply_creates_and_move_ins_callback fs r =
     (case r of
        (None, Some t) \<Rightarrow> (case mkdir fs (sr_path t) of None \<Rightarrow> fs | Some fs1 \<Rightarrow> fs1)
      | (Some i, Some t) \<Rightarrow>
          (case (child_of fs In_lot (lot_name (sr_inode t)), walk fs At_top (butlast (sr_path t))) of
             (Some d, Some h) \<Rightarrow> (case rename_dir fs d h (last (sr_path t)) of None \<Rightarrow> fs | Some fs1 \<Rightarrow> fs1)
           | _ \<Rightarrow> fs)
      | (_, None) \<Rightarrow> fs)"

text \<open>
  The databases that were built for suspects are in the parking lot under the inode.  The row of the summary that a
  database holds is a parameter, \<open>None\<close> when the database cannot be opened or queried; it gives the directory its
  permissions and its owner.
\<close>

definition placed_db :: "('d \<Rightarrow> (nat \<times> nat \<times> nat) option) \<Rightarrow> 'd \<Rightarrow> 'd content \<Rightarrow> 'd content" where
  "placed_db perms_of db c =
     c\<lparr>ct_db := Some db,
       ct_perms := (case perms_of db of None \<Rightarrow> ct_perms c | Some (mode, uid, gid) \<Rightarrow> Some (mode mod 512, uid, gid))\<rparr>"

definition apply_update ::
    "('d \<Rightarrow> (nat \<times> nat \<times> nat) option) \<Rightarrow> 'd fdir list \<times> (nat \<Rightarrow> 'd option) \<Rightarrow> diff_row
     \<Rightarrow> 'd fdir list \<times> (nat \<Rightarrow> 'd option)" where
  "apply_update perms_of s r =
     (case snd r of
        None \<Rightarrow> s
      | Some t \<Rightarrow>
          (case (snd s (sr_inode t), lookup_dir (fst s) (sr_path t)) of
             (Some db, Some d) \<Rightarrow>
               (change_dir (fd_id d) (\<lambda>d. d\<lparr>fd_content := placed_db perms_of db (fd_content d)\<rparr>) (fst s),
                (snd s)(sr_inode t := None))
           | _ \<Rightarrow> s))"

definition incremental_update ::
    "('d \<Rightarrow> (nat \<times> nat \<times> nat) option) \<Rightarrow> diff_row list \<Rightarrow> diff_row list \<Rightarrow> diff_row list
     \<Rightarrow> 'd fdir list \<times> (nat \<Rightarrow> 'd option) \<Rightarrow> 'd fdir list \<times> (nat \<Rightarrow> 'd option)" where
  "incremental_update perms_of outs ins ups s =
     (let fs1 = foldl apply_removes_and_move_outs_callback (fst s) outs;
          fs2 = foldl apply_creates_and_move_ins_callback fs1 ins
      in foldl (apply_update perms_of) (fs2, snd s) ups)"

end
