(* ===== verification/IncrementalProps.thy ===== *)
theory IncrementalProps
  imports Incremental "HOL-Library.Sublist"
begin

text \<open>
  What an incremental update does to the index: its directories become those of the tree.  The state of the
  directories between two steps is a placement, which gives every inode of a snapshot its place and content.
\<close>

section \<open>Snapshots\<close>

definition row_of :: "snap_row list \<Rightarrow> nat \<Rightarrow> snap_row option" where
  "row_of rows i = find (\<lambda>r. sr_inode r = i) rows"

text \<open>A snapshot of a tree: every row but the top's has the row of the directory it is in.\<close>

definition snapshot_ok :: "snap_row list \<Rightarrow> bool" where
  "snapshot_ok rows \<longleftrightarrow> distinct (map sr_inode rows) \<and> distinct (map sr_path rows)
     \<and> (\<forall>r \<in> set rows. sr_path r \<noteq> [] \<and> (1 < length (sr_path r) \<longrightarrow>
          (\<exists>u \<in> set rows. sr_path u = butlast (sr_path r) \<and> sr_inode u = sr_pinode r)))
     \<and> (\<exists>b. \<forall>r \<in> set rows. Suc (sr_depth r) = b + length (sr_path r))"

lemma find_unique:
  assumes "x \<in> set xs" "P x" "\<And>y. y \<in> set xs \<Longrightarrow> P y \<Longrightarrow> y = x"
  shows "find P xs = Some x"
proof (cases "find P xs")
  case None
  then show ?thesis using assms(1,2) by (auto simp: find_None_iff)
next
  case (Some y)
  then have "y \<in> set xs \<and> P y" by (auto simp: find_Some_iff)
  then show ?thesis using assms(3) Some by blast
qed

lemma row_of_Some: "snapshot_ok rows \<Longrightarrow> r \<in> set rows \<Longrightarrow> row_of rows (sr_inode r) = Some r"
  unfolding row_of_def snapshot_ok_def by (intro find_unique) (auto simp: distinct_map inj_on_def)

lemma row_of_SomeD: "row_of rows i = Some r \<Longrightarrow> r \<in> set rows \<and> sr_inode r = i"
  by (auto simp: row_of_def find_Some_iff)

lemma row_of_None: "row_of rows i = None \<longleftrightarrow> i \<notin> sr_inode ` set rows"
  by (auto simp: row_of_def find_None_iff)

lemma snapshot_path_inj: "snapshot_ok rows \<Longrightarrow> r \<in> set rows \<Longrightarrow> s \<in> set rows \<Longrightarrow> sr_path r = sr_path s \<Longrightarrow> r = s"
  by (auto simp: snapshot_ok_def distinct_map inj_on_def)

lemma snapshot_inode_inj: "snapshot_ok rows \<Longrightarrow> r \<in> set rows \<Longrightarrow> s \<in> set rows \<Longrightarrow> sr_inode r = sr_inode s \<Longrightarrow> r = s"
  by (auto simp: snapshot_ok_def distinct_map inj_on_def)

lemma snapshot_parent:
  assumes "snapshot_ok rows" "r \<in> set rows" "1 < length (sr_path r)"
  obtains u where "u \<in> set rows" "sr_path u = butlast (sr_path r)" "sr_inode u = sr_pinode r"
  using assms by (auto simp: snapshot_ok_def)

lemma snapshot_path_ne: "snapshot_ok rows \<Longrightarrow> r \<in> set rows \<Longrightarrow> sr_path r \<noteq> []"
  by (simp add: snapshot_ok_def)

lemma snapshot_depth:
  assumes "snapshot_ok rows" "r \<in> set rows" "s \<in> set rows"
  shows "sr_depth r \<le> sr_depth s \<longleftrightarrow> length (sr_path r) \<le> length (sr_path s)"
proof -
  obtain b where "\<forall>r \<in> set rows. Suc (sr_depth r) = b + length (sr_path r)" using assms(1) by (auto simp: snapshot_ok_def)
  then have "Suc (sr_depth r) = b + length (sr_path r)" "Suc (sr_depth s) = b + length (sr_path s)" using assms(2,3) by auto
  then show ?thesis by linarith
qed

section \<open>Placements\<close>

definition placed :: "(nat \<Rightarrow> nat) \<Rightarrow> (nat \<Rightarrow> (home \<times> string \<times> 'd content) option) \<Rightarrow> 'd fdir list \<Rightarrow> bool" where
  "placed f pl fs \<longleftrightarrow> distinct (map fd_id fs) \<and> inj_on f (dom pl)
     \<and> set fs = {\<lparr>fd_id = f i, fd_home = h, fd_name = n, fd_content = c\<rparr> | i h n c. pl i = Some (h, n, c)}
     \<and> (\<forall>i j h n c c'. pl i = Some (h, n, c) \<longrightarrow> pl j = Some (h, n, c') \<longrightarrow> i = j)"

lemma placed_in: "placed f pl fs \<Longrightarrow> pl i = Some (h, n, c) \<Longrightarrow> \<lparr>fd_id = f i, fd_home = h, fd_name = n, fd_content = c\<rparr> \<in> set fs"
  by (auto simp: placed_def)

lemma placed_mem:
  assumes "placed f pl fs" "d \<in> set fs"
  obtains i h n c where "pl i = Some (h, n, c)" "d = \<lparr>fd_id = f i, fd_home = h, fd_name = n, fd_content = c\<rparr>"
  using assms by (auto simp: placed_def)

lemma placed_inj: "placed f pl fs \<Longrightarrow> pl i = Some x \<Longrightarrow> pl j = Some y \<Longrightarrow> f i = f j \<Longrightarrow> i = j"
  by (auto simp: placed_def inj_on_def)

lemma placed_slot: "placed f pl fs \<Longrightarrow> pl i = Some (h, n, c) \<Longrightarrow> pl j = Some (h, n, c') \<Longrightarrow> i = j"
  by (auto simp: placed_def)

lemma placedI:
  assumes "distinct (map fd_id fs)" "inj_on f (dom pl)"
    and "\<And>d. d \<in> set fs \<Longrightarrow> \<exists>i h n c. pl i = Some (h, n, c) \<and> d = \<lparr>fd_id = f i, fd_home = h, fd_name = n, fd_content = c\<rparr>"
    and "\<And>i h n c. pl i = Some (h, n, c) \<Longrightarrow> \<lparr>fd_id = f i, fd_home = h, fd_name = n, fd_content = c\<rparr> \<in> set fs"
    and "\<And>i j h n c c'. pl i = Some (h, n, c) \<Longrightarrow> pl j = Some (h, n, c') \<Longrightarrow> i = j"
  shows "placed f pl fs"
  using assms unfolding placed_def by blast

lemma placed_child:
  assumes "placed f pl fs" "pl i = Some (h, n, c)"
  shows "child_of fs h n = Some \<lparr>fd_id = f i, fd_home = h, fd_name = n, fd_content = c\<rparr>"
  unfolding child_of_def
proof (rule find_unique)
  show "\<lparr>fd_id = f i, fd_home = h, fd_name = n, fd_content = c\<rparr> \<in> set fs"
    using assms by (auto simp: placed_def)
  fix y
  assume y: "y \<in> set fs" "fd_home y = h \<and> fd_name y = n"
  then obtain j c' where j: "y = \<lparr>fd_id = f j, fd_home = h, fd_name = n, fd_content = c'\<rparr>" "pl j = Some (h, n, c')"
    using assms(1) by (auto simp: placed_def)
  then have "j = i" using assms by (auto simp: placed_def)
  then show "y = \<lparr>fd_id = f i, fd_home = h, fd_name = n, fd_content = c\<rparr>" using j assms(2) by simp
qed simp

lemma placed_no_child:
  assumes "placed f pl fs" "\<And>i c. pl i \<noteq> Some (h, n, c)"
  shows "child_of fs h n = None"
  using assms by (auto simp: child_of_def find_None_iff placed_def)

lemma placed_childD:
  assumes "placed f pl fs" "child_of fs h n = Some d"
  obtains i c where "pl i = Some (h, n, c)" "d = \<lparr>fd_id = f i, fd_home = h, fd_name = n, fd_content = c\<rparr>"
proof -
  have "d \<in> set fs" "fd_home d = h" "fd_name d = n"
    using assms(2) by (auto simp: child_of_def find_Some_iff)
  then show thesis using assms(1) that by (auto simp: placed_def)
qed

lemma placed_id:
  assumes "placed f pl fs" "pl i = Some x" "e \<in> set fs" "fd_id e = f i"
  shows "e = (case x of (h, n, c) \<Rightarrow> \<lparr>fd_id = f i, fd_home = h, fd_name = n, fd_content = c\<rparr>)"
proof -
  obtain j h n c where j: "e = \<lparr>fd_id = f j, fd_home = h, fd_name = n, fd_content = c\<rparr>" "pl j = Some (h, n, c)"
    using assms(1,3) by (auto simp: placed_def)
  then have "f j = f i" using assms(4) by simp
  then have "j = i" using assms(1,2) j(2) by (auto simp: placed_def inj_on_def)
  then show ?thesis using j assms(2) by auto
qed

lemma placed_change:
  assumes p: "placed f pl fs" and i: "pl i = Some (h, n, c)"
    and g: "g \<lparr>fd_id = f i, fd_home = h, fd_name = n, fd_content = c\<rparr> = \<lparr>fd_id = f i, fd_home = h', fd_name = n', fd_content = c'\<rparr>"
    and free: "\<And>j c. j \<noteq> i \<Longrightarrow> pl j \<noteq> Some (h', n', c)"
  shows "placed f (pl(i \<mapsto> (h', n', c'))) (change_dir (f i) g fs)"
proof -
  let ?e = "\<lparr>fd_id = f i, fd_home = h, fd_name = n, fd_content = c\<rparr>"
  let ?fs = "change_dir (f i) g fs"
  have one: "fd_id d = f i \<longleftrightarrow> d = ?e" if "d \<in> set fs" for d
    using placed_id [OF p i that] by auto
  have s: "d \<in> set ?fs \<longleftrightarrow> d = g ?e \<or> (d \<in> set fs \<and> d \<noteq> ?e)" for d
    using one placed_in [OF p i] unfolding change_dir_def by (auto simp: image_iff)
  show ?thesis
  proof (rule placedI)
    have "map fd_id ?fs = map fd_id fs" unfolding change_dir_def using one g by auto
    then show "distinct (map fd_id ?fs)" using p by (simp add: placed_def)
    have "dom (pl(i \<mapsto> (h', n', c'))) = dom pl" using i by auto
    then show "inj_on f (dom (pl(i \<mapsto> (h', n', c'))))" using p by (simp add: placed_def)
  next
    fix d
    assume "d \<in> set ?fs"
    then consider "d = g ?e" | "d \<in> set fs" "d \<noteq> ?e" unfolding s by blast
    then show "\<exists>j h n c. (pl(i \<mapsto> (h', n', c'))) j = Some (h, n, c)
        \<and> d = \<lparr>fd_id = f j, fd_home = h, fd_name = n, fd_content = c\<rparr>"
    proof cases
      case 1
      then show ?thesis by (intro exI [of _ i] exI [of _ h'] exI [of _ n'] exI [of _ c']) (simp add: g)
    next
      case 2
      obtain j hh nn cc where j: "pl j = Some (hh, nn, cc)" "d = \<lparr>fd_id = f j, fd_home = hh, fd_name = nn, fd_content = cc\<rparr>"
        by (rule placed_mem [OF p 2(1)])
      then have "j \<noteq> i" using 2(2) i by auto
      then show ?thesis using j by (intro exI [of _ j] exI [of _ hh] exI [of _ nn] exI [of _ cc]) simp
    qed
  next
    fix j hh nn cc
    assume a: "(pl(i \<mapsto> (h', n', c'))) j = Some (hh, nn, cc)"
    show "\<lparr>fd_id = f j, fd_home = hh, fd_name = nn, fd_content = cc\<rparr> \<in> set ?fs"
    proof (cases "j = i")
      case True
      then show ?thesis using a unfolding s by (simp add: g)
    next
      case False
      then have pj: "pl j = Some (hh, nn, cc)" using a by simp
      then have "f j \<noteq> f i" using placed_inj [OF p pj i] False by auto
      then show ?thesis unfolding s using placed_in [OF p pj] by simp
    qed
  next
    fix a b x y z z'
    assume ab: "(pl(i \<mapsto> (h', n', c'))) a = Some (x, y, z)" "(pl(i \<mapsto> (h', n', c'))) b = Some (x, y, z')"
    show "a = b"
    proof (cases "a = i"; cases "b = i")
      assume "a \<noteq> i" "b \<noteq> i"
      then show ?thesis using ab placed_slot [OF p, of a x y z b z'] by simp
    next
      assume "a = i" "b \<noteq> i"
      then show ?thesis using ab free [of b z'] by simp
    next
      assume "a \<noteq> i" "b = i"
      then show ?thesis using ab free [of a z] by simp
    qed simp
  qed
qed

lemma placed_remove:
  assumes p: "placed f pl fs" and i: "pl i = Some x"
  shows "placed f (pl(i := None)) (filter (\<lambda>e. fd_id e \<noteq> f i) fs)"
proof (rule placedI)
  show "distinct (map fd_id (filter (\<lambda>e. fd_id e \<noteq> f i) fs))"
    using p by (simp add: placed_def distinct_map_filter)
  show "inj_on f (dom (pl(i := None)))"
    using p by (auto simp: placed_def inj_on_def)
next
  fix d
  assume d: "d \<in> set (filter (\<lambda>e. fd_id e \<noteq> f i) fs)"
  then have "d \<in> set fs" by simp
  then obtain j h n c where j: "pl j = Some (h, n, c)" "d = \<lparr>fd_id = f j, fd_home = h, fd_name = n, fd_content = c\<rparr>"
    by (rule placed_mem [OF p])
  then have "j \<noteq> i" using d by auto
  then show "\<exists>j h n c. (pl(i := None)) j = Some (h, n, c) \<and> d = \<lparr>fd_id = f j, fd_home = h, fd_name = n, fd_content = c\<rparr>"
    using j by auto
next
  fix j h n c
  assume "(pl(i := None)) j = Some (h, n, c)"
  then have j: "j \<noteq> i" "pl j = Some (h, n, c)" by (auto split: if_splits)
  then have "f j \<noteq> f i" using placed_inj [OF p j(2) i] by auto
  then show "\<lparr>fd_id = f j, fd_home = h, fd_name = n, fd_content = c\<rparr> \<in> set (filter (\<lambda>e. fd_id e \<noteq> f i) fs)"
    using placed_in [OF p j(2)] by simp
next
  fix a b h n c c'
  assume "(pl(i := None)) a = Some (h, n, c)" "(pl(i := None)) b = Some (h, n, c')"
  then show "a = b" using placed_slot [OF p, of a h n c b c'] by (auto split: if_splits)
qed

lemma placed_add:
  assumes p: "placed f pl fs" and i: "pl i = None" and k: "k \<notin> set (map fd_id fs)"
    and free: "\<And>j c. pl j \<noteq> Some (h, n, c)"
  shows "placed (f(i := k)) (pl(i \<mapsto> (h, n, c))) (\<lparr>fd_id = k, fd_home = h, fd_name = n, fd_content = c\<rparr> # fs)"
proof -
  have ids: "f j \<noteq> k" if j: "pl j = Some x" for j x
  proof -
    obtain h n c where "x = (h, n, c)" by (cases x) auto
    then have "f j \<in> set (map fd_id fs)" using placed_in [OF p, of j h n c] j by force
    then show ?thesis using k by auto
  qed
  show ?thesis
  proof (rule placedI)
    show "distinct (map fd_id (\<lparr>fd_id = k, fd_home = h, fd_name = n, fd_content = c\<rparr> # fs))"
      using p k by (simp add: placed_def)
    show "inj_on (f(i := k)) (dom (pl(i \<mapsto> (h, n, c))))"
    proof (rule inj_onI)
      fix a b
      assume ab: "a \<in> dom (pl(i \<mapsto> (h, n, c)))" "b \<in> dom (pl(i \<mapsto> (h, n, c)))" "(f(i := k)) a = (f(i := k)) b"
      show "a = b"
      proof (cases "a = i \<or> b = i")
        case True
        then show ?thesis using ab ids by (auto split: if_splits)
      next
        case False
        then obtain x y where "pl a = Some x" "pl b = Some y" using ab by auto
        then show ?thesis using placed_inj [OF p] ab(3) False by simp
      qed
    qed
  next
    fix d
    assume "d \<in> set (\<lparr>fd_id = k, fd_home = h, fd_name = n, fd_content = c\<rparr> # fs)"
    then consider "d = \<lparr>fd_id = k, fd_home = h, fd_name = n, fd_content = c\<rparr>" | "d \<in> set fs" by auto
    then show "\<exists>j h' n' c'. (pl(i \<mapsto> (h, n, c))) j = Some (h', n', c')
        \<and> d = \<lparr>fd_id = (f(i := k)) j, fd_home = h', fd_name = n', fd_content = c'\<rparr>"
    proof cases
      case 1
      then show ?thesis by (intro exI [of _ i] exI [of _ h] exI [of _ n] exI [of _ c]) simp
    next
      case 2
      obtain j h' n' c' where j: "pl j = Some (h', n', c')" "d = \<lparr>fd_id = f j, fd_home = h', fd_name = n', fd_content = c'\<rparr>"
        by (rule placed_mem [OF p 2])
      then have "j \<noteq> i" using i by auto
      then show ?thesis using j by (intro exI [of _ j] exI [of _ h'] exI [of _ n'] exI [of _ c']) simp
    qed
  next
    fix j h' n' c'
    assume "(pl(i \<mapsto> (h, n, c))) j = Some (h', n', c')"
    then show "\<lparr>fd_id = (f(i := k)) j, fd_home = h', fd_name = n', fd_content = c'\<rparr>
        \<in> set (\<lparr>fd_id = k, fd_home = h, fd_name = n, fd_content = c\<rparr> # fs)"
      using placed_in [OF p, of j h' n' c'] by (cases "j = i") auto
  next
    fix a b h' n' z z'
    assume "(pl(i \<mapsto> (h, n, c))) a = Some (h', n', z)" "(pl(i \<mapsto> (h, n, c))) b = Some (h', n', z')"
    then show "a = b"
      using free placed_slot [OF p, of a h' n' z b z'] by (auto split: if_splits)
  qed
qed

section \<open>Paths\<close>

definition home_of :: "(nat \<Rightarrow> nat) \<Rightarrow> snap_row \<Rightarrow> home" where
  "home_of f r = (if length (sr_path r) = 1 then At_top else In_dir (f (sr_pinode r)))"

lemma walk_snoc: "walk fs h (p @ [n]) = (case walk fs h p of None \<Rightarrow> None | Some h' \<Rightarrow> map_option (\<lambda>d. In_dir (fd_id d)) (child_of fs h' n))"
  by (induction p arbitrary: h) (auto split: option.splits)

text \<open>The rows up to a depth that are in the place of their snapshot are found by their paths.\<close>

lemma walk_rows:
  assumes "placed f pl fs" "snapshot_ok rows" "r \<in> set rows"
    and "\<And>u. u \<in> set rows \<Longrightarrow> length (sr_path u) \<le> length (sr_path r) \<Longrightarrow> \<exists>c. pl (sr_inode u) = Some (home_of f u, last (sr_path u), c)"
  shows "walk fs At_top (sr_path r) = Some (In_dir (f (sr_inode r)))"
  using assms(3,4)
proof (induction "length (sr_path r)" arbitrary: r rule: less_induct)
  case less
  obtain c where c: "pl (sr_inode r) = Some (home_of f r, last (sr_path r), c)" using less.prems by blast
  have ne: "sr_path r \<noteq> []" using snapshot_path_ne [OF assms(2)] less.prems by blast
  have "walk fs At_top (butlast (sr_path r)) = Some (home_of f r)"
  proof (cases "length (sr_path r) = 1")
    case True
    then have "butlast (sr_path r) = []" by (cases "sr_path r") auto
    then show ?thesis using True by (simp add: home_of_def)
  next
    case False
    then have "1 < length (sr_path r)" using ne by (cases "sr_path r") auto
    then obtain u where u: "u \<in> set rows" "sr_path u = butlast (sr_path r)" "sr_inode u = sr_pinode r"
      using snapshot_parent [OF assms(2)] less.prems(1) by metis
    then have "length (sr_path u) < length (sr_path r)" using ne by simp
    then have "walk fs At_top (sr_path u) = Some (In_dir (f (sr_inode u)))"
      using u(1) less.prems(2) by (intro less.hyps) simp_all
    then show ?thesis using u False by (simp add: home_of_def)
  qed
  then have "walk fs At_top (butlast (sr_path r) @ [last (sr_path r)]) = Some (In_dir (f (sr_inode r)))"
    unfolding walk_snoc using placed_child [OF assms(1) c] by simp
  then show ?case using ne by simp
qed

text \<open>The directory above a row, when the rows above it are in their places.\<close>

lemma walk_above:
  assumes "placed f pl fs" "snapshot_ok rows" "r \<in> set rows"
    and "\<And>u. u \<in> set rows \<Longrightarrow> length (sr_path u) < length (sr_path r) \<Longrightarrow> \<exists>c. pl (sr_inode u) = Some (home_of f u, last (sr_path u), c)"
  shows "walk fs At_top (butlast (sr_path r)) = Some (home_of f r)"
proof (cases "length (sr_path r) = 1")
  case True
  then have "butlast (sr_path r) = []" by (cases "sr_path r") auto
  then show ?thesis using True by (simp add: home_of_def)
next
  case False
  have ne: "sr_path r \<noteq> []" using snapshot_path_ne [OF assms(2,3)] .
  then have "1 < length (sr_path r)" using False by (cases "sr_path r") auto
  then obtain u where u: "u \<in> set rows" "sr_path u = butlast (sr_path r)" "sr_inode u = sr_pinode r"
    using snapshot_parent [OF assms(2,3)] by metis
  then have l: "length (sr_path u) < length (sr_path r)" using ne by simp
  have "walk fs At_top (sr_path u) = Some (In_dir (f (sr_inode u)))"
    by (rule walk_rows [OF assms(1,2) u(1)]) (use assms(4) l in auto)
  then show ?thesis using u False by (simp add: home_of_def)
qed

lemma lookup_row:
  assumes "placed f pl fs" "snapshot_ok rows" "r \<in> set rows"
    and "\<And>u. u \<in> set rows \<Longrightarrow> length (sr_path u) < length (sr_path r) \<Longrightarrow> \<exists>c. pl (sr_inode u) = Some (home_of f u, last (sr_path u), c)"
    and "pl (sr_inode r) = Some (home_of f r, last (sr_path r), c)"
  shows "lookup_dir fs (sr_path r) =
    Some \<lparr>fd_id = f (sr_inode r), fd_home = home_of f r, fd_name = last (sr_path r), fd_content = c\<rparr>"
  using walk_above [OF assms(1-4)] placed_child [OF assms(1,5)] snapshot_path_ne [OF assms(2,3)]
  by (simp add: lookup_dir_def)

lemma digits_inj: "digits 10 i = digits 10 j \<longleftrightarrow> i = j"
proof
  assume "digits 10 i = digits 10 j"
  then have "num_value 10 (digits 10 i) = num_value 10 (digits 10 j)" by simp
  then show "i = j" by (simp add: num_value_digits)
qed simp

lemma lot_name_inj: "lot_name i = lot_name j \<longleftrightarrow> i = j"
  by (simp add: lot_name_def digits_inj)

lemma home_of_not_lot [simp]: "home_of f r \<noteq> In_lot" "In_lot \<noteq> home_of f r"
  by (simp_all add: home_of_def)

section \<open>The rows of the difference\<close>

lemma filter_inode:
  assumes "snapshot_ok tree"
  shows "filter (\<lambda>t. i = sr_inode t) tree = (case row_of tree i of None \<Rightarrow> [] | Some t \<Rightarrow> [t])"
proof -
  have "distinct (map sr_inode tree)" using assms by (simp add: snapshot_ok_def)
  then show ?thesis
    by (induction tree) (auto simp: row_of_def filter_empty_conv split: option.splits)
qed

definition moves_out :: "snap_row list \<Rightarrow> snap_row \<Rightarrow> bool" where
  "moves_out tree i \<longleftrightarrow> deletes_and_move_outs (Some i, row_of tree (sr_inode i))"

definition moves_in :: "snap_row list \<Rightarrow> snap_row \<Rightarrow> bool" where
  "moves_in index t \<longleftrightarrow> creates_and_move_ins (row_of index (sr_inode t), Some t)"

lemma get_urd_eq:
  assumes "snapshot_ok tree"
  shows "get_urd index tree = map (\<lambda>i. (Some i, row_of tree (sr_inode i))) index"
proof -
  have "(\<lambda>i :: snap_row. case filter (\<lambda>t. sr_inode i = sr_inode t) tree of [] \<Rightarrow> [(Some i, None)] | ts \<Rightarrow> map (\<lambda>t. (Some i, Some t)) ts) =
      (\<lambda>i. [(Some i, row_of tree (sr_inode i))])"
    unfolding filter_inode [OF assms] by (auto simp: fun_eq_iff split: option.split)
  then show ?thesis unfolding get_urd_def by (simp only: concat_map_singleton)
qed

lemma diff_rows:
  assumes "snapshot_ok index" "snapshot_ok tree"
  shows "set (get_urd index tree @ get_created index tree) =
      (\<lambda>i. (Some i, row_of tree (sr_inode i))) ` set index \<union> (\<lambda>t. (None, Some t)) ` {t \<in> set tree. row_of index (sr_inode t) = None}"
    and "distinct (get_urd index tree @ get_created index tree)"
proof -
  show "set (get_urd index tree @ get_created index tree) =
      (\<lambda>i. (Some i, row_of tree (sr_inode i))) ` set index \<union> (\<lambda>t. (None, Some t)) ` {t \<in> set tree. row_of index (sr_inode t) = None}"
    unfolding get_urd_eq [OF assms(2)] row_of_None by (auto simp: get_created_def)
  have "distinct index" "distinct tree"
    using assms by (auto simp: snapshot_ok_def distinct_map)
  then show "distinct (get_urd index tree @ get_created index tree)"
    unfolding get_urd_eq [OF assms(2)] get_created_def by (auto simp: distinct_map inj_on_def)
qed

lemma diff_selected:
  "deletes_and_move_outs r \<or> creates_and_move_ins r \<Longrightarrow> r \<in> set (get_urd index tree @ get_created index tree) \<Longrightarrow> r \<in> set (get_diff index tree)"
  by (auto simp: get_diff_def deletes_and_move_outs_def creates_and_move_ins_def)

lemma ordered_rows_map:
  assumes "ordered_rows sel before diff rows" "distinct diff" "\<And>r. r \<in> set diff \<Longrightarrow> sel r \<Longrightarrow> r = g (k r)"
  shows "rows = map g (map k rows)" "distinct (map k rows)" "set (map k rows) = k ` {r \<in> set diff. sel r}"
    "sorted_wrt (\<lambda>a b. before (g a) (g b)) (map k rows)"
proof -
  have m: "mset rows = mset (filter sel diff)" and s: "sorted_wrt before rows"
    using assms(1) by (simp_all add: ordered_rows_def)
  have set: "set rows = {r \<in> set diff. sel r}" using mset_eq_setD [OF m] by auto
  have d: "distinct rows" using mset_eq_imp_distinct_iff [OF m] assms(2) by simp
  have gk: "g (k r) = r" if "r \<in> set rows" for r using that assms(3) set by simp
  show eq: "rows = map g (map k rows)" using gk by (simp add: map_idI)
  have "inj_on k (set rows)" using gk by (metis inj_onI)
  then show "distinct (map k rows)" using d by (simp add: distinct_map)
  show "set (map k rows) = k ` {r \<in> set diff. sel r}" using set by simp
  show "sorted_wrt (\<lambda>a b. before (g a) (g b)) (map k rows)"
    using s eq by (metis sorted_wrt_map)
qed

lemma get_diff_sub: "set (get_diff index tree) \<subseteq> set (get_urd index tree @ get_created index tree)"
  by (auto simp: get_diff_def)

lemma distinct_get_diff: "snapshot_ok index \<Longrightarrow> snapshot_ok tree \<Longrightarrow> distinct (get_diff index tree)"
  unfolding get_diff_def by (intro distinct_filter diff_rows(2))

lemma outs_rows:
  assumes "snapshot_ok index" "snapshot_ok tree" "ordered_rows deletes_and_move_outs deeper_in_index (get_diff index tree) outs"
  obtains xs where "outs = map (\<lambda>i. (Some i, row_of tree (sr_inode i))) xs" "distinct xs"
    "set xs = {i \<in> set index. moves_out tree i}" "sorted_wrt (\<lambda>i j. sr_depth j \<le> sr_depth i) xs"
proof -
  let ?g = "\<lambda>i. (Some i, row_of tree (sr_inode i))"
  let ?k = "\<lambda>r :: diff_row. the (fst r)"
  have r: "\<exists>i. i \<in> set index \<and> r = ?g i" if "r \<in> set (get_diff index tree)" "deletes_and_move_outs r" for r
  proof -
    have "r \<in> set (get_urd index tree @ get_created index tree)" using that(1) get_diff_sub by blast
    then consider i where "i \<in> set index" "r = ?g i" | t where "r = (None, Some t)"
      unfolding diff_rows(1) [OF assms(1,2)] by blast
    then show ?thesis using that(2) by cases (auto simp: deletes_and_move_outs_def)
  qed
  have gk: "r = ?g (?k r)" if "r \<in> set (get_diff index tree)" "deletes_and_move_outs r" for r
    using r [OF that] by auto
  note m = ordered_rows_map [where g = ?g and k = ?k, OF assms(3) distinct_get_diff [OF assms(1,2)] gk]
  have "set (map ?k outs) = {i \<in> set index. moves_out tree i}"
  proof (intro set_eqI iffI)
    fix i
    assume "i \<in> set (map ?k outs)"
    then have "i \<in> ?k ` {q \<in> set (get_diff index tree). deletes_and_move_outs q}" by (simp only: m(3))
    then obtain q where q: "i = ?k q" "q \<in> set (get_diff index tree)" "deletes_and_move_outs q" by blast
    then obtain j where "j \<in> set index" "q = ?g j" using r by blast
    then show "i \<in> {i \<in> set index. moves_out tree i}" using q by (simp add: moves_out_def)
  next
    fix i
    assume i: "i \<in> {i \<in> set index. moves_out tree i}"
    then have "deletes_and_move_outs (?g i)" by (simp add: moves_out_def)
    moreover have "?g i \<in> set (get_urd index tree @ get_created index tree)"
      unfolding diff_rows(1) [OF assms(1,2)] using i by auto
    ultimately have "?g i \<in> {q \<in> set (get_diff index tree). deletes_and_move_outs q}"
      using diff_selected [of "?g i"] by blast
    then have "?k (?g i) \<in> ?k ` {q \<in> set (get_diff index tree). deletes_and_move_outs q}" by (rule imageI)
    then show "i \<in> set (map ?k outs)" by (simp only: m(3) fst_conv option.sel)
  qed
  moreover have "sorted_wrt (\<lambda>i j. sr_depth j \<le> sr_depth i) (map ?k outs)"
    using m(4) by (simp add: deeper_in_index_def)
  ultimately show thesis using that [OF m(1,2)] by blast
qed

lemma tree_rows:
  assumes "snapshot_ok index" "snapshot_ok tree" "ordered_rows sel before (get_diff index tree) rows"
    and "\<And>r. r \<in> set (get_diff index tree) \<Longrightarrow> sel r \<Longrightarrow> snd r \<noteq> None"
  obtains ts where "rows = map (\<lambda>t. (row_of index (sr_inode t), Some t)) ts" "distinct ts"
    "set ts = {t \<in> set tree. sel (row_of index (sr_inode t), Some t) \<and> (row_of index (sr_inode t), Some t) \<in> set (get_diff index tree)}"
    "sorted_wrt (\<lambda>a b. before (row_of index (sr_inode a), Some a) (row_of index (sr_inode b), Some b)) ts"
proof -
  let ?g = "\<lambda>t. (row_of index (sr_inode t), Some t)"
  let ?k = "\<lambda>r :: diff_row. the (snd r)"
  have r: "\<exists>t. t \<in> set tree \<and> r = ?g t" if "r \<in> set (get_diff index tree)" "sel r" for r
  proof -
    have ne: "snd r \<noteq> None" by (rule assms(4) [OF that])
    have "r \<in> set (get_urd index tree @ get_created index tree)" using that(1) get_diff_sub by blast
    then consider i where "i \<in> set index" "r = (Some i, row_of tree (sr_inode i))"
      | t where "t \<in> set tree" "row_of index (sr_inode t) = None" "r = (None, Some t)"
      unfolding diff_rows(1) [OF assms(1,2)] by blast
    then show ?thesis
    proof cases
      case 1
      then obtain t where t: "row_of tree (sr_inode i) = Some t" using ne by auto
      then have "t \<in> set tree" "sr_inode t = sr_inode i" using row_of_SomeD by blast+
      then show ?thesis using 1 t row_of_Some [OF assms(1) 1(1)] by auto
    qed auto
  qed
  have gk: "r = ?g (?k r)" if "r \<in> set (get_diff index tree)" "sel r" for r
    using r [OF that] by auto
  note m = ordered_rows_map [where g = ?g and k = ?k, OF assms(3) distinct_get_diff [OF assms(1,2)] gk]
  have "set (map ?k rows) = {t \<in> set tree. sel (?g t) \<and> ?g t \<in> set (get_diff index tree)}"
  proof (intro set_eqI iffI)
    fix t
    assume "t \<in> set (map ?k rows)"
    then have "t \<in> ?k ` {q \<in> set (get_diff index tree). sel q}" by (simp only: m(3))
    then obtain q where q: "t = ?k q" "q \<in> set (get_diff index tree)" "sel q" by blast
    then obtain u where "u \<in> set tree" "q = ?g u" using r by blast
    then show "t \<in> {t \<in> set tree. sel (?g t) \<and> ?g t \<in> set (get_diff index tree)}" using q by simp
  next
    fix t
    assume "t \<in> {t \<in> set tree. sel (?g t) \<and> ?g t \<in> set (get_diff index tree)}"
    then have "?g t \<in> {q \<in> set (get_diff index tree). sel q}" by blast
    then have "?k (?g t) \<in> ?k ` {q \<in> set (get_diff index tree). sel q}" by (rule imageI)
    then show "t \<in> set (map ?k rows)" by (simp only: m(3) snd_conv option.sel)
  qed
  then show thesis using that [OF m(1,2) _ m(4)] by blast
qed

lemma get_urd_fst:
  assumes "r \<in> set (get_urd index tree)"
  shows "fst r \<noteq> None"
proof -
  obtain i where "r \<in> set (case filter (\<lambda>t. sr_inode i = sr_inode t) tree of [] \<Rightarrow> [(Some i, None)] | ts \<Rightarrow> map (\<lambda>t. (Some i, Some t)) ts)"
    using assms by (auto simp: get_urd_def)
  then show ?thesis by (cases "filter (\<lambda>t. sr_inode i = sr_inode t) tree") auto
qed

lemma creates_in_tree: "r \<in> set (get_diff index tree) \<Longrightarrow> creates_and_move_ins r \<Longrightarrow> snd r \<noteq> None"
  using get_urd_fst [of r index tree]
  by (cases r) (auto simp: get_diff_def get_created_def creates_and_move_ins_def elim: differ.elims)

lemma in_diff:
  assumes "snapshot_ok index" "snapshot_ok tree" "t \<in> set tree"
  shows "(row_of index (sr_inode t), Some t) \<in> set (get_diff index tree) \<longleftrightarrow> moves_in index t \<or> sr_suspect t"
proof -
  let ?r = "(row_of index (sr_inode t), Some t)"
  have "?r \<in> set (get_urd index tree @ get_created index tree)"
  proof (cases "row_of index (sr_inode t)")
    case None
    then show ?thesis unfolding diff_rows(1) [OF assms(1,2)] using assms(3) by simp
  next
    case (Some i)
    then have "i \<in> set index" "sr_inode i = sr_inode t" using row_of_SomeD by blast+
    then show ?thesis
      unfolding diff_rows(1) [OF assms(1,2)] using Some row_of_Some [OF assms(2,3)] by (auto simp: image_iff)
  qed
  then show ?thesis
    by (auto simp: get_diff_def moves_in_def creates_and_move_ins_def)
qed

section \<open>Deleting and moving out\<close>

text \<open>Where the directories are when those of \<open>K\<close> are deleted or in the parking lot.\<close>

definition out_places ::
    "(nat \<Rightarrow> nat) \<Rightarrow> (nat \<Rightarrow> 'd content) \<Rightarrow> snap_row list \<Rightarrow> snap_row list \<Rightarrow> nat set
     \<Rightarrow> nat \<Rightarrow> (home \<times> string \<times> 'd content) option" where
  "out_places f cont index tree K i =
     (case row_of index i of
        None \<Rightarrow> None
      | Some r \<Rightarrow>
          if i \<in> K then (case row_of tree i of None \<Rightarrow> None | Some _ \<Rightarrow> Some (In_lot, lot_name i, cont i))
          else Some (home_of f r, last (sr_path r), cont i))"

text \<open>A directory that stays has its parent in the tree too.\<close>

lemma stays_parent:
  assumes "snapshot_ok index" "snapshot_ok tree" "r \<in> set index" "\<not> moves_out tree r" "1 < length (sr_path r)"
  shows "row_of tree (sr_pinode r) \<noteq> None"
proof -
  obtain t where t: "row_of tree (sr_inode r) = Some t" "sr_pinode r = sr_pinode t" "sr_path r = sr_path t"
    using assms(4) by (cases "row_of tree (sr_inode r)") (auto simp: moves_out_def deletes_and_move_outs_def)
  then have "t \<in> set tree" using row_of_SomeD by blast
  then obtain u where "u \<in> set tree" "sr_inode u = sr_pinode t"
    using snapshot_parent [OF assms(2)] assms(5) t(3) by metis
  then have "sr_pinode r \<in> sr_inode ` set tree" using t(2) by (metis imageI)
  then show ?thesis by (simp add: row_of_None)
qed

lemma move_out_step:
  assumes ok: "snapshot_ok index" "snapshot_ok tree" and x: "x \<in> set index" "moves_out tree x" "sr_inode x \<notin> K"
    and p: "placed f (out_places f cont index tree K) fs"
    and inj: "inj_on f (sr_inode ` set index)"
    and K: "\<And>r. r \<in> set index \<Longrightarrow> sr_inode r \<in> K \<Longrightarrow> length (sr_path x) \<le> length (sr_path r)"
    and later: "\<And>r. r \<in> set index \<Longrightarrow> moves_out tree r \<Longrightarrow> sr_inode r \<notin> K \<Longrightarrow> length (sr_path r) \<le> length (sr_path x)"
    and dbs: "row_of tree (sr_inode x) = None \<Longrightarrow> ct_db (cont (sr_inode x)) \<noteq> None \<and> \<not> ct_other (cont (sr_inode x))"
  shows "placed f (out_places f cont index tree (insert (sr_inode x) K))
    (apply_removes_and_move_outs_callback fs (Some x, row_of tree (sr_inode x)))"
proof -
  let ?i = "sr_inode x"
  let ?pl = "out_places f cont index tree K"
  have row: "row_of index (sr_inode r) = Some r" if "r \<in> set index" for r using row_of_Some [OF ok(1) that] .
  have pl: "?pl (sr_inode r) = Some (home_of f r, last (sr_path r), cont (sr_inode r))" if "r \<in> set index" "sr_inode r \<notin> K" for r
    using that row by (simp add: out_places_def)
  have above: "\<exists>c. ?pl (sr_inode u) = Some (home_of f u, last (sr_path u), c)"
    if "u \<in> set index" "length (sr_path u) < length (sr_path x)" for u
  proof -
    have "sr_inode u \<notin> K" using K [OF that(1)] that(2) by auto
    then show ?thesis using pl that(1) by blast
  qed
  let ?d = "\<lambda>c. \<lparr>fd_id = f ?i, fd_home = home_of f x, fd_name = last (sr_path x), fd_content = c\<rparr>"
  have l: "lookup_dir fs (sr_path x) = Some (?d (cont ?i))"
    by (rule lookup_row [OF p ok(1) x(1) above pl [OF x(1,3)]])
  show ?thesis
  proof (cases "row_of tree ?i")
    case (Some t)
    then have t: "sr_inode t = ?i" using row_of_SomeD by blast
    have free: "?pl j \<noteq> Some (In_lot, lot_name ?i, c)" for j c
    proof
      assume "?pl j = Some (In_lot, lot_name ?i, c)"
      then have "j = ?i" "j \<in> K" by (auto simp: out_places_def lot_name_inj split: option.splits if_splits)
      then show False using x(3) by simp
    qed
    have "placed f (?pl(?i \<mapsto> (In_lot, lot_name ?i, cont ?i))) (change_dir (f ?i) (\<lambda>d. d\<lparr>fd_home := In_lot, fd_name := lot_name ?i\<rparr>) fs)"
      by (rule placed_change [OF p pl [OF x(1,3)]]) (simp_all add: free)
    moreover have "?pl(?i \<mapsto> (In_lot, lot_name ?i, cont ?i)) = out_places f cont index tree (insert ?i K)"
      using row [OF x(1)] Some by (auto simp: out_places_def fun_eq_iff split: option.split)
    ultimately show ?thesis
      using l placed_no_child [OF p free] Some t by (simp add: apply_removes_and_move_outs_callback_def rename_dir_def)
  next
    case None
    obtain y where y: "ct_db (cont ?i) = Some y" and other: "\<not> ct_other (cont ?i)" using dbs [OF None] by auto
    let ?c = "(cont ?i)\<lparr>ct_db := None\<rparr>"
    let ?g = "\<lambda>d :: 'a fdir. d\<lparr>fd_content := (fd_content d)\<lparr>ct_db := None\<rparr>\<rparr>"
    let ?pl1 = "?pl(?i \<mapsto> (home_of f x, last (sr_path x), ?c))"
    let ?fs1 = "change_dir (f ?i) ?g fs"
    have p1: "placed f ?pl1 ?fs1"
    proof (rule placed_change [OF p pl [OF x(1,3)]])
      fix j c
      assume "j \<noteq> ?i"
      then show "?pl j \<noteq> Some (home_of f x, last (sr_path x), c)"
        using placed_slot [OF p pl [OF x(1,3)], of j c] by auto
    qed simp
    have "\<exists>c. ?pl1 (sr_inode u) = Some (home_of f u, last (sr_path u), c)"
      if "u \<in> set index" "length (sr_path u) < length (sr_path x)" for u
      using above [OF that] that snapshot_inode_inj [OF ok(1) that(1) x(1)] by auto
    then have l1: "lookup_dir ?fs1 (sr_path x) = Some (?d ?c)"
      by (intro lookup_row [OF p1 ok(1) x(1)]) simp_all
    have empty: "is_empty_dir ?fs1 (?d ?c)"
    proof -
      have False if e: "e \<in> set ?fs1" "fd_home e = In_dir (f ?i)" for e
      proof -
        obtain j h n c where j: "?pl1 j = Some (h, n, c)" "e = \<lparr>fd_id = f j, fd_home = h, fd_name = n, fd_content = c\<rparr>"
          by (rule placed_mem [OF p1 e(1)])
        then have h: "h = In_dir (f ?i)" using e(2) by simp
        obtain r where r: "row_of index j = Some r" "j \<notin> K" "home_of f r = In_dir (f ?i)"
        proof (cases "j = ?i")
          case True
          then show thesis using that [of x] row [OF x(1)] j(1) h x(3) by auto
        next
          case False
          then show thesis using that j(1) h by (auto simp: out_places_def split: option.splits if_splits)
        qed
        have rs: "r \<in> set index" "sr_inode r = j" using row_of_SomeD [OF r(1)] by simp_all
        have lr: "1 < length (sr_path r)" "f (sr_pinode r) = f ?i"
          using r(3) snapshot_path_ne [OF ok(1) rs(1)] by (cases "sr_path r"; auto simp: home_of_def split: if_splits)+
        obtain u where u: "u \<in> set index" "sr_path u = butlast (sr_path r)" "sr_inode u = sr_pinode r"
          by (rule snapshot_parent [OF ok(1) rs(1) lr(1)])
        have "f (sr_inode u) = f ?i" using lr(2) u(3) by simp
        then have "sr_inode u = ?i" using inj u(1) x(1) by (auto simp: inj_on_def)
        then have ux: "u = x" using snapshot_inode_inj [OF ok(1) u(1) x(1)] by simp
        then have pi: "sr_pinode r = ?i" using u(3) by simp
        have "moves_out tree r"
          using stays_parent [OF ok rs(1) _ lr(1)] None pi by auto
        then have "length (sr_path r) \<le> length (sr_path x)" using later [OF rs(1)] r(2) rs(2) by simp
        then show False using u(2) ux lr(1) by simp
      qed
      then show ?thesis using other by (auto simp: is_empty_dir_def)
    qed
    have "?pl1 ?i = Some (home_of f x, last (sr_path x), ?c)" by simp
    from placed_remove [OF p1 this]
    have "placed f (?pl1(?i := None)) (filter (\<lambda>e. fd_id e \<noteq> f ?i) ?fs1)" .
    moreover have "?pl1(?i := None) = out_places f cont index tree (insert ?i K)"
      using row [OF x(1)] None by (auto simp: out_places_def fun_eq_iff split: option.split)
    ultimately show ?thesis
      using l l1 empty y None
      by (simp add: apply_removes_and_move_outs_callback_def unlink_db_def rmdir_def)
  qed
qed

lemma move_outs:
  assumes ok: "snapshot_ok index" "snapshot_ok tree" and inj: "inj_on f (sr_inode ` set index)"
    and dbs: "\<And>r. r \<in> set index \<Longrightarrow> row_of tree (sr_inode r) = None \<Longrightarrow>
      ct_db (cont (sr_inode r)) \<noteq> None \<and> \<not> ct_other (cont (sr_inode r))"
    and "placed f (out_places f cont index tree (sr_inode ` set ys)) fs"
    and "distinct (ys @ xs)" "set ys \<union> set xs = {i \<in> set index. moves_out tree i}"
    and "sorted_wrt (\<lambda>i j. sr_depth j \<le> sr_depth i) (ys @ xs)"
  shows "placed f (out_places f cont index tree (sr_inode ` {i \<in> set index. moves_out tree i}))
    (foldl apply_removes_and_move_outs_callback fs (map (\<lambda>i. (Some i, row_of tree (sr_inode i))) xs))"
  using assms(5-8)
proof (induction xs arbitrary: fs ys)
  case Nil
  then show ?case by simp
next
  case (Cons x xs)
  let ?K = "sr_inode ` set ys"
  have sub: "set ys \<subseteq> set index" and x: "x \<in> set index" "moves_out tree x"
    using Cons.prems(3) by auto
  have nK: "sr_inode x \<notin> ?K"
  proof
    assume "sr_inode x \<in> ?K"
    then obtain y where y: "y \<in> set ys" "sr_inode x = sr_inode y" by auto
    then have "x = y" using snapshot_inode_inj [OF ok(1) x(1)] sub by blast
    then show False using y(1) Cons.prems(2) by auto
  qed
  have step: "placed f (out_places f cont index tree (insert (sr_inode x) ?K))
      (apply_removes_and_move_outs_callback fs (Some x, row_of tree (sr_inode x)))"
  proof (rule move_out_step [OF ok x nK Cons.prems(1) inj])
    fix r
    assume r: "r \<in> set index" "sr_inode r \<in> ?K"
    then obtain y where y: "y \<in> set ys" "sr_inode r = sr_inode y" by auto
    then have "r = y" using snapshot_inode_inj [OF ok(1) r(1)] sub by blast
    then have "sr_depth x \<le> sr_depth r" using Cons.prems(4) y(1) by (auto simp: sorted_wrt_append)
    then show "length (sr_path x) \<le> length (sr_path r)" using snapshot_depth [OF ok(1) x(1) r(1)] by simp
  next
    fix r
    assume r: "r \<in> set index" "moves_out tree r" "sr_inode r \<notin> ?K"
    then have "r \<in> set (x # xs)" using Cons.prems(3) by auto
    then have "sr_depth r \<le> sr_depth x" using Cons.prems(4) by (auto simp: sorted_wrt_append)
    then show "length (sr_path r) \<le> length (sr_path x)" using snapshot_depth [OF ok(1) r(1) x(1)] by simp
  qed (use dbs x in auto)
  then have "placed f (out_places f cont index tree (sr_inode ` set (ys @ [x])))
      (apply_removes_and_move_outs_callback fs (Some x, row_of tree (sr_inode x)))" by simp
  from Cons.IH [OF this] Cons.prems show ?case by simp
qed

section \<open>Creating and moving in\<close>

definition new_content :: "snap_row list \<Rightarrow> (nat \<Rightarrow> 'd content) \<Rightarrow> nat \<Rightarrow> 'd content" where
  "new_content index cont i = (if row_of index i = None then \<lparr>ct_db = None, ct_perms = None, ct_other = False\<rparr> else cont i)"

text \<open>Where they are when those of \<open>K\<close> are created or moved in.\<close>

definition in_places ::
    "(nat \<Rightarrow> nat) \<Rightarrow> (nat \<Rightarrow> 'd content) \<Rightarrow> snap_row list \<Rightarrow> snap_row list \<Rightarrow> nat set
     \<Rightarrow> nat \<Rightarrow> (home \<times> string \<times> 'd content) option" where
  "in_places f cont index tree K i =
     (case row_of tree i of
        None \<Rightarrow> None
      | Some t \<Rightarrow>
          if moves_in index t \<and> i \<notin> K
          then (case row_of index i of None \<Rightarrow> None | Some _ \<Rightarrow> Some (In_lot, lot_name i, cont i))
          else Some (home_of f t, last (sr_path t), new_content index cont i))"

text \<open>When everything is out, the directories that stay are where the tree has them.\<close>

lemma out_then_in:
  assumes "snapshot_ok index" "snapshot_ok tree"
  shows "out_places f cont index tree (sr_inode ` {i \<in> set index. moves_out tree i}) = in_places f cont index tree {}"
proof
  fix i
  let ?K = "sr_inode ` {i \<in> set index. moves_out tree i}"
  show "out_places f cont index tree ?K i = in_places f cont index tree {} i"
  proof (cases "row_of index i")
    case None
    have "moves_in index t" if "row_of tree i = Some t" for t
      using row_of_SomeD [OF that] None by (simp add: moves_in_def creates_and_move_ins_def)
    then show ?thesis
      using None by (simp add: out_places_def in_places_def split: option.split)
  next
    case (Some r)
    then have r: "r \<in> set index" "sr_inode r = i" using row_of_SomeD by blast+
    have K: "i \<in> ?K \<longleftrightarrow> moves_out tree r"
      using r snapshot_inode_inj [OF assms(1)] by auto
    show ?thesis
    proof (cases "row_of tree i")
      case None
      then have "moves_out tree r" using r by (simp add: moves_out_def deletes_and_move_outs_def)
      then show ?thesis using Some None K by (simp add: out_places_def in_places_def)
    next
      case (Some t)
      then have t: "sr_inode t = i" using row_of_SomeD by blast
      have "moves_out tree r \<longleftrightarrow> moves_in index t"
        using r t Some \<open>row_of index i = Some r\<close> by (simp add: moves_out_def moves_in_def deletes_and_move_outs_def creates_and_move_ins_def)
      moreover have "home_of f r = home_of f t \<and> last (sr_path r) = last (sr_path t)" if "\<not> moves_out tree r"
        using that r Some by (simp add: moves_out_def deletes_and_move_outs_def home_of_def)
      ultimately show ?thesis
        using Some \<open>row_of index i = Some r\<close> K by (auto simp: out_places_def in_places_def new_content_def)
    qed
  qed
qed

lemma moves_in_created: "row_of index (sr_inode t) = None \<Longrightarrow> moves_in index t"
  by (simp add: moves_in_def creates_and_move_ins_def)

text \<open>A directory that stays has its parent in the index too.\<close>

lemma stays_parent_index:
  assumes "snapshot_ok index" "snapshot_ok tree" "t \<in> set tree" "\<not> moves_in index t" "1 < length (sr_path t)"
  shows "row_of index (sr_pinode t) \<noteq> None"
proof -
  obtain r where r: "row_of index (sr_inode t) = Some r" "sr_pinode r = sr_pinode t" "sr_path r = sr_path t"
    using assms(4) by (cases "row_of index (sr_inode t)") (auto simp: moves_in_def creates_and_move_ins_def)
  then have "r \<in> set index" using row_of_SomeD by blast
  then obtain u where "u \<in> set index" "sr_inode u = sr_pinode r"
    using snapshot_parent [OF assms(1)] assms(5) r(3) by metis
  then have "sr_pinode t \<in> sr_inode ` set index" using r(2) by (metis imageI)
  then show ?thesis by (simp add: row_of_None)
qed

lemma move_in_step:
  assumes ok: "snapshot_ok index" "snapshot_ok tree" and x: "x \<in> set tree" "moves_in index x" "sr_inode x \<notin> K"
    and p: "placed f (in_places f cont index tree K) fs"
    and K: "\<And>r. r \<in> set tree \<Longrightarrow> sr_inode r \<in> K \<Longrightarrow> length (sr_path r) \<le> length (sr_path x)"
    and earlier: "\<And>r. r \<in> set tree \<Longrightarrow> moves_in index r \<Longrightarrow> length (sr_path r) < length (sr_path x) \<Longrightarrow> sr_inode r \<in> K"
  shows "\<exists>f'. placed f' (in_places f' cont index tree (insert (sr_inode x) K))
    (apply_creates_and_move_ins_callback fs (row_of index (sr_inode x), Some x))"
proof -
  let ?i = "sr_inode x"
  let ?pl = "in_places f cont index tree K"
  let ?c = "new_content index cont ?i"
  have row: "row_of tree (sr_inode r) = Some r" if "r \<in> set tree" for r using row_of_Some [OF ok(2) that] .
  have pl: "?pl (sr_inode r) = Some (home_of f r, last (sr_path r), new_content index cont (sr_inode r))"
    if "r \<in> set tree" "moves_in index r \<longrightarrow> sr_inode r \<in> K" for r
    using that row by (auto simp: in_places_def)
  have above: "\<exists>c. ?pl (sr_inode u) = Some (home_of f u, last (sr_path u), c)"
    if "u \<in> set tree" "length (sr_path u) < length (sr_path x)" for u
    using pl [OF that(1)] earlier [OF that(1)] that(2) by blast
  have w: "walk fs At_top (butlast (sr_path x)) = Some (home_of f x)"
    by (rule walk_above [OF p ok(2) x(1) above])
  text \<open>The parent of a directory in its place, and of \<open>x\<close>, is somewhere, so that it is known by its identity.\<close>
  have parent: "\<exists>u y. u \<in> set tree \<and> sr_path u = butlast (sr_path r) \<and> sr_inode u = sr_pinode r \<and> ?pl (sr_inode u) = Some y"
    if r: "r \<in> set tree" "1 < length (sr_path r)" "moves_in index r \<longrightarrow> sr_inode r \<in> K \<or> r = x" for r
  proof -
    obtain u where u: "u \<in> set tree" "sr_path u = butlast (sr_path r)" "sr_inode u = sr_pinode r"
      by (rule snapshot_parent [OF ok(2) r(1,2)])
    show ?thesis
    proof (cases "moves_in index r")
      case True
      then have "length (sr_path r) \<le> length (sr_path x)" using K r by auto
      then have "length (sr_path u) < length (sr_path x)" using u(2) r(2) by simp
      then show ?thesis using above u by blast
    next
      case False
      then have "row_of index (sr_inode u) \<noteq> None" using stays_parent_index [OF ok r(1) False r(2)] u(3) by simp
      then have "?pl (sr_inode u) \<noteq> None" using row [OF u(1)] by (auto simp: in_places_def split: if_splits)
      then show ?thesis using u by blast
    qed
  qed
  have free: "?pl j \<noteq> Some (home_of f x, last (sr_path x), c)" for j c
  proof
    assume a: "?pl j = Some (home_of f x, last (sr_path x), c)"
    then obtain r where r: "row_of tree j = Some r" "moves_in index r \<longrightarrow> j \<in> K" "home_of f r = home_of f x" "last (sr_path r) = last (sr_path x)"
      by (auto simp: in_places_def split: option.splits if_splits)
    then have rs: "r \<in> set tree" "sr_inode r = j" using row_of_SomeD by blast+
    have ne: "sr_path r \<noteq> []" "sr_path x \<noteq> []" using snapshot_path_ne [OF ok(2)] rs(1) x(1) by auto
    have "butlast (sr_path r) = butlast (sr_path x)"
    proof (cases "length (sr_path x) = 1")
      case True
      then have "length (sr_path r) = 1" using r(3) by (auto simp: home_of_def split: if_splits)
      then show ?thesis using True by (cases "sr_path r"; cases "sr_path x"; simp)
    next
      case False
      then have l: "1 < length (sr_path x)" "1 < length (sr_path r)" "f (sr_pinode r) = f (sr_pinode x)"
        using r(3) ne by (cases "sr_path r"; cases "sr_path x"; auto simp: home_of_def split: if_splits)+
      obtain u y where u: "sr_path u = butlast (sr_path r)" "sr_inode u = sr_pinode r" "?pl (sr_inode u) = Some y" "u \<in> set tree"
        using parent [OF rs(1) l(2)] r(2) rs(2) by blast
      obtain v z where v: "sr_path v = butlast (sr_path x)" "sr_inode v = sr_pinode x" "?pl (sr_inode v) = Some z" "v \<in> set tree"
        using parent [OF x(1) l(1)] by blast
      have "sr_inode u = sr_inode v" using placed_inj [OF p u(3) v(3)] l(3) u(2) v(2) by simp
      then have "u = v" using snapshot_inode_inj [OF ok(2) u(4) v(4)] by simp
      then show ?thesis using u(1) v(1) by simp
    qed
    then have "sr_path r = sr_path x" using r(4) ne by (metis append_butlast_last_id)
    then have "r = x" by (rule snapshot_path_inj [OF ok(2) rs(1) x(1)])
    then show False using r(2) rs(2) x(2,3) by simp
  qed
  note none = placed_no_child [OF p free]
  show ?thesis
  proof (cases "row_of index ?i")
    case None
    let ?k = "Suc (Max (insert 0 (set (map fd_id fs))))"
    let ?f = "f(?i := ?k)"
    have k: "?k \<notin> set (map fd_id fs)"
    proof
      assume "?k \<in> set (map fd_id fs)"
      then have "?k \<le> Max (insert 0 (set (map fd_id fs)))" by (intro Max_ge) simp_all
      then show False by simp
    qed
    have i: "?pl ?i = None" using row [OF x(1)] x(2,3) None by (simp add: in_places_def)
    have "placed ?f (?pl(?i \<mapsto> (home_of f x, last (sr_path x), ?c)))
        (\<lparr>fd_id = ?k, fd_home = home_of f x, fd_name = last (sr_path x), fd_content = ?c\<rparr> # fs)"
      by (rule placed_add [OF p i k free])
    moreover have "?pl(?i \<mapsto> (home_of f x, last (sr_path x), ?c)) = in_places ?f cont index tree (insert ?i K)"
    proof
      fix j
      have home: "home_of ?f r = home_of f r" if r: "r \<in> set tree" "moves_in index r \<longrightarrow> sr_inode r \<in> K \<or> r = x" for r
      proof (cases "length (sr_path r) = 1")
        case False
        then have l: "1 < length (sr_path r)" using snapshot_path_ne [OF ok(2) r(1)] by (cases "sr_path r") auto
        then obtain u :: snap_row and y where "sr_inode u = sr_pinode r" "?pl (sr_inode u) = Some y" using parent [OF r(1) l r(2)] by blast
        then have "sr_pinode r \<noteq> ?i" using i by auto
        then show ?thesis by (simp add: home_of_def)
      qed (simp add: home_of_def)
      show "(?pl(?i \<mapsto> (home_of f x, last (sr_path x), ?c))) j = in_places ?f cont index tree (insert ?i K) j"
      proof (cases "j = ?i")
        case True
        then show ?thesis using home [OF x(1)] row [OF x(1)] by (simp add: in_places_def)
      next
        case False
        show ?thesis
        proof (cases "row_of tree j")
          case (Some r)
          then have "r \<in> set tree" "sr_inode r = j" using row_of_SomeD by blast+
          then show ?thesis using False Some home [of r] by (auto simp: in_places_def)
        qed (use False in \<open>simp add: in_places_def\<close>)
      qed
    qed
    moreover have "apply_creates_and_move_ins_callback fs (row_of index ?i, Some x) =
        \<lparr>fd_id = ?k, fd_home = home_of f x, fd_name = last (sr_path x), fd_content = ?c\<rparr> # fs"
      using None w none snapshot_path_ne [OF ok(2) x(1)]
      by (simp add: apply_creates_and_move_ins_callback_def mkdir_def new_content_def)
    ultimately show ?thesis by metis
  next
    case (Some r)
    have i: "?pl ?i = Some (In_lot, lot_name ?i, cont ?i)"
      using row [OF x(1)] x(2,3) Some by (simp add: in_places_def)
    have "placed f (?pl(?i \<mapsto> (home_of f x, last (sr_path x), cont ?i)))
        (change_dir (f ?i) (\<lambda>d. d\<lparr>fd_home := home_of f x, fd_name := last (sr_path x)\<rparr>) fs)"
      by (rule placed_change [OF p i]) (simp_all add: free)
    moreover have "?pl(?i \<mapsto> (home_of f x, last (sr_path x), cont ?i)) = in_places f cont index tree (insert ?i K)"
      using row [OF x(1)] Some by (auto simp: in_places_def fun_eq_iff new_content_def split: option.split)
    moreover have "apply_creates_and_move_ins_callback fs (row_of index ?i, Some x) =
        change_dir (f ?i) (\<lambda>d. d\<lparr>fd_home := home_of f x, fd_name := last (sr_path x)\<rparr>) fs"
      using Some placed_child [OF p i] w none by (simp add: apply_creates_and_move_ins_callback_def rename_dir_def)
    ultimately show ?thesis by metis
  qed
qed


lemma move_ins:
  assumes ok: "snapshot_ok index" "snapshot_ok tree"
    and "placed f (in_places f cont index tree (sr_inode ` set ys)) fs"
    and "distinct (ys @ xs)" "set ys \<union> set xs = {t \<in> set tree. moves_in index t}"
    and "sorted_wrt (\<lambda>i j. sr_depth i \<le> sr_depth j) (ys @ xs)"
  shows "\<exists>f'. placed f' (in_places f' cont index tree (sr_inode ` {t \<in> set tree. moves_in index t}))
    (foldl apply_creates_and_move_ins_callback fs (map (\<lambda>t. (row_of index (sr_inode t), Some t)) xs))"
  using assms(3-6)
proof (induction xs arbitrary: fs ys f)
  case Nil
  then show ?case by auto
next
  case (Cons x xs)
  let ?K = "sr_inode ` set ys"
  have sub: "set ys \<subseteq> set tree" and x: "x \<in> set tree" "moves_in index x"
    using Cons.prems(3) by auto
  have inK: "r \<in> set ys" if r: "r \<in> set tree" "sr_inode r \<in> ?K" for r
  proof -
    obtain y where y: "y \<in> set ys" "sr_inode r = sr_inode y" using r(2) by auto
    then have "r = y" using snapshot_inode_inj [OF ok(2) r(1)] sub by blast
    then show ?thesis using y(1) by simp
  qed
  have nK: "sr_inode x \<notin> ?K" using inK [OF x(1)] Cons.prems(2) by auto
  obtain g where step: "placed g (in_places g cont index tree (insert (sr_inode x) ?K))
      (apply_creates_and_move_ins_callback fs (row_of index (sr_inode x), Some x))"
  proof -
    have "\<exists>g. placed g (in_places g cont index tree (insert (sr_inode x) ?K))
      (apply_creates_and_move_ins_callback fs (row_of index (sr_inode x), Some x))"
    proof (rule move_in_step [OF ok x nK Cons.prems(1)])
      fix r
      assume r: "r \<in> set tree" "sr_inode r \<in> ?K"
      then have "sr_depth r \<le> sr_depth x" using Cons.prems(4) inK [OF r] by (auto simp: sorted_wrt_append)
      then show "length (sr_path r) \<le> length (sr_path x)" using snapshot_depth [OF ok(2) r(1) x(1)] by simp
    next
      fix r
      assume r: "r \<in> set tree" "moves_in index r" "length (sr_path r) < length (sr_path x)"
      have "r \<notin> set (x # xs)"
      proof
        assume "r \<in> set (x # xs)"
        then have "sr_depth x \<le> sr_depth r" using Cons.prems(4) by (auto simp: sorted_wrt_append)
        then show False using snapshot_depth [OF ok(2) x(1) r(1)] r(3) by simp
      qed
      moreover have "r \<in> set ys \<union> set (x # xs)" using Cons.prems(3) r by auto
      ultimately show "sr_inode r \<in> ?K" by blast
    qed
    then show thesis using that by blast
  qed
  then have "placed g (in_places g cont index tree (sr_inode ` set (ys @ [x])))
      (apply_creates_and_move_ins_callback fs (row_of index (sr_inode x), Some x))" by simp
  from Cons.IH [OF this] Cons.prems show ?case by simp
qed

section \<open>The tree\<close>

text \<open>Every directory in the place of its row.\<close>

definition tree_places ::
    "(nat \<Rightarrow> nat) \<Rightarrow> (nat \<Rightarrow> 'd content) \<Rightarrow> snap_row list \<Rightarrow> nat \<Rightarrow> (home \<times> string \<times> 'd content) option" where
  "tree_places f cont tree i =
     (case row_of tree i of None \<Rightarrow> None | Some t \<Rightarrow> Some (home_of f t, last (sr_path t), cont i))"

lemma all_in:
  assumes "snapshot_ok tree"
  shows "in_places f cont index tree (sr_inode ` {t \<in> set tree. moves_in index t}) = tree_places f (new_content index cont) tree"
proof
  fix i
  have "i \<in> sr_inode ` {t \<in> set tree. moves_in index t}" if "row_of tree i = Some t" "moves_in index t" for t
    using row_of_SomeD [OF that(1)] that(2) by auto
  then show "in_places f cont index tree (sr_inode ` {t \<in> set tree. moves_in index t}) i = tree_places f (new_content index cont) tree i"
    by (auto simp: in_places_def tree_places_def split: option.split)
qed

lemma tree_places_row:
  "snapshot_ok tree \<Longrightarrow> t \<in> set tree \<Longrightarrow> tree_places f cont tree (sr_inode t) = Some (home_of f t, last (sr_path t), cont (sr_inode t))"
  by (simp add: tree_places_def row_of_Some)

lemma lookup_tree:
  assumes "snapshot_ok tree" "placed f (tree_places f cont tree) fs" "t \<in> set tree"
  shows "lookup_dir fs (sr_path t) =
    Some \<lparr>fd_id = f (sr_inode t), fd_home = home_of f t, fd_name = last (sr_path t), fd_content = cont (sr_inode t)\<rparr>"
  by (rule lookup_row [OF assms(2,1,3)]) (use tree_places_row [OF assms(1)] assms(3) in auto)

text \<open>What is found by a path has a row.\<close>

lemma walk_tree:
  assumes ok: "snapshot_ok tree" and p: "placed f (tree_places f cont tree) fs" and "walk fs At_top q = Some h"
  shows "(q = [] \<and> h = At_top) \<or> (\<exists>t \<in> set tree. sr_path t = q \<and> h = In_dir (f (sr_inode t)))"
  using assms(3)
proof (induction q arbitrary: h rule: rev_induct)
  case (snoc n q)
  obtain h0 d where h0: "walk fs At_top q = Some h0" "child_of fs h0 n = Some d" "h = In_dir (fd_id d)"
    using snoc.prems by (auto simp: walk_snoc split: option.splits)
  obtain i c where i: "tree_places f cont tree i = Some (h0, n, c)" "d = \<lparr>fd_id = f i, fd_home = h0, fd_name = n, fd_content = c\<rparr>"
    by (rule placed_childD [OF p h0(2)])
  obtain t where t: "row_of tree i = Some t" "home_of f t = h0" "last (sr_path t) = n"
    using i(1) by (auto simp: tree_places_def split: option.splits)
  have ts: "t \<in> set tree" "sr_inode t = i" using row_of_SomeD [OF t(1)] by simp_all
  have ne: "sr_path t \<noteq> []" using snapshot_path_ne [OF ok ts(1)] .
  have "butlast (sr_path t) = q"
  proof (cases "length (sr_path t) = 1")
    case True
    then have "h0 = At_top" using t(2) by (simp add: home_of_def)
    then have "q = []" using snoc.IH [OF h0(1)] by auto
    then show ?thesis using True by (cases "sr_path t") auto
  next
    case False
    then have l: "1 < length (sr_path t)" using ne by (cases "sr_path t") auto
    then have h: "h0 = In_dir (f (sr_pinode t))" using t(2) by (simp add: home_of_def)
    then obtain s where s: "s \<in> set tree" "sr_path s = q" "f (sr_inode s) = f (sr_pinode t)" using snoc.IH [OF h0(1)] by auto
    obtain u where u: "u \<in> set tree" "sr_path u = butlast (sr_path t)" "sr_inode u = sr_pinode t"
      by (rule snapshot_parent [OF ok ts(1) l])
    have "sr_inode s = sr_inode u"
      using placed_inj [OF p tree_places_row [OF ok s(1)] tree_places_row [OF ok u(1)]] s(3) u(3) by simp
    then have "s = u" using snapshot_inode_inj [OF ok s(1) u(1)] by simp
    then show ?thesis using s(2) u(2) by simp
  qed
  then have "sr_path t = q @ [n]" using t(3) ne by (metis append_butlast_last_id)
  then show ?case using ts i(2) h0(3) by auto
qed simp

lemma lookup_tree_only:
  assumes ok: "snapshot_ok tree" and p: "placed f (tree_places f cont tree) fs" and l: "lookup_dir fs q = Some d"
  shows "\<exists>t \<in> set tree. sr_path t = q"
proof -
  have "q \<noteq> []" using l by (auto simp: lookup_dir_def)
  then obtain q' n where q: "q = q' @ [n]" by (metis append_butlast_last_id)
  then have "walk fs At_top q = Some (In_dir (fd_id d))"
    using l by (simp add: lookup_dir_def walk_snoc split: option.splits)
  then show ?thesis using walk_tree [OF ok p] \<open>q \<noteq> []\<close> by blast
qed

text \<open>So the directories are those of the tree.\<close>

lemma lookup_tree_eq:
  assumes ok: "snapshot_ok tree" and p: "placed f (tree_places f cont tree) fs"
  shows "map_option fd_content (lookup_dir fs q) = map_option (\<lambda>t. cont (sr_inode t)) (find (\<lambda>t. sr_path t = q) tree)"
proof (cases "find (\<lambda>t. sr_path t = q) tree")
  case None
  then have "\<not> (\<exists>t \<in> set tree. sr_path t = q)" by (auto simp: find_None_iff)
  then have "lookup_dir fs q = None" using lookup_tree_only [OF ok p] by (cases "lookup_dir fs q") auto
  then show ?thesis using None by simp
next
  case (Some t)
  then have "t \<in> set tree" "sr_path t = q" by (auto simp: find_Some_iff)
  then show ?thesis using lookup_tree [OF ok p, of t] Some by simp
qed

section \<open>New databases\<close>

definition with_db :: "('d \<Rightarrow> (nat \<times> nat \<times> nat) option) \<Rightarrow> 'd option \<Rightarrow> 'd content \<Rightarrow> 'd content" where
  "with_db perms_of db c = (case db of None \<Rightarrow> c | Some d \<Rightarrow> placed_db perms_of d c)"

lemma update_step:
  assumes ok: "snapshot_ok tree" and p: "placed f (tree_places f cont tree) (fst s)" and t: "t \<in> set tree"
  shows "placed f (tree_places f (cont(sr_inode t := with_db perms_of (snd s (sr_inode t)) (cont (sr_inode t)))) tree) (fst (apply_update perms_of s (i, Some t)))"
    "snd (apply_update perms_of s (i, Some t)) = (snd s)(sr_inode t := None)"
proof -
  note l = lookup_tree [OF ok p t]
  show "snd (apply_update perms_of s (i, Some t)) = (snd s)(sr_inode t := None)"
    using l by (auto simp: apply_update_def fun_eq_iff split: option.split)
  show "placed f (tree_places f (cont(sr_inode t := with_db perms_of (snd s (sr_inode t)) (cont (sr_inode t)))) tree) (fst (apply_update perms_of s (i, Some t)))"
  proof (cases "snd s (sr_inode t)")
    case None
    then show ?thesis using p by (simp add: apply_update_def with_db_def)
  next
    case (Some db)
    let ?c = "placed_db perms_of db (cont (sr_inode t))"
    let ?g = "\<lambda>d :: 'a fdir. d\<lparr>fd_content := placed_db perms_of db (fd_content d)\<rparr>"
    note pt = tree_places_row [OF ok t, of f cont]
    have "placed f ((tree_places f cont tree)(sr_inode t \<mapsto> (home_of f t, last (sr_path t), ?c))) (change_dir (f (sr_inode t)) ?g (fst s))"
    proof (rule placed_change [OF p pt])
      fix j c
      assume "j \<noteq> sr_inode t"
      then show "tree_places f cont tree j \<noteq> Some (home_of f t, last (sr_path t), c)"
        using placed_slot [OF p pt, of j c] by auto
    qed simp
    moreover have "(tree_places f cont tree)(sr_inode t \<mapsto> (home_of f t, last (sr_path t), ?c)) =
        tree_places f (cont(sr_inode t := ?c)) tree"
      using row_of_Some [OF ok t] by (auto simp: tree_places_def fun_eq_iff split: option.split)
    ultimately show ?thesis using l Some by (simp add: apply_update_def with_db_def)
  qed
qed

lemma update_steps:
  assumes ok: "snapshot_ok tree" and "placed f (tree_places f cont tree) (fst s)" and "set ts \<subseteq> set tree" "distinct ts"
  shows "placed f (tree_places f (\<lambda>i. if i \<in> sr_inode ` set ts then with_db perms_of (snd s i) (cont i) else cont i) tree)
    (fst (foldl (apply_update perms_of) s (map (\<lambda>t. (row_of index (sr_inode t), Some t)) ts)))"
  using assms(2-4)
proof (induction ts arbitrary: s cont)
  case (Cons t ts)
  let ?s = "apply_update perms_of s (row_of index (sr_inode t), Some t)"
  let ?cont = "cont(sr_inode t := with_db perms_of (snd s (sr_inode t)) (cont (sr_inode t)))"
  have t: "t \<in> set tree" using Cons.prems(2) by simp
  have u: "snd ?s = (snd s)(sr_inode t := None)" by (rule update_step(2) [OF ok Cons.prems(1) t])
  have "placed f (tree_places f (\<lambda>i. if i \<in> sr_inode ` set ts then with_db perms_of (snd ?s i) (?cont i) else ?cont i) tree)
      (fst (foldl (apply_update perms_of) ?s (map (\<lambda>t. (row_of index (sr_inode t), Some t)) ts)))"
    by (rule Cons.IH [OF update_step(1) [OF ok Cons.prems(1) t]]) (use Cons.prems in auto)
  moreover have "(\<lambda>i. if i \<in> sr_inode ` set ts then with_db perms_of (snd ?s i) (?cont i) else ?cont i) =
      (\<lambda>i. if i \<in> sr_inode ` set (t # ts) then with_db perms_of (snd s i) (cont i) else cont i)"
    unfolding u by (auto simp: fun_eq_iff with_db_def)
  ultimately show ?case by simp
qed simp

section \<open>The whole update\<close>

text \<open>The content a directory of the tree ends with.\<close>

definition final_content ::
    "('d \<Rightarrow> (nat \<times> nat \<times> nat) option) \<Rightarrow> snap_row list \<Rightarrow> (nat \<Rightarrow> 'd content) \<Rightarrow> (nat \<Rightarrow> 'd option) \<Rightarrow> snap_row \<Rightarrow> 'd content" where
  "final_content perms_of index cont lot t =
     (if moves_in index t \<or> sr_suspect t then with_db perms_of (lot (sr_inode t)) (new_content index cont (sr_inode t))
      else new_content index cont (sr_inode t))"

text \<open>
  The directories of the snapshot of the index, each with its content, and nothing else, the parking lot being empty
  of directories.
\<close>

definition holds_snapshot :: "(nat \<Rightarrow> nat) \<Rightarrow> (nat \<Rightarrow> 'd content) \<Rightarrow> snap_row list \<Rightarrow> 'd fdir list \<Rightarrow> bool" where
  "holds_snapshot f cont index fs \<longleftrightarrow>
     snapshot_ok index \<and> inj_on f (sr_inode ` set index) \<and> distinct (map fd_id fs)
     \<and> set fs = (\<lambda>r. \<lparr>fd_id = f (sr_inode r), fd_home = home_of f r, fd_name = last (sr_path r),
                     fd_content = cont (sr_inode r)\<rparr>) ` set index"

lemma holds_placed:
  assumes "holds_snapshot f cont index fs"
  shows "placed f (out_places f cont index tree {}) fs"
proof -
  have ok: "snapshot_ok index" and inj: "inj_on f (sr_inode ` set index)" and d: "distinct (map fd_id fs)"
    and s: "set fs = (\<lambda>r. \<lparr>fd_id = f (sr_inode r), fd_home = home_of f r, fd_name = last (sr_path r),
                     fd_content = cont (sr_inode r)\<rparr>) ` set index"
    using assms by (simp_all add: holds_snapshot_def)
  have pl: "out_places f cont index tree {} i = Some (h, n, c) \<longleftrightarrow>
      (\<exists>r \<in> set index. sr_inode r = i \<and> home_of f r = h \<and> last (sr_path r) = n \<and> cont i = c)" for i h n c
    using row_of_Some [OF ok] row_of_SomeD [of index i] by (fastforce simp: out_places_def split: option.splits)
  show ?thesis
  proof (rule placedI [OF d])
    have "dom (out_places f cont index tree {}) \<subseteq> sr_inode ` set index"
      using pl by fastforce
    then show "inj_on f (dom (out_places f cont index tree {}))" using inj by (rule inj_on_subset [rotated])
  next
    fix e assume "e \<in> set fs"
    then show "\<exists>i h n c. out_places f cont index tree {} i = Some (h, n, c) \<and> e = \<lparr>fd_id = f i, fd_home = h, fd_name = n, fd_content = c\<rparr>"
      unfolding s pl by blast
  next
    fix i h n c assume "out_places f cont index tree {} i = Some (h, n, c)"
    then show "\<lparr>fd_id = f i, fd_home = h, fd_name = n, fd_content = c\<rparr> \<in> set fs"
      unfolding s pl by blast
  next
    fix i j h n c c'
    assume "out_places f cont index tree {} i = Some (h, n, c)" "out_places f cont index tree {} j = Some (h, n, c')"
    then obtain r t where r: "r \<in> set index" "sr_inode r = i" "home_of f r = h" "last (sr_path r) = n"
      and t: "t \<in> set index" "sr_inode t = j" "home_of f t = h" "last (sr_path t) = n"
      unfolding pl by blast
    have ne: "sr_path r \<noteq> []" "sr_path t \<noteq> []" using snapshot_path_ne [OF ok] r(1) t(1) by auto
    have "butlast (sr_path r) = butlast (sr_path t)"
    proof (cases "length (sr_path r) = 1")
      case True
      then have "length (sr_path t) = 1" using r(3) t(3) by (auto simp: home_of_def split: if_splits)
      then show ?thesis using True by (cases "sr_path r"; cases "sr_path t"; simp)
    next
      case False
      then have l: "1 < length (sr_path r)" "1 < length (sr_path t)" "f (sr_pinode r) = f (sr_pinode t)"
        using r(3) t(3) ne by (cases "sr_path r"; cases "sr_path t"; auto simp: home_of_def split: if_splits)+
      obtain u where u: "u \<in> set index" "sr_path u = butlast (sr_path r)" "sr_inode u = sr_pinode r"
        by (rule snapshot_parent [OF ok r(1) l(1)])
      obtain v where v: "v \<in> set index" "sr_path v = butlast (sr_path t)" "sr_inode v = sr_pinode t"
        by (rule snapshot_parent [OF ok t(1) l(2)])
      have "sr_inode u = sr_inode v" using inj u v l(3) by (auto simp: inj_on_def)
      then have "u = v" using snapshot_inode_inj [OF ok u(1) v(1)] by simp
      then show ?thesis using u(2) v(2) by simp
    qed
    then have "sr_path r = sr_path t" using r(4) t(4) ne by (metis append_butlast_last_id)
    then show "i = j" using snapshot_path_inj [OF ok r(1) t(1)] r(2) t(2) by simp
  qed
qed

text \<open>
  C5: Whatever directories were deleted, created, renamed and moved between the snapshot of the index and that of the
  tree, also into each other's places, and in whatever order \<open>ORDER BY\<close> leaves rows of one depth, afterwards exactly
  the paths of the tree are directories of the index; each has what it had under its old path, with the new database
  where one was built, and a created directory without one has none.  Every directory that was deleted must have a
  database and no other file in the index, otherwise it stays (lemma \<open>deleted_with_other_files_stays\<close>); both
  snapshots must be trees with different inodes and paths, and that of the index must be what the index holds.
\<close>

lemma incremental_update_mirrors_tree:
  assumes "holds_snapshot f cont index fs" "snapshot_ok tree"
    and "\<forall>r \<in> set index. row_of tree (sr_inode r) = None \<longrightarrow> ct_db (cont (sr_inode r)) \<noteq> None \<and> \<not> ct_other (cont (sr_inode r))"
    and "ordered_rows deletes_and_move_outs deeper_in_index (get_diff index tree) outs"
    and "ordered_rows creates_and_move_ins higher_in_tree (get_diff index tree) ins"
    and "ordered_rows updates (\<lambda>_ _. True) (get_diff index tree) ups"
  shows "map_option fd_content (lookup_dir (fst (incremental_update perms_of outs ins ups (fs, lot))) q) =
    map_option (final_content perms_of index cont lot) (find (\<lambda>t. sr_path t = q) tree)"
proof -
  have ok: "snapshot_ok index" "snapshot_ok tree" and inj: "inj_on f (sr_inode ` set index)"
    using assms(1,2) by (simp_all add: holds_snapshot_def)
  let ?t = "\<lambda>t. (row_of index (sr_inode t), Some t)"
  obtain xs where xs: "outs = map (\<lambda>i. (Some i, row_of tree (sr_inode i))) xs" "distinct xs"
    "set xs = {i \<in> set index. moves_out tree i}" "sorted_wrt (\<lambda>i j. sr_depth j \<le> sr_depth i) xs"
    by (rule outs_rows [OF ok assms(4)])
  obtain ys where ys: "ins = map ?t ys" "distinct ys"
    "set ys = {t \<in> set tree. creates_and_move_ins (?t t) \<and> ?t t \<in> set (get_diff index tree)}"
    "sorted_wrt (\<lambda>a b. higher_in_tree (?t a) (?t b)) ys"
    by (rule tree_rows [OF ok assms(5)]) (auto dest: creates_in_tree)
  obtain zs where zs: "ups = map ?t zs" "distinct zs"
    "set zs = {t \<in> set tree. updates (?t t) \<and> ?t t \<in> set (get_diff index tree)}"
    by (rule tree_rows [OF ok assms(6)]) (auto simp: updates_def)
  have ysin: "set ys = {t \<in> set tree. moves_in index t}"
    unfolding ys(3) using in_diff [OF ok] by (auto simp: moves_in_def)
  have zsin: "set zs = {t \<in> set tree. moves_in index t \<or> sr_suspect t}"
    unfolding zs(3) using in_diff [OF ok] by (auto simp: updates_def)
  define fs1 where "fs1 = foldl apply_removes_and_move_outs_callback fs outs"
  define fs2 where "fs2 = foldl apply_creates_and_move_ins_callback fs1 ins"
  have "placed f (out_places f cont index tree (sr_inode ` {i \<in> set index. moves_out tree i})) fs1"
    unfolding fs1_def xs(1)
    by (rule move_outs [OF ok inj, where ys = "[]"]) (use assms(3) xs holds_placed [OF assms(1)] in auto)
  then have p1: "placed f (in_places f cont index tree {}) fs1" by (simp only: out_then_in [OF ok])
  have "\<exists>f'. placed f' (in_places f' cont index tree (sr_inode ` {t \<in> set tree. moves_in index t})) fs2"
    unfolding fs2_def ys(1)
    by (rule move_ins [OF ok, where ys = "[]"]) (use p1 ys ysin in \<open>auto simp: higher_in_tree_def\<close>)
  then obtain f' where p2: "placed f' (tree_places f' (new_content index cont) tree) fs2"
    by (auto simp only: all_in [OF ok(2)])
  have "placed f' (tree_places f' (\<lambda>i. if i \<in> sr_inode ` set zs then with_db perms_of (lot i) (new_content index cont i)
      else new_content index cont i) tree) (fst (foldl (apply_update perms_of) (fs2, lot) ups))"
    unfolding zs(1)
    by (rule update_steps [OF ok(2), where f = f' and cont = "new_content index cont" and s = "(fs2, lot)", unfolded prod.sel])
      (use p2 zs(2) zsin in auto)
  from lookup_tree_eq [OF ok(2) this]
  have "map_option fd_content (lookup_dir (fst (foldl (apply_update perms_of) (fs2, lot) ups)) q) =
      map_option (\<lambda>t. if sr_inode t \<in> sr_inode ` set zs then with_db perms_of (lot (sr_inode t)) (new_content index cont (sr_inode t))
        else new_content index cont (sr_inode t)) (find (\<lambda>t. sr_path t = q) tree)" .
  moreover have "(sr_inode t \<in> sr_inode ` set zs) = (moves_in index t \<or> sr_suspect t)" if t: "t \<in> set tree" for t
  proof
    assume "sr_inode t \<in> sr_inode ` set zs"
    then obtain z where z: "z \<in> set zs" "sr_inode t = sr_inode z" by auto
    then have "t = z" using snapshot_inode_inj [OF ok(2) t] zsin by auto
    then show "moves_in index t \<or> sr_suspect t" using z zsin by auto
  qed (use t zsin in auto)
  moreover have "incremental_update perms_of outs ins ups (fs, lot) = foldl (apply_update perms_of) (fs2, lot) ups"
    by (simp add: incremental_update_def fs1_def fs2_def)
  moreover have "t \<in> set tree" if "find (\<lambda>t. sr_path t = q) tree = Some t" for t
    using that by (auto simp: find_Some_iff)
  ultimately show ?thesis
    by (cases "find (\<lambda>t. sr_path t = q) tree") (simp_all add: final_content_def)
qed


text \<open>For an example: a directory renamed, one moved below it with its database, one deleted, one created without a database.\<close>

definition ex_index :: "snap_row list" where
  "ex_index = [\<lparr>sr_path = [''t''], sr_inode = 1, sr_pinode = 0, sr_depth = 0, sr_suspect = False\<rparr>,
     \<lparr>sr_path = [''t'', ''a''], sr_inode = 2, sr_pinode = 1, sr_depth = 1, sr_suspect = False\<rparr>,
     \<lparr>sr_path = [''t'', ''b''], sr_inode = 3, sr_pinode = 1, sr_depth = 1, sr_suspect = False\<rparr>]"

definition ex_tree :: "snap_row list" where
  "ex_tree = [\<lparr>sr_path = [''t''], sr_inode = 1, sr_pinode = 0, sr_depth = 0, sr_suspect = True\<rparr>,
     \<lparr>sr_path = [''t'', ''b''], sr_inode = 2, sr_pinode = 1, sr_depth = 1, sr_suspect = False\<rparr>,
     \<lparr>sr_path = [''t'', ''b'', ''c''], sr_inode = 4, sr_pinode = 2, sr_depth = 2, sr_suspect = False\<rparr>]"

definition ex_cont :: "nat \<Rightarrow> string content" where
  "ex_cont i = \<lparr>ct_db = Some (digits 10 i), ct_perms = None, ct_other = False\<rparr>"

definition ex_dirs :: "string fdir list" where
  "ex_dirs = [\<lparr>fd_id = 1, fd_home = At_top, fd_name = ''t'', fd_content = ex_cont 1\<rparr>,
     \<lparr>fd_id = 2, fd_home = In_dir 1, fd_name = ''a'', fd_content = ex_cont 2\<rparr>,
     \<lparr>fd_id = 3, fd_home = In_dir 1, fd_name = ''b'', fd_content = ex_cont 3\<rparr>]"

lemma ex_holds: "holds_snapshot (\<lambda>i. i) ex_cont ex_index ex_dirs"
  unfolding holds_snapshot_def snapshot_ok_def
  by (simp add: ex_index_def ex_dirs_def home_of_def)


definition ex_lot :: "nat \<Rightarrow> string option" where
  "ex_lot i = (if i = 1 then Some ''new'' else None)"

lemma incremental_update_mirrors_tree_witness:
  "map_option fd_content (lookup_dir (fst (incremental_update (\<lambda>_. Some (493, 0, 0))
      [(Some (ex_index ! 1), Some (ex_tree ! 1)), (Some (ex_index ! 2), None)]
      [(Some (ex_index ! 1), Some (ex_tree ! 1)), (None, Some (ex_tree ! 2))]
      [(Some (ex_index ! 0), Some (ex_tree ! 0)), (Some (ex_index ! 1), Some (ex_tree ! 1)), (None, Some (ex_tree ! 2))]
      (ex_dirs, ex_lot))) [''t'', ''b'', ''c'']) = Some \<lparr>ct_db = None, ct_perms = None, ct_other = False\<rparr>"
proof -
  have ok: "snapshot_ok ex_tree"
    unfolding snapshot_ok_def by (simp add: ex_tree_def)
  have diff: "get_diff ex_index ex_tree = [(Some (ex_index ! 0), Some (ex_tree ! 0)), (Some (ex_index ! 1), Some (ex_tree ! 1)),
      (Some (ex_index ! 2), None), (None, Some (ex_tree ! 2))]"
    by (simp add: get_diff_def get_urd_def get_created_def ex_index_def ex_tree_def)
  have outs: "ordered_rows deletes_and_move_outs deeper_in_index (get_diff ex_index ex_tree)
      [(Some (ex_index ! 1), Some (ex_tree ! 1)), (Some (ex_index ! 2), None)]"
    unfolding diff by (simp add: ordered_rows_def deletes_and_move_outs_def deeper_in_index_def ex_index_def ex_tree_def)
  have ins: "ordered_rows creates_and_move_ins higher_in_tree (get_diff ex_index ex_tree)
      [(Some (ex_index ! 1), Some (ex_tree ! 1)), (None, Some (ex_tree ! 2))]"
    unfolding diff by (simp add: ordered_rows_def creates_and_move_ins_def higher_in_tree_def ex_index_def ex_tree_def)
  have ups: "ordered_rows updates (\<lambda>_ _. True) (get_diff ex_index ex_tree)
      [(Some (ex_index ! 0), Some (ex_tree ! 0)), (Some (ex_index ! 1), Some (ex_tree ! 1)), (None, Some (ex_tree ! 2))]"
    unfolding diff by (simp add: ordered_rows_def updates_def ex_index_def ex_tree_def)
  have dbs: "\<forall>r \<in> set ex_index. row_of ex_tree (sr_inode r) = None \<longrightarrow> ct_db (ex_cont (sr_inode r)) \<noteq> None \<and> \<not> ct_other (ex_cont (sr_inode r))"
    by (simp add: ex_cont_def)
  have find: "find (\<lambda>t. sr_path t = [''t'', ''b'', ''c'']) ex_tree = Some (ex_tree ! 2)"
    by (simp add: ex_tree_def)
  have "final_content (\<lambda>_. Some (493, 0, 0)) ex_index ex_cont ex_lot (ex_tree ! 2) = \<lparr>ct_db = None, ct_perms = None, ct_other = False\<rparr>"
    by (simp add: final_content_def with_db_def ex_lot_def new_content_def row_of_def ex_index_def ex_tree_def)
  then show ?thesis
    by (simp only: incremental_update_mirrors_tree [OF ex_holds ok dbs outs ins ups] find option.map)
qed

section \<open>A directory with other files\<close>

text \<open>
  A deleted directory that holds more than its database, such as databases of attributes, loses the database and
  stays in the index.
\<close>

lemma deleted_with_other_files_stays:
  assumes "lookup_dir fs (sr_path i) = Some d" "ct_db (fd_content d) = Some db" "ct_other (fd_content d)"
  shows "\<exists>e. lookup_dir (apply_removes_and_move_outs_callback fs (Some i, None)) (sr_path i) = Some e
    \<and> fd_id e = fd_id d \<and> ct_db (fd_content e) = None"
proof -
  let ?g = "\<lambda>d :: 'a fdir. d\<lparr>fd_content := (fd_content d)\<lparr>ct_db := None\<rparr>\<rparr>"
  let ?fs = "change_dir (fd_id d) ?g fs"
  have child: "child_of ?fs h n = map_option (\<lambda>e. if fd_id e = fd_id d then ?g e else e) (child_of fs h n)" for h n
    unfolding child_of_def change_dir_def by (induction fs) auto
  have "walk ?fs h p = walk fs h p" for h p
    by (induction p arbitrary: h) (simp_all add: child split: option.split)
  then have l: "lookup_dir ?fs p = map_option (\<lambda>e. if fd_id e = fd_id d then ?g e else e) (lookup_dir fs p)" for p
    by (simp add: lookup_dir_def child split: option.split)
  have "lookup_dir ?fs (sr_path i) = Some (?g d)" using l assms(1) by simp
  moreover have "\<not> is_empty_dir ?fs (?g d)" using assms(3) by (simp add: is_empty_dir_def)
  ultimately show ?thesis
    using assms(1,2) by (simp add: apply_removes_and_move_outs_callback_def unlink_db_def rmdir_def)
qed

lemma deleted_with_other_files_stays_witness:
  "\<exists>e. lookup_dir (apply_removes_and_move_outs_callback
      [\<lparr>fd_id = 1, fd_home = At_top, fd_name = ''t'', fd_content = \<lparr>ct_db = Some True, ct_perms = None, ct_other = True\<rparr>\<rparr>]
      (Some \<lparr>sr_path = [''t''], sr_inode = 1, sr_pinode = 0, sr_depth = 0, sr_suspect = False\<rparr>, None)) [''t''] = Some e
    \<and> fd_id e = 1 \<and> ct_db (fd_content e) = None"
proof -
  let ?d = "\<lparr>fd_id = 1, fd_home = At_top, fd_name = ''t'', fd_content = \<lparr>ct_db = Some True, ct_perms = None, ct_other = True\<rparr>\<rparr>"
  let ?i = "\<lparr>sr_path = [''t''], sr_inode = 1, sr_pinode = 0, sr_depth = 0, sr_suspect = False\<rparr>"
  have "lookup_dir [?d] (sr_path ?i) = Some ?d" by (simp add: lookup_dir_def child_of_def)
  from deleted_with_other_files_stays [OF this, of True] show ?thesis by simp
qed

section \<open>The suspect file\<close>

definition in_range :: "suspect_inodes \<Rightarrow> bool" where
  "in_range s \<longleftrightarrow> (\<forall>i. trie_search_node (si_inodes s) (digits 10 (unat i)) \<noteq> None \<longrightarrow> si_min s \<le> i \<and> i \<le> si_max s)"

lemma find_inode_in_range: "in_range s \<Longrightarrow> find_inode s i \<longleftrightarrow> trie_search_node (si_inodes s) (digits 10 (unat i)) \<noteq> None"
  by (force simp: find_inode_def in_range_def)

lemma in_range_none: "in_range no_suspects"
  by (simp add: in_range_def no_suspects_def)

lemma in_range_add: "in_range s \<Longrightarrow> in_range (add_suspect (digits 10 (unat i)) i s)"
  unfolding in_range_def
proof (intro allI impI)
  fix j :: "64 word"
  assume s: "\<forall>i. trie_search_node (si_inodes s) (digits 10 (unat i)) \<noteq> None \<longrightarrow> si_min s \<le> i \<and> i \<le> si_max s"
    and "trie_search_node (si_inodes (add_suspect (digits 10 (unat i)) i s)) (digits 10 (unat j)) \<noteq> None"
  then consider "j = i" | "si_min s \<le> j" "j \<le> si_max s"
    by (auto simp: add_suspect_def trie_search_insert digits_inj word_unat_eq_iff split: if_splits)
  then show "si_min (add_suspect (digits 10 (unat i)) i s) \<le> j \<and> j \<le> si_max (add_suspect (digits 10 (unat i)) i s)"
    by cases (auto simp: add_suspect_def intro: order_trans [OF less_imp_le])
qed

lemma search_add:
  "trie_search_node (si_inodes (add_suspect str i s)) k \<noteq> None \<longleftrightarrow> k = str \<or> trie_search_node (si_inodes s) k \<noteq> None"
  by (simp add: add_suspect_def trie_search_insert)

lemma inode_of_digits: "n < 2 ^ 64 \<Longrightarrow> sscanf_dec (digits 10 n) = Some (int n) \<and> digits 10 (unat (word_of_int (clamp_u (int n)) :: 64 word)) = digits 10 n"
  using sscanf_fmt_dec [of "int n"] by (simp add: fmt_dec_def clamp_u_def take_bit_nat_eq_self unsigned_of_nat)

lemma setup_suspect_file_spec:
  assumes "\<forall>(str, c) \<in> set rows. \<exists>n < 2 ^ 64. str = digits 10 n" "in_range ds" "in_range fs"
  shows "in_range (fst (setup_suspect_file rows ds fs)) \<and> in_range (snd (setup_suspect_file rows ds fs))
    \<and> (trie_search_node (si_inodes (fst (setup_suspect_file rows ds fs))) k \<noteq> None \<longleftrightarrow>
          trie_search_node (si_inodes ds) k \<noteq> None \<or> (k, CHR ''d'') \<in> set rows)
    \<and> (trie_search_node (si_inodes (snd (setup_suspect_file rows ds fs))) k \<noteq> None \<longleftrightarrow>
          trie_search_node (si_inodes fs) k \<noteq> None \<or> (k, CHR ''f'') \<in> set rows \<or> (k, CHR ''l'') \<in> set rows)"
  using assms
proof (induction rows ds fs rule: setup_suspect_file.induct)
  case (2 str c rest ds fs)
  obtain n where n: "n < 2 ^ 64" "str = digits 10 n" using "2.prems"(1) by auto
  let ?i = "word_of_int (clamp_u (int n)) :: 64 word"
  have s: "sscanf_dec str = Some (int n)" and d: "str = digits 10 (unat ?i)" using inode_of_digits [OF n(1)] n(2) by simp_all
  have rest: "\<forall>(str, c) \<in> set rest. \<exists>n < 2 ^ 64. str = digits 10 n" using "2.prems"(1) by auto
  have add: "in_range (add_suspect str ?i x)" if "in_range x" for x using in_range_add [OF that, of ?i] d by simp
  consider (d) "c = CHR ''d''" | (fl) "c \<noteq> CHR ''d''" "c = CHR ''f'' \<or> c = CHR ''l''" | (no) "c \<noteq> CHR ''d''" "c \<noteq> CHR ''f''" "c \<noteq> CHR ''l''"
    by blast
  then show ?case
  proof cases
    case d
    have "setup_suspect_file ((str, c) # rest) ds fs = setup_suspect_file rest (add_suspect str ?i ds) fs" using s d by simp
    moreover note "2.IH"(2) [OF s refl d rest add [OF "2.prems"(2)] "2.prems"(3)]
    ultimately show ?thesis using d search_add [of str ?i ds k] by auto
  next
    case fl
    have "setup_suspect_file ((str, c) # rest) ds fs = setup_suspect_file rest ds (add_suspect str ?i fs)" using s fl by simp
    moreover note "2.IH"(3) [OF s refl fl rest "2.prems"(2) add [OF "2.prems"(3)]]
    ultimately show ?thesis using fl search_add [of str ?i fs k] by auto
  next
    case no
    have "setup_suspect_file ((str, c) # rest) ds fs = setup_suspect_file rest ds fs" using s no by simp
    moreover have "\<not> (c = CHR ''f'' \<or> c = CHR ''l'')" using no by simp
    note "2.IH"(4) [OF s refl no(1) this rest "2.prems"(2,3)]
    ultimately show ?thesis using no by auto
  qed
qed simp

text \<open>
  After a suspect file was read, a directory is found if and only if the file has its inode as one of a directory,
  and a file or link if and only if it has its inode as one of a file or a link.
\<close>

lemma suspect_file_finds_inodes:
  assumes "\<forall>(str, c) \<in> set rows. \<exists>n < 2 ^ 64. str = digits 10 n"
  shows "(find_inode (fst (setup_suspect_file rows no_suspects no_suspects)) i \<longleftrightarrow> (digits 10 (unat i), CHR ''d'') \<in> set rows)
    \<and> (find_inode (snd (setup_suspect_file rows no_suspects no_suspects)) i \<longleftrightarrow>
      (digits 10 (unat i), CHR ''f'') \<in> set rows \<or> (digits 10 (unat i), CHR ''l'') \<in> set rows)"
  using setup_suspect_file_spec [OF assms in_range_none in_range_none, of "digits 10 (unat i)"]
  by (simp add: find_inode_in_range) (simp add: no_suspects_def)

lemma suspect_file_finds_inodes_witness:
  "find_inode (fst (setup_suspect_file [(digits 10 7, CHR ''d''), (digits 10 9, CHR ''f'')] no_suspects no_suspects)) 7
    \<and> \<not> find_inode (fst (setup_suspect_file [(digits 10 7, CHR ''d''), (digits 10 9, CHR ''f'')] no_suspects no_suspects)) 9"
proof -
  have rows: "\<forall>(str, c) \<in> set [(digits 10 7, CHR ''d''), (digits 10 9, CHR ''f'')]. \<exists>n < 2 ^ 64. str = digits 10 n"
    by (auto intro: exI [of _ 7] exI [of _ 9])
  have "digits 10 9 \<noteq> digits 10 7" by (simp add: digits_inj)
  then show ?thesis
    using suspect_file_finds_inodes [OF rows, of 7] suspect_file_finds_inodes [OF rows, of 9] by simp
qed

section \<open>Tops\<close>

text \<open>The directories that can be reached, with their levels and paths.\<close>

fun reached :: "nat \<Rightarrow> nat \<Rightarrow> string list \<Rightarrow> src_dir \<Rightarrow> (nat \<times> string list \<times> src_dir) list" where
  "reached max_level level p (Src_dir n opens stats suspect ds) =
     (if \<not> opens then []
      else (level, p @ [n], Src_dir n opens stats suspect ds)
        # (if level + 1 \<le> max_level then concat (map (reached max_level (level + 1) (p @ [n])) ds) else []))"

fun distinct_names :: "src_dir \<Rightarrow> bool" where
  "distinct_names (Src_dir n opens stats suspect ds) \<longleftrightarrow> distinct (map sd_name ds) \<and> (\<forall>d \<in> set ds. distinct_names d)"

lemma find_top_prefix: "t \<in> set (find_top mn mx l p d) \<Longrightarrow> prefix (p @ [sd_name d]) t"
proof (induction mn mx l p d arbitrary: t rule: find_top.induct)
  case (1 mn mx l p n opens stats suspect ds)
  show ?case
  proof (cases "t = p @ [n]")
    case False
    then obtain d where "d \<in> set ds" "t \<in> set (find_top mn mx (l + 1) (p @ [n]) d)"
      "opens" "\<not> (mn \<le> l \<and> (\<not> stats \<or> suspect))" "l + 1 \<le> mx"
      using "1.prems" by (auto split: if_splits)
    then have "prefix ((p @ [n]) @ [sd_name d]) t" using "1.IH" by simp
    then show ?thesis by (auto intro: append_prefixD)
  qed simp
qed

lemma reached_prefix: "x \<in> set (reached mx l p d) \<Longrightarrow> prefix (p @ [sd_name d]) (fst (snd x))"
proof (induction mx l p d arbitrary: x rule: reached.induct)
  case (1 mx l p n opens stats suspect ds)
  show ?case
  proof (cases "fst (snd x) = p @ [n]")
    case False
    then obtain d where "d \<in> set ds" "x \<in> set (reached mx (l + 1) (p @ [n]) d)" "opens" "l + 1 \<le> mx"
      using "1.prems" by (auto split: if_splits)
    then have "prefix ((p @ [n]) @ [sd_name d]) (fst (snd x))" using "1.IH" by simp
    then show ?thesis by (auto intro: append_prefixD)
  qed simp
qed

lemma find_top_covers_level:
  "x \<in> set (reached mx l p d) \<Longrightarrow> mn \<le> fst x \<Longrightarrow> \<not> sd_stats (snd (snd x)) \<or> sd_suspect (snd (snd x)) \<Longrightarrow>
   \<exists>t \<in> set (find_top mn mx l p d). prefix t (fst (snd x))"
proof (induction mx l p d arbitrary: x rule: reached.induct)
  case (1 mx l p n opens stats suspect ds)
  have o: opens using "1.prems"(1) by (auto split: if_splits)
  show ?case
  proof (cases "mn \<le> l \<and> (\<not> stats \<or> suspect)")
    case True
    then show ?thesis using o reached_prefix [OF "1.prems"(1)] by simp
  next
    case False
    then have "x \<noteq> (l, p @ [n], Src_dir n opens stats suspect ds)" using "1.prems" by auto
    then obtain d where d: "d \<in> set ds" "x \<in> set (reached mx (l + 1) (p @ [n]) d)" "l + 1 \<le> mx"
      using "1.prems"(1) o by (auto split: if_splits)
    then obtain t where "t \<in> set (find_top mn mx (l + 1) (p @ [n]) d)" "prefix t (fst (snd x))"
      using "1.IH" [OF _ d(3,1,2)] "1.prems" o by blast
    then show ?thesis using False o d by auto
  qed
qed

lemma find_top_separate:
  "distinct_names d \<Longrightarrow> t \<in> set (find_top mn mx l p d) \<Longrightarrow> u \<in> set (find_top mn mx l p d) \<Longrightarrow> prefix t u \<Longrightarrow> t = u"
proof (induction mn mx l p d arbitrary: t u rule: find_top.induct)
  case (1 mn mx l p n opens stats suspect ds)
  show ?case
  proof (cases "mn \<le> l \<and> (\<not> stats \<or> suspect)")
    case True
    then show ?thesis using "1.prems" by (auto split: if_splits)
  next
    case False
    then obtain a b where a: "a \<in> set ds" "t \<in> set (find_top mn mx (l + 1) (p @ [n]) a)"
      and b: "b \<in> set ds" "u \<in> set (find_top mn mx (l + 1) (p @ [n]) b)" and c: "opens" "l + 1 \<le> mx"
      using "1.prems"(2,3) by (auto split: if_splits)
    have "prefix ((p @ [n]) @ [sd_name a]) u" using find_top_prefix [OF a(2)] "1.prems"(4) by (rule prefix_order.trans)
    moreover have "prefix ((p @ [n]) @ [sd_name b]) u" by (rule find_top_prefix [OF b(2)])
    ultimately have "sd_name a = sd_name b" by (auto elim!: prefixE)
    then have "a = b" using "1.prems"(1) a(1) b(1) by (auto simp: distinct_map inj_on_def)
    then show ?thesis using "1.IH" [of a t u] False c a b "1.prems" by auto
  qed
qed

text \<open>
  Every directory that is suspect, at least as deep as the first level and reached by directories that can be
  opened is in the subtree of a top, and no top is in the subtree of another.
\<close>

lemma tops_cover_suspects:
  assumes "distinct_names d"
  shows "(\<forall>x \<in> set (reached max_level 0 [] d). min_level \<le> fst x \<and> (\<not> sd_stats (snd (snd x)) \<or> sd_suspect (snd (snd x))) \<longrightarrow>
      (\<exists>t \<in> set (find_top min_level max_level 0 [] d). prefix t (fst (snd x))))
    \<and> (\<forall>t \<in> set (find_top min_level max_level 0 [] d). \<forall>u \<in> set (find_top min_level max_level 0 [] d). prefix t u \<longrightarrow> t = u)"
  using find_top_covers_level find_top_separate [OF assms] by blast

lemma tops_cover_suspects_witness:
  "\<exists>t \<in> set (find_top 0 9 0 [] (Src_dir ''r'' True True False [Src_dir ''a'' True True True [Src_dir ''b'' True True True []]])).
     prefix t [''r'', ''a'', ''b'']"
proof -
  let ?d = "Src_dir ''r'' True True False [Src_dir ''a'' True True True [Src_dir ''b'' True True True []]]"
  have "distinct_names ?d" by simp
  moreover have "(2, [''r'', ''a'', ''b''], Src_dir ''b'' True True True []) \<in> set (reached 9 0 [] ?d)" by simp
  ultimately show ?thesis using tops_cover_suspects [of ?d 9 0] by fastforce
qed

end
