(* ===== verification/Find.thy ===== *)
theory Find
  imports OutputProps Descend Utils
begin

text \<open>
  \<open>parallel_find\<close>, \<open>src/src/parallel_find.c\<close>: which entries of a walk are printed, and the text \<open>format_output\<close> makes of
  a format.  The stack buffer of 4096 bytes is a buffer as in theory \<open>Output\<close>; what \<open>lstat\<close> and the user database say
  are parameters.
\<close>

section \<open>Formats\<close>

record fstat =
  fst_mode :: "32 word"
  fst_nlink :: nat
  fst_uid :: nat
  fst_gid :: nat
  fst_size :: nat
  fst_blocks :: int
  fst_dev :: int
  fst_ino :: nat
  fst_atime :: int
  fst_mtime :: int
  fst_ctime :: int

unbundle bit_operations_syntax

text \<open>What is known of an entry; \<open>fw_basename_len\<close> characters at the end of the name are its basename.\<close>

record find_work =
  fw_name :: string
  fw_basename_len :: nat
  fw_level :: nat
  fw_stat :: fstat
  fw_orig_root :: string
  fw_type :: char
  fw_linkname :: string

datatype lookup = Lookup_error | No_name | Named string

record names =
  nm_user :: "nat \<Rightarrow> lookup"
  nm_group :: "nat \<Rightarrow> lookup"

definition OUTPUT_SIZE :: nat where "OUTPUT_SIZE = 4096"

definition name_or_number :: "lookup \<Rightarrow> nat \<Rightarrow> string option" where
  "name_or_number l n =
     (case l of Lookup_error \<Rightarrow> None | No_name \<Rightarrow> Some (fmt_dec (int n)) | Named s \<Rightarrow> Some s)"

text \<open>The character after a \<open>%\<close>; \<open>None\<close> when looking up a name failed.  \<open>orig_root.len\<close> counts the slash behind it.\<close>

definition directive :: "names \<Rightarrow> find_work \<Rightarrow> char \<Rightarrow> string option" where
  "directive db w d =
     (let st = fw_stat w; name = fw_name w; offset = length name - fw_basename_len w
      in if d = CHR ''%'' then Some [CHR ''%'']
         else if d = CHR ''a'' then Some (fmt_dec (fst_atime st))
         else if d = CHR ''b'' then Some (fmt_dec (fst_blocks st))
         else if d = CHR ''c'' then Some (fmt_dec (fst_ctime st))
         else if d = CHR ''d'' then Some (fmt_dec (int (fw_level w)))
         else if d = CHR ''D'' then Some (fmt_dec (fst_dev st))
         else if d = CHR ''f'' then Some (drop offset name)
         else if d = CHR ''g'' then name_or_number (nm_group db (fst_gid st)) (fst_gid st)
         else if d = CHR ''G'' then Some (fmt_dec (int (fst_gid st)))
         else if d = CHR ''h'' then Some (take offset name)
         else if d = CHR ''H'' then Some (fw_orig_root w)
         else if d = CHR ''i'' then Some (fmt_dec (int (fst_ino st)))
         else if d = CHR ''l'' then Some (fw_linkname w)
         else if d = CHR ''m'' then Some (fmt_03o (unat (fst_mode st AND 0x1FF)))
         else if d = CHR ''M'' then modetostr 11 (fst_mode st)
         else if d = CHR ''n'' then Some (fmt_dec (int (fst_nlink st)))
         else if d = CHR ''p'' then Some name
         else if d = CHR ''P'' then Some (drop (length (fw_orig_root w) + 1) name)
         else if d = CHR ''t'' then Some (fmt_dec (fst_mtime st))
         else if d = CHR ''u'' then name_or_number (nm_user db (fst_uid st)) (fst_uid st)
         else if d = CHR ''U'' then Some (fmt_dec (int (fst_uid st)))
         else if d = CHR ''y'' then Some [fw_type w]
         else Some [CHR ''%'', d])"

text \<open>The character after a backslash, where it is an escape.\<close>

definition simple_escape :: "char \<Rightarrow> char option" where
  "simple_escape e =
     map_of [(CHR ''a'', CHR 0x07), (CHR ''b'', CHR 0x08), (CHR ''f'', CHR 0x0C), (CHR ''n'', CHR 0x0A),
             (CHR ''r'', CHR 0x0D), (CHR ''t'', CHR 0x09), (CHR ''v'', CHR 0x0B), (CHR ''0'', NUL), (CHR 0x5C, CHR 0x5C)] e"

datatype format_result = Out_of_bounds | Past_format | Lookup_failed | Formatted string

text \<open>The end of the loop: a NUL is written, and \<open>print_parallel\<close> prints up to the first one.\<close>

definition finish_output :: "place \<Rightarrow> format_result" where
  "finish_output p = (case put [NUL] p of None \<Rightarrow> Out_of_bounds | Some (b, _) \<Rightarrow> Formatted (cstr b))"

fun format_loop :: "names \<Rightarrow> find_work \<Rightarrow> string \<Rightarrow> place \<Rightarrow> format_result" where
  "format_loop db w [] p = finish_output p"
| "format_loop db w (ch # fs) p =
     (if \<not> snd p < OUTPUT_SIZE - 1 then finish_output p
      else if ch = CHR 0x5C then
        (case fs of
           [] \<Rightarrow> Past_format
         | e # fs' \<Rightarrow>
             if e = CHR ''c'' then (case put [NUL] p of None \<Rightarrow> Out_of_bounds | Some p1 \<Rightarrow> finish_output p1)
             else case put (case simple_escape e of Some b \<Rightarrow> [b] | None \<Rightarrow> [CHR 0x5C, e]) p of
                    None \<Rightarrow> Out_of_bounds
                  | Some p1 \<Rightarrow> format_loop db w fs' p1)
      else if ch = CHR ''%'' then
        (case fs of
           [] \<Rightarrow> finish_output p
         | d # fs' \<Rightarrow>
             (case directive db w d of
                None \<Rightarrow> Lookup_failed
              | Some t \<Rightarrow>
                  (case put_fmt (length t) t p of None \<Rightarrow> Out_of_bounds | Some p1 \<Rightarrow> format_loop db w fs' p1)))
      else case put [ch] p of None \<Rightarrow> Out_of_bounds | Some p1 \<Rightarrow> format_loop db w fs p1)"

text \<open>\<open>junk\<close> is what the stack held.\<close>

definition format_output :: "string \<Rightarrow> names \<Rightarrow> find_work \<Rightarrow> string \<Rightarrow> format_result" where
  "format_output junk db w format = format_loop db w format (take OUTPUT_SIZE (junk @ replicate OUTPUT_SIZE NUL), 0)"

section \<open>Entries of a walk\<close>

record find_input =
  fd_min_level :: nat
  fd_types :: nat \<comment> \<open>0, or a sum of 1 for directories, 2 for files, 4 for links\<close>
  fd_format :: string

definition DEFAULT_FORMAT :: string where "DEFAULT_FORMAT = ''%p'' @ [LF]"

definition S_ISREG :: "32 word \<Rightarrow> bool" where "S_ISREG m \<longleftrightarrow> m AND 0xF000 = 0x8000"

definition type_wanted :: "nat \<Rightarrow> 32 word \<Rightarrow> bool" where
  "type_wanted types m \<longleftrightarrow> types = 0 \<or> odd types \<and> S_ISDIR m \<or> odd (types div 2) \<and> S_ISREG m \<or> odd (types div 4) \<and> S_ISLNK m"

text \<open>What is printed for an entry, if anything: \<open>lstat_of\<close> is \<open>lstat_wrapper\<close>.\<close>

definition process_output ::
    "find_input \<Rightarrow> (string \<Rightarrow> fstat option) \<Rightarrow> string \<Rightarrow> names \<Rightarrow> find_work \<Rightarrow> format_result option" where
  "process_output inp lstat_of junk db w =
     (if fw_level w < fd_min_level inp then None
      else case lstat_of (fw_name w) of
        None \<Rightarrow> None
      | Some st \<Rightarrow>
          if type_wanted (fd_types inp) (fst_mode st)
          then Some (format_output junk db (w\<lparr>fw_stat := st\<rparr>) (fd_format inp)) else None)"

text \<open>The entries a walk handles, with the root they are below; the type is what \<open>descend\<close> or \<open>processdir\<close> put there.\<close>

definition basename_length :: "string \<Rightarrow> nat" where
  "basename_length name = length (takeWhile (\<lambda>c. c \<noteq> SLASH) (rev name))"

definition zero_stat :: fstat where
  "zero_stat = \<lparr>fst_mode = 0, fst_nlink = 0, fst_uid = 0, fst_gid = 0, fst_size = 0, fst_blocks = 0, fst_dev = 0, fst_ino = 0,
     fst_atime = 0, fst_mtime = 0, fst_ctime = 0\<rparr>"

fun work_of :: "string \<Rightarrow> handled \<Rightarrow> find_work" where
  "work_of root (Dir name level pinode) =
     \<lparr>fw_name = name, fw_basename_len = (if name = root then length root else basename_length name), fw_level = level,
      fw_stat = zero_stat, fw_orig_root = root, fw_type = CHR ''d'', fw_linkname = []\<rparr>"
| "work_of root (Entry name level pinode type linkname) =
     \<lparr>fw_name = name, fw_basename_len = basename_length name, fw_level = level,
      fw_stat = zero_stat, fw_orig_root = root, fw_type = type, fw_linkname = linkname\<rparr>"

text \<open>What \<open>processdir\<close>, \<open>processfile\<close> and \<open>process_output\<close> print for what a walk handles.\<close>

definition find_rows ::
    "find_input \<Rightarrow> (string \<Rightarrow> fstat option) \<Rightarrow> string \<Rightarrow> names \<Rightarrow> string \<Rightarrow> handled list \<Rightarrow> format_result list" where
  "find_rows inp lstat_of junk db root hs =
     concat (map (\<lambda>h. case process_output inp lstat_of junk db (work_of root h) of None \<Rightarrow> [] | Some r \<Rightarrow> [r]) hs)"

section \<open>What a format says\<close>

text \<open>The text of a format without a buffer.\<close>

fun expand :: "names \<Rightarrow> find_work \<Rightarrow> string \<Rightarrow> string option" where
  "expand db w [] = Some []"
| "expand db w (ch # fs) =
     (if ch = CHR 0x5C then
        (case fs of
           [] \<Rightarrow> None
         | e # fs' \<Rightarrow>
             if e = CHR ''c'' then Some [NUL]
             else map_option (\<lambda>t. (case simple_escape e of Some b \<Rightarrow> [b] | None \<Rightarrow> [CHR 0x5C, e]) @ t) (expand db w fs'))
      else if ch = CHR ''%'' then
        (case fs of
           [] \<Rightarrow> Some []
         | d # fs' \<Rightarrow>
             Option.bind (directive db w d) (\<lambda>t. map_option (\<lambda>u. t @ u) (expand db w fs')))
      else map_option (\<lambda>t. ch # t) (expand db w fs))"

lemma cstr_append_NUL: "cstr (s @ NUL # r) = cstr s"
  by (induction s) (simp_all add: cstr_def)

lemma finish_at_end:
  assumes "at_end s OUTPUT_SIZE p" "length s < OUTPUT_SIZE"
  shows "finish_output p = Formatted (cstr s)"
proof -
  obtain b n where b: "put [NUL] p = Some (b, n)" "at_end (s @ [NUL]) OUTPUT_SIZE (b, n)"
    using put_end [OF assms(1), of "[NUL]"] assms(2) by auto
  have "b = (s @ [NUL]) @ drop (length s + 1) b"
    using b(2) append_take_drop_id [of "length s + 1" b] by (simp add: at_end_def)
  then have "cstr b = cstr ((s @ [NUL]) @ drop (length s + 1) b)" by simp
  also have "\<dots> = cstr s" by (simp add: cstr_append_NUL)
  finally have "cstr b = cstr s" .
  then show ?thesis by (simp add: finish_output_def b)
qed

lemma format_loop_expand:
  "expand db w f = Some t \<Longrightarrow> at_end s OUTPUT_SIZE p \<Longrightarrow> length s + length t < OUTPUT_SIZE \<Longrightarrow>
   format_loop db w f p = Formatted (cstr (s @ t))"
proof (induction db w f arbitrary: s t p rule: expand.induct)
  case (1 db w)
  then show ?case by (simp add: finish_at_end)
next
  case (2 db w ch fs)
  show ?case
  proof (cases "snd p < OUTPUT_SIZE - 1")
    case False
    then have "t = []" using 2(5,6) by (cases t) (auto simp: at_end_def OUTPUT_SIZE_def)
    then show ?thesis using False 2(6) finish_at_end [OF 2(5)] by simp
  next
    case True
    have piece: "format_loop db w g p' = Formatted (cstr (s @ u @ v))"
      if "expand db w g = Some v" "at_end (s @ u) OUTPUT_SIZE p'" "t = u @ v"
        "\<And>s t p. expand db w g = Some t \<Longrightarrow> at_end s OUTPUT_SIZE p \<Longrightarrow> length s + length t < OUTPUT_SIZE \<Longrightarrow>
           format_loop db w g p = Formatted (cstr (s @ t))" for g u v p'
      using that(4) [OF that(1,2)] that(3) 2(6) by simp
    consider (escape) "ch = CHR 0x5C" | (dir) "ch = CHR ''%''" | (plain) "ch \<noteq> CHR 0x5C" "ch \<noteq> CHR ''%''" by blast
    then show ?thesis
    proof cases
      case escape
      then obtain e fs' where fs: "fs = e # fs'" using 2(4) by (cases fs) auto
      show ?thesis
      proof (cases "e = CHR ''c''")
        case c: True
        then have t: "t = [NUL]" using 2(4) escape fs by simp
        obtain p1 where p1: "put [NUL] p = Some p1" "at_end (s @ [NUL]) OUTPUT_SIZE p1"
          using put_end [OF 2(5), of "[NUL]"] 2(6) t by auto
        then show ?thesis using True escape fs c t 2(6) finish_at_end [OF p1(2)] by simp
      next
        case c: False
        define u where "u = (case simple_escape e of Some b \<Rightarrow> [b] | None \<Rightarrow> [CHR 0x5C, e])"
        obtain v where v: "expand db w fs' = Some v" "t = u @ v"
          using 2(4) escape fs c by (auto simp: u_def)
        obtain p1 where p1: "put u p = Some p1" "at_end (s @ u) OUTPUT_SIZE p1"
          using put_end [OF 2(5), of u] 2(6) v(2) by auto
        show ?thesis
          using True escape fs c p1(1) piece [OF v(1) p1(2) v(2) 2(1)] v(2) by (simp add: u_def)
      qed
    next
      case dir
      show ?thesis
      proof (cases fs)
        case Nil
        then show ?thesis using True dir 2(4-6) finish_at_end [OF 2(5)] by auto
      next
        case (Cons d fs')
        then obtain u v where v: "directive db w d = Some u" "expand db w fs' = Some v" "t = u @ v"
          using 2(4) dir by (auto simp: Option.bind_eq_Some_conv)
        obtain p1 where p1: "put_fmt (length u) u p = Some p1" "at_end (s @ u) OUTPUT_SIZE p1"
          using put_fmt_end [OF 2(5), of u] 2(6) v(3) by auto
        show ?thesis
          using True dir Cons v(1,3) p1(1) piece [OF v(2) p1(2) v(3) 2(2)] by simp
      qed
    next
      case plain
      then obtain v where v: "expand db w fs = Some v" "t = [ch] @ v" using 2(4) by auto
      obtain p1 where p1: "put [ch] p = Some p1" "at_end (s @ [ch]) OUTPUT_SIZE p1"
        using put_end [OF 2(5), of "[ch]"] 2(6) v(2) by auto
      show ?thesis
        using True plain p1(1) piece [OF v(1) p1(2) v(2) 2(3)] v(2) by simp
    qed
  qed
qed

lemma format_output_expand:
  assumes "expand db w f = Some t" "length t < OUTPUT_SIZE"
  shows "format_output junk db w f = Formatted (cstr t)"
  using format_loop_expand [OF assms(1), of "[]"] assms(2) by (simp add: format_output_def at_end_def)

text \<open>A format whose text is shorter than the buffer is printed as that text: all escapes and directives, \<open>\c\<close> ends it,
  and a NUL in it cuts it off.\<close>

theorem format_output_prints_text:
  assumes "expand db w f = Some t" "length t < OUTPUT_SIZE"
  shows "format_output junk db w f = Formatted (cstr t)"
  using assms by (rule format_output_expand)

definition some_work :: find_work where
  "some_work = \<lparr>fw_name = ''r/a'', fw_basename_len = 1, fw_level = 1, fw_stat = zero_stat\<lparr>fst_mode := 0x81ED, fst_uid := 7\<rparr>,
     fw_orig_root = ''r'', fw_type = CHR ''f'', fw_linkname = []\<rparr>"

definition no_names :: names where
  "no_names = \<lparr>nm_user = (\<lambda>n. if n = 7 then Named ''me'' else No_name), nm_group = (\<lambda>_. No_name)\<rparr>"

lemma some_work_fields [simp]:
  "fw_name some_work = ''r/a''" "fw_basename_len some_work = 1" "fw_level some_work = 1" "fw_orig_root some_work = ''r''"
  "fw_type some_work = CHR ''f''" "fst_uid (fw_stat some_work) = 7" "fst_gid (fw_stat some_work) = 0"
  "fst_mode (fw_stat some_work) = 0x81ED"
  by (simp_all add: some_work_def zero_stat_def)

lemma format_output_prints_text_witness:
  "format_output ''x'' no_names some_work (''%y %f %P %d %u %g'' @ [CHR 0x5C, CHR ''n'']) = Formatted (''f a a 1 me 0'' @ [LF])"
proof -
  have d: "fmt_dec 1 = ''1''" "fmt_dec 0 = ''0''"
    by code_simp+
  have "expand no_names some_work (''%y %f %P %d %u %g'' @ [CHR 0x5C, CHR ''n'']) = Some (''f a a 1 me 0'' @ [LF])"
    by (simp add: directive_def Let_def name_or_number_def no_names_def simple_escape_def d)
  from format_output_prints_text [OF this, of "''x''"] show ?thesis
    by (simp add: OUTPUT_SIZE_def cstr_def)
qed

text \<open>The usual format to end names with a NUL prints none.\<close>

lemma nul_is_not_printed:
  assumes "length (fw_name w) < OUTPUT_SIZE - 1" "NUL \<notin> set (fw_name w)"
  shows "format_output junk db w (''%p'' @ [CHR 0x5C, CHR ''0'']) = Formatted (fw_name w)"
proof -
  have "expand db w (''%p'' @ [CHR 0x5C, CHR ''0'']) = Some (fw_name w @ NUL # [])"
    by (simp add: directive_def Let_def simple_escape_def)
  from format_output_expand [OF this, of junk] show ?thesis
    using assms by (simp add: cstr_append_NUL cstr_id OUTPUT_SIZE_def)
qed

text \<open>A backslash at the end of a format: the loop goes on behind its NUL.\<close>

lemma format_loop_backslash:
  assumes "at_end s OUTPUT_SIZE p" "length s < OUTPUT_SIZE - 1"
  shows "format_loop db w [CHR 0x5C] p = Past_format"
  using assms by (auto simp: at_end_def)

text \<open>C39: Two directives whose texts do not fit together are written, the second cut off, and the end of the text is then
  taken behind the end of the buffer, where a NUL is written.\<close>

theorem long_texts_overflow:
  assumes "directive db w d1 = Some t1" "directive db w d2 = Some t2"
    and "length t1 < OUTPUT_SIZE - 1" "OUTPUT_SIZE \<le> length t1 + length t2"
  shows "format_output junk db w (CHR ''%'' # d1 # CHR ''%'' # d2 # rest) = Out_of_bounds"
proof -
  let ?b = "take OUTPUT_SIZE (junk @ replicate OUTPUT_SIZE NUL)"
  have "at_end [] OUTPUT_SIZE (?b, 0)" "length ([] :: string) + length t1 < OUTPUT_SIZE"
    using assms(3) by (simp_all add: at_end_def)
  from put_fmt_end [OF this(1) refl this(2)]
  obtain b n where p1: "put_fmt (length t1) t1 (?b, 0) = Some (b, n)" "at_end t1 OUTPUT_SIZE (b, n)" by force
  then have b: "length b = OUTPUT_SIZE" "n = length t1" by (auto simp: at_end_def)
  define b2 where "b2 = take n b @ (take (OUTPUT_SIZE - n - 1) t2 @ [NUL])"
  have "put_fmt (length t2) t2 (b, n) = Some (b2, n + length t2)"
    using b assms(3,4) by (simp add: put_fmt_def Let_def store_def b2_def)
  moreover have "length b2 = OUTPUT_SIZE"
    using b assms(3,4) by (simp add: b2_def)
  then have "finish_output (b2, n + length t2) = Out_of_bounds"
    using b(2) assms(4) by (simp add: finish_output_def put_def store_def)
  moreover have "format_loop db w rest (b2, n + length t2) = finish_output (b2, n + length t2)"
    using b(2) assms(4) by (cases rest) auto
  ultimately show ?thesis
    using p1(1) b(2) assms(1-3) by (simp add: format_output_def OUTPUT_SIZE_def)
qed

lemma long_texts_overflow_witness:
  "format_output [] no_names (some_work\<lparr>fw_name := replicate 2048 CHR ''a''\<rparr>) (''%p%p'' @ [LF]) = Out_of_bounds"
proof -
  let ?w = "some_work\<lparr>fw_name := replicate 2048 CHR ''a''\<rparr>"
  have "directive no_names ?w CHR ''p'' = Some (replicate 2048 CHR ''a'')"
    by (simp add: directive_def Let_def)
  from long_texts_overflow [OF this this, of "[]" "[LF]"] show ?thesis
    by (simp add: OUTPUT_SIZE_def)
qed

section \<open>What is printed for a tree\<close>

fun handled_name :: "handled \<Rightarrow> string" where
  "handled_name (Dir name level pinode) = name"
| "handled_name (Entry name level pinode type linkname) = name"

fun handled_level :: "handled \<Rightarrow> nat" where
  "handled_level (Dir name level pinode) = level"
| "handled_level (Entry name level pinode type linkname) = level"

definition wanted :: "find_input \<Rightarrow> (string \<Rightarrow> fstat option) \<Rightarrow> handled \<Rightarrow> bool" where
  "wanted inp lstat_of h \<longleftrightarrow> fd_min_level inp \<le> handled_level h
     \<and> (case lstat_of (handled_name h) of None \<Rightarrow> False | Some st \<Rightarrow> type_wanted (fd_types inp) (fst_mode st))"

lemma work_of_fields [simp]: "fw_name (work_of root h) = handled_name h" "fw_level (work_of root h) = handled_level h"
  by (cases h; simp)+

lemma default_format_expand: "expand db w DEFAULT_FORMAT = Some (fw_name w @ [LF])"
  by (simp add: DEFAULT_FORMAT_def directive_def Let_def)

lemma process_output_default:
  assumes "fd_format inp = DEFAULT_FORMAT" "length (handled_name h) < OUTPUT_SIZE - 1" "NUL \<notin> set (handled_name h)"
  shows "process_output inp lstat_of junk db (work_of root h) =
    (if wanted inp lstat_of h then Some (Formatted (handled_name h @ [LF])) else None)"
proof -
  have "format_output junk db w DEFAULT_FORMAT = Formatted (handled_name h @ [LF])"
    if "fw_name w = handled_name h" for w
    using format_output_expand [OF default_format_expand, of w junk db] assms(2,3) that
    by (simp add: OUTPUT_SIZE_def cstr_id)
  then show ?thesis
    by (simp add: process_output_def wanted_def assms(1) split: option.split)
qed

lemma find_rows_default:
  assumes "fd_format inp = DEFAULT_FORMAT"
    and "\<And>h. h \<in> set hs \<Longrightarrow> length (handled_name h) < OUTPUT_SIZE - 1 \<and> NUL \<notin> set (handled_name h)"
  shows "find_rows inp lstat_of junk db root hs =
    map (\<lambda>h. Formatted (handled_name h @ [LF])) (filter (wanted inp lstat_of) hs)"
  using assms(2)
proof (induction hs)
  case (Cons h hs)
  then show ?case
    using process_output_default [OF assms(1), of h] by (simp add: find_rows_def)
qed (simp add: find_rows_def)

text \<open>C12: With its default format \<open>parallel_find\<close> prints, with any number of threads and whatever they do first, the path of each
  directory and each file below its root that has the levels and types asked for, once, each on a line of its own, as
  long as no path fills the buffer.\<close>

theorem find_prints_tree:
  assumes "links_ok env" "fd_format inp = DEFAULT_FORMAT"
    and "(descent_step env (di\<lparr>di_subdir_limit := n\<rparr>))\<^sup>*\<^sup>* \<lparr>ds_queue = {#root#}, ds_handled = []\<rparr> s" "ds_queue s = {#}"
    and "\<And>h. h \<in># everything env di root \<Longrightarrow> length (handled_name h) < OUTPUT_SIZE - 1 \<and> NUL \<notin> set (handled_name h)"
  shows "mset (find_rows inp lstat_of junk db (dw_name root) (ds_handled s)) =
    image_mset (\<lambda>h. Formatted (handled_name h @ [LF])) (filter_mset (wanted inp lstat_of) (everything env di root))"
proof -
  have e: "everything env (di\<lparr>di_subdir_limit := n\<rparr>) = everything env di" by (simp add: fun_eq_iff)
  have h: "mset (ds_handled s) = everything env di root"
    using walk_value [OF assms(3)] assms(4) by (simp add: e)
  then have "length (handled_name h) < OUTPUT_SIZE - 1 \<and> NUL \<notin> set (handled_name h)" if "h \<in> set (ds_handled s)" for h
    using assms(5) that by (metis set_mset_mset)
  from find_rows_default [OF assms(2) this, where db = db and lstat_of = lstat_of and junk = junk]
  show ?thesis by (simp add: h [symmetric] mset_filter)
qed

definition tiny_find :: find_input where
  "tiny_find = \<lparr>fd_min_level = 1, fd_types = 1, fd_format = DEFAULT_FORMAT\<rparr>"

definition tiny_lstat :: "string \<Rightarrow> fstat option" where
  "tiny_lstat name = Some (zero_stat\<lparr>fst_mode := if name = ''r/l'' then 0xA1FF else 0x41ED\<rparr>)"

lemma tiny_everything:
  "everything tiny_fs (tiny_descend 0) tiny_work =
     {#Dir ''r'' 0 0, Dir ''r/b'' 1 9, Entry ''r/l'' 1 9 CHR ''l'' ''t'', Dir ''r/a'' 1 9#}"
  using walk_value [OF tiny_run] by (simp add: ac_simps)

lemma find_prints_tree_witness:
  "mset (find_rows tiny_find tiny_lstat [] no_names ''r''
       [Dir ''r'' 0 0, Dir ''r/b'' 1 9, Entry ''r/l'' 1 9 CHR ''l'' ''t'', Dir ''r/a'' 1 9]) =
     {#Formatted (''r/a'' @ [LF]), Formatted (''r/b'' @ [LF])#}"
proof -
  have n: "dw_name tiny_work = ''r''" "fd_format tiny_find = DEFAULT_FORMAT"
    by (simp_all add: tiny_work_def tiny_find_def)
  have l: "length (handled_name h) < OUTPUT_SIZE - 1 \<and> NUL \<notin> set (handled_name h)"
    if "h \<in># everything tiny_fs (tiny_descend 0) tiny_work" for h
    using that by (auto simp: tiny_everything OUTPUT_SIZE_def)
  have w: "wanted tiny_find tiny_lstat (Dir ''r/b'' 1 9)" "wanted tiny_find tiny_lstat (Dir ''r/a'' 1 9)"
    "\<not> wanted tiny_find tiny_lstat (Dir ''r'' 0 0)" "\<not> wanted tiny_find tiny_lstat (Entry ''r/l'' 1 9 CHR ''l'' ''t'')"
    by (simp_all add: wanted_def tiny_find_def tiny_lstat_def type_wanted_def zero_stat_def S_ISDIR_def S_ISREG_def S_ISLNK_def)
  from find_prints_tree [OF tiny_links_ok n(2) tiny_run _ l, of tiny_lstat "[]" no_names]
  show ?thesis by (simp add: tiny_everything n w [unfolded One_nat_def])
qed

end
