(* ===== verification/Aggregate.thy ===== *)
theory Aggregate
  imports QueryProps OutputProps
begin

text \<open>
  The results of a query over a whole index: what the threads ran depends neither on how many there are nor on which takes
  which directory; and how the databases of the threads become one result, \<open>src/src/gufi_query/aggregate.c\<close>.
\<close>

section \<open>What is run in a directory depends on the directory only\<close>

text \<open>Two threads with the same databases attached that have run the same since \<open>b\<close> and \<open>b'\<close>.\<close>

definition alike :: "event list \<Rightarrow> event list \<Rightarrow> thread \<Rightarrow> thread \<Rightarrow> bool" where
  "alike b b' s s' \<longleftrightarrow> cn_names (th_conn s) = cn_names (th_conn s') \<and> (\<exists>ev. th_log s = b @ ev \<and> th_log s' = b' @ ev)"

lemma alike_names: "alike b b' s s' \<Longrightarrow> cn_names (th_conn s) = cn_names (th_conn s')"
  by (simp add: alike_def)

lemma alike_note [intro]: "alike b b' s s' \<Longrightarrow> alike b b' (note_event e s) (note_event e s')"
  by (auto simp: alike_def note_event_def)

lemma alike_strs [intro]: "alike b b' s s' \<Longrightarrow> alike b b' (s\<lparr>th_user_strs := t\<rparr>) (s'\<lparr>th_user_strs := t'\<rparr>)"
  by (simp add: alike_def)

lemma alike_conn: "alike b b' s s' \<Longrightarrow> cn_names c = cn_names c' \<Longrightarrow> alike b b' (s\<lparr>th_conn := c\<rparr>) (s'\<lparr>th_conn := c'\<rparr>)"
  by (simp add: alike_def)

lemma alike_with_conn: "alike b b' s s' \<Longrightarrow> cn_names c = cn_names c' \<Longrightarrow> alike b b' (with_conn c s) (with_conn c' s')"
  by (simp add: alike_def with_conn_def)

text \<open>Attaching looks at the names only.\<close>

lemma attachdb_alike:
  assumes "cn_names c = cn_names c'"
  shows "fst (attachdb env n d c) = fst (attachdb env n d c') \<and>
    cn_names (snd (attachdb env n d c)) = cn_names (snd (attachdb env n d c'))"
  using assms by (simp add: attachdb_def)

lemma detachdb_alike: "cn_names c = cn_names c' \<Longrightarrow> cn_names (detachdb d c) = cn_names (detachdb d c')"
  by (simp add: detachdb_def)

lemma drop_view_names [simp]: "cn_names (drop_view v c) = cn_names c"
  by (simp add: drop_view_def)

lemma concatenate_loop_alike:
  "cn_names c = cn_names c' \<Longrightarrow>
   cn_names (fst (snd (concatenate_loop env m rows c n))) = cn_names (fst (snd (concatenate_loop env m rows c' n)))
   \<and> snd (snd (concatenate_loop env m rows c n)) = snd (snd (concatenate_loop env m rows c' n))"
proof (induction rows arbitrary: c c' n)
  case (Cons r rows)
  show ?case
    using Cons.IH [OF attachdb_alike [OF Cons.prems, THEN conjunct2]]
    by (simp add: Let_def split_beta)
qed simp

lemma external_concatenate_alike:
  assumes "cn_names c = cn_names c'"
  shows "cn_names (fst (snd (external_concatenate env dbs t x v m c n))) = cn_names (fst (snd (external_concatenate env dbs t x v m c' n)))
    \<and> snd (snd (external_concatenate env dbs t x v m c n)) = snd (snd (external_concatenate env dbs t x v m c' n))"
  using assms concatenate_loop_alike [OF assms, of env m _ n]
  by (simp add: external_concatenate_def Let_def split_beta split: option.split)

lemma attach_extdbs_alike:
  "cn_names c = cn_names c' \<Longrightarrow>
   cn_names (fst (attach_extdbs env dbs i us c n)) = cn_names (fst (attach_extdbs env dbs i us c' n))
   \<and> snd (attach_extdbs env dbs i us c n) = snd (attach_extdbs env dbs i us c' n)"
proof (induction us arbitrary: c c' n)
  case (Cons u us)
  let ?e = "\<lambda>c. external_concatenate env dbs (Some ''user_db'') (Some (basename_comp i u)) (ea_view u) id c n"
  note e = external_concatenate_alike [OF Cons.prems, of env dbs "Some ''user_db''" "Some (basename_comp i u)" "ea_view u" id n]
  obtain r c1 n1 where c1: "?e c = (r, c1, n1)" by (rule prod_cases3)
  obtain r' c1' where c1': "?e c' = (r', c1', n1)" "cn_names c1 = cn_names c1'"
    using e c1 by (cases "?e c'") auto
  show ?case
    unfolding attach_extdbs.simps c1 c1'(1) Let_def prod.case by (rule Cons.IH [OF c1'(2)])
qed simp

lemma detach_loop_alike:
  "cn_names c = cn_names c' \<Longrightarrow>
   cn_names (fst (detach_loop rows c n)) = cn_names (fst (detach_loop rows c' n))
   \<and> snd (detach_loop rows c n) = snd (detach_loop rows c' n)"
proof (induction rows arbitrary: c c' n)
  case (Cons r rows)
  show ?case
    unfolding detach_loop.simps Let_def split_beta by (rule Cons.IH [OF detachdb_alike [OF Cons.prems]])
qed simp

lemma cleanup_alike:
  assumes "cn_names c = cn_names c'"
  shows "cn_names (fst (external_concatenate_cleanup dbs v t x c n)) = cn_names (fst (external_concatenate_cleanup dbs v t x c' n))
    \<and> snd (external_concatenate_cleanup dbs v t x c n) = snd (external_concatenate_cleanup dbs v t x c' n)"
proof -
  let ?c = "\<lambda>c. case v of None \<Rightarrow> c | Some v \<Rightarrow> drop_view v c"
  have n: "cn_names (?c c) = cn_names (?c c')" using assms by (cases v) simp_all
  show ?thesis
  proof (cases "if t = None then None else external_create_query t x dbs")
    case None
    then show ?thesis using n by (simp add: external_concatenate_cleanup_def)
  next
    case (Some rows)
    then show ?thesis using detach_loop_alike [OF n] by (simp add: external_concatenate_cleanup_def)
  qed
qed

lemma detach_extdbs_alike:
  "cn_names c = cn_names c' \<Longrightarrow>
   cn_names (fst (detach_extdbs dbs i us c n)) = cn_names (fst (detach_extdbs dbs i us c' n))
   \<and> snd (detach_extdbs dbs i us c n) = snd (detach_extdbs dbs i us c' n)"
proof (induction us arbitrary: c c' n)
  case (Cons u us)
  let ?e = "\<lambda>c. if i \<noteq> [] then external_concatenate_cleanup dbs (Some (ea_view u)) (Some ''user_db'')
           (Some (basename_comp i u)) c n else (drop_view (ea_view u) c, n)"
  have e: "cn_names (fst (?e c)) = cn_names (fst (?e c')) \<and> snd (?e c) = snd (?e c')"
  proof (cases "i \<noteq> []")
    case True
    show ?thesis unfolding if_P [OF True] by (rule cleanup_alike [OF Cons.prems])
  next
    case False
    show ?thesis unfolding if_not_P [OF False] using Cons.prems by (simp only: fst_conv snd_conv drop_view_names simp_thms)
  qed
  obtain c1 n1 where 1: "?e c = (c1, n1)" by (rule prod.exhaust)
  obtain c1' n1' where 2: "?e c' = (c1', n1')" by (rule prod.exhaust)
  have n: "cn_names c1 = cn_names c1'" "n1 = n1'" using e unfolding 1 2 by simp_all
  show ?case
    unfolding detach_extdbs.simps Let_def 1 2 prod.case n(2) by (rule Cons.IH [OF n(1)])
qed simp

text \<open>The operations of a directory, when no statement has a key.\<close>

definition plain_input :: "gq_input \<Rightarrow> bool" where
  "plain_input inp \<longleftrightarrow> save_replacements (gi_tsum inp) = [] \<and> save_replacements (gi_sum inp) = []
     \<and> save_replacements (gi_ent inp) = []"

lemma replaced_plain: "save_replacements sql = [] \<Longrightarrow> replaced_sql mem sql s = Inr sql"
  by (simp add: replaced_sql_def replace_sql_def)

lemma querydb_alike:
  "alike b b' s s' \<Longrightarrow> fst (querydb env p i w st sql s) = fst (querydb env p i w st sql s')
     \<and> alike b b' (snd (querydb env p i w st sql s)) (snd (querydb env p i w st sql s'))"
  by (auto simp: querydb_def split: prod.split)

lemma maybe_copy_alike: "alike b b' s s' \<Longrightarrow> alike b b' (maybe_copy_external env db ecs p n s) (maybe_copy_external env db ecs p n s')"
proof (induction ecs arbitrary: s s')
  case (Cons e ecs)
  obtain match sql where e: "e = (match, sql)" by fastforce
  let ?a = "\<lambda>s. attachdb (ge_sqlite env) (fst (sqlite_uri_path (length p * 3 + 1) p)) ''extdb'' (th_conn s)"
  note a = attachdb_alike [OF alike_names [OF Cons.prems], of "ge_sqlite env" "fst (sqlite_uri_path (length p * 3 + 1) p)" "''extdb''"]
  have n: "alike b b' (note_event (Copied p sql) (s\<lparr>th_conn := detachdb ''extdb'' (snd (?a s))\<rparr>))
      (note_event (Copied p sql) (s'\<lparr>th_conn := detachdb ''extdb'' (snd (?a s'))\<rparr>))"
    using Cons.prems a detachdb_alike by (intro alike_note alike_conn) blast+
  have "alike b b'
      (if match n \<and> db then if fst (?a s) then note_event (Copied p sql) (s\<lparr>th_conn := detachdb ''extdb'' (snd (?a s))\<rparr>) else s else s)
      (if match n \<and> db then if fst (?a s') then note_event (Copied p sql) (s'\<lparr>th_conn := detachdb ''extdb'' (snd (?a s'))\<rparr>) else s' else s')"
    using n a Cons.prems by simp
  from Cons.IH [OF this] show ?case
    by (simp only: e maybe_copy_external.simps Let_def split_beta)
qed simp

lemma gq_descend_loop_alike:
  "alike b b' s s' \<Longrightarrow> fst (gq_descend_loop inp env db gqw l es s) = fst (gq_descend_loop inp env db gqw l es s')
     \<and> alike b b' (snd (gq_descend_loop inp env db gqw l es s)) (snd (gq_descend_loop inp env db gqw l es s'))"
proof (induction es arbitrary: s s')
  case (Cons e es)
  obtain n t where e: "e = (n, t)" by fastforce
  show ?case
  proof (cases "new_gqw_with_name env gqw n t l")
    case None
    then show ?thesis using Cons by (simp add: e)
  next
    case (Some r)
    obtain child kind where r: "r = (child, kind)" by fastforce
    let ?s = "\<lambda>s. if kind = S_REG \<or> kind = S_LNK then maybe_copy_external env db (gi_external_copy inp) (gw_name child) n s else s"
    have "alike b b' (?s s) (?s s')" using Cons.prems maybe_copy_alike by simp
    from Cons.IH [OF this] Cons.IH [OF Cons.prems] show ?thesis
      by (cases kind) (simp_all add: e Some r Let_def split_beta)
  qed
qed simp

lemma gq_descend_alike:
  "alike b b' s s' \<Longrightarrow> fst (gq_descend inp env db gqw s) = fst (gq_descend inp env db gqw s')
     \<and> alike b b' (snd (gq_descend inp env db gqw s)) (snd (gq_descend inp env db gqw s'))"
  using gq_descend_loop_alike by (simp add: gq_descend_def Let_def)

lemma summary_query_alike:
  assumes "plain_input inp" "alike b b' s s'"
  shows "fst (summary_query mem inp env p i w s) = fst (summary_query mem inp env p i w s')
     \<and> alike b b' (snd (summary_query mem inp env p i w s)) (snd (summary_query mem inp env p i w s'))"
  using assms querydb_alike [OF assms(2)]
  by (simp add: summary_query_def plain_input_def replaced_plain split_beta)

lemma entries_query_alike:
  assumes "plain_input inp" "alike b b' s s'"
  shows "alike b b' (entries_query mem inp env p i w s) (entries_query mem inp env p i w s')"
  using assms querydb_alike [OF assms(2)]
  by (simp add: entries_query_def plain_input_def replaced_plain)

lemma process_queries_alike:
  assumes p: "plain_input inp" and s: "alike b b' s s'"
  shows "fst (process_queries mem inp env gqw db i d w s) = fst (process_queries mem inp env gqw db i d w s')
    \<and> fst (snd (process_queries mem inp env gqw db i d w s)) = fst (snd (process_queries mem inp env gqw db i d w s'))
    \<and> alike b b' (snd (snd (process_queries mem inp env gqw db i d w s))) (snd (snd (process_queries mem inp env gqw db i d w s')))"
proof -
  let ?D = "d \<and> \<not> (db \<and> ge_isrolledup env (gw_name gqw))"
  let ?g = "\<lambda>s. if ?D then case gq_descend inp env db gqw s of (ch, s') \<Rightarrow> (ch, length ch, s') else ([], w, s)"
  have g: "fst (?g s) = fst (?g s') \<and> fst (snd (?g s)) = fst (snd (?g s')) \<and> alike b b' (snd (snd (?g s))) (snd (snd (?g s')))"
    using gq_descend_alike [OF s, of inp env db gqw] s by (cases ?D) (simp_all only: split_beta if_True if_False fst_conv snd_conv simp_thms)
  obtain ch k s1 where g1: "?g s = (ch, k, s1)" by (rule prod_cases3)
  obtain s1' where g2: "?g s' = (ch, k, s1')" using g g1 by (cases "?g s'") auto
  have a1: "alike b b' s1 s1'" using g g1 g2 by simp
  obtain r s2 where q1: "summary_query mem inp env (gw_name gqw) i k s1 = (r, s2)" by fastforce
  obtain s2' where q2: "summary_query mem inp env (gw_name gqw) i k s1' = (r, s2')"
    and a2: "alike b b' s2 s2'"
    using summary_query_alike [OF p a1, of mem env "gw_name gqw" i k] q1
    by (cases "summary_query mem inp env (gw_name gqw) i k s1'") auto
  show ?thesis
    unfolding process_queries_def g1 g2 Let_def prod.case q1 q2
    using a1 a2 entries_query_alike [OF p a2] by (cases r) auto
qed

lemma plugin_queries_alike:
  assumes "plain_input inp" "alike b b' s s'"
  shows "fst (plugin_queries mem inp env gqw i d w s) = fst (plugin_queries mem inp env gqw i d w s')
    \<and> fst (snd (plugin_queries mem inp env gqw i d w s)) = fst (snd (plugin_queries mem inp env gqw i d w s'))
    \<and> alike b b' (snd (snd (plugin_queries mem inp env gqw i d w s))) (snd (snd (plugin_queries mem inp env gqw i d w s')))"
  using process_queries_alike [OF assms(1) alike_note [OF assms(2)]]
  by (auto simp: plugin_queries_def split_beta)

lemma inode_loop_alike:
  assumes p: "plain_input inp"
  shows "alike b b' s s' \<Longrightarrow>
    fst (inode_loop mem inp env gqw is d w n s) = fst (inode_loop mem inp env gqw is d w n s')
    \<and> fst (snd (inode_loop mem inp env gqw is d w n s)) = fst (snd (inode_loop mem inp env gqw is d w n s'))
    \<and> alike b b' (snd (snd (inode_loop mem inp env gqw is d w n s))) (snd (snd (inode_loop mem inp env gqw is d w n s')))"
proof (induction "is" arbitrary: d w n s s')
  case (Cons i "is")
  let ?dbs = "ge_external_dbs env (gw_name gqw)" and ?us = "gi_external_attach inp" and ?e = "ge_sqlite env"
  obtain c1 n1 where c1: "attach_extdbs ?e ?dbs i ?us (th_conn s) n = (c1, n1)" by fastforce
  obtain c1' where c1': "attach_extdbs ?e ?dbs i ?us (th_conn s') n = (c1', n1)" "cn_names c1 = cn_names c1'"
    using attach_extdbs_alike [OF alike_names [OF Cons.prems], of ?e ?dbs i ?us n] c1
    by (cases "attach_extdbs ?e ?dbs i ?us (th_conn s') n") auto
  let ?c2 = "create_views ?e extdb_views c1" and ?c2' = "create_views ?e extdb_views c1'"
  have "alike b b' (with_conn ?c2 s) (with_conn ?c2' s')"
    using Cons.prems c1'(2) by (intro alike_with_conn) simp_all
  note q = plugin_queries_alike [OF p this, of mem env gqw "Some i" d w]
  obtain ch k s1 where q1: "plugin_queries mem inp env gqw (Some i) d w (with_conn ?c2 s) = (ch, k, s1)" by (rule prod_cases3)
  obtain s1' where q2: "plugin_queries mem inp env gqw (Some i) d w (with_conn ?c2' s') = (ch, k, s1')"
    and a1: "alike b b' s1 s1'"
    using q q1 by (cases "plugin_queries mem inp env gqw (Some i) d w (with_conn ?c2' s')") auto
  let ?c3 = "\<lambda>s1. drop_views (rev extdb_views) (th_conn s1)"
  have c3: "cn_names (?c3 s1) = cn_names (?c3 s1')" using alike_names [OF a1] by simp
  obtain c4 n2 where c4: "detach_extdbs ?dbs i ?us (?c3 s1) n1 = (c4, n2)" by fastforce
  obtain c4' where c4': "detach_extdbs ?dbs i ?us (?c3 s1') n1 = (c4', n2)" "cn_names c4 = cn_names c4'"
    using detach_extdbs_alike [OF c3, of ?dbs i ?us n1] c4 by (cases "detach_extdbs ?dbs i ?us (?c3 s1') n1") auto
  note ih = Cons.IH [OF alike_with_conn [OF a1 c4'(2)], of False k n2]
  show ?case
    using ih by (simp add: Let_def c1 c1'(1) q1 q2 c4 c4'(1) split_beta)
qed simp

lemma external_queries_alike:
  assumes p: "plain_input inp" and s: "alike b b' s s'"
  shows "fst (external_queries mem inp env gqw n s) = fst (external_queries mem inp env gqw n s')
    \<and> fst (snd (external_queries mem inp env gqw n s)) = fst (snd (external_queries mem inp env gqw n s'))
    \<and> alike b b' (snd (snd (external_queries mem inp env gqw n s))) (snd (snd (external_queries mem inp env gqw n s')))"
proof -
  let ?dbs = "ge_external_dbs env (gw_name gqw)" and ?us = "gi_external_attach inp" and ?e = "ge_sqlite env"
  consider (none) "?us = []" | (no_inodes) "?us \<noteq> []" "ge_inodes env (gw_name gqw) = []"
    | (inodes) "?us \<noteq> []" "ge_inodes env (gw_name gqw) \<noteq> []" by blast
  then show ?thesis
  proof cases
    case none
    then show ?thesis
      using plugin_queries_alike [OF p s, of mem env gqw None True 0] by (simp add: external_queries_def split_beta)
  next
    case no_inodes
    obtain c1 n1 where c1: "attach_extdbs ?e ?dbs [] ?us (th_conn s) n = (c1, n1)" by fastforce
    obtain c1' where c1': "attach_extdbs ?e ?dbs [] ?us (th_conn s') n = (c1', n1)" "cn_names c1 = cn_names c1'"
      using attach_extdbs_alike [OF alike_names [OF s], of ?e ?dbs "[]" ?us n] c1
      by (cases "attach_extdbs ?e ?dbs [] ?us (th_conn s') n") auto
    let ?c2 = "create_views ?e extdb_views c1" and ?c2' = "create_views ?e extdb_views c1'"
    have "alike b b' (with_conn ?c2 s) (with_conn ?c2' s')"
      using s c1'(2) by (intro alike_with_conn) simp_all
    note q = plugin_queries_alike [OF p this, of mem env gqw None True 0]
    obtain ch k s1 where q1: "plugin_queries mem inp env gqw None True 0 (with_conn ?c2 s) = (ch, k, s1)" by (rule prod_cases3)
    obtain s1' where q2: "plugin_queries mem inp env gqw None True 0 (with_conn ?c2' s') = (ch, k, s1')"
      and a1: "alike b b' s1 s1'"
      using q q1 by (cases "plugin_queries mem inp env gqw None True 0 (with_conn ?c2' s')") auto
    let ?c3 = "\<lambda>s1. drop_views (rev extdb_views) (th_conn s1)"
    have c3: "cn_names (?c3 s1) = cn_names (?c3 s1')" using alike_names [OF a1] by simp
    obtain c4 n2 where c4: "detach_extdbs ?dbs [] ?us (?c3 s1) n1 = (c4, n2)" by fastforce
    obtain c4' where c4': "detach_extdbs ?dbs [] ?us (?c3 s1') n1 = (c4', n2)" "cn_names c4 = cn_names c4'"
      using detach_extdbs_alike [OF c3, of ?dbs "[]" ?us n1] c4 by (cases "detach_extdbs ?dbs [] ?us (?c3 s1') n1") auto
    show ?thesis
      using no_inodes alike_with_conn [OF a1 c4'(2)]
      by (simp add: external_queries_def Let_def c1 c1'(1) q1 q2 c4 c4'(1))
  next
    case inodes
    then show ?thesis
      using inode_loop_alike [OF p s, of mem env gqw "ge_inodes env (gw_name gqw)" True 0 n]
      by (simp add: external_queries_def Let_def)
  qed
qed

lemma setup_xattrs_views_alike:
  assumes "cn_names c = cn_names c'"
  shows "cn_names (fst (setup_xattrs_views env p c n)) = cn_names (fst (setup_xattrs_views env p c' n))
    \<and> snd (setup_xattrs_views env p c n) = snd (setup_xattrs_views env p c' n)"
  using external_concatenate_alike [OF assms] by (simp add: setup_xattrs_views_def split_beta)

lemma summary_and_entries_alike:
  assumes p: "plain_input inp" and s: "alike b b' s s'"
  shows "alike b b' (snd (summary_and_entries mem inp env gqw s)) (snd (summary_and_entries mem inp env gqw s'))"
proof -
  let ?x = "\<lambda>c. if gi_process_xattrs inp then setup_xattrs_views env (gw_name gqw) c 0 else (c, 0)"
  have x: "cn_names (fst (?x (th_conn s))) = cn_names (fst (?x (th_conn s'))) \<and> snd (?x (th_conn s)) = snd (?x (th_conn s'))"
    using setup_xattrs_views_alike [OF alike_names [OF s]] alike_names [OF s] by (cases "gi_process_xattrs inp") simp_all
  obtain c1 n1 where 1: "?x (th_conn s) = (c1, n1)" by (rule prod.exhaust)
  obtain c1' where r1: "?x (th_conn s') = (c1', n1)" "cn_names c1 = cn_names c1'"
    using x unfolding 1 by (cases "?x (th_conn s')") simp
  note q = external_queries_alike [OF p alike_with_conn [OF s r1(2)], of mem env gqw n1]
  obtain ch n2 s1 where 2: "external_queries mem inp env gqw n1 (with_conn c1 s) = (ch, n2, s1)" by (rule prod_cases3)
  obtain s1' where r2: "external_queries mem inp env gqw n1 (with_conn c1' s') = (ch, n2, s1')" "alike b b' s1 s1'"
    using q unfolding 2 by (cases "external_queries mem inp env gqw n1 (with_conn c1' s')") simp
  let ?f = "\<lambda>s1. if gi_process_xattrs inp
      then external_concatenate_cleanup (ge_external_dbs env (gw_name gqw)) (Some ''xattrs'') (Some ''xattrs'') None (th_conn s1) n2
      else (th_conn s1, n2)"
  have f: "cn_names (fst (?f s1)) = cn_names (fst (?f s1'))"
    using cleanup_alike [OF alike_names [OF r2(2)]] alike_names [OF r2(2)] by (cases "gi_process_xattrs inp") simp_all
  show ?thesis
    unfolding summary_and_entries_def Let_def 1 r1(1) prod.case 2 r2(1)
    using alike_with_conn [OF r2(2) f] by (simp only: split_beta snd_conv)
qed

lemma treesummary_query_alike:
  assumes "plain_input inp" "alike b b' s s'"
  shows "fst (treesummary_query mem inp env gqw s) = fst (treesummary_query mem inp env gqw s')
    \<and> alike b b' (snd (treesummary_query mem inp env gqw s)) (snd (treesummary_query mem inp env gqw s'))"
  using assms querydb_alike [OF assms(2)]
  by (simp add: treesummary_query_def plain_input_def replaced_plain split_beta)

lemma processdir_alike:
  assumes p: "plain_input inp" and s: "alike b b' s s'"
  shows "alike b b' (snd (processdir mem inp env gqw s)) (snd (processdir mem inp env gqw s'))"
proof (cases "entered inp env gqw")
  case False
  then have "snd (processdir mem inp env gqw s) = s" for s
    by (cases "ge_opens env (gw_name gqw)") (simp_all add: processdir_def Let_def entered_def)
  then show ?thesis using s by simp
next
  case True
  then have e: "\<not> \<not> ge_opens env (gw_name gqw)"
    "\<not> (gi_keep_matime inp \<and> ge_lstat env (gw_name gqw @ ''/db.db'') = None)"
    by (simp_all only: entered_def not_not simp_thms)
  let ?at = "\<lambda>s. if gi_min_level inp \<le> gw_level gqw
    then attachdb (ge_sqlite env) (gw_sqlite3_name gqw @ ''/db.db'') ''tree'' (th_conn s) else (False, th_conn s)"
  have att: "fst (?at s) = fst (?at s') \<and> cn_names (snd (?at s)) = cn_names (snd (?at s'))"
    using attachdb_alike [OF alike_names [OF s]] alike_names [OF s] by (cases "gi_min_level inp \<le> gw_level gqw") simp_all
  obtain db c where 1: "?at s = (db, c)" by (rule prod.exhaust)
  obtain c' where r1: "?at s' = (db, c')" "cn_names c = cn_names c'"
    using att unfolding 1 by (cases "?at s'") simp
  show ?thesis
  proof (cases db)
    case False
    then show ?thesis
      unfolding processdir_def Let_def if_not_P [OF e(1)] if_not_P [OF e(2)] 1 r1(1) prod.case
      using process_queries_alike [OF p s, of mem env gqw False None True 0]
      by (simp add: split_beta)
  next
    case True
    let ?s1 = "\<lambda>c s. (with_conn c s)\<lparr>th_user_strs := dir_strs gqw (th_user_strs s)\<rparr>"
    have a1: "alike b b' (?s1 c s) (?s1 c' s')"
      by (rule alike_strs) (rule alike_with_conn [OF s r1(2)])
    obtain r s2 where 2: "treesummary_query mem inp env gqw (?s1 c s) = (r, s2)" by (rule prod.exhaust)
    obtain s2' where r2: "treesummary_query mem inp env gqw (?s1 c' s') = (r, s2')" and a2: "alike b b' s2 s2'"
      using treesummary_query_alike [OF p a1, of mem env gqw] unfolding 2
      by (cases "treesummary_query mem inp env gqw (?s1 c' s')") simp
    let ?s3 = "\<lambda>s2. case r of None \<Rightarrow> ([], s2)
      | Some n \<Rightarrow> if 0 < n then summary_and_entries mem inp env gqw s2 else ([], s2)"
    have a3: "alike b b' (snd (?s3 s2)) (snd (?s3 s2'))"
      using a2 summary_and_entries_alike [OF p a2] by (cases r) simp_all
    let ?s4 = "\<lambda>s3. with_conn (detachdb ''tree'' (th_conn s3)) s3"
    have a4: "alike b b' (?s4 (snd (?s3 s2))) (?s4 (snd (?s3 s2')))"
      by (intro alike_with_conn [OF a3] detachdb_alike alike_names [OF a3])
    show ?thesis
      unfolding processdir_def Let_def if_not_P [OF e(1)] if_not_P [OF e(2)] 1 r1(1) prod.case if_P [OF True] 2 r2
      using a4 alike_note [OF a4] by (simp only: split_beta snd_conv split: if_split) simp
  qed
qed

text \<open>The events of a directory, as a thread without any logs them.\<close>

definition dir_events :: "(nat \<Rightarrow> bool) \<Rightarrow> gq_input \<Rightarrow> gq_env \<Rightarrow> string list \<Rightarrow> gqw \<Rightarrow> event list" where
  "dir_events mem inp env names gqw =
     th_log (snd (processdir mem inp env gqw
       \<lparr>th_conn = \<lparr>cn_names = names, cn_views = (\<lambda>_. None)\<rparr>, th_user_strs = trie_alloc, th_log = []\<rparr>))"

lemma processdir_events:
  assumes "plain_input inp"
  shows "th_log (snd (processdir mem inp env gqw s)) = th_log s @ dir_events mem inp env (cn_names (th_conn s)) gqw"
proof -
  let ?s = "\<lparr>th_conn = \<lparr>cn_names = cn_names (th_conn s), cn_views = (\<lambda>_. None)\<rparr>, th_user_strs = trie_alloc, th_log = []\<rparr>"
  have "alike (th_log s) [] s ?s" by (simp add: alike_def)
  from processdir_alike [OF assms this, of mem env gqw] show ?thesis
    by (auto simp: alike_def dir_events_def)
qed

text \<open>All that the threads ran.\<close>

definition all_events :: "walk \<Rightarrow> event multiset" where
  "all_events s = sum_list (map (\<lambda>t. mset (th_log t)) (wk_threads s))"

lemma sum_list_update_add:
  fixes f :: "'a \<Rightarrow> 'b multiset"
  shows "i < length xs \<Longrightarrow> f y = f (xs ! i) + d \<Longrightarrow> sum_list (map f (xs[i := y])) = sum_list (map f xs) + d"
proof (induction xs arbitrary: i)
  case (Cons x xs)
  then show ?case by (cases i) (simp_all add: ac_simps)
qed simp

lemma walk_step_events:
  assumes "plain_input inp" "gq_step mem inp env s s'" "\<forall>t \<in> set (wk_threads s). thread_ok names t"
  shows "\<exists>gqw. wk_handled s' = wk_handled s @ [gqw] \<and> all_events s' = all_events s + mset (dir_events mem inp env names gqw)"
  using assms(2)
proof cases
  case (handle gqw i children t)
  have "cn_names (th_conn (wk_threads s ! i)) = names"
    using assms(3) handle(3) by (auto simp: thread_ok_def)
  then have "mset (th_log t) = mset (th_log (wk_threads s ! i)) + mset (dir_events mem inp env names gqw)"
    using processdir_events [OF assms(1), of mem env gqw "wk_threads s ! i"] handle(4) by simp
  from sum_list_update_add [where f = "\<lambda>t. mset (th_log t)", OF handle(3) this] show ?thesis
    using handle(1) by (simp add: all_events_def)
qed

lemma walk_run_events:
  assumes "plain_input inp" "\<And>p. external_ok inp env p" "names_ok names" "gi_tsum inp = [] \<or> gi_process_sql inp = RUN_SE"
    and "(gq_step mem inp env)\<^sup>*\<^sup>* s s'" "walk_ok inp env names root s"
    and "all_events s = sum_list (map (\<lambda>g. mset (dir_events mem inp env names g)) (wk_handled s))"
  shows "all_events s' = sum_list (map (\<lambda>g. mset (dir_events mem inp env names g)) (wk_handled s'))"
  using assms(5)
proof (induction rule: rtranclp_induct)
  case base
  show ?case by (rule assms(7))
next
  case (step y z)
  have "\<forall>t \<in> set (wk_threads y). thread_ok names t"
    using walk_run [OF assms(2-4) step(1) assms(6)] by (simp add: walk_ok_def)
  from walk_step_events [OF assms(1) step(2) this] step(3) show ?case by auto
qed

lemma walk_events:
  assumes "plain_input inp" "\<And>p. external_ok inp env p" "names_ok names" "gi_tsum inp = [] \<or> gi_process_sql inp = RUN_SE"
    and "\<forall>t \<in> set threads. thread_ok names t \<and> th_log t = []"
    and "(gq_step mem inp env)\<^sup>*\<^sup>* \<lparr>wk_queue = {#root#}, wk_handled = [], wk_threads = threads\<rparr> s" "wk_queue s = {#}"
  shows "all_events s = sum_mset (image_mset (\<lambda>g. mset (dir_events mem inp env names g)) (subtree inp env names root))"
proof -
  let ?s0 = "\<lparr>wk_queue = {#root#}, wk_handled = [], wk_threads = threads\<rparr>"
  have ok: "walk_ok inp env names root ?s0" using assms(5) by (simp add: walk_ok_def)
  have "map (\<lambda>t. mset (th_log t)) threads = map (\<lambda>t. {#}) threads"
    using assms(5) by simp
  then have "all_events ?s0 = {#}" by (simp add: all_events_def del: map_eq_conv)
  then have "all_events s = sum_list (map (\<lambda>g. mset (dir_events mem inp env names g)) (wk_handled s))"
    using walk_run_events [OF assms(1-4,6) ok] by simp
  moreover have "mset (wk_handled s) = subtree inp env names root"
    using walk_run [OF assms(2-4,6) ok] assms(7) by (simp add: walk_ok_def)
  ultimately show ?thesis by (simp add: sum_list_mset)
qed

section \<open>Aggregation\<close>

text \<open>The databases are those of SQLite; \<open>'d\<close> is what is in one.  \<open>ae_intermediate\<close> is the statement of \<open>-J\<close> run in the first
  with the second attached, with what it did when it failed; \<open>ae_final\<close> gives the rows \<open>-G\<close> returns and whether it
  ended without error.\<close>

datatype output_method = STDOUT | OUTFILE | OUTDB

record 'd agg_env =
  ae_fopen :: "ofile option" \<comment> \<open>the output file, \<open>None\<close> when it cannot be opened\<close>
  ae_memory :: "string option"
  ae_open :: "'d option"
  ae_init :: "'d \<Rightarrow> 'd option" \<comment> \<open>\<open>-K\<close>\<close>
  ae_attach :: "nat \<Rightarrow> bool"
  ae_intermediate :: "'d \<Rightarrow> 'd \<Rightarrow> 'd"
  ae_final :: "'d \<Rightarrow> string option list list \<times> bool"

record agg_input =
  ai_output :: output_method
  ai_buffer_size :: nat
  ai_delim :: char
  ai_has_agg :: bool \<comment> \<open>whether there is a \<open>-G\<close>\<close>
  ai_types :: "nat list option"

record 'd aggregate =
  ag_db :: 'd
  ag_outfile :: ofile
  ag_ob :: output_buffer

definition no_buffer :: output_buffer where
  "no_buffer = \<lparr>ob_buf = [], ob_filled = 0, ob_count = 0\<rparr>"

definition aggregate_setup :: "'d agg_env \<Rightarrow> 'd option" where
  "aggregate_setup env = Option.bind (ae_open env) (ae_init env)"

definition aggregate_init :: "'d agg_env \<Rightarrow> agg_input \<Rightarrow> ofile \<Rightarrow> 'd aggregate option" where
  "aggregate_init env inp std =
     Option.bind (if ai_output inp = OUTFILE then ae_fopen env else Some std) (\<lambda>out.
     Option.bind (if ai_output inp = OUTDB then Some no_buffer
                  else OutputBuffer_init (ae_memory env) (ai_buffer_size inp)) (\<lambda>ob.
     map_option (\<lambda>db. \<lparr>ag_db = db, ag_outfile = out, ag_ob = ob\<rparr>) (aggregate_setup env)))"

definition aggregate_intermediate :: "'d agg_env \<Rightarrow> 'd list \<Rightarrow> 'd aggregate \<Rightarrow> 'd aggregate" where
  "aggregate_intermediate env dbs ag =
     ag\<lparr>ag_db := foldl (\<lambda>a (i, db). if ae_attach env i then ae_intermediate env a db else a) (ag_db ag)
          (zip [0..<length dbs] dbs)\<rparr>"

text \<open>\<open>None\<close>: a write outside of the buffer.\<close>

definition aggregate_process :: "'d agg_env \<Rightarrow> agg_input \<Rightarrow> 'd aggregate \<Rightarrow> (int \<times> 'd aggregate) option" where
  "aggregate_process env inp ag =
     (let p = \<lparr>pr_ob = ag_ob ag, pr_delim = ai_delim inp, pr_newline = LF, pr_file = ag_outfile ag, pr_rows = 0,
               pr_types = ai_types inp, pr_suppress_newline = False\<rparr>;
          (rows, ok) = (if ai_output inp \<noteq> OUTDB \<or> ai_has_agg inp then ae_final env (ag_db ag) else ([], True))
      in map_option (\<lambda>p'. case OutputBuffer_flush (pr_ob p') (pr_file p') of
              (_, ob, out) \<Rightarrow> (if ok then 0 else - 1, ag\<lparr>ag_outfile := out, ag_ob := ob\<rparr>))
           (print_rows p rows))"

section \<open>The whole query\<close>

text \<open>A statement of the threads puts rows into the database of its thread; \<open>-J\<close> adds them to those of the others.\<close>

lemma foldl_add_all:
  fixes a :: "'r multiset"
  assumes "\<And>i. ae_attach env i" "\<And>a b. ae_intermediate env a b = a + b"
  shows "foldl (\<lambda>a (i, db). if ae_attach env i then ae_intermediate env a db else a) a (zip is dbs) =
    a + sum_list (map snd (zip is dbs))"
  using assms by (induction "is" dbs arbitrary: a rule: list_induct2') (simp_all add: ac_simps)

text \<open>C9: A query with an aggregation over an index gives the rows of all directories that it handles, each as often as
  the statements of the directory give it, whatever the number of threads and whichever of them takes which directory.
  There is no \<open>-T\<close>, or the option to run only \<open>-S\<close> and \<open>-E\<close> is given (otherwise \<open>-T\<close> decides where the walk ends,
  lemma \<open>tsum_without_rows_prunes\<close>); no statement contains a key; the statements of a directory give the same rows in
  every thread; \<open>-J\<close> adds the rows of a thread, whose database can be attached.  The threads start with the same
  databases attached, none named \<open>tree\<close> or \<open>extdb\<close> and a number, and the external databases of a directory are fewer
  than their counter can hold.\<close>

theorem query_result_independent_of_threads:
  fixes rows_of :: "event \<Rightarrow> 'r multiset"
  assumes "plain_input inp" "\<And>p. external_ok inp env p" "names_ok names" "gi_tsum inp = [] \<or> gi_process_sql inp = RUN_SE"
    and "\<forall>t \<in> set threads. thread_ok names t \<and> th_log t = []"
    and "(gq_step mem inp env)\<^sup>*\<^sup>* \<lparr>wk_queue = {#root#}, wk_handled = [], wk_threads = threads\<rparr> s" "wk_queue s = {#}"
    and "\<And>i. ae_attach aenv i" "\<And>a b. ae_intermediate aenv a b = a + b"
  shows "ag_db (aggregate_intermediate aenv (map (\<lambda>t. sum_mset (image_mset rows_of (mset (th_log t)))) (wk_threads s)) ag) =
    ag_db ag + sum_mset (image_mset (\<lambda>g. sum_mset (image_mset rows_of (mset (dir_events mem inp env names g))))
      (subtree inp env names root))"
proof -
  let ?dbs = "map (\<lambda>t. sum_mset (image_mset rows_of (mset (th_log t)))) (wk_threads s)"
  have "ag_db (aggregate_intermediate aenv ?dbs ag) = ag_db ag + sum_list (map snd (zip [0..<length ?dbs] ?dbs))"
    unfolding aggregate_intermediate_def using foldl_add_all [OF assms(8,9)] by simp
  also have "map snd (zip [0..<length ?dbs] ?dbs) = ?dbs" by simp
  also have "sum_list ?dbs = sum_mset (image_mset rows_of (all_events s))"
    by (simp add: all_events_def sum_mset_sum_lists o_def)
  also have "all_events s = sum_mset (image_mset (\<lambda>g. mset (dir_events mem inp env names g)) (subtree inp env names root))"
    by (rule walk_events [OF assms(1-7)])
  also have "sum_mset (image_mset rows_of \<dots>) =
      sum_mset (image_mset (\<lambda>g. sum_mset (image_mset rows_of (mset (dir_events mem inp env names g)))) (subtree inp env names root))"
    by (rule sum_mset_nested)
  finally show ?thesis .
qed

text \<open>What \<open>aggregate_process\<close> leaves in the output file are the rows \<open>-G\<close> returned, also those returned before it
  failed; only the result then says so.\<close>

theorem aggregate_prints_result:
  assumes "aggregate_init env inp std = Some ag0" "fl_room (ag_outfile ag0) = None"
    and "ai_output inp \<noteq> OUTDB \<or> ai_has_agg inp" "ae_final env (ag_db ag) = (rows, ok)"
    and "ag = aggregate_intermediate env dbs ag0"
    and "\<forall>d \<in> set rows. fine (ai_types inp) False d"
  shows "\<exists>ag'. aggregate_process env inp ag = Some (if ok then 0 else - 1, ag')
    \<and> fl_data (ag_outfile ag') = fl_data (ag_outfile ag0)
        @ concat (map (\<lambda>d. row_bytes (ai_types inp \<noteq> None) (ai_delim inp) LF False (columns_of (ai_types inp) d)) rows)"
proof -
  have i: "ob_filled (ag_ob ag0) = 0"
    using assms(1) by (auto simp: aggregate_init_def no_buffer_def OutputBuffer_init_def Option.bind_eq_Some_conv split: if_splits)
  let ?p = "\<lparr>pr_ob = ag_ob ag0, pr_delim = ai_delim inp, pr_newline = LF, pr_file = ag_outfile ag0, pr_rows = 0,
               pr_types = ai_types inp, pr_suppress_newline = False\<rparr>"
  obtain p' where p': "print_rows ?p rows = Some p'"
    "output_of p' = fl_data (ag_outfile ag0) @ concat (map (bytes_of ?p) rows)"
    using print_rows_output [of ?p rows] i assms(2,6) by (auto simp: printed_def ob_text_def)
  have ag: "ag_ob ag = ag_ob ag0" "ag_outfile ag = ag_outfile ag0"
    by (simp_all add: assms(5) aggregate_intermediate_def)
  obtain n ob out where f: "OutputBuffer_flush (pr_ob p') (pr_file p') = (n, ob, out)" by (rule prod_cases3)
  have "aggregate_process env inp ag = Some (if ok then 0 else - 1, ag\<lparr>ag_outfile := out, ag_ob := ob\<rparr>)"
    unfolding aggregate_process_def Let_def if_P [OF assms(3)] assms(4) prod.case ag p'(1) option.map f by (rule refl)
  moreover have "fl_data out = output_of p'" by (simp add: output_of_def f)
  ultimately show ?thesis using p'(2) by simp
qed

definition tiny_agg :: "event multiset agg_env" where
  "tiny_agg = \<lparr>ae_fopen = None, ae_memory = Some [], ae_open = Some {#}, ae_init = Some, ae_attach = (\<lambda>_. True),
     ae_intermediate = (\<lambda>a b. a + b), ae_final = (\<lambda>db. ([[Some ''2'', None], [Some ''x'', Some ''yz'']], False))\<rparr>"

definition tiny_agg_input :: agg_input where
  "tiny_agg_input = \<lparr>ai_output = STDOUT, ai_buffer_size = 3, ai_delim = CHR ''|'', ai_has_agg = True, ai_types = None\<rparr>"

definition tiny_ag :: "event multiset aggregate" where
  "tiny_ag = \<lparr>ag_db = {#}, ag_outfile = \<lparr>fl_data = [], fl_room = None\<rparr>, ag_ob = \<lparr>ob_buf = replicate 3 NUL, ob_filled = 0, ob_count = 0\<rparr>\<rparr>"

lemma tiny_subtree: "subtree (tiny_input RUN_SE) tiny_env names tiny_root = {#tiny_root, tiny_child#}"
  by (simp add: subtree.simps tiny_kids)

lemma tiny_plain: "plain_input (tiny_input RUN_SE)"
  unfolding plain_input_def tiny_input_def gq_input.simps by code_simp

lemma query_result_independent_of_threads_witness:
  "\<exists>t :: thread. ag_db (aggregate_intermediate tiny_agg [mset (th_log t)] tiny_ag) =
     mset (dir_events (\<lambda>_. True) (tiny_input RUN_SE) tiny_env [''main''] tiny_root)
     + mset (dir_events (\<lambda>_. True) (tiny_input RUN_SE) tiny_env [''main''] tiny_child)"
proof -
  obtain t where r: "(gq_step (\<lambda>_. True) (tiny_input RUN_SE) tiny_env)\<^sup>*\<^sup>*
      \<lparr>wk_queue = {#tiny_root#}, wk_handled = [], wk_threads = [tiny_thread]\<rparr>
      \<lparr>wk_queue = {#}, wk_handled = [tiny_root, tiny_child], wk_threads = [t]\<rparr>"
    using tiny_query_run by blast
  have a: "ae_attach tiny_agg i" "ae_intermediate tiny_agg a b = a + b" for i a b
    by (simp_all add: tiny_agg_def)
  have "\<forall>t \<in> set [tiny_thread]. thread_ok [''main''] t \<and> th_log t = []"
    using tiny_query_ok(2,3) by simp
  note q = query_result_independent_of_threads [OF tiny_plain tiny_external tiny_query_ok(1,4) this r _ a,
      of "\<lambda>e. {#e#}" tiny_ag]
  have "ag_db tiny_ag = {#}" by (simp add: tiny_ag_def)
  then show ?thesis using q by (intro exI [of _ t]) (simp add: tiny_subtree)
qed

lemma aggregate_prints_result_witness:
  "\<exists>ag'. aggregate_process tiny_agg tiny_agg_input tiny_ag = Some (- 1, ag')
     \<and> fl_data (ag_outfile ag') = ''2|'' @ [LF] @ ''x|yz'' @ [LF]"
proof -
  have i: "aggregate_init tiny_agg tiny_agg_input \<lparr>fl_data = [], fl_room = None\<rparr> = Some tiny_ag"
    by (simp add: aggregate_init_def tiny_agg_def tiny_agg_input_def tiny_ag_def OutputBuffer_init_def aggregate_setup_def
        numeral_3_eq_3)
  have "aggregate_intermediate tiny_agg [] tiny_ag = tiny_ag"
    by (simp add: aggregate_intermediate_def)
  note p = aggregate_prints_result [OF i, where dbs = "[]" and ag = tiny_ag
      and rows = "[[Some ''2'', None], [Some ''x'', Some ''yz'']]" and ok = False, unfolded this]
  show ?thesis
    using p by (simp add: tiny_agg_def tiny_agg_input_def tiny_ag_def fine_def printable_def columns_ok_def columns_of_def
        row_length_def row_bytes_def row_prefix_def column_bytes_def cstr_def)
qed

end
