(* ===== verification/Plugins.thy ===== *)
theory Plugins
  imports Bytes
begin

text \<open>
  Plugins: \<open>src/src/plugin.c\<close>, \<open>args_to_plugins\<close> of \<open>src/src/utils.c\<close>, and the calls of plugins that setting up and taking down
  a query makes (\<open>src/src/gufi_query/PoolArgs.c\<close>, \<open>handle_sql.c\<close>, \<open>main.c\<close>).  A plugin is the operations it has and what they return; what
  is called is a log.
\<close>

section \<open>Operations\<close>

datatype plugin_type = PLUGIN_NONE | PLUGIN_INDEX | PLUGIN_QUERY | PLUGIN_INCREMENTAL

datatype plugin_dir_action = PLUGIN_NO_PROCESS_NO_DESCEND_DIR | PLUGIN_NO_PROCESS_DIR | PLUGIN_PROCESS_DIR

datatype plugin_file_action = PLUGIN_NO_PROCESS_FILE | PLUGIN_PROCESS_FILE

text \<open>The values of the enumerations are compared as numbers.\<close>

fun dir_action_value :: "plugin_dir_action \<Rightarrow> nat" where
  "dir_action_value PLUGIN_NO_PROCESS_NO_DESCEND_DIR = 0"
| "dir_action_value PLUGIN_NO_PROCESS_DIR = 1"
| "dir_action_value PLUGIN_PROCESS_DIR = 2"

fun file_action_value :: "plugin_file_action \<Rightarrow> nat" where
  "file_action_value PLUGIN_NO_PROCESS_FILE = 0"
| "file_action_value PLUGIN_PROCESS_FILE = 1"

lemma dir_action_value_eq [simp]: "dir_action_value a = dir_action_value b \<longleftrightarrow> a = b"
  by (cases a; cases b) simp_all

lemma file_action_value_eq [simp]: "file_action_value a = file_action_value b \<longleftrightarrow> a = b"
  by (cases a; cases b) simp_all

instantiation plugin_dir_action :: linorder
begin

definition less_eq_plugin_dir_action :: "plugin_dir_action \<Rightarrow> plugin_dir_action \<Rightarrow> bool" where
  "less_eq_plugin_dir_action a b \<longleftrightarrow> dir_action_value a \<le> dir_action_value b"

definition less_plugin_dir_action :: "plugin_dir_action \<Rightarrow> plugin_dir_action \<Rightarrow> bool" where
  "less_plugin_dir_action a b \<longleftrightarrow> dir_action_value a < dir_action_value b"

instance
  by standard (auto simp: less_eq_plugin_dir_action_def less_plugin_dir_action_def dest: order_antisym)

end

instantiation plugin_file_action :: linorder
begin

definition less_eq_plugin_file_action :: "plugin_file_action \<Rightarrow> plugin_file_action \<Rightarrow> bool" where
  "less_eq_plugin_file_action a b \<longleftrightarrow> file_action_value a \<le> file_action_value b"

definition less_plugin_file_action :: "plugin_file_action \<Rightarrow> plugin_file_action \<Rightarrow> bool" where
  "less_plugin_file_action a b \<longleftrightarrow> file_action_value a < file_action_value b"

instance
  by standard (auto simp: less_eq_plugin_file_action_def less_plugin_file_action_def dest: order_antisym)

end

text \<open>The databases that the operations of a thread are given: the one that is opened to find out types, and those of threads.\<close>

datatype plugin_db = Types_db | Thread_db nat

text \<open>\<open>None\<close> is a null function pointer.  \<open>'c\<close> is what the operations on an entry are given, \<open>'u\<close> the data of the plugin.\<close>

record ('c, 'u) plugin =
  pg_type :: plugin_type
  pg_global_init :: "bool option"
  pg_thread_init :: "(plugin_db \<Rightarrow> bool) option"
  pg_dir_action :: "('c \<Rightarrow> plugin_dir_action) option"
  pg_ctx_init :: "('c \<Rightarrow> 'u) option"
  pg_stat_file :: "('c \<Rightarrow> 'u option \<Rightarrow> bool) option"
  pg_pre_process_dir :: bool
  pg_pre_process_file :: "('c \<Rightarrow> 'u option \<Rightarrow> plugin_file_action) option"
  pg_post_process_dir :: bool
  pg_post_process_file :: bool
  pg_ctx_exit :: bool
  pg_thread_exit :: bool
  pg_global_exit :: bool

text \<open>What is called: the thread or its database, the index of the plugin, and the data it is given.\<close>

datatype 'u call =
  Global_init nat bool | Global_exit nat
| Thread_init plugin_db nat bool | Thread_exit plugin_db nat
| Ctx_init nat nat | Stat_file nat nat "'u option" | Pre_dir nat nat "'u option" | Pre_file nat nat "'u option"
| Post_dir nat nat "'u option" | Post_file nat nat "'u option" | Ctx_exit nat nat "'u option"

record ('c, 'u) plugins =
  ps_plugins :: "('c, 'u) plugin list"
  ps_initialized :: nat
  ps_user_data :: "nat \<Rightarrow> nat \<Rightarrow> 'u option" \<comment> \<open>thread, plugin\<close>

abbreviation ps_count :: "('c, 'u) plugins \<Rightarrow> nat" where "ps_count ps \<equiv> length (ps_plugins ps)"

section \<open>Loading\<close>

text \<open>The argument \<open><entrypoint>:<path>\<close>.  \<open>strtok_r\<close> skips colons at its beginning and stops at the next; the rest is the file.
  \<open>opens\<close> is \<open>dlopen\<close> and \<open>dlsym\<close> finds the operations.\<close>

datatype load_error = Bad_argument | Bad_entrypoint | Bad_filename | Cannot_open string | No_symbol string

definition load_plugin_library ::
    "(string \<Rightarrow> 'lib option) \<Rightarrow> ('lib \<Rightarrow> string \<Rightarrow> 'p option) \<Rightarrow> string \<Rightarrow> load_error + (string \<times> 'p)" where
  "load_plugin_library opens dlsym arg =
     (if arg = [] then Inl Bad_argument
      else
        let rest = dropWhile (\<lambda>c. c = CHR '':'') arg;
            entrypoint = takeWhile (\<lambda>c. c \<noteq> CHR '':'') rest;
            filename = drop 1 (dropWhile (\<lambda>c. c \<noteq> CHR '':'') rest)
        in if rest = [] then Inl Bad_entrypoint
           else if filename = [] then Inl Bad_filename
           else case opens filename of
                  None \<Rightarrow> Inl (Cannot_open filename)
                | Some lib \<Rightarrow>
                    (case dlsym lib entrypoint of
                       None \<Rightarrow> Inl (No_symbol entrypoint)
                     | Some ops \<Rightarrow> Inr (filename, ops)))"

text \<open>All of them or none; the number that was loaded.\<close>

fun args_loop :: "(string \<Rightarrow> load_error + 'p) \<Rightarrow> nat \<Rightarrow> string list \<Rightarrow> 'p list \<Rightarrow> nat \<times> 'p list" where
  "args_loop load i [] loaded = (i, loaded)"
| "args_loop load i (arg # args) loaded =
     (case load arg of Inl _ \<Rightarrow> (i, []) | Inr p \<Rightarrow> args_loop load (i + 1) args (loaded @ [p]))"

definition args_to_plugins :: "(string \<Rightarrow> load_error + 'p) \<Rightarrow> string list \<Rightarrow> nat \<times> 'p list" where
  "args_to_plugins load args = args_loop load 0 args []"

section \<open>Calling all of them\<close>

definition plugins_init :: "('c, 'u) plugin list \<Rightarrow> ('c, 'u) plugins" where
  "plugins_init ps = \<lparr>ps_plugins = ps, ps_initialized = 0, ps_user_data = (\<lambda>_ _. None)\<rparr>"

definition plugins_destroy :: "('c, 'u) plugins \<Rightarrow> ('c, 'u) plugins" where
  "plugins_destroy ps = \<lparr>ps_plugins = [], ps_initialized = 0, ps_user_data = (\<lambda>_ _. None)\<rparr>"

fun plugins_check_type :: "('c, 'u) plugin list \<Rightarrow> plugin_type \<Rightarrow> nat" where
  "plugins_check_type [] accepted = 0"
| "plugins_check_type (p # ps) accepted =
     (if pg_type p \<noteq> PLUGIN_NONE \<and> pg_type p \<noteq> accepted then 0 else Suc (plugins_check_type ps accepted))"

text \<open>The calls of an operation for all plugins, in order or unwinding.\<close>

definition calls :: "(('c, 'u) plugin \<Rightarrow> bool) \<Rightarrow> (nat \<Rightarrow> 'u call) \<Rightarrow> ('c, 'u) plugin list \<Rightarrow> nat \<Rightarrow> 'u call list" where
  "calls has c ps n = map c (filter (\<lambda>i. has (ps ! i)) [0..<n])"

definition plugins_global_exit :: "('c, 'u) plugins \<Rightarrow> 'u call list" where
  "plugins_global_exit ps = rev (calls pg_global_exit Global_exit (ps_plugins ps) (ps_initialized ps))"

fun global_init_loop :: "nat \<Rightarrow> ('c, 'u) plugin list \<Rightarrow> ('c, 'u) plugins \<Rightarrow> ('c, 'u) plugins \<times> 'u call list" where
  "global_init_loop i [] ps = (ps, [])"
| "global_init_loop i (p # rest) ps =
     (case pg_global_init p of
        Some False \<Rightarrow> (ps, Global_init i False # plugins_global_exit ps)
      | r \<Rightarrow>
          (case global_init_loop (i + 1) rest (ps\<lparr>ps_initialized := ps_initialized ps + 1\<rparr>) of
             (ps', log) \<Rightarrow> (ps', (if r = Some True then [Global_init i True] else []) @ log)))"

definition plugins_global_init :: "('c, 'u) plugins \<Rightarrow> ('c, 'u) plugins \<times> 'u call list" where
  "plugins_global_init ps = global_init_loop 0 (ps_plugins ps) ps"

definition plugins_thread_exit :: "plugin_db \<Rightarrow> ('c, 'u) plugin list \<Rightarrow> 'u call list" where
  "plugins_thread_exit db ps = rev (calls pg_thread_exit (Thread_exit db) ps (length ps))"

fun thread_init_loop :: "plugin_db \<Rightarrow> ('c, 'u) plugin list \<Rightarrow> nat \<Rightarrow> ('c, 'u) plugin list \<Rightarrow> nat \<times> 'u call list" where
  "thread_init_loop db ps i [] = (i, [])"
| "thread_init_loop db ps i (p # rest) =
     (case pg_thread_init p of
        None \<Rightarrow> thread_init_loop db ps (i + 1) rest
      | Some ok \<Rightarrow>
          if ok db then (case thread_init_loop db ps (i + 1) rest of (n, log) \<Rightarrow> (n, Thread_init db i True # log))
          else (i, Thread_init db i False # rev (calls pg_thread_exit (Thread_exit db) ps i)))"

definition plugins_thread_init :: "plugin_db \<Rightarrow> ('c, 'u) plugin list \<Rightarrow> nat \<times> 'u call list" where
  "plugins_thread_init db ps = thread_init_loop db ps 0 ps"

fun dir_action_loop :: "'c \<Rightarrow> ('c, 'u) plugin list \<Rightarrow> plugin_dir_action \<Rightarrow> plugin_dir_action" where
  "dir_action_loop ctx [] ret = ret"
| "dir_action_loop ctx (p # ps) ret =
     dir_action_loop ctx ps (case pg_dir_action p of None \<Rightarrow> ret | Some f \<Rightarrow> if f ctx < ret then f ctx else ret)"

definition plugins_dir_action :: "('c, 'u) plugins \<Rightarrow> 'c \<Rightarrow> plugin_dir_action" where
  "plugins_dir_action ps ctx = dir_action_loop ctx (ps_plugins ps) PLUGIN_PROCESS_DIR"

definition plugins_ctx_init :: "('c, 'u) plugins \<Rightarrow> 'c \<Rightarrow> nat \<Rightarrow> ('c, 'u) plugins \<times> 'u call list" where
  "plugins_ctx_init ps ctx tid =
     (ps\<lparr>ps_user_data := (ps_user_data ps)(tid := (\<lambda>i.
          if i < ps_count ps
          then (case pg_ctx_init (ps_plugins ps ! i) of None \<Rightarrow> ps_user_data ps tid i | Some f \<Rightarrow> Some (f ctx))
          else ps_user_data ps tid i))\<rparr>,
      calls (\<lambda>p. pg_ctx_init p \<noteq> None) (Ctx_init tid) (ps_plugins ps) (ps_count ps))"

fun stat_file_loop :: "'c \<Rightarrow> nat \<Rightarrow> (nat \<Rightarrow> 'u option) \<Rightarrow> nat \<Rightarrow> ('c, 'u) plugin list \<Rightarrow> bool \<times> 'u call list" where
  "stat_file_loop ctx tid data i [] = (False, [])"
| "stat_file_loop ctx tid data i (p # ps) =
     (case pg_stat_file p of
        None \<Rightarrow> stat_file_loop ctx tid data (i + 1) ps
      | Some f \<Rightarrow>
          if f ctx (data i) then (True, [Stat_file tid i (data i)])
          else (case stat_file_loop ctx tid data (i + 1) ps of (r, log) \<Rightarrow> (r, Stat_file tid i (data i) # log)))"

definition plugins_stat_file :: "('c, 'u) plugins \<Rightarrow> 'c \<Rightarrow> nat \<Rightarrow> bool \<times> 'u call list" where
  "plugins_stat_file ps ctx tid = stat_file_loop ctx tid (ps_user_data ps tid) 0 (ps_plugins ps)"

definition plugins_pre_process_dir :: "('c, 'u) plugins \<Rightarrow> nat \<Rightarrow> 'u call list" where
  "plugins_pre_process_dir ps tid =
     calls pg_pre_process_dir (\<lambda>i. Pre_dir tid i (ps_user_data ps tid i)) (ps_plugins ps) (ps_count ps)"

fun file_action_loop ::
    "'c \<Rightarrow> nat \<Rightarrow> (nat \<Rightarrow> 'u option) \<Rightarrow> nat \<Rightarrow> ('c, 'u) plugin list \<Rightarrow> plugin_file_action \<Rightarrow> plugin_file_action \<times> 'u call list" where
  "file_action_loop ctx tid data i [] ret = (ret, [])"
| "file_action_loop ctx tid data i (p # ps) ret =
     (case pg_pre_process_file p of
        None \<Rightarrow> file_action_loop ctx tid data (i + 1) ps ret
      | Some f \<Rightarrow>
          (case file_action_loop ctx tid data (i + 1) ps (if f ctx (data i) < ret then f ctx (data i) else ret) of
             (r, log) \<Rightarrow> (r, Pre_file tid i (data i) # log)))"

definition plugins_pre_process_file :: "('c, 'u) plugins \<Rightarrow> 'c \<Rightarrow> nat \<Rightarrow> plugin_file_action \<times> 'u call list" where
  "plugins_pre_process_file ps ctx tid = file_action_loop ctx tid (ps_user_data ps tid) 0 (ps_plugins ps) PLUGIN_PROCESS_FILE"

definition plugins_post_process_dir :: "('c, 'u) plugins \<Rightarrow> nat \<Rightarrow> 'u call list" where
  "plugins_post_process_dir ps tid =
     calls pg_post_process_dir (\<lambda>i. Post_dir tid i (ps_user_data ps tid i)) (ps_plugins ps) (ps_count ps)"

definition plugins_post_process_file :: "('c, 'u) plugins \<Rightarrow> nat \<Rightarrow> 'u call list" where
  "plugins_post_process_file ps tid =
     calls pg_post_process_file (\<lambda>i. Post_file tid i (ps_user_data ps tid i)) (ps_plugins ps) (ps_count ps)"

definition plugins_ctx_exit :: "('c, 'u) plugins \<Rightarrow> nat \<Rightarrow> 'u call list" where
  "plugins_ctx_exit ps tid =
     rev (calls pg_ctx_exit (\<lambda>i. Ctx_exit tid i (ps_user_data ps tid i)) (ps_plugins ps) (ps_count ps))"

section \<open>The most restrictive action\<close>

text \<open>What the plugins that have the operation say.\<close>

definition dir_actions :: "'c \<Rightarrow> ('c, 'u) plugin list \<Rightarrow> plugin_dir_action list" where
  "dir_actions ctx ps = concat (map (\<lambda>p. case pg_dir_action p of None \<Rightarrow> [] | Some f \<Rightarrow> [f ctx]) ps)"

fun file_actions :: "'c \<Rightarrow> (nat \<Rightarrow> 'u option) \<Rightarrow> nat \<Rightarrow> ('c, 'u) plugin list \<Rightarrow> plugin_file_action list" where
  "file_actions ctx data i [] = []"
| "file_actions ctx data i (p # ps) =
     (case pg_pre_process_file p of None \<Rightarrow> [] | Some f \<Rightarrow> [f ctx (data i)]) @ file_actions ctx data (i + 1) ps"

lemma Min_Cons2: "Min (set (a # b # xs)) = Min (set ((if b < a then b else a) # xs))" for a :: "'a :: linorder"
proof (cases "xs = []")
  case False
  then have "Min (set (a # b # xs)) = min a (min b (Min (set xs)))" by simp
  also have "\<dots> = min (if b < a then b else a) (Min (set xs))" by (auto simp: min_def)
  finally show ?thesis using False by simp
qed (auto simp: min_def)

lemma dir_action_loop_Min: "dir_action_loop ctx ps ret = Min (set (ret # dir_actions ctx ps))"
proof (induction ps arbitrary: ret)
  case (Cons p ps)
  show ?case
  proof (cases "pg_dir_action p")
    case None
    then show ?thesis using Cons.IH [of ret] by (simp add: dir_actions_def)
  next
    case (Some f)
    have "dir_actions ctx (p # ps) = f ctx # dir_actions ctx ps" using Some by (simp add: dir_actions_def)
    then show ?thesis
      using Cons.IH [of "if f ctx < ret then f ctx else ret"] Some Min_Cons2 [of ret "f ctx" "dir_actions ctx ps"]
      by (simp only: dir_action_loop.simps option.case)
  qed
qed (simp add: dir_actions_def)

lemma file_action_loop_Min: "fst (file_action_loop ctx tid data i ps ret) = Min (set (ret # file_actions ctx data i ps))"
proof (induction ps arbitrary: i ret)
  case (Cons p ps)
  show ?case
  proof (cases "pg_pre_process_file p")
    case None
    then show ?thesis using Cons.IH [of "i + 1" ret] by simp
  next
    case (Some f)
    let ?r = "if f ctx (data i) < ret then f ctx (data i) else ret"
    have "fst (file_action_loop ctx tid data i (p # ps) ret) = fst (file_action_loop ctx tid data (i + 1) ps ?r)"
      using Some by (simp only: file_action_loop.simps option.case split_beta fst_conv)
    also have "\<dots> = Min (set (?r # file_actions ctx data (i + 1) ps))" by (rule Cons.IH)
    also have "\<dots> = Min (set (ret # file_actions ctx data i (p # ps)))"
      using Some Min_Cons2 [of ret "f ctx (data i)" "file_actions ctx data (i + 1) ps"] by simp
    finally show ?thesis .
  qed
qed simp

section \<open>Setting up and taking down a query\<close>

text \<open>The steps for a thread in \<open>PoolArgs_init\<close>, each of which may fail; the plugins are in their midst.\<close>

datatype setup_step =
  Open_db | Add_setstr | Add_thread_id | Add_runvt | Xattr_template | Extdb_views | Sql_init | Open_outfile | Init_buffer

record setup_env =
  su_alloc :: bool \<comment> \<open>the structures of the threads can be allocated\<close>
  su_fails :: "nat \<Rightarrow> setup_step \<Rightarrow> bool"
  su_external_attach :: bool
  su_has_init :: bool
  su_own_files :: bool \<comment> \<open>output to files without aggregation\<close>

definition steps_before :: "setup_env \<Rightarrow> setup_step list" where
  "steps_before env =
     [Open_db, Add_setstr, Add_thread_id, Add_runvt, Xattr_template] @ (if su_external_attach env then [] else [Extdb_views])"

definition steps_after :: "setup_env \<Rightarrow> setup_step list" where
  "steps_after env = (if su_has_init env then [Sql_init] else []) @ (if su_own_files env then [Open_outfile] else []) @ [Init_buffer]"

definition init_thread :: "setup_env \<Rightarrow> ('c, 'u) plugin list \<Rightarrow> nat \<Rightarrow> bool \<times> 'u call list" where
  "init_thread env ps i =
     (if \<exists>st \<in> set (steps_before env). su_fails env i st then (False, [])
      else case plugins_thread_init (Thread_db i) ps of
        (n, log) \<Rightarrow>
          (n = length ps \<and> \<not> (\<exists>st \<in> set (steps_after env). su_fails env i st), log))"

definition PoolArgs_fin :: "('c, 'u) plugins \<Rightarrow> nat \<Rightarrow> ('c, 'u) plugins \<times> 'u call list" where
  "PoolArgs_fin ps allocated =
     (plugins_destroy ps,
      concat (map (\<lambda>i. plugins_thread_exit (Thread_db i) (ps_plugins ps)) [0..<allocated]) @ plugins_global_exit ps)"

fun init_threads :: "setup_env \<Rightarrow> ('c, 'u) plugin list \<Rightarrow> nat \<Rightarrow> nat \<Rightarrow> nat \<times> 'u call list" where
  "init_threads env ps i 0 = (i, [])"
| "init_threads env ps i (Suc n) =
     (case init_thread env ps i of
        (False, log) \<Rightarrow> (i, log)
      | (True, log) \<Rightarrow> (case init_threads env ps (i + 1) n of (k, log') \<Rightarrow> (k, log @ log')))"

text \<open>
  When a thread fails, it and those before it are taken down.  When the structures of the threads cannot be allocated,
  \<open>input_fini\<close> has the plugins destroyed.
\<close>

definition PoolArgs_init ::
    "setup_env \<Rightarrow> nat \<Rightarrow> ('c, 'u) plugins \<Rightarrow> bool \<times> ('c, 'u) plugins \<times> 'u call list" where
  "PoolArgs_init env maxthreads ps =
     (if \<not> su_alloc env then (False, plugins_destroy ps, [])
      else case init_threads env (ps_plugins ps) 0 maxthreads of
        (i, log) \<Rightarrow>
          if i \<noteq> maxthreads then (case PoolArgs_fin ps (i + 1) of (ps', log') \<Rightarrow> (False, ps', log @ log'))
          else (True, ps, log))"

text \<open>
  \<open>handle_sql\<close>.  The types of the columns are found out with a temporary database that the plugins set up as for a
  directory and for a thread; whether they succeed is not looked at.  \<open>'c\<close> stands for the database.
\<close>

record 'c sql_env =
  sq_valid :: bool \<comment> \<open>\<open>validate\<close>\<close>
  sq_print_tlv :: bool
  sq_rows_out :: bool \<comment> \<open>to \<open>STDOUT\<close> or \<open>OUTFILE\<close>\<close>
  sq_db :: "'c option"
  sq_treesummary :: bool \<comment> \<open>there is no \<open>-T\<close>, or its table can be created\<close>
  sq_types :: bool \<comment> \<open>the statements run and their types are found\<close>

definition gen_types :: "'c sql_env \<Rightarrow> ('c, 'u) plugins \<Rightarrow> bool \<times> ('c, 'u) plugins \<times> 'u call list" where
  "gen_types env ps =
     (if \<not> (sq_print_tlv env \<and> sq_rows_out env) then (True, ps, [])
      else case sq_db env of
        None \<Rightarrow> (False, ps, [])
      | Some db \<Rightarrow>
          if \<not> sq_treesummary env then (False, ps, plugins_ctx_exit ps 0)
          else (case plugins_ctx_init ps db 0 of
            (ps1, log1) \<Rightarrow>
              (case plugins_thread_init Types_db (ps_plugins ps1) of
                 (_, log2) \<Rightarrow>
                   if \<not> sq_types env then (False, ps1, log1 @ log2 @ plugins_ctx_exit ps1 0)
                   else (True, ps1, log1 @ log2 @ plugins_ctx_exit ps1 0 @ plugins_thread_exit Types_db (ps_plugins ps1)))))"

definition handle_sql :: "'c sql_env \<Rightarrow> ('c, 'u) plugins \<Rightarrow> bool \<times> ('c, 'u) plugins \<times> 'u call list" where
  "handle_sql env ps = (if \<not> sq_valid env then (False, ps, []) else gen_types env ps)"

text \<open>\<open>main\<close> of \<open>gufi_query\<close> as far as plugins are concerned; the walk calls \<open>ctx_init\<close> and \<open>ctx_exit\<close> in pairs.\<close>

record 'c main_env =
  mn_setup :: setup_env
  mn_sql :: "'c sql_env"
  mn_partial_walk_ok :: bool
  mn_aggregate_init :: bool
  mn_pool_start :: bool
  mn_source_ok :: bool \<comment> \<open>the directory of a partial walk is there\<close>

datatype main_result = Failed | Ran

definition query_main ::
    "'c main_env \<Rightarrow> nat \<Rightarrow> ('c, 'u) plugin list \<Rightarrow> 'u call list \<Rightarrow> main_result \<times> 'u call list" where
  "query_main env maxthreads plugins walk =
     (if plugins_check_type plugins PLUGIN_QUERY \<noteq> length plugins then (Failed, [])
      else case plugins_global_init (plugins_init plugins) of
        (ps, log) \<Rightarrow>
          if ps_initialized ps \<noteq> length plugins then (Failed, log)
          else case handle_sql (mn_sql env) ps of
            (sql_ok, ps0, log0) \<Rightarrow>
              if \<not> sql_ok then (Failed, log @ log0 @ plugins_global_exit ps0)
              else if \<not> mn_partial_walk_ok env then (Failed, log @ log0 @ plugins_global_exit ps0)
              else case PoolArgs_init (mn_setup env) maxthreads ps0 of
                (ok, ps1, log1) \<Rightarrow>
                  if \<not> ok then (Failed, log @ log0 @ log1 @ plugins_global_exit ps1)
                  else if \<not> mn_aggregate_init env \<or> \<not> mn_pool_start env \<or> \<not> mn_source_ok env
                  then (Failed, log @ log0 @ log1 @ snd (PoolArgs_fin ps1 maxthreads))
                  else (Ran, log @ log0 @ log1 @ walk @ snd (PoolArgs_fin ps1 maxthreads)))"

section \<open>Calls are counted\<close>

lemma count_calls: "inj c \<Longrightarrow> count_list (calls has c ps n) (c i) = of_bool (i < n \<and> has (ps ! i))"
  by (simp add: calls_def count_list_map_conv count_list_distinct)

lemma count_calls_other: "(\<And>i. c i \<noteq> x) \<Longrightarrow> count_list (calls has c ps n) x = 0"
  by (auto simp: calls_def count_list_0_iff)

lemma inj_calls [simp]: "inj Global_exit" "inj (Thread_exit t)"
  by (simp_all add: inj_def)

lemma count_global_exit [simp]:
  "count_list (plugins_global_exit ps) (Global_exit i) = of_bool (i < ps_initialized ps \<and> pg_global_exit (ps_plugins ps ! i))"
  "count_list (plugins_global_exit ps) (Thread_exit t i) = 0"
  "count_list (plugins_global_exit ps) (Thread_init t i b) = 0"
  by (simp_all add: plugins_global_exit_def count_calls count_calls_other)

lemma count_thread_exit [simp]:
  "count_list (plugins_thread_exit t ps) (Thread_exit u i) = of_bool (u = t \<and> i < length ps \<and> pg_thread_exit (ps ! i))"
  "count_list (plugins_thread_exit t ps) (Global_exit i) = 0"
  "count_list (plugins_thread_exit t ps) (Thread_init u i b) = 0"
  by (cases "u = t"; simp add: plugins_thread_exit_def count_calls count_calls_other)+

text \<open>The plugins before the first that failed.\<close>

definition initialized_before :: "('c, 'u) plugin list \<Rightarrow> nat" where
  "initialized_before ps = length (takeWhile (\<lambda>p. pg_global_init p \<noteq> Some False) ps)"

lemma initialized_before_less:
  "i < length ps \<Longrightarrow> i < initialized_before ps \<longleftrightarrow> (\<forall>j \<le> i. pg_global_init (ps ! j) \<noteq> Some False)"
proof (induction ps arbitrary: i)
  case (Cons p ps)
  show ?case
  proof (cases i)
    case 0
    then show ?thesis by (simp add: initialized_before_def)
  next
    case (Suc k)
    have "(\<forall>j \<le> Suc k. pg_global_init ((p # ps) ! j) \<noteq> Some False) \<longleftrightarrow>
        pg_global_init p \<noteq> Some False \<and> (\<forall>j \<le> k. pg_global_init (ps ! j) \<noteq> Some False)"
      by (metis (no_types, lifting) Suc_le_mono le_SucE nat.exhaust nth_Cons_0 nth_Cons_Suc zero_le)
    then show ?thesis
      using Cons Suc by (simp add: initialized_before_def)
  qed
qed simp

lemma global_init_loop_effect:
  "global_init_loop i rest ps = (ps', log) \<Longrightarrow>
   ps' = ps\<lparr>ps_initialized := ps_initialized ps + initialized_before rest\<rparr>
   \<and> log = map (\<lambda>k. Global_init (i + k) True) (filter (\<lambda>k. pg_global_init (rest ! k) = Some True) [0..<initialized_before rest])
       @ (if initialized_before rest < length rest then Global_init (i + initialized_before rest) False # plugins_global_exit ps' else [])"
proof (induction rest arbitrary: i ps ps' log)
  case Nil
  then show ?case by (simp add: initialized_before_def)
next
  case (Cons p rest)
  show ?case
  proof (cases "pg_global_init p = Some False")
    case True
    then show ?thesis using Cons.prems by (auto simp: initialized_before_def)
  next
    case False
    let ?ps = "ps\<lparr>ps_initialized := ps_initialized ps + 1\<rparr>"
    obtain log1 where l: "global_init_loop (i + 1) rest ?ps = (ps', log1)"
      "log = (if pg_global_init p = Some True then [Global_init i True] else []) @ log1"
      using Cons.prems False by (cases "global_init_loop (i + 1) rest ?ps") (auto split: option.splits bool.splits)
    have k: "initialized_before (p # rest) = Suc (initialized_before rest)"
      using False by (simp add: initialized_before_def)
    have u: "[0..<Suc n] = 0 # map Suc [0..<n]" for n
      by (simp add: upt_conv_Cons map_Suc_upt del: upt_Suc)
    show ?thesis
      using Cons.IH [OF l(1)] l(2) unfolding k u by (simp add: filter_map o_def)
  qed
qed

lemma global_init_counts:
  assumes "plugins_global_init (plugins_init plugins) = (ps, log)" "i < length plugins"
  shows "ps_plugins ps = plugins" "ps_initialized ps = initialized_before plugins"
    "count_list log (Global_exit i) =
       of_bool (initialized_before plugins < length plugins \<and> i < initialized_before plugins \<and> pg_global_exit (plugins ! i))"
    "count_list log (Thread_exit t i) = 0" "count_list log (Thread_init t i b) = 0"
proof -
  note e = global_init_loop_effect [OF assms(1) [unfolded plugins_global_init_def]]
  show "ps_plugins ps = plugins" "ps_initialized ps = initialized_before plugins"
    using e by (simp_all add: plugins_init_def)
  moreover have m: "count_list (map (\<lambda>k. Global_init (0 + k) True) xs) x = 0"
    if "\<And>k. x \<noteq> Global_init k True" for xs and x :: "'b call"
    using that by (auto simp: count_list_0_iff)
  ultimately show "count_list log (Global_exit i) =
       of_bool (initialized_before plugins < length plugins \<and> i < initialized_before plugins \<and> pg_global_exit (plugins ! i))"
    "count_list log (Thread_exit t i) = 0" "count_list log (Thread_init t i b) = 0"
    using e by (auto simp: plugins_init_def m)
qed

lemma thread_init_loop_counts:
  "thread_init_loop t ps i rest = (n, log) \<Longrightarrow>
   count_list log (Global_exit j) = 0 \<and> (\<forall>u. u \<noteq> t \<longrightarrow> count_list log (Thread_exit u j) = 0 \<and> count_list log (Thread_init u j b) = 0)
   \<and> (n = i + length rest \<longrightarrow> count_list log (Thread_exit t j) = 0
        \<and> count_list log (Thread_init t j True) = of_bool (i \<le> j \<and> j < i + length rest \<and> pg_thread_init (rest ! (j - i)) \<noteq> None))"
proof (induction rest arbitrary: i n log)
  case (Cons p rest)
  show ?case
  proof (cases "pg_thread_init p")
    case None
    then have l: "thread_init_loop t ps (i + 1) rest = (n, log)" using Cons.prems by simp
    show ?thesis
      using Cons.IH [OF l] None by (cases "j = i") (auto simp: nth_Cons')
  next
    case (Some ok)
    show ?thesis
    proof (cases "ok t")
      case True
      then obtain log1 where l: "thread_init_loop t ps (i + 1) rest = (n, log1)" "log = Thread_init t i True # log1"
        using Cons.prems Some by (auto split: prod.splits)
      show ?thesis
        using Cons.IH [OF l(1)] l(2) Some by (cases "j = i") (auto simp: nth_Cons')
    next
      case False
      then show ?thesis
        using Cons.prems Some by (auto simp: count_calls_other)
    qed
  qed
qed simp

lemma thread_init_loop_bound: "thread_init_loop t ps i rest = (n, log) \<Longrightarrow> i \<le> n \<and> n \<le> i + length rest"
proof (induction rest arbitrary: i n log)
  case (Cons p rest)
  then show ?case
    by (auto split: option.splits if_splits prod.splits dest!: Cons.IH)
qed simp

lemma init_thread_counts:
  assumes "init_thread env ps t = (ok, log)" "j < length ps"
  shows "count_list log (Global_exit j) = 0"
    "u \<noteq> Thread_db t \<Longrightarrow> count_list log (Thread_exit u j) = 0 \<and> count_list log (Thread_init u j b) = 0"
    "ok \<Longrightarrow> count_list log (Thread_exit (Thread_db t) j) = 0 \<and> count_list log (Thread_init (Thread_db t) j True) = of_bool (pg_thread_init (ps ! j) \<noteq> None)"
proof -
  obtain n log' where l: "thread_init_loop (Thread_db t) ps 0 ps = (n, log')" by (rule prod.exhaust)
  note c = thread_init_loop_counts [OF l, of j b]
  show "count_list log (Global_exit j) = 0"
    "u \<noteq> Thread_db t \<Longrightarrow> count_list log (Thread_exit u j) = 0 \<and> count_list log (Thread_init u j b) = 0"
    "ok \<Longrightarrow> count_list log (Thread_exit (Thread_db t) j) = 0 \<and> count_list log (Thread_init (Thread_db t) j True) = of_bool (pg_thread_init (ps ! j) \<noteq> None)"
    using assms c by (auto simp: init_thread_def plugins_thread_init_def l split: if_splits)
qed

lemma init_threads_counts:
  assumes "init_threads env ps i n = (k, log)" "j < length ps"
  shows "count_list log (Global_exit j) = 0 \<and> i \<le> k \<and> k \<le> i + n
    \<and> (k = i + n \<longrightarrow> count_list log (Thread_exit (Thread_db t) j) = 0
         \<and> count_list log (Thread_init (Thread_db t) j True) = of_bool (i \<le> t \<and> t < i + n \<and> pg_thread_init (ps ! j) \<noteq> None))"
  using assms(1)
proof (induction n arbitrary: i k log)
  case (Suc n)
  obtain ok log1 where t: "init_thread env ps i = (ok, log1)" by (rule prod.exhaust)
  note c = init_thread_counts [OF t assms(2)]
  show ?case
  proof (cases ok)
    case False
    then show ?thesis using Suc.prems t c(1) by simp
  next
    case True
    then obtain log2 where r: "init_threads env ps (i + 1) n = (k, log2)" "log = log1 @ log2"
      using Suc.prems t by (auto split: prod.splits)
    show ?thesis
      using Suc.IH [OF r(1)] r(2) c True by (cases "t = i") auto
  qed
qed simp

lemma PoolArgs_fin_counts [simp]:
  assumes "j < ps_count ps"
  shows "count_list (snd (PoolArgs_fin ps n)) (Global_exit j) = of_bool (j < ps_initialized ps \<and> pg_global_exit (ps_plugins ps ! j))"
    "count_list (snd (PoolArgs_fin ps n)) (Thread_exit (Thread_db t) j) = of_bool (t < n \<and> pg_thread_exit (ps_plugins ps ! j))"
    "count_list (snd (PoolArgs_fin ps n)) (Thread_init (Thread_db t) j b) = 0"
proof -
  let ?e = "concat (map (\<lambda>i. plugins_thread_exit (Thread_db i) (ps_plugins ps)) [0..<n])"
  have "count_list ?e (Global_exit j) = 0" "count_list ?e (Thread_init (Thread_db t) j b) = 0"
    "count_list ?e (Thread_exit (Thread_db t) j) = of_bool (t < n \<and> pg_thread_exit (ps_plugins ps ! j))"
    using assms by (induction n) (auto simp: less_Suc_eq)
  then show "count_list (snd (PoolArgs_fin ps n)) (Global_exit j) = of_bool (j < ps_initialized ps \<and> pg_global_exit (ps_plugins ps ! j))"
    "count_list (snd (PoolArgs_fin ps n)) (Thread_exit (Thread_db t) j) = of_bool (t < n \<and> pg_thread_exit (ps_plugins ps ! j))"
    "count_list (snd (PoolArgs_fin ps n)) (Thread_init (Thread_db t) j b) = 0"
    by (simp_all add: PoolArgs_fin_def)
qed

lemma handle_sql_counts:
  assumes "handle_sql env ps = (ok, ps', log)"
  shows "ps_plugins ps' = ps_plugins ps" "ps_initialized ps' = ps_initialized ps" "count_list log (Global_exit j) = 0"
    "count_list log (Thread_exit (Thread_db t) j) = 0" "count_list log (Thread_init (Thread_db t) j b) = 0"
proof -
  obtain n log2 where t: "thread_init_loop Types_db (ps_plugins ps) 0 (ps_plugins ps) = (n, log2)" by (rule prod.exhaust)
  note c = thread_init_loop_counts [OF t, of j b]
  have ctx: "count_list (plugins_ctx_exit x 0) (Global_exit j) = 0"
    "count_list (plugins_ctx_exit x 0) (Thread_exit u j) = 0" "count_list (plugins_ctx_exit x 0) (Thread_init u j b) = 0"
    for x :: "('a, 'b) plugins" and u
    by (simp_all add: plugins_ctx_exit_def count_calls_other)
  show "ps_plugins ps' = ps_plugins ps" "ps_initialized ps' = ps_initialized ps" "count_list log (Global_exit j) = 0"
    "count_list log (Thread_exit (Thread_db t) j) = 0" "count_list log (Thread_init (Thread_db t) j b) = 0"
    using assms c ctx t
    by (auto simp: handle_sql_def gen_types_def plugins_ctx_init_def plugins_thread_init_def count_calls_other
        split: if_splits option.splits prod.splits)
qed

lemma destroyed_exit [simp]: "plugins_global_exit (plugins_destroy ps) = []"
  by (simp add: plugins_global_exit_def plugins_destroy_def calls_def)

text \<open>When one of the first thread's plugins fails, those before it are exited in \<open>plugins_thread_init\<close>.\<close>

lemma thread_init_loop_fails:
  assumes "k < length rest" "pg_thread_init (rest ! k) = Some f" "\<not> f t"
    and "\<And>j g. j < k \<Longrightarrow> pg_thread_init (rest ! j) = Some g \<Longrightarrow> g t"
  shows "thread_init_loop t ps i rest = (i + k,
    map (\<lambda>j. Thread_init t (i + j) True) (filter (\<lambda>j. pg_thread_init (rest ! j) \<noteq> None) [0..<k])
    @ Thread_init t (i + k) False # rev (calls pg_thread_exit (Thread_exit t) ps (i + k)))"
  using assms
proof (induction rest arbitrary: i k)
  case (Cons p rest)
  show ?case
  proof (cases k)
    case 0
    then show ?thesis using Cons.prems(2,3) by simp
  next
    case (Suc m)
    have u: "[0..<Suc m] = 0 # map Suc [0..<m]"
      by (simp add: upt_conv_Cons map_Suc_upt del: upt_Suc)
    have "thread_init_loop t ps (Suc i) rest = (Suc i + m,
        map (\<lambda>j. Thread_init t (Suc i + j) True) (filter (\<lambda>j. pg_thread_init (rest ! j) \<noteq> None) [0..<m])
        @ Thread_init t (Suc i + m) False # rev (calls pg_thread_exit (Thread_exit t) ps (Suc i + m)))"
      using Cons.prems Suc by (intro Cons.IH) fastforce+
    then show ?thesis
      using Cons.prems(4) [of 0] unfolding Suc u by (cases "pg_thread_init p") (simp_all add: filter_map o_def)
  qed
qed simp

section \<open>Properties\<close>

text \<open>The most restrictive action any plugin asks for is taken, whatever their order; a plugin without the operation does
  not count.\<close>

theorem plugins_most_restrictive:
  "plugins_dir_action ps ctx = Min (set (PLUGIN_PROCESS_DIR # dir_actions ctx (ps_plugins ps)))
   \<and> fst (plugins_pre_process_file ps ctx tid) =
       Min (set (PLUGIN_PROCESS_FILE # file_actions ctx (ps_user_data ps tid) 0 (ps_plugins ps)))"
  by (simp only: plugins_dir_action_def plugins_pre_process_file_def dir_action_loop_Min file_action_loop_Min simp_thms)

text \<open>No call of a list is about exits.\<close>

definition no_exits :: "'u call list \<Rightarrow> bool" where
  "no_exits log \<longleftrightarrow> (\<forall>i t b. Global_exit i \<notin> set log \<and> Thread_exit t i \<notin> set log \<and> Thread_init t i b \<notin> set log)"

lemma no_exits_count:
  "no_exits log \<Longrightarrow> count_list log (Global_exit i) = 0 \<and> count_list log (Thread_exit t i) = 0 \<and> count_list log (Thread_init t i b) = 0"
  by (simp add: no_exits_def)

text \<open>
  C13: If the structures of the threads can be allocated, then however a query ends, each plugin that was initialized for it is
  exited exactly once and no other is; and when it ran, each plugin was initialized once and exited once for each thread.
  What the walk itself calls is taken to be neither an initialization nor an exit of the whole or of a thread.
\<close>

theorem plugins_exited_once:
  assumes "query_main env maxthreads plugins walk = (r, log)" "no_exits walk" "su_alloc (mn_setup env)"
    and "plugins_check_type plugins PLUGIN_QUERY = length plugins" "i < length plugins"
  shows "count_list log (Global_exit i) =
      of_bool (pg_global_exit (plugins ! i) \<and> (\<forall>j \<le> i. pg_global_init (plugins ! j) \<noteq> Some False))
    \<and> (r = Ran \<longrightarrow> (\<forall>t < maxthreads.
      count_list log (Thread_init (Thread_db t) i True) = of_bool (pg_thread_init (plugins ! i) \<noteq> None)
      \<and> count_list log (Thread_exit (Thread_db t) i) = of_bool (pg_thread_exit (plugins ! i))))"
proof (intro conjI allI impI)
  obtain ps log0 where g: "plugins_global_init (plugins_init plugins) = (ps, log0)" by (rule prod.exhaust)
  note gc = global_init_counts [OF g assms(5)]
  have b: "(\<forall>j \<le> i. pg_global_init (plugins ! j) \<noteq> Some False) \<longleftrightarrow> i < initialized_before plugins"
    using initialized_before_less [OF assms(5)] by blast
  have le: "initialized_before plugins \<le> length plugins"
    by (simp add: initialized_before_def length_takeWhile_le)
  obtain sql_ok ps0 logs where h: "handle_sql (mn_sql env) ps = (sql_ok, ps0, logs)" by (rule prod_cases3)
  note hc = handle_sql_counts [OF h]
  obtain ok ps1 log1 where p: "PoolArgs_init (mn_setup env) maxthreads ps0 = (ok, ps1, log1)" by (rule prod_cases3)
  obtain k logt where t: "init_threads (mn_setup env) plugins 0 maxthreads = (k, logt)" by (rule prod.exhaust)
  note tc = init_threads_counts [OF t assms(5)]
  note w = no_exits_count [OF assms(2)]
  have p_ok: "ps1 = ps0 \<and> log1 = logt \<and> k = maxthreads" if ok
    using p t gc(1) hc(1) assms(3) that by (auto simp: PoolArgs_init_def split: if_splits prod.splits)
  have p_bad: "log1 = logt @ snd (PoolArgs_fin ps0 (k + 1)) \<and> plugins_global_exit ps1 = []" if "\<not> ok"
    using p t gc(1) hc(1) assms(3) that by (auto simp: PoolArgs_init_def PoolArgs_fin_def split: if_splits prod.splits)
  have fin: "count_list (snd (PoolArgs_fin ps0 n)) (Global_exit i) = of_bool (i < initialized_before plugins \<and> pg_global_exit (plugins ! i))"
    "count_list (snd (PoolArgs_fin ps0 n)) (Thread_exit (Thread_db u) i) = of_bool (u < n \<and> pg_thread_exit (plugins ! i))"
    "count_list (snd (PoolArgs_fin ps0 n)) (Thread_init (Thread_db u) i c) = 0" for n u c
    using PoolArgs_fin_counts [of i ps0] assms(5) gc(1,2) hc(1,2) by simp_all
  have m: "(r, log) = (if ps_initialized ps \<noteq> length plugins then (Failed, log0)
      else if \<not> sql_ok \<or> \<not> mn_partial_walk_ok env then (Failed, log0 @ logs @ plugins_global_exit ps0)
      else if \<not> ok then (Failed, log0 @ logs @ log1 @ plugins_global_exit ps1)
      else if \<not> mn_aggregate_init env \<or> \<not> mn_pool_start env \<or> \<not> mn_source_ok env
      then (Failed, log0 @ logs @ log1 @ snd (PoolArgs_fin ps1 maxthreads))
      else (Ran, log0 @ logs @ log1 @ walk @ snd (PoolArgs_fin ps1 maxthreads)))"
    using assms(1,4) g h p by (simp add: query_main_def split: if_splits)
  show "count_list log (Global_exit i) =
      of_bool (pg_global_exit (plugins ! i) \<and> (\<forall>j \<le> i. pg_global_init (plugins ! j) \<noteq> Some False))"
    using m gc le hc tc w fin p_ok p_bad unfolding b by (auto split: if_splits)
  show "count_list log (Thread_init (Thread_db t) i True) = of_bool (pg_thread_init (plugins ! i) \<noteq> None)"
    "count_list log (Thread_exit (Thread_db t) i) = of_bool (pg_thread_exit (plugins ! i))" if "r = Ran" "t < maxthreads" for t
    using m gc hc tc w fin p_ok that by (auto split: if_splits)
qed

text \<open>
  Otherwise no plugin is exited: \<open>PoolArgs_init\<close> has destroyed the list of plugins, with their number, before \<open>main\<close> calls
  \<open>plugins_global_exit\<close>.
\<close>

lemma failed_allocation_skips_exits:
  assumes "handle_sql (mn_sql env) (fst (plugins_global_init (plugins_init plugins))) = (True, ps, log0)"
    and "mn_partial_walk_ok env" "\<not> su_alloc (mn_setup env)" "i < length plugins"
    and "\<And>j. j < length plugins \<Longrightarrow> pg_global_init (plugins ! j) \<noteq> Some False"
  shows "count_list (snd (query_main env maxthreads plugins walk)) (Global_exit i) = 0"
proof -
  obtain ps' log where g: "plugins_global_init (plugins_init plugins) = (ps', log)" by (rule prod.exhaust)
  have "\<forall>p \<in> set plugins. pg_global_init p \<noteq> Some False" using assms(5) by (auto simp: in_set_conv_nth)
  then have "takeWhile (\<lambda>p. pg_global_init p \<noteq> Some False) plugins = plugins" by (simp only: takeWhile_eq_all_conv)
  then have "initialized_before plugins = length plugins" by (simp only: initialized_before_def)
  then show ?thesis
    using global_init_counts [OF g assms(4)] handle_sql_counts(3) [OF assms(1)] assms(1-3) g
    by (auto simp: query_main_def PoolArgs_init_def)
qed

text \<open>C37: When the structures of the threads are allocated and a plugin fails to initialize for the first thread, the plugins before it are exited twice for that thread, and it
  and those after it are exited without having been initialized.\<close>

theorem failed_thread_init_exits_twice:
  assumes "k < ps_count ps" "pg_thread_init (ps_plugins ps ! k) = Some f" "\<not> f (Thread_db 0)" "0 < maxthreads" "su_alloc env"
    and "\<And>j g. j < k \<Longrightarrow> pg_thread_init (ps_plugins ps ! j) = Some g \<Longrightarrow> g (Thread_db 0)"
    and "\<And>st. st \<in> set (steps_before env) \<Longrightarrow> \<not> su_fails env 0 st"
  shows "\<exists>ps' log. PoolArgs_init env maxthreads ps = (False, ps', log)
    \<and> (\<forall>j. j < ps_count ps \<and> pg_thread_exit (ps_plugins ps ! j) \<longrightarrow>
         count_list log (Thread_exit (Thread_db 0) j) = (if j < k then 2 else 1) \<and> (k \<le> j \<longrightarrow> count_list log (Thread_init (Thread_db 0) j True) = 0))"
proof -
  let ?p = "ps_plugins ps"
  define log0 where "log0 = map (\<lambda>j. Thread_init (Thread_db 0) j True :: 'b call) (filter (\<lambda>j. pg_thread_init (?p ! j) \<noteq> None) [0..<k])"
  let ?log = "log0 @ Thread_init (Thread_db 0) k False # rev (calls pg_thread_exit (Thread_exit (Thread_db 0)) ?p k)"
  have "thread_init_loop (Thread_db 0) ?p 0 ?p = (k, ?log)"
    unfolding log0_def using thread_init_loop_fails [OF assms(1,2,3), of ?p 0] assms(6) by fastforce
  then have "init_thread env ?p 0 = (False, ?log)"
    using assms(1,7) by (auto simp: init_thread_def plugins_thread_init_def)
  then have "init_threads env ?p 0 maxthreads = (0, ?log)"
    using assms(4) by (cases maxthreads) auto
  then have i: "PoolArgs_init env maxthreads ps = (False, fst (PoolArgs_fin ps 1), ?log @ snd (PoolArgs_fin ps 1))"
    using assms(4,5) by (simp add: PoolArgs_init_def split_beta)
  have "count_list log0 (Thread_exit (Thread_db 0) j) = 0" "k \<le> j \<Longrightarrow> count_list log0 (Thread_init (Thread_db 0) j True) = 0" for j
    by (auto simp: log0_def count_list_0_iff)
  then show ?thesis
    unfolding i using assms(1) by (auto simp: count_calls count_calls_other)
qed

definition some_plugin :: "bool \<Rightarrow> (unit, unit) plugin" where
  "some_plugin ok = \<lparr>pg_type = PLUGIN_QUERY, pg_global_init = Some True, pg_thread_init = Some (\<lambda>_. ok), pg_dir_action = None,
     pg_ctx_init = None, pg_stat_file = None, pg_pre_process_dir = False, pg_pre_process_file = None,
     pg_post_process_dir = False, pg_post_process_file = False, pg_ctx_exit = False, pg_thread_exit = True,
     pg_global_exit = True\<rparr>"

definition some_setup :: setup_env where
  "some_setup = \<lparr>su_alloc = True, su_fails = (\<lambda>_ _. False), su_external_attach = False, su_has_init = True, su_own_files = False\<rparr>"

definition some_sql :: "unit sql_env" where
  "some_sql = \<lparr>sq_valid = True, sq_print_tlv = True, sq_rows_out = True, sq_db = Some (), sq_treesummary = True, sq_types = True\<rparr>"

definition some_main :: "unit main_env" where
  "some_main = \<lparr>mn_setup = some_setup, mn_sql = some_sql, mn_partial_walk_ok = True, mn_aggregate_init = True,
     mn_pool_start = True, mn_source_ok = True\<rparr>"

lemma plugins_exited_once_witness:
  "fst (query_main some_main 2 [some_plugin True] []) = Ran
   \<and> count_list (snd (query_main some_main 2 [some_plugin True] [])) (Global_exit 0) = 1
   \<and> count_list (snd (query_main some_main 2 [some_plugin True] [])) (Thread_exit (Thread_db 1) 0) = 1"
proof -
  have r: "fst (query_main some_main 2 [some_plugin True] []) = Ran"
    by (simp add: query_main_def some_main_def some_plugin_def plugins_global_init_def plugins_init_def PoolArgs_init_def 
        handle_sql_def gen_types_def some_sql_def plugins_ctx_init_def
        init_thread_def plugins_thread_init_def some_setup_def numeral_2_eq_2)
  obtain log where q: "query_main some_main 2 [some_plugin True] [] = (Ran, log)"
    using r by (metis prod.collapse)
  have "plugins_check_type [some_plugin True] PLUGIN_QUERY = length [some_plugin True]" "0 < length [some_plugin True]"
    by (simp_all add: some_plugin_def)
  moreover have "no_exits ([] :: unit call list)" "su_alloc (mn_setup some_main)"
    by (simp_all add: no_exits_def some_main_def some_setup_def)
  ultimately show ?thesis
    using plugins_exited_once [OF q, of 0] by (simp add: q) (simp add: some_plugin_def)
qed

lemma failed_thread_init_exits_twice_witness:
  "\<exists>ps' log. PoolArgs_init some_setup 2 (plugins_init [some_plugin True, some_plugin False]) = (False, ps', log)
    \<and> count_list log (Thread_exit (Thread_db 0) 0) = 2 \<and> count_list log (Thread_exit (Thread_db 0) 1) = 1"
proof -
  let ?ps = "plugins_init [some_plugin True, some_plugin False]"
  have "\<exists>ps' log. PoolArgs_init some_setup 2 ?ps = (False, ps', log)
    \<and> (\<forall>j. j < ps_count ?ps \<and> pg_thread_exit (ps_plugins ?ps ! j) \<longrightarrow>
         count_list log (Thread_exit (Thread_db 0) j) = (if j < 1 then 2 else 1) \<and> (1 \<le> j \<longrightarrow> count_list log (Thread_init (Thread_db 0) j True) = 0))"
    by (rule failed_thread_init_exits_twice [where f = "\<lambda>_. False"])
      (auto simp: plugins_init_def some_plugin_def some_setup_def)
  then obtain ps' log where l: "PoolArgs_init some_setup 2 ?ps = (False, ps', log)"
    "\<And>j. j < 2 \<Longrightarrow> pg_thread_exit (ps_plugins ?ps ! j) \<Longrightarrow> count_list log (Thread_exit (Thread_db 0) j) = (if j < 1 then 2 else 1)"
    by (auto simp: plugins_init_def)
  have "pg_thread_exit (ps_plugins ?ps ! 0)" "pg_thread_exit (ps_plugins ?ps ! 1)"
    by (simp_all add: plugins_init_def some_plugin_def)
  then show ?thesis using l(1) l(2) [of 0] l(2) [of 1] by auto
qed

end
