(* ===== verification/PathList.thy ===== *)
theory PathList
  imports QueryProps Utils
begin

text \<open>
  Starting in the middle of a tree: the list of directories of \<open>--path-list\<close>, \<open>src/src/path_list.c\<close> and
  \<open>gqw_process_path_list\<close> of \<open>src/src/gufi_query/main.c\<close>, and the check of an input path there.  A query that starts with the
  directories of one level is the query that reaches them from the root.
\<close>

section \<open>Lines of a file\<close>

text \<open>\<open>getline\<close>: each line with its newline, the last perhaps without.\<close>

function file_lines :: "string \<Rightarrow> string list" where
  "file_lines s =
     (if s = [] then []
      else
        let l = takeWhile (\<lambda>c. c \<noteq> LF) s; r = dropWhile (\<lambda>c. c \<noteq> LF) s
        in if r = [] then [l] else (l @ [LF]) # file_lines (tl r))"
  by pat_completeness auto

termination
proof (relation "measure length", goal_cases)
  case (2 s l r)
  then have "length r \<le> length s" "r \<noteq> []"
    using length_dropWhile_le [of "\<lambda>c. c \<noteq> LF" s] by simp_all
  then show ?case by (cases r) simp_all
qed simp

declare file_lines.simps [simp del]

abbreviation CR :: char where "CR \<equiv> CHR 0x0D"

definition line_name :: "string \<Rightarrow> string" where
  "line_name line = take (trailing_non_match_index (Some line) (length line) [CR, LF]) line"

section \<open>Input paths and lists\<close>

record pl_input =
  pi_min_level :: nat
  pi_path_list :: "string option"
  pi_dir_match :: DirMatch

definition bad_partial_walk :: "pl_input \<Rightarrow> nat \<Rightarrow> bool" where
  "bad_partial_walk inp root_count \<longleftrightarrow> (case pi_path_list inp of None \<Rightarrow> False | Some p \<Rightarrow> p \<noteq> []) \<and> 1 < root_count"

definition doing_partial_walk :: "pl_input \<Rightarrow> nat \<Rightarrow> bool" where
  "doing_partial_walk inp root_count \<longleftrightarrow> (case pi_path_list inp of None \<Rightarrow> False | Some p \<Rightarrow> p \<noteq> [])"

text \<open>Everything of a starting point that the lists use.\<close>

record pl_root =
  pr_gqw :: gqw
  pr_orig_root :: string
  pr_root_parent :: string

text \<open>\<open>Null_root\<close> is a null pointer that is read, \<open>Read_outside\<close> a read outside of a name.\<close>

datatype 'w enqueued = Null_root | Read_outside | Enqueued "'w list"

definition prepend :: "'w list \<Rightarrow> 'w enqueued \<Rightarrow> 'w enqueued" where
  "prepend ws r = (case r of Enqueued vs \<Rightarrow> Enqueued (ws @ vs) | e \<Rightarrow> e)"

text \<open>The length of the basename as the lists compute it.\<close>

definition list_basename_len :: "string \<Rightarrow> nat" where
  "list_basename_len name = length name - (trailing_match_index (Some (drop 1 name)) (length name - 1) ''/'' + 1)"

section \<open>gufi\_query\<close>

text \<open>\<open>validate_source\<close>: \<open>stat_of\<close> is \<open>stat\<close>.\<close>

definition validate_source :: "pl_input \<Rightarrow> (string \<Rightarrow> stat option) \<Rightarrow> string \<Rightarrow> pl_root option" where
  "validate_source inp stat_of path =
     (if path = [] then None
      else
        let len = trailing_non_match_index (Some (drop 1 path)) (length path - 1) ''/'' + 1
        in case stat_of path of
             None \<Rightarrow> None
           | Some st \<Rightarrow>
               if st_kind st \<noteq> S_DIR then None
               else
                 let matching = pi_dir_match inp \<noteq> DIR_MATCH_NONE \<and> pi_min_level inp = 0
                 in if matching \<and> \<not> dir_match (pi_dir_match inp) st then None
                    else
                      let name = take len path; parent = dirname_len (Some path) len
                      in Some \<lparr>pr_gqw = \<lparr>gw_name = name, gw_basename_len = length name - parent, gw_level = 0,
                             gw_sqlite3_name = fst (sqlite_uri_path (3 * len + 1) name), gw_id_match = matching\<rparr>,
                           pr_orig_root = name, pr_root_parent = take parent path\<rparr>)"

text \<open>One line: nothing, a crash, or a starting point.\<close>

definition gqw_path_list_line ::
    "pl_input \<Rightarrow> (string \<Rightarrow> stat option) \<Rightarrow> pl_root option \<Rightarrow> string \<Rightarrow> gqw enqueued" where
  "gqw_path_list_line inp lstat_of root line =
     (let l = line_name line
      in if 0 < pi_min_level inp \<and> root = None then Null_root
         else
           let name = (if 0 < pi_min_level inp then gw_name (pr_gqw (the root)) @ ''/'' @ l else l);
               sqlite3_size = (if 0 < pi_min_level inp then length (gw_sqlite3_name (pr_gqw (the root))) + 1 else 0) + 3 * length l + 1
           in if pi_dir_match inp \<noteq> DIR_MATCH_NONE
                \<and> (case lstat_of name of None \<Rightarrow> True | Some st \<Rightarrow> \<not> dir_match (pi_dir_match inp) st)
              then Enqueued []
              else if name = [] then Read_outside
              else if root = None then Null_root
              else Enqueued [\<lparr>gw_name = name, gw_basename_len = list_basename_len name, gw_level = pi_min_level inp,
                       gw_sqlite3_name = fst (sqlite_uri_path sqlite3_size name), gw_id_match = False\<rparr>])"

fun gqw_path_list_loop ::
    "pl_input \<Rightarrow> (string \<Rightarrow> stat option) \<Rightarrow> pl_root option \<Rightarrow> string list \<Rightarrow> gqw enqueued" where
  "gqw_path_list_loop inp lstat_of root [] = Enqueued []"
| "gqw_path_list_loop inp lstat_of root (line # lines) =
     (case gqw_path_list_line inp lstat_of root line of
        Enqueued ws \<Rightarrow> prepend ws (gqw_path_list_loop inp lstat_of root lines)
      | e \<Rightarrow> e)"

text \<open>\<open>file\<close> is the content of the list, \<open>None\<close> when it cannot be opened.\<close>

definition gqw_process_path_list ::
    "pl_input \<Rightarrow> (string \<Rightarrow> stat option) \<Rightarrow> string option \<Rightarrow> pl_root option \<Rightarrow> gqw enqueued" where
  "gqw_process_path_list inp lstat_of content root =
     (case content of None \<Rightarrow> Enqueued [] | Some s \<Rightarrow> gqw_path_list_loop inp lstat_of root (file_lines s))"

section \<open>gufi\_dir2index and gufi\_dir2trace\<close>

record pl_work =
  pw_name :: string
  pw_basename_len :: nat
  pw_level :: nat
  pw_orig_root :: string
  pw_root_parent :: string

definition path_list_line ::
    "pl_input \<Rightarrow> (string \<Rightarrow> stat option) \<Rightarrow> pl_root option \<Rightarrow> string \<Rightarrow> pl_work enqueued" where
  "path_list_line inp lstat_of root line =
     (let l = line_name line
      in if l = [] then Enqueued []
         else if 0 < pi_min_level inp \<and> root = None then Null_root
         else
           let name = (if 0 < pi_min_level inp \<and> gw_name (pr_gqw (the root)) \<noteq> []
                       then gw_name (pr_gqw (the root)) @ ''/'' @ l else l)
           in case lstat_of name of
                None \<Rightarrow> Enqueued []
              | Some st \<Rightarrow>
                  if st_kind st \<noteq> S_DIR then Enqueued []
                  else (case root of
                      None \<Rightarrow> Null_root
                    | Some r \<Rightarrow> Enqueued [\<lparr>pw_name = name, pw_basename_len = list_basename_len name, pw_level = pi_min_level inp,
                        pw_orig_root = pr_orig_root r, pw_root_parent = pr_root_parent r\<rparr>]))"

fun path_list_loop ::
    "pl_input \<Rightarrow> (string \<Rightarrow> stat option) \<Rightarrow> pl_root option \<Rightarrow> string list \<Rightarrow> pl_work enqueued" where
  "path_list_loop inp lstat_of root [] = Enqueued []"
| "path_list_loop inp lstat_of root (line # lines) =
     (case path_list_line inp lstat_of root line of
        Enqueued ws \<Rightarrow> prepend ws (path_list_loop inp lstat_of root lines)
      | e \<Rightarrow> e)"

text \<open>The number of directories is that of the list; -1 when it cannot be opened.\<close>

definition process_path_list ::
    "pl_input \<Rightarrow> (string \<Rightarrow> stat option) \<Rightarrow> string option \<Rightarrow> pl_root option \<Rightarrow> int \<times> pl_work enqueued" where
  "process_path_list inp lstat_of content root =
     (case content of
        None \<Rightarrow> (- 1, Enqueued [])
      | Some s \<Rightarrow>
          (case path_list_loop inp lstat_of root (file_lines s) of
             Enqueued ws \<Rightarrow> (int (length ws), Enqueued ws)
           | e \<Rightarrow> (0, e)))"

section \<open>Names\<close>

lemma file_lines_concat:
  "(\<And>l. l \<in> set ls \<Longrightarrow> LF \<notin> set l) \<Longrightarrow> file_lines (concat (map (\<lambda>l. l @ [LF]) ls)) = map (\<lambda>l. l @ [LF]) ls"
proof (induction ls)
  case (Cons l ls)
  let ?r = "concat (map (\<lambda>l. l @ [LF]) ls)"
  have l: "\<forall>c \<in> set l. c \<noteq> LF" using Cons.prems [of l] by auto
  then have "takeWhile (\<lambda>c. c \<noteq> LF) (l @ LF # ?r) = l" "dropWhile (\<lambda>c. c \<noteq> LF) (l @ LF # ?r) = LF # ?r"
    by (simp_all add: takeWhile_append2 dropWhile_append2)
  moreover have "file_lines ?r = map (\<lambda>l. l @ [LF]) ls"
    using Cons by simp
  ultimately show ?case
    by (subst file_lines.simps) (simp add: Let_def)
qed (simp add: file_lines.simps)

lemma line_name_LF:
  assumes "l = [] \<or> last l \<notin> {CR, LF}"
  shows "line_name (l @ [LF]) = l"
  using trailing_non_match_split [of "[LF]" "[CR, LF]" l "[]"] assms
  by (auto simp: line_name_def trailing_non_match_index_def)

lemma line_name_line:
  assumes "LF \<notin> set l" "l \<noteq> [] \<Longrightarrow> last l \<noteq> CR"
  shows "line_name (l @ [LF]) = l"
proof (rule line_name_LF)
  have "l \<noteq> [] \<Longrightarrow> last l \<noteq> LF" using assms(1) by (metis last_in_set)
  then show "l = [] \<or> last l \<notin> {CR, LF}" using assms(2) by auto
qed

lemma list_basename:
  assumes "SLASH \<notin> set b" "p \<noteq> []"
  shows "list_basename_len (p @ SLASH # b) = length b"
proof -
  obtain c p' where p: "p = c # p'" using assms(2) by (cases p) auto
  have "trailing_match ((p' @ [SLASH]) @ b @ []) (length (p' @ [SLASH]) + length b) ''/'' = length (p' @ [SLASH])"
    by (rule trailing_match_split) (use assms(1) in auto)
  then show ?thesis
    by (simp add: list_basename_len_def trailing_match_index_def p)
qed

text \<open>A name without a slash loses its first character.\<close>

lemma list_basename_relative:
  assumes "SLASH \<notin> set (tl b)"
  shows "list_basename_len b = length b - 1"
proof -
  have "trailing_match ([] @ tl b @ []) (length ([] :: string) + length (tl b)) ''/'' = length ([] :: string)"
    by (rule trailing_match_split) (use assms in auto)
  then show ?thesis
    by (simp add: list_basename_len_def trailing_match_index_def drop_Suc)
qed

lemma sqlite_uri_path_exact:
  "length (concat (map convert src)) \<le> dst_size \<Longrightarrow> sqlite_uri_path dst_size src = (concat (map convert src), length src)"
proof (induction src arbitrary: dst_size)
  case (Cons c cs)
  have "dst_size \<noteq> 0" using Cons.prems convert_ne [of c] by (cases "convert c") auto
  moreover have "length (convert c) \<le> dst_size" "length (concat (map convert cs)) \<le> dst_size - length (convert c)"
    using Cons.prems by simp_all
  ultimately show ?case
    using Cons.IH [of "dst_size - length (convert c)"] by (simp add: Let_def)
qed simp

section \<open>Directories of a level\<close>

text \<open>The directories the walk reaches in \<open>k\<close> steps.\<close>

fun works_at :: "gq_input \<Rightarrow> gq_env \<Rightarrow> string list \<Rightarrow> nat \<Rightarrow> gqw \<Rightarrow> gqw list" where
  "works_at inp env names 0 w = [w]"
| "works_at inp env names (Suc k) w = concat (map (works_at inp env names k) (kids inp env names w))"

lemma subtree_levels:
  "subtree inp env names w =
     mset (concat (map (\<lambda>j. works_at inp env names j w) [0..<k])) + sum_list (map (subtree inp env names) (works_at inp env names k w))"
proof (induction k arbitrary: w)
  case (Suc k)
  let ?kids = "kids inp env names w"
  have u: "[0..<Suc k] = 0 # map Suc [0..<k]"
    by (simp add: upt_conv_Cons map_Suc_upt del: upt_Suc)
  have m: "sum_list (map (\<lambda>c. mset (concat (map (\<lambda>j. works_at inp env names j c) [0..<k]))) cs) =
      mset (concat (map (\<lambda>j. concat (map (works_at inp env names j) cs)) [0..<k]))" for cs
    by (induction k) (simp_all add: sum_list_addf mset_concat o_def)
  have "subtree inp env names w = add_mset w (sum_list (map (subtree inp env names) ?kids))"
    by (subst subtree.simps) (rule refl)
  also have "map (subtree inp env names) ?kids =
      map (\<lambda>c. mset (concat (map (\<lambda>j. works_at inp env names j c) [0..<k]))
              + sum_list (map (subtree inp env names) (works_at inp env names k c))) ?kids"
    using Suc.IH by (intro map_cong refl)
  also have "sum_list \<dots> = mset (concat (map (\<lambda>j. concat (map (works_at inp env names j) ?kids)) [0..<k]))
      + sum_list (map (subtree inp env names) (works_at inp env names (Suc k) w))"
    by (simp only: sum_list_addf m sum_list_nested works_at.simps)
  finally show ?case
    unfolding u by (simp add: o_def)
qed simp

text \<open>What a directory has that was reached from \<open>root\<close>.\<close>

definition reached_dir :: "gqw \<Rightarrow> nat \<Rightarrow> gqw \<Rightarrow> bool" where
  "reached_dir root k w \<longleftrightarrow> gw_level w = k \<and> \<not> gw_id_match w \<and> gw_sqlite3_name w = concat (map convert (gw_name w))
     \<and> (\<exists>rel. gw_name w = gw_name root @ rel \<and> LF \<notin> set rel
          \<and> (0 < k \<longrightarrow> (\<exists>p b. rel = SLASH # p @ b \<and> (p = [] \<or> last p = SLASH) \<and> SLASH \<notin> set b \<and> gw_basename_len w = length b
                \<and> b \<noteq> [] \<and> last b \<noteq> CR)) \<and> (k = 0 \<longrightarrow> rel = []))"

text \<open>Names that can be in a list.\<close>

definition listable :: "gq_env \<Rightarrow> bool" where
  "listable env \<longleftrightarrow> (\<forall>p. \<forall>e \<in> set (ge_entries env p). fst e \<noteq> [] \<and> SLASH \<notin> set (fst e) \<and> LF \<notin> set (fst e) \<and> last (fst e) \<noteq> CR)"

lemma new_gqw_reached:
  assumes "new_gqw_with_name env w n t (gw_level w + 1) = Some (child, S_DIR)" "reached_dir root k w"
    "n \<noteq> []" "SLASH \<notin> set n" "LF \<notin> set n" "last n \<noteq> CR"
  shows "reached_dir root (Suc k) child"
proof -
  have c: "child = \<lparr>gw_name = gw_name w @ ''/'' @ n, gw_basename_len = length n, gw_level = gw_level w + 1,
      gw_sqlite3_name = gw_sqlite3_name w @ ''/'' @ concat (map convert n), gw_id_match = gw_id_match w\<rparr>"
    using assms(1,3) by (auto simp: new_gqw_with_name_def Let_def sqlite_uri_path_fits map_option_case split: if_splits option.splits)
  obtain rel where rel: "gw_name w = gw_name root @ rel" "LF \<notin> set rel" "k = 0 \<longrightarrow> rel = []"
    "0 < k \<longrightarrow> (\<exists>p b. rel = SLASH # p @ b \<and> (p = [] \<or> last p = SLASH) \<and> SLASH \<notin> set b \<and> gw_basename_len w = length b
                \<and> b \<noteq> [] \<and> last b \<noteq> CR)"
    using assms(2) unfolding reached_dir_def by (elim conjE exE) (rule that)
  have s: "convert SLASH = [SLASH]" by (simp add: convert_def need_convert_def)
  have "\<exists>p b. rel @ SLASH # n = SLASH # p @ b \<and> (p = [] \<or> last p = SLASH) \<and> SLASH \<notin> set b \<and> gw_basename_len child = length b
      \<and> b \<noteq> [] \<and> last b \<noteq> CR"
  proof (cases "k = 0")
    case True
    then show ?thesis using assms(3-6) rel(3) by (intro exI [of _ "[]"] exI [of _ n]) (simp add: c)
  next
    case False
    then obtain p b where "rel = SLASH # p @ b" using rel(4) by blast
    then show ?thesis
      using assms(3-6) by (intro exI [of _ "p @ b @ [SLASH]"] exI [of _ n]) (simp add: c)
  qed
  then show ?thesis
    using assms(2,5) rel(1,2) by (auto simp: reached_dir_def c s)
qed

lemma kids_reached:
  assumes "listable env" "gi_dir_match inp = DIR_MATCH_NONE" "reached_dir root k w" "x \<in> set (kids inp env names w)"
  shows "reached_dir root (Suc k) x"
proof -
  obtain e where e: "e \<in> set (ge_entries env (gw_name w))" "x \<in> set (entry_subdirs inp env w e)"
    using assms(4) by (auto simp: kids_def pushed_dirs_def subdirs_of_def split: if_splits)
  obtain child kind where n: "new_gqw_with_name env w (fst e) (snd e) (gw_level w + 1) = Some (child, kind)"
    using e(2) by (cases "new_gqw_with_name env w (fst e) (snd e) (gw_level w + 1)")
      (auto simp: entry_subdirs_def split: if_splits)
  have c: "new_gqw_with_name env w (fst e) (snd e) (gw_level w + 1) = Some (child, S_DIR)" "x = child"
    using n e(2) assms(2) by (cases kind; auto simp: entry_subdirs_def gq_push_def split: if_splits)+
  show ?thesis
    unfolding c(2) using assms(1) e(1) by (intro new_gqw_reached [OF c(1) assms(3)]) (auto simp: listable_def)
qed

lemma works_at_reached:
  assumes "listable env" "gi_dir_match inp = DIR_MATCH_NONE"
  shows "reached_dir root j w \<Longrightarrow> x \<in> set (works_at inp env names k w) \<Longrightarrow> reached_dir root (j + k) x"
proof (induction k arbitrary: j w)
  case (Suc k)
  then obtain c where "c \<in> set (kids inp env names w)" "x \<in> set (works_at inp env names k c)" by auto
  then show ?case
    using Suc.IH [OF kids_reached [OF assms Suc.prems(1)]] by fastforce
qed simp

text \<open>The path of a directory below the root, as it is in a list.\<close>

definition relative_path :: "gqw \<Rightarrow> gqw \<Rightarrow> string" where
  "relative_path root w = drop (length (gw_name root) + 1) (gw_name w)"

lemma reached_line:
  assumes "reached_dir root k w" "0 < k" "gw_name (pr_gqw r) = gw_name root" "gw_name root \<noteq> []"
    and "gw_sqlite3_name (pr_gqw r) = concat (map convert (gw_name root))"
    and "pi_min_level inp = k" "pi_dir_match inp = DIR_MATCH_NONE"
  shows "gqw_path_list_line inp lstat_of (Some r) (relative_path root w @ [LF]) = Enqueued [w]"
    and "LF \<notin> set (relative_path root w)"
proof -
  obtain p b where w: "gw_name w = gw_name root @ SLASH # p @ b" "p = [] \<or> last p = SLASH" "SLASH \<notin> set b"
    "gw_basename_len w = length b" "b \<noteq> []" "last b \<noteq> CR" "LF \<notin> set (p @ b)"
    using assms(1,2) by (auto simp: reached_dir_def)
  have l: "relative_path root w = p @ b" by (simp add: relative_path_def w)
  show "LF \<notin> set (relative_path root w)" using w(7) l by simp
  have n: "line_name (relative_path root w @ [LF]) = p @ b"
    using w(5,6,7) unfolding l by (intro line_name_line) simp_all
  have s: "convert SLASH = [SLASH]" by (simp add: convert_def need_convert_def)
  let ?name = "gw_name root @ SLASH # p @ b"
  have "length (concat (map convert t)) \<le> 3 * length t" for t
    using length_convert by (induction t) (auto simp: algebra_simps intro: order_trans add_mono)
  from this [of "p @ b"] have u: "fst (sqlite_uri_path (length (concat (map convert (gw_name root))) + 1 + 3 * length (p @ b) + 1) ?name) =
      concat (map convert ?name)"
    by (subst sqlite_uri_path_exact) (simp_all add: s)
  have "list_basename_len ?name = length b"
  proof (cases "p = []")
    case True
    then show ?thesis using list_basename [OF w(3) assms(4)] by simp
  next
    case False
    then obtain p' where "p = p' @ [SLASH]" using w(2) by (metis append_butlast_last_id)
    then show ?thesis using list_basename [OF w(3), of "gw_name root @ SLASH # p'"] by simp
  qed
  then have "gqw_path_list_line inp lstat_of (Some r) (relative_path root w @ [LF]) =
      Enqueued [\<lparr>gw_name = ?name, gw_basename_len = length b, gw_level = k, gw_sqlite3_name = concat (map convert ?name),
        gw_id_match = False\<rparr>]"
    using assms(2-7) u by (simp add: gqw_path_list_line_def Let_def n)
  also have "\<lparr>gw_name = ?name, gw_basename_len = length b, gw_level = k, gw_sqlite3_name = concat (map convert ?name),
        gw_id_match = False\<rparr> = w"
    using assms(1) w(1,4) unfolding reached_dir_def by (cases w) (simp add: s)
  finally show "gqw_path_list_line inp lstat_of (Some r) (relative_path root w @ [LF]) = Enqueued [w]" .
qed

lemma reached_lines:
  assumes "\<And>w. w \<in> set ws \<Longrightarrow> gqw_path_list_line inp lstat_of r (f w @ [LF]) = Enqueued [w]"
  shows "gqw_path_list_loop inp lstat_of r (map (\<lambda>w. f w @ [LF]) ws) = Enqueued ws"
  using assms by (induction ws) (simp_all add: prepend_def)

text \<open>The file with the paths of directories.\<close>

definition path_list_of :: "gqw \<Rightarrow> gqw list \<Rightarrow> string" where
  "path_list_of root ws = concat (map (\<lambda>l. l @ [LF]) (map (relative_path root) ws))"

section \<open>Properties\<close>

text \<open>C11: When the directories of a level are spread over lists, in any order, and a query is started with each list, then each
  starts with the directories of its list as the walk from the root would meet them, and all together handle what
  that walk handles from this level down, each directory once.  The root is as \<open>validate_source\<close> makes it, the level is not the top, neither query selects
  directories by their owner (\<open>--dir-match\<close>, which the lists do not respect, lemma \<open>path_list_forgets_match\<close>), and names
  of entries are not empty, have no slash and no newline and do not end in a carriage return.\<close>

theorem path_lists_cover_level:
  assumes "listable env" "gi_dir_match inp = DIR_MATCH_NONE" "reached_dir root 0 root" "gw_name root \<noteq> []"
    and "0 < pi_min_level pin" "pi_dir_match pin = DIR_MATCH_NONE" "pr_gqw r = root"
    and "mset (concat lsts) = mset (works_at inp env names (pi_min_level pin) root)"
  shows "(\<forall>ws \<in> set lsts. gqw_process_path_list pin lstat_of (Some (path_list_of root ws)) (Some r) = Enqueued ws)
    \<and> subtree inp env names root =
        mset (concat (map (\<lambda>j. works_at inp env names j root) [0..<pi_min_level pin]))
        + sum_list (map (\<lambda>ws. sum_list (map (subtree inp env names) ws)) lsts)"
proof (intro conjI ballI)
  fix ws assume ws: "ws \<in> set lsts"
  have m: "reached_dir root (pi_min_level pin) w" if "w \<in> set ws" for w
  proof -
    have "w \<in> set (concat lsts)" using ws that by auto
    then have "w \<in> set (works_at inp env names (pi_min_level pin) root)"
      using assms(8) by (metis set_mset_mset)
    from works_at_reached [OF assms(1,2,3) this] show ?thesis by simp
  qed
  have q: "gw_sqlite3_name (pr_gqw r) = concat (map convert (gw_name root))"
    using assms(3,7) by (simp add: reached_dir_def)
  note l = reached_line [OF m assms(5) _ assms(4) q refl assms(6)]
  have "file_lines (path_list_of root ws) = map (\<lambda>l. l @ [LF]) (map (relative_path root) ws)"
    unfolding path_list_of_def using l(2) assms(7) by (intro file_lines_concat) auto
  moreover have "gqw_path_list_loop pin lstat_of (Some r) (map (\<lambda>w. relative_path root w @ [LF]) ws) = Enqueued ws"
    using l(1) assms(7) by (intro reached_lines) simp
  ultimately show "gqw_process_path_list pin lstat_of (Some (path_list_of root ws)) (Some r) = Enqueued ws"
    by (simp add: gqw_process_path_list_def o_def)
next
  have "sum_list (map (subtree inp env names) (works_at inp env names (pi_min_level pin) root)) =
      sum_mset (image_mset (subtree inp env names) (mset (concat lsts)))"
    unfolding assms(8) by (rule sum_list_mset)
  also have "\<dots> = sum_list (map (\<lambda>ws. sum_list (map (subtree inp env names) ws)) lsts)"
    unfolding sum_list_mset [symmetric] by (rule sum_list_nested [where g = "\<lambda>x. x", simplified, symmetric])
  finally show "subtree inp env names root =
        mset (concat (map (\<lambda>j. works_at inp env names j root) [0..<pi_min_level pin]))
        + sum_list (map (\<lambda>ws. sum_list (map (subtree inp env names) ws)) lsts)"
    using subtree_levels [of inp env names root "pi_min_level pin"] by simp
qed

text \<open>C38: With a list and without an input path the list is read, and its first line that is not skipped reads through a null
  pointer, in all programs that take a list.\<close>

theorem path_list_without_root_crashes:
  assumes "l \<noteq> []" "LF \<notin> set l" "last l \<noteq> CR" "pi_path_list inp = Some file" "file \<noteq> []" "pi_dir_match inp = DIR_MATCH_NONE"
    and "0 < pi_min_level inp \<or> (\<exists>st. lstat_of l = Some st \<and> st_kind st = S_DIR)"
  shows "doing_partial_walk inp 0 \<and> \<not> bad_partial_walk inp 0
    \<and> gqw_process_path_list inp lstat_of (Some (l @ LF # rest)) None = Null_root
    \<and> snd (process_path_list inp lstat_of (Some (l @ LF # rest)) None) = Null_root"
proof -
  have t: "takeWhile (\<lambda>c. c \<noteq> LF) (l @ LF # rest) = l" "dropWhile (\<lambda>c. c \<noteq> LF) (l @ LF # rest) = LF # rest"
    using assms(2) by (auto simp: takeWhile_append dropWhile_append)
  have f: "file_lines (l @ LF # rest) = (l @ [LF]) # file_lines rest"
    by (subst file_lines.simps) (simp add: t Let_def)
  have n: "line_name (l @ [LF]) = l"
    using assms(2,3) by (rule line_name_line)
  show ?thesis
    using assms(1,4-7) n
    by (auto simp: doing_partial_walk_def bad_partial_walk_def gqw_process_path_list_def process_path_list_def f
        gqw_path_list_line_def path_list_line_def Let_def)
qed

text \<open>A path of a list that has no slash behind its first character is taken for a directory whose name lacks that
  character, when the list is not below a root.\<close>

theorem path_list_loses_character:
  assumes "l \<noteq> []" "SLASH \<notin> set (tl l)" "LF \<notin> set l" "last l \<noteq> CR" "pi_min_level inp = 0" "pi_dir_match inp = DIR_MATCH_NONE"
    and "lstat_of l = Some st" "st_kind st = S_DIR"
  shows "(\<exists>w. gqw_path_list_line inp lstat_of (Some r) (l @ [LF]) = Enqueued [w] \<and> gw_name w = l
      \<and> drop (length l - gw_basename_len w) l = tl l)
    \<and> (\<exists>w. path_list_line inp lstat_of (Some r) (l @ [LF]) = Enqueued [w] \<and> pw_name w = l
      \<and> drop (length l - pw_basename_len w) l = tl l)"
proof -
  have n: "line_name (l @ [LF]) = l"
    using assms(3,4) by (rule line_name_line)
  have b: "list_basename_len l = length l - 1" by (rule list_basename_relative [OF assms(2)])
  have d: "drop (length l - (length l - 1)) l = tl l"
    using assms(1) by (cases l) simp_all
  show ?thesis
    using assms by (simp add: gqw_path_list_line_def path_list_line_def Let_def n b d [unfolded One_nat_def])
qed

text \<open>A starting point from a list that matched is not marked as such, so that directories below it have to match themselves;
  those below an input path that matched do not.\<close>

lemma path_list_forgets_match:
  assumes "pi_dir_match pin = gi_dir_match inp" "gi_dir_match inp \<noteq> DIR_MATCH_NONE" "gi_min_level inp \<le> gw_level child"
    and "ge_lstat env (gw_name child) = Some st" "\<not> dir_match (gi_dir_match inp) st"
    and "validate_source pin stat_of path = Some r" "pi_min_level pin = 0"
    and "gqw_path_list_line pin lstat_of root line = Enqueued [w]"
  shows "gq_push inp env (child\<lparr>gw_id_match := gw_id_match (pr_gqw r)\<rparr>) \<noteq> None
    \<and> gq_push inp env (child\<lparr>gw_id_match := gw_id_match w\<rparr>) = None"
proof -
  have "gw_id_match (pr_gqw r)"
    using assms(1,2,6,7) by (auto simp: validate_source_def Let_def split: if_splits option.splits)
  moreover have "\<not> gw_id_match w"
    using assms(8) by (auto simp: gqw_path_list_line_def Let_def split: if_splits)
  ultimately show ?thesis
    using assms(2-5) by (simp add: gq_push_def)
qed

definition tiny_pl_root :: pl_root where
  "tiny_pl_root = \<lparr>pr_gqw = tiny_root, pr_orig_root = ''r'', pr_root_parent = []\<rparr>"

definition tiny_pl_input :: "nat \<Rightarrow> pl_input" where
  "tiny_pl_input n = \<lparr>pi_min_level = n, pi_path_list = Some ''f'', pi_dir_match = DIR_MATCH_NONE\<rparr>"

lemma path_lists_cover_level_witness:
  "gqw_process_path_list (tiny_pl_input 1) (\<lambda>_. None) (Some (path_list_of tiny_root [tiny_child])) (Some tiny_pl_root) =
     Enqueued [tiny_child]"
proof -
  have l: "listable tiny_env" by (auto simp: listable_def tiny_env_def)
  have r: "reached_dir tiny_root 0 tiny_root"
    by (simp add: reached_dir_def tiny_root_def convert_def need_convert_def)
  have m: "mset (concat [[tiny_child]]) =
      mset (works_at (tiny_input RUN_SE) tiny_env [''main''] (pi_min_level (tiny_pl_input 1)) tiny_root)"
    by (simp add: tiny_pl_input_def tiny_kids)
  have "gi_dir_match (tiny_input RUN_SE) = DIR_MATCH_NONE" "gw_name tiny_root \<noteq> []" "0 < pi_min_level (tiny_pl_input 1)"
    "pi_dir_match (tiny_pl_input 1) = DIR_MATCH_NONE" "pr_gqw tiny_pl_root = tiny_root"
    by (simp_all add: tiny_input_def tiny_root_def tiny_pl_input_def tiny_pl_root_def)
  from path_lists_cover_level [OF l this(1) r this(2-5) m, of "\<lambda>_. None"] show ?thesis by simp
qed

lemma path_list_without_root_crashes_witness:
  "gqw_process_path_list (tiny_pl_input 0) (\<lambda>_. Some \<lparr>st_kind = S_DIR, st_uid = 0, st_gid = 0\<rparr>) (Some (''d'' @ LF # [])) None = Null_root"
  using path_list_without_root_crashes [of "''d''" "tiny_pl_input 0" "''f''" "\<lambda>_. Some \<lparr>st_kind = S_DIR, st_uid = 0, st_gid = 0\<rparr>" "[]"]
  by (simp add: tiny_pl_input_def)

lemma path_list_loses_character_witness:
  "\<exists>w. gqw_path_list_line (tiny_pl_input 0) (\<lambda>_. Some \<lparr>st_kind = S_DIR, st_uid = 0, st_gid = 0\<rparr>) (Some tiny_pl_root) (''abc'' @ [LF])
     = Enqueued [w] \<and> drop (length ''abc'' - gw_basename_len w) ''abc'' = ''bc''"
  using path_list_loses_character [of "''abc''" "tiny_pl_input 0" "\<lambda>_. Some \<lparr>st_kind = S_DIR, st_uid = 0, st_gid = 0\<rparr>"
      "\<lparr>st_kind = S_DIR, st_uid = 0, st_gid = 0\<rparr>" tiny_pl_root]
  by (auto simp: tiny_pl_input_def)

end
