(* ===== verification/Spec2Isabelle.thy ===== *)
theory Spec2Isabelle
  imports Prelude Sll Trie Bytes Utils FdIO Xattrs Trace TraceScan Summary Swap Pool PoolSteps PoolRun PoolProps Rollup HistText Hist HistTime HistCategory TreeSummary BottomUp BottomUpProps Unrollup Topdown Replace ExtAttach Output OutputProps Query QueryProps Entries Descend Work Index IndexTrace SqlFuncs SqlPaths Incremental IncrementalProps Find Aggregate Plugins PathList
begin

text \<open>
  \<^bold>\<open>GUFI, the Grand Unified File Index: a verification library.\<close>

  GUFI keeps the metadata of a file system in a tree of directories of its own, the \<^emph>\<open>index\<close>, with one SQLite database
  \<open>db.db\<close> in each directory.  One set of programs builds an index (from a file system, or by way of a text file, a
  \<^emph>\<open>trace\<close>), another changes it (summaries of subtrees, rolling subdirectories up into their parents and undoing that,
  following changes of the file system), and a third runs SQL in every directory of it.  All of them walk trees with
  the same pool of threads.  This theory imports all others and holds nothing but this description; the properties are
  stated in the theories of the parts they are about, those that join parts in the theories named \<open>...Props\<close>,
  \<open>IndexTrace\<close> and \<open>SqlPaths\<close>.

  \<^bold>\<open>Conventions.\<close>  Records have the fields of the C structs, enumerations are datatypes, C integers are words of their
  width where a cast, a wrap-around or a comparison depends on it (\<open>size_t\<close> and \<open>long long\<close> as \<open>64 word\<close>, \<open>int\<close> and
  \<open>mode_t\<close> as \<open>32 word\<close>) and \<open>int\<close> or \<open>nat\<close> where an overflow would be undefined in C or cannot occur.  Strings are lists
  of characters without the final null byte unless a theory says otherwise; text in buffers is a list of bytes or a
  list of optional bytes of the length of the buffer, so that a write behind its end is a visible failure.  Failures are
  \<open>None\<close> or a constructor of their own.  What the code does not contain -- the system calls, SQLite, zlib, plugins and
  the user database -- is an argument of the definition that uses it, with its documented behaviour as a hypothesis where
  it is needed; functions that stand for it are only in examples (\<open>example_path\<close>, \<open>tiny_deflate\<close>, \<open>sum_list\<close> for
  \<open>TOTAL\<close>), to show that the hypotheses can hold.  A database is what the statements of the code make of it: lists of rows with the columns that some
  statement reads or changes.

  \<^bold>\<open>Shared data structures\<close> (\<open>src/src\<close>, \<open>src/include\<close>).
  \<^item> \<open>Sll\<close>: \<open>SinglyLinkedList.c\<close> with nodes in a heap and every dereference checked; each operation refines an operation on
    lists and keeps \<open>sll_ok\<close>, which names these lists; the laws are the locale \<open>fifo_queue\<close>.
  \<^item> \<open>Trie\<close>: \<open>trie.c\<close>; insertion, search and deletion against a partial map of strings (locale \<open>string_map\<close>), with the exact
    effect of deletion, which can take other strings with it.
  \<^item> \<open>Bytes\<close>, \<open>Utils\<close>, \<open>FdIO\<close>: the number formats of \<open>printf\<close> and \<open>scanf\<close> as far as used, the string helpers of \<open>utils.c\<close> and
    \<open>str.c\<close>, and the loops around \<open>read\<close>, \<open>pread\<close> and \<open>write\<close> whose calls transfer what a script of results says.
  \<^item> \<open>Swap\<close>: \<open>swap.c\<close>, a pair of files that exchange their roles; what is read is what was written, once, in order.
  \<^item> \<open>Work\<close>: work items (\<open>bf.c\<close>), their compression (\<open>compress.c\<close>) and the bytes they have in a swap file, with the bytes behind
    them that zlib is told to read.
  \<^item> \<open>HistText\<close>, \<open>Hist\<close>, \<open>HistTime\<close>, \<open>HistCategory\<close>: \<open>histogram.c\<close>.  Inserting, printing, parsing and combining of each kind of
    histogram; the locale \<open>histogram\<close> states once that combining texts of groups is the histogram of everything, and has
    one interpretation per kind.

  \<^bold>\<open>The pool of threads\<close> (\<open>QueuePerThreadPool.c\<close>).  \<open>Pool\<close> has each operation as a function on the state of the pool:
  enqueueing with its swapping, the three kinds of stealing, claiming, waiting and stopping.  \<open>PoolSteps\<close> is the
  inductive step relation of all workers and the client, a step being what happens between taking and releasing a
  mutex; \<open>PoolRun\<close> proves the invariant of all reachable states by rule induction, and \<open>PoolProps\<close> the properties:
  every accepted item is in exactly one place, nothing is left when a worker returns, some worker can step while
  there is work, stopping ends (a measure decreases), and the one way to wait for ever.

  \<^bold>\<open>Walks.\<close>  \<open>Descend\<close> (\<open>descend.c\<close>) is the way down: which entries are skipped, handed on as new items or handled in place, and
  the walk by any number of threads as a step relation.  \<open>BottomUp\<close> and \<open>BottomUpProps\<close> (\<open>BottomUp.c\<close>) are the way down and up
  again with the counters of unfinished subdirectories: children come first, every directory is processed once, and
  every run ends.

  \<^bold>\<open>Building an index.\<close>  \<open>Entries\<close> and \<open>Xattrs\<close> (\<open>xattrs.c\<close>) are what is known of an entry.  \<open>Trace\<close> and \<open>TraceScan\<close> (\<open>trace.c\<close>)
  write and read the lines of a trace and find the directories in it, cut into chunks that threads scan
  independently.  \<open>Summary\<close> (\<open>utils.c\<close>) has \<open>zeroit\<close>, \<open>sumit\<close> and \<open>tsumit\<close>.  \<open>Index\<close> is the content of a database as
  \<open>gufi_dir2index.c\<close>, \<open>gufi_dir2trace.c\<close> and \<open>gufi_trace2index.c\<close> make it, and \<open>IndexTrace\<close> shows that the direct way and the way
  through a trace agree, and where they do not.

  \<^bold>\<open>Changing an index.\<close>  \<open>Rollup\<close> (\<open>rollup.c\<close>, \<open>gufi_rollup.c\<close>): the permission rules, the decision and the statements, over a tree of
  directories with databases (\<open>'e dir\<close>, the entries are a parameter); \<open>Unrollup\<close> (\<open>gufi_unrollup.c\<close>) brings back the rows
  of \<open>summary\<close> and \<open>entries\<close>, not those of \<open>treesummary\<close>;
  \<open>Topdown\<close> (\<open>gufi_rollup_topdown.c\<close>) copies whole subtrees by several threads and merges.  \<open>TreeSummary\<close> (\<open>gufi_treesummary.c\<close>,
  \<open>gufi_treesummary_all.c\<close>, \<open>dbutils.c\<close>) are the three ways to a tree summary, which agree in all columns but \<open>maxsubdirsize\<close>.  \<open>Incremental\<close> and \<open>IncrementalProps\<close>
  (\<open>gufi_incremental_update\<close>) compare two snapshots and move, create and delete the directories of the index through a
  parking lot; the result is the tree of the second snapshot, shown by a simulation on placements of inodes.

  \<^bold>\<open>Querying.\<close>  \<open>Query\<close> and \<open>QueryProps\<close> (\<open>gufi_query\<close>): what happens in one directory, with all failures, and the walk.
  \<open>Replace\<close> (\<open>query_replacement.c\<close>, \<open>query_user_strs.c\<close>) puts values into the SQL of the user; \<open>ExtAttach\<close> (\<open>external_attach.c\<close>) attaches
  external databases; \<open>SqlFuncs\<close> and \<open>SqlPaths\<close> (\<open>addqueryfuncs.c\<close>) are the functions SQL can call, and what they say of paths
  in an index that was rolled up; \<open>Output\<close> and \<open>OutputProps\<close> (\<open>OutputBuffers.c\<close>, \<open>print.c\<close>, the reader of \<open>gufi_vt.c\<close>) are the rows on
  their way to a file and back into a virtual table.
  \<open>Aggregate\<close> (\<open>gufi_query/aggregate.c\<close>) collects what the threads have, and shows that the result of a query does not depend
  on which thread did which directory; \<open>PathList\<close> (\<open>path_list.c\<close>, \<open>gufi_query/main.c\<close>) starts in the middle of a tree; \<open>Plugins\<close>
  (\<open>plugin.c\<close>, \<open>gufi_query/PoolArgs.c\<close>, \<open>handle_sql.c\<close> and \<open>main.c\<close>) has the life of plugins from loading to exit with every failure between.

  \<^bold>\<open>Tools beside the index.\<close>  \<open>Find\<close> (\<open>parallel_find.c\<close>): the formats with their buffer of 4096 bytes, and what is printed for a
  walk of \<open>Descend\<close> by any number of threads.

  \<^bold>\<open>Bounds and fuel.\<close>  Loops are structural recursion or recursion with a measure; where a loop depends on results of
  system calls it consumes the list of these results.  The exceptions have fuel.  \<open>processdir_walk\<close> in \<open>Descend\<close>, which works on
  directories in place, has one for each level left (\<open>walk_fuel\<close>), and \<open>processdir_walk_ok\<close> states that this is enough;
  \<open>sll_destroy\<close> in \<open>Sll\<close> follows pointers and needs one for each node (\<open>sll_destroy_ok\<close>); \<open>read_list_loop\<close> in \<open>ExtAttach\<close>
  is given one for each byte of the file and one more, and \<open>read_list_loop_eq\<close> has its result for any such number;
  \<open>wait_swapped\<close> in \<open>Pool\<close> counts rounds of a loop that may have no end, so that \<open>None\<close> for every number of rounds means that it has
  none.  \<open>divide_1024\<close> in \<open>SqlFuncs\<close> is a \<open>partial_function\<close>, as the loop of \<open>human_readable_size\<close> does not end
  on infinity.  Runs of threads are step relations, and that they end, or can always go on, are theorems
  (\<open>pool_stop_ends\<close>, \<open>pool_progress\<close>, \<open>bottomup_terminates\<close>, \<open>walk_handles_everything\<close>).

  \<^bold>\<open>Not modelled.\<close>  Code that only passes arguments to other libraries: the calls that open databases and prepare
  statements (\<open>dbutils.c\<close> but for the functions named above, \<open>template_db.c\<close>, \<open>gufi_sqlite3.c\<close>), reading of command lines (\<open>bf.c\<close>) and
  the main programs, and the printing of statistics.  Programs without rules of their own: \<open>parallel_cpr.c\<close>, \<open>parallel_rmr.c\<close>,
  \<open>gufi_trace2dir.c\<close>, \<open>gufi_index2dir.c\<close>, \<open>gufi_stat.c\<close>, \<open>gufi_top_info.c\<close>, \<open>dfw.c\<close>, which call the file system on each entry of a walk.  The FUSE
  programs \<open>bffuse.c\<close> and \<open>bfresultfuse.c\<close>, the GPFS scanners with the vendor's header, the plugins and generators under
  \<open>src/contrib\<close> and everything in other languages.  Values of clocks, times of statistics, text of messages on standard
  error, exhaustion of memory where the code does not test for it, and floating point rounding are outside of the
  model; where a floating point number decides something (logarithms of histograms) it is a parameter.
\<close>

end
